(* ===== verification/Prelude.thy ===== *)
theory Prelude
  imports Main "HOL-Library.Word"
begin

unbundle bit_operations_syntax

text \<open>
  Shared vocabulary of the development: machine integers, the constants of
  \<^verbatim>\<open>kernel/param.h\<close>, sleep channels, the result type of operations that may
  panic, sleep or loop, pointer chains, and the list and word lemmas that several
  components use.

  C \<^verbatim>\<open>int\<close> values are \<^typ>\<open>int\<close>.  Where user code can drive an \<^verbatim>\<open>int\<close> over its range
  (the value of a semaphore) the arithmetic wraps by \<open>cint\<close>, as the processor's 32-bit addition
  does; the other counters are bounded by the kernel's tables.  \<^verbatim>\<open>uint\<close> is \<open>32 word\<close>, \<^verbatim>\<open>uint64\<close> and
  addresses are \<open>64 word\<close>, and bytes are \<open>8 word\<close>.
\<close>

section \<open>Machine types and system limits\<close>

type_synonym u8 = "8 word"
type_synonym u16 = "16 word"
type_synonym u32 = "32 word"
type_synonym u64 = "64 word"
type_synonym byte = "8 word"

abbreviation (input) NPROC :: nat where "NPROC \<equiv> 64"
abbreviation (input) NOFILE :: nat where "NOFILE \<equiv> 16"
abbreviation (input) NFILE :: nat where "NFILE \<equiv> 100"
abbreviation (input) NINODE :: nat where "NINODE \<equiv> 50"
abbreviation (input) NDEV :: int where "NDEV \<equiv> 10"
abbreviation (input) MAXOPBLOCKS :: nat where "MAXOPBLOCKS \<equiv> 10"
abbreviation (input) LOGSIZE :: nat where "LOGSIZE \<equiv> 30"
abbreviation (input) NBUF :: nat where "NBUF \<equiv> 30"
abbreviation (input) NPRIO :: int where "NPRIO \<equiv> 32"
abbreviation (input) PRIO_MIN :: int where "PRIO_MIN \<equiv> 0"
abbreviation (input) PRIO_MAX :: int where "PRIO_MAX \<equiv> 31"
abbreviation (input) PRIO_DEFAULT :: int where "PRIO_DEFAULT \<equiv> 20"
abbreviation (input) AGING_TICKS :: int where "AGING_TICKS \<equiv> 20"

text \<open>32-bit signed arithmetic: the value of an \<^verbatim>\<open>int\<close> that was computed as \<open>v\<close>.\<close>

abbreviation (input) INT_MAX :: int where "INT_MAX \<equiv> 2147483647"

definition cint :: "int \<Rightarrow> int" where
  "cint v = (v + 2147483648) mod 4294967296 - 2147483648"

lemma cint_id [simp]: "- INT_MAX - 1 \<le> v \<Longrightarrow> v \<le> INT_MAX \<Longrightarrow> cint v = v"
  by (simp add: cint_def)

lemma cint_step [simp]: "cint (cint v + d) = cint (v + d)" "cint (cint v - d) = cint (v - d)"
proof -
  have "cint v + d + 2147483648 = (v + 2147483648) mod 4294967296 + d"
    "cint v - d + 2147483648 = (v + 2147483648) mod 4294967296 - d" by (simp_all add: cint_def)
  then show "cint (cint v + d) = cint (v + d)" "cint (cint v - d) = cint (v - d)"
    unfolding cint_def [of "cint v + d"] cint_def [of "cint v - d"]
    by (simp_all only: mod_add_left_eq mod_diff_left_eq) (simp_all add: cint_def algebra_simps)
qed

section \<open>Sleep channels\<close>

text \<open>
  The kernel sleeps on addresses of its own objects.  Distinct objects have distinct
  addresses, so a channel is named by the object: a process slot, the tick counter, the
  log, the sleep lock of an inode or of a buffer, the two counters of a pipe (by the
  pipe's page), a semaphore or reader-writer lock (by its table index), the console read
  index, the transmit index of the serial line, and the descriptor table of the disk.
\<close>

datatype chan =
    Ch_proc nat
  | Ch_ticks
  | Ch_log
  | Ch_inode nat
  | Ch_buf nat
  | Ch_disk_buf nat
  | Ch_disk_free
  | Ch_pipe_nread u64
  | Ch_pipe_nwrite u64
  | Ch_cons_r
  | Ch_uart_tx_r
  | Ch_sem nat
  | Ch_rw nat

section \<open>Results\<close>

text \<open>
  An operation returns its value (and new state) or stops: the kernel panics with a
  message, the calling process goes to sleep on a channel, a loop never ends, or the code
  touches an array outside its bounds.
\<close>

datatype stop = Panic string | Sleeping chan | Diverges | OutOfBounds

type_synonym 'a res = "stop + 'a"

definition bnd :: "'a res \<Rightarrow> ('a \<Rightarrow> 'b res) \<Rightarrow> 'b res" where
  "bnd m f = (case m of Inl e \<Rightarrow> Inl e | Inr x \<Rightarrow> f x)"

definition of_loop :: "'a res option \<Rightarrow> 'a res" where
  "of_loop r = (case r of None \<Rightarrow> Inl Diverges | Some x \<Rightarrow> x)"

named_theorems res_simps \<open>inversion of results\<close>

lemma bnd_simps [simp]: "bnd (Inl e) f = Inl e" "bnd (Inr x) f = f x"
  by (simp_all add: bnd_def)

lemma of_loop_simps [simp]: "of_loop None = Inl Diverges" "of_loop (Some x) = x"
  by (simp_all add: of_loop_def)

lemma bnd_Inr_iff [res_simps]: "bnd m f = Inr y \<longleftrightarrow> (\<exists>x. m = Inr x \<and> f x = Inr y)"
  by (cases m) auto

lemma bnd_Inl_iff [res_simps]:
  "bnd m f = Inl e \<longleftrightarrow> m = Inl e \<or> (\<exists>x. m = Inr x \<and> f x = Inl e)"
  by (cases m) auto

lemma bnd_assoc: "bnd (bnd m f) g = bnd m (\<lambda>x. bnd (f x) g)"
  by (cases m) auto

lemma bnd_cong [fundef_cong]:
  "m = m' \<Longrightarrow> (\<And>x. m' = Inr x \<Longrightarrow> f x = f' x) \<Longrightarrow> bnd m f = bnd m' f'"
  by (cases m') auto

lemma of_loop_Inr_iff [res_simps]: "of_loop r = Inr y \<longleftrightarrow> r = Some (Inr y)"
  by (cases r) auto

text \<open>Loops that branch on a pointer or on a result are monotone.\<close>

lemma case_option_mono [partial_function_mono]:
  "monotone orda ordb (\<lambda>f. g f) \<Longrightarrow> (\<And>y. monotone orda ordb (\<lambda>f. h f y)) \<Longrightarrow>
   monotone orda ordb (\<lambda>f. case x of None \<Rightarrow> g f | Some y \<Rightarrow> h f y)"
  by (cases x) auto

lemma case_sum_mono [partial_function_mono]:
  "(\<And>y. monotone orda ordb (\<lambda>f. g f y)) \<Longrightarrow> (\<And>y. monotone orda ordb (\<lambda>f. h f y)) \<Longrightarrow>
   monotone orda ordb (\<lambda>f. case x of Inl y \<Rightarrow> g f y | Inr y \<Rightarrow> h f y)"
  by (cases x) auto

section \<open>Pointer chains\<close>

text \<open>
  \<open>chain h p xs\<close> says that following the link field \<open>h\<close> from the pointer \<open>p\<close> visits
  exactly the nodes \<open>xs\<close> and ends at a null pointer; \<open>chase n h p\<close> is the computable
  walk of at most \<open>n\<close> nodes.
\<close>

fun chain :: "('a \<Rightarrow> 'a option) \<Rightarrow> 'a option \<Rightarrow> 'a list \<Rightarrow> bool" where
  "chain h p [] \<longleftrightarrow> p = None"
| "chain h p (x # xs) \<longleftrightarrow> p = Some x \<and> chain h (h x) xs"

fun chase :: "nat \<Rightarrow> ('a \<Rightarrow> 'a option) \<Rightarrow> 'a option \<Rightarrow> 'a list" where
  "chase 0 h p = []"
| "chase (Suc n) h p = (case p of None \<Rightarrow> [] | Some x \<Rightarrow> x # chase n h (h x))"

lemma chain_None [simp]: "chain h None xs \<longleftrightarrow> xs = []"
  by (cases xs) auto

lemma chain_Some: "chain h (Some x) xs \<longleftrightarrow> (\<exists>ys. xs = x # ys \<and> chain h (h x) ys)"
  by (cases xs) auto

lemma chain_frame [simp]: "u \<notin> set xs \<Longrightarrow> chain (h(u := v)) p xs = chain h p xs"
  by (induction xs arbitrary: p) auto

lemma chain_cong: "(\<And>x. x \<in> set xs \<Longrightarrow> h x = h' x) \<Longrightarrow> chain h p xs = chain h' p xs"
  by (induction xs arbitrary: p) auto

lemma chain_unique: "chain h p xs \<Longrightarrow> chain h p ys \<Longrightarrow> xs = ys"
proof (induction xs arbitrary: p ys)
  case Nil
  then show ?case by simp
next
  case (Cons x xs)
  then show ?case by (auto simp: chain_Some)
qed

lemma chain_append_tail: "chain h p (xs @ ys) \<Longrightarrow> \<exists>q. chain h q ys"
  by (induction xs arbitrary: p) auto

lemma chain_hd_notin: "chain h p (x # xs) \<Longrightarrow> x \<notin> set xs"
proof
  assume c: "chain h p (x # xs)" and "x \<in> set xs"
  then obtain as bs where xs: "xs = as @ x # bs" by (meson split_list)
  with c have "chain h (h x) (as @ x # bs)" by simp
  then obtain q where "chain h q (x # bs)" using chain_append_tail by fastforce
  then have "chain h (h x) bs" by simp
  with c xs have "bs = as @ x # bs" by (simp add: chain_unique)
  then have "length bs = length (as @ x # bs)" by (rule arg_cong)
  then show False by simp
qed

lemma chain_distinct: "chain h p xs \<Longrightarrow> distinct xs"
proof (induction xs arbitrary: p)
  case Nil
  then show ?case by simp
next
  case (Cons x xs)
  then show ?case using chain_hd_notin [OF Cons.prems] by auto
qed

lemma chain_chase: "chain h p xs \<Longrightarrow> length xs \<le> n \<Longrightarrow> chase n h p = xs"
proof (induction xs arbitrary: p n)
  case Nil
  then show ?case by (cases n) auto
next
  case (Cons x xs)
  then show ?case by (cases n) auto
qed

lemma chain_snoc:
  "chain h p xs \<Longrightarrow> xs \<noteq> [] \<Longrightarrow> y \<notin> set xs \<Longrightarrow> h y = None \<Longrightarrow>
   chain (h(last xs := Some y)) p (xs @ [y])"
proof (induction xs arbitrary: p)
  case Nil
  then show ?case by simp
next
  case (Cons x xs)
  have "x \<notin> set xs" using Cons.prems(1) by (rule chain_hd_notin)
  then show ?case
    using Cons by (cases "xs = []") (auto dest: last_in_set)
qed

lemma chain_head: "chain h p xs \<Longrightarrow> p = (case xs of [] \<Rightarrow> None | x # _ \<Rightarrow> Some x)"
  by (cases xs) auto

lemma chain_append:
  "chain h p (as @ x # bs) \<Longrightarrow> chain h (Some x) (x # bs)"
  by (induction as arbitrary: p) auto

lemma chain_next:
  "chain h p (as @ x # bs) \<Longrightarrow> h x = (case bs of [] \<Rightarrow> None | y # _ \<Rightarrow> Some y)"
  by (drule chain_append, rule chain_head [of h]) simp

lemma chain_unlink_head: "chain h p (x # xs) \<Longrightarrow> chain (h(x := None)) (h x) xs"
  using chain_hd_notin [of h p x xs] by simp

lemma chain_skip:
  assumes "chain h p (as @ l # x # bs)" and h': "h' = h(l := h x)"
  shows "chain h' p (as @ l # bs)"
  using assms(1)
proof (induction as arbitrary: p)
  case Nil
  then have "chain h p (l # x # bs)" by simp
  then have "l \<notin> set (x # bs)" by (rule chain_hd_notin)
  then have "chain (h(l := h x)) (h x) bs = chain h (h x) bs" by simp
  with Nil show ?case unfolding h' by (simp only: chain.simps append_Nil fun_upd_same)
next
  case (Cons a as)
  have "distinct ((a # as) @ l # x # bs)" using Cons.prems by (rule chain_distinct)
  then have "h' a = h a" by (simp add: h')
  with Cons show ?case by simp
qed

lemma chain_unlink:
  assumes "chain h p (as @ x # bs)" "as \<noteq> []"
  shows "chain (h(last as := h x, x := None)) p (as @ bs)"
proof -
  have as: "as = butlast as @ [last as]" using assms(2) by simp
  then have "chain h p (butlast as @ last as # x # bs)" using assms(1)
    by (metis append.assoc append_Cons append_Nil)
  then have "chain (h(last as := h x)) p (butlast as @ last as # bs)"
    by (rule chain_skip) (rule refl)
  then have "chain (h(last as := h x)) p (as @ bs)" using as
    by (metis append.assoc append_Cons append_Nil)
  moreover have "x \<notin> set (as @ bs)" using chain_distinct [OF assms(1)] by simp
  ultimately show ?thesis by (subst chain_frame)
qed

lemma remove1_split: "x \<notin> set as \<Longrightarrow> remove1 x (as @ x # bs) = as @ bs"
  by (simp add: remove1_append)

section \<open>First index with a property\<close>

lemma find_Some_sorted:
  "sorted xs \<Longrightarrow> find P xs = Some x \<Longrightarrow>
   x \<in> set xs \<and> P x \<and> (\<forall>y\<in>set xs. y < (x :: int) \<longrightarrow> \<not> P y)"
  by (induction xs) (auto split: if_splits)

lemma find_upto_Some:
  assumes "find P [0..n - 1] = Some h"
  shows "0 \<le> h \<and> h < n \<and> P h \<and> (\<forall>i. 0 \<le> i \<and> i < h \<longrightarrow> \<not> P i)"
  using find_Some_sorted [OF _ assms] by auto

lemma find_upto_None:
  "find P [0..n - 1] = None \<Longrightarrow> 0 \<le> i \<Longrightarrow> i < n \<Longrightarrow> \<not> P i"
  by (auto simp: find_None_iff)

lemma length_takeWhile_less:
  "x \<in> set xs \<Longrightarrow> \<not> P x \<Longrightarrow> length (takeWhile P xs) < length xs"
  by (induction xs) auto

lemma count_list_replicate [simp]:
  "count_list (replicate n x) y = (if x = y then n else 0)"
  by (induction n) auto

end
