(* ===== verification/Spinlock.thy ===== *)
theory Spinlock
  imports Prelude
begin

text \<open>
  Spin locks and interrupt nesting: \<^verbatim>\<open>kernel/spinlock.c\<close> and \<^verbatim>\<open>struct cpu\<close> of
  \<^verbatim>\<open>kernel/proc.h\<close>.  The functions take the number \<open>h\<close> of the hart that runs
  them (\<^verbatim>\<open>cpuid()\<close>).  The interrupt-enable bit of each hart is part of the state.
  Besides the functions, the theory has the step relation of one lock shared by all
  harts, in which the atomic swap, the store to \<^verbatim>\<open>lk->cpu\<close> and the release are
  separate steps, and its mutual exclusion.
\<close>

section \<open>State\<close>

text \<open>The saved registers of \<^verbatim>\<open>struct context\<close>; \<open>ctx_s\<close> holds the twelve registers
  \<^verbatim>\<open>s0\<close> to \<^verbatim>\<open>s11\<close>.\<close>

record ctxt =
  ctx_ra :: u64
  ctx_sp :: u64
  ctx_s :: "nat \<Rightarrow> u64"

record cpu =
  c_proc :: "nat option"
  c_context :: ctxt
  c_noff :: int
  c_intena :: bool
  c_idleproc :: "nat option"
  c_preempt_pending :: bool

record harts =
  cpus :: "nat \<Rightarrow> cpu"
  sie :: "nat \<Rightarrow> bool"

record spinlock =
  lk_locked :: bool
  lk_cpu :: "nat option"

definition initlock :: "spinlock" where
  "initlock = \<lparr>lk_locked = False, lk_cpu = None\<rparr>"

section \<open>Interrupt nesting\<close>

definition intr_get :: "nat \<Rightarrow> harts \<Rightarrow> bool" where
  "intr_get h s = sie s h"

definition intr_off :: "nat \<Rightarrow> harts \<Rightarrow> harts" where
  "intr_off h s = s\<lparr>sie := (sie s)(h := False)\<rparr>"

definition intr_on :: "nat \<Rightarrow> harts \<Rightarrow> harts" where
  "intr_on h s = s\<lparr>sie := (sie s)(h := True)\<rparr>"

definition upd_cpu :: "nat \<Rightarrow> (cpu \<Rightarrow> cpu) \<Rightarrow> harts \<Rightarrow> harts" where
  "upd_cpu h f s = s\<lparr>cpus := (cpus s)(h := f (cpus s h))\<rparr>"

definition push_off :: "nat \<Rightarrow> harts \<Rightarrow> harts" where
  "push_off h s =
     (let old = intr_get h s;
          s = intr_off h s;
          s = (if c_noff (cpus s h) = 0 then upd_cpu h (\<lambda>c. c\<lparr>c_intena := old\<rparr>) s else s)
      in upd_cpu h (\<lambda>c. c\<lparr>c_noff := c_noff c + 1\<rparr>) s)"

definition pop_off :: "nat \<Rightarrow> harts \<Rightarrow> harts res" where
  "pop_off h s =
     (if intr_get h s then Inl (Panic ''pop_off - interruptible'')
      else if c_noff (cpus s h) < 1 then Inl (Panic ''pop_off'')
      else let s = upd_cpu h (\<lambda>c. c\<lparr>c_noff := c_noff c - 1\<rparr>) s
           in if c_noff (cpus s h) = 0 \<and> c_intena (cpus s h) then Inr (intr_on h s)
              else Inr s)"

section \<open>Locks\<close>

definition holding :: "nat \<Rightarrow> spinlock \<Rightarrow> bool" where
  "holding h lk \<longleftrightarrow> lk_locked lk \<and> lk_cpu lk = Some h"

text \<open>
  With no other hart running, the swap loop of \<^verbatim>\<open>acquire\<close> ends at once on a free lock
  and never ends on one that another hart holds.
\<close>

definition acquire :: "nat \<Rightarrow> spinlock \<Rightarrow> harts \<Rightarrow> (spinlock \<times> harts) res" where
  "acquire h lk s =
     (let s = push_off h s
      in if holding h lk then Inl (Panic ''acquire'')
         else if lk_locked lk then Inl Diverges
         else Inr (lk\<lparr>lk_locked := True, lk_cpu := Some h\<rparr>, s))"

definition release :: "nat \<Rightarrow> spinlock \<Rightarrow> harts \<Rightarrow> (spinlock \<times> harts) res" where
  "release h lk s =
     (if \<not> holding h lk then Inl (Panic ''release'')
      else let lk = lk\<lparr>lk_cpu := None\<rparr>;
               lk = lk\<lparr>lk_locked := False\<rparr>
           in bnd (pop_off h s) (\<lambda>s. Inr (lk, s)))"

text \<open>The interrupt discipline: the depth is never negative, and interrupts are off
  whenever it is positive.\<close>

definition irq_ok :: "nat \<Rightarrow> harts \<Rightarrow> bool" where
  "irq_ok h s \<longleftrightarrow> 0 \<le> c_noff (cpus s h) \<and> (0 < c_noff (cpus s h) \<longrightarrow> \<not> sie s h)"

lemmas irq_defs = push_off_def pop_off_def upd_cpu_def intr_get_def intr_off_def intr_on_def
  Let_def

lemma push_off_irq_ok: "irq_ok h s \<Longrightarrow> irq_ok h (push_off h s)"
  by (auto simp: irq_ok_def irq_defs)

lemma push_off_sie: "\<not> sie (push_off h s) h"
  by (simp add: irq_defs)

lemma pop_off_irq_ok: "irq_ok h s \<Longrightarrow> pop_off h s = Inr s' \<Longrightarrow> irq_ok h s'"
  by (auto simp: irq_ok_def irq_defs split: if_splits)

lemma pop_push_off:
  assumes "irq_ok h s"
  shows "\<exists>t. pop_off h (push_off h s) = Inr t \<and> sie t = sie s
           \<and> c_noff (cpus t h) = c_noff (cpus s h)"
  using assms
  by (auto simp: irq_ok_def irq_defs fun_eq_iff)

text \<open>\<open>n\<close> calls of \<^verbatim>\<open>pop_off\<close>.\<close>

fun pop_offs :: "nat \<Rightarrow> nat \<Rightarrow> harts \<Rightarrow> harts res" where
  "pop_offs h 0 s = Inr s"
| "pop_offs h (Suc n) s = bnd (pop_off h s) (pop_offs h n)"

lemma push_off_twice:
  assumes "irq_ok h s" "0 < c_noff (cpus s h)"
  shows "pop_off h (push_off h s) = Inr s"
  using assms by (cases s) (auto simp: irq_ok_def irq_defs fun_upd_idem)

lemma pushes_noff: "c_noff (cpus ((push_off h ^^ n) s) h) = c_noff (cpus s h) + int n"
  by (induction n) (auto simp: irq_defs)

lemma pushes_irq_ok: "irq_ok h s \<Longrightarrow> irq_ok h ((push_off h ^^ n) s)"
  by (induction n) (auto intro: push_off_irq_ok)

lemma pop_offs_pushes:
  "irq_ok h s \<Longrightarrow> \<exists>t. pop_offs h n ((push_off h ^^ n) s) = Inr t \<and> sie t = sie s \<and>
     c_noff (cpus t h) = c_noff (cpus s h)"
proof (induction n)
  case 0
  then show ?case by simp
next
  case (Suc n)
  show ?case
  proof (cases n)
    case 0
    then show ?thesis using pop_push_off [OF Suc.prems] by auto
  next
    case (Suc m)
    have "irq_ok h ((push_off h ^^ n) s)" using Suc.prems by (rule pushes_irq_ok)
    moreover have "0 < c_noff (cpus ((push_off h ^^ n) s) h)"
      using Suc.prems unfolding pushes_noff by (simp add: irq_ok_def Suc)
    ultimately show ?thesis using push_off_twice Suc.IH [OF Suc.prems] by simp
  qed
qed

section \<open>One lock, many harts\<close>

text \<open>
  The position of a hart in its use of the lock: outside, spinning in \<^verbatim>\<open>acquire\<close>,
  past the successful swap but before the store to \<^verbatim>\<open>lk->cpu\<close>, inside the critical
  section, and in \<^verbatim>\<open>release\<close> after the store that clears \<^verbatim>\<open>lk->cpu\<close>.
\<close>

datatype lock_pc = Outside | Spinning | Swapped | Inside | Leaving

record lock_sys =
  lock_of :: spinlock
  lpc :: "nat \<Rightarrow> lock_pc"

definition lock_init :: "lock_sys" where
  "lock_init = \<lparr>lock_of = initlock, lpc = (\<lambda>_. Outside)\<rparr>"

inductive lock_step :: "lock_sys \<Rightarrow> lock_sys \<Rightarrow> bool" where
  enter: "lpc s h = Outside \<Longrightarrow> \<not> holding h (lock_of s) \<Longrightarrow>
     lock_step s (s\<lparr>lpc := (lpc s)(h := Spinning)\<rparr>)"
| spin: "lpc s h = Spinning \<Longrightarrow> lk_locked (lock_of s) \<Longrightarrow> lock_step s s"
| swap: "lpc s h = Spinning \<Longrightarrow> \<not> lk_locked (lock_of s) \<Longrightarrow>
     lock_step s (s\<lparr>lock_of := (lock_of s)\<lparr>lk_locked := True\<rparr>, lpc := (lpc s)(h := Swapped)\<rparr>)"
| own: "lpc s h = Swapped \<Longrightarrow>
     lock_step s (s\<lparr>lock_of := (lock_of s)\<lparr>lk_cpu := Some h\<rparr>, lpc := (lpc s)(h := Inside)\<rparr>)"
| clear: "lpc s h = Inside \<Longrightarrow> holding h (lock_of s) \<Longrightarrow>
     lock_step s (s\<lparr>lock_of := (lock_of s)\<lparr>lk_cpu := None\<rparr>, lpc := (lpc s)(h := Leaving)\<rparr>)"
| leave: "lpc s h = Leaving \<Longrightarrow>
     lock_step s (s\<lparr>lock_of := (lock_of s)\<lparr>lk_locked := False\<rparr>, lpc := (lpc s)(h := Outside)\<rparr>)"

inductive lock_reachable :: "lock_sys \<Rightarrow> bool" where
  start: "lock_reachable lock_init"
| step: "lock_reachable s \<Longrightarrow> lock_step s t \<Longrightarrow> lock_reachable t"

abbreviation owns :: "lock_pc \<Rightarrow> bool" where
  "owns p \<equiv> p = Swapped \<or> p = Inside \<or> p = Leaving"

text \<open>\<open>lock_owner s ow\<close>: the harts past the swap are exactly the one named by \<open>ow\<close>.\<close>

definition lock_owner :: "lock_sys \<Rightarrow> nat option \<Rightarrow> bool" where
  "lock_owner s ow \<longleftrightarrow>
     (\<forall>h. owns (lpc s h) \<longleftrightarrow> ow = Some h) \<and>
     (lk_locked (lock_of s) \<longleftrightarrow> ow \<noteq> None) \<and>
     (\<forall>h. lk_cpu (lock_of s) = Some h \<longleftrightarrow> lpc s h = Inside)"

definition lock_inv :: "lock_sys \<Rightarrow> bool" where
  "lock_inv s \<longleftrightarrow> (\<exists>ow. lock_owner s ow)"

lemma lock_inv_init: "lock_inv lock_init"
  by (auto simp: lock_inv_def lock_owner_def lock_init_def initlock_def)

lemma lock_inv_owner: "lock_inv s \<Longrightarrow> owns (lpc s h) \<Longrightarrow> lock_owner s (Some h)"
  unfolding lock_inv_def lock_owner_def by metis

lemma lock_step_inv: "lock_step s t \<Longrightarrow> lock_inv s \<Longrightarrow> lock_inv t"
proof (induction rule: lock_step.induct)
  case (enter s h)
  then obtain ow where "lock_owner s ow" by (auto simp: lock_inv_def)
  then have ow: "lock_owner s ow" .
  have "\<not> owns (lpc s h)" using enter.hyps by simp
  with ow have "ow \<noteq> Some h" unfolding lock_owner_def by blast
  with ow enter.hyps have "lock_owner (s\<lparr>lpc := (lpc s)(h := Spinning)\<rparr>) ow"
    by (auto simp: lock_owner_def)
  then show ?case by (auto simp: lock_inv_def)
next
  case (spin s h)
  then show ?case by simp
next
  case (swap s h)
  then have "lock_owner s None" by (auto simp: lock_inv_def lock_owner_def)
  then have "lock_owner (s\<lparr>lock_of := (lock_of s)\<lparr>lk_locked := True\<rparr>,
      lpc := (lpc s)(h := Swapped)\<rparr>) (Some h)"
    by (auto simp: lock_owner_def)
  then show ?case by (auto simp: lock_inv_def)
next
  case (own s h)
  then have "lock_owner s (Some h)" by (simp add: lock_inv_owner)
  with own.hyps have "lock_owner (s\<lparr>lock_of := (lock_of s)\<lparr>lk_cpu := Some h\<rparr>,
      lpc := (lpc s)(h := Inside)\<rparr>) (Some h)"
    by (auto simp: lock_owner_def)
  then show ?case by (auto simp: lock_inv_def)
next
  case (clear s h)
  then have "lock_owner s (Some h)" by (simp add: lock_inv_owner)
  with clear.hyps have "lock_owner (s\<lparr>lock_of := (lock_of s)\<lparr>lk_cpu := None\<rparr>,
      lpc := (lpc s)(h := Leaving)\<rparr>) (Some h)"
    by (auto simp: lock_owner_def)
  then show ?case by (auto simp: lock_inv_def)
next
  case (leave s h)
  then have "lock_owner s (Some h)" by (simp add: lock_inv_owner)
  with leave.hyps have "lock_owner (s\<lparr>lock_of := (lock_of s)\<lparr>lk_locked := False\<rparr>,
      lpc := (lpc s)(h := Outside)\<rparr>) None"
    by (auto simp: lock_owner_def)
  then show ?case by (auto simp: lock_inv_def)
qed

lemma lock_reachable_inv: "lock_reachable s \<Longrightarrow> lock_inv s"
  by (induction rule: lock_reachable.induct) (auto intro: lock_inv_init lock_step_inv)

section \<open>Properties\<close>

text \<open>C20.  Nested \<^verbatim>\<open>push_off\<close>/\<^verbatim>\<open>pop_off\<close> pairs match: interrupts are off after every
  push, as many pops as pushes never panic, and they leave the interrupt-enable bit and the
  nesting depth as they were.\<close>

theorem push_pop_off_match:
  assumes "irq_ok h s"
  shows "\<not> sie ((push_off h ^^ Suc n) s) h \<and>
    (\<exists>t. pop_offs h (Suc n) ((push_off h ^^ Suc n) s) = Inr t \<and> sie t = sie s \<and>
       c_noff (cpus t h) = c_noff (cpus s h))"
  using pop_offs_pushes [OF assms, of "Suc n"] push_off_sie by simp

definition harts0 :: harts where
  "harts0 = \<lparr>cpus = (\<lambda>_. \<lparr>c_proc = None, c_context = \<lparr>ctx_ra = 0, ctx_sp = 0, ctx_s = (\<lambda>_. 0)\<rparr>,
     c_noff = 0, c_intena = False, c_idleproc = None, c_preempt_pending = False\<rparr>),
     sie = (\<lambda>h. h = 1)\<rparr>"

theorem push_pop_off_match_witness:
  "\<exists>t. pop_offs 1 3 ((push_off 1 ^^ 3) harts0) = Inr t \<and> sie t 1"
proof -
  have "irq_ok 1 harts0" by (simp add: irq_ok_def harts0_def)
  from push_pop_off_match [OF this, of 2] show ?thesis
    by (auto simp: harts0_def eval_nat_numeral)
qed

text \<open>C21.  Mutual exclusion: in every interleaving of the harts, at most one is between its
  successful swap and its release, and \<^verbatim>\<open>holding\<close> is true exactly for the hart in the
  critical section, so neither the panic of \<^verbatim>\<open>acquire\<close> nor that of \<^verbatim>\<open>release\<close> is
  reached.\<close>

theorem spinlock_mutual_exclusion:
  assumes "lock_reachable s"
  shows "(owns (lpc s g) \<and> owns (lpc s h) \<longrightarrow> g = h) \<and>
    (holding h (lock_of s) \<longleftrightarrow> lpc s h = Inside)"
  using lock_reachable_inv [OF assms] unfolding lock_inv_def lock_owner_def holding_def
  by (metis option.distinct(1) option.inject)

definition lock_held :: lock_sys where
  "lock_held = \<lparr>lock_of = \<lparr>lk_locked = True, lk_cpu = Some 0\<rparr>,
     lpc = (\<lambda>_. Outside)(0 := Inside, 1 := Spinning)\<rparr>"

lemma lock_held_reachable: "lock_reachable lock_held"
proof -
  have 1: "lock_reachable (lock_init\<lparr>lpc := (lpc lock_init)(1 := Spinning)\<rparr>)" (is "lock_reachable ?a")
    by (rule lock_reachable.step [OF lock_reachable.start], rule lock_step.enter)
      (simp_all add: lock_init_def initlock_def holding_def)
  have 2: "lock_reachable (?a\<lparr>lpc := (lpc ?a)(0 := Spinning)\<rparr>)" (is "lock_reachable ?b")
    by (rule lock_reachable.step [OF 1], rule lock_step.enter)
      (simp_all add: lock_init_def initlock_def holding_def)
  have 3: "lock_reachable (?b\<lparr>lock_of := (lock_of ?b)\<lparr>lk_locked := True\<rparr>,
      lpc := (lpc ?b)(0 := Swapped)\<rparr>)" (is "lock_reachable ?c")
    by (rule lock_reachable.step [OF 2], rule lock_step.swap)
      (simp_all add: lock_init_def initlock_def)
  have "lock_reachable (?c\<lparr>lock_of := (lock_of ?c)\<lparr>lk_cpu := Some 0\<rparr>,
      lpc := (lpc ?c)(0 := Inside)\<rparr>)"
    by (rule lock_reachable.step [OF 3], rule lock_step.own) simp
  moreover have "?c\<lparr>lock_of := (lock_of ?c)\<lparr>lk_cpu := Some 0\<rparr>, lpc := (lpc ?c)(0 := Inside)\<rparr>
      = lock_held"
    by (simp add: lock_held_def lock_init_def initlock_def fun_eq_iff)
  ultimately show ?thesis by simp
qed

theorem spinlock_mutual_exclusion_witness:
  "lock_reachable lock_held \<and> holding 0 (lock_of lock_held) \<and> \<not> holding 1 (lock_of lock_held)"
  using spinlock_mutual_exclusion [OF lock_held_reachable, of 0 0]
    spinlock_mutual_exclusion [OF lock_held_reachable, of 0 1] lock_held_reachable
  by (simp add: lock_held_def)

end
