(* ===== verification/Runq.thy ===== *)
theory Runq
  imports Spinlock
begin

text \<open>
  The process table entry of \<^verbatim>\<open>kernel/proc.h\<close> and the multi-level ready queue of
  \<^verbatim>\<open>kernel/proc.c\<close>: 32 singly linked lists threaded through the \<^verbatim>\<open>rq_next\<close>
  fields of the process table, one per priority, with head and tail pointers and the
  cached number of the best non-empty level.  A \<^verbatim>\<open>struct proc *\<close> is the index of the
  slot in \<^verbatim>\<open>proc[NPROC]\<close>; a level is an \<^typ>\<open>int\<close>, as in the code.  Each function
  runs with \<^verbatim>\<open>runq.lock\<close> held on the only CPU (the scheduler of this kernel supports
  one CPU), so its body is one step.
\<close>

section \<open>The process table entry\<close>

datatype procstate = UNUSED | USED | SLEEPING | RUNNABLE | RUNNING | ZOMBIE

record proc =
  p_state :: procstate
  p_chan :: "chan option"
  p_killed :: bool
  p_xstate :: int
  p_pid :: int
  p_parent :: "nat option"
  p_kstack :: u64
  p_sz :: u64
  p_pagetable :: u64
  p_trapframe :: u64
  p_context :: ctxt
  p_ofile :: "nat \<Rightarrow> nat option"
  p_cwd :: "nat option"
  p_name :: "byte list"
  p_base_prio :: int
  p_prio :: int
  p_wait_ticks :: int
  p_rq_next :: "nat option"

record prio_queue =
  q_head :: "nat option"
  q_tail :: "nat option"

record sched =
  procs :: "nat \<Rightarrow> proc"
  rq :: "int \<Rightarrow> prio_queue"
  highest_nonempty :: int
  s_cpu :: cpu
  s_initproc :: "nat option"
  s_nextpid :: int

definition upd_proc :: "nat \<Rightarrow> (proc \<Rightarrow> proc) \<Rightarrow> sched \<Rightarrow> sched" where
  "upd_proc p f s = s\<lparr>procs := (procs s)(p := f (procs s p))\<rparr>"

definition upd_q :: "int \<Rightarrow> (prio_queue \<Rightarrow> prio_queue) \<Rightarrow> sched \<Rightarrow> sched" where
  "upd_q i f s = s\<lparr>rq := (rq s)(i := f (rq s i))\<rparr>"

definition set_rq_next :: "nat \<Rightarrow> nat option \<Rightarrow> sched \<Rightarrow> sched" where
  "set_rq_next p v = upd_proc p (\<lambda>x. x\<lparr>p_rq_next := v\<rparr>)"

definition nexts :: "sched \<Rightarrow> nat \<Rightarrow> nat option" where
  "nexts s p = p_rq_next (procs s p)"

definition myproc :: "sched \<Rightarrow> nat option" where
  "myproc s = c_proc (s_cpu s)"

section \<open>Operations\<close>

definition prio_init :: "sched \<Rightarrow> sched" where
  "prio_init s =
     s\<lparr>rq := (\<lambda>i. if 0 \<le> i \<and> i < NPRIO then \<lparr>q_head = None, q_tail = None\<rparr> else rq s i),
       highest_nonempty := -1\<rparr>"

definition rq_push_tail :: "int \<Rightarrow> nat \<Rightarrow> sched \<Rightarrow> sched" where
  "rq_push_tail prio p s =
     (let s = set_rq_next p None s;
          s = (case q_tail (rq s prio) of
                 Some t \<Rightarrow> upd_q prio (\<lambda>Q. Q\<lparr>q_tail := Some p\<rparr>) (set_rq_next t (Some p) s)
               | None \<Rightarrow> upd_q prio (\<lambda>Q. Q\<lparr>q_head := Some p, q_tail := Some p\<rparr>) s)
      in if highest_nonempty s < 0 \<or> prio < highest_nonempty s
         then s\<lparr>highest_nonempty := prio\<rparr> else s)"

text \<open>The search loop of \<^verbatim>\<open>rq_remove\<close>: the predecessor of \<open>p\<close> if \<open>p\<close> is found.\<close>

partial_function (option) rq_find ::
  "(nat \<Rightarrow> nat option) \<Rightarrow> nat \<Rightarrow> nat option \<Rightarrow> nat option \<Rightarrow> nat option option option" where
  "rq_find nxt p prev cur =
     (case cur of
        None \<Rightarrow> Some None
      | Some c \<Rightarrow> if c = p then Some (Some prev) else rq_find nxt p (Some c) (nxt c))"

definition rq_unlink :: "int \<Rightarrow> nat \<Rightarrow> nat option \<Rightarrow> sched \<Rightarrow> sched" where
  "rq_unlink prio cur prev s =
     (let s = (case prev of
                 Some pv \<Rightarrow> set_rq_next pv (nexts s cur) s
               | None \<Rightarrow> upd_q prio (\<lambda>Q. Q\<lparr>q_head := nexts s cur\<rparr>) s);
          s = (if q_tail (rq s prio) = Some cur
               then upd_q prio (\<lambda>Q. Q\<lparr>q_tail := prev\<rparr>) s else s)
      in set_rq_next cur None s)"

definition rq_first :: "sched \<Rightarrow> int" where
  "rq_first s =
     (case find (\<lambda>i. q_head (rq s i) \<noteq> None) [0..NPRIO - 1] of None \<Rightarrow> -1 | Some i \<Rightarrow> i)"

definition rq_remove :: "int \<Rightarrow> nat \<Rightarrow> sched \<Rightarrow> sched res" where
  "rq_remove prio p s =
     (case rq_find (nexts s) p None (q_head (rq s prio)) of
        None \<Rightarrow> Inl Diverges
      | Some found \<Rightarrow>
          let s = (case found of None \<Rightarrow> s | Some prev \<Rightarrow> rq_unlink prio p prev s)
          in Inr (if q_head (rq s prio) = None \<and> highest_nonempty s = prio
                  then s\<lparr>highest_nonempty := rq_first s\<rparr> else s))"

definition prio_enqueue :: "nat \<Rightarrow> sched \<Rightarrow> sched" where
  "prio_enqueue p s =
     (let s = upd_proc p (\<lambda>x. x\<lparr>p_wait_ticks := 0\<rparr>) s;
          s = rq_push_tail (p_prio (procs s p)) p s
      in case myproc s of
           None \<Rightarrow> s
         | Some cur \<Rightarrow>
             if p_state (procs s cur) = RUNNING \<and> p_prio (procs s p) < p_prio (procs s cur)
             then s\<lparr>s_cpu := (s_cpu s)\<lparr>c_preempt_pending := True\<rparr>\<rparr> else s)"

definition prio_dequeue :: "nat \<Rightarrow> sched \<Rightarrow> sched res" where
  "prio_dequeue p s = rq_remove (p_prio (procs s p)) p s"

definition prio_pick_next :: "sched \<Rightarrow> (nat option \<times> sched) res" where
  "prio_pick_next s =
     (let h = highest_nonempty s
      in if h < 0 then Inr (None, s)
         else case q_head (rq s h) of
                None \<Rightarrow> Inr (None, s)
              | Some p \<Rightarrow> bnd (rq_remove h p s) (\<lambda>s. Inr (Some p, s)))"

definition prio_highest_nonempty :: "sched \<Rightarrow> int" where
  "prio_highest_nonempty s = highest_nonempty s"

definition prio_should_preempt :: "int \<Rightarrow> sched \<Rightarrow> bool" where
  "prio_should_preempt cur_prio s =
     (let h = prio_highest_nonempty s in if h < 0 then False else h \<le> cur_prio)"

text \<open>The inner loop of \<^verbatim>\<open>prio_on_tick\<close>, over one level.\<close>

partial_function (option) age_queue :: "int \<Rightarrow> nat option \<Rightarrow> sched \<Rightarrow> sched res option" where
  "age_queue pr cur s =
     (case cur of
        None \<Rightarrow> Some (Inr s)
      | Some c \<Rightarrow>
          let s = upd_proc c (\<lambda>x. x\<lparr>p_wait_ticks := p_wait_ticks x + 1\<rparr>) s
          in if AGING_TICKS \<le> p_wait_ticks (procs s c) \<and> PRIO_MIN < p_prio (procs s c)
             then let next = p_rq_next (procs s c)
                  in case rq_remove pr c s of
                       Inl e \<Rightarrow> Some (Inl e)
                     | Inr s \<Rightarrow>
                         let s = upd_proc c (\<lambda>x. x\<lparr>p_prio := p_prio x - 1\<rparr>) s;
                             s = upd_proc c (\<lambda>x. x\<lparr>p_wait_ticks := 0\<rparr>) s
                         in age_queue pr next (rq_push_tail (p_prio (procs s c)) c s)
             else age_queue pr (p_rq_next (procs s c)) s)"

fun age_queues :: "int list \<Rightarrow> sched \<Rightarrow> sched res" where
  "age_queues [] s = Inr s"
| "age_queues (pr # prs) s =
     bnd (of_loop (age_queue pr (q_head (rq s pr)) s)) (\<lambda>s. age_queues prs s)"

definition prio_on_tick :: "sched \<Rightarrow> sched res" where
  "prio_on_tick s = age_queues [0..NPRIO - 1] s"

section \<open>Representation\<close>

text \<open>
  \<open>runq_rep s L\<close>: the linked lists of the state \<open>s\<close> hold, level by level, the processes
  of \<open>L\<close>; every queued process is a slot of the table whose priority is its level; the
  tail pointers and the cached best level agree with \<open>L\<close>.
\<close>

type_synonym levels = "int \<Rightarrow> nat list"

definition lv :: "int \<Rightarrow> bool" where
  "lv i \<longleftrightarrow> 0 \<le> i \<and> i < NPRIO"

definition top_level :: "levels \<Rightarrow> int" where
  "top_level L = (case find (\<lambda>i. L i \<noteq> []) [0..NPRIO - 1] of None \<Rightarrow> -1 | Some i \<Rightarrow> i)"

definition queue_rep :: "sched \<Rightarrow> int \<Rightarrow> nat list \<Rightarrow> bool" where
  "queue_rep s i xs \<longleftrightarrow>
     chain (nexts s) (q_head (rq s i)) xs \<and>
     q_tail (rq s i) = (if xs = [] then None else Some (last xs)) \<and>
     (\<forall>p\<in>set xs. p < NPROC \<and> p_prio (procs s p) = i)"

definition runq_rep :: "sched \<Rightarrow> levels \<Rightarrow> bool" where
  "runq_rep s L \<longleftrightarrow>
     (\<forall>i. lv i \<longrightarrow> queue_rep s i (L i)) \<and> (\<forall>i. \<not> lv i \<longrightarrow> L i = []) \<and>
     highest_nonempty s = top_level L"

definition rq_abs :: "sched \<Rightarrow> levels" where
  "rq_abs s i = (if lv i then chase NPROC (nexts s) (q_head (rq s i)) else [])"

definition queued :: "levels \<Rightarrow> nat \<Rightarrow> bool" where
  "queued L p \<longleftrightarrow> (\<exists>i. p \<in> set (L i))"

lemma nexts_set_rq_next [simp]: "nexts (set_rq_next p v s) = (nexts s)(p := v)"
  by (auto simp: nexts_def set_rq_next_def upd_proc_def)

lemma nexts_upd_q [simp]: "nexts (upd_q i f s) = nexts s"
  by (auto simp: nexts_def upd_q_def)

lemma nexts_upd_other [simp]:
  "nexts (s\<lparr>highest_nonempty := h\<rparr>) = nexts s" "nexts (s\<lparr>s_cpu := c\<rparr>) = nexts s"
  "nexts (s\<lparr>s_nextpid := n\<rparr>) = nexts s" "nexts (s\<lparr>s_initproc := ip\<rparr>) = nexts s"
  by (auto simp: nexts_def)

lemma rq_set_rq_next [simp]: "rq (set_rq_next p v s) = rq s"
  by (simp add: set_rq_next_def upd_proc_def)

lemma rq_upd_q [simp]: "rq (upd_q i f s) = (rq s)(i := f (rq s i))"
  by (simp add: upd_q_def)

lemma highest_upd [simp]:
  "highest_nonempty (set_rq_next p v s) = highest_nonempty s"
  "highest_nonempty (upd_q i f s) = highest_nonempty s"
  by (simp_all add: set_rq_next_def upd_proc_def upd_q_def)

lemma procs_upd_q [simp]: "procs (upd_q i f s) = procs s"
  by (simp add: upd_q_def)

lemma prio_set_rq_next [simp]:
  "p_prio (procs (set_rq_next p v s) q) = p_prio (procs s q)"
  by (simp add: set_rq_next_def upd_proc_def)

lemma top_level_cases:
  obtains (empty) "top_level L = -1" "\<And>i. lv i \<Longrightarrow> L i = []"
  | (level) "lv (top_level L)" "L (top_level L) \<noteq> []" "\<And>i. 0 \<le> i \<Longrightarrow> i < top_level L \<Longrightarrow> L i = []"
proof (cases "find (\<lambda>i. L i \<noteq> []) [0..NPRIO - 1]")
  case None
  then have "top_level L = -1" unfolding top_level_def by (simp only: option.case)
  then show thesis
    using find_upto_None [OF None] by (intro empty) (auto simp: lv_def)
next
  case (Some h)
  then have "top_level L = h" unfolding top_level_def by (simp only: option.case)
  then show thesis
    using find_upto_Some [OF Some] by (intro level) (auto simp: lv_def)
qed

lemma top_level_eqI:
  assumes "lv h" "L h \<noteq> []" "\<And>i. 0 \<le> i \<Longrightarrow> i < h \<Longrightarrow> L i = []"
  shows "top_level L = h"
proof (cases rule: top_level_cases [of L])
  case empty
  then show ?thesis using assms by simp
next
  case level
  then show ?thesis using assms
    by (cases "top_level L" h rule: linorder_cases) (auto simp: lv_def)
qed

lemma top_level_emptyI: "(\<And>i. lv i \<Longrightarrow> L i = []) \<Longrightarrow> top_level L = -1"
  by (cases rule: top_level_cases [of L]) auto

lemma top_level_neg_iff: "top_level L < 0 \<longleftrightarrow> (\<forall>i. lv i \<longrightarrow> L i = [])"
  by (cases rule: top_level_cases [of L]) (auto simp: lv_def)

lemma queue_rep_head_iff: "queue_rep s i xs \<Longrightarrow> q_head (rq s i) = None \<longleftrightarrow> xs = []"
  by (cases xs) (auto simp: queue_rep_def)

lemma rq_first_rep:
  assumes "\<And>i. lv i \<Longrightarrow> queue_rep s i (L i)"
  shows "rq_first s = top_level L"
proof -
  have "find (\<lambda>i. q_head (rq s i) \<noteq> None) [0..NPRIO - 1] = find (\<lambda>i. L i \<noteq> []) [0..NPRIO - 1]"
  proof (rule find_cong [OF refl])
    fix i :: int
    assume "i \<in> set [0..NPRIO - 1]"
    then have "lv i" by (simp add: lv_def)
    from queue_rep_head_iff [OF assms [OF this]]
    show "(q_head (rq s i) \<noteq> None) = (L i \<noteq> [])" by simp
  qed
  then show ?thesis unfolding rq_first_def top_level_def by (simp only:)
qed

lemma runq_repD:
  assumes "runq_rep s L"
  shows "lv i \<Longrightarrow> queue_rep s i (L i)" "\<not> lv i \<Longrightarrow> L i = []" "highest_nonempty s = top_level L"
  using assms by (auto simp: runq_rep_def)

lemma queue_rep_le: "queue_rep s i xs \<Longrightarrow> length xs \<le> NPROC"
proof -
  assume r: "queue_rep s i xs"
  then have "distinct xs" "set xs \<subseteq> {..<NPROC}"
    by (auto simp: queue_rep_def dest: chain_distinct)
  then have "card (set xs) \<le> card {..<NPROC}" by (intro card_mono) auto
  then show ?thesis using \<open>distinct xs\<close> by (simp add: distinct_card)
qed

lemma runq_rep_abs: "runq_rep s L \<Longrightarrow> rq_abs s = L"
proof
  fix i
  assume r: "runq_rep s L"
  show "rq_abs s i = L i"
  proof (cases "lv i")
    case True
    then have q: "queue_rep s i (L i)" using r by (rule runq_repD(1) [rotated])
    then have "chain (nexts s) (q_head (rq s i)) (L i)" by (simp add: queue_rep_def)
    then have "chase NPROC (nexts s) (q_head (rq s i)) = L i"
      using queue_rep_le [OF q] by (rule chain_chase)
    then show ?thesis using True by (simp only: rq_abs_def if_True)
  next
    case False
    then show ?thesis using runq_repD(2) [OF r False] by (simp add: rq_abs_def)
  qed
qed

lemma runq_rep_queued: "runq_rep s L \<Longrightarrow> queued L p \<Longrightarrow> p \<in> set (L (p_prio (procs s p)))"
  unfolding queued_def runq_rep_def queue_rep_def by (metis empty_iff empty_set)

lemma runq_rep_queued_iff:
  "runq_rep s L \<Longrightarrow> p \<in> set (L i) \<longleftrightarrow> queued L p \<and> p_prio (procs s p) = i"
  unfolding queued_def runq_rep_def queue_rep_def by (metis empty_iff empty_set)

lemma runq_rep_mem:
  assumes "runq_rep s L" "p \<in> set (L i)"
  shows "p_prio (procs s p) = i" "p < NPROC" "lv i"
  using assms unfolding runq_rep_def queue_rep_def by (metis empty_iff empty_set)+

section \<open>Frame conditions\<close>

text \<open>\<open>links_only s t\<close>: the two states differ at most in the \<^verbatim>\<open>rq_next\<close> fields, the
  queue ends and the cached level.\<close>

definition strip :: "proc \<Rightarrow> proc" where
  "strip p = p\<lparr>p_rq_next := None\<rparr>"

definition links_only :: "sched \<Rightarrow> sched \<Rightarrow> bool" where
  "links_only s t \<longleftrightarrow>
     (\<forall>p. strip (procs t p) = strip (procs s p)) \<and> s_cpu t = s_cpu s \<and>
     s_initproc t = s_initproc s \<and> s_nextpid t = s_nextpid s"

lemma strip_fields:
  assumes "strip x = strip y"
  shows "p_state x = p_state y" "p_chan x = p_chan y" "p_killed x = p_killed y"
    "p_xstate x = p_xstate y" "p_pid x = p_pid y" "p_parent x = p_parent y"
    "p_prio x = p_prio y" "p_wait_ticks x = p_wait_ticks y"
  using assms by (cases x; cases y; simp add: strip_def)+

lemma links_only_refl [simp]: "links_only s s"
  by (simp add: links_only_def)

lemma links_only_trans: "links_only s t \<Longrightarrow> links_only t u \<Longrightarrow> links_only s u"
  by (simp add: links_only_def)

lemma strip_set_rq_next [simp]: "strip (procs (set_rq_next p v t) q) = strip (procs t q)"
  by (simp add: set_rq_next_def upd_proc_def strip_def)

lemma links_only_set_rq_next [simp]: "links_only s (set_rq_next p v t) = links_only s t"
  by (simp add: links_only_def) (simp add: set_rq_next_def upd_proc_def)

lemma links_only_upd_q [simp]: "links_only s (upd_q i f t) = links_only s t"
  by (simp add: links_only_def upd_q_def)

lemma links_only_highest [simp]: "links_only s (t\<lparr>highest_nonempty := h\<rparr>) = links_only s t"
  by (simp add: links_only_def)

lemma links_only_prio: "links_only s t \<Longrightarrow> p_prio (procs t p) = p_prio (procs s p)"
  unfolding links_only_def by (blast intro: strip_fields)

section \<open>Insertion\<close>

definition push_links :: "int \<Rightarrow> nat \<Rightarrow> sched \<Rightarrow> sched" where
  "push_links prio p s =
     (let s = set_rq_next p None s
      in case q_tail (rq s prio) of
           Some t \<Rightarrow> upd_q prio (\<lambda>Q. Q\<lparr>q_tail := Some p\<rparr>) (set_rq_next t (Some p) s)
         | None \<Rightarrow> upd_q prio (\<lambda>Q. Q\<lparr>q_head := Some p, q_tail := Some p\<rparr>) s)"

lemma rq_push_tail_links:
  "rq_push_tail prio p s =
     (let s = push_links prio p s
      in if highest_nonempty s < 0 \<or> prio < highest_nonempty s
         then s\<lparr>highest_nonempty := prio\<rparr> else s)"
  by (simp add: rq_push_tail_def push_links_def Let_def)

lemma push_links_frame:
  "links_only s (push_links prio p s)" "highest_nonempty (push_links prio p s) = highest_nonempty s"
  by (simp_all add: push_links_def Let_def split: option.split)

lemma push_links_own:
  assumes q: "queue_rep s i xs" and p: "p \<notin> set xs" "p < NPROC" "p_prio (procs s p) = i"
  shows "queue_rep (push_links i p s) i (xs @ [p])"
proof (cases "xs = []")
  case True
  then have "q_tail (rq s i) = None" using q by (simp add: queue_rep_def)
  then show ?thesis using True p by (simp add: push_links_def queue_rep_def)
next
  case False
  let ?h = "(nexts s)(p := None)"
  have t: "q_tail (rq s i) = Some (last xs)" and c: "chain (nexts s) (q_head (rq s i)) xs"
    using q False by (simp_all add: queue_rep_def)
  have "chain ?h (q_head (rq s i)) xs" using c p(1) by (subst chain_frame)
  then have "chain (?h(last xs := Some p)) (q_head (rq s i)) (xs @ [p])"
    using False p(1) by (intro chain_snoc) auto
  then show ?thesis using q p t by (auto simp: push_links_def queue_rep_def)
qed

lemma push_links_other:
  assumes q: "queue_rep s j ys" and "j \<noteq> i" "p \<notin> set ys"
    and t: "\<And>t. q_tail (rq s i) = Some t \<Longrightarrow> t \<notin> set ys"
  shows "queue_rep (push_links i p s) j ys"
proof -
  have c: "chain ((nexts s)(p := None)) (q_head (rq s j)) ys"
    using q assms(3) by (subst chain_frame) (auto simp: queue_rep_def)
  show ?thesis
  proof (cases "q_tail (rq s i)")
    case None
    then show ?thesis using assms c by (simp add: push_links_def queue_rep_def Let_def)
  next
    case (Some t)
    then have "chain ((nexts s)(p := None, t := Some p)) (q_head (rq s j)) ys"
      using t c by (subst chain_frame) auto
    then show ?thesis using Some assms by (simp add: push_links_def queue_rep_def Let_def)
  qed
qed

lemma queue_rep_highest [simp]: "queue_rep (s\<lparr>highest_nonempty := h\<rparr>) i xs = queue_rep s i xs"
  by (simp add: queue_rep_def)

lemma push_links_rep:
  assumes r: "runq_rep s L" and p: "\<not> queued L p" "p < NPROC" "p_prio (procs s p) = i" and i: "lv i"
    and j: "lv j"
  shows "queue_rep (push_links i p s) j ((L(i := L i @ [p])) j)"
proof (cases "j = i")
  case True
  have "p \<notin> set (L i)" using p(1) by (auto simp: queued_def)
  then have "queue_rep (push_links i p s) i (L i @ [p])"
    using runq_repD(1) [OF r i] p by (intro push_links_own) auto
  then show ?thesis using True by simp
next
  case False
  have "t \<notin> set (L j)" if "q_tail (rq s i) = Some t" for t
  proof -
    have "t \<in> set (L i)" using runq_repD(1) [OF r i] that
      by (auto simp: queue_rep_def split: if_splits)
    then show ?thesis using runq_rep_queued_iff [OF r] False by auto
  qed
  then have "queue_rep (push_links i p s) j (L j)"
    using runq_repD(1) [OF r j] False p(1) by (intro push_links_other) (auto simp: queued_def)
  then show ?thesis using False by simp
qed

lemma top_level_push:
  assumes "lv i"
  shows "top_level (L(i := L i @ [p])) = (if top_level L < 0 \<or> i < top_level L then i else top_level L)"
proof (cases rule: top_level_cases [of L])
  case empty
  then show ?thesis using assms by (auto intro!: top_level_eqI simp: lv_def)
next
  case level
  then show ?thesis using assms by (auto intro!: top_level_eqI simp: lv_def split: if_splits)
qed

lemma rq_push_tail_rep:
  assumes r: "runq_rep s L" and p: "\<not> queued L p" "p < NPROC" "p_prio (procs s p) = i" and i: "lv i"
  shows "runq_rep (rq_push_tail i p s) (L(i := L i @ [p]))"
proof -
  have "highest_nonempty (rq_push_tail i p s) = top_level (L(i := L i @ [p]))"
    using runq_repD(3) [OF r] top_level_push [OF i, of L p]
    by (simp add: rq_push_tail_links push_links_frame Let_def)
  moreover have "queue_rep (rq_push_tail i p s) j ((L(i := L i @ [p])) j)" if "lv j" for j
    using push_links_rep [OF r p i that] by (cases "j = i") (simp_all add: rq_push_tail_links Let_def)
  ultimately show ?thesis
    using runq_repD(2) [OF r] i by (auto simp: runq_rep_def)
qed

lemma rq_push_tail_frame: "links_only s (rq_push_tail i p s)"
  by (simp add: rq_push_tail_links push_links_frame Let_def)

section \<open>Removal\<close>

lemma rq_find_absent: "chain h cur xs \<Longrightarrow> p \<notin> set xs \<Longrightarrow> rq_find h p prev cur = Some None"
proof (induction xs arbitrary: cur prev)
  case Nil
  then show ?case by (simp add: rq_find.simps)
next
  case (Cons x xs)
  then show ?case by (subst rq_find.simps) simp
qed

lemma rq_find_present:
  "chain h cur (as @ p # bs) \<Longrightarrow> p \<notin> set as \<Longrightarrow>
   rq_find h p prev cur = Some (Some (if as = [] then prev else Some (last as)))"
proof (induction as arbitrary: cur prev)
  case Nil
  then show ?case by (subst rq_find.simps) simp
next
  case (Cons a as)
  then show ?case by (subst rq_find.simps) simp
qed

lemma rq_unlink_frame [simp]:
  "links_only s (rq_unlink i p prev s)" "highest_nonempty (rq_unlink i p prev s) = highest_nonempty s"
  by (simp_all add: rq_unlink_def Let_def split: option.split)

lemma rq_unlink_own:
  assumes q: "queue_rep s i (as @ p # bs)"
  shows "queue_rep (rq_unlink i p (if as = [] then None else Some (last as)) s) i (as @ bs)"
proof (cases "as = []")
  case True
  then have c: "chain (nexts s) (q_head (rq s i)) (p # bs)"
    and t: "q_tail (rq s i) = Some (if bs = [] then p else last bs)"
    using q by (simp_all add: queue_rep_def)
  have p: "p \<notin> set bs" using c by (rule chain_hd_notin)
  have "chain ((nexts s)(p := None)) (nexts s p) bs" using c by (rule chain_unlink_head)
  moreover have "bs \<noteq> [] \<Longrightarrow> last bs \<noteq> p" using p by auto
  ultimately show ?thesis using q t True by (auto simp: rq_unlink_def queue_rep_def Let_def)
next
  case False
  then have c: "chain (nexts s) (q_head (rq s i)) (as @ p # bs)"
    and t: "q_tail (rq s i) = Some (if bs = [] then p else last bs)"
    using q by (simp_all add: queue_rep_def)
  have p: "p \<notin> set bs" using chain_distinct [OF c] by simp
  have "chain ((nexts s)(last as := nexts s p, p := None)) (q_head (rq s i)) (as @ bs)"
    using c False by (rule chain_unlink)
  moreover have "bs \<noteq> [] \<Longrightarrow> last bs \<noteq> p" using p by auto
  ultimately show ?thesis using q t False
    by (auto simp: rq_unlink_def queue_rep_def Let_def)
qed

lemma rq_unlink_other:
  assumes q: "queue_rep s j ys" and "j \<noteq> i" "p \<notin> set ys" "\<And>t. prev = Some t \<Longrightarrow> t \<notin> set ys"
  shows "queue_rep (rq_unlink i p prev s) j ys"
proof (cases prev)
  case None
  have "chain ((nexts s)(p := None)) (q_head (rq s j)) ys"
    using q assms(3) by (subst chain_frame) (auto simp: queue_rep_def)
  then show ?thesis using None assms
    by (cases "ys = []") (simp_all add: rq_unlink_def queue_rep_def Let_def)
next
  case (Some t)
  have "chain ((nexts s)(t := nexts s p)) (q_head (rq s j)) ys"
    using q assms(4) [OF Some] by (subst chain_frame) (auto simp: queue_rep_def)
  then have "chain ((nexts s)(t := nexts s p, p := None)) (q_head (rq s j)) ys"
    using assms(3) by (subst chain_frame) auto
  then show ?thesis using Some assms
    by (cases "ys = []") (simp_all add: rq_unlink_def queue_rep_def Let_def)
qed

lemma rq_unlink_rep:
  assumes r: "runq_rep s L" and i: "lv i" and L: "L i = as @ p # bs" and j: "lv j"
  shows "queue_rep (rq_unlink i p (if as = [] then None else Some (last as)) s) j
           ((L(i := as @ bs)) j)"
proof (cases "j = i")
  case True
  then show ?thesis using rq_unlink_own [of s i as p bs] runq_repD(1) [OF r i] L by simp
next
  case False
  have "t \<notin> set (L j)" if "t \<in> set (L i)" for t
    using that runq_rep_queued_iff [OF r] False by auto
  then have "queue_rep (rq_unlink i p (if as = [] then None else Some (last as)) s) j (L j)"
    using runq_repD(1) [OF r j] False L
    by (intro rq_unlink_other) (auto split: if_splits)
  then show ?thesis using False by simp
qed

lemma top_level_same:
  assumes "lv i" "L i \<noteq> []" "xs \<noteq> [] \<or> top_level L \<noteq> i"
  shows "top_level (L(i := xs)) = top_level L"
proof (cases rule: top_level_cases [of L])
  case empty
  then show ?thesis using assms by simp
next
  case level
  then have "\<not> i < top_level L" using assms by (auto simp: lv_def)
  then show ?thesis using level assms
    by (intro top_level_eqI) (auto simp: lv_def split: if_splits)
qed

text \<open>The cache update at the end of \<^verbatim>\<open>rq_remove\<close>.\<close>

lemma recache_rep:
  assumes q: "\<And>j. lv j \<Longrightarrow> queue_rep t j (L' j)" and out: "\<And>j. \<not> lv j \<Longrightarrow> L' j = []"
    and i: "lv i"
    and same: "L' i \<noteq> [] \<or> highest_nonempty t \<noteq> i \<Longrightarrow> highest_nonempty t = top_level L'"
  shows "runq_rep (if q_head (rq t i) = None \<and> highest_nonempty t = i
                   then t\<lparr>highest_nonempty := rq_first t\<rparr> else t) L'"
proof (cases "q_head (rq t i) = None \<and> highest_nonempty t = i")
  case True
  then show ?thesis using q out rq_first_rep [of t L'] by (simp add: runq_rep_def)
next
  case False
  then have "highest_nonempty t = top_level L'"
    using same queue_rep_head_iff [OF q [OF i]] by simp
  with False show ?thesis using q out by (auto simp: runq_rep_def)
qed

lemma rq_remove_rep:
  assumes r: "runq_rep s L" and i: "lv i"
  shows "\<exists>t. rq_remove i p s = Inr t \<and> runq_rep t (L(i := remove1 p (L i))) \<and> links_only s t"
proof (cases "p \<in> set (L i)")
  case False
  have c: "chain (nexts s) (q_head (rq s i)) (L i)"
    using runq_repD(1) [OF r i] by (simp add: queue_rep_def)
  let ?t = "if q_head (rq s i) = None \<and> highest_nonempty s = i
            then s\<lparr>highest_nonempty := rq_first s\<rparr> else s"
  have "rq_remove i p s = Inr ?t"
    using rq_find_absent [OF c False] by (simp add: rq_remove_def Let_def)
  moreover have "runq_rep ?t L"
    using runq_repD [OF r] by (intro recache_rep [OF _ _ i])
  moreover have "L(i := remove1 p (L i)) = L" using False by (simp add: remove1_idem)
  ultimately show ?thesis by auto
next
  case True
  then obtain as bs where L: "L i = as @ p # bs" and p: "p \<notin> set as"
    by (meson split_list_first)
  have c: "chain (nexts s) (q_head (rq s i)) (as @ p # bs)"
    using runq_repD(1) [OF r i] L by (simp add: queue_rep_def)
  let ?u = "rq_unlink i p (if as = [] then None else Some (last as)) s"
  let ?t = "if q_head (rq ?u i) = None \<and> highest_nonempty ?u = i
            then ?u\<lparr>highest_nonempty := rq_first ?u\<rparr> else ?u"
  have L': "L(i := remove1 p (L i)) = L(i := as @ bs)" using L p by (simp add: remove1_split)
  have "rq_remove i p s = Inr ?t"
    using rq_find_present [OF c p, of None] by (simp only: rq_remove_def Let_def option.case)
  moreover have "runq_rep ?t (L(i := as @ bs))"
  proof (rule recache_rep [OF _ _ i])
    show "queue_rep ?u j ((L(i := as @ bs)) j)" if "lv j" for j
      using r i L that by (rule rq_unlink_rep)
    show "(L(i := as @ bs)) j = []" if "\<not> lv j" for j
      using that i runq_repD(2) [OF r that] by auto
    show "highest_nonempty ?u = top_level (L(i := as @ bs))"
      if "(L(i := as @ bs)) i \<noteq> [] \<or> highest_nonempty ?u \<noteq> i"
      using that runq_repD(3) [OF r] top_level_same [OF i, of L "as @ bs"] L by auto
  qed
  ultimately show ?thesis using L' by auto
qed

lemma prio_pick_next_none:
  "runq_rep s L \<Longrightarrow> (\<And>i. lv i \<Longrightarrow> L i = []) \<Longrightarrow> prio_pick_next s = Inr (None, s)"
  using runq_repD(3) [of s L] top_level_emptyI [of L] by (simp add: prio_pick_next_def)

lemma top_level_le:
  assumes "lv i" "L i \<noteq> []"
  shows "lv (top_level L) \<and> L (top_level L) \<noteq> [] \<and> top_level L \<le> i"
proof (cases rule: top_level_cases [of L])
  case empty
  then show ?thesis using assms by simp
next
  case level
  have "\<not> i < top_level L" using level(3) [of i] assms by (auto simp: lv_def)
  then show ?thesis using level by simp
qed

lemma prio_pick_next_some:
  assumes r: "runq_rep s L" and ne: "L i \<noteq> []"
  defines "h \<equiv> top_level L"
  shows "\<exists>t. prio_pick_next s = Inr (Some (hd (L h)), t) \<and> runq_rep t (L(h := tl (L h))) \<and>
           links_only s t \<and> lv h \<and> L h \<noteq> [] \<and> h \<le> i"
proof -
  have i: "lv i" using runq_repD(2) [OF r] ne by blast
  have h: "lv h" "L h \<noteq> []" "h \<le> i"
    unfolding h_def using top_level_le [of i L] i ne by auto
  then obtain p ps where L: "L h = p # ps" by (auto simp: neq_Nil_conv)
  have "q_head (rq s h) = Some p"
    using runq_repD(1) [OF r h(1)] L by (simp add: queue_rep_def)
  moreover obtain t where t: "rq_remove h p s = Inr t" "runq_rep t (L(h := remove1 p (L h)))"
      "links_only s t"
    using rq_remove_rep [OF r h(1)] by blast
  moreover have "highest_nonempty s = h" using runq_repD(3) [OF r] by (simp add: h_def)
  moreover have "\<not> h < 0" using h(1) by (simp add: lv_def)
  ultimately have "prio_pick_next s = Inr (Some p, t)" by (simp add: prio_pick_next_def Let_def)
  then show ?thesis using t L h by auto
qed

section \<open>Aging\<close>

text \<open>What one clock tick does to a waiting process, and to the levels.\<close>

definition ages :: "proc \<Rightarrow> bool" where
  "ages x \<longleftrightarrow> AGING_TICKS \<le> p_wait_ticks x + 1 \<and> PRIO_MIN < p_prio x"

definition tick_proc :: "proc \<Rightarrow> proc" where
  "tick_proc x =
     (if ages x then x\<lparr>p_prio := p_prio x - 1, p_wait_ticks := 0\<rparr>
      else x\<lparr>p_wait_ticks := p_wait_ticks x + 1\<rparr>)"

definition drain :: "int \<Rightarrow> nat list \<Rightarrow> nat list \<Rightarrow> (nat \<Rightarrow> bool) \<Rightarrow> levels \<Rightarrow> levels" where
  "drain i keep rest A L =
     L(i := keep @ filter (\<lambda>p. \<not> A p) rest, i - 1 := L (i - 1) @ filter A rest)"

definition same_globals :: "sched \<Rightarrow> sched \<Rightarrow> bool" where
  "same_globals s t \<longleftrightarrow>
     s_cpu t = s_cpu s \<and> s_initproc t = s_initproc s \<and> s_nextpid t = s_nextpid s"

lemma strip_ages: "strip x = strip y \<Longrightarrow> ages x = ages y"
  using strip_fields [of x y] by (simp add: ages_def)

lemma strip_tick: "strip x = strip y \<Longrightarrow> strip (tick_proc x) = strip (tick_proc y)"
  using strip_ages [of x y] strip_fields [of x y]
  by (cases x; cases y) (simp add: tick_proc_def strip_def)

lemma nexts_upd_proc: "p_rq_next (f (procs s p)) = p_rq_next (procs s p) \<Longrightarrow> nexts (upd_proc p f s) = nexts s"
  by (auto simp: nexts_def upd_proc_def)

lemma runq_rep_upd_proc:
  assumes r: "runq_rep s L" and n: "p_rq_next (f (procs s p)) = p_rq_next (procs s p)"
    and q: "queued L p \<Longrightarrow> p_prio (f (procs s p)) = p_prio (procs s p)"
  shows "runq_rep (upd_proc p f s) L"
proof -
  have "p_prio (procs (upd_proc p f s) x) = p_prio (procs s x)" if "x \<in> set (L i)" for x i
    using that q by (auto simp: upd_proc_def queued_def)
  then have "queue_rep (upd_proc p f s) i (L i)" if "lv i" for i
    using runq_repD(1) [OF r that] nexts_upd_proc [of f s p] n
    by (auto simp: queue_rep_def) (simp_all add: upd_proc_def)
  then show ?thesis using r by (auto simp: runq_rep_def) (simp add: upd_proc_def)
qed

lemma age_step_keep:
  assumes r: "runq_rep s L" and i: "lv i" and L: "L i = keep @ c # rest"
    and a: "\<not> ages (procs s c)"
  defines "s1 \<equiv> upd_proc c (\<lambda>x. x\<lparr>p_wait_ticks := p_wait_ticks x + 1\<rparr>) s"
  shows "age_queue i (Some c) s = age_queue i (case rest of [] \<Rightarrow> None | y # _ \<Rightarrow> Some y) s1"
    and "runq_rep s1 L"
proof -
  have "chain (nexts s) (q_head (rq s i)) (keep @ c # rest)"
    using runq_repD(1) [OF r i] L by (simp add: queue_rep_def)
  then have n: "p_rq_next (procs s1 c) = (case rest of [] \<Rightarrow> None | y # _ \<Rightarrow> Some y)"
    using chain_next [of "nexts s"] by (simp add: s1_def nexts_def upd_proc_def)
  have "(AGING_TICKS \<le> p_wait_ticks (procs s1 c) \<and> PRIO_MIN < p_prio (procs s1 c)) = False"
    using a by (simp add: s1_def ages_def upd_proc_def)
  then show "age_queue i (Some c) s = age_queue i (case rest of [] \<Rightarrow> None | y # _ \<Rightarrow> Some y) s1"
    unfolding n [symmetric] age_queue.simps [of i "Some c"] s1_def
    by (simp only: option.case Let_def if_False)
  show "runq_rep s1 L" unfolding s1_def using r by (rule runq_rep_upd_proc) simp_all
qed

lemma age_step_raise:
  assumes r: "runq_rep s L" and i: "lv i" and L: "L i = keep @ c # rest"
    and a: "ages (procs s c)"
  shows "\<exists>t. age_queue i (Some c) s = age_queue i (case rest of [] \<Rightarrow> None | y # _ \<Rightarrow> Some y) t \<and>
           runq_rep t (L(i := keep @ rest, i - 1 := L (i - 1) @ [c])) \<and>
           (\<forall>q. strip (procs t q) = strip (if q = c then tick_proc (procs s q) else procs s q)) \<and>
           same_globals s t"
proof -
  define s1 where "s1 = upd_proc c (\<lambda>x. x\<lparr>p_wait_ticks := p_wait_ticks x + 1\<rparr>) s"
  have q: "queue_rep s i (keep @ c # rest)" using runq_repD(1) [OF r i] L by simp
  have ch: "chain (nexts s) (q_head (rq s i)) (keep @ c # rest)" and c: "c < NPROC" "p_prio (procs s c) = i"
    using q by (simp_all add: queue_rep_def)
  have n: "p_rq_next (procs s1 c) = (case rest of [] \<Rightarrow> None | y # _ \<Rightarrow> Some y)"
    using chain_next [OF ch] by (simp add: s1_def nexts_def upd_proc_def)
  have cond: "(AGING_TICKS \<le> p_wait_ticks (procs s1 c) \<and> PRIO_MIN < p_prio (procs s1 c)) = True"
    using a by (simp add: s1_def ages_def upd_proc_def)
  have i1: "lv (i - 1)" using a c i by (simp add: ages_def lv_def)
  have r1: "runq_rep s1 L" unfolding s1_def using r by (rule runq_rep_upd_proc) simp_all
  have ck: "c \<notin> set keep" using chain_distinct [OF ch] by simp
  obtain s2 where s2: "rq_remove i c s1 = Inr s2" "runq_rep s2 (L(i := remove1 c (L i)))"
      "links_only s1 s2"
    using rq_remove_rep [OF r1 i] by blast
  let ?L2 = "L(i := keep @ rest)"
  have r2: "runq_rep s2 ?L2" using s2(2) L ck by (simp add: remove1_split)
  have nq: "\<not> queued ?L2 c"
  proof
    assume "queued ?L2 c"
    then obtain j where j: "c \<in> set (?L2 j)" by (auto simp: queued_def)
    show False
    proof (cases "j = i")
      case True
      then show ?thesis using j chain_distinct [OF ch] by simp
    next
      case False
      then show ?thesis using j runq_rep_mem(1) [OF r, of c j] c by simp
    qed
  qed
  define s4 where "s4 = upd_proc c (\<lambda>x. x\<lparr>p_wait_ticks := 0\<rparr>)
      (upd_proc c (\<lambda>x. x\<lparr>p_prio := p_prio x - 1\<rparr>) s2)"
  have r4: "runq_rep s4 ?L2" unfolding s4_def
    using r2 nq by (intro runq_rep_upd_proc) simp_all
  have p4: "p_prio (procs s4 c) = i - 1"
    using links_only_prio [OF s2(3), of c] c(2) by (simp add: s4_def s1_def upd_proc_def)
  let ?t = "rq_push_tail (i - 1) c s4"
  have "runq_rep ?t (?L2(i - 1 := ?L2 (i - 1) @ [c]))"
    using r4 nq c(1) p4 i1 by (rule rq_push_tail_rep)
  then have rt: "runq_rep ?t (L(i := keep @ rest, i - 1 := L (i - 1) @ [c]))" by simp
  have "age_queue i (Some c) s = age_queue i (case rest of [] \<Rightarrow> None | y # _ \<Rightarrow> Some y) ?t"
    using cond s2(1) p4 unfolding n [symmetric] age_queue.simps [of i "Some c"] s1_def s4_def
    by (simp only: option.case Let_def if_True sum.case)
  moreover have "strip (procs ?t q) = strip (if q = c then tick_proc (procs s q) else procs s q)" for q
  proof -
    have 1: "strip (procs ?t q) = strip (procs s4 q)"
      using rq_push_tail_frame [of s4] by (simp add: links_only_def)
    have 2: "strip (procs s2 q) = strip (procs s1 q)" using s2(3) by (simp add: links_only_def)
    show ?thesis
    proof (cases "q = c")
      case True
      have "strip (procs s4 c) = (strip (procs s2 c))\<lparr>p_prio := i - 1, p_wait_ticks := 0\<rparr>"
        using p4 by (simp add: s4_def upd_proc_def strip_def)
      then show ?thesis using 1 2 True a c by (simp add: tick_proc_def s1_def upd_proc_def strip_def)
    next
      case False
      then show ?thesis using 1 2 by (simp add: s4_def s1_def upd_proc_def)
    qed
  qed
  moreover have "same_globals s ?t"
    using s2(3) rq_push_tail_frame [of s4 "i - 1" c]
    by (simp add: same_globals_def links_only_def s4_def s1_def upd_proc_def)
  ultimately show ?thesis using rt by blast
qed

text \<open>\<open>ticked s t P\<close>: exactly the processes in \<open>P\<close> have lived through one tick.\<close>

definition ticked :: "sched \<Rightarrow> sched \<Rightarrow> nat set \<Rightarrow> bool" where
  "ticked s t P \<longleftrightarrow>
     (\<forall>q. strip (procs t q) = strip (if q \<in> P then tick_proc (procs s q) else procs s q)) \<and>
     same_globals s t"

lemma ticked_trans:
  assumes "ticked s t P" "ticked t u Q" "P \<inter> Q = {}"
  shows "ticked s u (P \<union> Q)"
proof -
  have "strip (procs u q) = strip (if q \<in> P \<union> Q then tick_proc (procs s q) else procs s q)" for q
    using assms strip_tick [of "procs t q" "procs s q"]
    by (cases "q \<in> P"; cases "q \<in> Q") (auto simp: ticked_def)
  then show ?thesis using assms by (simp add: ticked_def same_globals_def)
qed

lemma ticked_ages: "ticked s t P \<Longrightarrow> q \<notin> P \<Longrightarrow> ages (procs t q) = ages (procs s q)"
  by (rule strip_ages) (simp add: ticked_def)

lemma filter_ages_cong:
  "ticked s t P \<Longrightarrow> set xs \<inter> P = {} \<Longrightarrow>
   filter (\<lambda>p. ages (procs t p)) xs = filter (\<lambda>p. ages (procs s p)) xs \<and>
   filter (\<lambda>p. \<not> ages (procs t p)) xs = filter (\<lambda>p. \<not> ages (procs s p)) xs"
  by (intro conjI filter_cong) (auto simp: ticked_ages disjoint_iff)

lemma age_queue_rep:
  assumes "runq_rep s L" and i: "lv i" and "L i = keep @ rest"
  shows "\<exists>t. age_queue i (case rest of [] \<Rightarrow> None | y # _ \<Rightarrow> Some y) s = Some (Inr t) \<and>
           runq_rep t (drain i keep rest (\<lambda>p. ages (procs s p)) L) \<and> ticked s t (set rest)"
  using assms(1,3)
proof (induction rest arbitrary: s L keep)
  case Nil
  have "drain i keep [] (\<lambda>p. ages (procs s p)) L = L"
    using Nil.prems(2) by (auto simp: drain_def)
  then show ?case using Nil
    by (auto simp: age_queue.simps [of i None] ticked_def same_globals_def)
next
  case (Cons c rest)
  have "chain (nexts s) (q_head (rq s i)) (keep @ c # rest)"
    using runq_repD(1) [OF Cons.prems(1) i] Cons.prems(2) by (simp add: queue_rep_def)
  then have cr: "c \<notin> set rest" using chain_distinct by fastforce
  have ex: "\<exists>u L' keep'. age_queue i (Some c) s
        = age_queue i (case rest of [] \<Rightarrow> None | y # _ \<Rightarrow> Some y) u
      \<and> runq_rep u L' \<and> L' i = keep' @ rest \<and> ticked s u {c}
      \<and> drain i keep' rest (\<lambda>p. ages (procs s p)) L'
        = drain i keep (c # rest) (\<lambda>p. ages (procs s p)) L"
  proof (cases "ages (procs s c)")
    case True
    obtain u where u: "age_queue i (Some c) s
          = age_queue i (case rest of [] \<Rightarrow> None | y # _ \<Rightarrow> Some y) u"
        "runq_rep u (L(i := keep @ rest, i - 1 := L (i - 1) @ [c]))"
        "\<And>q. strip (procs u q) = strip (if q = c then tick_proc (procs s q) else procs s q)"
        "same_globals s u"
      using age_step_raise [OF Cons.prems(1) i Cons.prems(2) True] by blast
    moreover have "ticked s u {c}" using u by (auto simp: ticked_def)
    ultimately show ?thesis using True
      by (intro exI [of _ u] exI [of _ "L(i := keep @ rest, i - 1 := L (i - 1) @ [c])"]
          exI [of _ keep]) (auto simp: drain_def)
  next
    case False
    let ?u = "upd_proc c (\<lambda>x. x\<lparr>p_wait_ticks := p_wait_ticks x + 1\<rparr>) s"
    have "ticked s ?u {c}"
      using False by (simp add: ticked_def same_globals_def upd_proc_def tick_proc_def)
    then show ?thesis
      using age_step_keep [OF Cons.prems(1) i Cons.prems(2) False] Cons.prems(2) False
      by (intro exI [of _ ?u] exI [of _ L] exI [of _ "keep @ [c]"]) (auto simp: drain_def)
  qed
  then obtain u L' keep' where u: "age_queue i (Some c) s
        = age_queue i (case rest of [] \<Rightarrow> None | y # _ \<Rightarrow> Some y) u"
      "runq_rep u L'" "L' i = keep' @ rest" "ticked s u {c}"
      and d: "drain i keep' rest (\<lambda>p. ages (procs s p)) L'
        = drain i keep (c # rest) (\<lambda>p. ages (procs s p)) L"
    by blast
  obtain t where t: "age_queue i (case rest of [] \<Rightarrow> None | y # _ \<Rightarrow> Some y) u = Some (Inr t)"
      "runq_rep t (drain i keep' rest (\<lambda>p. ages (procs u p)) L')" "ticked u t (set rest)"
    using Cons.IH [OF u(2,3)] by blast
  have "drain i keep' rest (\<lambda>p. ages (procs u p)) L'
      = drain i keep' rest (\<lambda>p. ages (procs s p)) L'"
    using filter_ages_cong [OF u(4), of rest] cr by (simp add: drain_def)
  then have "drain i keep' rest (\<lambda>p. ages (procs u p)) L'
      = drain i keep (c # rest) (\<lambda>p. ages (procs s p)) L"
    by (simp only: d)
  moreover have "ticked s t (set (c # rest))"
    using ticked_trans [OF u(4) t(3)] cr by simp
  ultimately show ?case using u(1) t by auto
qed

text \<open>The levels after one tick: the processes of a level that do not age keep their order
  and are followed by those that come up from the level below.\<close>

definition tick_levels :: "(nat \<Rightarrow> bool) \<Rightarrow> levels \<Rightarrow> levels" where
  "tick_levels A L i = filter (\<lambda>p. \<not> A p) (L i) @ filter A (L (i + 1))"

definition part_levels :: "(nat \<Rightarrow> bool) \<Rightarrow> levels \<Rightarrow> int \<Rightarrow> levels" where
  "part_levels A L i j =
     (if j < i - 1 then tick_levels A L j
      else if j = i - 1 then filter (\<lambda>p. \<not> A p) (L j) else L j)"

lemma part_levels_start: "runq_rep s L \<Longrightarrow> part_levels A L 0 = L"
  using runq_repD(2) [of s L] by (intro ext) (auto simp: part_levels_def tick_levels_def lv_def)

lemma part_levels_step:
  "drain i [] (L i) A (part_levels A L i) = part_levels A L (i + 1)"
  by (intro ext) (auto simp: drain_def part_levels_def tick_levels_def)

lemma part_levels_end: "runq_rep s L \<Longrightarrow> part_levels A L NPRIO = tick_levels A L"
  using runq_repD(2) [of s L] by (intro ext) (auto simp: part_levels_def tick_levels_def lv_def)

lemma queue_head_eq: "queue_rep s i xs \<Longrightarrow> q_head (rq s i) = (case xs of [] \<Rightarrow> None | y # _ \<Rightarrow> Some y)"
  by (cases xs) (auto simp: queue_rep_def)

lemma age_queues_rep:
  assumes r: "runq_rep s L"
  shows "runq_rep u (part_levels (\<lambda>p. ages (procs s p)) L i) \<Longrightarrow>
    ticked s u {p. \<exists>j<i. p \<in> set (L j)} \<Longrightarrow> 0 \<le> i \<Longrightarrow> i \<le> NPRIO \<Longrightarrow>
    \<exists>t. age_queues [i..NPRIO - 1] u = Inr t \<and>
        runq_rep t (tick_levels (\<lambda>p. ages (procs s p)) L) \<and> ticked s t {p. queued L p}"
proof (induction "nat (NPRIO - i)" arbitrary: i u)
  case 0
  have i: "i = NPRIO" using 0 by linarith
  have "{p. \<exists>j<i. p \<in> set (L j)} = {p. queued L p}"
    using runq_rep_mem(3) [OF r] by (fastforce simp: queued_def i lv_def)
  then show ?case using 0 part_levels_end [OF r] i by simp
next
  case (Suc n)
  let ?A = "\<lambda>p. ages (procs s p)"
  have i: "lv i" using Suc by (simp add: lv_def)
  have Li: "part_levels ?A L i i = [] @ L i" by (simp add: part_levels_def)
  have "\<And>p j. p \<in> set (L i) \<Longrightarrow> p \<in> set (L j) \<Longrightarrow> j = i"
    using runq_rep_mem(1) [OF r] by metis
  then have disj: "set (L i) \<inter> {p. \<exists>j<i. p \<in> set (L j)} = {}"
    by fastforce
  have hd: "q_head (rq u i) = (case L i of [] \<Rightarrow> None | y # _ \<Rightarrow> Some y)"
    using queue_head_eq [OF runq_repD(1) [OF Suc.prems(1) i]] Li by simp
  obtain t where t: "age_queue i (q_head (rq u i)) u = Some (Inr t)"
      "runq_rep t (drain i [] (L i) (\<lambda>p. ages (procs u p)) (part_levels ?A L i))"
      "ticked u t (set (L i))"
    using age_queue_rep [OF Suc.prems(1) i Li] hd by auto
  have "drain i [] (L i) (\<lambda>p. ages (procs u p)) (part_levels ?A L i) = part_levels ?A L (i + 1)"
    using filter_ages_cong [OF Suc.prems(2) disj] part_levels_step [of i L ?A]
    by (simp add: drain_def)
  moreover have "ticked s t {p. \<exists>j<i + 1. p \<in> set (L j)}"
  proof -
    have "{p. \<exists>j<i + 1. p \<in> set (L j)} = {p. \<exists>j<i. p \<in> set (L j)} \<union> set (L i)"
      using zless_add1_eq by auto
    then show ?thesis using ticked_trans [OF Suc.prems(2) t(3)] disj by (metis Int_commute)
  qed
  moreover have "age_queues [i..NPRIO - 1] u = age_queues [i + 1..NPRIO - 1] t"
    using i t(1) by (simp add: lv_def upto_rec1 [of i])
  ultimately show ?case using Suc.hyps(1) [of "i + 1" t] Suc.hyps(2) i t(2)
    by (simp add: lv_def)
qed

lemma prio_on_tick_rep:
  assumes "runq_rep s L"
  shows "\<exists>t. prio_on_tick s = Inr t \<and>
    runq_rep t (tick_levels (\<lambda>p. ages (procs s p)) L) \<and> ticked s t {p. queued L p}"
proof -
  have "ticked s s {p. \<exists>j<0. p \<in> set (L j)}"
  proof -
    have "{p. \<exists>j<0. p \<in> set (L j)} = {}"
      using runq_rep_mem(3) [OF assms] by (fastforce simp: lv_def)
    show ?thesis unfolding \<open>{p. \<exists>j<0. p \<in> set (L j)} = {}\<close>
      by (simp add: ticked_def same_globals_def)
  qed
  then show ?thesis
    unfolding prio_on_tick_def
    using age_queues_rep [OF assms, of s 0] part_levels_start [OF assms] assms by simp
qed

section \<open>Insertion by the scheduler\<close>

definition woken :: "proc \<Rightarrow> proc" where
  "woken x = x\<lparr>p_wait_ticks := 0\<rparr>"

lemma strip_woken [simp]: "p_prio (woken x) = p_prio x" "p_state (woken x) = p_state x"
  "p_rq_next (woken x) = p_rq_next x" "p_wait_ticks (woken x) = 0" "p_chan (woken x) = p_chan x"
  by (simp_all add: woken_def)

lemma runq_rep_cpu [simp]: "runq_rep (s\<lparr>s_cpu := c\<rparr>) L = runq_rep s L"
  by (simp add: runq_rep_def queue_rep_def)

lemma prio_enqueue_rep:
  assumes r: "runq_rep s L" and p: "\<not> queued L p" "p < NPROC" "lv (p_prio (procs s p))"
  defines "i \<equiv> p_prio (procs s p)" and "t \<equiv> prio_enqueue p s"
  shows "runq_rep t (L(i := L i @ [p]))"
    "strip (procs t q) = strip (if q = p then woken (procs s p) else procs s q)"
    "s_initproc t = s_initproc s" "s_nextpid t = s_nextpid s" "myproc t = myproc s"
    "c_idleproc (s_cpu t) = c_idleproc (s_cpu s)"
proof -
  let ?s1 = "upd_proc p (\<lambda>x. x\<lparr>p_wait_ticks := 0\<rparr>) s"
  let ?s2 = "rq_push_tail i p ?s1"
  have i: "p_prio (procs ?s1 p) = i" by (simp add: i_def upd_proc_def)
  have "runq_rep ?s1 L" using r p(1) by (intro runq_rep_upd_proc) simp_all
  then have r2: "runq_rep ?s2 (L(i := L i @ [p]))"
    using p i by (intro rq_push_tail_rep) (simp_all add: i_def)
  have l: "links_only ?s1 ?s2" by (rule rq_push_tail_frame)
  have t: "\<exists>c. t = ?s2\<lparr>s_cpu := c\<rparr> \<and> c_proc c = c_proc (s_cpu ?s2)
      \<and> c_idleproc c = c_idleproc (s_cpu ?s2)"
  proof -
    have *: "?s2 = ?s2\<lparr>s_cpu := s_cpu ?s2\<rparr>" by simp
    show ?thesis unfolding t_def prio_enqueue_def Let_def i
      by (cases "myproc ?s2") (use * in \<open>auto intro: exI [of _ "s_cpu ?s2"]\<close>)
  qed
  show "runq_rep t (L(i := L i @ [p]))" using t r2 by auto
  show "strip (procs t q) = strip (if q = p then woken (procs s p) else procs s q)"
    using t l by (auto simp: links_only_def upd_proc_def woken_def)
  show "s_initproc t = s_initproc s" "s_nextpid t = s_nextpid s" "myproc t = myproc s"
    "c_idleproc (s_cpu t) = c_idleproc (s_cpu s)"
    using t l by (auto simp: links_only_def upd_proc_def myproc_def)
qed

end
