(* ===== verification/Fairness.thy ===== *)
theory Fairness
  imports Runq
begin

text \<open>
  The contract of the ready queue, as a locale that knows the queue only through its
  levels, and what follows from it: picks come in order of priority and, within a level,
  in order of arrival; and because waiting processes rise one level every
  \<^verbatim>\<open>AGING_TICKS\<close> ticks, none is passed over for ever.  The locale is interpreted on the
  linked lists of \<^verbatim>\<open>kernel/proc.c\<close>.
\<close>

section \<open>Traces of queue operations\<close>

datatype rq_event = Tick | Pick | Put nat

text \<open>\<open>rq_steps \<dots> s es ps u\<close>: the operations \<open>es\<close>, started in \<open>s\<close>, end in \<open>u\<close> and the
  picks among them returned the processes \<open>ps\<close>.\<close>

inductive rq_steps ::
  "('s \<Rightarrow> (nat option \<times> 's) res) \<Rightarrow> ('s \<Rightarrow> 's res) \<Rightarrow> (nat \<Rightarrow> 's \<Rightarrow> 's) \<Rightarrow> (nat \<Rightarrow> 's \<Rightarrow> bool) \<Rightarrow>
   's \<Rightarrow> rq_event list \<Rightarrow> nat list \<Rightarrow> 's \<Rightarrow> bool"
  for pick tick put may where
  nil: "rq_steps pick tick put may s [] [] s"
| tick: "tick s = Inr t \<Longrightarrow> rq_steps pick tick put may t es ps u \<Longrightarrow>
    rq_steps pick tick put may s (Tick # es) ps u"
| pick: "pick s = Inr (r, t) \<Longrightarrow> rq_steps pick tick put may t es ps u \<Longrightarrow>
    rq_steps pick tick put may s (Pick # es) ((case r of None \<Rightarrow> [] | Some p \<Rightarrow> [p]) @ ps) u"
| put: "may q s \<Longrightarrow> rq_steps pick tick put may (put q s) es ps u \<Longrightarrow>
    rq_steps pick tick put may s (Put q # es) ps u"

inductive_cases rq_steps_NilE: "rq_steps pick tick put may s [] ps u"
inductive_cases rq_steps_ConsE: "rq_steps pick tick put may s (e # es) ps u"

lemma rq_steps_append:
  "rq_steps pick tick put may s xs ps u \<Longrightarrow> xs = es @ fs \<Longrightarrow>
   \<exists>qs rs t. rq_steps pick tick put may s es qs t \<and> rq_steps pick tick put may t fs rs u
     \<and> ps = qs @ rs"
proof (induction arbitrary: es rule: rq_steps.induct)
  case (nil s)
  then show ?case by (auto intro: rq_steps.nil)
next
  case (tick s t es' ps u)
  then show ?case
    by (cases es) (force intro: rq_steps.nil rq_steps.tick, fastforce intro: rq_steps.tick)
next
  case (pick s r t es' ps u)
  then show ?case
  proof (cases es)
    case (Cons e as)
    then obtain qs rs v where "rq_steps pick tick put may t as qs v"
        "rq_steps pick tick put may v fs rs u" "ps = qs @ rs"
      using pick by auto
    with Cons pick show ?thesis by (auto intro!: exI rq_steps.pick)
  qed (force intro: rq_steps.nil rq_steps.pick)
next
  case (put q s es' ps u)
  then show ?case
    by (cases es) (force intro: rq_steps.nil rq_steps.put, fastforce intro: rq_steps.put)
qed

section \<open>The contract\<close>

definition due :: "int \<Rightarrow> int \<Rightarrow> bool" where
  "due i w \<longleftrightarrow> AGING_TICKS \<le> w + 1 \<and> PRIO_MIN < i"

definition ticks_left :: "int \<Rightarrow> int \<Rightarrow> int" where
  "ticks_left i w = (if i = 0 then 0 else AGING_TICKS * i - min w (AGING_TICKS - 1))"

locale ready_queue =
  fixes inv :: "'s \<Rightarrow> bool"
    and level :: "'s \<Rightarrow> int \<Rightarrow> nat list"
    and wait :: "'s \<Rightarrow> nat \<Rightarrow> int"
    and pick :: "'s \<Rightarrow> (nat option \<times> 's) res"
    and tick :: "'s \<Rightarrow> 's res"
    and put :: "nat \<Rightarrow> 's \<Rightarrow> 's"
    and may :: "nat \<Rightarrow> 's \<Rightarrow> bool"
  assumes level_range: "inv s \<Longrightarrow> p \<in> set (level s i) \<Longrightarrow> 0 \<le> i \<and> i < NPRIO \<and> p < NPROC"
    and level_distinct: "inv s \<Longrightarrow> distinct (level s i)"
    and pick_empty: "inv s \<Longrightarrow> (\<And>i. level s i = []) \<Longrightarrow> pick s = Inr (None, s)"
    and pick_best: "inv s \<Longrightarrow> level s j \<noteq> [] \<Longrightarrow>
      \<exists>h t. pick s = Inr (Some (hd (level s h)), t) \<and> inv t \<and> level s h \<noteq> [] \<and>
        (\<forall>i. level s i \<noteq> [] \<longrightarrow> h \<le> i) \<and> level t = (level s)(h := tl (level s h)) \<and> wait t = wait s"
    and tick_law: "inv s \<Longrightarrow>
      \<exists>t. tick s = Inr t \<and> inv t \<and>
        (\<forall>i. level t i = filter (\<lambda>p. \<not> due i (wait s p)) (level s i)
               @ filter (\<lambda>p. due (i + 1) (wait s p)) (level s (i + 1))) \<and>
        (\<forall>i. \<forall>p\<in>set (level s i). wait t p = (if due i (wait s p) then 0 else wait s p + 1))"
    and put_law: "inv s \<Longrightarrow> may q s \<Longrightarrow>
      (\<forall>i. q \<notin> set (level s i)) \<and> inv (put q s) \<and>
      (\<exists>i. level (put q s) = (level s)(i := level s i @ [q])) \<and>
      (\<forall>p. p \<noteq> q \<longrightarrow> wait (put q s) p = wait s p)"
begin

lemma tick_member:
  assumes "inv s" "p \<in> set (level s i)" "tick s = Inr t"
  shows "inv t \<and> p \<in> set (level t (if due i (wait s p) then i - 1 else i)) \<and>
         wait t p = (if due i (wait s p) then 0 else wait s p + 1)"
  using tick_law [OF assms(1)] assms(2,3) by (auto simp: due_def)

lemma tick_level0:
  assumes "inv s" "tick s = Inr t"
  shows "\<exists>ys. level t 0 = level s 0 @ ys"
  using tick_law [OF assms(1)] assms(2) by (auto simp: due_def)

lemma pick_other:
  assumes "inv s" "p \<in> set (level s i)" "pick s = Inr (r, t)" "r \<noteq> Some p"
  shows "inv t \<and> p \<in> set (level t i) \<and> wait t p = wait s p"
proof -
  have "level s i \<noteq> []" using assms(2) by auto
  then obtain h where h: "r = Some (hd (level s h))" "inv t" "level s h \<noteq> []"
      "level t = (level s)(h := tl (level s h))" "wait t = wait s"
    using pick_best [OF assms(1), of i] assms(3) by auto
  then have "p \<in> set (tl (level s h))" if "h = i"
    using that assms(2,4) by (metis list.collapse list.set_cases list.sel(1,3) option.inject)
  then show ?thesis using h assms(2) by auto
qed

lemma pick_level0:
  assumes "inv s" "level s 0 \<noteq> []" "pick s = Inr (r, t)"
  shows "r = Some (hd (level s 0)) \<and> inv t \<and> level t 0 = tl (level s 0)"
proof -
  obtain h where h: "r = Some (hd (level s h))" "inv t" "level s h \<noteq> []" "h \<le> 0"
      "level t = (level s)(h := tl (level s h))"
    using pick_best [OF assms(1,2)] assms(2,3) by auto
  then have "h = 0" using level_range [OF assms(1), of "hd (level s h)" h] by simp
  then show ?thesis using h by simp
qed

lemma put_other:
  assumes "inv s" "p \<in> set (level s i)" "may q s"
  shows "inv (put q s) \<and> p \<in> set (level (put q s) i) \<and> wait (put q s) p = wait s p"
  using put_law [OF assms(1,3)] assms(2) by (metis Un_iff fun_upd_other fun_upd_same set_append)

text \<open>A process that is not picked never sinks, and every tick brings it nearer to level 0.\<close>

lemma climbs:
  assumes "rq_steps pick tick put may s es ps u" "inv s" "p \<in> set (level s i)" "0 \<le> wait s p"
    "p \<notin> set ps"
  shows "\<exists>j. inv u \<and> p \<in> set (level u j) \<and> 0 \<le> wait u p \<and>
    ticks_left j (wait u p) \<le> max 0 (ticks_left i (wait s p) - int (count_list es Tick))"
  using assms
proof (induction arbitrary: i rule: rq_steps.induct)
  case (nil s)
  then show ?case by (auto intro: exI [of _ i])
next
  case (tick s t es ps u)
  let ?i = "if due i (wait s p) then i - 1 else i"
  have t: "inv t" "p \<in> set (level t ?i)" "wait t p = (if due i (wait s p) then 0 else wait s p + 1)"
    using tick_member [OF tick.prems(1,2) tick.hyps(1)] by auto
  have "0 \<le> i" using level_range tick.prems by blast
  then have "ticks_left ?i (wait t p) \<le> max 0 (ticks_left i (wait s p) - 1)"
    using tick.prems(3) t(3) by (auto simp: ticks_left_def due_def)
  moreover have "0 \<le> wait t p" using t(3) tick.prems(3) by auto
  ultimately show ?case using tick.IH [OF t(1,2)] tick.prems(4) by fastforce
next
  case (pick s r t es ps u)
  have "r \<noteq> Some p" "p \<notin> set ps" using pick.prems(4) by (auto split: option.splits)
  then show ?case using pick_other [OF pick.prems(1,2) pick.hyps(1)] pick.IH [of i] pick.prems(3)
    by auto
next
  case (put q s es ps u)
  then show ?case using put_other [OF put.prems(1,2) put.hyps(1)] put.IH [of i] by auto
qed

text \<open>At level 0 nobody is served before a process but those that stand before it.\<close>

lemma served:
  assumes "rq_steps pick tick put may s es ps u" "inv s" "p \<in> set (level s 0)" "0 \<le> wait s p"
    "length (takeWhile (\<lambda>q. q \<noteq> p) (level s 0)) < count_list es Pick"
  shows "p \<in> set ps"
  using assms
proof (induction rule: rq_steps.induct)
  case (nil s)
  then show ?case by simp
next
  case (tick s t es ps u)
  have "\<not> due 0 (wait s p)" by (simp add: due_def)
  then have t: "inv t" "p \<in> set (level t 0)" "0 \<le> wait t p"
    using tick_member [OF tick.prems(1,2) tick.hyps(1)] tick.prems(3) by auto
  obtain ys where "level t 0 = level s 0 @ ys"
    using tick_level0 [OF tick.prems(1) tick.hyps(1)] by blast
  then show ?case using tick.IH [OF t] tick.prems(2,4) by (simp add: takeWhile_append1)
next
  case (pick s r t es ps u)
  have ne: "level s 0 \<noteq> []" using pick.prems(2) by auto
  have r: "r = Some (hd (level s 0))" "inv t" "level t 0 = tl (level s 0)"
    using pick_level0 [OF pick.prems(1) ne pick.hyps(1)] by auto
  show ?case
  proof (cases "hd (level s 0) = p")
    case True
    then show ?thesis using r by simp
  next
    case False
    obtain x xs where x: "level s 0 = x # xs" using ne by (cases "level s 0") auto
    with False r have "p \<in> set (level t 0)" using pick.prems(2) by auto
    moreover have "wait t p = wait s p"
      using pick_other [OF pick.prems(1,2) pick.hyps(1)] r False by simp
    ultimately show ?thesis using pick.IH r(2,3) x False pick.prems(3,4) by simp
  qed
next
  case (put q s es ps u)
  have t: "inv (put q s)" "p \<in> set (level (put q s) 0)" "wait (put q s) p = wait s p"
    using put_other [OF put.prems(1,2) put.hyps(1)] by auto
  obtain ys where "level (put q s) 0 = level s 0 @ ys"
    using put_law [OF put.prems(1) put.hyps(1)] by (metis append_Nil2 fun_upd_other fun_upd_same)
  then show ?case using put.IH [OF t(1,2)] t(3) put.prems(2,3,4) by (simp add: takeWhile_append1)
qed

lemma no_starvation:
  assumes "rq_steps pick tick put may s (es @ fs) ps u" "inv s" "p \<in> set (level s i)"
    "0 \<le> wait s p" "AGING_TICKS * i \<le> int (count_list es Tick)" "NPROC \<le> count_list fs Pick"
  shows "p \<in> set ps"
proof (rule ccontr)
  assume n: "p \<notin> set ps"
  obtain qs rs t where st: "rq_steps pick tick put may s es qs t"
      "rq_steps pick tick put may t fs rs u" "ps = qs @ rs"
    using rq_steps_append [OF assms(1) refl] by blast
  have i: "0 \<le> i" using level_range assms(2,3) by blast
  obtain j where j: "inv t" "p \<in> set (level t j)" "0 \<le> wait t p"
      "ticks_left j (wait t p) \<le> max 0 (ticks_left i (wait s p) - int (count_list es Tick))"
    using climbs [OF st(1) assms(2,3,4)] n st(3) by auto
  have "ticks_left i (wait s p) \<le> AGING_TICKS * i"
    using i assms(4) by (simp add: ticks_left_def)
  with j(4) assms(5) have "ticks_left j (wait t p) \<le> 0" by simp
  moreover have "0 \<le> j" using level_range j(1,2) by blast
  ultimately have "j = 0" by (simp add: ticks_left_def split: if_splits)
  with j have p0: "p \<in> set (level t 0)" by simp
  have "length (takeWhile (\<lambda>q. q \<noteq> p) (level t 0)) < length (level t 0)"
    using p0 by (rule length_takeWhile_less) simp
  also have "\<dots> = card (set (level t 0))"
    using level_distinct [OF j(1)] by (simp add: distinct_card)
  also have "\<dots> \<le> card {..<NPROC}"
    using level_range [OF j(1)] by (intro card_mono) auto
  finally have "length (takeWhile (\<lambda>q. q \<noteq> p) (level t 0)) < NPROC" by simp
  then have "p \<in> set rs" using served [OF st(2) j(1) p0 j(3)] assms(6) by simp
  then show False using n st(3) by simp
qed

text \<open>Ticks and picks always run to their end, and picks alone empty the queue level by
  level.\<close>

lemma pick_inv: "inv s \<Longrightarrow> \<exists>r t. pick s = Inr (r, t) \<and> inv t"
  using pick_empty [of s] pick_best [of s] by (cases "\<forall>i. level s i = []") (auto, metis)

lemma runs:
  "inv s \<Longrightarrow> \<forall>e\<in>set es. e = Tick \<or> e = Pick \<Longrightarrow> \<exists>ps u. rq_steps pick tick put may s es ps u \<and> inv u"
proof (induction es arbitrary: s)
  case Nil
  then show ?case by (auto intro: rq_steps.nil)
next
  case (Cons e es)
  then show ?case
  proof (cases "e = Tick")
    case True
    obtain t where "tick s = Inr t" "inv t" using tick_law [OF Cons.prems(1)] by blast
    then show ?thesis using Cons True by (metis list.set_intros(2) rq_steps.tick)
  next
    case False
    obtain r t where "pick s = Inr (r, t)" "inv t" using pick_inv [OF Cons.prems(1)] by blast
    then show ?thesis using Cons False by (metis list.set_intros rq_steps.pick)
  qed
qed

lemma order_split:
  assumes "inv s" "level s h \<noteq> []" "\<forall>i. level s i \<noteq> [] \<longrightarrow> h \<le> i"
  shows "concat (map (level s) [0..NPRIO - 1])
    = hd (level s h) # concat (map ((level s)(h := tl (level s h))) [0..NPRIO - 1])"
proof -
  have h: "0 \<le> h" "h < NPRIO"
    using level_range [OF assms(1), of "hd (level s h)" h] assms(2) by auto
  have sp: "[0..NPRIO - 1] = [0..h - 1] @ h # [h + 1..NPRIO - 1]"
    using h by (metis diff_ge_0_iff_ge diff_gt_0_iff_gt int_one_le_iff_zero_less upto_split3 zle_diff1_eq)
  have e: "concat (map L [0..h - 1]) = []" if "\<And>i. i < h \<Longrightarrow> L i = []" for L :: "int \<Rightarrow> nat list"
    using that by simp
  have lo: "\<And>i. i < h \<Longrightarrow> level s i = []" using assms(3) by (meson not_le)
  have hi: "map ((level s)(h := tl (level s h))) [h + 1..NPRIO - 1] = map (level s) [h + 1..NPRIO - 1]"
    by simp
  have "concat (map (level s) [0..h - 1]) = []" using e lo by blast
  moreover have "concat (map ((level s)(h := tl (level s h))) [0..h - 1]) = []"
    using lo by (intro e) simp
  ultimately show ?thesis unfolding sp map_append concat_append
    using hi assms(2) by (metis append_Cons append_Nil concat.simps(2) fun_upd_same list.collapse list.simps(9))
qed

lemma pick_order:
  "inv s \<Longrightarrow> \<exists>u. rq_steps pick tick put may s (replicate n Pick)
     (take n (concat (map (level s) [0..NPRIO - 1]))) u \<and> inv u"
proof (induction n arbitrary: s)
  case 0
  then show ?case by (auto intro: rq_steps.nil)
next
  case (Suc n)
  show ?case
  proof (cases "\<forall>i. level s i = []")
    case True
    then have e: "concat (map (level s) [0..NPRIO - 1]) = []" by (simp only: concat_eq_Nil_conv) simp
    have "pick s = Inr (None, s)" using pick_empty [OF Suc.prems] True by blast
    then show ?thesis
      using Suc.IH [OF Suc.prems] rq_steps.pick [of pick s None s tick put may "replicate n Pick" "[]"]
      unfolding e by auto
  next
    case False
    then obtain h t where h: "pick s = Inr (Some (hd (level s h)), t)" "inv t" "level s h \<noteq> []"
        "\<forall>i. level s i \<noteq> [] \<longrightarrow> h \<le> i" "level t = (level s)(h := tl (level s h))"
      using pick_best [OF Suc.prems] by blast
    then obtain u where "rq_steps pick tick put may t (replicate n Pick)
        (take n (concat (map (level t) [0..NPRIO - 1]))) u" "inv u"
      using Suc.IH by blast
    then show ?thesis
      using rq_steps.pick [of pick s "Some (hd (level s h))" t tick put may "replicate n Pick"] h(1,5)
        order_split [OF Suc.prems h(3,4)] by fastforce
  qed
qed

end

section \<open>The linked lists keep the contract\<close>

definition rq_ok :: "sched \<Rightarrow> bool" where
  "rq_ok s \<longleftrightarrow> runq_rep s (rq_abs s)"

definition rq_wait :: "sched \<Rightarrow> nat \<Rightarrow> int" where
  "rq_wait s p = p_wait_ticks (procs s p)"

definition may_enqueue :: "nat \<Rightarrow> sched \<Rightarrow> bool" where
  "may_enqueue q s \<longleftrightarrow> \<not> queued (rq_abs s) q \<and> q < NPROC \<and> lv (p_prio (procs s q))"

lemma rq_okI: "runq_rep s L \<Longrightarrow> rq_ok s \<and> rq_abs s = L"
  using runq_rep_abs [of s L] by (simp add: rq_ok_def)

lemma rq_ok_distinct: "rq_ok s \<Longrightarrow> distinct (rq_abs s i)"
  using runq_repD(1,2) [of s "rq_abs s" i] unfolding rq_ok_def
  by (cases "lv i") (auto simp: queue_rep_def dest: chain_distinct)

lemma rq_ok_pick:
  assumes "rq_ok s" "rq_abs s j \<noteq> []"
  shows "\<exists>h t. prio_pick_next s = Inr (Some (hd (rq_abs s h)), t) \<and> rq_ok t \<and> rq_abs s h \<noteq> [] \<and>
    (\<forall>i. rq_abs s i \<noteq> [] \<longrightarrow> h \<le> i) \<and> rq_abs t = (rq_abs s)(h := tl (rq_abs s h)) \<and>
    rq_wait t = rq_wait s"
proof -
  let ?h = "top_level (rq_abs s)"
  have r: "runq_rep s (rq_abs s)" using assms(1) by (simp add: rq_ok_def)
  obtain t where t: "prio_pick_next s = Inr (Some (hd (rq_abs s ?h)), t)"
      "runq_rep t ((rq_abs s)(?h := tl (rq_abs s ?h)))" "links_only s t" "rq_abs s ?h \<noteq> []"
    using prio_pick_next_some [OF r assms(2)] by blast
  have "\<And>i. rq_abs s i \<noteq> [] \<Longrightarrow> ?h \<le> i" using prio_pick_next_some [OF r] by blast
  moreover have "rq_wait t = rq_wait s"
    unfolding rq_wait_def using t(3) by (intro ext strip_fields(8)) (simp add: links_only_def)
  ultimately show ?thesis using t rq_okI [OF t(2)] by blast
qed

lemma ages_due: "runq_rep s L \<Longrightarrow> p \<in> set (L i) \<Longrightarrow> ages (procs s p) = due i (rq_wait s p)"
  using runq_rep_mem(1) [of s L p i] by (simp add: ages_def due_def rq_wait_def)

lemma rq_ok_tick:
  assumes "rq_ok s"
  shows "\<exists>t. prio_on_tick s = Inr t \<and> rq_ok t \<and>
    (\<forall>i. rq_abs t i = filter (\<lambda>p. \<not> due i (rq_wait s p)) (rq_abs s i)
           @ filter (\<lambda>p. due (i + 1) (rq_wait s p)) (rq_abs s (i + 1))) \<and>
    (\<forall>i. \<forall>p\<in>set (rq_abs s i).
       rq_wait t p = (if due i (rq_wait s p) then 0 else rq_wait s p + 1))"
proof -
  have r: "runq_rep s (rq_abs s)" using assms by (simp add: rq_ok_def)
  obtain t where t: "prio_on_tick s = Inr t"
      "runq_rep t (tick_levels (\<lambda>p. ages (procs s p)) (rq_abs s))"
      "ticked s t {p. queued (rq_abs s) p}"
    using prio_on_tick_rep [OF r] by blast
  have lv: "tick_levels (\<lambda>p. ages (procs s p)) (rq_abs s) i
      = filter (\<lambda>p. \<not> due i (rq_wait s p)) (rq_abs s i)
        @ filter (\<lambda>p. due (i + 1) (rq_wait s p)) (rq_abs s (i + 1))" for i
    unfolding tick_levels_def using ages_due [OF r] by (simp cong: filter_cong)
  have w: "rq_wait t p = (if due i (rq_wait s p) then 0 else rq_wait s p + 1)"
    if "p \<in> set (rq_abs s i)" for p i
  proof -
    have "queued (rq_abs s) p" using that by (auto simp: queued_def)
    then have "strip (procs t p) = strip (tick_proc (procs s p))" using t(3) by (simp add: ticked_def)
    then have "p_wait_ticks (procs t p) = p_wait_ticks (tick_proc (procs s p))" by (rule strip_fields(8))
    then show ?thesis using ages_due [OF r that] by (simp add: rq_wait_def tick_proc_def)
  qed
  show ?thesis using t(1) rq_okI [OF t(2)] lv w by auto
qed

lemma rq_ok_enqueue:
  assumes "rq_ok s" "may_enqueue q s"
  shows "(\<forall>i. q \<notin> set (rq_abs s i)) \<and> rq_ok (prio_enqueue q s) \<and>
    rq_abs (prio_enqueue q s)
      = (rq_abs s)(p_prio (procs s q) := rq_abs s (p_prio (procs s q)) @ [q]) \<and>
    (\<forall>p. p \<noteq> q \<longrightarrow> rq_wait (prio_enqueue q s) p = rq_wait s p)"
proof -
  have r: "runq_rep s (rq_abs s)" using assms(1) by (simp add: rq_ok_def)
  have m: "\<not> queued (rq_abs s) q" "q < NPROC" "lv (p_prio (procs s q))"
    using assms(2) by (auto simp: may_enqueue_def)
  have "rq_wait (prio_enqueue q s) p = rq_wait s p" if "p \<noteq> q" for p
    unfolding rq_wait_def using prio_enqueue_rep(2) [OF r m, of p] that
    by (intro strip_fields(8)) simp
  then show ?thesis using rq_okI [OF prio_enqueue_rep(1) [OF r m]] m(1) by (auto simp: queued_def)
qed

interpretation rqi: ready_queue rq_ok rq_abs rq_wait prio_pick_next prio_on_tick prio_enqueue may_enqueue
proof unfold_locales
  fix s p i
  assume "rq_ok s" "p \<in> set (rq_abs s i)"
  then show "0 \<le> i \<and> i < NPRIO \<and> p < NPROC"
    using runq_rep_mem(2,3) [of s "rq_abs s" p i] by (simp add: rq_ok_def lv_def)
next
  fix s
  assume "rq_ok s" "\<And>i. rq_abs s i = []"
  then show "prio_pick_next s = Inr (None, s)"
    using prio_pick_next_none [of s "rq_abs s"] by (simp add: rq_ok_def)
next
  fix s q
  assume "rq_ok s" "may_enqueue q s"
  then show "(\<forall>i. q \<notin> set (rq_abs s i)) \<and> rq_ok (prio_enqueue q s) \<and>
      (\<exists>i. rq_abs (prio_enqueue q s) = (rq_abs s)(i := rq_abs s i @ [q])) \<and>
      (\<forall>p. p \<noteq> q \<longrightarrow> rq_wait (prio_enqueue q s) p = rq_wait s p)"
    using rq_ok_enqueue by blast
qed (rule rq_ok_distinct rq_ok_pick rq_ok_tick, assumption+)+

lemma rq_ok_init: "rq_ok (prio_init s)" "rq_abs (prio_init s) = (\<lambda>i. [])"
proof -
  have "runq_rep (prio_init s) (\<lambda>i. [])"
    by (simp add: runq_rep_def queue_rep_def prio_init_def lv_def top_level_emptyI)
  then show "rq_ok (prio_init s)" "rq_abs (prio_init s) = (\<lambda>i. [])" using rq_okI by auto
qed

section \<open>Properties\<close>

text \<open>An example: two processes of different priorities are put into an empty queue.\<close>

definition proc0 :: proc where
  "proc0 = \<lparr>p_state = UNUSED, p_chan = None, p_killed = False, p_xstate = 0, p_pid = 0,
     p_parent = None, p_kstack = 0, p_sz = 0, p_pagetable = 0, p_trapframe = 0,
     p_context = \<lparr>ctx_ra = 0, ctx_sp = 0, ctx_s = (\<lambda>_. 0)\<rparr>, p_ofile = (\<lambda>_. None),
     p_cwd = None, p_name = [], p_base_prio = PRIO_DEFAULT, p_prio = PRIO_DEFAULT,
     p_wait_ticks = 0, p_rq_next = None\<rparr>"

definition cpu0 :: cpu where
  "cpu0 = \<lparr>c_proc = None, c_context = \<lparr>ctx_ra = 0, ctx_sp = 0, ctx_s = (\<lambda>_. 0)\<rparr>, c_noff = 0, c_intena = False, c_idleproc = None,
     c_preempt_pending = False\<rparr>"

definition sched0 :: sched where
  "sched0 = \<lparr>procs = (\<lambda>p. proc0\<lparr>p_prio := (if p = 1 then 1 else PRIO_DEFAULT)\<rparr>),
     rq = (\<lambda>_. \<lparr>q_head = None, q_tail = None\<rparr>), highest_nonempty = 0, s_cpu = cpu0,
     s_initproc = None, s_nextpid = 1\<rparr>"

definition sched2 :: sched where
  "sched2 = prio_enqueue 1 (prio_enqueue 2 (prio_init sched0))"

lemmas sched_eval = prio_enqueue_def upd_proc_def rq_push_tail_def set_rq_next_def prio_init_def
  sched0_def Let_def myproc_def cpu0_def upd_q_def proc0_def

lemma sched2_queue:
  "rq_ok sched2" "rq_abs sched2 = (\<lambda>i. [])(PRIO_DEFAULT := [2], 1 := [1])" "rq_wait sched2 1 = 0"
  "rq_wait sched2 2 = 0"
proof -
  let ?a = "prio_init sched0"
  let ?b = "prio_enqueue 2 ?a"
  have a: "rq_ok ?a" "rq_abs ?a = (\<lambda>i. [])" by (rule rq_ok_init)+
  have ma: "may_enqueue 2 ?a"
    by (simp add: may_enqueue_def a queued_def lv_def) (simp add: prio_init_def sched0_def)
  have pa: "p_prio (procs ?a 2) = PRIO_DEFAULT" by (simp add: prio_init_def sched0_def proc0_def)
  have b: "rq_ok ?b" "rq_abs ?b = (\<lambda>i. [])(PRIO_DEFAULT := [2])"
    using rq_ok_enqueue [OF a(1) ma] a(2) pa by simp_all
  have pb: "p_prio (procs ?b 1) = 1"
    by (simp add: sched_eval)
  have mb: "may_enqueue 1 ?b"
    unfolding may_enqueue_def b(2) pb by (simp add: queued_def lv_def)
  show "rq_ok sched2" "rq_abs sched2 = (\<lambda>i. [])(PRIO_DEFAULT := [2], 1 := [1])"
    using rq_ok_enqueue [OF b(1) mb] b(2) pb by (simp_all add: sched2_def)
  show "rq_wait sched2 1 = 0" "rq_wait sched2 2 = 0"
    by (simp_all add: rq_wait_def sched2_def sched_eval)
qed

text \<open>C1.  No starvation: whatever ticks, picks and insertions happen, a process that stands
  in the ready queue at level \<open>i\<close> is picked before \<open>20 * i\<close> further ticks and then as many
  picks as the table has slots have passed.\<close>

theorem ready_process_is_picked:
  assumes "rq_ok s" and "p \<in> set (rq_abs s i)" and "0 \<le> rq_wait s p"
    and "rq_steps prio_pick_next prio_on_tick prio_enqueue may_enqueue s (es @ fs) ps u"
    and "AGING_TICKS * i \<le> int (count_list es Tick)" and "NPROC \<le> count_list fs Pick"
  shows "p \<in> set ps"
  using rqi.no_starvation [OF assms(4,1,2,3,5,6)] .

theorem ready_process_is_picked_witness:
  "\<exists>ps u. rq_steps prio_pick_next prio_on_tick prio_enqueue may_enqueue sched2
     (replicate 20 Tick @ replicate 64 Pick) ps u \<and> 1 \<in> set ps"
proof -
  obtain ps u where r: "rq_steps prio_pick_next prio_on_tick prio_enqueue may_enqueue sched2
      (replicate 20 Tick @ replicate 64 Pick) ps u"
    using rqi.runs [OF sched2_queue(1), of "replicate 20 Tick @ replicate 64 Pick"] by auto
  have "1 \<in> set (rq_abs sched2 1)" "0 \<le> rq_wait sched2 1"
    by (simp_all add: sched2_queue del: One_nat_def)
  from ready_process_is_picked [OF sched2_queue(1) this r] have "1 \<in> set ps"
    by simp
  with r show ?thesis by blast
qed

text \<open>C16.  Repeated picks return the waiting processes in the order of their levels and,
  within a level, in the order of the list.\<close>

theorem picks_follow_priority:
  assumes "rq_ok s"
  shows "\<exists>u. rq_steps prio_pick_next prio_on_tick prio_enqueue may_enqueue s (replicate n Pick)
    (take n (concat (map (rq_abs s) [0..NPRIO - 1]))) u \<and> rq_ok u"
  using rqi.pick_order [OF assms] .

theorem picks_follow_priority_witness:
  "\<exists>u. rq_steps prio_pick_next prio_on_tick prio_enqueue may_enqueue sched2
     (replicate 3 Pick) [1, 2] u"
proof -
  have "concat (map ((\<lambda>i. [])(PRIO_DEFAULT := [2], 1 := [1])) [0..NPRIO - 1]) = [1, 2 :: nat]"
    by code_simp
  then show ?thesis using picks_follow_priority [OF sched2_queue(1), of 3]
    unfolding sched2_queue(2) by auto
qed

text \<open>C17.  One clock tick moves exactly the processes whose waiting time is up, each by one
  level, behind those that already wait there; all others keep their place and count the
  tick, and the walk over the lists that are being relinked ends.\<close>

theorem prio_on_tick_ages:
  assumes "rq_ok s"
  shows "\<exists>t. prio_on_tick s = Inr t \<and> rq_ok t \<and>
    (\<forall>i. rq_abs t i = filter (\<lambda>p. \<not> ages (procs s p)) (rq_abs s i)
           @ filter (\<lambda>p. ages (procs s p)) (rq_abs s (i + 1))) \<and>
    (\<forall>p. strip (procs t p) =
       strip (if queued (rq_abs s) p then tick_proc (procs s p) else procs s p))"
proof -
  have "runq_rep s (rq_abs s)" using assms by (simp add: rq_ok_def)
  then obtain t where t: "prio_on_tick s = Inr t"
      "runq_rep t (tick_levels (\<lambda>p. ages (procs s p)) (rq_abs s))"
      "ticked s t {p. queued (rq_abs s) p}"
    using prio_on_tick_rep by blast
  then have "rq_ok t" "rq_abs t = tick_levels (\<lambda>p. ages (procs s p)) (rq_abs s)"
    using rq_okI by auto
  with t show ?thesis by (simp add: tick_levels_def ticked_def)
qed

theorem prio_on_tick_ages_witness:
  "\<exists>t. prio_on_tick sched2 = Inr t \<and> rq_abs t PRIO_DEFAULT = [2] \<and> rq_abs t 0 = []"
proof -
  have "\<not> ages (procs sched2 1)" "\<not> ages (procs sched2 2)"
    using sched2_queue(3,4) by (simp_all add: ages_def rq_wait_def)
  then show ?thesis
    using prio_on_tick_ages [OF sched2_queue(1)] by (auto simp: sched2_queue(2))
qed

end
