(* ===== verification/Sched.thy ===== *)
theory Sched
  imports Fairness
begin

text \<open>
  Process switching in \<^verbatim>\<open>kernel/proc.c\<close>: \<^verbatim>\<open>schedule\<close>, \<^verbatim>\<open>yield\<close>, \<^verbatim>\<open>sleep\<close>,
  \<^verbatim>\<open>wakeup\<close>, \<^verbatim>\<open>kill\<close> and the scheduling part of \<^verbatim>\<open>exit\<close>.  A call that gives up the CPU
  is modelled up to the context switch: the result is the state in which the chosen process
  runs (\<^verbatim>\<open>c->proc\<close>).  What the process does after \<^verbatim>\<open>schedule\<close> has returned to it is a
  definition of its own (\<open>sleep_return\<close>).
\<close>

section \<open>Choosing the next process\<close>

definition set_cpu :: "(cpu \<Rightarrow> cpu) \<Rightarrow> sched \<Rightarrow> sched" where
  "set_cpu f s = s\<lparr>s_cpu := f (s_cpu s)\<rparr>"

text \<open>The loop of \<^verbatim>\<open>schedule\<close>: pick until a process is found that is still runnable, or
  the idle process, which is also the choice when the queue is empty.\<close>

partial_function (option) schedule_loop :: "sched \<Rightarrow> (nat option \<times> sched) res option" where
  "schedule_loop s =
     (case prio_pick_next s of
        Inl e \<Rightarrow> Some (Inl e)
      | Inr r \<Rightarrow>
          let s = snd r
          in case fst r of
               None \<Rightarrow> Some (Inr (c_idleproc (s_cpu s), s))
             | Some next \<Rightarrow>
                 if c_idleproc (s_cpu s) = Some next then Some (Inr (Some next, s))
                 else if p_state (procs s next) = RUNNABLE
                      then Some (Inr (Some next,
                             upd_proc next (\<lambda>x. x\<lparr>p_state := RUNNING, p_wait_ticks := 0\<rparr>) s))
                      else schedule_loop s)"

definition schedule :: "sched \<Rightarrow> sched res" where
  "schedule s =
     bnd (of_loop (schedule_loop s)) (\<lambda>(next, s). Inr (set_cpu (\<lambda>c. c\<lparr>c_proc := next\<rparr>) s))"

section \<open>Operations of the running process\<close>

text \<open>The calls below dereference \<^verbatim>\<open>myproc()\<close>; without a current process that is a fault.\<close>

definition with_proc :: "sched \<Rightarrow> (nat \<Rightarrow> 'a res) \<Rightarrow> 'a res" where
  "with_proc s f = (case myproc s of None \<Rightarrow> Inl OutOfBounds | Some p \<Rightarrow> f p)"

definition yield :: "sched \<Rightarrow> sched res" where
  "yield s = with_proc s (\<lambda>p.
     schedule (prio_enqueue p (upd_proc p (\<lambda>x. x\<lparr>p_state := RUNNABLE, p_wait_ticks := 0\<rparr>) s)))"

text \<open>\<^verbatim>\<open>sleep\<close> marks the process as sleeping while it holds \<^verbatim>\<open>p->lock\<close> and calls
  \<^verbatim>\<open>schedule\<close> after it has released it.\<close>

definition sleep_mark :: "chan \<Rightarrow> nat \<Rightarrow> sched \<Rightarrow> sched res" where
  "sleep_mark ch p s =
     (let s = upd_proc p (\<lambda>x. x\<lparr>p_chan := Some ch\<rparr>) s
      in bnd (if p_state (procs s p) = RUNNABLE then prio_dequeue p s else Inr s)
           (\<lambda>s. Inr (upd_proc p (\<lambda>x. x\<lparr>p_state := SLEEPING\<rparr>) s)))"

definition sleep :: "chan \<Rightarrow> sched \<Rightarrow> sched res" where
  "sleep ch s = with_proc s (\<lambda>p. bnd (sleep_mark ch p s) schedule)"

definition sleep_return :: "nat \<Rightarrow> sched \<Rightarrow> sched" where
  "sleep_return p s = upd_proc p (\<lambda>x. x\<lparr>p_chan := None\<rparr>) s"

definition wake_proc :: "nat \<Rightarrow> sched \<Rightarrow> sched" where
  "wake_proc p s =
     prio_enqueue p (upd_proc p (\<lambda>x. x\<lparr>p_state := RUNNABLE, p_wait_ticks := 0\<rparr>) s)"

definition wakeup_one :: "chan option \<Rightarrow> nat \<Rightarrow> sched \<Rightarrow> sched" where
  "wakeup_one ch p s =
     (if myproc s \<noteq> Some p \<and> p_state (procs s p) = SLEEPING \<and> p_chan (procs s p) = ch
      then wake_proc p s else s)"

definition wakeup :: "chan option \<Rightarrow> sched \<Rightarrow> sched" where
  "wakeup ch s = fold (wakeup_one ch) [0..<NPROC] s"

fun kill_loop :: "nat list \<Rightarrow> int \<Rightarrow> sched \<Rightarrow> int \<times> sched" where
  "kill_loop [] pid s = (-1, s)"
| "kill_loop (p # ps) pid s =
     (if p_pid (procs s p) = pid
      then let s = upd_proc p (\<lambda>x. x\<lparr>p_killed := True\<rparr>) s
           in (0, if p_state (procs s p) = SLEEPING then wake_proc p s else s)
      else kill_loop ps pid s)"

definition kill :: "int \<Rightarrow> sched \<Rightarrow> int \<times> sched" where
  "kill pid s = kill_loop [0..<NPROC] pid s"

definition setkilled :: "nat \<Rightarrow> sched \<Rightarrow> sched" where
  "setkilled p s = upd_proc p (\<lambda>x. x\<lparr>p_killed := True\<rparr>) s"

definition killed :: "nat \<Rightarrow> sched \<Rightarrow> bool" where
  "killed p s = p_killed (procs s p)"

definition allocpid :: "sched \<Rightarrow> int \<times> sched" where
  "allocpid s = (s_nextpid s, s\<lparr>s_nextpid := s_nextpid s + 1\<rparr>)"

text \<open>\<^verbatim>\<open>wakeup\<close> is called with the address of a process as the channel; a null parent
  pointer is the null channel.\<close>

definition reparent_one :: "nat \<Rightarrow> nat \<Rightarrow> sched \<Rightarrow> sched" where
  "reparent_one p pp s =
     (if p_parent (procs s pp) = Some p
      then wakeup (map_option Ch_proc (s_initproc s))
             (upd_proc pp (\<lambda>x. x\<lparr>p_parent := s_initproc s\<rparr>) s)
      else s)"

definition reparent :: "nat \<Rightarrow> sched \<Rightarrow> sched" where
  "reparent p s = fold (reparent_one p) [0..<NPROC] s"

text \<open>The last part of \<^verbatim>\<open>exit\<close>, from taking \<^verbatim>\<open>wait_lock\<close> on.\<close>

definition exit_zombie :: "int \<Rightarrow> nat \<Rightarrow> sched \<Rightarrow> sched res" where
  "exit_zombie status p s =
     (let s = reparent p s;
          s = wakeup (map_option Ch_proc (p_parent (procs s p))) s;
          s = upd_proc p (\<lambda>x. x\<lparr>p_xstate := status, p_state := ZOMBIE\<rparr>) s
      in schedule s)"

section \<open>Timer interrupts\<close>

text \<open>\<^verbatim>\<open>clockintr\<close> on hart 0, the only one, advances the tick counter, which wraps.\<close>

definition clockintr :: "u32 \<Rightarrow> sched \<Rightarrow> u32 \<times> sched" where
  "clockintr ticks s = (ticks + 1, wakeup (Some Ch_ticks) s)"

text \<open>The timer branches of \<^verbatim>\<open>usertrap\<close> and \<^verbatim>\<open>kerneltrap\<close>.\<close>

definition usertrap_timer :: "nat \<Rightarrow> sched \<Rightarrow> sched res" where
  "usertrap_timer p s =
     bnd (prio_on_tick s) (\<lambda>s.
       if p_state (procs s p) = RUNNING
       then let pending = c_preempt_pending (s_cpu s);
                s = (if pending then set_cpu (\<lambda>c. c\<lparr>c_preempt_pending := False\<rparr>) s else s);
                need_preempt = (pending \<or> prio_should_preempt (p_prio (procs s p)) s)
            in if need_preempt then yield s else Inr s
       else Inr s)"

definition kerneltrap_timer :: "sched \<Rightarrow> sched res" where
  "kerneltrap_timer s =
     bnd (prio_on_tick s) (\<lambda>s.
       case myproc s of
         None \<Rightarrow> Inr s
       | Some p \<Rightarrow> if prio_should_preempt (p_prio (procs s p)) s then yield s else Inr s)"

section \<open>The scheduling invariant\<close>

text \<open>
  \<open>ready_inv\<close>: the ready queue is well formed, it holds exactly the runnable processes
  (the idle process, which is always runnable, may or may not be in it), and all priorities
  are levels.  \<open>sched_inv\<close> adds the current process: it is not in the queue, and it is the
  only one whose state is \<^verbatim>\<open>RUNNING\<close>, unless the idle process runs.
\<close>

definition ready_inv :: "sched \<Rightarrow> bool" where
  "ready_inv s \<longleftrightarrow> rq_ok s \<and>
     (\<forall>p. queued (rq_abs s) p \<longrightarrow> p_state (procs s p) = RUNNABLE) \<and>
     (\<forall>p<NPROC. p_state (procs s p) = RUNNABLE \<longrightarrow>
        queued (rq_abs s) p \<or> c_idleproc (s_cpu s) = Some p) \<and>
     (\<forall>p<NPROC. lv (p_prio (procs s p))) \<and>
     (\<exists>i<NPROC. c_idleproc (s_cpu s) = Some i \<and> p_state (procs s i) = RUNNABLE)"

definition sched_inv :: "sched \<Rightarrow> bool" where
  "sched_inv s \<longleftrightarrow> ready_inv s \<and>
     (\<exists>p<NPROC. myproc s = Some p \<and> \<not> queued (rq_abs s) p \<and>
        (p_state (procs s p) = RUNNING \<or> c_idleproc (s_cpu s) = Some p) \<and>
        (\<forall>q<NPROC. p_state (procs s q) = RUNNING \<longrightarrow> q = p))"

lemma upd_proc_queue:
  assumes "\<And>x. p_rq_next (f x) = p_rq_next x" "\<And>x. p_prio (f x) = p_prio x" "rq_ok s"
  shows "rq_ok (upd_proc p f s)" "rq_abs (upd_proc p f s) = rq_abs s"
proof -
  have "runq_rep (upd_proc p f s) (rq_abs s)"
    using assms by (intro runq_rep_upd_proc) (simp_all add: rq_ok_def)
  then show "rq_ok (upd_proc p f s)" "rq_abs (upd_proc p f s) = rq_abs s" using rq_okI by auto
qed

lemma set_cpu_queue [simp]: "rq_ok (set_cpu f s) = rq_ok s" "rq_abs (set_cpu f s) = rq_abs s"
  "procs (set_cpu f s) = procs s" "s_cpu (set_cpu f s) = f (s_cpu s)"
  "s_initproc (set_cpu f s) = s_initproc s" "s_nextpid (set_cpu f s) = s_nextpid s"
proof -
  show a: "rq_abs (set_cpu f s) = rq_abs s"
    by (intro ext) (simp add: rq_abs_def set_cpu_def)
  show "rq_ok (set_cpu f s) = rq_ok s" unfolding rq_ok_def a by (simp add: set_cpu_def)
qed (simp_all add: set_cpu_def)

lemma queued_enqueue: "queued (L(i := L i @ [p])) q \<longleftrightarrow> queued L q \<or> q = p"
  by (auto simp: queued_def)

lemma enqueue_effect:
  assumes "rq_ok s" "may_enqueue p s"
  defines "t \<equiv> prio_enqueue p s"
  shows "rq_ok t" "queued (rq_abs t) q \<longleftrightarrow> queued (rq_abs s) q \<or> q = p"
    "p_state (procs t q) = p_state (procs s q)" "p_prio (procs t q) = p_prio (procs s q)"
    "p_chan (procs t q) = p_chan (procs s q)" "p_pid (procs t q) = p_pid (procs s q)"
    "p_parent (procs t q) = p_parent (procs s q)" "p_killed (procs t q) = p_killed (procs s q)"
    "p_xstate (procs t q) = p_xstate (procs s q)"
    "myproc t = myproc s" "c_idleproc (s_cpu t) = c_idleproc (s_cpu s)"
    "s_initproc t = s_initproc s" "s_nextpid t = s_nextpid s"
proof -
  show "rq_ok t" "queued (rq_abs t) q \<longleftrightarrow> queued (rq_abs s) q \<or> q = p"
    unfolding t_def using rq_ok_enqueue [OF assms(1,2)] by (auto simp: queued_enqueue)
  have r: "runq_rep s (rq_abs s)" using assms(1) by (simp add: rq_ok_def)
  have m: "\<not> queued (rq_abs s) p" "p < NPROC" "lv (p_prio (procs s p))"
    using assms(2) by (auto simp: may_enqueue_def)
  note e = prio_enqueue_rep [OF r m]
  show "myproc t = myproc s" "c_idleproc (s_cpu t) = c_idleproc (s_cpu s)"
    "s_initproc t = s_initproc s" "s_nextpid t = s_nextpid s"
    unfolding t_def by (rule e)+
  have st: "strip (procs t q) = strip (if q = p then woken (procs s p) else procs s q)"
    unfolding t_def by (rule e)
  show "p_state (procs t q) = p_state (procs s q)" "p_prio (procs t q) = p_prio (procs s q)"
    "p_chan (procs t q) = p_chan (procs s q)" "p_pid (procs t q) = p_pid (procs s q)"
    "p_parent (procs t q) = p_parent (procs s q)" "p_killed (procs t q) = p_killed (procs s q)"
    "p_xstate (procs t q) = p_xstate (procs s q)"
    using strip_fields [OF st] by (auto simp: woken_def split: if_splits)
qed

lemma wake_proc_effect:
  assumes r: "ready_inv s" and p: "p < NPROC" "\<not> queued (rq_abs s) p"
  defines "t \<equiv> wake_proc p s"
  shows "ready_inv t" "queued (rq_abs t) q \<longleftrightarrow> queued (rq_abs s) q \<or> q = p"
    "p_state (procs t q) = (if q = p then RUNNABLE else p_state (procs s q))"
    "p_chan (procs t q) = p_chan (procs s q)" "p_pid (procs t q) = p_pid (procs s q)"
    "p_parent (procs t q) = p_parent (procs s q)" "p_killed (procs t q) = p_killed (procs s q)"
    "p_xstate (procs t q) = p_xstate (procs s q)"
    "myproc t = myproc s" "c_idleproc (s_cpu t) = c_idleproc (s_cpu s)"
    "s_initproc t = s_initproc s" "s_nextpid t = s_nextpid s"
proof -
  let ?f = "\<lambda>x. x\<lparr>p_state := RUNNABLE, p_wait_ticks := 0\<rparr>"
  let ?s = "upd_proc p ?f s"
  have ok: "rq_ok ?s" and ab: "rq_abs ?s = rq_abs s"
    using r by (auto intro: upd_proc_queue simp: ready_inv_def)
  have may: "may_enqueue p ?s"
    unfolding may_enqueue_def ab using r p by (simp add: ready_inv_def upd_proc_def)
  note e = enqueue_effect [OF ok may]
  have t: "t = prio_enqueue p ?s" by (simp add: t_def wake_proc_def)
  show q: "queued (rq_abs t) q \<longleftrightarrow> queued (rq_abs s) q \<or> q = p" for q
    unfolding t e(2) ab ..
  show st: "p_state (procs t q) = (if q = p then RUNNABLE else p_state (procs s q))" for q
    unfolding t e(3) by (simp add: upd_proc_def)
  show "p_chan (procs t q) = p_chan (procs s q)" "p_pid (procs t q) = p_pid (procs s q)"
    "p_parent (procs t q) = p_parent (procs s q)" "p_killed (procs t q) = p_killed (procs s q)"
    "p_xstate (procs t q) = p_xstate (procs s q)"
    unfolding t e by (simp_all add: upd_proc_def)
  show "myproc t = myproc s" "s_initproc t = s_initproc s" "s_nextpid t = s_nextpid s"
    unfolding t e by (simp_all add: upd_proc_def myproc_def)
  show idle: "c_idleproc (s_cpu t) = c_idleproc (s_cpu s)"
    unfolding t e by (simp add: upd_proc_def)
  have pr: "p_prio (procs t q) = p_prio (procs s q)" for q
    unfolding t e by (simp add: upd_proc_def)
  have "rq_ok t" unfolding t by (rule e)
  then show "ready_inv t" using r unfolding ready_inv_def q st idle pr by auto
qed

text \<open>\<open>woke P s t\<close>: from \<open>s\<close> to \<open>t\<close> exactly the processes \<open>P\<close> have become runnable and have
  joined the queue, and nothing else that other components look at has changed.\<close>

definition idents :: "proc \<Rightarrow> chan option \<times> int \<times> nat option \<times> bool \<times> int" where
  "idents x = (p_chan x, p_pid x, p_parent x, p_killed x, p_xstate x)"

definition woke :: "nat set \<Rightarrow> sched \<Rightarrow> sched \<Rightarrow> bool" where
  "woke P s t \<longleftrightarrow> ready_inv t \<and>
     (\<forall>q. queued (rq_abs t) q \<longleftrightarrow> queued (rq_abs s) q \<or> q \<in> P) \<and>
     (\<forall>q. p_state (procs t q) = (if q \<in> P then RUNNABLE else p_state (procs s q))) \<and>
     (\<forall>q. idents (procs t q) = idents (procs s q)) \<and>
     myproc t = myproc s \<and> c_idleproc (s_cpu t) = c_idleproc (s_cpu s) \<and>
     s_initproc t = s_initproc s \<and> s_nextpid t = s_nextpid s"

lemma woke_refl: "ready_inv s \<Longrightarrow> woke {} s s"
  by (simp add: woke_def)

lemma woke_trans: "woke P s t \<Longrightarrow> woke Q t u \<Longrightarrow> woke (P \<union> Q) s u"
  by (auto simp: woke_def)

lemma woke_wake_proc:
  "ready_inv s \<Longrightarrow> p < NPROC \<Longrightarrow> \<not> queued (rq_abs s) p \<Longrightarrow> woke {p} s (wake_proc p s)"
  using wake_proc_effect [of s p] by (simp add: woke_def idents_def)

definition woken_by :: "chan option \<Rightarrow> sched \<Rightarrow> nat \<Rightarrow> bool" where
  "woken_by ch s p \<longleftrightarrow> p < NPROC \<and> myproc s \<noteq> Some p \<and> p_state (procs s p) = SLEEPING \<and>
     p_chan (procs s p) = ch"

lemma woken_by_woke: "woke P s t \<Longrightarrow> q \<notin> P \<Longrightarrow> woken_by ch t q = woken_by ch s q"
  by (simp add: woke_def woken_by_def idents_def)

lemma wakeup_fold:
  "ready_inv s \<Longrightarrow> distinct ps \<Longrightarrow> set ps \<subseteq> {..<NPROC} \<Longrightarrow>
   woke {q \<in> set ps. woken_by ch s q} s (fold (wakeup_one ch) ps s)"
proof (induction ps arbitrary: s)
  case Nil
  then show ?case by (simp add: woke_refl)
next
  case (Cons p ps)
  let ?u = "wakeup_one ch p s"
  have u: "woke {q \<in> {p}. woken_by ch s q} s ?u"
  proof (cases "woken_by ch s p")
    case True
    then have "{q \<in> {p}. woken_by ch s q} = {p}" "?u = wake_proc p s"
      by (auto simp: wakeup_one_def woken_by_def)
    moreover have "p < NPROC" "\<not> queued (rq_abs s) p"
      using True Cons.prems(1) by (force simp: woken_by_def ready_inv_def)+
    ultimately show ?thesis using woke_wake_proc [OF Cons.prems(1), of p] by simp
  next
    case False
    then have "{q \<in> {p}. woken_by ch s q} = {}" "?u = s"
      using Cons.prems(3) by (auto simp: wakeup_one_def woken_by_def)
    then show ?thesis using woke_refl [OF Cons.prems(1)] by (simp only:)
  qed
  then have "ready_inv ?u" by (simp add: woke_def)
  then have "woke {q \<in> set ps. woken_by ch ?u q} ?u (fold (wakeup_one ch) ps ?u)"
    using Cons.IH Cons.prems by simp
  moreover have "woken_by ch ?u q = woken_by ch s q" if "q \<in> set ps" for q
    using woken_by_woke [OF u, of q ch] Cons.prems(2) that by auto
  then have "{q \<in> set ps. woken_by ch ?u q} = {q \<in> set ps. woken_by ch s q}" by blast
  ultimately have "woke ({q \<in> {p}. woken_by ch s q} \<union> {q \<in> set ps. woken_by ch s q}) s
      (fold (wakeup_one ch) (p # ps) s)"
    using woke_trans [OF u] by simp
  moreover have "{q \<in> {p}. woken_by ch s q} \<union> {q \<in> set ps. woken_by ch s q}
      = {q \<in> set (p # ps). woken_by ch s q}" by auto
  ultimately show ?case by simp
qed

lemma wakeup_woke: "ready_inv s \<Longrightarrow> woke {q. woken_by ch s q} s (wakeup ch s)"
proof -
  assume "ready_inv s"
  then have "woke {q \<in> set [0..<NPROC]. woken_by ch s q} s (wakeup ch s)"
    unfolding wakeup_def by (intro wakeup_fold) auto
  moreover have "{q \<in> set [0..<NPROC]. woken_by ch s q} = {q. woken_by ch s q}"
    by (auto simp: woken_by_def)
  ultimately show ?thesis by simp
qed

text \<open>\<^verbatim>\<open>schedule\<close> always ends with a process on the CPU: the first of the best level, or the
  idle process.\<close>

definition next_proc :: "sched \<Rightarrow> nat option" where
  "next_proc s =
     (if top_level (rq_abs s) < 0 then c_idleproc (s_cpu s)
      else Some (hd (rq_abs s (top_level (rq_abs s)))))"

lemma pick_effect:
  assumes r: "rq_ok s" and h: "0 \<le> top_level (rq_abs s)"
  defines "p \<equiv> hd (rq_abs s (top_level (rq_abs s)))"
  shows "\<exists>t. prio_pick_next s = Inr (Some p, t) \<and> rq_ok t \<and> links_only s t \<and> p < NPROC \<and>
    queued (rq_abs s) p \<and> (\<forall>q. queued (rq_abs t) q \<longleftrightarrow> queued (rq_abs s) q \<and> q \<noteq> p)"
proof -
  let ?h = "top_level (rq_abs s)"
  have rep: "runq_rep s (rq_abs s)" using r by (simp add: rq_ok_def)
  have ne: "rq_abs s ?h \<noteq> []" using h by (cases rule: top_level_cases [of "rq_abs s"]) auto
  obtain t where t: "prio_pick_next s = Inr (Some p, t)"
      "runq_rep t ((rq_abs s)(?h := tl (rq_abs s ?h)))" "links_only s t"
    using prio_pick_next_some [OF rep ne] unfolding p_def by blast
  have p: "p \<in> set (rq_abs s ?h)" using ne by (simp add: p_def)
  have d: "p \<notin> set (tl (rq_abs s ?h))"
    using rq_ok_distinct [OF r, of ?h] ne unfolding p_def by (metis distinct.simps(2) list.collapse)
  have only: "i = ?h" if "p \<in> set (rq_abs s i)" for i
    using runq_rep_mem(1) [OF rep that] runq_rep_mem(1) [OF rep p] by simp
  have "queued ((rq_abs s)(?h := tl (rq_abs s ?h))) q \<longleftrightarrow> queued (rq_abs s) q \<and> q \<noteq> p" for q
  proof -
    have "set (rq_abs s ?h) = insert p (set (tl (rq_abs s ?h)))"
      using ne unfolding p_def by (metis list.collapse list.simps(15))
    then show ?thesis using d only by (auto simp: queued_def split: if_splits) (metis insertE)
  qed
  moreover have "queued (rq_abs s) p" using p by (auto simp: queued_def)
  ultimately show ?thesis using t rq_okI [OF t(2)] runq_rep_mem(2) [OF rep p] by auto
qed

lemma links_only_fields:
  assumes "links_only s t"
  shows "p_state (procs t q) = p_state (procs s q)" "p_prio (procs t q) = p_prio (procs s q)"
    "s_cpu t = s_cpu s" "s_initproc t = s_initproc s" "s_nextpid t = s_nextpid s"
    "strip (procs t q) = strip (procs s q)"
proof -
  show st: "strip (procs t q) = strip (procs s q)" using assms by (simp add: links_only_def)
  show "p_state (procs t q) = p_state (procs s q)" "p_prio (procs t q) = p_prio (procs s q)"
    using strip_fields [OF st] by auto
qed (use assms in \<open>simp_all add: links_only_def\<close>)

definition dispatched :: "sched \<Rightarrow> sched \<Rightarrow> bool" where
  "dispatched s t \<longleftrightarrow> sched_inv t \<and> myproc t = next_proc s \<and>
     (\<forall>q. strip (procs t q) = strip (if Some q = next_proc s \<and> c_idleproc (s_cpu s) \<noteq> Some q
         then (procs s q)\<lparr>p_state := RUNNING, p_wait_ticks := 0\<rparr> else procs s q)) \<and>
     c_idleproc (s_cpu t) = c_idleproc (s_cpu s) \<and>
     s_initproc t = s_initproc s \<and> s_nextpid t = s_nextpid s"

lemma schedule_effect:
  assumes r: "ready_inv s" and nr: "\<forall>q<NPROC. p_state (procs s q) \<noteq> RUNNING"
  shows "\<exists>t. schedule s = Inr t \<and> dispatched s t"
proof (cases "top_level (rq_abs s) < 0")
  case True
  let ?t = "set_cpu (\<lambda>c. c\<lparr>c_proc := c_idleproc c\<rparr>) s"
  have e: "rq_abs s i = []" for i
    using True runq_repD(2) [of s "rq_abs s" i] r
    by (cases "lv i") (auto simp: top_level_neg_iff ready_inv_def rq_ok_def)
  then have "prio_pick_next s = Inr (None, s)"
    using rqi.pick_empty [of s] r by (simp add: ready_inv_def)
  then have "schedule s = Inr ?t"
    by (simp add: schedule_def schedule_loop.simps [of s] set_cpu_def)
  moreover have "sched_inv ?t"
    using r nr e by (auto simp: sched_inv_def ready_inv_def myproc_def queued_def)
  ultimately show ?thesis using True by (auto simp: dispatched_def next_proc_def myproc_def)
next
  case False
  let ?p = "hd (rq_abs s (top_level (rq_abs s)))"
  have ok: "rq_ok s" using r by (simp add: ready_inv_def)
  obtain t where t: "prio_pick_next s = Inr (Some ?p, t)" "rq_ok t" "links_only s t" "?p < NPROC"
      "queued (rq_abs s) ?p" "\<And>q. queued (rq_abs t) q \<longleftrightarrow> queued (rq_abs s) q \<and> q \<noteq> ?p"
    using pick_effect [OF ok] False by auto
  note f = links_only_fields [OF t(3)]
  have run: "p_state (procs s ?p) = RUNNABLE" using r t(5) by (simp add: ready_inv_def)
  have n: "next_proc s = Some ?p" using False by (simp add: next_proc_def)
  show ?thesis
  proof (cases "c_idleproc (s_cpu s) = Some ?p")
    case True
    let ?u = "set_cpu (\<lambda>c. c\<lparr>c_proc := Some ?p\<rparr>) t"
    have "schedule s = Inr ?u"
      using t(1) True by (simp add: schedule_def schedule_loop.simps [of s] f)
    moreover have "sched_inv ?u"
      using r nr t(2,4,6) True by (auto simp: sched_inv_def ready_inv_def myproc_def f)
    ultimately show ?thesis using n True by (auto simp: dispatched_def myproc_def f)
  next
    case False
    let ?g = "\<lambda>x. x\<lparr>p_state := RUNNING, p_wait_ticks := 0\<rparr>"
    define u where "u = set_cpu (\<lambda>c. c\<lparr>c_proc := Some ?p\<rparr>) (upd_proc ?p ?g t)"
    have "schedule s = Inr u"
      using t(1) False run by (simp add: schedule_def schedule_loop.simps [of s] f u_def)
    moreover have q: "rq_ok (upd_proc ?p ?g t)" "rq_abs (upd_proc ?p ?g t) = rq_abs t"
      using t(2) by (auto intro: upd_proc_queue)
    have u: "rq_ok u" "queued (rq_abs u) x \<longleftrightarrow> queued (rq_abs s) x \<and> x \<noteq> ?p"
        "p_state (procs u x) = (if x = ?p then RUNNING else p_state (procs s x))"
        "p_prio (procs u x) = p_prio (procs s x)" "c_idleproc (s_cpu u) = c_idleproc (s_cpu s)"
        "myproc u = Some ?p" for x
      using q t(6) f by (simp_all add: u_def upd_proc_def myproc_def)
    have "sched_inv u" unfolding sched_inv_def ready_inv_def u(2-6)
      using u(1) r nr t(4) False by (auto simp: ready_inv_def)
    moreover have "strip (procs u x) = strip (if x = ?p then ?g (procs s x) else procs s x)" for x
    proof -
      have "strip (?g (procs t ?p)) = strip (?g (procs s ?p))"
        using f(6) [of ?p] by (cases "procs t ?p"; cases "procs s ?p") (simp add: strip_def)
      then show ?thesis using f(6) [of x] by (simp add: upd_proc_def u_def)
    qed
    moreover have "s_initproc u = s_initproc s" "s_nextpid u = s_nextpid s"
      by (simp_all add: u_def f upd_proc_def)
    ultimately show ?thesis using False u(5,6) unfolding dispatched_def n
      by (intro exI [of _ u]) (auto simp: eq_commute)
  qed
qed

section \<open>Every operation keeps the invariant\<close>

lemma sched_invD:
  assumes "sched_inv s" "myproc s = Some p"
  shows "p < NPROC" "\<not> queued (rq_abs s) p" "ready_inv s"
    "p_state (procs s p) = RUNNING \<or> c_idleproc (s_cpu s) = Some p"
    "q < NPROC \<Longrightarrow> p_state (procs s q) = RUNNING \<Longrightarrow> q = p"
  using assms unfolding sched_inv_def by auto

lemma sched_inv_running: "sched_inv s \<Longrightarrow> \<exists>p. myproc s = Some p"
  by (auto simp: sched_inv_def)

lemma sched_invI:
  assumes "ready_inv s" "myproc s = Some p" "p < NPROC" "\<not> queued (rq_abs s) p"
    "p_state (procs s p) = RUNNING \<or> c_idleproc (s_cpu s) = Some p"
    "\<And>q. q < NPROC \<Longrightarrow> p_state (procs s q) = RUNNING \<Longrightarrow> q = p"
  shows "sched_inv s"
  using assms unfolding sched_inv_def by blast

lemma woke_sched_inv:
  assumes "sched_inv s" "woke P s t" "\<forall>p\<in>P. myproc s \<noteq> Some p"
  shows "sched_inv t"
proof -
  obtain p where p: "myproc s = Some p" using sched_inv_running [OF assms(1)] by blast
  note d = sched_invD [OF assms(1) p]
  have "p \<notin> P" using assms(3) p by auto
  note w = assms(2) [unfolded woke_def]
  show ?thesis
  proof (rule sched_invI [of t p])
    show "p_state (procs t p) = RUNNING \<or> c_idleproc (s_cpu t) = Some p"
      using w d(4) \<open>p \<notin> P\<close> by simp
    show "q = p" if "q < NPROC" "p_state (procs t q) = RUNNING" for q
      using d(5) [of q] that w by (auto split: if_splits)
  qed (use w d(1,2) p \<open>p \<notin> P\<close> in simp_all)
qed

lemma wakeup_sched_inv:
  assumes "sched_inv s"
  shows "sched_inv (wakeup ch s)"
proof (rule woke_sched_inv [OF assms])
  show "woke {q. woken_by ch s q} s (wakeup ch s)"
    using assms by (intro wakeup_woke) (simp add: sched_inv_def)
qed (simp add: woken_by_def)

lemma yield_effect:
  assumes "sched_inv s" "myproc s = Some p"
  shows "\<exists>t. yield s = Inr t \<and> dispatched (wake_proc p s) t"
proof -
  note p = sched_invD [OF assms]
  have w: "woke {p} s (wake_proc p s)" using woke_wake_proc p(1-3) by blast
  then have "\<forall>q<NPROC. p_state (procs (wake_proc p s) q) \<noteq> RUNNING"
    using p(5) by (auto simp: woke_def)
  moreover have "ready_inv (wake_proc p s)" using w by (simp add: woke_def)
  ultimately obtain t where "schedule (wake_proc p s) = Inr t" "dispatched (wake_proc p s) t"
    using schedule_effect by blast
  then show ?thesis using assms(2) by (auto simp: yield_def with_proc_def wake_proc_def)
qed

text \<open>Marking the running process as something else than runnable.\<close>

lemma stop_running:
  assumes s: "sched_inv s" "myproc s = Some p" "c_idleproc (s_cpu s) \<noteq> Some p"
    and f: "\<And>x. p_rq_next (f x) = p_rq_next x" "\<And>x. p_prio (f x) = p_prio x"
      "\<And>x. p_state (f x) \<noteq> RUNNABLE" "\<And>x. p_state (f x) \<noteq> RUNNING"
  shows "ready_inv (upd_proc p f s)" "\<forall>q<NPROC. p_state (procs (upd_proc p f s) q) \<noteq> RUNNING"
proof -
  note p = sched_invD(2,3,5) [OF s(1,2)]
  have "rq_ok s" using p(2) by (simp add: ready_inv_def)
  then have q: "rq_ok (upd_proc p f s)" "rq_abs (upd_proc p f s) = rq_abs s"
    using upd_proc_queue f(1,2) by auto
  have e: "p_state (procs (upd_proc p f s) x) = (if x = p then p_state (f (procs s p)) else p_state (procs s x))"
      "p_prio (procs (upd_proc p f s) x) = p_prio (procs s x)" "s_cpu (upd_proc p f s) = s_cpu s" for x
    by (simp_all add: upd_proc_def f)
  show "ready_inv (upd_proc p f s)"
    unfolding ready_inv_def q(2) e using q(1) p(1,2) s(3) f(3) by (auto simp: ready_inv_def)
  show "\<forall>q<NPROC. p_state (procs (upd_proc p f s) q) \<noteq> RUNNING"
    unfolding e using p(3) f(4) by auto
qed

lemma sleep_effect:
  fixes ch :: chan
  assumes "sched_inv s" "myproc s = Some p" "c_idleproc (s_cpu s) \<noteq> Some p"
  defines "u \<equiv> upd_proc p (\<lambda>x. x\<lparr>p_chan := Some ch, p_state := SLEEPING\<rparr>) s"
  shows "sleep_mark ch p s = Inr u" "\<exists>t. sleep ch s = Inr t \<and> dispatched u t"
proof -
  have "p_state (procs s p) = RUNNING" using sched_invD(4) [OF assms(1,2)] assms(3) by blast
  then show m: "sleep_mark ch p s = Inr u"
    by (simp add: sleep_mark_def u_def upd_proc_def)
  have "ready_inv u" "\<forall>q<NPROC. p_state (procs u q) \<noteq> RUNNING"
    unfolding u_def by (rule stop_running [OF assms(1-3)]; simp)+
  then show "\<exists>t. sleep ch s = Inr t \<and> dispatched u t"
    using schedule_effect m assms(2) by (auto simp: sleep_def with_proc_def)
qed

lemma upd_other_inv:
  assumes "sched_inv s"
    and f: "\<And>x. p_rq_next (f x) = p_rq_next x" "\<And>x. p_prio (f x) = p_prio x"
      "\<And>x. p_state (f x) = p_state x"
  shows "sched_inv (upd_proc p f s)" "myproc (upd_proc p f s) = myproc s"
    "c_idleproc (s_cpu (upd_proc p f s)) = c_idleproc (s_cpu s)"
proof -
  have "rq_ok s" using assms(1) by (simp add: sched_inv_def ready_inv_def)
  then have q: "rq_ok (upd_proc p f s)" "rq_abs (upd_proc p f s) = rq_abs s"
    using upd_proc_queue f(1,2) by auto
  have e: "p_state (procs (upd_proc p f s) x) = p_state (procs s x)"
      "p_prio (procs (upd_proc p f s) x) = p_prio (procs s x)"
      "s_cpu (upd_proc p f s) = s_cpu s" for x
    by (simp_all add: upd_proc_def f)
  show "sched_inv (upd_proc p f s)"
    using assms q(1) unfolding sched_inv_def ready_inv_def myproc_def q(2) e by blast
  show "myproc (upd_proc p f s) = myproc s"
    "c_idleproc (s_cpu (upd_proc p f s)) = c_idleproc (s_cpu s)" by (simp_all add: myproc_def e)
qed

lemma kill_loop_inv: "sched_inv s \<Longrightarrow> set ps \<subseteq> {..<NPROC} \<Longrightarrow> sched_inv (snd (kill_loop ps pid s))"
proof (induction ps)
  case Nil
  then show ?case by simp
next
  case (Cons p ps)
  let ?u = "upd_proc p (\<lambda>x. x\<lparr>p_killed := True\<rparr>) s"
  have u: "sched_inv ?u" using Cons.prems(1) by (intro upd_other_inv) simp_all
  have "sched_inv (wake_proc p ?u)" if sl: "p_state (procs ?u p) = SLEEPING"
  proof (rule woke_sched_inv [OF u])
    have r: "ready_inv ?u" using u by (simp add: sched_inv_def)
    moreover from this sl have "\<not> queued (rq_abs ?u) p" by (auto simp: ready_inv_def)
    ultimately show "woke {p} ?u (wake_proc p ?u)" using woke_wake_proc Cons.prems(2) by simp
    have "myproc ?u \<noteq> Some p"
      using sched_invD(4) [OF u, of p] r sl by (force simp: ready_inv_def)
    then show "\<forall>x\<in>{p}. myproc ?u \<noteq> Some x" by simp
  qed
  then show ?case using Cons u by (auto simp: Let_def)
qed

lemma kill_inv: "sched_inv s \<Longrightarrow> sched_inv (snd (kill pid s))"
  unfolding kill_def by (rule kill_loop_inv) auto

lemma tick_effect:
  assumes "rq_ok s"
  shows "\<exists>t. prio_on_tick s = Inr t \<and> rq_ok t \<and> (\<forall>q. queued (rq_abs t) q \<longleftrightarrow> queued (rq_abs s) q) \<and>
    (\<forall>q. p_state (procs t q) = p_state (procs s q) \<and> idents (procs t q) = idents (procs s q) \<and>
      (lv (p_prio (procs s q)) \<longrightarrow> lv (p_prio (procs t q)))) \<and> same_globals s t"
proof -
  let ?A = "\<lambda>p. ages (procs s p)"
  have r: "runq_rep s (rq_abs s)" using assms by (simp add: rq_ok_def)
  obtain t where t: "prio_on_tick s = Inr t" "runq_rep t (tick_levels ?A (rq_abs s))"
      "ticked s t {p. queued (rq_abs s) p}"
    using prio_on_tick_rep [OF r] by blast
  have "queued (tick_levels ?A (rq_abs s)) q \<longleftrightarrow> queued (rq_abs s) q" for q
  proof
    assume "queued (rq_abs s) q"
    then obtain i where "q \<in> set (rq_abs s i)" by (auto simp: queued_def)
    then show "queued (tick_levels ?A (rq_abs s)) q"
      unfolding queued_def tick_levels_def
      by (intro exI [of _ "if ?A q then i - 1 else i"]) auto
  qed (auto simp: queued_def tick_levels_def)
  moreover have "p_state (procs t q) = p_state (procs s q) \<and> idents (procs t q) = idents (procs s q) \<and>
      (lv (p_prio (procs s q)) \<longrightarrow> lv (p_prio (procs t q)))" for q
  proof -
    have st: "strip (procs t q) = strip (if queued (rq_abs s) q then tick_proc (procs s q) else procs s q)"
      using t(3) by (simp add: ticked_def)
    show ?thesis using strip_fields [OF st]
      by (auto simp: idents_def tick_proc_def ages_def lv_def)
  qed
  ultimately show ?thesis using t rq_okI [OF t(2)] by (auto simp: ticked_def)
qed

lemma tick_sched_inv:
  assumes "sched_inv s"
  shows "\<exists>t. prio_on_tick s = Inr t \<and> sched_inv t \<and> myproc t = myproc s \<and>
    c_idleproc (s_cpu t) = c_idleproc (s_cpu s)"
proof -
  obtain p where p: "myproc s = Some p" using sched_inv_running [OF assms] by blast
  note d = sched_invD [OF assms p]
  have "rq_ok s" using d(3) by (simp add: ready_inv_def)
  then obtain t where t: "prio_on_tick s = Inr t" "rq_ok t"
      "\<And>q. queued (rq_abs t) q \<longleftrightarrow> queued (rq_abs s) q"
      "\<And>q. p_state (procs t q) = p_state (procs s q)" "same_globals s t"
      "\<And>q. lv (p_prio (procs s q)) \<Longrightarrow> lv (p_prio (procs t q))"
    using tick_effect by meson
  have c: "s_cpu t = s_cpu s" using t(5) by (simp add: same_globals_def)
  have r: "ready_inv t" using d(3) t(2,6) unfolding ready_inv_def t(3,4) c by blast
  have "sched_inv t"
    by (rule sched_invI [of t p]) (use r d p in \<open>simp_all add: t(3,4) c myproc_def\<close>)
  then show ?thesis using t(1) c by (simp add: myproc_def)
qed

lemma dispatched_inv: "dispatched s t \<Longrightarrow> sched_inv t"
  by (simp add: dispatched_def)

lemma set_pending_inv: "sched_inv s \<Longrightarrow> sched_inv (set_cpu (\<lambda>c. c\<lparr>c_preempt_pending := b\<rparr>) s)"
  by (simp add: sched_inv_def ready_inv_def myproc_def)

lemma yield_inv: "sched_inv s \<Longrightarrow> \<exists>t. yield s = Inr t \<and> sched_inv t"
  using sched_inv_running [of s] yield_effect [of s] dispatched_inv by blast

lemma kerneltrap_timer_inv: "sched_inv s \<Longrightarrow> \<exists>t. kerneltrap_timer s = Inr t \<and> sched_inv t"
  using tick_sched_inv [of s] yield_inv sched_inv_running
  by (fastforce simp: kerneltrap_timer_def)

lemma usertrap_timer_inv:
  assumes "sched_inv s"
  shows "\<exists>t. usertrap_timer p s = Inr t \<and> sched_inv t"
proof -
  obtain u where u: "prio_on_tick s = Inr u" "sched_inv u" using tick_sched_inv [OF assms] by blast
  show ?thesis using u yield_inv set_pending_inv
    by (auto simp: usertrap_timer_def Let_def)
qed

lemma reparent_one_inv:
  assumes "sched_inv s"
  shows "sched_inv (reparent_one p pp s)" "myproc (reparent_one p pp s) = myproc s"
    "c_idleproc (s_cpu (reparent_one p pp s)) = c_idleproc (s_cpu s)"
proof -
  let ?u = "upd_proc pp (\<lambda>x. x\<lparr>p_parent := s_initproc s\<rparr>) s"
  have u: "sched_inv ?u" "myproc ?u = myproc s" "c_idleproc (s_cpu ?u) = c_idleproc (s_cpu s)"
    using upd_other_inv [OF assms, of "\<lambda>x. x\<lparr>p_parent := s_initproc s\<rparr>" pp] by simp_all
  have w: "woke {q. woken_by ch ?u q} ?u (wakeup ch ?u)" for ch
    using u(1) by (intro wakeup_woke) (simp add: sched_inv_def)
  show "sched_inv (reparent_one p pp s)"
    using assms wakeup_sched_inv [OF u(1)] by (simp add: reparent_one_def)
  show "myproc (reparent_one p pp s) = myproc s"
    "c_idleproc (s_cpu (reparent_one p pp s)) = c_idleproc (s_cpu s)"
    using w u(2,3) by (simp_all add: reparent_one_def woke_def)
qed

lemma reparent_fold_inv:
  "sched_inv s \<Longrightarrow> sched_inv (fold (reparent_one p) ps s) \<and>
     myproc (fold (reparent_one p) ps s) = myproc s \<and>
     c_idleproc (s_cpu (fold (reparent_one p) ps s)) = c_idleproc (s_cpu s)"
  by (induction ps arbitrary: s) (simp_all add: reparent_one_inv)

lemma exit_zombie_inv:
  assumes "sched_inv s" "myproc s = Some p" "c_idleproc (s_cpu s) \<noteq> Some p"
  shows "\<exists>t. exit_zombie status p s = Inr t \<and> sched_inv t"
proof -
  let ?a = "reparent p s"
  let ?b = "wakeup (map_option Ch_proc (p_parent (procs ?a p))) ?a"
  have a: "sched_inv ?a" "myproc ?a = Some p" "c_idleproc (s_cpu ?a) \<noteq> Some p"
    using reparent_fold_inv [OF assms(1), of p "[0..<NPROC]"] assms(2,3) by (simp_all add: reparent_def)
  have b: "sched_inv ?b" "myproc ?b = Some p" "c_idleproc (s_cpu ?b) \<noteq> Some p"
    using wakeup_sched_inv [OF a(1)] wakeup_woke [of ?a] a by (auto simp: sched_inv_def woke_def)
  show ?thesis
    using schedule_effect [OF stop_running [OF b, of "\<lambda>x. x\<lparr>p_xstate := status, p_state := ZOMBIE\<rparr>"]]
      dispatched_inv by (auto simp: exit_zombie_def Let_def)
qed

section \<open>Properties\<close>

text \<open>The entry points of the scheduler, as one kind of step.\<close>

datatype sched_op = Yield | Sleep chan | Sleep_return nat | Wakeup "chan option" | Kill int
  | Setkilled nat | Exit int | Timer_user | Timer_kernel | Clock

fun sched_exec :: "sched_op \<Rightarrow> sched \<Rightarrow> sched res" where
  "sched_exec Yield s = yield s"
| "sched_exec (Sleep ch) s = sleep ch s"
| "sched_exec (Sleep_return p) s = Inr (sleep_return p s)"
| "sched_exec (Wakeup ch) s = Inr (wakeup ch s)"
| "sched_exec (Kill pid) s = Inr (snd (kill pid s))"
| "sched_exec (Setkilled p) s = Inr (setkilled p s)"
| "sched_exec (Exit st) s = with_proc s (\<lambda>p. exit_zombie st p s)"
| "sched_exec Timer_user s = with_proc s (\<lambda>p. usertrap_timer p s)"
| "sched_exec Timer_kernel s = kerneltrap_timer s"
| "sched_exec Clock s = Inr (snd (clockintr 0 s))"

text \<open>The idle process neither sleeps nor exits; in a run such an operation is passed over.\<close>

definition sched_may :: "sched_op \<Rightarrow> sched \<Rightarrow> bool" where
  "sched_may op s \<longleftrightarrow>
     ((\<exists>ch. op = Sleep ch) \<or> (\<exists>st. op = Exit st) \<longrightarrow> myproc s \<noteq> c_idleproc (s_cpu s))"

fun sched_run :: "sched_op list \<Rightarrow> sched \<Rightarrow> sched res" where
  "sched_run [] s = Inr s"
| "sched_run (op # ops) s =
     (if sched_may op s then bnd (sched_exec op s) (sched_run ops) else sched_run ops s)"

lemma sched_exec_inv:
  assumes "sched_inv s" "sched_may op s"
  shows "\<exists>t. sched_exec op s = Inr t \<and> sched_inv t"
proof -
  obtain p where p: "myproc s = Some p" using sched_inv_running [OF assms(1)] by blast
  show ?thesis
  proof (cases op)
    case (Sleep ch)
    then show ?thesis using sleep_effect(2) [OF assms(1) p, of ch] assms(2) p dispatched_inv
      by (fastforce simp: sched_may_def)
  next
    case (Exit st)
    then show ?thesis using exit_zombie_inv [OF assms(1) p, of st] assms(2) p
      by (force simp: sched_may_def with_proc_def)
  qed (use assms(1) p in \<open>auto simp: with_proc_def sleep_return_def setkilled_def clockintr_def
      intro: yield_inv wakeup_sched_inv kill_inv usertrap_timer_inv kerneltrap_timer_inv upd_other_inv\<close>)
qed

text \<open>An example: process 1 runs, process 2 sleeps on the tick counter, slot 0 is the idle
  process.\<close>

definition sched_ex :: sched where
  "sched_ex = prio_init (sched0\<lparr>
     procs := (\<lambda>_. proc0)(0 := proc0\<lparr>p_state := RUNNABLE, p_prio := PRIO_MAX\<rparr>,
       1 := proc0\<lparr>p_state := RUNNING, p_pid := 1\<rparr>,
       2 := proc0\<lparr>p_state := SLEEPING, p_chan := Some Ch_ticks, p_pid := 2\<rparr>),
     s_cpu := cpu0\<lparr>c_proc := Some 1, c_idleproc := Some 0\<rparr>\<rparr>)"

lemma sched_ex_procs:
  "procs sched_ex = (\<lambda>_. proc0)(0 := proc0\<lparr>p_state := RUNNABLE, p_prio := PRIO_MAX\<rparr>,
       1 := proc0\<lparr>p_state := RUNNING, p_pid := 1\<rparr>,
       2 := proc0\<lparr>p_state := SLEEPING, p_chan := Some Ch_ticks, p_pid := 2\<rparr>)"
  "s_cpu sched_ex = cpu0\<lparr>c_proc := Some 1, c_idleproc := Some 0\<rparr>"
  by (simp_all add: sched_ex_def prio_init_def)

lemma sched_ex_inv: "sched_inv sched_ex" "rq_abs sched_ex = (\<lambda>_. [])"
proof -
  have q: "rq_ok sched_ex" "rq_abs sched_ex = (\<lambda>_. [])"
    unfolding sched_ex_def by (rule rq_ok_init)+
  then show "rq_abs sched_ex = (\<lambda>_. [])" by blast
  have r: "ready_inv sched_ex"
    unfolding ready_inv_def q(2) sched_ex_procs using q(1) by (auto simp: queued_def proc0_def lv_def)
  show "sched_inv sched_ex"
    by (rule sched_invI [OF r, of 1])
      (auto simp: q(2) queued_def sched_ex_procs myproc_def proc0_def split: if_splits)
qed

text \<open>C2.  The scheduler's invariant holds through every sequence of scheduler operations, and
  none of them panics or loops: the ready queue holds exactly the runnable processes, so none
  is lost or queued twice, and at most one process is running.\<close>

theorem scheduler_invariant:
  assumes "sched_inv s"
  shows "\<exists>t. sched_run ops s = Inr t \<and> sched_inv t"
  using assms
proof (induction ops arbitrary: s)
  case Nil
  then show ?case by simp
next
  case (Cons op ops)
  then show ?case using sched_exec_inv [OF Cons.prems, of op] by (cases "sched_may op s") auto
qed

theorem scheduler_invariant_witness:
  "\<exists>t. sched_run [Clock, Timer_user, Sleep Ch_log, Kill 1, Yield] sched_ex = Inr t \<and> sched_inv t"
  using scheduler_invariant [OF sched_ex_inv(1)] by blast

text \<open>C19.  \<^verbatim>\<open>wakeup\<close> makes exactly those processes runnable that sleep on the channel, except
  the caller, puts each of them into the queue, and changes no other process's state.\<close>

theorem wakeup_exact:
  assumes "sched_inv s"
  shows "p_state (procs (wakeup ch s) q) = (if woken_by ch s q then RUNNABLE else p_state (procs s q)) \<and>
    (queued (rq_abs (wakeup ch s)) q \<longleftrightarrow> queued (rq_abs s) q \<or> woken_by ch s q)"
proof -
  have "woke {q. woken_by ch s q} s (wakeup ch s)"
    using assms by (intro wakeup_woke) (simp add: sched_inv_def)
  then show ?thesis by (simp add: woke_def)
qed

theorem wakeup_exact_witness:
  "p_state (procs (wakeup (Some Ch_ticks) sched_ex) 2) = RUNNABLE"
  using wakeup_exact [OF sched_ex_inv(1), of "Some Ch_ticks" 2]
  by (simp add: woken_by_def sched_ex_procs myproc_def)

text \<open>C18.  A process that sleeps gives the CPU to the first process of the best non-empty
  level, or to the idle process, and is itself left sleeping on its channel outside the
  queue.\<close>

theorem sleep_switches:
  assumes "sched_inv s" "myproc s = Some p" "c_idleproc (s_cpu s) \<noteq> Some p"
  shows "\<exists>t. sleep ch s = Inr t \<and> sched_inv t \<and> myproc t = next_proc s \<and>
    p_state (procs t p) = SLEEPING \<and> p_chan (procs t p) = Some ch \<and> \<not> queued (rq_abs t) p"
proof -
  let ?u = "upd_proc p (\<lambda>x. x\<lparr>p_chan := Some ch, p_state := SLEEPING\<rparr>) s"
  obtain t where t: "sleep ch s = Inr t" "dispatched ?u t"
    using sleep_effect(2) [OF assms] by blast
  have "rq_ok s" using assms(1) by (simp add: sched_inv_def ready_inv_def)
  then have "rq_abs ?u = rq_abs s" by (auto intro: upd_proc_queue)
  then have n: "next_proc ?u = next_proc s" by (simp add: next_proc_def upd_proc_def)
  have i: "sched_inv t" "myproc t = next_proc s" using t(2) n by (simp_all add: dispatched_def)
  have "next_proc s \<noteq> Some p"
  proof
    assume np: "next_proc s = Some p"
    then have "0 \<le> top_level (rq_abs s)" using assms(3) by (auto simp: next_proc_def split: if_splits)
    then have "queued (rq_abs s) p"
      using pick_effect [OF \<open>rq_ok s\<close>] np by (auto simp: next_proc_def)
    then show False using sched_invD(2) [OF assms(1,2)] by blast
  qed
  then have st: "strip (procs t p) = strip (procs ?u p)" using t(2) n by (simp add: dispatched_def)
  have "p_state (procs t p) = SLEEPING" "p_chan (procs t p) = Some ch"
    using strip_fields(1,2) [OF st] by (simp_all add: upd_proc_def)
  moreover from this have "\<not> queued (rq_abs t) p" using i(1) by (auto simp: sched_inv_def ready_inv_def)
  ultimately show ?thesis using t(1) i by blast
qed

theorem sleep_switches_witness:
  "\<exists>t. sleep Ch_log sched_ex = Inr t \<and> myproc t = Some 0 \<and> p_state (procs t 1) = SLEEPING"
proof -
  have "next_proc sched_ex = Some 0"
    using top_level_emptyI [of "rq_abs sched_ex"] by (simp add: next_proc_def sched_ex_inv sched_ex_procs)
  then show ?thesis
    using sleep_switches [OF sched_ex_inv(1), of 1 Ch_log] by (auto simp: sched_ex_procs myproc_def)
qed

section \<open>The window in sleep\<close>

text \<open>
  \<^verbatim>\<open>sleep\<close> releases \<^verbatim>\<open>p->lock\<close> before it calls \<^verbatim>\<open>schedule\<close>, and \<^verbatim>\<open>wakeup\<close> passes over the
  current process.  An interrupt handler that calls \<^verbatim>\<open>wakeup\<close> on the same channel in between
  therefore leaves the process asleep.
\<close>

lemma wakeup_in_sleep_window_is_lost:
  assumes "sched_inv s" "myproc s = Some p" "c_idleproc (s_cpu s) \<noteq> Some p"
    and "sleep_mark ch p s = Inr u"
  shows "p_state (procs (wakeup (Some ch) u) p) = SLEEPING"
proof -
  have u: "u = upd_proc p (\<lambda>x. x\<lparr>p_chan := Some ch, p_state := SLEEPING\<rparr>) s"
    using sleep_effect(1) [OF assms(1-3)] assms(4) by simp
  have "ready_inv u" unfolding u by (rule stop_running [OF assms(1-3)]) simp_all
  then have "woke {q. woken_by (Some ch) u q} u (wakeup (Some ch) u)" by (rule wakeup_woke)
  moreover have "\<not> woken_by (Some ch) u p"
    using assms(2) by (simp add: woken_by_def u upd_proc_def myproc_def)
  ultimately show ?thesis by (simp add: woke_def u upd_proc_def)
qed

end
