(* ===== verification/Sync.thy ===== *)
theory Sync
  imports Sched
begin

text \<open>
  Blocking synchronisation: sleep locks (\<^verbatim>\<open>kernel/sleeplock.c\<close>), counting semaphores
  (\<^verbatim>\<open>kernel/semaphore.c\<close>) and reader-writer locks (\<^verbatim>\<open>kernel/rwlock.c\<close>).  The body of a
  waiting loop is one pass under the object's spin lock: the caller either finds its
  condition true and goes on, or goes to sleep, which ends the pass with another process on
  the CPU.  A result \<open>(True, s)\<close> says that the call has returned, \<open>(False, s)\<close> that the
  caller sleeps and will make another pass when it is woken.
\<close>

section \<open>Sleep locks\<close>

record sleeplock =
  sl_locked :: bool
  sl_pid :: int

definition initsleeplock :: sleeplock where
  "initsleeplock = \<lparr>sl_locked = False, sl_pid = 0\<rparr>"

definition acquiresleep :: "chan \<Rightarrow> sleeplock \<Rightarrow> sched \<Rightarrow> (bool \<times> sleeplock \<times> sched) res" where
  "acquiresleep ch lk s =
     (if sl_locked lk then bnd (sleep ch s) (\<lambda>s. Inr (False, lk, s))
      else with_proc s (\<lambda>p.
        Inr (True, lk\<lparr>sl_locked := True, sl_pid := p_pid (procs s p)\<rparr>, s)))"

definition releasesleep :: "chan \<Rightarrow> sleeplock \<Rightarrow> sched \<Rightarrow> sleeplock \<times> sched" where
  "releasesleep ch lk s = (lk\<lparr>sl_locked := False, sl_pid := 0\<rparr>, wakeup (Some ch) s)"

definition holdingsleep :: "sleeplock \<Rightarrow> sched \<Rightarrow> bool res" where
  "holdingsleep lk s = with_proc s (\<lambda>p. Inr (sl_locked lk \<and> sl_pid lk = p_pid (procs s p)))"

section \<open>Semaphores and reader-writer locks\<close>

abbreviation (input) MAXSEM :: int where "MAXSEM \<equiv> 32"
abbreviation (input) MAXRW :: int where "MAXRW \<equiv> 32"

record semaphore =
  sem_value :: int

record rwlock =
  rw_readers :: int
  rw_writer :: bool
  rw_waiting_writers :: int

text \<open>\<open>sy_locks\<close> holds the sleep locks that are embedded in buffers and inodes, by the channel
  their waiters sleep on.\<close>

record sync =
  sy_locks :: "chan \<Rightarrow> sleeplock"
  sem_table :: "nat \<Rightarrow> semaphore"
  rw_table :: "nat \<Rightarrow> rwlock"
  sy_sched :: sched

definition upd_sem :: "nat \<Rightarrow> (semaphore \<Rightarrow> semaphore) \<Rightarrow> sync \<Rightarrow> sync" where
  "upd_sem i f s = s\<lparr>sem_table := (sem_table s)(i := f (sem_table s i))\<rparr>"

definition upd_rw :: "nat \<Rightarrow> (rwlock \<Rightarrow> rwlock) \<Rightarrow> sync \<Rightarrow> sync" where
  "upd_rw i f s = s\<lparr>rw_table := (rw_table s)(i := f (rw_table s i))\<rparr>"

definition sync_sleep :: "chan \<Rightarrow> sync \<Rightarrow> (bool \<times> sync) res" where
  "sync_sleep ch s = bnd (sleep ch (sy_sched s)) (\<lambda>k. Inr (False, s\<lparr>sy_sched := k\<rparr>))"

definition sync_wakeup :: "chan \<Rightarrow> sync \<Rightarrow> sync" where
  "sync_wakeup ch s = s\<lparr>sy_sched := wakeup (Some ch) (sy_sched s)\<rparr>"

subsection \<open>Semaphores\<close>

definition sem_table_init :: "sync \<Rightarrow> sync" where
  "sem_table_init s = s\<lparr>sem_table :=
     (\<lambda>i. if int i < MAXSEM then (sem_table s i)\<lparr>sem_value := 0\<rparr> else sem_table s i)\<rparr>"

definition sem_init_k :: "int \<Rightarrow> int \<Rightarrow> sync \<Rightarrow> sync" where
  "sem_init_k sid value s =
     (if sid < 0 \<or> sid \<ge> MAXSEM then s else upd_sem (nat sid) (\<lambda>x. x\<lparr>sem_value := value\<rparr>) s)"

definition sem_wait_k :: "int \<Rightarrow> sync \<Rightarrow> (bool \<times> sync) res" where
  "sem_wait_k sid s =
     (if sid < 0 \<or> sid \<ge> MAXSEM then Inr (True, s)
      else if sem_value (sem_table s (nat sid)) = 0 then sync_sleep (Ch_sem (nat sid)) s
      else Inr (True, upd_sem (nat sid) (\<lambda>x. x\<lparr>sem_value := cint (sem_value x - 1)\<rparr>) s))"

definition sem_signal_k :: "int \<Rightarrow> sync \<Rightarrow> sync" where
  "sem_signal_k sid s =
     (if sid < 0 \<or> sid \<ge> MAXSEM then s
      else sync_wakeup (Ch_sem (nat sid))
             (upd_sem (nat sid) (\<lambda>x. x\<lparr>sem_value := cint (sem_value x + 1)\<rparr>) s))"

subsection \<open>Reader-writer locks\<close>

definition rw_table_init :: "sync \<Rightarrow> sync" where
  "rw_table_init s = s\<lparr>rw_table :=
     (\<lambda>i. if int i < MAXRW
          then (rw_table s i)\<lparr>rw_readers := 0, rw_writer := False, rw_waiting_writers := 0\<rparr>
          else rw_table s i)\<rparr>"

definition rw_init_k :: "int \<Rightarrow> sync \<Rightarrow> sync" where
  "rw_init_k sid s =
     (if sid < 0 \<or> sid \<ge> MAXRW then s
      else upd_rw (nat sid)
             (\<lambda>x. x\<lparr>rw_readers := 0, rw_writer := False, rw_waiting_writers := 0\<rparr>) s)"

definition rw_rlock_k :: "int \<Rightarrow> sync \<Rightarrow> (bool \<times> sync) res" where
  "rw_rlock_k sid s =
     (if sid < 0 \<or> sid \<ge> MAXRW then Inr (True, s)
      else let rw = rw_table s (nat sid)
           in if rw_writer rw \<or> rw_waiting_writers rw > 0 then sync_sleep (Ch_rw (nat sid)) s
              else Inr (True, upd_rw (nat sid) (\<lambda>x. x\<lparr>rw_readers := rw_readers x + 1\<rparr>) s))"

definition rw_runlock_k :: "int \<Rightarrow> sync \<Rightarrow> sync" where
  "rw_runlock_k sid s =
     (if sid < 0 \<or> sid \<ge> MAXRW then s
      else let s = upd_rw (nat sid) (\<lambda>x. x\<lparr>rw_readers := rw_readers x - 1\<rparr>) s
           in if rw_readers (rw_table s (nat sid)) = 0 then sync_wakeup (Ch_rw (nat sid)) s else s)"

text \<open>\<^verbatim>\<open>rw_wlock_k\<close> registers the writer first; the passes of its loop follow.\<close>

definition rw_wlock_enter :: "int \<Rightarrow> sync \<Rightarrow> sync" where
  "rw_wlock_enter sid s =
     (if sid < 0 \<or> sid \<ge> MAXRW then s
      else upd_rw (nat sid) (\<lambda>x. x\<lparr>rw_waiting_writers := rw_waiting_writers x + 1\<rparr>) s)"

definition rw_wlock_pass :: "int \<Rightarrow> sync \<Rightarrow> (bool \<times> sync) res" where
  "rw_wlock_pass sid s =
     (if sid < 0 \<or> sid \<ge> MAXRW then Inr (True, s)
      else let rw = rw_table s (nat sid)
           in if rw_writer rw \<or> rw_readers rw > 0 then sync_sleep (Ch_rw (nat sid)) s
              else Inr (True, upd_rw (nat sid)
                (\<lambda>x. x\<lparr>rw_waiting_writers := rw_waiting_writers x - 1, rw_writer := True\<rparr>) s))"

definition rw_wlock_k :: "int \<Rightarrow> sync \<Rightarrow> (bool \<times> sync) res" where
  "rw_wlock_k sid s = rw_wlock_pass sid (rw_wlock_enter sid s)"

definition rw_wunlock_k :: "int \<Rightarrow> sync \<Rightarrow> sync" where
  "rw_wunlock_k sid s =
     (if sid < 0 \<or> sid \<ge> MAXRW then s
      else sync_wakeup (Ch_rw (nat sid)) (upd_rw (nat sid) (\<lambda>x. x\<lparr>rw_writer := False\<rparr>) s))"

section \<open>No wakeup is missed\<close>

definition sleepers :: "chan \<Rightarrow> sched \<Rightarrow> nat set" where
  "sleepers ch s = {p. p < NPROC \<and> p_state (procs s p) = SLEEPING \<and> p_chan (procs s p) = Some ch}"

text \<open>Operations of the scheduler that do not sleep on \<open>ch\<close> add no sleeper there.\<close>

lemma dispatched_sleepers:
  assumes "dispatched s t"
  shows "sleepers ch t \<subseteq> sleepers ch s"
proof
  fix p
  assume p: "p \<in> sleepers ch t"
  let ?x = "if Some p = next_proc s \<and> c_idleproc (s_cpu s) \<noteq> Some p
    then (procs s p)\<lparr>p_state := RUNNING, p_wait_ticks := 0\<rparr> else procs s p"
  have st: "strip (procs t p) = strip ?x" using assms by (simp add: dispatched_def)
  show "p \<in> sleepers ch s"
    using p strip_fields(1,2) [OF st] by (auto simp: sleepers_def split: if_splits)
qed

lemma woke_sleepers: "woke P s t \<Longrightarrow> sleepers ch t \<subseteq> sleepers ch s - P"
  by (auto simp: woke_def sleepers_def idents_def split: if_splits)

lemma wakeup_sleepers:
  assumes "sched_inv s"
  shows "sleepers ch (wakeup (Some ch) s) = {}"
proof -
  obtain p where p: "myproc s = Some p" using sched_inv_running [OF assms] by blast
  have "ready_inv s" using assms by (simp add: sched_inv_def)
  then have "sleepers ch (wakeup (Some ch) s) \<subseteq> sleepers ch s - {q. woken_by (Some ch) s q}"
    by (intro woke_sleepers wakeup_woke)
  also have "\<dots> \<subseteq> {p}" using p by (auto simp: sleepers_def woken_by_def)
  finally have "sleepers ch (wakeup (Some ch) s) \<subseteq> {p}" .
  moreover have "p_state (procs s p) \<noteq> SLEEPING"
    using sched_invD(4) [OF assms p] \<open>ready_inv s\<close> by (auto simp: ready_inv_def)
  then have "p \<notin> sleepers ch s" by (simp add: sleepers_def)
  ultimately show ?thesis
    using woke_sleepers [OF wakeup_woke [OF \<open>ready_inv s\<close>], of ch "Some ch"] by blast
qed

lemma upd_sleepers:
  assumes "\<And>x. p_state (f x) = p_state x" "\<And>x. p_chan (f x) = p_chan x \<or> p_chan (f x) = None"
  shows "sleepers ch (upd_proc p f s) \<subseteq> sleepers ch s"
proof -
  have "p_chan (f (procs s p)) = Some ch \<Longrightarrow> p_chan (procs s p) = Some ch"
    using assms(2) [of "procs s p"] by auto
  then show ?thesis using assms(1) by (auto simp: sleepers_def upd_proc_def split: if_splits)
qed

lemma sleep_sleepers:
  assumes "sched_inv s" "myproc s = Some p" "c_idleproc (s_cpu s) \<noteq> Some p" "sleep ch s = Inr t"
  shows "sleepers ch' t \<subseteq> (if ch' = ch then insert p (sleepers ch' s) else sleepers ch' s)"
proof -
  let ?u = "upd_proc p (\<lambda>x. x\<lparr>p_chan := Some ch, p_state := SLEEPING\<rparr>) s"
  have "dispatched ?u t" using sleep_effect(2) [OF assms(1-3), of ch] assms(4) by auto
  then have "sleepers ch' t \<subseteq> sleepers ch' ?u" by (rule dispatched_sleepers)
  also have "\<dots> \<subseteq> (if ch' = ch then insert p (sleepers ch' s) else sleepers ch' s)"
    by (auto simp: sleepers_def upd_proc_def split: if_splits)
  finally show ?thesis .
qed

lemma wakeup_other_sleepers: "sched_inv s \<Longrightarrow> sleepers ch (wakeup c s) \<subseteq> sleepers ch s"
  using woke_sleepers [OF wakeup_woke, of s ch c] by (auto simp: sched_inv_def)

lemma yield_sleepers:
  assumes "sched_inv s" "yield s = Inr t"
  shows "sleepers ch t \<subseteq> sleepers ch s"
proof -
  obtain p where p: "myproc s = Some p" using sched_inv_running [OF assms(1)] by blast
  note d = sched_invD [OF assms(1) p]
  have "dispatched (wake_proc p s) t" using yield_effect [OF assms(1) p] assms(2) by auto
  then have "sleepers ch t \<subseteq> sleepers ch (wake_proc p s)" by (rule dispatched_sleepers)
  also have "\<dots> \<subseteq> sleepers ch s" using woke_sleepers [OF woke_wake_proc [OF d(3,1,2)]] by blast
  finally show ?thesis .
qed

lemma tick_sleepers:
  assumes "sched_inv s" "prio_on_tick s = Inr t"
  shows "sleepers ch t = sleepers ch s"
proof -
  have "rq_ok s" using assms(1) by (simp add: sched_inv_def ready_inv_def)
  then show ?thesis using tick_effect [of s] assms(2) by (auto simp: sleepers_def idents_def)
qed

lemma kill_loop_sleepers:
  "sched_inv s \<Longrightarrow> set ps \<subseteq> {..<NPROC} \<Longrightarrow> sleepers ch (snd (kill_loop ps pid s)) \<subseteq> sleepers ch s"
proof (induction ps)
  case Nil
  then show ?case by simp
next
  case (Cons p ps)
  let ?u = "upd_proc p (\<lambda>x. x\<lparr>p_killed := True\<rparr>) s"
  have u: "ready_inv ?u" using upd_other_inv(1) [OF Cons.prems(1), of "\<lambda>x. x\<lparr>p_killed := True\<rparr>" p]
    by (simp add: sched_inv_def)
  have a: "sleepers ch ?u \<subseteq> sleepers ch s" by (rule upd_sleepers) simp_all
  have "sleepers ch (wake_proc p ?u) \<subseteq> sleepers ch ?u" if "p_state (procs ?u p) = SLEEPING"
  proof -
    have "\<not> queued (rq_abs ?u) p" using u that by (auto simp: ready_inv_def)
    then show ?thesis using woke_sleepers [OF woke_wake_proc [OF u]] Cons.prems(2) by auto
  qed
  then have "sleepers ch (if p_state (procs ?u p) = SLEEPING then wake_proc p ?u else ?u) \<subseteq> sleepers ch s"
    using a by auto
  then show ?case using Cons by (simp add: Let_def)
qed

lemma reparent_sleepers:
  "sched_inv s \<Longrightarrow> sleepers ch (fold (reparent_one p) ps s) \<subseteq> sleepers ch s"
proof (induction ps arbitrary: s)
  case Nil
  then show ?case by simp
next
  case (Cons pp ps)
  let ?f = "\<lambda>x. x\<lparr>p_parent := s_initproc s\<rparr>"
  let ?u = "upd_proc pp ?f s"
  have "sched_inv ?u" using upd_other_inv(1) [OF Cons.prems, of ?f pp] by simp
  then have w: "sleepers ch (wakeup c ?u) \<subseteq> sleepers ch ?u" for c by (rule wakeup_other_sleepers)
  have "sleepers ch ?u \<subseteq> sleepers ch s" by (rule upd_sleepers) simp_all
  then have "sleepers ch (wakeup c ?u) \<subseteq> sleepers ch s" for c using w by blast
  then have "sleepers ch (reparent_one p pp s) \<subseteq> sleepers ch s"
    by (simp add: reparent_one_def)
  then show ?case using Cons.IH [OF reparent_one_inv(1) [OF Cons.prems]] by auto
qed

lemma exit_zombie_sleepers:
  assumes "sched_inv s" "myproc s = Some p" "c_idleproc (s_cpu s) \<noteq> Some p" "exit_zombie st p s = Inr t"
  shows "sleepers ch t \<subseteq> sleepers ch s"
proof -
  let ?a = "reparent p s"
  let ?b = "wakeup (map_option Ch_proc (p_parent (procs ?a p))) ?a"
  let ?f = "\<lambda>x. x\<lparr>p_xstate := st, p_state := ZOMBIE\<rparr>"
  have a: "sched_inv ?a" "myproc ?a = Some p" "c_idleproc (s_cpu ?a) \<noteq> Some p"
    using reparent_fold_inv [OF assms(1), of p "[0..<NPROC]"] assms(2,3) by (simp_all add: reparent_def)
  have b: "sched_inv ?b" "myproc ?b = Some p" "c_idleproc (s_cpu ?b) \<noteq> Some p"
    using wakeup_sched_inv [OF a(1)] wakeup_woke [of ?a] a by (auto simp: sched_inv_def woke_def)
  have "dispatched (upd_proc p ?f ?b) t"
    using schedule_effect [OF stop_running [OF b, of ?f]] assms(4) by (auto simp: exit_zombie_def Let_def)
  then have "sleepers ch t \<subseteq> sleepers ch (upd_proc p ?f ?b)" by (rule dispatched_sleepers)
  also have "\<dots> \<subseteq> sleepers ch ?b" by (auto simp: sleepers_def upd_proc_def split: if_splits)
  also have "\<dots> \<subseteq> sleepers ch ?a" using a(1) by (rule wakeup_other_sleepers)
  also have "\<dots> \<subseteq> sleepers ch s" unfolding reparent_def using assms(1) by (rule reparent_sleepers)
  finally show ?thesis .
qed

lemma timer_sleepers:
  assumes "sched_inv s"
  shows "kerneltrap_timer s = Inr t \<Longrightarrow> sleepers ch t \<subseteq> sleepers ch s"
    "usertrap_timer p s = Inr t \<Longrightarrow> sleepers ch t \<subseteq> sleepers ch s"
proof -
  obtain u where u: "prio_on_tick s = Inr u" "sched_inv u" using tick_sched_inv [OF assms] by blast
  have us: "sleepers ch u = sleepers ch s" using tick_sleepers [OF assms u(1)] .
  show "kerneltrap_timer s = Inr t \<Longrightarrow> sleepers ch t \<subseteq> sleepers ch s"
    using u us yield_sleepers [OF u(2)] by (auto simp: kerneltrap_timer_def split: option.splits if_splits)
  have c: "sleepers ch (set_cpu f u) = sleepers ch s" for f using us by (simp add: sleepers_def)
  show "usertrap_timer p s = Inr t \<Longrightarrow> sleepers ch t \<subseteq> sleepers ch s"
    using u us c [of "\<lambda>c. c\<lparr>c_preempt_pending := False\<rparr>"] yield_sleepers [OF u(2), of t ch]
      yield_sleepers [OF set_pending_inv [OF u(2)], of False t ch]
    by (simp add: usertrap_timer_def Let_def split: if_splits)
qed

lemma sched_exec_sleepers:
  assumes "sched_inv s" "sched_may op s" "sched_exec op s = Inr t" "op \<noteq> Sleep ch"
  shows "sleepers ch t \<subseteq> sleepers ch s"
proof -
  obtain p where p: "myproc s = Some p" using sched_inv_running [OF assms(1)] by blast
  show ?thesis
  proof (cases op)
    case (Sleep c)
    then show ?thesis using sleep_sleepers [OF assms(1) p _, of c t ch] assms(2,3,4) p
      by (force simp: sched_may_def)
  next
    case (Exit st)
    then show ?thesis using exit_zombie_sleepers [OF assms(1) p, of st t ch] assms(2,3) p
      by (force simp: sched_may_def with_proc_def)
  next
    case (Kill pid)
    then show ?thesis using kill_loop_sleepers [OF assms(1), of "[0..<NPROC]" ch pid] assms(3)
      by (simp add: kill_def atLeast0LessThan)
  next
    case Yield
    then show ?thesis using yield_sleepers [OF assms(1)] assms(3) by simp
  next
    case (Sleep_return q)
    have "sleepers ch (sleep_return q s) \<subseteq> sleepers ch s"
      unfolding sleep_return_def by (rule upd_sleepers) simp_all
    then show ?thesis using Sleep_return assms(3) by simp
  next
    case (Setkilled q)
    have "sleepers ch (setkilled q s) \<subseteq> sleepers ch s"
      unfolding setkilled_def by (rule upd_sleepers) simp_all
    then show ?thesis using Setkilled assms(3) by simp
  qed (use assms(1,3) p wakeup_other_sleepers timer_sleepers in \<open>auto simp: with_proc_def clockintr_def\<close>)
qed

text \<open>
  A history of an object that processes wait for on the channel \<open>ch\<close>: the current process
  makes a pass of an operation, or the scheduler does something else.  \<open>pend\<close> is the
  operation each process is in the middle of.
\<close>

inductive wait_steps ::
  "chan \<Rightarrow> ('op \<Rightarrow> sync \<Rightarrow> (bool \<times> sync) res) \<Rightarrow>
   sync \<Rightarrow> (nat \<Rightarrow> 'op option) \<Rightarrow> sync \<Rightarrow> (nat \<Rightarrow> 'op option) \<Rightarrow> bool"
  for ch exec s pend where
  nil: "wait_steps ch exec s pend s pend"
| call: "wait_steps ch exec s pend t pend' \<Longrightarrow> myproc (sy_sched t) = Some p \<Longrightarrow>
    c_idleproc (s_cpu (sy_sched t)) \<noteq> Some p \<Longrightarrow> pend' p = None \<or> pend' p = Some op \<Longrightarrow>
    exec op t = Inr (b, u) \<Longrightarrow>
    wait_steps ch exec s pend u (pend'(p := if b then None else Some op))"
| other: "wait_steps ch exec s pend t pend' \<Longrightarrow> sched_may act (sy_sched t) \<Longrightarrow> act \<noteq> Sleep ch \<Longrightarrow>
    sched_exec act (sy_sched t) = Inr k \<Longrightarrow>
    wait_steps ch exec s pend (t\<lparr>sy_sched := k\<rparr>) pend'"

text \<open>The contract of such an object: a pass that finds its condition false sleeps on the
  channel; one that goes through either wakes all sleepers or leaves every blocked operation
  blocked.\<close>

locale wait_object =
  fixes ch :: chan
    and blocks :: "'op \<Rightarrow> sync \<Rightarrow> bool"
    and exec :: "'op \<Rightarrow> sync \<Rightarrow> (bool \<times> sync) res"
  assumes blocked: "blocks op s \<Longrightarrow> exec op s = sync_sleep ch s"
    and passes: "myproc (sy_sched s) = Some p \<Longrightarrow> \<not> blocks op s \<Longrightarrow> \<exists>t. exec op s = Inr (True, t) \<and>
      (sy_sched t = sy_sched s \<and> (\<forall>x. blocks x s \<longrightarrow> blocks x t) \<or>
       sy_sched t = wakeup (Some ch) (sy_sched s))"
    and frame: "blocks op (s\<lparr>sy_sched := k\<rparr>) = blocks op s"
begin

definition wait_inv :: "sync \<Rightarrow> (nat \<Rightarrow> 'op option) \<Rightarrow> bool" where
  "wait_inv s pend \<longleftrightarrow> sched_inv (sy_sched s) \<and>
     (\<forall>p\<in>sleepers ch (sy_sched s). \<exists>op. pend p = Some op \<and> blocks op s)"

lemma call_inv:
  assumes i: "wait_inv s pend" and p: "myproc (sy_sched s) = Some p"
      "c_idleproc (s_cpu (sy_sched s)) \<noteq> Some p" and e: "exec op s = Inr (b, t)"
  shows "wait_inv t (pend(p := if b then None else Some op))"
proof -
  have k: "sched_inv (sy_sched s)" using i by (simp add: wait_inv_def)
  have ps: "p \<notin> sleepers ch (sy_sched s)"
    using sched_invD(4) [OF k p(1)] p(2) by (auto simp: sleepers_def)
  show ?thesis
  proof (cases "blocks op s")
    case True
    obtain v where v: "sleep ch (sy_sched s) = Inr v" "sched_inv v"
      using sleep_effect(2) [OF k p] dispatched_inv by blast
    have bt: "b = False" "t = s\<lparr>sy_sched := v\<rparr>"
      using blocked [OF True] e v(1) by (simp_all add: sync_sleep_def)
    have "sleepers ch v \<subseteq> insert p (sleepers ch (sy_sched s))"
      using sleep_sleepers [OF k p v(1), of ch] by simp
    then show ?thesis using i v(2) True ps unfolding wait_inv_def bt by (auto simp: frame)
  next
    case False
    then obtain u where "exec op s = Inr (True, u)"
        "sy_sched u = sy_sched s \<and> (\<forall>x. blocks x s \<longrightarrow> blocks x u) \<or>
         sy_sched u = wakeup (Some ch) (sy_sched s)"
      using passes [OF p(1) False] by blast
    then have t: "b" "sy_sched t = sy_sched s \<and> (\<forall>x. blocks x s \<longrightarrow> blocks x t) \<or>
         sy_sched t = wakeup (Some ch) (sy_sched s)"
      using e by auto
    then show ?thesis using i k ps wakeup_sleepers [OF k, of ch] wakeup_sched_inv [OF k, of "Some ch"]
      unfolding wait_inv_def by fastforce
  qed
qed

lemma sleepers_blocked:
  "wait_steps ch exec s pend t pend' \<Longrightarrow> wait_inv s pend \<Longrightarrow> wait_inv t pend'"
proof (induction rule: wait_steps.induct)
  case nil
  then show ?case .
next
  case (call t pend' p op b u)
  then show ?case using call_inv by blast
next
  case (other t pend' act k)
  have i: "wait_inv t pend'" using other by blast
  then have s: "sched_inv (sy_sched t)" by (simp add: wait_inv_def)
  have "sched_inv k" using sched_exec_inv [OF s other.hyps(2)] other.hyps(4) by auto
  moreover have "sleepers ch k \<subseteq> sleepers ch (sy_sched t)"
    using sched_exec_sleepers [OF s other.hyps(2,4,3)] .
  ultimately show ?case using i by (auto simp: wait_inv_def frame)
qed

end

subsection \<open>The three kinds of object\<close>

datatype sem_op = SWait | SSignal

fun sem_exec :: "int \<Rightarrow> sem_op \<Rightarrow> sync \<Rightarrow> (bool \<times> sync) res" where
  "sem_exec sid SWait s = sem_wait_k sid s"
| "sem_exec sid SSignal s = Inr (True, sem_signal_k sid s)"

fun sem_blocks :: "int \<Rightarrow> sem_op \<Rightarrow> sync \<Rightarrow> bool" where
  "sem_blocks sid SWait s \<longleftrightarrow> 0 \<le> sid \<and> sid < MAXSEM \<and> sem_value (sem_table s (nat sid)) = 0"
| "sem_blocks sid SSignal s \<longleftrightarrow> False"

lemmas sync_simps = upd_sem_def upd_rw_def sync_wakeup_def sync_sleep_def Let_def

interpretation semw: wait_object "Ch_sem (nat sid)" "sem_blocks sid" "sem_exec sid"
proof unfold_locales
  fix op s p k
  show "sem_blocks sid op s \<Longrightarrow> sem_exec sid op s = sync_sleep (Ch_sem (nat sid)) s"
    by (cases op) (auto simp: sem_wait_k_def)
  show "sem_blocks sid op (s\<lparr>sy_sched := k\<rparr>) = sem_blocks sid op s"
    by (cases op) auto
  have "sem_blocks sid x s \<longrightarrow> sem_blocks sid x (upd_sem (nat sid) (\<lambda>x. x\<lparr>sem_value := cint (sem_value x - 1)\<rparr>) s)"
    if "\<not> sem_blocks sid SWait s" for x
    using that by (cases x) (auto simp: sync_simps)
  then show "\<exists>t. sem_exec sid op s = Inr (True, t) \<and>
      (sy_sched t = sy_sched s \<and> (\<forall>x. sem_blocks sid x s \<longrightarrow> sem_blocks sid x t) \<or>
       sy_sched t = wakeup (Some (Ch_sem (nat sid))) (sy_sched s))" if "\<not> sem_blocks sid op s"
    using that by (cases op) (auto simp: sem_wait_k_def sem_signal_k_def sync_simps)
qed

datatype rw_op = RLock | RUnlock | WEnter | WPass | WUnlock

fun rw_exec :: "int \<Rightarrow> rw_op \<Rightarrow> sync \<Rightarrow> (bool \<times> sync) res" where
  "rw_exec sid RLock s = rw_rlock_k sid s"
| "rw_exec sid RUnlock s = Inr (True, rw_runlock_k sid s)"
| "rw_exec sid WEnter s = Inr (True, rw_wlock_enter sid s)"
| "rw_exec sid WPass s = rw_wlock_pass sid s"
| "rw_exec sid WUnlock s = Inr (True, rw_wunlock_k sid s)"

fun rw_blocks :: "int \<Rightarrow> rw_op \<Rightarrow> sync \<Rightarrow> bool" where
  "rw_blocks sid RLock s \<longleftrightarrow> 0 \<le> sid \<and> sid < MAXRW \<and>
     (rw_writer (rw_table s (nat sid)) \<or> rw_waiting_writers (rw_table s (nat sid)) > 0)"
| "rw_blocks sid WPass s \<longleftrightarrow> 0 \<le> sid \<and> sid < MAXRW \<and>
     (rw_writer (rw_table s (nat sid)) \<or> rw_readers (rw_table s (nat sid)) > 0)"
| "rw_blocks sid _ s \<longleftrightarrow> False"

interpretation rww: wait_object "Ch_rw (nat sid)" "rw_blocks sid" "rw_exec sid"
proof unfold_locales
  fix op s p k
  show "rw_blocks sid op s \<Longrightarrow> rw_exec sid op s = sync_sleep (Ch_rw (nat sid)) s"
    by (cases op) (auto simp: rw_rlock_k_def rw_wlock_pass_def Let_def)
  show "rw_blocks sid op (s\<lparr>sy_sched := k\<rparr>) = rw_blocks sid op s"
    by (cases op) auto
  assume n: "\<not> rw_blocks sid op s"
  show "\<exists>t. rw_exec sid op s = Inr (True, t) \<and>
      (sy_sched t = sy_sched s \<and> (\<forall>x. rw_blocks sid x s \<longrightarrow> rw_blocks sid x t) \<or>
       sy_sched t = wakeup (Some (Ch_rw (nat sid))) (sy_sched s))"
  proof -
    have all: "rw_blocks sid x s \<longrightarrow> rw_blocks sid x t"
      if "rw_blocks sid RLock s \<longrightarrow> rw_blocks sid RLock t"
        "rw_blocks sid WPass s \<longrightarrow> rw_blocks sid WPass t" for x t
      by (cases x) (use that in simp_all)
    have pass: ?thesis if "rw_exec sid op s = Inr (True, t)"
        "sy_sched t = sy_sched s \<and> (rw_blocks sid RLock s \<longrightarrow> rw_blocks sid RLock t) \<and>
           (rw_blocks sid WPass s \<longrightarrow> rw_blocks sid WPass t) \<or>
         sy_sched t = wakeup (Some (Ch_rw (nat sid))) (sy_sched s)" for t
      using that all by blast
    show ?thesis
    proof (cases op)
      case RLock
      then show ?thesis using n
        by (intro pass [of "if sid < 0 \<or> sid \<ge> MAXRW then s
              else upd_rw (nat sid) (\<lambda>x. x\<lparr>rw_readers := rw_readers x + 1\<rparr>) s"])
          (auto simp: rw_rlock_k_def sync_simps)
    next
      case RUnlock
      then show ?thesis by (intro pass [of "rw_runlock_k sid s"]) (auto simp: rw_runlock_k_def sync_simps)
    next
      case WEnter
      then show ?thesis by (intro pass [of "rw_wlock_enter sid s"]) (auto simp: rw_wlock_enter_def sync_simps)
    next
      case WPass
      then show ?thesis using n
        by (intro pass [of "if sid < 0 \<or> sid \<ge> MAXRW then s
              else upd_rw (nat sid) (\<lambda>x. x\<lparr>rw_waiting_writers := rw_waiting_writers x - 1, rw_writer := True\<rparr>) s"])
          (auto simp: rw_wlock_pass_def sync_simps)
    next
      case WUnlock
      then show ?thesis by (intro pass [of "rw_wunlock_k sid s"]) (auto simp: rw_wunlock_k_def sync_simps)
    qed
  qed
qed

datatype sl_op = SL_acquire | SL_release

fun sl_exec :: "chan \<Rightarrow> sl_op \<Rightarrow> sync \<Rightarrow> (bool \<times> sync) res" where
  "sl_exec ch SL_acquire s =
     bnd (acquiresleep ch (sy_locks s ch) (sy_sched s)) (\<lambda>(b, lk, k).
       Inr (b, s\<lparr>sy_locks := (sy_locks s)(ch := lk), sy_sched := k\<rparr>))"
| "sl_exec ch SL_release s =
     (let (lk, k) = releasesleep ch (sy_locks s ch) (sy_sched s)
      in Inr (True, s\<lparr>sy_locks := (sy_locks s)(ch := lk), sy_sched := k\<rparr>))"

fun sl_blocks :: "chan \<Rightarrow> sl_op \<Rightarrow> sync \<Rightarrow> bool" where
  "sl_blocks ch SL_acquire s \<longleftrightarrow> sl_locked (sy_locks s ch)"
| "sl_blocks ch SL_release s \<longleftrightarrow> False"

interpretation slw: wait_object ch "sl_blocks ch" "sl_exec ch"
proof unfold_locales
  fix op s p k
  show "sl_exec ch op s = sync_sleep ch s" if "sl_blocks ch op s"
    using that by (cases op) (auto simp: acquiresleep_def sync_sleep_def bnd_assoc)
  show "sl_blocks ch op (s\<lparr>sy_sched := k\<rparr>) = sl_blocks ch op s"
    by (cases op) auto
  assume n: "\<not> sl_blocks ch op s" and p: "myproc (sy_sched s) = Some p"
  have "\<not> sl_blocks ch x s" if "\<not> sl_locked (sy_locks s ch)" for x
    using that by (cases x) auto
  then show "\<exists>t. sl_exec ch op s = Inr (True, t) \<and>
      (sy_sched t = sy_sched s \<and> (\<forall>x. sl_blocks ch x s \<longrightarrow> sl_blocks ch x t) \<or>
       sy_sched t = wakeup (Some ch) (sy_sched s))"
    using n p by (cases op) (auto simp: acquiresleep_def releasesleep_def with_proc_def)
qed

section \<open>What the objects guarantee\<close>

text \<open>The history of a semaphore after \<^verbatim>\<open>sem_init\<close>, with the numbers of completed waits and
  of signals, and whether some signal found the largest \<^verbatim>\<open>int\<close>.  The scheduler may run in between.\<close>

inductive sem_hist :: "int \<Rightarrow> sync \<Rightarrow> sync \<Rightarrow> nat \<Rightarrow> nat \<Rightarrow> bool \<Rightarrow> bool" for sid s where
  start: "sem_hist sid s s 0 0 False"
| waited: "sem_hist sid s t w g ov \<Longrightarrow> sem_wait_k sid t = Inr (True, u) \<Longrightarrow> sem_hist sid s u (Suc w) g ov"
| slept: "sem_hist sid s t w g ov \<Longrightarrow> sem_wait_k sid t = Inr (False, u) \<Longrightarrow> sem_hist sid s u w g ov"
| signalled: "sem_hist sid s t w g ov \<Longrightarrow>
    sem_hist sid s (sem_signal_k sid t) w (Suc g) (ov \<or> sem_value (sem_table t (nat sid)) = INT_MAX)"
| sched: "sem_hist sid s t w g ov \<Longrightarrow> sem_hist sid s (t\<lparr>sy_sched := k\<rparr>) w g ov"

lemma sem_hist_wraps:
  assumes "sem_hist sid s t w g ov" "0 \<le> sid" "sid < MAXSEM" "sem_value (sem_table s (nat sid)) = cint n"
  shows "sem_value (sem_table t (nat sid)) = cint (n + int g - int w)"
  using assms
proof (induction rule: sem_hist.induct)
  case (waited t w g ov u)
  then have "sem_value (sem_table u (nat sid)) = cint (cint (n + int g - int w) - 1)"
    by (auto simp: sem_wait_k_def sync_simps res_simps split: if_splits)
  then show ?case unfolding cint_step by (simp add: algebra_simps)
next
  case (slept t w g ov u)
  then show ?case by (auto simp: sem_wait_k_def sync_simps res_simps split: if_splits)
next
  case (signalled t w g ov)
  then have "sem_value (sem_table (sem_signal_k sid t) (nat sid)) = cint (cint (n + int g - int w) + 1)"
    by (auto simp: sem_signal_k_def sync_simps)
  then show ?case unfolding cint_step by (simp add: algebra_simps)
qed auto

lemma sem_hist_value:
  assumes "sem_hist sid s t w g ov" "0 \<le> sid" "sid < MAXSEM" "sem_value (sem_table s (nat sid)) = n"
    "0 \<le> n" "n \<le> INT_MAX"
  shows "(\<not> ov \<longrightarrow> sem_value (sem_table t (nat sid)) = n + int g - int w \<and>
      int w \<le> n + int g \<and> n + int g - int w \<le> INT_MAX) \<and> (ov \<longrightarrow> INT_MAX < n + int g)"
  using assms
proof (induction rule: sem_hist.induct)
  case (waited t w g ov u)
  then show ?case by (auto simp: sem_wait_k_def sync_simps res_simps split: if_splits)
next
  case (slept t w g ov u)
  then show ?case by (auto simp: sem_wait_k_def sync_simps res_simps split: if_splits)
qed (auto simp: sem_signal_k_def sync_simps)

text \<open>One signal too many turns the value negative, and then no wait blocks any more.\<close>

lemma sem_signal_overflow:
  assumes "0 \<le> sid" "sid < MAXSEM"
  shows "sem_value (sem_table (sem_signal_k sid (sem_init_k sid INT_MAX s)) (nat sid)) = - INT_MAX - 1"
  using assms by (simp add: sem_signal_k_def sem_init_k_def sync_simps cint_def)

text \<open>The history of a reader-writer lock whose users unlock only what they hold: \<open>R\<close> and
  \<open>W\<close> are the processes that hold it for reading and for writing, \<open>Q\<close> the writers that
  have entered and not yet passed.\<close>

inductive rw_hist :: "int \<Rightarrow> sync \<Rightarrow> sync \<Rightarrow> nat set \<Rightarrow> nat set \<Rightarrow> nat set \<Rightarrow> bool" for sid s where
  start: "rw_hist sid s (rw_init_k sid s) {} {} {}"
| rlocked: "rw_hist sid s t R W Q \<Longrightarrow> p \<notin> R \<Longrightarrow> rw_rlock_k sid t = Inr (True, u) \<Longrightarrow>
    rw_hist sid s u (insert p R) W Q"
| rslept: "rw_hist sid s t R W Q \<Longrightarrow> rw_rlock_k sid t = Inr (False, u) \<Longrightarrow> rw_hist sid s u R W Q"
| runlocked: "rw_hist sid s t R W Q \<Longrightarrow> p \<in> R \<Longrightarrow> rw_hist sid s (rw_runlock_k sid t) (R - {p}) W Q"
| entered: "rw_hist sid s t R W Q \<Longrightarrow> p \<notin> Q \<Longrightarrow>
    rw_hist sid s (rw_wlock_enter sid t) R W (insert p Q)"
| wlocked: "rw_hist sid s t R W Q \<Longrightarrow> p \<in> Q \<Longrightarrow> rw_wlock_pass sid t = Inr (True, u) \<Longrightarrow>
    rw_hist sid s u R (insert p W) (Q - {p})"
| wslept: "rw_hist sid s t R W Q \<Longrightarrow> rw_wlock_pass sid t = Inr (False, u) \<Longrightarrow> rw_hist sid s u R W Q"
| wunlocked: "rw_hist sid s t R W Q \<Longrightarrow> p \<in> W \<Longrightarrow> rw_hist sid s (rw_wunlock_k sid t) R (W - {p}) Q"
| sched: "rw_hist sid s t R W Q \<Longrightarrow> rw_hist sid s (t\<lparr>sy_sched := k\<rparr>) R W Q"

definition rw_inv :: "rwlock \<Rightarrow> nat set \<Rightarrow> nat set \<Rightarrow> nat set \<Rightarrow> bool" where
  "rw_inv rw R W Q \<longleftrightarrow> finite R \<and> finite Q \<and> rw_readers rw = int (card R) \<and>
     rw_waiting_writers rw = int (card Q) \<and> (rw_writer rw \<longleftrightarrow> W \<noteq> {}) \<and>
     (W = {} \<or> R = {} \<and> (\<exists>p. W = {p}))"

lemma rw_hist_inv:
  assumes "rw_hist sid s t R W Q" "0 \<le> sid" "sid < MAXRW"
  shows "rw_inv (rw_table t (nat sid)) R W Q"
  using assms
proof (induction rule: rw_hist.induct)
  case (runlocked t R W Q p)
  then have "0 < card R" by (auto simp: rw_inv_def card_gt_0_iff)
  then show ?case using runlocked by (auto simp: rw_runlock_k_def rw_inv_def sync_simps of_nat_diff)
next
  case (wlocked t R W Q p u)
  then have "0 < card Q" by (auto simp: rw_inv_def card_gt_0_iff)
  then show ?case using wlocked
    by (auto simp: rw_wlock_pass_def rw_inv_def sync_simps of_nat_diff res_simps split: if_splits)
qed (auto simp: rw_init_k_def rw_rlock_k_def rw_wlock_enter_def rw_wlock_pass_def rw_wunlock_k_def
    rw_inv_def sync_simps res_simps split: if_splits)

section \<open>Properties\<close>

definition sync_ex :: sync where
  "sync_ex = \<lparr>sy_locks = (\<lambda>_. initsleeplock), sem_table = (\<lambda>_. \<lparr>sem_value = 0\<rparr>),
     rw_table = (\<lambda>_. \<lparr>rw_readers = 0, rw_writer = False, rw_waiting_writers = 0\<rparr>),
     sy_sched = sched_ex\<rparr>"

text \<open>C22.  No wakeup of a semaphore is missed: in every history in which the scheduler runs
  freely, a process that sleeps in \<^verbatim>\<open>sem_wait\<close> does so only while the value is 0.\<close>

theorem sem_sleeper_blocked:
  assumes "0 \<le> sid" "sid < MAXSEM"
    and "sched_inv (sy_sched s)" "sleepers (Ch_sem (nat sid)) (sy_sched s) = {}"
    and "wait_steps (Ch_sem (nat sid)) (sem_exec sid) s pend t pend'"
    and "p \<in> sleepers (Ch_sem (nat sid)) (sy_sched t)"
  shows "sem_value (sem_table t (nat sid)) = 0"
proof -
  have "semw.wait_inv sid s pend" using assms(3,4) by (simp add: semw.wait_inv_def)
  then have "semw.wait_inv sid t pend'" using semw.sleepers_blocked assms(5) by blast
  then obtain op where "sem_blocks sid op t" using assms(6) by (auto simp: semw.wait_inv_def)
  then show ?thesis by (cases op) auto
qed

theorem sem_sleeper_blocked_witness:
  "\<exists>t pend. wait_steps (Ch_sem 3) (sem_exec 3) sync_ex (\<lambda>_. None) t pend \<and>
     1 \<in> sleepers (Ch_sem 3) (sy_sched t) \<and> sem_value (sem_table t 3) = 0"
proof -
  have p: "myproc sched_ex = Some 1" "c_idleproc (s_cpu sched_ex) \<noteq> Some 1"
    by (simp_all add: sched_ex_procs myproc_def)
  let ?u = "upd_proc 1 (\<lambda>x. x\<lparr>p_chan := Some (Ch_sem 3), p_state := SLEEPING\<rparr>) sched_ex"
  obtain k where k: "sleep (Ch_sem 3) sched_ex = Inr k" "dispatched ?u k"
    using sleep_effect(2) [OF sched_ex_inv(1) p] by blast
  let ?t = "sync_ex\<lparr>sy_sched := k\<rparr>"
  have e: "sem_exec 3 SWait sync_ex = Inr (False, ?t)"
    using k(1) by (simp add: sem_wait_k_def sync_sleep_def sync_ex_def)
  have st: "wait_steps (Ch_sem 3) (sem_exec 3) sync_ex (\<lambda>_. None) ?t
      ((\<lambda>_. None)(1 := if False then None else Some SWait))"
    by (rule wait_steps.call [of _ _ _ _ sync_ex "\<lambda>_. None" 1 SWait False ?t], rule wait_steps.nil)
      (use p e in \<open>simp_all add: sync_ex_def\<close>)
  have "rq_abs ?u = rq_abs sched_ex"
    using sched_ex_inv(1) by (intro upd_proc_queue) (auto simp: sched_inv_def ready_inv_def)
  then have "next_proc ?u = Some 0" using top_level_emptyI [of "rq_abs ?u"]
    by (simp add: next_proc_def sched_ex_inv upd_proc_def sched_ex_procs)
  then have "strip (procs k 1) = strip (procs ?u 1)" using k(2) by (simp add: dispatched_def)
  then have s1: "1 \<in> sleepers (Ch_sem 3) (sy_sched ?t)"
    using strip_fields(1,2) [of "procs k 1" "procs ?u 1"] by (simp add: sleepers_def upd_proc_def)
  have "sleepers (Ch_sem (nat 3)) (sy_sched sync_ex) = {}"
    by (auto simp: sleepers_def sync_ex_def sched_ex_procs proc0_def split: if_splits)
  then have "sem_value (sem_table ?t (nat 3)) = 0"
    using sem_sleeper_blocked [of 3 sync_ex "\<lambda>_. None" ?t _ 1] sched_ex_inv(1) st s1
    by (simp add: sync_ex_def)
  then show ?thesis using st s1 by auto
qed

text \<open>C5.  A semaphore initialised to an \<^verbatim>\<open>int\<close> \<open>n\<close> holds, after any history, \<open>n\<close> plus the
  signals minus the waits that went through, wrapped to an \<^verbatim>\<open>int\<close>.  If \<open>n\<close> is not negative and
  no signal came at the largest \<^verbatim>\<open>int\<close>, the value is that difference itself, so at
  most \<open>n\<close> more waits have gone through than there were signals.  A signal at the largest
  \<^verbatim>\<open>int\<close> needs more than \<open>INT_MAX - n\<close> signals.\<close>

theorem semaphore_counts:
  assumes "0 \<le> sid" "sid < MAXSEM" "- INT_MAX - 1 \<le> n" "n \<le> INT_MAX"
    "sem_hist sid (sem_init_k sid n s) t w g ov"
  shows "sem_value (sem_table t (nat sid)) = cint (n + int g - int w) \<and>
    (0 \<le> n \<and> \<not> ov \<longrightarrow> sem_value (sem_table t (nat sid)) = n + int g - int w \<and> int w \<le> n + int g) \<and>
    (0 \<le> n \<and> ov \<longrightarrow> INT_MAX < n + int g)"
proof -
  have i: "sem_value (sem_table (sem_init_k sid n s) (nat sid)) = n"
    using assms(1,2) by (simp add: sem_init_k_def upd_sem_def)
  then have "sem_value (sem_table (sem_init_k sid n s) (nat sid)) = cint n" using assms(3,4) by simp
  from sem_hist_wraps [OF assms(5,1,2) this] sem_hist_value [OF assms(5,1,2) i _ assms(4)]
  show ?thesis by blast
qed

theorem semaphore_counts_witness:
  "\<exists>t. sem_hist 3 (sem_init_k 3 1 sync_ex) t 1 1 False \<and> sem_value (sem_table t 3) = 1"
proof -
  obtain t where "sem_wait_k 3 (sem_init_k 3 1 sync_ex) = Inr (True, t)" "sem_value (sem_table t 3) = 0"
    by (simp add: sem_wait_k_def sem_init_k_def upd_sem_def)
  then have "sem_hist 3 (sem_init_k 3 1 sync_ex) (sem_signal_k 3 t) 1 1 False"
    using sem_hist.signalled [OF sem_hist.waited [OF sem_hist.start], of 3 "sem_init_k 3 1 sync_ex" t] by simp
  then show ?thesis using semaphore_counts [of 3 1 sync_ex _ 1 1 False] by fastforce
qed

text \<open>C6.  Reader-writer locks exclude: while one process holds the lock for writing, no
  other holds it at all; the counters are the numbers of readers and of waiting writers; and
  no reader gets in while a writer waits.\<close>

theorem rwlock_excludes:
  assumes "0 \<le> sid" "sid < MAXRW" "rw_hist sid s t R W Q"
  shows "(W \<noteq> {} \<longrightarrow> R = {} \<and> (\<exists>p. W = {p})) \<and>
    rw_readers (rw_table t (nat sid)) = int (card R) \<and>
    rw_waiting_writers (rw_table t (nat sid)) = int (card Q) \<and>
    (Q \<noteq> {} \<longrightarrow> \<not> (\<exists>u. rw_rlock_k sid t = Inr (True, u)))"
proof -
  have i: "rw_inv (rw_table t (nat sid)) R W Q" using rw_hist_inv [OF assms(3,1,2)] .
  have "Q \<noteq> {} \<Longrightarrow> rw_waiting_writers (rw_table t (nat sid)) > 0"
    using i by (simp add: rw_inv_def card_gt_0_iff)
  then show ?thesis using i assms(1,2)
    by (auto simp: rw_inv_def rw_rlock_k_def sync_simps res_simps)
qed

theorem rwlock_excludes_witness:
  "\<exists>t. rw_hist 5 sync_ex t {} {7} {8} \<and> rw_readers (rw_table t 5) = 0 \<and>
     rw_waiting_writers (rw_table t 5) = 1 \<and> \<not> (\<exists>u. rw_rlock_k 5 t = Inr (True, u))"
proof -
  let ?s = "rw_wlock_enter 5 (rw_init_k 5 sync_ex)"
  obtain t where t: "rw_wlock_pass 5 ?s = Inr (True, t)"
    by (simp add: rw_wlock_pass_def rw_wlock_enter_def rw_init_k_def sync_simps)
  have "rw_hist 5 sync_ex ?s {} {} {7}" using rw_hist.entered [OF rw_hist.start, of 7] by simp
  from rw_hist.wlocked [OF this _ t, of 7] have "rw_hist 5 sync_ex t {} {7} {}" by simp
  from rw_hist.entered [OF this, of 8] have "rw_hist 5 sync_ex (rw_wlock_enter 5 t) {} {7} {8}" by simp
  then show ?thesis using rwlock_excludes [of 5 sync_ex _ "{}" "{7}" "{8}"] by fastforce
qed

end
