(* ===== verification/Mem.thy ===== *)
theory Mem
  imports Prelude
begin

text \<open>
  Byte-addressed physical memory and \<^verbatim>\<open>kernel/string.c\<close>.  Memory is a total function
  from 64-bit addresses to bytes; pointers are 64-bit words and pointer arithmetic wraps.
  Each C loop is a recursion on the number of iterations that are left.  The 64-bit loads
  and stores are little-endian, as on RISC-V.
\<close>

type_synonym mem = "u64 \<Rightarrow> byte"

section \<open>Operations\<close>

fun memset_loop :: "u64 \<Rightarrow> byte \<Rightarrow> nat \<Rightarrow> nat \<Rightarrow> mem \<Rightarrow> mem" where
  "memset_loop dst c i 0 m = m"
| "memset_loop dst c i (Suc k) m = memset_loop dst c (i + 1) k (m(dst + of_nat i := c))"

definition memset :: "u64 \<Rightarrow> int \<Rightarrow> u32 \<Rightarrow> mem \<Rightarrow> mem" where
  "memset dst c n m = memset_loop dst (word_of_int c) 0 (unat n) m"

fun memcmp_loop :: "mem \<Rightarrow> u64 \<Rightarrow> u64 \<Rightarrow> nat \<Rightarrow> int" where
  "memcmp_loop m s1 s2 0 = 0"
| "memcmp_loop m s1 s2 (Suc k) =
     (if m s1 \<noteq> m s2 then uint (m s1) - uint (m s2) else memcmp_loop m (s1 + 1) (s2 + 1) k)"

definition memcmp :: "u64 \<Rightarrow> u64 \<Rightarrow> u32 \<Rightarrow> mem \<Rightarrow> int" where
  "memcmp v1 v2 n m = memcmp_loop m v1 v2 (unat n)"

fun copy_fwd :: "u64 \<Rightarrow> u64 \<Rightarrow> nat \<Rightarrow> mem \<Rightarrow> mem" where
  "copy_fwd d s 0 m = m"
| "copy_fwd d s (Suc k) m = copy_fwd (d + 1) (s + 1) k (m(d := m s))"

fun copy_bwd :: "u64 \<Rightarrow> u64 \<Rightarrow> nat \<Rightarrow> mem \<Rightarrow> mem" where
  "copy_bwd d s 0 m = m"
| "copy_bwd d s (Suc k) m = copy_bwd (d - 1) (s - 1) k (m(d - 1 := m (s - 1)))"

definition memmove :: "u64 \<Rightarrow> u64 \<Rightarrow> u32 \<Rightarrow> mem \<Rightarrow> mem" where
  "memmove dst src n m =
     (if n = 0 then m
      else if src < dst \<and> src + ucast n > dst
           then copy_bwd (dst + ucast n) (src + ucast n) (unat n) m
           else copy_fwd dst src (unat n) m)"

definition memcpy :: "u64 \<Rightarrow> u64 \<Rightarrow> u32 \<Rightarrow> mem \<Rightarrow> mem" where
  "memcpy dst src n m = memmove dst src n m"

fun strncmp_loop :: "mem \<Rightarrow> u64 \<Rightarrow> u64 \<Rightarrow> nat \<Rightarrow> int" where
  "strncmp_loop m p q 0 = 0"
| "strncmp_loop m p q (Suc k) =
     (if m p \<noteq> 0 \<and> m p = m q then strncmp_loop m (p + 1) (q + 1) k
      else uint (m p) - uint (m q))"

definition strncmp :: "u64 \<Rightarrow> u64 \<Rightarrow> u32 \<Rightarrow> mem \<Rightarrow> int" where
  "strncmp p q n m = strncmp_loop m p q (unat n)"

fun zero_fill :: "u64 \<Rightarrow> nat \<Rightarrow> mem \<Rightarrow> mem" where
  "zero_fill s 0 m = m"
| "zero_fill s (Suc k) m = zero_fill (s + 1) k (m(s := 0))"

fun strncpy_loop :: "u64 \<Rightarrow> u64 \<Rightarrow> nat \<Rightarrow> mem \<Rightarrow> mem" where
  "strncpy_loop s t 0 m = m"
| "strncpy_loop s t (Suc k) m =
     (let c = m t; m = m(s := c)
      in if c \<noteq> 0 then strncpy_loop (s + 1) (t + 1) k m else zero_fill (s + 1) k m)"

definition strncpy :: "u64 \<Rightarrow> u64 \<Rightarrow> int \<Rightarrow> mem \<Rightarrow> mem" where
  "strncpy s t n m = strncpy_loop s t (nat n) m"

fun safestrcpy_loop :: "u64 \<Rightarrow> u64 \<Rightarrow> nat \<Rightarrow> mem \<Rightarrow> mem" where
  "safestrcpy_loop s t 0 m = m(s := 0)"
| "safestrcpy_loop s t (Suc k) m =
     (let c = m t; m = m(s := c)
      in if c \<noteq> 0 then safestrcpy_loop (s + 1) (t + 1) k m else m(s + 1 := 0))"

definition safestrcpy :: "u64 \<Rightarrow> u64 \<Rightarrow> int \<Rightarrow> mem \<Rightarrow> mem" where
  "safestrcpy s t n m = (if n \<le> 0 then m else safestrcpy_loop s t (nat n - 1) m)"

partial_function (option) strlen_loop :: "mem \<Rightarrow> u64 \<Rightarrow> nat \<Rightarrow> nat option" where
  "strlen_loop m s n = (if m (s + of_nat n) \<noteq> 0 then strlen_loop m s (n + 1) else Some n)"

definition strlen :: "u64 \<Rightarrow> mem \<Rightarrow> nat option" where
  "strlen s m = strlen_loop m s 0"

section \<open>Reading blocks of memory\<close>

definition bytes :: "mem \<Rightarrow> u64 \<Rightarrow> nat \<Rightarrow> byte list" where
  "bytes m a n = map (\<lambda>i. m (a + of_nat i)) [0..<n]"

definition write_bytes :: "u64 \<Rightarrow> byte list \<Rightarrow> mem \<Rightarrow> mem" where
  "write_bytes a bs m =
     (\<lambda>x. if unat (x - a) < length bs then bs ! unat (x - a) else m x)"

definition cstr :: "mem \<Rightarrow> u64 \<Rightarrow> nat \<Rightarrow> byte list" where
  "cstr m a n = takeWhile (\<lambda>b. b \<noteq> 0) (bytes m a n)"

text \<open>Little-endian conversion between words and their bytes.\<close>

fun le_word :: "byte list \<Rightarrow> 'a :: len word" where
  "le_word [] = 0"
| "le_word (b # bs) = ucast b OR push_bit 8 (le_word bs)"

definition le_bytes :: "nat \<Rightarrow> 'a :: len word \<Rightarrow> byte list" where
  "le_bytes k v = map (\<lambda>i. ucast (drop_bit (8 * i) v)) [0..<k]"

definition load64 :: "mem \<Rightarrow> u64 \<Rightarrow> u64" where
  "load64 m a = le_word (bytes m a 8)"

definition store64 :: "u64 \<Rightarrow> u64 \<Rightarrow> mem \<Rightarrow> mem" where
  "store64 a v m = write_bytes a (le_bytes 8 v) m"

section \<open>Word offsets\<close>

lemma unat_u64: "unat (x :: u64) < 18446744073709551616"
  using unsigned_less [where ?'a = nat, of x] by simp

lemma unat_u32: "unat (x :: u32) < 4294967296"
  using unsigned_less [where ?'a = nat, of x] by simp

lemma word_off:
  assumes "i < 2 ^ 64"
  shows "a = d + of_nat i \<longleftrightarrow> unat (a - d :: u64) = i"
proof
  assume "a = d + of_nat i"
  then show "unat (a - d) = i" using assms by (simp add: unat_of_nat)
next
  assume "unat (a - d) = i"
  then have "of_nat i = a - d" by auto
  then show "a = d + of_nat i" by simp
qed

lemma unat_off_suc: "unat (a - (d + 1) :: u64) = (if a = d then 2 ^ 64 - 1 else unat (a - d) - 1)"
proof (cases "a = d")
  case True
  then have "a - (d + 1) = - 1" by simp
  then show ?thesis using True by (simp add: unsigned_minus_1_eq_mask mask_eq_exp_minus_1)
next
  case False
  then have "unat (a - d - 1) = unat (a - d) - 1" by (intro unat_minus_one) simp
  then show ?thesis using False by (simp only: diff_diff_eq [symmetric] if_False)
qed

section \<open>What the loops compute\<close>

lemma memset_loop_apply:
  "i + k \<le> 2 ^ 64 \<Longrightarrow> memset_loop d c i k m a
     = (if i \<le> unat (a - d) \<and> unat (a - d) < i + k then c else m a)"
proof (induction k arbitrary: i m)
  case 0
  then show ?case by auto
next
  case (Suc k)
  have "a = d + of_nat i \<longleftrightarrow> unat (a - d) = i" using Suc.prems by (intro word_off) simp
  then show ?case using Suc by auto
qed

lemma memset_apply: "memset d c n m a = (if unat (a - d) < unat n then word_of_int c else m a)"
proof -
  have "unat n \<le> 18446744073709551616" using unat_u32 [of n] by linarith
  then show ?thesis by (simp add: memset_def memset_loop_apply)
qed

text \<open>Copying upwards is right unless the destination starts inside the source; copying
  downwards unless the source starts inside the destination.\<close>

lemma copy_fwd_apply:
  "k \<le> 2 ^ 64 \<Longrightarrow> \<not> (0 < unat (d - s) \<and> unat (d - s) < k) \<Longrightarrow>
   copy_fwd d s k m a = (if unat (a - d) < k then m (s + (a - d)) else m a)"
proof (induction k arbitrary: d s m)
  case 0
  then show ?case by simp
next
  case (Suc k)
  let ?m = "m(d := m s)"
  have "copy_fwd (d + 1) (s + 1) k ?m a
      = (if unat (a - (d + 1)) < k then ?m (s + 1 + (a - (d + 1))) else ?m a)"
    using Suc.prems by (intro Suc.IH) auto
  moreover have "s + 1 + (a - (d + 1)) = s + (a - d)" by simp
  moreover have "s + (a - d) \<noteq> d" if "a \<noteq> d" "unat (a - d) < Suc k"
  proof
    assume "s + (a - d) = d"
    then have "d - s = a - d" by (metis add_diff_cancel_left')
    then have "unat (d - s) = unat (a - d)" by (rule arg_cong)
    then show False using that Suc.prems(2) by (auto simp: unat_gt_0)
  qed
  moreover have "a \<noteq> d \<Longrightarrow> 0 < unat (a - d)" by (simp add: unat_gt_0)
  ultimately show ?case using Suc.prems(1) unfolding copy_fwd.simps unat_off_suc
    by (cases "a = d") auto
qed

lemma copy_bwd_apply:
  "k \<le> 2 ^ 64 \<Longrightarrow> \<not> (0 < unat (s - d) \<and> unat (s - d) < k) \<Longrightarrow>
   copy_bwd (d + of_nat k) (s + of_nat k) k m a
     = (if unat (a - d) < k then m (s + (a - d)) else m a)"
proof (induction k arbitrary: m)
  case 0
  then show ?case by simp
next
  case (Suc k)
  let ?m = "m(d + of_nat k := m (s + of_nat k))"
  have e: "a = d + of_nat k \<longleftrightarrow> unat (a - d) = k" using Suc.prems(1) by (intro word_off) simp
  have "copy_bwd (d + of_nat k) (s + of_nat k) k ?m a
      = (if unat (a - d) < k then ?m (s + (a - d)) else ?m a)"
    using Suc.prems by (intro Suc.IH) auto
  moreover have "s + (a - d) \<noteq> d + of_nat k" if "unat (a - d) < k"
  proof
    assume "s + (a - d) = d + of_nat k"
    then have "s - d = of_nat k - (a - d)" by (simp add: algebra_simps)
    also have "\<dots> = of_nat (k - unat (a - d))" using that by (simp add: of_nat_diff)
    finally have "unat (s - d) = k - unat (a - d)"
      using Suc.prems(1) by (simp add: unat_of_nat take_bit_nat_eq_self)
    then show False using that Suc.prems(2) by auto
  qed
  ultimately show ?case using e by (auto simp: less_Suc_eq)
qed

lemma unat_ucast32 [simp]: "unat (ucast (n :: u32) :: u64) = unat n"
proof -
  have "unat n < 2 ^ 64" using unat_u32 [of n] by simp
  then show ?thesis by (simp add: unsigned_ucast_eq take_bit_nat_eq_self)
qed

lemma ucast_of_nat: "(ucast (n :: u32) :: u64) = of_nat (unat n)"
  by simp

lemma memmove_apply:
  assumes "unat src + unat n < 2 ^ 64"
  shows "memmove dst src n m a = (if unat (a - dst) < unat n then m (src + (a - dst)) else m a)"
proof -
  have k: "unat n \<le> 2 ^ 64" using unat_u32 [of n] by simp
  consider "n = 0" | "n \<noteq> 0" "src < dst" "src + ucast n > dst" | "n \<noteq> 0" "\<not> (src < dst \<and> src + ucast n > dst)"
    by blast
  then show ?thesis
  proof cases
    case 1
    then show ?thesis by (simp add: memmove_def)
  next
    case 2
    have "\<not> (0 < unat (src - dst) \<and> unat (src - dst) < unat n)"
      using 2(2,3) unat_u32 [of n] unat_u64 [of src] unat_u64 [of dst] assms
      by (auto simp: unat_sub_if' word_less_nat_alt unat_plus_if' split: if_splits)
    then show ?thesis using copy_bwd_apply [OF k, of src dst m a] 2
      by (simp add: memmove_def)
  next
    case 3
    have "\<not> (0 < unat (dst - src) \<and> unat (dst - src) < unat n)"
      using 3(2) unat_u32 [of n] unat_u64 [of src] unat_u64 [of dst] assms
      by (auto simp: unat_sub_if' word_less_nat_alt unat_plus_if' split: if_splits)
    then show ?thesis using copy_fwd_apply [OF k, of dst src m a] 3(1)
      unfolding memmove_def if_not_P [OF 3(2)] by simp
  qed
qed

lemma bytes_simps [simp]: "length (bytes m a n) = n" "bytes m a 0 = []"
  by (simp_all add: bytes_def)

lemma bytes_nth [simp]: "i < n \<Longrightarrow> bytes m a n ! i = m (a + of_nat i)"
  by (simp add: bytes_def)

lemma bytes_Suc: "bytes m a (Suc n) = m a # bytes m (a + 1) n"
  by (rule nth_equalityI) (auto simp: nth_Cons algebra_simps split: nat.split)

lemma bytes_write_bytes:
  "length bs \<le> 2 ^ 64 \<Longrightarrow> bytes (write_bytes a bs m) a (length bs) = bs"
  by (rule nth_equalityI) (auto simp: write_bytes_def unat_of_nat)

lemma cstr_Suc: "cstr m a (Suc n) = (if m a = 0 then [] else m a # cstr m (a + 1) n)"
  by (simp add: cstr_def bytes_Suc)

lemma cstr_0 [simp]: "cstr m a 0 = []"
  by (simp add: cstr_def)

lemma strncmp_loop_0_iff: "strncmp_loop m p q n = 0 \<longleftrightarrow> cstr m p n = cstr m q n"
  by (induction n arbitrary: p q) (auto simp: cstr_Suc word_uint_eq_iff)

lemma memcmp_loop_0_iff: "memcmp_loop m p q n = 0 \<longleftrightarrow> bytes m p n = bytes m q n"
  by (induction n arbitrary: p q) (auto simp: bytes_Suc word_uint_eq_iff)

section \<open>Every operation as one block write\<close>

lemma write_bytes_Nil [simp]: "write_bytes a [] m = m"
  by (simp add: write_bytes_def)

lemma write_bytes_Cons:
  assumes "length bs < 2 ^ 64"
  shows "write_bytes a (b # bs) m = write_bytes (a + 1) bs (m(a := b))"
proof
  fix x
  have "x \<noteq> a \<Longrightarrow> 0 < unat (x - a)" by (simp add: unat_gt_0)
  then show "write_bytes a (b # bs) m x = write_bytes (a + 1) bs (m(a := b)) x"
    unfolding write_bytes_def unat_off_suc using assms
    by (cases "x = a") (auto simp: nth_Cons split: nat.split)
qed

lemma zero_fill_write: "k \<le> 2 ^ 64 \<Longrightarrow> zero_fill s k m = write_bytes s (replicate k 0) m"
  by (induction k arbitrary: s m) (simp_all add: write_bytes_Cons)

lemma memset_write: "memset d c n m = write_bytes d (replicate (unat n) (word_of_int c)) m"
  by (rule ext) (simp add: memset_apply write_bytes_def)

lemma memmove_write:
  "unat src + unat n < 2 ^ 64 \<Longrightarrow> memmove dst src n m = write_bytes dst (bytes m src (unat n)) m"
  by (rule ext) (simp add: memmove_apply write_bytes_def)

text \<open>Two blocks of \<open>k\<close> bytes that have no byte in common.\<close>

definition apart :: "u64 \<Rightarrow> u64 \<Rightarrow> nat \<Rightarrow> bool" where
  "apart s t k \<longleftrightarrow> k \<le> unat (t - s) \<and> k \<le> unat (s - t)"

lemma apart_Suc: "apart s t (Suc k) \<Longrightarrow> apart (s + 1) (t + 1) k"
  by (simp add: apart_def)

lemma bytes_upd_other:
  assumes "k \<le> unat (s - t)"
  shows "bytes (m(s := c)) t k = bytes m t k"
proof (rule nth_equalityI)
  fix i
  assume "i < length (bytes (m(s := c)) t k)"
  then have i: "i < k" by simp
  then have "i < 2 ^ 64" using assms unat_u64 [of "s - t"] by simp
  then have "s \<noteq> t + of_nat i" using word_off [of i s t] i assms by simp
  then show "bytes (m(s := c)) t k ! i = bytes m t k ! i" using i by simp
qed simp

lemma cstr_upd_other: "k \<le> unat (s - t) \<Longrightarrow> cstr (m(s := c)) t k = cstr m t k"
  by (simp add: cstr_def bytes_upd_other)

lemma cstr_length: "length (cstr m t k) \<le> k"
  unfolding cstr_def by (metis bytes_simps(1) length_takeWhile_le)

lemma apart_tail: "apart s t (Suc k) \<Longrightarrow> k \<le> unat (s - (t + 1))"
  by (auto simp: apart_def unat_off_suc)

definition pad0 :: "nat \<Rightarrow> byte list \<Rightarrow> byte list" where
  "pad0 k bs = bs @ replicate (k - length bs) 0"

lemma strncpy_loop_write:
  "apart s t k \<Longrightarrow> strncpy_loop s t k m = write_bytes s (pad0 k (cstr m t k)) m"
proof (induction k arbitrary: s t m)
  case 0
  then show ?case by (simp add: pad0_def)
next
  case (Suc k)
  let ?c = "m t"
  have k: "k < 2 ^ 64" using Suc.prems unat_u64 [of "s - t"] by (simp add: apart_def)
  have l: "length (pad0 k (cstr m (t + 1) k)) < 2 ^ 64"
    using k cstr_length [of m "t + 1" k] by (simp add: pad0_def)
  have "cstr (m(s := ?c)) (t + 1) k = cstr m (t + 1) k"
    using apart_tail [OF Suc.prems] by (rule cstr_upd_other)
  with Suc.IH [OF apart_Suc [OF Suc.prems]] have "strncpy_loop (s + 1) (t + 1) k (m(s := ?c))
      = write_bytes (s + 1) (pad0 k (cstr m (t + 1) k)) (m(s := ?c))"
    by (simp only:)
  then show ?case using k l
    by (simp add: Let_def cstr_Suc pad0_def write_bytes_Cons zero_fill_write)
qed

lemma safestrcpy_loop_write:
  "apart s t k \<Longrightarrow> k < 2 ^ 63 \<Longrightarrow> safestrcpy_loop s t k m
     = write_bytes s (cstr m t k @ (if length (cstr m t k) < k then [0, 0] else [0])) m"
proof (induction k arbitrary: s t m)
  case 0
  then show ?case by (simp add: write_bytes_Cons)
next
  case (Suc k)
  let ?c = "m t"
  have l: "length (cstr m (t + 1) k) < 2 ^ 63" using Suc.prems cstr_length [of m "t + 1" k] by simp
  have c: "cstr (m(s := ?c)) (t + 1) k = cstr m (t + 1) k"
    using apart_tail [OF Suc.prems(1)] by (rule cstr_upd_other)
  have "k < 2 ^ 63" using Suc.prems(2) by simp
  from Suc.IH [OF apart_Suc [OF Suc.prems(1)] this, of "m(s := ?c)"]
  have "safestrcpy_loop (s + 1) (t + 1) k (m(s := ?c)) = write_bytes (s + 1)
      (cstr m (t + 1) k @ (if length (cstr m (t + 1) k) < k then [0, 0] else [0])) (m(s := ?c))"
    unfolding c .
  then show ?case using l by (auto simp: Let_def cstr_Suc write_bytes_Cons fun_eq_iff)
qed

lemma strlen_loop_first:
  assumes "m (s + of_nat n) = 0" "\<And>i. i < n \<Longrightarrow> m (s + of_nat i) \<noteq> 0" "j \<le> n"
  shows "strlen_loop m s j = Some n"
  using assms(3)
proof (induction "n - j" arbitrary: j)
  case 0
  then show ?case using assms(1) by (subst strlen_loop.simps) simp
next
  case (Suc d)
  then have "j < n" by simp
  then have "m (s + of_nat j) \<noteq> 0" by (rule assms(2))
  then show ?case using Suc by (subst strlen_loop.simps) simp
qed

section \<open>Words in memory\<close>

lemma bit_le_word:
  "bit (le_word bs :: 'a :: len word) n \<longleftrightarrow>
     n < LENGTH('a) \<and> n div 8 < length bs \<and> bit (bs ! (n div 8)) (n mod 8)"
proof (induction bs arbitrary: n)
  case Nil
  then show ?case by simp
next
  case (Cons b bs)
  show ?case
  proof (cases "n < 8")
    case True
    then show ?thesis by (auto simp: bit_simps)
  next
    case False
    then obtain j where "n = 8 + j" using le_Suc_ex [of 8 n] by auto
    then have "n div 8 = Suc ((n - 8) div 8)" "n mod 8 = (n - 8) mod 8" by simp_all
    moreover have "\<not> bit b n" using False bit_imp_le_length [of b n] by auto
    ultimately show ?thesis using False Cons.IH [of "n - 8"] by (auto simp: bit_simps)
  qed
qed

lemma le_bytes_length [simp]: "length (le_bytes k v) = k"
  by (simp add: le_bytes_def)

lemma le_word_bytes:
  assumes "LENGTH('a) \<le> 8 * k"
  shows "le_word (le_bytes k (v :: 'a :: len word)) = v"
proof (rule bit_word_eqI)
  fix n
  assume n: "n < LENGTH('a)"
  then have "n div 8 < k" using assms by linarith
  then show "bit (le_word (le_bytes k v) :: 'a word) n = bit v n"
    using n by (simp add: bit_le_word le_bytes_def bit_simps)
qed

lemma load_store64 [simp]: "load64 (store64 a v m) a = v"
  using bytes_write_bytes [of "le_bytes 8 v" a m] by (simp add: load64_def store64_def le_word_bytes)

lemma bytes_write_other:
  assumes "length bs \<le> unat (b - a)" "k \<le> unat (a - b)"
  shows "bytes (write_bytes a bs m) b k = bytes m b k"
proof (rule nth_equalityI)
  fix i
  assume "i < length (bytes (write_bytes a bs m) b k)"
  then have i: "i < k" by simp
  have e: "b + of_nat i - a = (b - a) + of_nat i" by simp
  have "unat (b - a) + i < 2 ^ 64"
    using i assms unat_u64 [of a] unat_u64 [of b] by (auto simp: unat_sub_if' split: if_splits)
  then have "unat (b + of_nat i - a) = unat (b - a) + i"
    unfolding e by (simp add: unat_word_ariths(1) unat_of_nat)
  then have "\<not> unat (b + of_nat i - a) < length bs" using assms(1) by simp
  then show "bytes (write_bytes a bs m) b k ! i = bytes m b k ! i"
    using i by (simp add: write_bytes_def)
qed simp

section \<open>Properties\<close>

lemma bytes_write_prefix:
  "n \<le> length bs \<Longrightarrow> length bs \<le> 2 ^ 64 \<Longrightarrow> bytes (write_bytes a bs m) a n = take n bs"
  by (rule nth_equalityI) (auto simp: write_bytes_def unat_of_nat)

lemma cstr_write:
  assumes "0 \<notin> set bs" "length bs + length zs \<le> 2 ^ 63" "length bs < n"
  shows "cstr (write_bytes a (bs @ 0 # zs) m) a n = bs"
proof -
  let ?w = "write_bytes a (bs @ 0 # zs) m"
  have l: "length (bs @ 0 # zs) \<le> 2 ^ 64" using assms(2) by simp
  have "bytes ?w a n = bytes ?w a (length bs + 1) @ drop (length bs + 1) (bytes ?w a n)"
    using assms(3) by (intro nth_equalityI) (auto simp: nth_append)
  moreover have "bytes ?w a (length bs + 1) = bs @ [0]"
    using bytes_write_prefix [of "length bs + 1" "bs @ 0 # zs" a m] l by simp
  ultimately have "cstr ?w a n = takeWhile (\<lambda>b. b \<noteq> 0) (bs @ 0 # drop (length bs + 1) (bytes ?w a n))"
    unfolding cstr_def by simp
  then show ?thesis using assms(1) by (simp add: takeWhile_append)
qed

lemma cstr_nonzero: "0 \<notin> set (cstr m a n)"
  unfolding cstr_def by (auto dest: set_takeWhileD)

text \<open>C23.  \<^verbatim>\<open>memmove\<close> copies: whether or not the two blocks overlap, the destination ends up
  with the bytes the source had before the call, and no other byte of memory changes.\<close>

theorem memmove_copies:
  assumes "unat src + unat n < 2 ^ 64"
  shows "bytes (memmove dst src n m) dst (unat n) = bytes m src (unat n) \<and>
    (\<forall>a. unat n \<le> unat (a - dst) \<longrightarrow> memmove dst src n m a = m a)"
proof -
  have "bytes (write_bytes dst (bytes m src (unat n)) m) dst (unat n) = bytes m src (unat n)"
    using bytes_write_bytes [of "bytes m src (unat n)" dst m] unat_u32 [of n] by simp
  then show ?thesis
    using assms memmove_write [OF assms] by (simp add: write_bytes_def)
qed

theorem memmove_copies_witness:
  "bytes (memmove 11 10 3 (\<lambda>a. ucast a)) 11 3 = [10, 11, 12]"
proof -
  have "bytes (\<lambda>a. ucast a) 10 3 = [10, 11, 12]" by (simp add: bytes_def upt_rec)
  then show ?thesis using memmove_copies [of 10 3 11 "\<lambda>a. ucast a"] by simp
qed

text \<open> \<^verbatim>\<open>safestrcpy\<close> stays inside its buffer of \<open>n\<close> bytes, always leaves a terminated
  string there, and that string is the source cut to \<open>n - 1\<close> bytes; \<^verbatim>\<open>strlen\<close> of the
  result returns its length.\<close>

theorem safestrcpy_terminated:
  assumes "0 < n" "n < 2 ^ 63" "apart s t (nat n)"
  shows "cstr (safestrcpy s t n m) s (nat n) = cstr m t (nat n - 1) \<and>
    length (cstr m t (nat n - 1)) < nat n \<and>
    strlen s (safestrcpy s t n m) = Some (length (cstr m t (nat n - 1))) \<and>
    (\<forall>a. nat n \<le> unat (a - s) \<longrightarrow> safestrcpy s t n m a = m a)"
proof -
  let ?c = "cstr m t (nat n - 1)"
  let ?z = "if length ?c < nat n - 1 then [0] else []"
  let ?m = "safestrcpy s t n m"
  have l: "length ?c \<le> nat n - 1" by (rule cstr_length)
  then have ln: "length ?c < nat n" using assms(1) by linarith
  have k: "nat n - 1 < 2 ^ 63" using assms(2) by (simp add: nat_less_iff)
  have "apart s t (nat n - 1)" using assms(3) by (auto simp: apart_def)
  then have m: "?m = write_bytes s (?c @ 0 # ?z) m"
    using safestrcpy_loop_write [of s t "nat n - 1" m] k assms(1)
    by (cases "length ?c < nat n - 1") (simp_all add: safestrcpy_def)
  have c: "cstr ?m s (nat n) = ?c"
    unfolding m using cstr_nonzero l k ln by (intro cstr_write) auto
  have b: "bytes ?m s (length ?c + 1) = ?c @ [0]"
    unfolding m using bytes_write_prefix [of "length ?c + 1" "?c @ 0 # ?z" s m] l k by auto
  have at: "?m (s + of_nat i) = (?c @ [0]) ! i" if "i \<le> length ?c" for i
    using that arg_cong [OF b, of "\<lambda>xs. xs ! i"] by simp
  have "?m (s + of_nat i) \<noteq> 0" if "i < length ?c" for i
    using at [of i] that cstr_nonzero [of m t "nat n - 1"]
    by (metis less_imp_le nth_append nth_mem)
  then have "strlen s ?m = Some (length ?c)"
    unfolding strlen_def using at [of "length ?c"] by (intro strlen_loop_first) auto
  moreover have "?m a = m a" if "nat n \<le> unat (a - s)" for a
    unfolding m write_bytes_def using that l assms(1) by auto
  ultimately show ?thesis using c ln by blast
qed

theorem safestrcpy_terminated_witness:
  "strlen 100 (safestrcpy 100 200 4 (\<lambda>a. ucast (a - 100))) = Some 3"
proof -
  have "apart 100 200 (nat 4)" by (simp add: apart_def)
  moreover have "cstr (\<lambda>a. ucast (a - 100)) 200 (nat 4 - 1) = [100, 101, 102]"
    by (simp add: cstr_def bytes_def upt_rec)
  ultimately show ?thesis
    using safestrcpy_terminated [of 4 100 200 "\<lambda>a. ucast (a - 100)"] by simp
qed

end
