(* ===== verification/Kalloc.thy ===== *)
theory Kalloc
  imports Mem
begin

text \<open>
  The physical page allocator, \<^verbatim>\<open>kernel/kalloc.c\<close>: the free list is threaded through
  the free pages themselves.  The address \<open>kend\<close> of the linker symbol \<^verbatim>\<open>end\<close>, the
  first address after the kernel, is a parameter.  \<^verbatim>\<open>kmem.lock\<close> makes each list update
  one step; filling a page with junk touches only that page.
\<close>

section \<open>Operations\<close>

abbreviation (input) PGSIZE :: u64 where "PGSIZE \<equiv> 4096"
abbreviation (input) KERNBASE :: u64 where "KERNBASE \<equiv> 0x80000000"
abbreviation (input) PHYSTOP :: u64 where "PHYSTOP \<equiv> 0x88000000"

definition PGROUNDUP :: "u64 \<Rightarrow> u64" where
  "PGROUNDUP sz = (sz + PGSIZE - 1) AND NOT (PGSIZE - 1)"

definition PGROUNDDOWN :: "u64 \<Rightarrow> u64" where
  "PGROUNDDOWN a = a AND NOT (PGSIZE - 1)"

record phys =
  pmem :: mem
  freelist :: u64

definition kfree :: "u64 \<Rightarrow> u64 \<Rightarrow> phys \<Rightarrow> phys res" where
  "kfree kend pa s =
     (if pa mod PGSIZE \<noteq> 0 \<or> pa < kend \<or> pa \<ge> PHYSTOP then Inl (Panic ''kfree'')
      else let m = memset pa 1 4096 (pmem s);
               m = store64 pa (freelist s) m
           in Inr (s\<lparr>pmem := m, freelist := pa\<rparr>))"

definition kalloc :: "phys \<Rightarrow> u64 \<times> phys" where
  "kalloc s =
     (let r = freelist s;
          s = (if r \<noteq> 0 then s\<lparr>freelist := load64 (pmem s) r\<rparr> else s);
          s = (if r \<noteq> 0 then s\<lparr>pmem := memset r 5 4096 (pmem s)\<rparr> else s)
      in (r, s))"

partial_function (option) freerange_loop :: "u64 \<Rightarrow> u64 \<Rightarrow> u64 \<Rightarrow> phys \<Rightarrow> phys res option" where
  "freerange_loop kend p pa_end s =
     (if p + PGSIZE \<le> pa_end
      then case kfree kend p s of
             Inl e \<Rightarrow> Some (Inl e)
           | Inr s \<Rightarrow> freerange_loop kend (p + PGSIZE) pa_end s
      else Some (Inr s))"

definition freerange :: "u64 \<Rightarrow> u64 \<Rightarrow> u64 \<Rightarrow> phys \<Rightarrow> phys res" where
  "freerange kend pa_start pa_end s = of_loop (freerange_loop kend (PGROUNDUP pa_start) pa_end s)"

definition kinit :: "u64 \<Rightarrow> phys \<Rightarrow> phys res" where
  "kinit kend s = freerange kend kend PHYSTOP s"

section \<open>Pages\<close>

definition page_ok :: "u64 \<Rightarrow> u64 \<Rightarrow> bool" where
  "page_ok kend a \<longleftrightarrow> a mod PGSIZE = 0 \<and> kend \<le> a \<and> a < PHYSTOP"

text \<open>The address \<open>a\<close> lies in the page that starts at \<open>x\<close>.\<close>

definition in_page :: "u64 \<Rightarrow> u64 \<Rightarrow> bool" where
  "in_page a x \<longleftrightarrow> unat (a - x) < 4096"

lemma page_unat: "x mod PGSIZE = 0 \<longleftrightarrow> 4096 dvd unat (x :: u64)"
  by (simp add: word_unat_eq_iff unat_mod_distrib dvd_eq_mod_eq_0)

lemma pages_apart:
  assumes "x mod PGSIZE = 0" "y mod PGSIZE = 0" "x \<noteq> (y :: u64)"
  shows "4096 \<le> unat (x - y)"
proof -
  have "4096 dvd unat x" "4096 dvd unat y" using assms by (simp_all add: page_unat)
  moreover have "unat x \<noteq> unat y" using assms(3) by (simp add: word_unat_eq_iff)
  ultimately have "4096 dvd unat (x - y)" "unat (x - y) \<noteq> 0"
    using unat_u64 [of y] assms(3) by (auto simp: unat_sub_if' dvd_diff_nat)
  then show ?thesis by (auto dest: dvd_imp_le)
qed

lemma unat_sub_sum: "x \<noteq> y \<Longrightarrow> unat (x - y) + unat (y - x :: u64) = 2 ^ 64"
  using unat_u64 [of x] unat_u64 [of y]
  by (auto simp: unat_sub_if' word_unat_eq_iff split: if_splits)

lemma page_disjoint:
  assumes "x mod PGSIZE = 0" "y mod PGSIZE = 0" "x \<noteq> y" "in_page a x"
  shows "\<not> in_page a y"
proof -
  have le: "4096 \<le> unat (x - y)" "4096 \<le> unat (y - x)" using assms(1-3) pages_apart by auto
  moreover have "unat (x - y) + unat (y - x) = 2 ^ 64" using assms(3) by (rule unat_sub_sum)
  moreover have "unat (a - x) < 4096" using assms(4) by (simp add: in_page_def)
  ultimately have "unat (a - x) + unat (x - y) < 2 ^ 64" by linarith
  then have "unat (a - y) = unat (a - x) + unat (x - y)"
    using unat_add_lem [of "a - x" "x - y"] by simp
  then show ?thesis using le(1) by (simp add: in_page_def)
qed

definition same_page :: "mem \<Rightarrow> mem \<Rightarrow> u64 \<Rightarrow> bool" where
  "same_page m m' x \<longleftrightarrow> (\<forall>a. in_page a x \<longrightarrow> m' a = m a)"

lemma load64_cong: "(\<And>i. i < 8 \<Longrightarrow> m (a + of_nat i) = m' (a + of_nat i)) \<Longrightarrow> load64 m a = load64 m' a"
  unfolding load64_def by (intro arg_cong [where f = le_word] nth_equalityI) simp_all

lemma in_page_off: "i < 4096 \<Longrightarrow> in_page (x + of_nat i) x"
  by (simp add: in_page_def unat_of_nat)

lemma load64_same_page: "same_page m m' x \<Longrightarrow> load64 m' x = load64 m x"
  by (rule load64_cong) (simp add: same_page_def in_page_off)

lemma memset_same_page:
  assumes "x mod PGSIZE = 0" "y mod PGSIZE = 0" "x \<noteq> y"
  shows "same_page m (memset x c 4096 m) y"
  unfolding same_page_def memset_apply using page_disjoint [of y x] assms by (auto simp: in_page_def)

lemma store64_same_page:
  assumes "x mod PGSIZE = 0" "y mod PGSIZE = 0" "x \<noteq> y"
  shows "same_page m (store64 x v m) y"
proof -
  have "\<not> unat (a - x) < 8" if "in_page a y" for a
    using page_disjoint [OF assms(2,1) _ that] assms(3) by (auto simp: in_page_def)
  then show ?thesis by (simp add: same_page_def store64_def write_bytes_def)
qed

lemma same_page_trans: "same_page m m' x \<Longrightarrow> same_page m' m'' x \<Longrightarrow> same_page m m'' x"
  by (simp add: same_page_def)

section \<open>The free list\<close>

definition ptr :: "u64 \<Rightarrow> u64 option" where
  "ptr a = (if a = 0 then None else Some a)"

lemma ptr_simps [simp]: "a \<noteq> 0 \<Longrightarrow> ptr a = Some a" "ptr 0 = None"
  by (simp_all add: ptr_def)

definition kmem_rep :: "u64 \<Rightarrow> phys \<Rightarrow> u64 list \<Rightarrow> bool" where
  "kmem_rep kend s xs \<longleftrightarrow>
     chain (\<lambda>a. ptr (load64 (pmem s) a)) (ptr (freelist s)) xs \<and>
     (\<forall>x\<in>set xs. page_ok kend x)"

lemma kmem_rep_unique: "kmem_rep kend s xs \<Longrightarrow> kmem_rep kend s ys \<Longrightarrow> xs = ys"
  unfolding kmem_rep_def using chain_unique by blast

lemma kmem_rep_distinct: "kmem_rep kend s xs \<Longrightarrow> distinct xs"
  unfolding kmem_rep_def using chain_distinct by blast

lemma kmem_rep_frame:
  assumes "kmem_rep kend s xs" "\<And>x. x \<in> set xs \<Longrightarrow> same_page (pmem s) m x"
  shows "kmem_rep kend (s\<lparr>pmem := m\<rparr>) xs"
proof -
  have "chain (\<lambda>a. ptr (load64 m a)) (ptr (freelist s)) xs
      = chain (\<lambda>a. ptr (load64 (pmem s) a)) (ptr (freelist s)) xs"
  proof (rule chain_cong)
    fix x
    assume "x \<in> set xs"
    then have "load64 m x = load64 (pmem s) x" by (intro load64_same_page assms(2))
    then show "ptr (load64 m x) = ptr (load64 (pmem s) x)" by simp
  qed
  then show ?thesis using assms(1) by (simp add: kmem_rep_def)
qed

lemma kfree_bad: "\<not> page_ok kend pa \<Longrightarrow> kfree kend pa s = Inl (Panic ''kfree'')"
  by (auto simp: kfree_def page_ok_def not_le not_less)

lemma kfree_rep:
  assumes r: "kmem_rep kend s xs" and pa: "page_ok kend pa" "pa \<notin> set xs" "pa \<noteq> 0"
  shows "\<exists>t. kfree kend pa s = Inr t \<and> kmem_rep kend t (pa # xs) \<and>
    (\<forall>y. y mod PGSIZE = 0 \<and> y \<noteq> pa \<longrightarrow> same_page (pmem s) (pmem t) y)"
proof -
  let ?m = "store64 pa (freelist s) (memset pa 1 4096 (pmem s))"
  let ?t = "s\<lparr>pmem := ?m, freelist := pa\<rparr>"
  have k: "kfree kend pa s = Inr ?t" using pa(1) by (auto simp: kfree_def page_ok_def)
  have pg: "pa mod PGSIZE = 0" using pa(1) by (simp add: page_ok_def)
  have same: "same_page (pmem s) ?m y" if "y mod PGSIZE = 0" "y \<noteq> pa" for y
    using same_page_trans [OF memset_same_page store64_same_page] pg that by metis
  have "same_page (pmem s) ?m x" if "x \<in> set xs" for x
    using that r pa(2) by (intro same) (auto simp: kmem_rep_def page_ok_def)
  then have "kmem_rep kend (s\<lparr>pmem := ?m\<rparr>) xs" using r by (intro kmem_rep_frame)
  then have "kmem_rep kend ?t (pa # xs)" using pa by (simp add: kmem_rep_def)
  then show ?thesis using k same by auto
qed

lemma kalloc_none: "kmem_rep kend s [] \<Longrightarrow> kalloc s = (0, s)"
  by (auto simp: kmem_rep_def kalloc_def ptr_def Let_def split: if_splits)

lemma kalloc_rep:
  assumes r: "kmem_rep kend s (x # xs)"
  shows "\<exists>t. kalloc s = (x, t) \<and> kmem_rep kend t xs \<and> x \<noteq> 0 \<and>
    (\<forall>a. in_page a x \<longrightarrow> pmem t a = 5) \<and>
    (\<forall>y. y mod PGSIZE = 0 \<and> y \<noteq> x \<longrightarrow> same_page (pmem s) (pmem t) y)"
proof -
  let ?m = "memset x 5 4096 (pmem s)"
  let ?t = "s\<lparr>pmem := ?m, freelist := load64 (pmem s) x\<rparr>"
  have f: "freelist s = x" "x \<noteq> 0" using r by (auto simp: kmem_rep_def ptr_def split: if_splits)
  have k: "kalloc s = (x, ?t)" using f by (simp add: kalloc_def)
  have pg: "x mod PGSIZE = 0" using r by (simp add: kmem_rep_def page_ok_def)
  have same: "same_page (pmem s) ?m y" if "y mod PGSIZE = 0" "y \<noteq> x" for y
    using memset_same_page [of x y] pg that by metis
  have "x \<notin> set xs" using kmem_rep_distinct [OF r] by simp
  have "kmem_rep kend (s\<lparr>freelist := load64 (pmem s) x\<rparr>) xs"
    using r by (simp add: kmem_rep_def)
  then have "kmem_rep kend (s\<lparr>freelist := load64 (pmem s) x, pmem := ?m\<rparr>) xs"
    using same \<open>x \<notin> set xs\<close> by (intro kmem_rep_frame) (auto simp: kmem_rep_def page_ok_def)
  then have "kmem_rep kend ?t xs" by (simp add: kmem_rep_def)
  then show ?thesis using k f(2) same by (auto simp: memset_apply in_page_def)
qed

section \<open>The allocator as its clients see it\<close>

text \<open>A history of calls and of writes by the owners of pages: \<open>used\<close> is the set of pages
  that have been handed out and not given back.\<close>

datatype page_op = Alloc u64 | Free u64 | Write u64 byte

inductive page_steps ::
  "('s \<Rightarrow> u64 \<times> 's) \<Rightarrow> (u64 \<Rightarrow> 's \<Rightarrow> 's res) \<Rightarrow> (u64 \<Rightarrow> byte \<Rightarrow> 's \<Rightarrow> 's) \<Rightarrow>
   's \<Rightarrow> u64 set \<Rightarrow> page_op list \<Rightarrow> 's \<Rightarrow> u64 set \<Rightarrow> bool"
  for alloc dealloc poke where
  nil: "page_steps alloc dealloc poke s used [] s used"
| got: "alloc s = (x, t) \<Longrightarrow> x \<noteq> 0 \<Longrightarrow> page_steps alloc dealloc poke t (insert x used) es u used' \<Longrightarrow>
    page_steps alloc dealloc poke s used (Alloc x # es) u used'"
| none: "alloc s = (0, t) \<Longrightarrow> page_steps alloc dealloc poke t used es u used' \<Longrightarrow>
    page_steps alloc dealloc poke s used (Alloc 0 # es) u used'"
| free: "x \<in> used \<Longrightarrow> dealloc x s = Inr t \<Longrightarrow>
    page_steps alloc dealloc poke t (used - {x}) es u used' \<Longrightarrow>
    page_steps alloc dealloc poke s used (Free x # es) u used'"
| put: "x \<in> used \<Longrightarrow> in_page a x \<Longrightarrow>
    page_steps alloc dealloc poke (poke a b s) used es u used' \<Longrightarrow>
    page_steps alloc dealloc poke s used (Write a b # es) u used'"

locale page_allocator =
  fixes inv :: "'s \<Rightarrow> u64 list \<Rightarrow> bool"
    and alloc :: "'s \<Rightarrow> u64 \<times> 's"
    and dealloc :: "u64 \<Rightarrow> 's \<Rightarrow> 's res"
    and poke :: "u64 \<Rightarrow> byte \<Rightarrow> 's \<Rightarrow> 's"
    and ok :: "u64 \<Rightarrow> bool"
  assumes free_ok: "inv s xs \<Longrightarrow> x \<in> set xs \<Longrightarrow> ok x"
    and free_distinct: "inv s xs \<Longrightarrow> distinct xs"
    and alloc_law: "inv s xs \<Longrightarrow>
      (case xs of [] \<Rightarrow> alloc s = (0, s) | x # ys \<Rightarrow> x \<noteq> 0 \<and> (\<exists>t. alloc s = (x, t) \<and> inv t ys))"
    and dealloc_law: "inv s xs \<Longrightarrow> ok x \<Longrightarrow> x \<notin> set xs \<Longrightarrow> \<exists>t. dealloc x s = Inr t \<and> inv t (x # xs)"
    and poke_law: "inv s xs \<Longrightarrow> ok x \<Longrightarrow> x \<notin> set xs \<Longrightarrow> in_page a x \<Longrightarrow> inv (poke a b s) xs"
begin

lemma history:
  assumes "page_steps alloc dealloc poke s used es u used'" "inv s xs" "set xs \<inter> used = {}" "\<forall>x\<in>used. ok x"
  shows "\<exists>ys. inv u ys \<and> set ys \<inter> used' = {} \<and> set ys \<union> used' = set xs \<union> used \<and> (\<forall>x\<in>used'. ok x)"
  using assms
proof (induction arbitrary: xs rule: page_steps.induct)
  case (nil s used)
  then show ?case by blast
next
  case (got s x t used es u used')
  then obtain ys where ys: "xs = x # ys" "inv t ys"
    using alloc_law [OF got.prems(1)] by (cases xs) auto
  have "x \<notin> set ys" "ok x"
    using free_distinct [OF got.prems(1)] free_ok [OF got.prems(1)] ys(1) by auto
  then obtain zs where "inv u zs" "set zs \<inter> used' = {}" "set zs \<union> used' = set ys \<union> insert x used"
      "\<forall>x\<in>used'. ok x"
    using got.IH [OF ys(2)] got.prems(2,3) ys(1) by auto
  then show ?case using ys(1) by (intro exI [of _ zs]) auto
next
  case (none s t used es u used')
  then have "xs = []" "t = s" using alloc_law [OF none.prems(1)] by (cases xs; auto)+
  then show ?case using none.IH [of "[]"] none.prems by simp
next
  case (free x used s t es u used')
  have "inv t (x # xs)"
    using dealloc_law [OF free.prems(1), of x] free.hyps(1,2) free.prems(2,3) by auto
  moreover have "set (x # xs) \<inter> (used - {x}) = {}" "\<forall>y\<in>used - {x}. ok y"
    using free.prems(2,3) by auto
  ultimately obtain zs where "inv u zs" "set zs \<inter> used' = {}"
      "set zs \<union> used' = set (x # xs) \<union> (used - {x})" "\<forall>x\<in>used'. ok x"
    using free.IH by blast
  then show ?case using free.hyps(1) by (intro exI [of _ zs]) auto
next
  case (put x used a b s es u used')
  then show ?case using poke_law [OF put.prems(1), of x a b] by auto
qed

end

definition poke_phys :: "u64 \<Rightarrow> byte \<Rightarrow> phys \<Rightarrow> phys" where
  "poke_phys a b s = s\<lparr>pmem := (pmem s)(a := b)\<rparr>"

lemma poke_same_page:
  assumes "x mod PGSIZE = 0" "y mod PGSIZE = 0" "x \<noteq> y" "in_page a x"
  shows "same_page m (m(a := b)) y"
  using page_disjoint [OF assms] by (auto simp: same_page_def)

text \<open>Address 0 is never a page of the allocator, because the kernel lies below the pages.\<close>

definition kpage :: "u64 \<Rightarrow> u64 \<Rightarrow> bool" where
  "kpage kend x \<longleftrightarrow> page_ok kend x \<and> x \<noteq> 0"

interpretation kpa: page_allocator "kmem_rep kend" kalloc "kfree kend" poke_phys "kpage kend"
proof unfold_locales
  fix s xs x
  assume r: "kmem_rep kend s xs"
  show "distinct xs" using r by (rule kmem_rep_distinct)
  show "case xs of [] \<Rightarrow> kalloc s = (0, s)
      | x # ys \<Rightarrow> x \<noteq> 0 \<and> (\<exists>t. kalloc s = (x, t) \<and> kmem_rep kend t ys)"
    using r kalloc_none kalloc_rep by (cases xs) fastforce+
  show "kpage kend x" if "x \<in> set xs"
  proof -
    obtain ys zs where "xs = ys @ x # zs" using \<open>x \<in> set xs\<close> by (meson split_list)
    then have "chain (\<lambda>a. ptr (load64 (pmem s) a)) (ptr (freelist s)) (ys @ x # zs)"
      using r by (simp add: kmem_rep_def)
    then have "x \<noteq> 0" by (cases ys rule: rev_cases) (auto simp: ptr_def dest!: chain_next split: if_splits)
    then show ?thesis using r that by (simp add: kpage_def kmem_rep_def)
  qed
  assume ok: "kpage kend x" and n: "x \<notin> set xs"
  show "\<exists>t. kfree kend x s = Inr t \<and> kmem_rep kend t (x # xs)"
    using kfree_rep [OF r _ n] ok by (auto simp: kpage_def)
  fix a b
  assume a: "in_page a x"
  have "same_page (pmem s) ((pmem s)(a := b)) y" if "y \<in> set xs" for y
    using r ok n that by (intro poke_same_page [OF _ _ _ a]) (auto simp: kpage_def page_ok_def kmem_rep_def)
  then show "kmem_rep kend (poke_phys a b s) xs"
    unfolding poke_phys_def using r by (intro kmem_rep_frame)
qed

section \<open>Initialisation\<close>

lemma pg_mask: "a AND NOT 4095 = a - a mod PGSIZE" for a :: u64
proof -
  have "a mod 4096 = a AND 4095"
    using take_bit_eq_mod [of 12 a] take_bit_eq_mask [of 12 a] by (simp add: mask_eq_exp_minus_1)
  moreover have "(a AND NOT 4095) + (a AND 4095) = (a AND NOT 4095) OR (a AND 4095)"
    by (rule disjunctive_add) (auto simp: bit_simps)
  moreover have "(a AND NOT 4095) OR (a AND 4095) = a"
    by (rule bit_word_eqI) (auto simp: bit_simps)
  ultimately show ?thesis by (metis add_diff_cancel_right')
qed

lemma unat_pground: "unat (a - a mod PGSIZE :: u64) = 4096 * (unat a div 4096)"
proof -
  have "a mod PGSIZE \<le> a" by (simp add: word_le_nat_alt unat_mod_distrib)
  then have "unat (a - a mod PGSIZE) = unat a - unat (a mod PGSIZE)" by (rule unat_sub)
  also have "unat (a mod PGSIZE) = unat a mod 4096" by (simp add: unat_mod_distrib)
  finally show ?thesis by (simp add: minus_mod_eq_mult_div)
qed

lemma unat_PGROUNDDOWN: "unat (PGROUNDDOWN a) = 4096 * (unat a div 4096)"
  using unat_pground [of a] pg_mask [of a] by (simp add: PGROUNDDOWN_def)

lemma unat_PGROUNDUP:
  assumes "unat a + 4095 < 2 ^ 64"
  shows "unat (PGROUNDUP a) = 4096 * ((unat a + 4095) div 4096)"
proof -
  have "PGROUNDUP a = PGROUNDDOWN (a + 4095)"
    by (simp add: PGROUNDUP_def PGROUNDDOWN_def add.commute)
  moreover have "unat (a + 4095) = unat a + 4095" using assms by (simp add: unat_word_ariths(1))
  ultimately show ?thesis by (simp add: unat_PGROUNDDOWN)
qed

text \<open>The pages between two addresses, the last one first, as the free list has them.\<close>

definition page_list :: "u64 \<Rightarrow> nat \<Rightarrow> u64 list" where
  "page_list p n = rev (map (\<lambda>i. p + of_nat (4096 * i)) [0..<n])"

lemma page_list_Suc: "page_list p (Suc n) = page_list (p + 4096) n @ [p]"
proof -
  have "[0..<Suc n] = 0 # map Suc [0..<n]" by (simp only: upt_conv_Cons map_Suc_upt zero_less_Suc)
  then show ?thesis by (simp add: page_list_def algebra_simps comp_def)
qed

lemma freerange_loop_rep:
  assumes "pa_end \<le> PHYSTOP"
  shows "kmem_rep kend s xs \<Longrightarrow> p mod PGSIZE = 0 \<Longrightarrow> kend \<le> p \<Longrightarrow> p \<noteq> 0 \<Longrightarrow> \<forall>x\<in>set xs. x < p \<Longrightarrow>
    unat p + 4096 * n \<le> unat pa_end \<Longrightarrow> unat pa_end < unat p + 4096 * (n + 1) \<Longrightarrow>
    \<exists>t. freerange_loop kend p pa_end s = Some (Inr t) \<and> kmem_rep kend t (page_list p n @ xs)"
proof (induction n arbitrary: s xs p)
  case 0
  have e: "unat pa_end \<le> 2281701376" using assms by (simp add: word_le_nat_alt)
  have "unat (p + 4096) = unat p + 4096" using 0 e by (simp add: unat_word_ariths(1))
  then have "\<not> p + PGSIZE \<le> pa_end" using 0 by (simp add: word_le_nat_alt)
  then show ?case using 0 by (subst freerange_loop.simps) (simp add: page_list_def)
next
  case (Suc n)
  have e: "unat pa_end \<le> 2281701376" using assms by (simp add: word_le_nat_alt)
  have u: "unat (p + 4096) = unat p + 4096" using Suc.prems(6) e by (simp add: unat_word_ariths(1))
  have ok: "page_ok kend p"
    using Suc.prems e by (simp add: page_ok_def word_less_nat_alt)
  have "p \<notin> set xs" using Suc.prems(5) by auto
  then obtain t where t: "kfree kend p s = Inr t" "kmem_rep kend t (p # xs)"
    using kfree_rep [OF Suc.prems(1) ok] Suc.prems(4) by auto
  have "\<exists>v. freerange_loop kend (p + 4096) pa_end t = Some (Inr v) \<and>
      kmem_rep kend v (page_list (p + 4096) n @ p # xs)"
  proof (rule Suc.IH [OF t(2)])
    show "(p + 4096) mod PGSIZE = 0" using Suc.prems(2) u by (simp add: page_unat)
    show "kend \<le> p + 4096" using Suc.prems(3) u by (simp add: word_le_nat_alt)
    show "p + 4096 \<noteq> 0" using u by (auto simp: word_unat_eq_iff)
    show "\<forall>x\<in>set (p # xs). x < p + 4096"
      using Suc.prems(5) u by (fastforce simp: word_less_nat_alt)
    show "unat (p + 4096) + 4096 * n \<le> unat pa_end" using Suc.prems(6) u by simp
    show "unat pa_end < unat (p + 4096) + 4096 * (n + 1)" using Suc.prems(7) u by simp
  qed
  moreover have "p + PGSIZE \<le> pa_end" using Suc.prems(6) u by (simp add: word_le_nat_alt)
  ultimately show ?case using t(1) by (subst freerange_loop.simps) (simp add: page_list_Suc)
qed

text \<open>All pages of memory from the end of the kernel on.\<close>

definition all_pages :: "u64 \<Rightarrow> u64 set" where
  "all_pages kend = {x. kpage kend x}"

lemma kinit_rep:
  assumes k: "KERNBASE \<le> kend" "kend < PHYSTOP" and s: "freelist s = 0"
  shows "\<exists>t xs. kinit kend s = Inr t \<and> kmem_rep kend t xs \<and> set xs = all_pages kend"
proof -
  let ?p = "PGROUNDUP kend" and ?n = "(unat PHYSTOP - unat (PGROUNDUP kend)) div 4096"
  have u: "2147483648 \<le> unat kend" "unat kend < 2281701376"
    using k by (simp_all add: word_le_nat_alt word_less_nat_alt)
  then have p: "unat ?p = 4096 * ((unat kend + 4095) div 4096)" by (intro unat_PGROUNDUP) simp
  have lo: "unat kend \<le> unat ?p" "unat ?p < unat kend + 4096" unfolding p by linarith+
  have "(unat kend + 4095) div 4096 < 557057" using u(2) by (intro less_mult_imp_div_less) simp
  then have hi: "unat ?p \<le> 2281701376" unfolding p by linarith
  have al: "?p mod PGSIZE = 0" unfolding page_unat p by simp
  have "kmem_rep kend s []" using s by (simp add: kmem_rep_def)
  moreover have "kend \<le> ?p" using lo by (simp add: word_le_nat_alt)
  moreover have "?p \<noteq> 0" using lo u by (auto simp: word_unat_eq_iff)
  moreover have "unat ?p + 4096 * ?n \<le> unat PHYSTOP" using hi by simp
  moreover have "unat PHYSTOP < unat ?p + 4096 * (?n + 1)" using hi by simp
  ultimately obtain t where t: "freerange_loop kend ?p PHYSTOP s = Some (Inr t)"
      "kmem_rep kend t (page_list ?p ?n)"
    using freerange_loop_rep [of PHYSTOP kend s "[]" ?p ?n] al by auto
  have "set (page_list ?p ?n) = all_pages kend"
  proof (intro set_eqI iffI)
    fix x
    assume "x \<in> set (page_list ?p ?n)"
    then have "x \<in> set (page_list ?p ?n)" .
    then show "x \<in> all_pages kend" using kpa.free_ok [OF t(2)] by (simp add: all_pages_def)
  next
    fix x
    assume x: "x \<in> all_pages kend"
    then obtain q where q: "unat x = 4096 * q"
      by (auto simp: all_pages_def kpage_def page_ok_def page_unat)
    have b: "unat kend \<le> unat x" "unat x < 2281701376"
      using x by (simp_all add: all_pages_def kpage_def page_ok_def word_le_nat_alt word_less_nat_alt)
    define i where "i = q - (unat kend + 4095) div 4096"
    have i: "unat x = unat ?p + 4096 * i" "i < ?n" using b q unfolding i_def p by auto
    have "unat (of_nat (4096 * i) :: u64) = 4096 * i"
      unfolding unat_of_nat using i(1) b(2) by (intro mod_less) simp
    then have "x = ?p + of_nat (4096 * i)"
      using i(1) b(2) unfolding word_unat_eq_iff unat_word_ariths(1) by simp
    then show "x \<in> set (page_list ?p ?n)" using i(2) by (auto simp: page_list_def)
  qed
  then show ?thesis using t by (auto simp: kinit_def freerange_def)
qed

section \<open>Properties\<close>

text \<open>C13.  After boot and any history of allocations, frees of pages in use and writes into
  pages in use, \<^verbatim>\<open>kalloc\<close> returns a page that nobody uses, and returns 0 exactly when
  every page of memory is in use.\<close>

theorem kalloc_fresh:
  assumes "KERNBASE \<le> kend" "kend < PHYSTOP"
    and "freelist s = 0" and "kinit kend s = Inr t"
    and "page_steps kalloc (kfree kend) poke_phys t {} es u used"
    and "kalloc u = (x, v)"
  shows "(x = 0 \<longleftrightarrow> used = all_pages kend) \<and> (x \<noteq> 0 \<longrightarrow> x \<in> all_pages kend - used)"
proof -
  obtain xs where xs: "kmem_rep kend t xs" "set xs = all_pages kend"
    using kinit_rep [OF assms(1,2,3)] assms(4) by auto
  obtain ys where ys: "kmem_rep kend u ys" "set ys \<inter> used = {}" "set ys \<union> used = all_pages kend"
    using kpa.history [OF assms(5) xs(1)] xs(2) by auto
  then show ?thesis using kpa.alloc_law [OF ys(1)] assms(6) by (cases ys) auto
qed

theorem kalloc_fresh_witness:
  "\<exists>t x u y v. kinit 0x87ff0000 \<lparr>pmem = (\<lambda>_. 0), freelist = 0\<rparr> = Inr t \<and> kalloc t = (x, u) \<and>
     kalloc u = (y, v) \<and> x \<noteq> 0 \<and> y \<noteq> x"
proof -
  let ?s = "\<lparr>pmem = (\<lambda>_. 0), freelist = 0\<rparr> :: phys"
  have k: "KERNBASE \<le> 0x87ff0000" "(0x87ff0000 :: u64) < PHYSTOP" "freelist ?s = 0" by simp_all
  obtain t where t: "kinit 0x87ff0000 ?s = Inr t" using kinit_rep [OF k] by blast
  obtain x u where x: "kalloc t = (x, u)" by (cases "kalloc t")
  obtain y v where y: "kalloc u = (y, v)" by (cases "kalloc u")
  have p: "0x87ff0000 \<in> all_pages 0x87ff0000" by (simp add: all_pages_def kpage_def page_ok_def)
  have n: "page_steps kalloc (kfree 0x87ff0000) poke_phys t {} [] t {}" by (rule page_steps.nil)
  from kalloc_fresh [OF k t n x] p have "x \<noteq> 0" by auto
  with x have o: "page_steps kalloc (kfree 0x87ff0000) poke_phys t {} [Alloc x] u {x}"
    by (auto intro: page_steps.got page_steps.nil)
  from kalloc_fresh [OF k t o y] \<open>x \<noteq> 0\<close> have "y \<noteq> x" by (cases "y = 0") auto
  with t x y \<open>x \<noteq> 0\<close> show ?thesis by blast
qed

end
