(* ===== verification/Vm.thy ===== *)
theory Vm
  imports Kalloc
begin

text \<open>
  Virtual memory, \<^verbatim>\<open>kernel/vm.c\<close>: Sv39 page tables in physical memory, user address
  spaces and the copying of data between the kernel and user memory.  A page table is the
  physical address of its root page; a pointer to a page-table entry is the physical address
  of the entry, 0 for a null pointer.  \<^verbatim>\<open>LAB_PGTBL\<close> is defined, as in the build.
\<close>

section \<open>Page-table entries\<close>

abbreviation (input) PTE_V :: u64 where "PTE_V \<equiv> 1"
abbreviation (input) PTE_R :: u64 where "PTE_R \<equiv> 2"
abbreviation (input) PTE_W :: u64 where "PTE_W \<equiv> 4"
abbreviation (input) PTE_X :: u64 where "PTE_X \<equiv> 8"
abbreviation (input) PTE_U :: u64 where "PTE_U \<equiv> 16"
abbreviation (input) MAXVA :: u64 where "MAXVA \<equiv> 0x4000000000"
abbreviation (input) TRAMPOLINE :: u64 where "TRAMPOLINE \<equiv> MAXVA - PGSIZE"
abbreviation (input) TRAPFRAME :: u64 where "TRAPFRAME \<equiv> TRAMPOLINE - PGSIZE"

definition PTE_LEAF :: "u64 \<Rightarrow> bool" where
  "PTE_LEAF pte \<longleftrightarrow> (pte AND PTE_R) OR (pte AND PTE_W) OR (pte AND PTE_X) \<noteq> 0"

definition PA2PTE :: "u64 \<Rightarrow> u64" where
  "PA2PTE pa = push_bit 10 (drop_bit 12 pa)"

definition PTE2PA :: "u64 \<Rightarrow> u64" where
  "PTE2PA pte = push_bit 12 (drop_bit 10 pte)"

definition PTE_FLAGS :: "u64 \<Rightarrow> u64" where
  "PTE_FLAGS pte = pte AND 0x3FF"

definition PX :: "nat \<Rightarrow> u64 \<Rightarrow> u64" where
  "PX level va = drop_bit (12 + 9 * level) va AND 0x1FF"

definition KSTACK :: "nat \<Rightarrow> u64" where
  "KSTACK p = TRAMPOLINE - of_nat p * 2 * PGSIZE - 3 * PGSIZE"

definition MAKE_SATP :: "u64 \<Rightarrow> u64" where
  "MAKE_SATP pagetable = push_bit 60 8 OR drop_bit 12 pagetable"

section \<open>Walking and mapping\<close>

text \<open>The loop of \<^verbatim>\<open>walk\<close>, at \<^verbatim>\<open>level\<close>.\<close>

fun walk_loop :: "nat \<Rightarrow> u64 \<Rightarrow> u64 \<Rightarrow> bool \<Rightarrow> phys \<Rightarrow> u64 \<times> phys" where
  "walk_loop 0 pagetable va alloc s = (pagetable + 8 * PX 0 va, s)"
| "walk_loop (Suc l) pagetable va alloc s =
     (let pte = pagetable + 8 * PX (Suc l) va;
          v = load64 (pmem s) pte
      in if v AND PTE_V \<noteq> 0
         then (if PTE_LEAF v then (pte, s) else walk_loop l (PTE2PA v) va alloc s)
         else if \<not> alloc then (0, s)
         else let (pg, s) = kalloc s
              in if pg = 0 then (0, s)
                 else let s = s\<lparr>pmem := memset pg 0 4096 (pmem s)\<rparr>;
                          s = s\<lparr>pmem := store64 pte (PA2PTE pg OR PTE_V) (pmem s)\<rparr>
                      in walk_loop l pg va alloc s)"

definition walk :: "u64 \<Rightarrow> u64 \<Rightarrow> bool \<Rightarrow> phys \<Rightarrow> (u64 \<times> phys) res" where
  "walk pagetable va alloc s =
     (if va \<ge> MAXVA then Inl (Panic ''walk'') else Inr (walk_loop 2 pagetable va alloc s))"

definition pgpte :: "u64 \<Rightarrow> u64 \<Rightarrow> phys \<Rightarrow> (u64 \<times> phys) res" where
  "pgpte pagetable va s = walk pagetable va False s"

text \<open>A walk without allocation does not change memory.\<close>

definition walkaddr :: "u64 \<Rightarrow> u64 \<Rightarrow> phys \<Rightarrow> u64 res" where
  "walkaddr pagetable va s =
     (if va \<ge> MAXVA then Inr 0
      else bnd (walk pagetable va False s) (\<lambda>(pte, s).
        if pte = 0 then Inr 0
        else if load64 (pmem s) pte AND PTE_V = 0 then Inr 0
        else if load64 (pmem s) pte AND PTE_U = 0 then Inr 0
        else Inr (PTE2PA (load64 (pmem s) pte))))"

partial_function (option) mappages_loop ::
  "u64 \<Rightarrow> u64 \<Rightarrow> u64 \<Rightarrow> u64 \<Rightarrow> u64 \<Rightarrow> phys \<Rightarrow> (int \<times> phys) res option" where
  "mappages_loop pagetable a lst pa perm s =
     (case walk pagetable a True s of
        Inl e \<Rightarrow> Some (Inl e)
      | Inr r \<Rightarrow>
          let pte = fst r; s = snd r
          in if pte = 0 then Some (Inr (-1, s))
             else if load64 (pmem s) pte AND PTE_V \<noteq> 0 then Some (Inl (Panic ''mappages: remap''))
             else let s = s\<lparr>pmem := store64 pte (PA2PTE pa OR perm OR PTE_V) (pmem s)\<rparr>
                  in if a = lst then Some (Inr (0, s))
                     else mappages_loop pagetable (a + PGSIZE) lst (pa + PGSIZE) perm s)"

definition mappages :: "u64 \<Rightarrow> u64 \<Rightarrow> u64 \<Rightarrow> u64 \<Rightarrow> u64 \<Rightarrow> phys \<Rightarrow> (int \<times> phys) res" where
  "mappages pagetable va sz pa perm s =
     (if va mod PGSIZE \<noteq> 0 then Inl (Panic ''mappages: va not aligned'')
      else if sz mod PGSIZE \<noteq> 0 then Inl (Panic ''mappages: size not aligned'')
      else if sz = 0 then Inl (Panic ''mappages: size'')
      else of_loop (mappages_loop pagetable va (va + sz - PGSIZE) pa perm s))"

definition kvmmap :: "u64 \<Rightarrow> u64 \<Rightarrow> u64 \<Rightarrow> u64 \<Rightarrow> u64 \<Rightarrow> phys \<Rightarrow> phys res" where
  "kvmmap kpgtbl va pa sz perm s =
     bnd (mappages kpgtbl va sz pa perm s) (\<lambda>(r, s).
       if r \<noteq> 0 then Inl (Panic ''kvmmap'') else Inr s)"

fun proc_mapstacks :: "nat list \<Rightarrow> u64 \<Rightarrow> phys \<Rightarrow> phys res" where
  "proc_mapstacks [] kpgtbl s = Inr s"
| "proc_mapstacks (p # ps) kpgtbl s =
     (let (pa, s) = kalloc s
      in if pa = 0 then Inl (Panic ''kalloc'')
         else bnd (kvmmap kpgtbl (KSTACK p) pa PGSIZE (PTE_R OR PTE_W) s) (proc_mapstacks ps kpgtbl))"

text \<open>The addresses of \<^verbatim>\<open>etext\<close> and \<^verbatim>\<open>trampoline\<close> come from the linker.\<close>

definition kvmmake :: "u64 \<Rightarrow> u64 \<Rightarrow> phys \<Rightarrow> (u64 \<times> phys) res" where
  "kvmmake etext trampoline s =
     (let (kpgtbl, s) = kalloc s;
          s = s\<lparr>pmem := memset kpgtbl 0 4096 (pmem s)\<rparr>
      in bnd (kvmmap kpgtbl 0x10000000 0x10000000 PGSIZE (PTE_R OR PTE_W) s) (\<lambda>s.
         bnd (kvmmap kpgtbl 0x10001000 0x10001000 PGSIZE (PTE_R OR PTE_W) s) (\<lambda>s.
         bnd (kvmmap kpgtbl 0x0c000000 0x0c000000 0x4000000 (PTE_R OR PTE_W) s) (\<lambda>s.
         bnd (kvmmap kpgtbl KERNBASE KERNBASE (etext - KERNBASE) (PTE_R OR PTE_X) s) (\<lambda>s.
         bnd (kvmmap kpgtbl etext etext (PHYSTOP - etext) (PTE_R OR PTE_W) s) (\<lambda>s.
         bnd (kvmmap kpgtbl TRAMPOLINE trampoline PGSIZE (PTE_R OR PTE_X) s) (\<lambda>s.
         bnd (proc_mapstacks [0..<NPROC] kpgtbl s) (\<lambda>s. Inr (kpgtbl, s)))))))))"

section \<open>User address spaces\<close>

partial_function (option) uvmunmap_loop ::
  "u64 \<Rightarrow> u64 \<Rightarrow> u64 \<Rightarrow> u64 \<Rightarrow> bool \<Rightarrow> phys \<Rightarrow> phys res option" where
  "uvmunmap_loop kend pagetable a stop do_free s =
     (if a < stop
      then case walk pagetable a False s of
             Inl e \<Rightarrow> Some (Inl e)
           | Inr r \<Rightarrow>
               let pte = fst r; v = load64 (pmem s) pte
               in if pte = 0 then Some (Inl (Panic ''uvmunmap: walk''))
                  else if v AND PTE_V = 0 then Some (Inl (Panic ''uvmunmap: not mapped''))
                  else if PTE_FLAGS v = PTE_V then Some (Inl (Panic ''uvmunmap: not a leaf''))
                  else case (if do_free then kfree kend (PTE2PA v) s else Inr s) of
                         Inl e \<Rightarrow> Some (Inl e)
                       | Inr s \<Rightarrow> uvmunmap_loop kend pagetable (a + PGSIZE) stop do_free
                                   (s\<lparr>pmem := store64 pte 0 (pmem s)\<rparr>)
      else Some (Inr s))"

definition uvmunmap :: "u64 \<Rightarrow> u64 \<Rightarrow> u64 \<Rightarrow> u64 \<Rightarrow> bool \<Rightarrow> phys \<Rightarrow> phys res" where
  "uvmunmap kend pagetable va npages do_free s =
     (if va mod PGSIZE \<noteq> 0 then Inl (Panic ''uvmunmap: not aligned'')
      else of_loop (uvmunmap_loop kend pagetable va (va + npages * PGSIZE) do_free s))"

definition uvmcreate :: "phys \<Rightarrow> u64 \<times> phys" where
  "uvmcreate s =
     (let (pagetable, s) = kalloc s
      in if pagetable = 0 then (0, s)
         else (pagetable, s\<lparr>pmem := memset pagetable 0 4096 (pmem s)\<rparr>))"

definition uvmfirst :: "u64 \<Rightarrow> byte list \<Rightarrow> phys \<Rightarrow> phys res" where
  "uvmfirst pagetable src s =
     (if length src \<ge> 4096 then Inl (Panic ''uvmfirst: more than a page'')
      else let (mem, s) = kalloc s;
               s = s\<lparr>pmem := memset mem 0 4096 (pmem s)\<rparr>
           in bnd (mappages pagetable 0 PGSIZE mem (PTE_W OR PTE_R OR PTE_X OR PTE_U) s) (\<lambda>(r, s).
                Inr (s\<lparr>pmem := write_bytes mem src (pmem s)\<rparr>)))"

definition uvmdealloc :: "u64 \<Rightarrow> u64 \<Rightarrow> u64 \<Rightarrow> u64 \<Rightarrow> phys \<Rightarrow> (u64 \<times> phys) res" where
  "uvmdealloc kend pagetable oldsz newsz s =
     (if newsz \<ge> oldsz then Inr (oldsz, s)
      else bnd (if PGROUNDUP newsz < PGROUNDUP oldsz
                then let npages = sint (ucast ((PGROUNDUP oldsz - PGROUNDUP newsz) div PGSIZE) :: u32)
                     in uvmunmap kend pagetable (PGROUNDUP newsz) (of_int npages) True s
                else Inr s)
             (\<lambda>s. Inr (newsz, s)))"

partial_function (option) uvmalloc_loop ::
  "u64 \<Rightarrow> u64 \<Rightarrow> u64 \<Rightarrow> u64 \<Rightarrow> u64 \<Rightarrow> u64 \<Rightarrow> phys \<Rightarrow> (u64 \<times> phys) res option" where
  "uvmalloc_loop kend pagetable a oldsz newsz xperm s =
     (if a < newsz
      then let mem = fst (kalloc s); s = snd (kalloc s)
           in if mem = 0
              then Some (bnd (uvmdealloc kend pagetable a oldsz s) (\<lambda>r. Inr (0, snd r)))
              else let s = s\<lparr>pmem := memset mem 0 4096 (pmem s)\<rparr>
                   in case mappages pagetable a PGSIZE mem (PTE_R OR PTE_U OR xperm) s of
                        Inl e \<Rightarrow> Some (Inl e)
                      | Inr r \<Rightarrow>
                          if fst r \<noteq> 0
                          then Some (bnd (kfree kend mem (snd r)) (\<lambda>s.
                                 bnd (uvmdealloc kend pagetable a oldsz s) (\<lambda>r. Inr (0, snd r))))
                          else uvmalloc_loop kend pagetable (a + PGSIZE) oldsz newsz xperm (snd r)
      else Some (Inr (newsz, s)))"

definition uvmalloc :: "u64 \<Rightarrow> u64 \<Rightarrow> u64 \<Rightarrow> u64 \<Rightarrow> u64 \<Rightarrow> phys \<Rightarrow> (u64 \<times> phys) res" where
  "uvmalloc kend pagetable oldsz newsz xperm s =
     (if newsz < oldsz then Inr (oldsz, s)
      else let oldsz = PGROUNDUP oldsz
           in of_loop (uvmalloc_loop kend pagetable oldsz oldsz newsz xperm s))"

text \<open>\<^verbatim>\<open>freewalk\<close> recurses once per level; \<open>n\<close> bounds the depth.\<close>

fun freewalk_loop :: "(u64 \<Rightarrow> phys \<Rightarrow> phys res) \<Rightarrow> u64 \<Rightarrow> nat list \<Rightarrow> phys \<Rightarrow> phys res" where
  "freewalk_loop rec pagetable [] s = Inr s"
| "freewalk_loop rec pagetable (i # is) s =
     (let a = pagetable + 8 * of_nat i; pte = load64 (pmem s) a
      in if pte AND PTE_V \<noteq> 0 \<and> pte AND (PTE_R OR PTE_W OR PTE_X) = 0
         then bnd (rec (PTE2PA pte) s) (\<lambda>s.
                freewalk_loop rec pagetable is (s\<lparr>pmem := store64 a 0 (pmem s)\<rparr>))
         else if pte AND PTE_V \<noteq> 0 then Inl (Panic ''freewalk: leaf'')
         else freewalk_loop rec pagetable is s)"

fun freewalk :: "u64 \<Rightarrow> nat \<Rightarrow> u64 \<Rightarrow> phys \<Rightarrow> phys res" where
  "freewalk kend 0 pagetable s = Inl Diverges"
| "freewalk kend (Suc n) pagetable s =
     bnd (freewalk_loop (freewalk kend n) pagetable [0..<512] s) (kfree kend pagetable)"

definition uvmfree :: "u64 \<Rightarrow> u64 \<Rightarrow> u64 \<Rightarrow> phys \<Rightarrow> phys res" where
  "uvmfree kend pagetable sz s =
     bnd (if sz > 0 then uvmunmap kend pagetable 0 (PGROUNDUP sz div PGSIZE) True s else Inr s)
       (freewalk kend 3 pagetable)"

partial_function (option) uvmcopy_loop ::
  "u64 \<Rightarrow> u64 \<Rightarrow> u64 \<Rightarrow> u64 \<Rightarrow> u64 \<Rightarrow> phys \<Rightarrow> (int \<times> phys) res option" where
  "uvmcopy_loop kend old new i sz s =
     (if i < sz
      then case walk old i False s of
             Inl e \<Rightarrow> Some (Inl e)
           | Inr r \<Rightarrow>
               let pte = load64 (pmem s) (fst r)
               in if fst r = 0 then Some (Inl (Panic ''uvmcopy: pte should exist''))
                  else if pte AND PTE_V = 0 then Some (Inl (Panic ''uvmcopy: page not present''))
                  else let mem = fst (kalloc s); s = snd (kalloc s)
                       in if mem = 0
                          then Some (bnd (uvmunmap kend new 0 (i div PGSIZE) True s) (\<lambda>s. Inr (-1, s)))
                          else let s = s\<lparr>pmem := memmove mem (PTE2PA pte) 4096 (pmem s)\<rparr>
                               in case mappages new i PGSIZE mem (PTE_FLAGS pte) s of
                                    Inl e \<Rightarrow> Some (Inl e)
                                  | Inr r \<Rightarrow>
                                      if fst r \<noteq> 0
                                      then Some (bnd (kfree kend mem (snd r)) (\<lambda>s.
                                             bnd (uvmunmap kend new 0 (i div PGSIZE) True s)
                                               (\<lambda>s. Inr (-1, s))))
                                      else uvmcopy_loop kend old new (i + PGSIZE) sz (snd r)
      else Some (Inr (0, s)))"

definition uvmcopy :: "u64 \<Rightarrow> u64 \<Rightarrow> u64 \<Rightarrow> u64 \<Rightarrow> phys \<Rightarrow> (int \<times> phys) res" where
  "uvmcopy kend old new sz s = of_loop (uvmcopy_loop kend old new 0 sz s)"

definition uvmclear :: "u64 \<Rightarrow> u64 \<Rightarrow> phys \<Rightarrow> phys res" where
  "uvmclear pagetable va s =
     bnd (walk pagetable va False s) (\<lambda>(pte, s).
       if pte = 0 then Inl (Panic ''uvmclear'')
       else Inr (s\<lparr>pmem := store64 pte (load64 (pmem s) pte AND NOT PTE_U) (pmem s)\<rparr>))"

section \<open>Copying between kernel and user memory\<close>

text \<open>
  The kernel side of a copy is an object of the kernel, which the model passes by value: the
  source of \<^verbatim>\<open>copyout\<close> is the list of its bytes, and \<^verbatim>\<open>copyin\<close> and \<^verbatim>\<open>copyinstr\<close> return the
  bytes that they have stored in the destination, also when they fail half-way.
\<close>

partial_function (option) copyout_loop ::
  "u64 \<Rightarrow> u64 \<Rightarrow> byte list \<Rightarrow> phys \<Rightarrow> (int \<times> phys) res option" where
  "copyout_loop pagetable dstva src s =
     (if length src > 0
      then let va0 = PGROUNDDOWN dstva
           in if va0 \<ge> MAXVA then Some (Inr (-1, s))
              else case walk pagetable va0 False s of
                Inl e \<Rightarrow> Some (Inl e)
              | Inr r \<Rightarrow>
                  if fst r = 0 then Some (Inr (-1, s))
                  else if load64 (pmem s) (fst r) AND PTE_W = 0 then Some (Inr (-1, s))
                  else case walkaddr pagetable va0 s of
                         Inl e \<Rightarrow> Some (Inl e)
                       | Inr pa0 \<Rightarrow>
                           if pa0 = 0 then Some (Inr (-1, s))
                           else let n = min (unat (PGSIZE - (dstva - va0))) (length src);
                                    s = s\<lparr>pmem := write_bytes (pa0 + (dstva - va0)) (take n src) (pmem s)\<rparr>
                                in copyout_loop pagetable (va0 + PGSIZE) (drop n src) s
      else Some (Inr (0, s)))"

definition copyout :: "u64 \<Rightarrow> u64 \<Rightarrow> byte list \<Rightarrow> phys \<Rightarrow> (int \<times> phys) res" where
  "copyout pagetable dstva src s = of_loop (copyout_loop pagetable dstva src s)"

partial_function (option) copyin_loop ::
  "u64 \<Rightarrow> u64 \<Rightarrow> nat \<Rightarrow> phys \<Rightarrow> byte list \<Rightarrow> (int \<times> byte list) res option" where
  "copyin_loop pagetable srcva len s dst =
     (if len > 0
      then let va0 = PGROUNDDOWN srcva
           in case walkaddr pagetable va0 s of
                Inl e \<Rightarrow> Some (Inl e)
              | Inr pa0 \<Rightarrow>
                  if pa0 = 0 then Some (Inr (-1, dst))
                  else let n = min (unat (PGSIZE - (srcva - va0))) len
                       in copyin_loop pagetable (va0 + PGSIZE) (len - n) s
                            (dst @ bytes (pmem s) (pa0 + (srcva - va0)) n)
      else Some (Inr (0, dst)))"

definition copyin :: "u64 \<Rightarrow> u64 \<Rightarrow> nat \<Rightarrow> phys \<Rightarrow> (int \<times> byte list) res" where
  "copyin pagetable srcva len s = of_loop (copyin_loop pagetable srcva len s [])"

text \<open>The inner loop of \<^verbatim>\<open>copyinstr\<close>, over at most \<open>n\<close> bytes of one page: whether a null byte
  was met, and the bytes stored.\<close>

fun copystr_page :: "nat \<Rightarrow> u64 \<Rightarrow> mem \<Rightarrow> bool \<times> byte list" where
  "copystr_page 0 p m = (False, [])"
| "copystr_page (Suc n) p m =
     (if m p = 0 then (True, [0])
      else let (got_null, bs) = copystr_page n (p + 1) m in (got_null, m p # bs))"

partial_function (option) copyinstr_loop ::
  "u64 \<Rightarrow> u64 \<Rightarrow> nat \<Rightarrow> phys \<Rightarrow> byte list \<Rightarrow> (int \<times> byte list) res option" where
  "copyinstr_loop pagetable srcva mx s dst =
     (if mx > 0
      then let va0 = PGROUNDDOWN srcva
           in case walkaddr pagetable va0 s of
                Inl e \<Rightarrow> Some (Inl e)
              | Inr pa0 \<Rightarrow>
                  if pa0 = 0 then Some (Inr (-1, dst))
                  else let n = min (unat (PGSIZE - (srcva - va0))) mx;
                           r = copystr_page n (pa0 + (srcva - va0)) (pmem s)
                       in if fst r then Some (Inr (0, dst @ snd r))
                          else copyinstr_loop pagetable (va0 + PGSIZE) (mx - n) s (dst @ snd r)
      else Some (Inr (-1, dst)))"

definition copyinstr :: "u64 \<Rightarrow> u64 \<Rightarrow> nat \<Rightarrow> phys \<Rightarrow> (int \<times> byte list) res" where
  "copyinstr pagetable srcva mx s = of_loop (copyinstr_loop pagetable srcva mx s [])"

end
