(* ===== verification/Pagetable.thy ===== *)
theory Pagetable
  imports Vm
begin

text \<open>
  What the page-table code of \<^verbatim>\<open>kernel/vm.c\<close> does to the tree of tables.  The tree is
  described by a map from paths (lists of at most two indices) to table pages; the mapping
  that the tree stands for takes the three indices of a virtual address to a valid entry.
\<close>

section \<open>Entries\<close>

lemma aligned_bits: "a mod PGSIZE = 0 \<longleftrightarrow> (\<forall>n<12. \<not> bit (a :: u64) n)"
proof -
  have "a mod PGSIZE = take_bit 12 a" by (simp add: take_bit_eq_mod)
  then show ?thesis by (simp add: bit_eq_iff bit_take_bit_iff) auto
qed

lemma bit_PA2PTE: "bit (PA2PTE a) n \<longleftrightarrow> 10 \<le> n \<and> n < 64 \<and> bit a (n + 2)"
  by (auto simp: PA2PTE_def bit_simps)

lemma PTE2PA_entry:
  assumes "a mod PGSIZE = 0" "perm < 1024"
  shows "PTE2PA (PA2PTE a OR perm OR 1) = a"
proof (rule bit_word_eqI)
  fix n
  assume n: "n < LENGTH(64)"
  have p: "\<not> bit perm k" if "10 \<le> k" for k
  proof -
    have "take_bit 10 perm = perm" using assms(2) by (simp add: take_bit_eq_mod mod_word_less)
    then show ?thesis using that by (metis bit_take_bit_iff not_le)
  qed
  show "bit (PTE2PA (PA2PTE a OR perm OR 1)) n = bit a n"
    using n assms(1) p
    by (cases "n < 12") (auto simp: PTE2PA_def bit_simps bit_PA2PTE aligned_bits dest: le_Suc_ex simp: not_less)
qed

lemma PTE2PA_table: "a mod PGSIZE = 0 \<Longrightarrow> PTE2PA (PA2PTE a OR 1) = a"
  using PTE2PA_entry [of a 0] by simp

lemma table_valid: "(PA2PTE a OR p OR 1) AND 1 \<noteq> 0"
  by (simp add: bit_eq_iff) (auto simp: bit_simps intro!: exI [of _ 0])

lemma bit_numeral_small:
  "bit (2 :: u64) n = (n = 1)" "bit (4 :: u64) n = (n = 2)" "bit (8 :: u64) n = (n = 3)"
  using bit_exp_iff [of 1 n, where ?'a = "64 word"] bit_exp_iff [of 2 n, where ?'a = "64 word"]
    bit_exp_iff [of 3 n, where ?'a = "64 word"] by auto

lemma table_not_leaf: "\<not> PTE_LEAF (PA2PTE a OR 1)"
proof -
  have n: "\<not> bit (PA2PTE a OR 1) 1" "\<not> bit (PA2PTE a OR 1) 2" "\<not> bit (PA2PTE a OR 1) 3"
    by (auto simp: bit_or_iff bit_PA2PTE bit_1_iff)
  have "(PA2PTE a OR 1) AND 2 = 0" "(PA2PTE a OR 1) AND 4 = 0" "(PA2PTE a OR 1) AND 8 = 0"
    using n by (auto intro!: bit_word_eqI simp only: bit_and_iff bit_numeral_small bit_0_eq bot_apply bot_bool_def)
  then show ?thesis by (simp add: PTE_LEAF_def)
qed

section \<open>Addresses of entries\<close>

lemma unat_entry:
  assumes "a mod PGSIZE = 0" "i < 512"
  shows "unat (a + 8 * i :: u64) = unat a + 8 * unat i"
proof -
  have "4096 dvd unat a" using assms(1) by (simp add: page_unat)
  then obtain q where q: "unat a = 4096 * q" by blast
  then have "q < 4503599627370496" using unat_u64 [of a] by simp
  moreover have "unat i < 512" using assms(2) by (simp add: word_less_nat_alt)
  moreover have "unat (8 * i) = 8 * unat i" using \<open>unat i < 512\<close> by (simp add: unat_word_ariths(2))
  ultimately show ?thesis using q by (simp add: unat_word_ariths(1))
qed

lemma entry_inj:
  assumes "a mod PGSIZE = 0" "b mod PGSIZE = 0" "i < 512" "j < 512" "a + 8 * i = b + 8 * (j :: u64)"
  shows "a = b \<and> i = j"
proof -
  have e: "unat a + 8 * unat i = unat b + 8 * unat j"
    using arg_cong [OF assms(5), of unat] unfolding unat_entry [OF assms(1,3)] unat_entry [OF assms(2,4)] .
  have "4096 dvd unat a" "4096 dvd unat b" using assms by (simp_all add: page_unat)
  moreover have "unat i < 512" "unat j < 512" using assms by (simp_all add: word_less_nat_alt)
  ultimately have "unat a = unat b" using e by (auto elim!: dvdE)
  then show ?thesis using e by (simp add: word_unat_eq_iff)
qed

lemma load_store64_other:
  assumes "8 dvd unat x" "8 dvd unat y" "x \<noteq> y"
  shows "load64 (store64 x v m) y = load64 m y"
proof -
  have "8 dvd unat (y - x)" "8 dvd unat (x - y)"
    using assms(1,2) by (auto simp: unat_sub_if' dvd_diff_nat dvd_add)
  moreover have "unat (y - x) \<noteq> 0" "unat (x - y) \<noteq> 0" using assms(3) by (simp_all add: unat_eq_0)
  ultimately have "8 \<le> unat (y - x)" "8 \<le> unat (x - y)" by (auto dest: dvd_imp_le)
  then show ?thesis unfolding load64_def store64_def by (subst bytes_write_other) auto
qed

lemma entry_store:
  assumes "a mod PGSIZE = 0" "b mod PGSIZE = 0" "i < 512" "j < 512" "\<not> (a = b \<and> i = j)"
  shows "load64 (store64 (a + 8 * i) v m) (b + 8 * j) = load64 m (b + 8 * j)"
proof (rule load_store64_other)
  show "8 dvd unat (a + 8 * i)" "8 dvd unat (b + 8 * j)"
    using assms by (auto simp: unat_entry page_unat intro!: dvd_add intro: dvd_trans [of 8 4096])
  show "a + 8 * i \<noteq> b + 8 * j" using entry_inj [of a b i j] assms by blast
qed

lemma entry_in_page: "a mod PGSIZE = 0 \<Longrightarrow> i < 512 \<Longrightarrow> k < 8 \<Longrightarrow> in_page (a + 8 * i + of_nat k) a"
  using in_page_off [of "8 * unat i + k" a] by (simp add: word_less_nat_alt add.assoc)

lemma load_same_page:
  assumes "same_page m m' a" "a mod PGSIZE = 0" "i < 512"
  shows "load64 m' (a + 8 * i) = load64 m (a + 8 * i)"
  using assms by (intro load64_cong) (auto simp: same_page_def entry_in_page)

lemma store_entry_same_page:
  assumes "a mod PGSIZE = 0" "y mod PGSIZE = 0" "y \<noteq> a" "i < 512"
  shows "same_page m (store64 (a + 8 * i) v m) y"
proof -
  have "\<not> unat (b - (a + 8 * i)) < 8" if "in_page b y" for b
  proof
    assume "unat (b - (a + 8 * i)) < 8"
    then have "in_page (a + 8 * i + of_nat (unat (b - (a + 8 * i)))) a"
      by (rule entry_in_page [OF assms(1,4)])
    then show False using page_disjoint [OF assms(2,1,3) that] by simp
  qed
  then show ?thesis by (simp add: same_page_def store64_def write_bytes_def)
qed

lemma load_zero_page:
  assumes "\<And>x. in_page x a \<Longrightarrow> m x = 0" "a mod PGSIZE = 0" "i < 512"
  shows "load64 m (a + 8 * i) = 0"
proof -
  have "bytes m (a + 8 * i) 8 = replicate 8 0"
    using assms by (intro nth_equalityI) (simp_all add: entry_in_page)
  then show ?thesis by (simp add: load64_def eval_nat_numeral)
qed

section \<open>The tree of tables\<close>

fun entry_for :: "u64 option \<Rightarrow> u64 \<Rightarrow> bool" where
  "entry_for (Some c) v \<longleftrightarrow> v = PA2PTE c OR 1"
| "entry_for None v \<longleftrightarrow> v AND 1 = 0"

definition pt_rep :: "u64 \<Rightarrow> (u64 list \<Rightarrow> u64 option) \<Rightarrow> mem \<Rightarrow> bool" where
  "pt_rep root tab m \<longleftrightarrow>
     tab [] = Some root \<and>
     (\<forall>n a. tab n = Some a \<longrightarrow> length n \<le> 2 \<and> a mod PGSIZE = 0 \<and> a \<noteq> 0) \<and>
     (\<forall>n n' a. tab n = Some a \<longrightarrow> tab n' = Some a \<longrightarrow> n = n') \<and>
     (\<forall>n i. tab (n @ [i]) \<noteq> None \<longrightarrow> tab n \<noteq> None \<and> i < 512) \<and>
     (\<forall>n a i. tab n = Some a \<longrightarrow> length n < 2 \<longrightarrow> i < 512 \<longrightarrow> entry_for (tab (n @ [i])) (load64 m (a + 8 * i)))"

text \<open>The last-level entry for a virtual address, 0 without a last-level table.\<close>

definition leaf :: "(u64 list \<Rightarrow> u64 option) \<Rightarrow> mem \<Rightarrow> u64 \<Rightarrow> u64" where
  "leaf tab m va =
     (case tab [PX 2 va, PX 1 va] of None \<Rightarrow> 0 | Some a \<Rightarrow> load64 m (a + 8 * PX 0 va))"

lemma PX_less [simp]: "PX l va < 512"
proof -
  have "PX l va \<le> 0x1FF" unfolding PX_def by (rule word_and_le1)
  then show ?thesis by (simp add: word_le_nat_alt word_less_nat_alt)
qed

lemma pt_repD:
  assumes "pt_rep root tab m"
  shows "tab [] = Some root"
    and "tab n = Some a \<Longrightarrow> length n \<le> 2 \<and> a mod PGSIZE = 0 \<and> a \<noteq> 0"
    and "tab n = Some a \<Longrightarrow> tab n' = Some a \<Longrightarrow> n = n'"
    and "tab n = Some a \<Longrightarrow> length n < 2 \<Longrightarrow> i < 512 \<Longrightarrow> entry_for (tab (n @ [i])) (load64 m (a + 8 * i))"
    and "tab (n @ [i]) \<noteq> None \<Longrightarrow> tab n \<noteq> None \<and> i < 512"
  using assms unfolding pt_rep_def by blast+

lemma table_valid' [simp]: "(PA2PTE a OR 1) AND 1 \<noteq> 0"
  using table_valid [of a 0] by simp

lemma walk_found:
  assumes r: "pt_rep root tab (pmem s)" and t: "tab [PX 2 va, PX 1 va] = Some a"
  shows "walk_loop 2 root va alloc s = (a + 8 * PX 0 va, s)"
proof -
  obtain b where b: "tab [PX 2 va] = Some b"
    using pt_repD(5) [OF r, of "[PX 2 va]" "PX 1 va"] t by auto
  have "load64 (pmem s) (root + 8 * PX 2 va) = PA2PTE b OR 1"
    using pt_repD(4) [OF r pt_repD(1) [OF r], of "PX 2 va"] b by simp
  moreover have "load64 (pmem s) (b + 8 * PX 1 va) = PA2PTE a OR 1"
    using pt_repD(4) [OF r b, of "PX 1 va"] t by simp
  ultimately show ?thesis
    using pt_repD(2) [OF r b] pt_repD(2) [OF r t]
    by (simp add: numeral_2_eq_2 Let_def table_not_leaf PTE2PA_table)
qed

lemma walk_missing:
  assumes r: "pt_rep root tab (pmem s)" and t: "tab [PX 2 va, PX 1 va] = None"
  shows "walk_loop 2 root va False s = (0, s)"
proof (cases "tab [PX 2 va]")
  case None
  then have "load64 (pmem s) (root + 8 * PX 2 va) AND 1 = 0"
    using pt_repD(4) [OF r pt_repD(1) [OF r], of "PX 2 va"] None by simp
  then show ?thesis by (simp add: numeral_2_eq_2 Let_def)
next
  case (Some b)
  have "load64 (pmem s) (root + 8 * PX 2 va) = PA2PTE b OR 1"
    using pt_repD(4) [OF r pt_repD(1) [OF r], of "PX 2 va"] Some by simp
  moreover have "load64 (pmem s) (b + 8 * PX 1 va) AND 1 = 0"
    using pt_repD(4) [OF r Some, of "PX 1 va"] t by simp
  ultimately show ?thesis
    using pt_repD(2) [OF r Some] by (simp add: numeral_2_eq_2 Let_def table_not_leaf PTE2PA_table)
qed

lemma pt_rep_frame:
  assumes r: "pt_rep root tab m" and f: "\<And>a. a \<in> ran tab \<Longrightarrow> same_page m m' a"
  shows "pt_rep root tab m'" "leaf tab m' va = leaf tab m va"
proof -
  have e: "load64 m' (a + 8 * i) = load64 m (a + 8 * i)" if "tab n = Some a" "i < 512" for n a i
    using that pt_repD(2) [OF r] f by (intro load_same_page) (auto simp: ran_def)
  show "pt_rep root tab m'"
    using r unfolding pt_rep_def by (simp add: e)
  show "leaf tab m' va = leaf tab m va" by (auto simp: leaf_def e split: option.splits)
qed

section \<open>Growing the tree\<close>

text \<open>An address space with its allocator: the tree at \<open>root\<close> and the free list \<open>xs\<close> share
  no page.  \<open>grown\<close>: from one such state to another, tables were added from the free list
  and no last-level entry and no foreign page has changed.\<close>

definition aspace :: "u64 \<Rightarrow> u64 \<Rightarrow> (u64 list \<Rightarrow> u64 option) \<Rightarrow> u64 list \<Rightarrow> phys \<Rightarrow> bool" where
  "aspace kend root tab xs s \<longleftrightarrow>
     pt_rep root tab (pmem s) \<and> kmem_rep kend s xs \<and> ran tab \<inter> set xs = {}"

definition extends ::
  "(u64 list \<Rightarrow> u64 option) \<Rightarrow> u64 list \<Rightarrow> phys \<Rightarrow> (u64 list \<Rightarrow> u64 option) \<Rightarrow> u64 list \<Rightarrow> phys \<Rightarrow> bool" where
  "extends tab xs s tab' ys t \<longleftrightarrow>
     tab \<subseteq>\<^sub>m tab' \<and> ran tab' \<union> set ys = ran tab \<union> set xs \<and>
     (\<forall>x. x mod PGSIZE = 0 \<longrightarrow> x \<notin> ran tab \<union> set xs \<longrightarrow> same_page (pmem s) (pmem t) x)"

definition grown ::
  "(u64 list \<Rightarrow> u64 option) \<Rightarrow> u64 list \<Rightarrow> phys \<Rightarrow> (u64 list \<Rightarrow> u64 option) \<Rightarrow> u64 list \<Rightarrow> phys \<Rightarrow> bool" where
  "grown tab xs s tab' ys t \<longleftrightarrow>
     extends tab xs s tab' ys t \<and> (\<forall>v. leaf tab' (pmem t) v = leaf tab (pmem s) v)"

lemma extendsD:
  assumes "extends tab xs s tab' ys t"
  shows "tab \<subseteq>\<^sub>m tab'" "ran tab' \<union> set ys = ran tab \<union> set xs"
    and "x mod PGSIZE = 0 \<Longrightarrow> x \<notin> ran tab \<union> set xs \<Longrightarrow> same_page (pmem s) (pmem t) x"
  using assms unfolding extends_def by simp_all

lemma grownD:
  assumes "grown tab xs s tab' ys t"
  shows "extends tab xs s tab' ys t" "leaf tab' (pmem t) v = leaf tab (pmem s) v"
  using assms unfolding grown_def by simp_all

lemma extends_refl: "extends tab xs s tab xs s"
  by (simp add: extends_def same_page_def)

lemma extends_trans:
  assumes g: "extends tab xs s tab' ys t" and h: "extends tab' ys t tab'' zs u"
  shows "extends tab xs s tab'' zs u"
  unfolding extends_def
proof (intro conjI allI impI)
  show "tab \<subseteq>\<^sub>m tab''" using extendsD(1) [OF g] extendsD(1) [OF h] by (rule map_le_trans)
  show "ran tab'' \<union> set zs = ran tab \<union> set xs" using extendsD(2) [OF g] extendsD(2) [OF h] by simp
  fix x :: u64
  assume x: "x mod PGSIZE = 0" "x \<notin> ran tab \<union> set xs"
  then have x': "x \<notin> ran tab' \<union> set ys" using extendsD(2) [OF g] by simp
  show "same_page (pmem s) (pmem u) x"
    using extendsD(3) [OF g x] extendsD(3) [OF h x(1) x'] by (rule same_page_trans)
qed

lemma grown_refl: "grown tab xs s tab xs s"
  by (simp add: grown_def extends_refl)

lemma grown_trans:
  "grown tab xs s tab' ys t \<Longrightarrow> grown tab' ys t tab'' zs u \<Longrightarrow> grown tab xs s tab'' zs u"
  unfolding grown_def by (metis extends_trans)

lemma kmem_page: "kmem_rep kend s xs \<Longrightarrow> x \<in> set xs \<Longrightarrow> x mod PGSIZE = 0"
  by (simp add: kmem_rep_def page_ok_def)

lemma pt_rep_add:
  assumes r: "pt_rep root tab m" and n: "tab n = Some a" "length n < 2" "i < 512" "tab (n @ [i]) = None"
    and c: "c mod PGSIZE = 0" "c \<noteq> 0" "c \<notin> ran tab" "\<And>x. in_page x c \<Longrightarrow> m x = 0"
  defines "m' \<equiv> store64 (a + 8 * i) (PA2PTE c OR 1) m" and "tab' \<equiv> tab(n @ [i] \<mapsto> c)"
  shows "pt_rep root tab' m'" "leaf tab' m' v = leaf tab m v"
proof -
  have a: "a mod PGSIZE = 0" using pt_repD(2) [OF r n(1)] by simp
  have noc: "tab k \<noteq> Some c" for k using c(3) by (auto simp: ran_def)
  have other: "load64 m' (b + 8 * j) = load64 m (b + 8 * j)"
    if "b mod PGSIZE = 0" "j < 512" "\<not> (a = b \<and> i = j)" for b j
    unfolding m'_def by (rule entry_store [OF a that(1) n(3) that(2,3)])
  have zero: "load64 m' (c + 8 * j) = 0" if "j < 512" for j
    using other [OF c(1) that] load_zero_page [OF c(4) c(1) that] n(1) noc by auto
  have childless: "tab (n @ [i] @ [j]) = None" for j
    using pt_repD(5) [OF r, of "n @ [i]" j] n(4) by fastforce
  have entries: "entry_for (tab' (k @ [j])) (load64 m' (b + 8 * j))"
    if k: "tab' k = Some b" "length k < 2" "j < 512" for k b j
  proof (cases "k = n @ [i]")
    case True
    then show ?thesis using k zero childless [of j] by (auto simp: tab'_def)
  next
    case False
    then have kb: "tab k = Some b" using k by (auto simp: tab'_def)
    then have b: "b mod PGSIZE = 0" using pt_repD(2) [OF r] by blast
    show ?thesis
    proof (cases "k = n \<and> j = i")
      case True
      then show ?thesis using kb n(1) by (simp add: m'_def tab'_def)
    next
      case False
      then have "\<not> (a = b \<and> i = j)" using pt_repD(3) [OF r kb, of n] n(1) by blast
      moreover have "tab' (k @ [j]) = tab (k @ [j])" using False by (auto simp: tab'_def)
      ultimately show ?thesis using pt_repD(4) [OF r kb k(2,3)] other [OF b k(3)] by simp
    qed
  qed
  have pages: "length k \<le> 2 \<and> b mod PGSIZE = 0 \<and> b \<noteq> 0" if "tab' k = Some b" for k b
    using that pt_repD(2) [OF r, of k b] n(2) c(1,2) unfolding tab'_def by (cases "k = n @ [i]") auto
  have inj: "k = k'" if "tab' k = Some b" "tab' k' = Some b" for k k' b
    using that pt_repD(3) [OF r, of k b k'] noc unfolding tab'_def by (auto split: if_splits)
  have closed: "tab' k \<noteq> None \<and> j < 512" if "tab' (k @ [j]) \<noteq> None" for k j
    using that pt_repD(5) [OF r, of k j] n(1,3) unfolding tab'_def by (auto split: if_splits)
  show "pt_rep root tab' m'"
    unfolding pt_rep_def
  proof (intro conjI allI impI)
    show "tab' [] = Some root" using pt_repD(1) [OF r] by (simp add: tab'_def)
  qed (use pages inj closed entries in blast)+
  show "leaf tab' m' v = leaf tab m v"
  proof (cases "[PX 2 v, PX 1 v] = n @ [i]")
    case True
    have "leaf tab' m' v = load64 m' (c + 8 * PX 0 v)" "leaf tab m v = 0"
      unfolding leaf_def tab'_def True using n(4) by simp_all
    then show ?thesis using zero by simp
  next
    case False
    have "\<not> (a = b \<and> i = PX 0 v)" if "tab [PX 2 v, PX 1 v] = Some b" for b
      using pt_repD(3) [OF r that, of n] n(1,2) by auto
    then show ?thesis
      using False other pt_repD(2) [OF r] by (auto simp: leaf_def tab'_def split: option.splits)
  qed
qed

text \<open>One level of a walk that may allocate: the entry for \<open>i\<close> of the table at path \<open>n\<close>.\<close>

definition walk_step :: "u64 \<Rightarrow> u64 \<Rightarrow> phys \<Rightarrow> u64 \<times> phys" where
  "walk_step pagetable i s =
     (let pte = pagetable + 8 * i; v = load64 (pmem s) pte
      in if v AND PTE_V \<noteq> 0 then (PTE2PA v, s)
         else let (pg, s) = kalloc s
              in if pg = 0 then (0, s)
                 else let s = s\<lparr>pmem := memset pg 0 4096 (pmem s)\<rparr>
                      in (pg, s\<lparr>pmem := store64 pte (PA2PTE pg OR PTE_V) (pmem s)\<rparr>))"

lemma walk_loop_step:
  assumes "load64 (pmem s) (pt + 8 * PX k va) AND PTE_V \<noteq> 0 \<longrightarrow>
     \<not> PTE_LEAF (load64 (pmem s) (pt + 8 * PX k va)) \<and> PTE2PA (load64 (pmem s) (pt + 8 * PX k va)) \<noteq> 0"
    "walk_step pt (PX k va) s = (q, t)" "k = Suc l"
  shows "walk_loop k pt va True s = (if q = 0 then (0, t) else walk_loop l q va True t)"
  using assms by (auto simp: walk_step_def Let_def split: prod.splits if_splits)

lemma walk_step_grows:
  assumes as: "aspace kend root tab xs s" and n: "tab n = Some a" "length n < 2" "i < 512"
  shows "\<exists>q t tab' ys. walk_step a i s = (q, t) \<and> aspace kend root tab' ys t \<and> grown tab xs s tab' ys t \<and>
    (if q = 0 then ys = [] \<and> tab' (n @ [i]) = None else tab' (n @ [i]) = Some q)"
proof -
  have r: "pt_rep root tab (pmem s)" and k: "kmem_rep kend s xs" and d: "ran tab \<inter> set xs = {}"
    using as by (auto simp: aspace_def)
  have e: "entry_for (tab (n @ [i])) (load64 (pmem s) (a + 8 * i))" by (rule pt_repD(4) [OF r n])
  show ?thesis
  proof (cases "tab (n @ [i])")
    case (Some c)
    then have "walk_step a i s = (c, s)" "c \<noteq> 0"
      using e pt_repD(2) [OF r Some] by (simp_all add: walk_step_def PTE2PA_table)
    then show ?thesis using as Some grown_refl by fastforce
  next
    case None
    then have inv: "load64 (pmem s) (a + 8 * i) AND 1 = 0" using e by simp
    show ?thesis
    proof (cases xs)
      case Nil
      then have "walk_step a i s = (0, s)" using inv kalloc_none k by (simp add: walk_step_def)
      then show ?thesis using as Nil None grown_refl by fastforce
    next
      case (Cons x ys)
      obtain t where t: "kalloc s = (x, t)" "kmem_rep kend t ys" "x \<noteq> 0"
          "\<And>y. y mod PGSIZE = 0 \<Longrightarrow> y \<noteq> x \<Longrightarrow> same_page (pmem s) (pmem t) y"
        using kalloc_rep [of kend s x ys] k Cons by auto
      define m where "m = memset x 0 4096 (pmem t)"
      define m' where "m' = store64 (a + 8 * i) (PA2PTE x OR 1) m"
      have st: "walk_step a i s = (x, t\<lparr>pmem := m'\<rparr>)"
        using inv t(1,3) by (simp add: walk_step_def m_def m'_def)
      have x: "x mod PGSIZE = 0" using kmem_page k Cons by auto
      have xs: "x \<notin> ran tab" "x \<notin> set ys" using d Cons kmem_rep_distinct [OF k] by auto
      have al: "a mod PGSIZE = 0" "a \<in> ran tab" using pt_repD(2) [OF r n(1)] n(1) by (auto simp: ran_def)
      have sm: "same_page (pmem s) m y" if "y mod PGSIZE = 0" "y \<noteq> x" for y
        using same_page_trans [OF t(4) [OF that] memset_same_page [OF x that(1)]] that(2) m_def by metis
      have sm': "same_page (pmem s) m' y" if "y mod PGSIZE = 0" "y \<noteq> x" "y \<noteq> a" for y
        using sm [OF that(1,2)] that(1,3) store_entry_same_page [OF al(1) that(1) _ n(3)] same_page_trans
        unfolding m'_def by blast
      have fr: "same_page (pmem s) m b" if "b \<in> ran tab" for b
      proof -
        obtain k where "tab k = Some b" using \<open>b \<in> ran tab\<close> by (auto simp: ran_def)
        then show ?thesis using pt_repD(2) [OF r] that xs(1) by (intro sm) auto
      qed
      note rm = pt_rep_frame [OF r fr]
      have zero: "m b = 0" if "in_page b x" for b using that by (simp add: m_def memset_apply in_page_def)
      note add = pt_rep_add [OF rm(1) n None x t(3) xs(1) zero, folded m'_def]
      have ra: "ran (tab(n @ [i] \<mapsto> x)) = insert x (ran tab)" using None by (simp add: ran_map_upd)
      have "same_page (pmem t) m' y" if "y \<in> set ys" for y
      proof -
        have y: "y mod PGSIZE = 0" "y \<noteq> x" "y \<noteq> a" using kmem_page [OF k] that Cons xs(2) d al(2) by auto
        show ?thesis using t(4) [OF y(1,2)] sm' [OF y] by (simp add: same_page_def)
      qed
      then have "kmem_rep kend (t\<lparr>pmem := m'\<rparr>) ys" by (rule kmem_rep_frame [OF t(2)])
      then have "aspace kend root (tab(n @ [i] \<mapsto> x)) ys (t\<lparr>pmem := m'\<rparr>)"
        using add(1) ra xs d Cons by (auto simp: aspace_def)
      moreover have "grown tab xs s (tab(n @ [i] \<mapsto> x)) ys (t\<lparr>pmem := m'\<rparr>)"
        unfolding grown_def extends_def
      proof (intro conjI allI impI)
        show "tab \<subseteq>\<^sub>m tab(n @ [i] \<mapsto> x)" using None by (auto simp: map_le_def)
        show "leaf (tab(n @ [i] \<mapsto> x)) (pmem (t\<lparr>pmem := m'\<rparr>)) v = leaf tab (pmem s) v" for v
          using add(2) rm(2) by simp
        show "same_page (pmem s) (pmem (t\<lparr>pmem := m'\<rparr>)) y" if "y mod PGSIZE = 0" "y \<notin> ran tab \<union> set xs" for y
          using sm' [OF that(1)] that(2) al(2) Cons by auto
      qed (use ra Cons in auto)
      ultimately show ?thesis using st t(3) by (intro exI conjI) auto
    qed
  qed
qed

lemma entry_walkable:
  assumes r: "pt_rep root tab (pmem s)" and n: "tab n = Some a" "length n < 2" "i < 512"
  shows "load64 (pmem s) (a + 8 * i) AND PTE_V \<noteq> 0 \<longrightarrow>
    \<not> PTE_LEAF (load64 (pmem s) (a + 8 * i)) \<and> PTE2PA (load64 (pmem s) (a + 8 * i)) \<noteq> 0"
proof (cases "tab (n @ [i])")
  case None
  then show ?thesis using pt_repD(4) [OF r n] by simp
next
  case (Some c)
  then show ?thesis using pt_repD(4) [OF r n] pt_repD(2) [OF r Some] by (simp add: table_not_leaf PTE2PA_table)
qed

lemma walk_grows:
  assumes as: "aspace kend root tab xs s"
  shows "\<exists>p t tab' ys. walk_loop 2 root va True s = (p, t) \<and> aspace kend root tab' ys t \<and>
    grown tab xs s tab' ys t \<and>
    (if p = 0 then ys = [] \<and> tab' [PX 2 va, PX 1 va] = None
     else \<exists>a. tab' [PX 2 va, PX 1 va] = Some a \<and> p = a + 8 * PX 0 va)"
proof -
  have r: "pt_rep root tab (pmem s)" using as by (simp add: aspace_def)
  obtain q t tab1 ys where 1: "walk_step root (PX 2 va) s = (q, t)" "aspace kend root tab1 ys t"
      "grown tab xs s tab1 ys t" "if q = 0 then ys = [] \<and> tab1 ([] @ [PX 2 va]) = None else tab1 ([] @ [PX 2 va]) = Some q"
    using walk_step_grows [OF as pt_repD(1) [OF r], of "PX 2 va"] by auto
  have w1: "walk_loop 2 root va True s = (if q = 0 then (0, t) else walk_loop 1 q va True t)"
    by (rule walk_loop_step [OF entry_walkable [OF r pt_repD(1) [OF r]] 1(1)]) simp_all
  show ?thesis
  proof (cases "q = 0")
    case True
    have r1: "pt_rep root tab1 (pmem t)" using 1(2) by (simp add: aspace_def)
    have "tab1 [PX 2 va, PX 1 va] = None"
      using True 1(4) pt_repD(5) [OF r1, of "[PX 2 va]" "PX 1 va"] by fastforce
    then show ?thesis using w1 1 True by auto
  next
    case False
    then have q: "tab1 [PX 2 va] = Some q" using 1(4) by simp
    obtain q' u tab2 zs where 2: "walk_step q (PX 1 va) t = (q', u)" "aspace kend root tab2 zs u"
        "grown tab1 ys t tab2 zs u" "if q' = 0 then zs = [] \<and> tab2 ([PX 2 va] @ [PX 1 va]) = None else tab2 ([PX 2 va] @ [PX 1 va]) = Some q'"
      using walk_step_grows [OF 1(2) q, of "PX 1 va"] by auto
    have r1: "pt_rep root tab1 (pmem t)" using 1(2) by (simp add: aspace_def)
    have w2: "walk_loop 1 q va True t = (if q' = 0 then (0, u) else walk_loop 0 q' va True u)"
      by (rule walk_loop_step [OF entry_walkable [OF r1 q] 2(1)]) simp_all
    have r2: "pt_rep root tab2 (pmem u)" using 2(2) by (simp add: aspace_def)
    have "q' \<noteq> 0 \<Longrightarrow> q' + 8 * PX 0 va \<noteq> 0"
      using 2(4) pt_repD(2) [OF r2, of "[PX 2 va, PX 1 va]" q'] unat_entry [of q' "PX 0 va"]
      by (auto simp: unat_eq_0 [symmetric])
    then show ?thesis
      using w1 w2 False 2 grown_trans [OF 1(3) 2(3)]
      by (intro exI [of _ "if q' = 0 then 0 else q' + 8 * PX 0 va"] exI [of _ u] exI [of _ tab2] exI [of _ zs])
        auto
  qed
qed

section \<open>Installing a mapping\<close>

definition vpage :: "u64 \<Rightarrow> nat" where
  "vpage va = unat va div 4096"

lemma unat_PX: "unat (PX l va) = unat va div 2 ^ (12 + 9 * l) mod 512"
proof -
  have "PX l va = take_bit 9 (drop_bit (12 + 9 * l) va)"
    by (simp add: PX_def take_bit_eq_mask mask_eq_decr_exp)
  then have "unat (PX l va) = take_bit 9 (drop_bit (12 + 9 * l) (unat va))"
    using take_bit_nat_eq_self [of "unat va" 64] unat_u64 [of va]
    by (simp only: unsigned_take_bit_eq unsigned_drop_bit_eq) simp
  then show ?thesis by (simp only: take_bit_eq_mod drop_bit_eq_div) simp
qed

lemma PX_eq_iff:
  assumes "v < MAXVA" "w < MAXVA"
  shows "(PX 2 v = PX 2 w \<and> PX 1 v = PX 1 w \<and> PX 0 v = PX 0 w) \<longleftrightarrow> vpage v = vpage w"
proof -
  have digits: "q = 262144 * (q div 262144 mod 512) + 512 * (q div 512 mod 512) + q mod 512"
    if "q < 67108864" for q :: nat
  proof -
    have "q div 262144 mod 512 = q div 512 div 512" using that by (simp add: div_mult2_eq [symmetric] div_less_iff_less_mult)
    then show ?thesis using mult_div_mod_eq [of 512 "q div 512"] mult_div_mod_eq [of 512 q] by linarith
  qed
  have px: "unat (PX 2 v) = vpage v div 262144 mod 512" "unat (PX 1 v) = vpage v div 512 mod 512"
    "unat (PX 0 v) = vpage v mod 512" for v
    by (simp_all add: unat_PX vpage_def div_mult2_eq [symmetric])
  have "vpage v < 67108864" "vpage w < 67108864"
    using assms by (simp_all add: vpage_def word_less_nat_alt div_less_iff_less_mult)
  note this [THEN digits]
  then show ?thesis unfolding word_unat_eq_iff px by metis
qed

lemma set_leaf:
  fixes e :: u64
  assumes r: "pt_rep root tab m" and t: "tab [PX 2 va, PX 1 va] = Some a" and va: "va < MAXVA"
  defines "m' \<equiv> store64 (a + 8 * PX 0 va) e m"
  shows "pt_rep root tab m'"
    and "w < MAXVA \<Longrightarrow> leaf tab m' w = (if vpage w = vpage va then e else leaf tab m w)"
proof -
  have a: "a mod PGSIZE = 0" using pt_repD(2) [OF r t] by simp
  have other: "load64 m' (b + 8 * j) = load64 m (b + 8 * j)"
    if "tab n = Some b" "j < 512" "\<not> (n = [PX 2 va, PX 1 va] \<and> j = PX 0 va)" for n b j
    unfolding m'_def
    using that pt_repD(2) [OF r that(1)] pt_repD(3) [OF r that(1), of "[PX 2 va, PX 1 va]"] t
    by (intro entry_store [OF a]) auto
  have o2: "load64 m' (b + 8 * j) = load64 m (b + 8 * j)" if "tab n = Some b" "j < 512" "length n < 2" for n b j
    using that by (intro other) auto
  show "pt_rep root tab m'" using r unfolding pt_rep_def by (simp add: o2)
  assume w: "w < MAXVA"
  show "leaf tab m' w = (if vpage w = vpage va then e else leaf tab m w)"
  proof (cases "vpage w = vpage va")
    case True
    then have "PX 2 w = PX 2 va" "PX 1 w = PX 1 va" "PX 0 w = PX 0 va" using PX_eq_iff [OF w va] by auto
    then show ?thesis using t True by (simp add: leaf_def m'_def)
  next
    case False
    then have "\<not> ([PX 2 w, PX 1 w] = [PX 2 va, PX 1 va] \<and> PX 0 w = PX 0 va)" using PX_eq_iff [OF w va] by auto
    then show ?thesis using False other by (auto simp: leaf_def split: option.splits)
  qed
qed

text \<open>The entries after \<open>k\<close> pages from \<open>va\<close> on have been mapped to the pages from \<open>pa\<close> on.\<close>

definition with_map :: "nat \<Rightarrow> u64 \<Rightarrow> u64 \<Rightarrow> u64 \<Rightarrow> (u64 \<Rightarrow> u64) \<Rightarrow> u64 \<Rightarrow> u64" where
  "with_map k va pa perm f v =
     (if vpage va \<le> vpage v \<and> vpage v < vpage va + k
      then PA2PTE (pa + of_nat (4096 * (vpage v - vpage va))) OR perm OR PTE_V else f v)"

lemma with_map_0 [simp]: "with_map 0 va pa perm f = f"
  by (rule ext) (auto simp: with_map_def)

lemma with_map_Suc:
  assumes "vpage (va + PGSIZE) = Suc (vpage va)"
  shows "with_map (Suc k) va pa perm f v = with_map k (va + PGSIZE) (pa + PGSIZE) perm (with_map 1 va pa perm f) v"
proof (cases "vpage v = vpage va")
  case True
  then show ?thesis using assms by (simp add: with_map_def)
next
  case False
  have "4096 + of_nat (4096 * (vpage v - Suc (vpage va))) = (of_nat (4096 * (vpage v - vpage va)) :: u64)"
    if "vpage va < vpage v"
  proof -
    have "4096 * (vpage v - vpage va) = 4096 + 4096 * (vpage v - Suc (vpage va))" using that by simp
    then show ?thesis by (simp only: of_nat_add of_nat_numeral)
  qed
  then show ?thesis using False assms by (auto simp: with_map_def add.assoc)
qed

lemma vpage_next:
  assumes "unat a + 4096 < 2 ^ 64"
  shows "vpage (a + PGSIZE) = Suc (vpage a)" "unat (a + PGSIZE) = unat a + 4096"
proof -
  show "unat (a + PGSIZE) = unat a + 4096" using assms by (simp add: unat_word_ariths(1))
  then show "vpage (a + PGSIZE) = Suc (vpage a)" by (simp add: vpage_def)
qed

lemma map_one:
  assumes as: "aspace kend root tab xs s" and a: "a < MAXVA" and inv: "leaf tab (pmem s) a AND PTE_V = 0"
  shows "\<exists>p t. walk root a True s = Inr (p, t) \<and>
    (p = 0 \<and> (\<exists>tab'. aspace kend root tab' [] t \<and> grown tab xs s tab' [] t \<and> tab' [PX 2 a, PX 1 a] = None) \<or>
     p \<noteq> 0 \<and> load64 (pmem t) p AND PTE_V = 0 \<and>
     (\<exists>tab' ys. aspace kend root tab' ys (t\<lparr>pmem := store64 p e (pmem t)\<rparr>) \<and>
        extends tab xs s tab' ys (t\<lparr>pmem := store64 p e (pmem t)\<rparr>) \<and>
        (\<forall>v<MAXVA. leaf tab' (store64 p e (pmem t)) v = (if vpage v = vpage a then e else leaf tab (pmem s) v))))"
proof -
  obtain p t tab' ys where w: "walk_loop 2 root a True s = (p, t)" "aspace kend root tab' ys t"
      "grown tab xs s tab' ys t" "if p = 0 then ys = [] \<and> tab' [PX 2 a, PX 1 a] = None
         else \<exists>b. tab' [PX 2 a, PX 1 a] = Some b \<and> p = b + 8 * PX 0 a"
    using walk_grows [OF as] by blast
  have wk: "walk root a True s = Inr (p, t)" using w(1) a by (simp add: walk_def)
  show ?thesis
  proof (cases "p = 0")
    case True
    then show ?thesis using wk w by auto
  next
    case False
    then obtain b where b: "tab' [PX 2 a, PX 1 a] = Some b" "p = b + 8 * PX 0 a" using w(4) by auto
    define u where "u = t\<lparr>pmem := store64 p e (pmem t)\<rparr>"
    have r: "pt_rep root tab' (pmem t)" and k: "kmem_rep kend t ys" and d: "ran tab' \<inter> set ys = {}"
      using w(2) by (auto simp: aspace_def)
    have bp: "b mod PGSIZE = 0" "b \<in> ran tab'" using pt_repD(2) [OF r b(1)] b(1) by (auto simp: ran_def)
    have "load64 (pmem t) p = leaf tab' (pmem t) a" using b by (simp add: leaf_def)
    then have v: "load64 (pmem t) p AND PTE_V = 0" using inv grownD(2) [OF w(3)] by simp
    have sp: "same_page (pmem t) (pmem u) y" if "y mod PGSIZE = 0" "y \<noteq> b" for y
      unfolding u_def b(2) using store_entry_same_page [OF bp(1) that] by simp
    have "kmem_rep kend u ys"
      unfolding u_def using sp kmem_page [OF k] d bp(2) by (intro kmem_rep_frame [OF k]) (auto simp: u_def)
    then have au: "aspace kend root tab' ys u"
      using set_leaf(1) [OF r b(1) a, of e] d by (simp add: aspace_def u_def b(2))
    have "extends tab' ys t tab' ys u"
      unfolding extends_def
    proof (intro conjI allI impI)
      show "same_page (pmem t) (pmem u) x" if "x mod PGSIZE = 0" "x \<notin> ran tab' \<union> set ys" for x
        using sp [OF that(1)] that(2) bp(2) by blast
    qed simp_all
    then have eu: "extends tab xs s tab' ys u" by (rule extends_trans [OF grownD(1) [OF w(3)]])
    have "\<forall>v<MAXVA. leaf tab' (store64 p e (pmem t)) v = (if vpage v = vpage a then e else leaf tab (pmem s) v)"
      using set_leaf(2) [OF r b(1) a, of _ e] grownD(2) [OF w(3)] by (simp add: b(2))
    then show ?thesis using wk False v au [unfolded u_def] eu [unfolded u_def] by blast
  qed
qed

lemma mappages_loop_step:
  "walk root a True s = Inr (p, t) \<Longrightarrow> mappages_loop root a lst pa perm s =
     (if p = 0 then Some (Inr (-1, t))
      else if load64 (pmem t) p AND PTE_V \<noteq> 0 then Some (Inl (Panic ''mappages: remap''))
      else let u = t\<lparr>pmem := store64 p (PA2PTE pa OR perm OR PTE_V) (pmem t)\<rparr>
           in if a = lst then Some (Inr (0, u))
              else mappages_loop root (a + PGSIZE) lst (pa + PGSIZE) perm u)"
  by (subst mappages_loop.simps) (simp add: Let_def)

lemma mappages_loop_maps:
  assumes "aspace kend root tab xs s" "0 < n" "unat a + 4096 * n \<le> 2 ^ 38" "a mod PGSIZE = 0"
    "\<And>v. v < MAXVA \<Longrightarrow> vpage a \<le> vpage v \<Longrightarrow> vpage v < vpage a + n \<Longrightarrow> leaf tab (pmem s) v AND PTE_V = 0"
  shows "\<exists>k\<le>n. \<exists>t tab' ys.
    mappages_loop root a (a + of_nat (4096 * (n - 1))) pa perm s = Some (Inr (if k = n then 0 else -1, t)) \<and>
    aspace kend root tab' ys t \<and> extends tab xs s tab' ys t \<and> 
    (k < n \<longrightarrow> ys = [] \<and> (let v = a + of_nat (4096 * k) in tab' [PX 2 v, PX 1 v] = None)) \<and>
    (\<forall>v<MAXVA. leaf tab' (pmem t) v = with_map k a pa perm (leaf tab (pmem s)) v)"
  using assms
proof (induction n arbitrary: a pa tab xs s)
  case 0
  then show ?case by simp
next
  case (Suc n)
  define e where "e = PA2PTE pa OR perm OR PTE_V"
  have a: "a < MAXVA" using Suc.prems(3) by (simp add: word_less_nat_alt)
  have nx: "vpage (a + PGSIZE) = Suc (vpage a)" "unat (a + PGSIZE) = unat a + 4096"
    using Suc.prems(3) by (auto intro!: vpage_next)
  have "leaf tab (pmem s) a AND PTE_V = 0" using Suc.prems(5) [OF a] by simp
  then obtain p t where w: "walk root a True s = Inr (p, t)"
    and alt: "p = 0 \<and> (\<exists>tab'. aspace kend root tab' [] t \<and> grown tab xs s tab' [] t \<and> tab' [PX 2 a, PX 1 a] = None) \<or>
     p \<noteq> 0 \<and> load64 (pmem t) p AND PTE_V = 0 \<and>
     (\<exists>tab' ys. aspace kend root tab' ys (t\<lparr>pmem := store64 p e (pmem t)\<rparr>) \<and>
        extends tab xs s tab' ys (t\<lparr>pmem := store64 p e (pmem t)\<rparr>) \<and>
        (\<forall>v<MAXVA. leaf tab' (store64 p e (pmem t)) v = (if vpage v = vpage a then e else leaf tab (pmem s) v)))"
    using map_one [OF Suc.prems(1) a, where e = e] by blast
  show ?case
  proof (cases "p = 0")
    case True
    then show ?thesis
      using alt by (intro exI [of _ 0]) (auto simp: mappages_loop_step [OF w] grown_def)
  next
    case False
    define u where "u = t\<lparr>pmem := store64 p e (pmem t)\<rparr>"
    obtain tab1 zs where 1: "aspace kend root tab1 zs u" "extends tab xs s tab1 zs u"
        "load64 (pmem t) p AND PTE_V = 0"
        "\<And>v. v < MAXVA \<Longrightarrow> leaf tab1 (pmem u) v = (if vpage v = vpage a then e else leaf tab (pmem s) v)"
      using alt False by (auto simp: u_def)
    have one: "leaf tab1 (pmem u) v = with_map 1 a pa perm (leaf tab (pmem s)) v" if "v < MAXVA" for v
      using 1(4) [OF that] by (auto simp: with_map_def e_def)
    have step: "mappages_loop root a lst pa perm s = (if a = lst then Some (Inr (0, u))
        else mappages_loop root (a + PGSIZE) lst (pa + PGSIZE) perm u)" for lst
      using mappages_loop_step [OF w] False 1(3) by (simp add: u_def e_def)
    show ?thesis
    proof (cases "n = 0")
      case True
      then show ?thesis
        using step 1(1,2) one by (intro exI [of _ 1] conjI exI [of _ u] exI [of _ tab1] exI [of _ zs]) simp_all
    next
      case False
      have ne: "a \<noteq> a + of_nat (4096 * n)"
      proof
        assume "a = a + of_nat (4096 * n)"
        then have "unat (of_nat (4096 * n) :: u64) = 0" by (metis add_cancel_left_right unat_0)
        then show False using Suc.prems(3) False unfolding unat_of_nat by simp
      qed
      have lst: "a + of_nat (4096 * n) = a + PGSIZE + of_nat (4096 * (n - 1))"
        using False by (cases n) (simp_all add: algebra_simps)
      have inv: "leaf tab1 (pmem u) v AND PTE_V = 0"
        if "v < MAXVA" "vpage (a + PGSIZE) \<le> vpage v" "vpage v < vpage (a + PGSIZE) + n" for v
        using Suc.prems(5) [OF that(1)] 1(4) [OF that(1)] that nx by auto
      obtain k t' tab' ys where k: "k \<le> n"
          "mappages_loop root (a + PGSIZE) (a + of_nat (4096 * n)) (pa + PGSIZE) perm u =
             Some (Inr (if k = n then 0 else -1, t'))"
          "aspace kend root tab' ys t'" "extends tab1 zs u tab' ys t'"
          "k < n \<longrightarrow> ys = [] \<and> (let v = a + PGSIZE + of_nat (4096 * k) in tab' [PX 2 v, PX 1 v] = None)"
          "\<forall>v<MAXVA. leaf tab' (pmem t') v = with_map k (a + PGSIZE) (pa + PGSIZE) perm (leaf tab1 (pmem u)) v"
        using Suc.IH [OF 1(1), of "a + PGSIZE" "pa + PGSIZE"] False Suc.prems(3,4) inv nx unfolding lst
        by (auto simp: page_unat)
      have "leaf tab' (pmem t') v = with_map (Suc k) a pa perm (leaf tab (pmem s)) v" if "v < MAXVA" for v
        using k(6) that one [OF that] unfolding with_map_Suc [OF nx(1)] by (simp add: with_map_def)
      then show ?thesis
        using k step ne extends_trans [OF 1(2) k(4)]
        by (intro exI [of _ "Suc k"] conjI exI [of _ t'] exI [of _ tab'] exI [of _ ys]) (auto simp: add.assoc)
    qed
  qed
qed

section \<open>Removing a mapping\<close>

lemma walk_leaf:
  assumes r: "pt_rep root tab (pmem s)" and a: "a < MAXVA" and e: "leaf tab (pmem s) a \<noteq> 0"
  shows "\<exists>b. tab [PX 2 a, PX 1 a] = Some b \<and> walk root a al s = Inr (b + 8 * PX 0 a, s) \<and>
    b + 8 * PX 0 a \<noteq> 0 \<and> load64 (pmem s) (b + 8 * PX 0 a) = leaf tab (pmem s) a"
proof -
  obtain b where b: "tab [PX 2 a, PX 1 a] = Some b" using e by (auto simp: leaf_def split: option.splits)
  have "b + 8 * PX 0 a \<noteq> 0"
    using pt_repD(2) [OF r b] unat_entry [of b "PX 0 a"] by (auto simp: unat_eq_0 [symmetric])
  then show ?thesis using b walk_found [OF r b] a by (simp add: walk_def leaf_def)
qed

text \<open>The physical pages behind \<open>n\<close> pages of addresses from \<open>va\<close> on, under the entries \<open>f\<close>, and
  when they can be given to the allocator: different pages of memory that are neither tables nor
  free already.\<close>

fun upages :: "(u64 \<Rightarrow> u64) \<Rightarrow> u64 \<Rightarrow> nat \<Rightarrow> u64 list" where
  "upages f va 0 = []"
| "upages f va (Suc n) = PTE2PA (f va) # upages f (va + PGSIZE) n"

definition freeable :: "u64 \<Rightarrow> (u64 list \<Rightarrow> u64 option) \<Rightarrow> u64 list \<Rightarrow> u64 list \<Rightarrow> bool" where
  "freeable kend tab xs ps \<longleftrightarrow> distinct ps \<and> set ps \<inter> (ran tab \<union> set xs) = {} \<and>
     (\<forall>p\<in>set ps. p \<noteq> 0 \<and> page_ok kend p)"

lemma upages_cong:
  assumes "unat a + 4096 * n \<le> 2 ^ 38"
    "\<forall>v<MAXVA. vpage a \<le> vpage v \<longrightarrow> vpage v < vpage a + n \<longrightarrow> f v = g v"
  shows "upages f a n = upages g a n"
  using assms
proof (induction n arbitrary: a)
  case (Suc n)
  have a: "a < MAXVA" using Suc.prems(1) by (simp add: word_less_nat_alt)
  have nx: "vpage (a + PGSIZE) = Suc (vpage a)" "unat (a + PGSIZE) = unat a + 4096"
    using Suc.prems(1) by (auto intro!: vpage_next)
  then have "upages f (a + PGSIZE) n = upages g (a + PGSIZE) n" using Suc.prems by (intro Suc.IH) auto
  then show ?case using Suc.prems(2) a by simp
qed simp

lemma free_page:
  assumes as: "aspace kend root tab xs s"
    and p: "fr \<Longrightarrow> p \<noteq> 0 \<and> page_ok kend p \<and> p \<notin> ran tab \<union> set xs"
  obtains u where "(if fr then kfree kend p s else Inr s) = Inr u"
    "aspace kend root tab ((if fr then [p] else []) @ xs) u"
    "\<And>v. leaf tab (pmem u) v = leaf tab (pmem s) v"
    "\<And>y. y mod PGSIZE = 0 \<Longrightarrow> (fr \<Longrightarrow> y \<noteq> p) \<Longrightarrow> same_page (pmem s) (pmem u) y"
proof (cases fr)
  case True
  have r: "pt_rep root tab (pmem s)" and k: "kmem_rep kend s xs" and d: "ran tab \<inter> set xs = {}"
    using as by (auto simp: aspace_def)
  obtain u where u: "kfree kend p s = Inr u" "kmem_rep kend u (p # xs)"
      "\<forall>y. y mod PGSIZE = 0 \<and> y \<noteq> p \<longrightarrow> same_page (pmem s) (pmem u) y"
    using kfree_rep [OF k] p [OF True] by blast
  have "same_page (pmem s) (pmem u) b" if "b \<in> ran tab" for b
    using that u(3) p [OF True] pt_repD(2) [OF r] by (auto simp: ran_def)
  note f = pt_rep_frame [OF r this]
  have "aspace kend root tab (p # xs) u" using f(1) u(2) d p [OF True] by (auto simp: aspace_def)
  then show ?thesis using that [of u] u(1,3) f(2) True by simp
next
  case False
  then show ?thesis using that [of s] as by (simp add: same_page_def)
qed

lemma clear_leaf:
  assumes as: "aspace kend root tab xs s" and b: "tab [PX 2 a, PX 1 a] = Some b" and a: "a < MAXVA"
  defines "u \<equiv> s\<lparr>pmem := store64 (b + 8 * PX 0 a) 0 (pmem s)\<rparr>"
  shows "aspace kend root tab xs u"
    and "v < MAXVA \<Longrightarrow> leaf tab (pmem u) v = (if vpage v = vpage a then 0 else leaf tab (pmem s) v)"
    and "y mod PGSIZE = 0 \<Longrightarrow> y \<notin> ran tab \<Longrightarrow> same_page (pmem s) (pmem u) y"
proof -
  have r: "pt_rep root tab (pmem s)" and k: "kmem_rep kend s xs" and d: "ran tab \<inter> set xs = {}"
    using as by (auto simp: aspace_def)
  have bp: "b mod PGSIZE = 0" "b \<in> ran tab" using pt_repD(2) [OF r b] b by (auto simp: ran_def)
  show sp: "same_page (pmem s) (pmem u) y" if "y mod PGSIZE = 0" "y \<notin> ran tab" for y
    unfolding u_def using store_entry_same_page [OF bp(1) that(1), of "PX 0 a" "pmem s" 0] that(2) bp(2) by auto
  have "kmem_rep kend u xs"
    unfolding u_def using sp kmem_page [OF k] d by (intro kmem_rep_frame [OF k]) (auto simp: u_def)
  then show "aspace kend root tab xs u" using set_leaf(1) [OF r b a, of 0] d by (simp add: aspace_def u_def)
  show "v < MAXVA \<Longrightarrow> leaf tab (pmem u) v = (if vpage v = vpage a then 0 else leaf tab (pmem s) v)"
    using set_leaf(2) [OF r b a, of v 0] by (simp add: u_def)
qed

lemma freeable_step:
  assumes "freeable kend tab xs (p # ps)"
  shows "p \<noteq> 0 \<and> page_ok kend p \<and> p \<notin> ran tab \<union> set xs" "freeable kend tab ([p] @ xs) ps"
  using assms by (auto simp: freeable_def)

lemma uvmunmap_step:
  assumes as: "aspace kend root tab xs s" and a: "a < MAXVA" "a < stop"
    and v: "leaf tab (pmem s) a AND PTE_V \<noteq> 0" "PTE_FLAGS (leaf tab (pmem s) a) \<noteq> PTE_V"
    and p: "fr \<Longrightarrow> PTE2PA (leaf tab (pmem s) a) \<noteq> 0 \<and> page_ok kend (PTE2PA (leaf tab (pmem s) a)) \<and>
      PTE2PA (leaf tab (pmem s) a) \<notin> ran tab \<union> set xs"
  obtains u where "uvmunmap_loop kend root a stop fr s = uvmunmap_loop kend root (a + PGSIZE) stop fr u"
    "aspace kend root tab ((if fr then [PTE2PA (leaf tab (pmem s) a)] else []) @ xs) u"
    "\<And>w. w < MAXVA \<Longrightarrow> leaf tab (pmem u) w = (if vpage w = vpage a then 0 else leaf tab (pmem s) w)"
    "\<And>y. y mod PGSIZE = 0 \<Longrightarrow> y \<notin> ran tab \<Longrightarrow> (fr \<Longrightarrow> y \<noteq> PTE2PA (leaf tab (pmem s) a)) \<Longrightarrow>
      same_page (pmem s) (pmem u) y"
proof -
  let ?e = "leaf tab (pmem s) a"
  have r: "pt_rep root tab (pmem s)" using as by (simp add: aspace_def)
  obtain b where b: "tab [PX 2 a, PX 1 a] = Some b" "walk root a False s = Inr (b + 8 * PX 0 a, s)"
      "b + 8 * PX 0 a \<noteq> 0" "load64 (pmem s) (b + 8 * PX 0 a) = ?e"
    using walk_leaf [OF r a(1), of False] v by fastforce
  obtain u where u: "(if fr then kfree kend (PTE2PA ?e) s else Inr s) = Inr u"
      "aspace kend root tab ((if fr then [PTE2PA ?e] else []) @ xs) u"
      "\<And>w. leaf tab (pmem u) w = leaf tab (pmem s) w"
      "\<And>y. y mod PGSIZE = 0 \<Longrightarrow> (fr \<Longrightarrow> y \<noteq> PTE2PA ?e) \<Longrightarrow> same_page (pmem s) (pmem u) y"
    using free_page [OF as p] by blast
  define t where "t = u\<lparr>pmem := store64 (b + 8 * PX 0 a) 0 (pmem u)\<rparr>"
  note c = clear_leaf [OF u(2) b(1) a(1), folded t_def]
  show ?thesis
  proof (rule that [of t])
    show "uvmunmap_loop kend root a stop fr s = uvmunmap_loop kend root (a + PGSIZE) stop fr t"
      using a(2) b(2-4) v u(1) by (subst uvmunmap_loop.simps) (cases fr; simp add: Let_def t_def)
    show "same_page (pmem s) (pmem t) y" if "y mod PGSIZE = 0" "y \<notin> ran tab" "fr \<Longrightarrow> y \<noteq> PTE2PA ?e" for y
      by (rule same_page_trans [OF u(4) c(3)]) (use that in simp_all)
  qed (use c(1,2) u(3) in simp_all)
qed

lemma uvmunmap_loop_clears:
  assumes "aspace kend root tab xs s" "unat a + 4096 * n \<le> 2 ^ 38"
    "\<forall>v<MAXVA. vpage a \<le> vpage v \<longrightarrow> vpage v < vpage a + n \<longrightarrow>
       leaf tab (pmem s) v AND PTE_V \<noteq> 0 \<and> PTE_FLAGS (leaf tab (pmem s) v) \<noteq> PTE_V"
    "fr \<Longrightarrow> freeable kend tab xs (upages (leaf tab (pmem s)) a n)"
  shows "\<exists>t. uvmunmap_loop kend root a (a + of_nat (4096 * n)) fr s = Some (Inr t) \<and>
    aspace kend root tab ((if fr then rev (upages (leaf tab (pmem s)) a n) else []) @ xs) t \<and>
    (\<forall>v<MAXVA. leaf tab (pmem t) v = (if vpage a \<le> vpage v \<and> vpage v < vpage a + n then 0 else leaf tab (pmem s) v)) \<and>
    (\<forall>y. y mod PGSIZE = 0 \<longrightarrow> y \<notin> ran tab \<longrightarrow> (fr \<longrightarrow> y \<notin> set (upages (leaf tab (pmem s)) a n)) \<longrightarrow>
       same_page (pmem s) (pmem t) y)"
  using assms
proof (induction n arbitrary: a s xs)
  case 0
  then show ?case by (subst uvmunmap_loop.simps) (auto simp: same_page_def)
next
  case (Suc n)
  let ?stop = "a + of_nat (4096 * Suc n)" and ?f = "leaf tab (pmem s)"
  let ?p = "PTE2PA (?f a)"
  have a: "a < MAXVA" using Suc.prems(2) by (simp add: word_less_nat_alt)
  have nx: "vpage (a + PGSIZE) = Suc (vpage a)" "unat (a + PGSIZE) = unat a + 4096"
    using Suc.prems(2) by (auto intro!: vpage_next)
  have st: "?stop = a + PGSIZE + of_nat (4096 * n)" by (simp add: algebra_simps)
  have "unat (of_nat (4096 * Suc n) :: u64) = 4096 * Suc n" using Suc.prems(2) unfolding unat_of_nat by simp
  then have lt: "a < ?stop" using Suc.prems(2) unfolding word_less_nat_alt unat_word_ariths(1) by simp
  have v: "?f a AND PTE_V \<noteq> 0" "PTE_FLAGS (?f a) \<noteq> PTE_V" using Suc.prems(3) a by auto
  have fs: "fr \<Longrightarrow> freeable kend tab xs (?p # upages ?f (a + PGSIZE) n)" using Suc.prems(4) by simp
  obtain u where u: "uvmunmap_loop kend root a ?stop fr s = uvmunmap_loop kend root (a + PGSIZE) ?stop fr u"
      "aspace kend root tab ((if fr then [?p] else []) @ xs) u"
      "\<And>w. w < MAXVA \<Longrightarrow> leaf tab (pmem u) w = (if vpage w = vpage a then 0 else ?f w)"
      "\<And>y. y mod PGSIZE = 0 \<Longrightarrow> y \<notin> ran tab \<Longrightarrow> (fr \<Longrightarrow> y \<noteq> ?p) \<Longrightarrow> same_page (pmem s) (pmem u) y"
    using uvmunmap_step [OF Suc.prems(1) a lt v freeable_step(1) [OF fs]] by blast
  have up: "upages (leaf tab (pmem u)) (a + PGSIZE) n = upages ?f (a + PGSIZE) n"
    using u(3) nx Suc.prems(2) by (intro upages_cong) auto
  have "\<forall>w<MAXVA. vpage (a + PGSIZE) \<le> vpage w \<longrightarrow> vpage w < vpage (a + PGSIZE) + n \<longrightarrow>
      leaf tab (pmem u) w AND PTE_V \<noteq> 0 \<and> PTE_FLAGS (leaf tab (pmem u) w) \<noteq> PTE_V"
    using Suc.prems(3) nx u(3) by auto
  moreover have "fr \<Longrightarrow> freeable kend tab ((if fr then [?p] else []) @ xs) (upages (leaf tab (pmem u)) (a + PGSIZE) n)"
    unfolding up using freeable_step(2) [OF fs] by simp
  ultimately obtain t where t: "uvmunmap_loop kend root (a + PGSIZE) ?stop fr u = Some (Inr t)"
      "aspace kend root tab ((if fr then rev (upages ?f (a + PGSIZE) n) else []) @ (if fr then [?p] else []) @ xs) t"
      "\<forall>v<MAXVA. leaf tab (pmem t) v =
         (if vpage (a + PGSIZE) \<le> vpage v \<and> vpage v < vpage (a + PGSIZE) + n then 0 else leaf tab (pmem u) v)"
      "\<forall>y. y mod PGSIZE = 0 \<longrightarrow> y \<notin> ran tab \<longrightarrow> (fr \<longrightarrow> y \<notin> set (upages ?f (a + PGSIZE) n)) \<longrightarrow> same_page (pmem u) (pmem t) y"
    using Suc.IH [OF u(2), of "a + PGSIZE", unfolded up, folded st] Suc.prems(2) nx(2) unfolding up by auto
  have "leaf tab (pmem t) w = (if vpage a \<le> vpage w \<and> vpage w < vpage a + Suc n then 0 else ?f w)" if "w < MAXVA" for w
    using t(3) that u(3) [OF that] nx(1) by auto
  moreover have "aspace kend root tab ((if fr then rev (upages ?f a (Suc n)) else []) @ xs) t"
    using t(2) by (cases fr) simp_all
  moreover have "same_page (pmem s) (pmem t) y"
    if "y mod PGSIZE = 0" "y \<notin> ran tab" "fr \<longrightarrow> y \<notin> set (upages ?f a (Suc n))" for y
    using same_page_trans [OF u(4) t(4) [rule_format]] that by simp
  ultimately show ?case using u(1) t(1) by (intro exI [of _ t]) simp
qed

section \<open>A new address space\<close>

lemma uvmcreate_aspace:
  assumes "kmem_rep kend s (x # xs)"
  shows "\<exists>t. uvmcreate s = (x, t) \<and> aspace kend x [[] \<mapsto> x] xs t \<and> (\<forall>v. leaf [[] \<mapsto> x] (pmem t) v = 0)"
proof -
  obtain t where t: "kalloc s = (x, t)" "kmem_rep kend t xs" "x \<noteq> 0" using kalloc_rep [OF assms] by blast
  define m where "m = memset x 0 4096 (pmem t)"
  have x: "x mod PGSIZE = 0" "x \<notin> set xs" using kmem_page [OF assms] kmem_rep_distinct [OF assms] by auto
  have "m b = 0" if "in_page b x" for b using that by (simp add: m_def memset_apply in_page_def)
  then have "load64 m (x + 8 * i) = 0" if "i < 512" for i
    by (rule load_zero_page [OF _ x(1) that])
  then have "pt_rep x [[] \<mapsto> x] m" using x t(3) by (simp add: pt_rep_def)
  moreover have "kmem_rep kend (t\<lparr>pmem := m\<rparr>) xs"
  proof (rule kmem_rep_frame [OF t(2)])
    show "same_page (pmem t) m y" if "y \<in> set xs" for y
      unfolding m_def using that x kmem_page [OF t(2) that] by (intro memset_same_page) auto
  qed
  moreover have "uvmcreate s = (x, t\<lparr>pmem := m\<rparr>)" using t(1,3) by (simp add: uvmcreate_def m_def)
  ultimately show ?thesis using x(2) by (auto simp: aspace_def leaf_def)
qed

text \<open>A small address space: one page of user memory, readable and writable, at address 0.\<close>

definition ex_tab :: "u64 list \<Rightarrow> u64 option" where
  "ex_tab = [[] \<mapsto> 0x1000, [0] \<mapsto> 0x2000, [0, 0] \<mapsto> 0x3000]"

definition ex_space :: phys where
  "ex_space = \<lparr>pmem = store64 0x3000 (PA2PTE 0x4000 OR 0x16 OR 1) (store64 0x2000 (PA2PTE 0x3000 OR 1)
     (store64 0x1000 (PA2PTE 0x2000 OR 1) (\<lambda>_. 0))), freelist = 0\<rparr>"

lemma ex_space_leaf:
  "aspace kend 0x1000 ex_tab [] ex_space \<and>
   (\<forall>v<MAXVA. leaf ex_tab (pmem ex_space) v = (if vpage v = 0 then PA2PTE 0x4000 OR 0x16 OR 1 else 0))"
proof -
  define m1 where "m1 = store64 (0x1000 + 8 * 0) (PA2PTE 0x2000 OR 1) (\<lambda>_. 0)"
  define m2 where "m2 = store64 (0x2000 + 8 * 0) (PA2PTE 0x3000 OR 1) m1"
  define t1 :: "u64 list \<Rightarrow> u64 option" where "t1 = [[] \<mapsto> 0x1000, [0] \<mapsto> 0x2000]"
  have l0: "load64 (\<lambda>_. 0) a = 0" for a by (simp add: load64_def bytes_def upt_rec)
  have r0: "pt_rep 0x1000 [[] \<mapsto> 0x1000] (\<lambda>_. 0)" by (simp add: pt_rep_def l0)
  have r1: "pt_rep 0x1000 t1 m1" "leaf t1 m1 v = 0" for v
    using pt_rep_add [OF r0, where n = "[]" and a = "0x1000" and i = 0 and c = "0x2000"] by (auto simp: m1_def t1_def leaf_def)
  have z: "m1 x = 0" if "in_page x 0x3000" for x
    using store_entry_same_page [of "0x1000" "0x3000" 0 "\<lambda>_. 0" "PA2PTE 0x2000 OR 1"] that
    by (simp add: m1_def same_page_def)
  have t: "t1([0] @ [0] \<mapsto> 0x3000) = ex_tab" by (auto simp: t1_def ex_tab_def)
  have r2: "pt_rep 0x1000 ex_tab m2" "leaf ex_tab m2 v = 0" for v
    using pt_rep_add [OF r1(1), where n = "[0]" and a = "0x2000" and i = 0 and c = "0x3000"] z r1(2)
    unfolding m2_def t by (auto simp: t1_def)
  have px: "PX l 0 = 0" for l by (simp add: PX_def)
  have m: "pmem ex_space = store64 (0x3000 + 8 * PX 0 0) (PA2PTE 0x4000 OR 0x16 OR 1) m2"
    by (simp add: ex_space_def m1_def m2_def px)
  have tb: "ex_tab [PX 2 0, PX 1 0] = Some 0x3000" by (simp add: ex_tab_def px)
  have "aspace kend 0x1000 ex_tab [] ex_space"
    using set_leaf(1) [OF r2(1) tb, of "PA2PTE 0x4000 OR 0x16 OR 1"] m
    by (simp add: aspace_def kmem_rep_def ex_space_def)
  moreover have "vpage 0 = 0" by (simp add: vpage_def)
  ultimately show ?thesis using set_leaf(2) [OF r2(1) tb] r2(2) m by simp
qed

section \<open>Properties\<close>

text \<open>C12.  \<^verbatim>\<open>mappages\<close> on a well-formed page table, for a range of unmapped pages below
  \<^verbatim>\<open>MAXVA\<close>, never panics.  It returns 0 when all pages have been mapped, and -1 only when
  memory has run out and the next page lacks a table; then a prefix of the pages is mapped.  Every page of the prefix is
  mapped to its physical page, every other entry is as before, and the tables that were
  added come from the free list.\<close>

theorem mappages_maps:
  assumes "aspace kend root tab xs s" "va mod PGSIZE = 0" "sz mod PGSIZE = 0" "0 < sz"
    "unat va + unat sz \<le> 2 ^ 38"
    "\<And>v. v < MAXVA \<Longrightarrow> vpage va \<le> vpage v \<Longrightarrow> vpage v < vpage va + unat sz div 4096 \<Longrightarrow>
       leaf tab (pmem s) v AND PTE_V = 0"
  shows "\<exists>k\<le>unat sz div 4096. \<exists>t tab' ys.
    mappages root va sz pa perm s = Inr (if k = unat sz div 4096 then 0 else -1, t) \<and>
    aspace kend root tab' ys t \<and> tab \<subseteq>\<^sub>m tab' \<and> ran tab' \<union> set ys = ran tab \<union> set xs \<and>
    (k < unat sz div 4096 \<longrightarrow> ys = [] \<and> (let v = va + of_nat (4096 * k) in tab' [PX 2 v, PX 1 v] = None)) \<and>
    (\<forall>v<MAXVA. leaf tab' (pmem t) v = with_map k va pa perm (leaf tab (pmem s)) v)"
proof -
  define n where "n = unat sz div 4096"
  have "4096 dvd unat sz" using assms(3) by (simp add: page_unat)
  then have sz: "unat sz = 4096 * n" by (simp add: n_def)
  have n: "0 < n" using assms(4) sz by (cases n) (auto simp: word_less_nat_alt)
  have "sz = of_nat (unat sz)" by simp
  also have "\<dots> = of_nat (4096 * (n - 1)) + PGSIZE" unfolding sz using n by (cases n) simp_all
  finally have e: "va + sz - PGSIZE = va + of_nat (4096 * (n - 1))" by (simp add: algebra_simps)
  have ne: "sz \<noteq> 0" using assms(4) by auto
  have m: "mappages root va sz pa perm s =
      of_loop (mappages_loop root va (va + of_nat (4096 * (n - 1))) pa perm s)"
    unfolding mappages_def e using assms(2,3) ne by simp
  have lim: "unat va + 4096 * n \<le> 2 ^ 38" using assms(5) sz by simp
  obtain k t tab' ys where k: "k \<le> n"
      "mappages_loop root va (va + of_nat (4096 * (n - 1))) pa perm s = Some (Inr (if k = n then 0 else -1, t))"
      "aspace kend root tab' ys t" "extends tab xs s tab' ys t"
      "k < n \<longrightarrow> ys = [] \<and> (let v = va + of_nat (4096 * k) in tab' [PX 2 v, PX 1 v] = None)"
      "\<forall>v<MAXVA. leaf tab' (pmem t) v = with_map k va pa perm (leaf tab (pmem s)) v"
    using mappages_loop_maps [OF assms(1) n lim assms(2) assms(6) [folded n_def], of pa perm] by auto
  show ?thesis
    unfolding m n_def [symmetric] using k extendsD(1,2) [OF k(4)]
    by (intro exI [of _ k] conjI exI [of _ t] exI [of _ tab'] exI [of _ ys]) simp_all
qed

theorem mappages_maps_witness:
  "\<exists>t. mappages 0x1000 0x1000 0x2000 0x80000000 0x16 ex_space = Inr (0, t)"
proof -
  have z: "leaf ex_tab (pmem ex_space) v AND PTE_V = 0" if "v < MAXVA" "vpage v \<noteq> 0" for v
    using ex_space_leaf that by simp
  have t: "ex_tab [PX 2 v, PX 1 v] = Some 0x3000" if "v = 0x1000 \<or> v = 0x2000" for v
    using that by (auto simp: ex_tab_def PX_def)
  obtain k t tab' ys where k: "k \<le> 2" "mappages 0x1000 0x1000 0x2000 0x80000000 0x16 ex_space = Inr (if k = 2 then 0 else -1, t)"
      "ex_tab \<subseteq>\<^sub>m tab'"
      "k < 2 \<longrightarrow> (let v = 0x1000 + of_nat (4096 * k) in tab' [PX 2 v, PX 1 v] = None)"
    using mappages_maps [OF conjunct1 [OF ex_space_leaf [of "0x80000000"]], of "0x1000" "0x2000" "0x80000000" "0x16"] z
    by (auto simp: vpage_def)
  have "k = 2"
  proof (rule ccontr)
    assume "k \<noteq> 2"
    then consider "k = 0" | "k = 1" using k(1) by linarith
    then obtain v where v: "v = 0x1000 \<or> v = 0x2000" "tab' [PX 2 v, PX 1 v] = None" using k(4) by cases auto
    then show False using t [OF v(1)] k(3) by (metis domI map_le_def option.distinct(1))
  qed
  then show ?thesis using k(2) by simp
qed

text \<open>C24.  \<^verbatim>\<open>uvmunmap\<close> on a range of mapped pages below \<^verbatim>\<open>MAXVA\<close> returns, clears exactly the
  entries of the range and keeps the tables.  With \<open>do_free\<close>, when the pages behind the range are
  different allocated pages, exactly they are added to the free list, the last one first; without
  it the free list is unchanged.  All other memory outside the tables is unchanged.\<close>

theorem uvmunmap_clears:
  assumes "aspace kend root tab xs s" "va mod PGSIZE = 0" "unat va + 4096 * unat npages \<le> 2 ^ 38"
    "\<And>v. v < MAXVA \<Longrightarrow> vpage va \<le> vpage v \<Longrightarrow> vpage v < vpage va + unat npages \<Longrightarrow>
       leaf tab (pmem s) v AND PTE_V \<noteq> 0 \<and> PTE_FLAGS (leaf tab (pmem s) v) \<noteq> PTE_V"
    "ps = upages (leaf tab (pmem s)) va (unat npages)" "do_free \<Longrightarrow> freeable kend tab xs ps"
  shows "\<exists>t. uvmunmap kend root va npages do_free s = Inr t \<and>
    aspace kend root tab (if do_free then rev ps @ xs else xs) t \<and>
    (\<forall>v<MAXVA. leaf tab (pmem t) v =
       (if vpage va \<le> vpage v \<and> vpage v < vpage va + unat npages then 0 else leaf tab (pmem s) v)) \<and>
    (\<forall>y. y mod PGSIZE = 0 \<and> y \<notin> ran tab \<and> \<not> (do_free \<and> y \<in> set ps) \<longrightarrow> same_page (pmem s) (pmem t) y)"
proof -
  have "npages * PGSIZE = of_nat (4096 * unat npages)" by simp
  then have u: "uvmunmap kend root va npages do_free s =
      of_loop (uvmunmap_loop kend root va (va + of_nat (4096 * unat npages)) do_free s)"
    using assms(2) by (simp add: uvmunmap_def mult.commute)
  obtain t where t: "uvmunmap_loop kend root va (va + of_nat (4096 * unat npages)) do_free s = Some (Inr t)"
    "aspace kend root tab ((if do_free then rev ps else []) @ xs) t"
    "\<forall>v<MAXVA. leaf tab (pmem t) v =
       (if vpage va \<le> vpage v \<and> vpage v < vpage va + unat npages then 0 else leaf tab (pmem s) v)"
    "\<forall>y. y mod PGSIZE = 0 \<longrightarrow> y \<notin> ran tab \<longrightarrow> (do_free \<longrightarrow> y \<notin> set ps) \<longrightarrow> same_page (pmem s) (pmem t) y"
    using uvmunmap_loop_clears [OF assms(1,3), of do_free] assms(4,6) unfolding assms(5) by blast
  show ?thesis using u t by (intro exI [of _ t]) (simp split: if_splits)
qed

theorem uvmunmap_clears_witness:
  "\<exists>t. uvmunmap 0x4000 0x1000 0 1 True ex_space = Inr t \<and> leaf ex_tab (pmem t) 0 = 0 \<and> kmem_rep 0x4000 t [0x4000]"
proof -
  have e: "leaf ex_tab (pmem ex_space) v AND PTE_V \<noteq> 0 \<and> PTE_FLAGS (leaf ex_tab (pmem ex_space) v) \<noteq> PTE_V"
    if "v < MAXVA" "vpage v = 0" for v
    using ex_space_leaf that by (simp add: PTE_FLAGS_def PA2PTE_def)
  have z: "vpage 0 = 0" by (simp add: vpage_def)
  then have p: "[0x4000] = upages (leaf ex_tab (pmem ex_space)) 0 (unat 1)"
    using ex_space_leaf by (simp add: PA2PTE_def PTE2PA_def)
  have f: "freeable 0x4000 ex_tab [] [0x4000]"
    by (auto simp: freeable_def page_ok_def ex_tab_def ran_def split: if_splits)
  show ?thesis
    using uvmunmap_clears [OF conjunct1 [OF ex_space_leaf], of 0 1 "[0x4000]" True "0x4000"] e z p f
    by (fastforce simp: aspace_def)
qed

end
