(* ===== verification/Usercopy.thy ===== *)
theory Usercopy
  imports Pagetable
begin

text \<open>
  What \<^verbatim>\<open>copyin\<close>, \<^verbatim>\<open>copyinstr\<close> and \<^verbatim>\<open>copyout\<close> of \<^verbatim>\<open>kernel/vm.c\<close> do, for any
  page table.  \<open>user_pa\<close> is the physical address behind a user address, byte by byte, read off
  the tree of table entries, and \<open>ubyte\<close> the byte that is stored there.
\<close>

section \<open>Translation\<close>

lemma walk_loop_noalloc: "snd (walk_loop l pt va False s) = s"
  by (induction l arbitrary: pt) (auto simp: Let_def)

lemma walk_noalloc: "walk pt va False s = Inr (p, t) \<Longrightarrow> t = s"
  using walk_loop_noalloc [of 2 pt va s] by (auto simp: walk_def split: if_splits)

text \<open>The tree of tables in memory, without reference to the code that walks it.  \<open>pte_at m table is\<close>
  is the address of the entry that the indices \<open>is\<close> lead to: an entry that is valid and has none of
  the permission bits points to the next table, a valid one with permissions ends the path.\<close>

fun pte_at :: "mem \<Rightarrow> u64 \<Rightarrow> u64 list \<Rightarrow> u64 option" where
  "pte_at m table [] = None"
| "pte_at m table [i] = Some (table + 8 * i)"
| "pte_at m table (i # j # is) =
     (let v = load64 m (table + 8 * i)
      in if v AND PTE_V = 0 then None
         else if v AND (PTE_R OR PTE_W OR PTE_X) \<noteq> 0 then Some (table + 8 * i)
         else pte_at m (PTE2PA v) (j # is))"

text \<open>The entry of a user address below \<^verbatim>\<open>MAXVA\<close>, and the physical address behind it if the entry
  is valid and open to the user.  The permission to read is not asked for.  Neither an entry nor a
  page lies at address 0, the null pointer.\<close>

definition user_pte :: "u64 \<Rightarrow> phys \<Rightarrow> u64 \<Rightarrow> u64 option" where
  "user_pte pt s va =
     (if va < MAXVA
      then case pte_at (pmem s) pt [PX 2 va, PX 1 va, PX 0 va] of
             None \<Rightarrow> None
           | Some a \<Rightarrow> if a = 0 then None else Some (load64 (pmem s) a)
      else None)"

definition user_pa :: "u64 \<Rightarrow> phys \<Rightarrow> u64 \<Rightarrow> u64 option" where
  "user_pa pt s va =
     (case user_pte pt s va of
        None \<Rightarrow> None
      | Some e \<Rightarrow> if e AND PTE_V = 0 \<or> e AND PTE_U = 0 \<or> PTE2PA e = 0 then None
                  else Some (PTE2PA e + va mod PGSIZE))"

definition ubyte :: "u64 \<Rightarrow> phys \<Rightarrow> u64 \<Rightarrow> byte option" where
  "ubyte pt s va = map_option (pmem s) (user_pa pt s va)"

lemma walkaddr_total: "\<exists>pa. walkaddr pt va s = Inr pa"
  by (auto simp: walkaddr_def walk_def split: prod.splits)

lemma rounddown_bounds: "unat (va - PGROUNDDOWN va) < 4096" "PGROUNDDOWN va \<le> va"
proof -
  have u: "unat (PGROUNDDOWN va) = 4096 * (unat va div 4096)" by (rule unat_PGROUNDDOWN)
  then show "PGROUNDDOWN va \<le> va" by (simp add: word_le_nat_alt)
  then have "unat (va - PGROUNDDOWN va) = unat va mod 4096"
    using u by (simp add: unat_sub_if' word_le_nat_alt minus_mult_div_eq_mod)
  then show "unat (va - PGROUNDDOWN va) < 4096" by simp
qed

lemma page_offset: "va - PGROUNDDOWN va = va mod PGSIZE"
proof -
  have "unat (PGROUNDDOWN va) = 4096 * (unat va div 4096)" by (rule unat_PGROUNDDOWN)
  then have "unat (va - PGROUNDDOWN va) = unat va mod 4096"
    using rounddown_bounds(2) [of va] by (simp add: unat_sub_if' word_le_nat_alt minus_mult_div_eq_mod)
  then show ?thesis by (simp add: word_unat_eq_iff unat_mod_distrib)
qed

lemma PX_rounddown: "PX l (PGROUNDDOWN va) = PX l va"
  by (simp add: word_unat_eq_iff unat_PX unat_PGROUNDDOWN power_add div_mult2_eq)

lemma rounddown_MAXVA: "PGROUNDDOWN va < MAXVA \<longleftrightarrow> va < MAXVA"
  by (auto simp: word_less_nat_alt unat_PGROUNDDOWN)

lemma PTE_LEAF_perm: "PTE_LEAF v \<longleftrightarrow> v AND (PTE_R OR PTE_W OR PTE_X) \<noteq> 0"
  by (simp only: PTE_LEAF_def bit.conj_disj_distrib or.assoc)

text \<open>\<^verbatim>\<open>walk\<close> without allocation finds the entry, and \<^verbatim>\<open>walkaddr\<close> the page.\<close>

lemma walk_pte_at:
  "fst (walk_loop 2 pt va False s) = (case pte_at (pmem s) pt [PX 2 va, PX 1 va, PX 0 va] of None \<Rightarrow> 0 | Some a \<Rightarrow> a)"
  by (simp add: numeral_2_eq_2 Let_def PTE_LEAF_perm)

lemma walk_fst:
  "va < MAXVA \<Longrightarrow> walk pt va False s = Inr (fst (walk_loop 2 pt va False s), s)"
  using walk_loop_noalloc [of 2 pt va s] by (cases "walk_loop 2 pt va False s") (auto simp: walk_def)

lemma user_pte_walk:
  "user_pte pt s va =
     (case walk pt (PGROUNDDOWN va) False s of
        Inl e \<Rightarrow> None | Inr r \<Rightarrow> if fst r = 0 then None else Some (load64 (pmem s) (fst r)))"
  using walk_pte_at [of pt "PGROUNDDOWN va" s]
  by (auto simp: user_pte_def walk_def PX_rounddown rounddown_MAXVA not_less [symmetric] split: option.splits)

lemma user_pa_walkaddr:
  "user_pa pt s va =
     (case walkaddr pt (PGROUNDDOWN va) s of
        Inl e \<Rightarrow> None
      | Inr pa \<Rightarrow> if pa = 0 then None else Some (pa + (va - PGROUNDDOWN va)))"
proof (cases "PGROUNDDOWN va < MAXVA")
  case True
  then show ?thesis
    by (auto simp: user_pa_def user_pte_walk walkaddr_def page_offset walk_fst not_le [symmetric] res_simps)
next
  case False
  then show ?thesis by (simp add: user_pa_def user_pte_walk walkaddr_def walk_def not_less)
qed

section \<open>Pages\<close>

definition page_room :: "u64 \<Rightarrow> nat" where
  "page_room va = unat (PGSIZE - (va - PGROUNDDOWN va))"

lemma page_room_eq: "page_room va = 4096 - unat va mod 4096"
proof -
  have "unat (PGROUNDDOWN va) = 4096 * (unat va div 4096)" by (rule unat_PGROUNDDOWN)
  then have "unat (va - PGROUNDDOWN va) = unat va mod 4096"
    by (simp add: unat_sub_if' minus_mult_div_eq_mod)
  then show ?thesis by (simp add: page_room_def unat_sub_if')
qed

lemma page_room_pos: "0 < page_room va" "page_room va \<le> 4096"
  by (simp_all add: page_room_eq)

lemma unat_add_room:
  assumes "j < page_room va"
  shows "unat (va + of_nat j) = unat va + j"
proof -
  have "unat va mod 4096 + j < 4096" using assms by (simp add: page_room_eq)
  moreover have "unat va = 4096 * (unat va div 4096) + unat va mod 4096" by simp
  moreover have "unat va div 4096 < 4503599627370496" using unat_u64 [of va] by (simp add: div_less_iff_less_mult)
  ultimately have "unat va + j < 18446744073709551616" by linarith
  then show ?thesis by (simp add: unat_word_ariths(1) unat_of_nat)
qed

lemma div_page_add:
  assumes "a mod 4096 + j < 4096"
  shows "(a + j) div 4096 = a div (4096 :: nat)"
proof -
  have "a + j = 4096 * (a div 4096) + (a mod 4096 + j)" by simp
  then have "(a + j) div 4096 = (4096 * (a div 4096) + (a mod 4096 + j)) div 4096" by (rule arg_cong)
  also have "(4096 * q + r) div 4096 = q" if "r < 4096" for q r :: nat using that by simp
  then have "(4096 * (a div 4096) + (a mod 4096 + j)) div 4096 = a div 4096" using assms .
  finally show ?thesis .
qed

lemma same_pageno:
  assumes "j < page_room va"
  shows "PGROUNDDOWN (va + of_nat j) = PGROUNDDOWN va"
proof -
  have "unat va mod 4096 + j < 4096" using assms by (simp add: page_room_eq)
  then show ?thesis
    by (simp add: word_unat_eq_iff unat_PGROUNDDOWN unat_add_room [OF assms] div_page_add)
qed

lemma next_page: "PGROUNDDOWN va + PGSIZE = va + of_nat (page_room va)"
proof -
  have "of_nat (page_room va) = PGSIZE - (va - PGROUNDDOWN va)" by (simp add: page_room_def)
  then show ?thesis by simp
qed

lemma user_pa_page:
  assumes "j < page_room va"
  shows "user_pa pt s (va + of_nat j) = map_option (\<lambda>a. a + of_nat j) (user_pa pt s va)"
  unfolding user_pa_walkaddr same_pageno [OF assms] by (auto split: sum.splits simp: algebra_simps)

lemma bytes_append: "bytes m a (i + k) = bytes m a i @ bytes m (a + of_nat i) k"
  by (rule nth_equalityI) (auto simp: nth_append algebra_simps)

section \<open>Reading user memory\<close>

text \<open>\<open>span f va n\<close>: the values of \<open>f\<close> at the \<open>n\<close> addresses from \<open>va\<close> on, if all are
  defined; \<open>ubytes\<close>: the bytes there, if all are readable.\<close>

definition span :: "(u64 \<Rightarrow> 'b option) \<Rightarrow> u64 \<Rightarrow> nat \<Rightarrow> 'b list option" where
  "span f va n = those (map (\<lambda>i. f (va + of_nat i)) [0..<n])"

abbreviation ubytes :: "u64 \<Rightarrow> phys \<Rightarrow> u64 \<Rightarrow> nat \<Rightarrow> byte list option" where
  "ubytes pt s \<equiv> span (ubyte pt s)"

lemma those_append: "those (xs @ ys) = (case those xs of None \<Rightarrow> None | Some a \<Rightarrow> map_option (\<lambda>b. a @ b) (those ys))"
  by (induction xs; cases "those ys") (auto split: option.splits)

lemma those_Some: "those (map (\<lambda>i. Some (f i)) xs) = Some (map f xs)"
  by (induction xs) auto

lemma span_add:
  fixes f :: "u64 \<Rightarrow> 'b option"
  shows "span f va (i + k) =
     (case span f va i of None \<Rightarrow> None | Some a \<Rightarrow> map_option (\<lambda>b. a @ b) (span f (va + of_nat i) k))"
proof -
  have "map g [0..<i + k] = map g [0..<i] @ map (\<lambda>j. g (i + j)) [0..<k]" for g :: "nat \<Rightarrow> 'b option"
    by (rule nth_equalityI) (auto simp: nth_append)
  then show ?thesis unfolding span_def by (simp add: those_append add.assoc split: option.split)
qed

lemma span_fail: "f va = None \<Longrightarrow> 0 < n \<Longrightarrow> span f va n = None"
  by (cases n) (simp_all add: span_def upt_conv_Cons del: upt_Suc)

lemma span_0 [simp]: "span f va 0 = Some []"
  by (simp add: span_def)

lemma span_length: "span f va n = Some bs \<Longrightarrow> length bs = n"
proof -
  have "those xs = Some bs \<Longrightarrow> length bs = length xs" for xs :: "'a option list"
    by (induction xs arbitrary: bs) (auto split: option.splits)
  then show "span f va n = Some bs \<Longrightarrow> length bs = n" by (fastforce simp: span_def)
qed

lemma span_prefix:
  assumes "span f va n = Some bs" "k \<le> n"
  shows "span f va k = Some (take k bs)"
proof -
  have n: "span f va (k + (n - k)) = Some bs" using assms by simp
  obtain cs ds where "span f va k = Some cs" "bs = cs @ ds"
    using n unfolding span_add by (auto split: option.splits)
  then show ?thesis using span_length [of f va k cs] by auto
qed

lemma ubytes_page:
  assumes "user_pa pt s va = Some pa" "n \<le> page_room va"
  shows "ubytes pt s va n = Some (bytes (pmem s) pa n)"
proof -
  have "map (\<lambda>i. ubyte pt s (va + of_nat i)) [0..<n] = map (\<lambda>i. Some (pmem s (pa + of_nat i))) [0..<n]"
    using assms by (auto simp: ubyte_def user_pa_page)
  then show ?thesis unfolding span_def bytes_def by (simp only: those_Some)
qed

lemma ubytes_fail: "user_pa pt s va = None \<Longrightarrow> 0 < n \<Longrightarrow> ubytes pt s va n = None"
  by (simp add: span_fail ubyte_def)

lemma copyin_step:
  assumes "0 < len"
  shows "copyin_loop pt va len s dst =
     (case user_pa pt s va of
        None \<Rightarrow> Some (Inr (-1, dst))
      | Some pa \<Rightarrow> let n = min (page_room va) len
                  in copyin_loop pt (va + of_nat (page_room va)) (len - n) s (dst @ bytes (pmem s) pa n))"
proof -
  obtain pa where pa: "walkaddr pt (PGROUNDDOWN va) s = Inr pa" using walkaddr_total by blast
  show ?thesis
    using assms by (subst copyin_loop.simps)
      (simp add: pa user_pa_walkaddr Let_def next_page page_room_def [symmetric])
qed

lemma copyin_loop_0: "copyin_loop pt va 0 s dst = Some (Inr (0, dst))"
  by (simp add: copyin_loop.simps)

lemma copyin_loop_spec:
  "\<exists>k\<le>len. \<exists>bs. ubytes pt s va k = Some bs \<and>
     (k = len \<and> copyin_loop pt va len s dst = Some (Inr (0, dst @ bs)) \<or>
      k < len \<and> ubyte pt s (va + of_nat k) = None \<and> copyin_loop pt va len s dst = Some (Inr (-1, dst @ bs)))"
proof (induction len arbitrary: va dst rule: less_induct)
  case (less len)
  show ?case
  proof (cases "len = 0")
    case True
    then show ?thesis by (simp add: copyin_loop_0)
  next
    case False
    show ?thesis
    proof (cases "user_pa pt s va")
      case None
      then show ?thesis using False by (intro exI [of _ 0]) (simp add: copyin_step ubyte_def)
    next
      case (Some pa)
      define n where "n = min (page_room va) len"
      define bs where "bs = bytes (pmem s) pa n"
      have n: "0 < n" "n \<le> len" using False page_room_pos(1) [of va] by (auto simp: n_def)
      have u: "ubytes pt s va n = Some bs" unfolding bs_def by (rule ubytes_page [OF Some]) (simp add: n_def)
      have step: "copyin_loop pt va len s dst
          = copyin_loop pt (va + of_nat (page_room va)) (len - n) s (dst @ bs)"
        using False by (simp add: copyin_step Some Let_def n_def bs_def)
      have add: "ubytes pt s va (n + k) = map_option (\<lambda>b. bs @ b) (ubytes pt s (va + of_nat n) k)" for k
        by (simp add: span_add u)
      show ?thesis
      proof (cases "n = len")
        case True
        then show ?thesis using u by (intro exI [of _ len]) (simp add: step copyin_loop_0)
      next
        case False
        then have "n = page_room va" by (auto simp: n_def)
        then obtain k cs where k: "k \<le> len - n" "ubytes pt s (va + of_nat n) k = Some cs"
          "k = len - n \<and> copyin_loop pt (va + of_nat n) (len - n) s (dst @ bs) = Some (Inr (0, (dst @ bs) @ cs)) \<or>
           k < len - n \<and> ubyte pt s (va + of_nat n + of_nat k) = None \<and>
           copyin_loop pt (va + of_nat n) (len - n) s (dst @ bs) = Some (Inr (-1, (dst @ bs) @ cs))"
          using less.IH [of "len - n" "va + of_nat n" "dst @ bs"] n False by auto
        then show ?thesis
          using n add [of k] \<open>n = page_room va\<close>
          by (intro exI [of _ "n + k"] conjI exI [of _ "bs @ cs"]) (auto simp: step add.assoc)
      qed
    qed
  qed
qed

lemma copyin_spec:
  "(case ubytes pt s va len of
      Some bs \<Rightarrow> copyin pt va len s = Inr (0, bs)
    | None \<Rightarrow> \<exists>k<len. \<exists>bs. ubytes pt s va k = Some bs \<and> ubyte pt s (va + of_nat k) = None \<and>
        copyin pt va len s = Inr (-1, bs))"
proof -
  obtain k bs where k: "k \<le> len" "ubytes pt s va k = Some bs"
     "k = len \<and> copyin_loop pt va len s [] = Some (Inr (0, bs)) \<or>
      k < len \<and> ubyte pt s (va + of_nat k) = None \<and> copyin_loop pt va len s [] = Some (Inr (-1, bs))"
    using copyin_loop_spec [of len pt s va "[]"] by auto
  moreover have "ubytes pt s va len = None" if "k < len" "ubyte pt s (va + of_nat k) = None"
    using that k(2) span_fail [of "ubyte pt s" "va + of_nat k" "len - k"] span_add [of "ubyte pt s" va k "len - k"] by simp
  ultimately show ?thesis by (auto simp: copyin_def split: option.splits)
qed

section \<open>Reading strings\<close>

lemma copystr_page_bytes:
  "copystr_page n p m =
     (if 0 \<in> set (bytes m p n) then (True, takeWhile (\<lambda>b. b \<noteq> 0) (bytes m p n) @ [0])
      else (False, bytes m p n))"
  by (induction n arbitrary: p) (auto simp: bytes_Suc)

lemma copyinstr_step:
  assumes "0 < mx"
  shows "copyinstr_loop pt va mx s dst =
     (case user_pa pt s va of
        None \<Rightarrow> Some (Inr (-1, dst))
      | Some pa \<Rightarrow>
          let n = min (page_room va) mx; r = copystr_page n pa (pmem s)
          in if fst r then Some (Inr (0, dst @ snd r))
             else copyinstr_loop pt (va + of_nat (page_room va)) (mx - n) s (dst @ snd r))"
proof -
  obtain pa where pa: "walkaddr pt (PGROUNDDOWN va) s = Inr pa" using walkaddr_total by blast
  show ?thesis
    using assms by (subst copyinstr_loop.simps)
      (simp add: pa user_pa_walkaddr Let_def next_page page_room_def [symmetric])
qed

lemma copyinstr_0: "copyinstr_loop pt va 0 s dst = Some (Inr (-1, dst))"
  by (simp add: copyinstr_loop.simps)

text \<open>The string at \<open>va\<close>: the readable non-null bytes up to a null byte.\<close>

definition ustr :: "u64 \<Rightarrow> phys \<Rightarrow> u64 \<Rightarrow> byte list \<Rightarrow> bool" where
  "ustr pt s va cs \<longleftrightarrow> ubytes pt s va (Suc (length cs)) = Some (cs @ [0]) \<and> 0 \<notin> set cs"

lemma copyinstr_page_found:
  assumes "user_pa pt s va = Some pa" "n \<le> page_room va" "0 \<in> set (bytes (pmem s) pa n)"
  defines "cs \<equiv> takeWhile (\<lambda>b. b \<noteq> 0) (bytes (pmem s) pa n)"
  shows "ustr pt s va cs" "length cs < n"
proof -
  let ?bs = "bytes (pmem s) pa n"
  show l: "length cs < n"
    using length_takeWhile_less [OF assms(3)] unfolding cs_def by simp
  have z: "?bs ! length cs = 0"
    using nth_length_takeWhile [of "\<lambda>b. b \<noteq> 0" ?bs] l by (simp add: cs_def)
  have "take (Suc (length cs)) ?bs = cs @ [0]"
    using l z by (simp add: take_Suc_conv_app_nth cs_def takeWhile_eq_take [symmetric])
  moreover have "ubytes pt s va n = Some ?bs" by (rule ubytes_page [OF assms(1,2)])
  ultimately have "ubytes pt s va (Suc (length cs)) = Some (cs @ [0])"
    using span_prefix l by fastforce
  then show "ustr pt s va cs" by (auto simp: ustr_def cs_def dest: set_takeWhileD)
qed

lemma copyinstr_loop_spec:
  "(\<exists>cs. ustr pt s va cs \<and> length cs < mx \<and> copyinstr_loop pt va mx s dst = Some (Inr (0, dst @ cs @ [0]))) \<or>
   (\<exists>k\<le>mx. \<exists>bs. ubytes pt s va k = Some bs \<and> 0 \<notin> set bs \<and>
      (k = mx \<or> user_pa pt s (va + of_nat k) = None) \<and>
      copyinstr_loop pt va mx s dst = Some (Inr (-1, dst @ bs)))"
proof (induction mx arbitrary: va dst rule: less_induct)
  case (less mx)
  show ?case
  proof (cases "mx = 0 \<or> user_pa pt s va = None")
    case True
    then show ?thesis
      by (cases "mx = 0") (auto simp: copyinstr_0 copyinstr_step intro!: exI [of _ 0])
  next
    case False
    then obtain pa where pa: "user_pa pt s va = Some pa" and mx: "0 < mx" by auto
    define n where "n = min (page_room va) mx"
    define bs where "bs = bytes (pmem s) pa n"
    have n: "0 < n" "n \<le> mx" "n \<le> page_room va" using mx page_room_pos(1) [of va] by (auto simp: n_def)
    have u: "ubytes pt s va n = Some bs" unfolding bs_def by (rule ubytes_page [OF pa n(3)])
    have step: "copyinstr_loop pt va mx s dst =
        (if 0 \<in> set bs then Some (Inr (0, dst @ takeWhile (\<lambda>b. b \<noteq> 0) bs @ [0]))
         else copyinstr_loop pt (va + of_nat (page_room va)) (mx - n) s (dst @ bs))"
      using mx by (simp add: copyinstr_step pa Let_def copystr_page_bytes n_def bs_def)
    show ?thesis
    proof (cases "0 \<in> set bs")
      case True
      then show ?thesis
        using copyinstr_page_found [OF pa n(3)] n(2) step by (auto simp: bs_def intro!: disjI1)
    next
      case False
      have join: "ubytes pt s va (n + k) = map_option (\<lambda>b. bs @ b) (ubytes pt s (va + of_nat n) k)" for k
        by (simp add: span_add u)
      consider "n = mx" | "n = page_room va" unfolding n_def by linarith
      then show ?thesis
      proof cases
        case 1
        then show ?thesis using False u by (auto simp: step copyinstr_0 intro!: exI [of _ mx])
      next
        case 2
        have step': "copyinstr_loop pt va mx s dst = copyinstr_loop pt (va + of_nat n) (mx - n) s (dst @ bs)"
          using False 2 step by simp
        have lb: "length bs = n" using u span_length by blast
        from less.IH [of "mx - n" "va + of_nat n" "dst @ bs"] n(1) mx
        consider cs where "ustr pt s (va + of_nat n) cs" "length cs < mx - n"
            "copyinstr_loop pt (va + of_nat n) (mx - n) s (dst @ bs) = Some (Inr (0, (dst @ bs) @ cs @ [0]))"
          | k cs where "k \<le> mx - n" "ubytes pt s (va + of_nat n) k = Some cs" "0 \<notin> set cs"
            "k = mx - n \<or> user_pa pt s (va + of_nat n + of_nat k) = None"
            "copyinstr_loop pt (va + of_nat n) (mx - n) s (dst @ bs) = Some (Inr (-1, (dst @ bs) @ cs))"
          by auto
        then show ?thesis
        proof cases
          case (1 cs)
          then have "ustr pt s va (bs @ cs)"
            using join [of "Suc (length cs)"] False lb by (auto simp: ustr_def)
          then show ?thesis using 1 step' lb by (intro disjI1 exI [of _ "bs @ cs"]) auto
        next
          case (2 k cs)
          then show ?thesis using join [of k] step' False n(2)
            by (intro disjI2 [where P = "\<exists>cs. P cs" for P] exI [of _ "n + k"] conjI exI [of _ "bs @ cs"])
              (auto simp: add.assoc)
        qed
      qed
    qed
  qed
qed

lemma copyinstr_spec:
  "(\<exists>cs. ustr pt s va cs \<and> length cs < mx \<and> copyinstr pt va mx s = Inr (0, cs @ [0])) \<or>
   (\<not> (\<exists>cs. ustr pt s va cs \<and> length cs < mx) \<and> (\<exists>bs. copyinstr pt va mx s = Inr (-1, bs)))"
proof -
  have no: False if "ubytes pt s va k = Some bs" "0 \<notin> set bs" "k = mx \<or> user_pa pt s (va + of_nat k) = None"
      "ustr pt s va cs" "length cs < mx" for k bs cs
  proof (cases "length cs < k")
    case True
    then have "ubytes pt s va (Suc (length cs)) = Some (take (Suc (length cs)) bs)"
      using span_prefix [OF that(1)] by auto
    then have "cs @ [0] = take (Suc (length cs)) bs" using that(4) by (simp add: ustr_def)
    then show False using that(2) by (metis in_set_conv_decomp in_set_takeD)
  next
    case False
    then have "ubytes pt s (va + of_nat k) (Suc (length cs) - k) = None"
      using that(3,5) by (intro ubytes_fail) auto
    then show False
      using that(4) False span_add [of "ubyte pt s" va k "Suc (length cs) - k"]
      by (auto simp: ustr_def split: option.splits)
  qed
  show ?thesis
    using copyinstr_loop_spec [of pt s va mx "[]"] no by (auto simp: copyinstr_def)
qed

section \<open>Writing user memory\<close>

text \<open>\<open>uwpa\<close>: the physical address behind a writable user address.  \<open>walk_reads\<close>: the
  addresses of the entries that a walk and its caller read.\<close>

definition uwpa :: "u64 \<Rightarrow> phys \<Rightarrow> u64 \<Rightarrow> u64 option" where
  "uwpa pt s va =
     (case user_pte pt s va of
        None \<Rightarrow> None
      | Some e \<Rightarrow> if e AND PTE_W = 0 then None else user_pa pt s va)"

lemma uwpa_walk:
  "uwpa pt s va =
     (case walk pt (PGROUNDDOWN va) False s of
        Inl e \<Rightarrow> None
      | Inr r \<Rightarrow> if fst r = 0 \<or> load64 (pmem s) (fst r) AND PTE_W = 0 then None else user_pa pt s va)"
  by (auto simp: uwpa_def user_pte_walk split: sum.splits)

fun walk_reads :: "nat \<Rightarrow> u64 \<Rightarrow> u64 \<Rightarrow> phys \<Rightarrow> u64 list" where
  "walk_reads 0 pt va s = [pt + 8 * PX 0 va]"
| "walk_reads (Suc l) pt va s =
     (let pte = pt + 8 * PX (Suc l) va; v = load64 (pmem s) pte
      in pte # (if v AND PTE_V \<noteq> 0 \<and> \<not> PTE_LEAF v then walk_reads l (PTE2PA v) va s else []))"

text \<open>No user address leads into the page tables themselves.\<close>

definition tables_apart :: "u64 \<Rightarrow> phys \<Rightarrow> bool" where
  "tables_apart pt s \<longleftrightarrow>
     (\<forall>va vb. \<forall>e\<in>set (walk_reads 2 pt va s). \<forall>i<8. user_pa pt s vb \<noteq> Some (e + of_nat i))"

definition keeps :: "u64 \<Rightarrow> phys \<Rightarrow> mem \<Rightarrow> bool" where
  "keeps pt s m \<longleftrightarrow> (\<forall>a. m a \<noteq> pmem s a \<longrightarrow> (\<exists>vb. user_pa pt s vb = Some a))"

lemma walk_loop_cong:
  assumes "\<And>e. e \<in> set (walk_reads l pt va s) \<Longrightarrow> load64 m e = load64 (pmem s) e"
  shows "fst (walk_loop l pt va False (s\<lparr>pmem := m\<rparr>)) = fst (walk_loop l pt va False s)"
    and "walk_reads l pt va (s\<lparr>pmem := m\<rparr>) = walk_reads l pt va s"
  using assms by (induction l arbitrary: pt) (auto simp: Let_def split: if_splits)

lemma walk_loop_in_reads:
  "fst (walk_loop l pt va False s) \<noteq> 0 \<Longrightarrow> fst (walk_loop l pt va False s) \<in> set (walk_reads l pt va s)"
  by (induction l arbitrary: pt) (auto simp: Let_def split: if_splits)

lemma keeps_reads:
  assumes "tables_apart pt s" "keeps pt s m" "e \<in> set (walk_reads 2 pt va s)"
  shows "load64 m e = load64 (pmem s) e"
  using assms unfolding tables_apart_def keeps_def by (intro load64_cong) blast

lemma keeps_walk:
  assumes "tables_apart pt s" "keeps pt s m"
  shows "map_sum id fst (walk pt va False (s\<lparr>pmem := m\<rparr>)) = map_sum id fst (walk pt va False s)"
    and "walk_reads 2 pt va (s\<lparr>pmem := m\<rparr>) = walk_reads 2 pt va s"
  using walk_loop_cong [of 2 pt va s m] keeps_reads [OF assms] by (auto simp: walk_def)

lemma keeps_views:
  assumes "tables_apart pt s" "keeps pt s m"
  shows "user_pa pt (s\<lparr>pmem := m\<rparr>) va = user_pa pt s va"
    and "uwpa pt (s\<lparr>pmem := m\<rparr>) va = uwpa pt s va"
proof -
  let ?v = "PGROUNDDOWN va"
  let ?p = "fst (walk_loop 2 pt ?v False s)"
  have w: "fst (walk_loop 2 pt ?v False (s\<lparr>pmem := m\<rparr>)) = ?p"
    using walk_loop_cong [of 2 pt ?v s m] keeps_reads [OF assms] by blast
  have l: "?p \<noteq> 0 \<Longrightarrow> load64 m ?p = load64 (pmem s) ?p"
    using keeps_reads [OF assms walk_loop_in_reads] by blast
  show u: "user_pa pt (s\<lparr>pmem := m\<rparr>) va = user_pa pt s va"
    using w l by (cases "?v < MAXVA") (auto simp: user_pa_walkaddr walkaddr_def walk_fst)
  show "uwpa pt (s\<lparr>pmem := m\<rparr>) va = uwpa pt s va"
    using w l u by (cases "?v < MAXVA") (auto simp: uwpa_walk walk_fst walk_def)
qed

lemma keeps_apart:
  assumes "tables_apart pt s" "keeps pt s m"
  shows "tables_apart pt (s\<lparr>pmem := m\<rparr>)"
  using assms unfolding tables_apart_def keeps_walk(2) [OF assms] keeps_views(1) [OF assms] by blast

lemma keeps_trans:
  assumes "tables_apart pt s" "keeps pt s m" "keeps pt (s\<lparr>pmem := m\<rparr>) m'"
  shows "keeps pt s m'"
  unfolding keeps_def
proof (intro allI impI)
  fix a
  assume "m' a \<noteq> pmem s a"
  then show "\<exists>vb. user_pa pt s vb = Some a"
    using assms(2,3) by (cases "m a = pmem s a") (auto simp: keeps_def keeps_views(1) [OF assms(1,2)])
qed

text \<open>Storing bytes one after the other at a list of addresses.\<close>

fun put_all :: "u64 list \<Rightarrow> byte list \<Rightarrow> mem \<Rightarrow> mem" where
  "put_all (a # as) (b # bs) m = put_all as bs (m(a := b))"
| "put_all as bs m = m"

lemma put_all_append:
  "length as = length bs \<Longrightarrow> put_all (as @ cs) (bs @ ds) m = put_all cs ds (put_all as bs m)"
  by (induction as bs m rule: put_all.induct) auto

lemma put_all_other: "x \<notin> set as \<Longrightarrow> put_all as bs m x = m x"
  by (induction as bs m rule: put_all.induct) auto

lemma put_all_at: "distinct as \<Longrightarrow> length as = length bs \<Longrightarrow> map (put_all as bs m) as = bs"
  by (induction as bs m rule: put_all.induct) (auto simp: put_all_other)

lemma write_bytes_put_all:
  "length bs < 2 ^ 64 \<Longrightarrow> write_bytes a bs m = put_all (map (\<lambda>i. a + of_nat i) [0..<length bs]) bs m"
proof (induction bs arbitrary: a m)
  case (Cons b bs)
  have "map (\<lambda>i. a + of_nat i) [0..<length (b # bs)] = a # map (\<lambda>i. a + 1 + of_nat i) [0..<length bs]"
    by (simp add: upt_conv_Cons map_Suc_upt [symmetric] add.assoc del: upt_Suc)
  then show ?case using Cons by (simp add: write_bytes_Cons)
qed simp

section \<open>The specification of \<^verbatim>\<open>copyout\<close>\<close>

lemma uwpa_user: "uwpa pt s va = Some a \<Longrightarrow> user_pa pt s va = Some a"
  by (auto simp: uwpa_walk split: sum.splits if_splits)

lemma uwpa_page:
  assumes "j < page_room va"
  shows "uwpa pt s (va + of_nat j) = map_option (\<lambda>a. a + of_nat j) (uwpa pt s va)"
  unfolding uwpa_walk same_pageno [OF assms] by (auto simp: user_pa_page [OF assms] split: sum.splits)

lemma span_uwpa_page:
  assumes "uwpa pt s va = Some pa" "n \<le> page_room va"
  shows "span (uwpa pt s) va n = Some (map (\<lambda>i. pa + of_nat i) [0..<n])"
proof -
  have "map (\<lambda>i. uwpa pt s (va + of_nat i)) [0..<n] = map (\<lambda>i. Some (pa + of_nat i)) [0..<n]"
    using assms by (auto simp: uwpa_page)
  then show ?thesis unfolding span_def by (simp only: those_Some)
qed

lemma copyout_0: "copyout_loop pt va [] s = Some (Inr (0, s))"
  by (simp add: copyout_loop.simps)

lemma copyout_step:
  assumes "src \<noteq> []"
  shows "copyout_loop pt va src s =
     (case uwpa pt s va of
        None \<Rightarrow> Some (Inr (-1, s))
      | Some pa \<Rightarrow>
          let n = min (page_room va) (length src)
          in copyout_loop pt (va + of_nat (page_room va)) (drop n src)
               (s\<lparr>pmem := write_bytes pa (take n src) (pmem s)\<rparr>))"
proof -
  obtain pa where pa: "walkaddr pt (PGROUNDDOWN va) s = Inr pa" using walkaddr_total by blast
  have "PGROUNDDOWN va < MAXVA \<Longrightarrow> \<exists>r. walk pt (PGROUNDDOWN va) False s = Inr r" by (simp add: walk_def)
  then show ?thesis
    using assms by (subst copyout_loop.simps)
      (auto simp: pa uwpa_walk user_pa_walkaddr Let_def next_page walk_def page_room_def [symmetric] split: sum.splits)
qed

lemma put_all_keeps:
  assumes "span (uwpa pt s) va n = Some as"
  shows "keeps pt s (put_all as bs (pmem s))"
  unfolding keeps_def
proof (intro allI impI)
  fix a
  assume "put_all as bs (pmem s) a \<noteq> pmem s a"
  then have "a \<in> set as" using put_all_other by fastforce
  moreover have "those xs = Some ys \<Longrightarrow> y \<in> set ys \<Longrightarrow> Some y \<in> set xs" for xs ys and y :: u64
    by (induction xs arbitrary: ys) (auto split: option.splits)
  ultimately obtain i where "uwpa pt s (va + of_nat i) = Some a"
    using assms unfolding span_def by fastforce
  then show "\<exists>vb. user_pa pt s vb = Some a" using uwpa_user by blast
qed

lemma copyout_loop_spec:
  assumes "tables_apart pt s"
  shows "\<exists>k\<le>length src. \<exists>as. span (uwpa pt s) va k = Some as \<and>
     (k < length src \<longrightarrow> uwpa pt s (va + of_nat k) = None) \<and>
     copyout_loop pt va src s =
       Some (Inr (if k = length src then 0 else -1, s\<lparr>pmem := put_all as (take k src) (pmem s)\<rparr>))"
  using assms
proof (induction "length src" arbitrary: va src s rule: less_induct)
  case less
  show ?case
  proof (cases "src = [] \<or> uwpa pt s va = None")
    case True
    then show ?thesis
      by (cases "src = []") (auto simp: copyout_0 copyout_step intro!: exI [of _ 0])
  next
    case False
    then obtain pa where pa: "uwpa pt s va = Some pa" and ne: "src \<noteq> []" by auto
    define n where "n = min (page_room va) (length src)"
    define m where "m = write_bytes pa (take n src) (pmem s)"
    define as where "as = map (\<lambda>i. pa + of_nat i) [0..<n]"
    have n: "0 < n" "n \<le> length src" "n \<le> page_room va" "n \<le> 4096"
      using ne page_room_pos [of va] by (auto simp: n_def)
    have sp: "span (uwpa pt s) va n = Some as" unfolding as_def by (rule span_uwpa_page [OF pa n(3)])
    have m: "m = put_all as (take n src) (pmem s)"
      unfolding m_def as_def using n by (subst write_bytes_put_all) auto
    have kp: "keeps pt s m" unfolding m by (rule put_all_keeps [OF sp])
    have view: "uwpa pt (s\<lparr>pmem := m\<rparr>) = uwpa pt s" using keeps_views(2) [OF less.prems kp] by blast
    have step: "copyout_loop pt va src s
        = copyout_loop pt (va + of_nat (page_room va)) (drop n src) (s\<lparr>pmem := m\<rparr>)"
      using ne by (simp add: copyout_step pa Let_def n_def m_def)
    show ?thesis
    proof (cases "n = length src")
      case True
      then show ?thesis using sp m by (intro exI [of _ n]) (simp add: step copyout_0)
    next
      case False
      then have room: "n = page_room va" by (auto simp: n_def)
      obtain k cs where k: "k \<le> length (drop n src)" "span (uwpa pt s) (va + of_nat n) k = Some cs"
          "k < length (drop n src) \<longrightarrow> uwpa pt s (va + of_nat n + of_nat k) = None"
          "copyout_loop pt (va + of_nat n) (drop n src) (s\<lparr>pmem := m\<rparr>) =
             Some (Inr (if k = length (drop n src) then 0 else -1, s\<lparr>pmem := put_all cs (take k (drop n src)) m\<rparr>))"
        using less.hyps [of "drop n src" "s\<lparr>pmem := m\<rparr>" "va + of_nat n"] n(1,2) ne
          keeps_apart [OF less.prems kp] by (auto simp: view)
      have "put_all (as @ cs) (take (n + k) src) (pmem s) = put_all cs (take k (drop n src)) m"
        using n(2) by (simp add: take_add put_all_append m as_def)
      then show ?thesis
        using k n(2) sp by (intro exI [of _ "n + k"] conjI exI [of _ "as @ cs"])
          (auto simp: step room [symmetric] span_add add.assoc)
    qed
  qed
qed

lemma copyout_spec:
  assumes "tables_apart pt s"
  shows "\<exists>k\<le>length src. \<exists>as. span (uwpa pt s) va k = Some as \<and>
     (k < length src \<longrightarrow> uwpa pt s (va + of_nat k) = None) \<and>
     copyout pt va src s =
       Inr (if k = length src then 0 else -1, s\<lparr>pmem := put_all as (take k src) (pmem s)\<rparr>)"
  using copyout_loop_spec [OF assms, of src va] unfolding copyout_def by fastforce

lemma span_nth: "span f va n = Some bs \<Longrightarrow> i < n \<Longrightarrow> f (va + of_nat i) = Some (bs ! i)"
proof -
  have "those xs = Some bs \<Longrightarrow> i < length xs \<Longrightarrow> xs ! i = Some (bs ! i)" for xs :: "'a option list" and bs i
    by (induction xs arbitrary: bs i) (auto simp: nth_Cons split: option.splits nat.splits)
  then show "span f va n = Some bs \<Longrightarrow> i < n \<Longrightarrow> f (va + of_nat i) = Some (bs ! i)"
    by (fastforce simp: span_def)
qed

lemma span_SomeI: "(\<And>i. i < n \<Longrightarrow> f (va + of_nat i) = Some (g i)) \<Longrightarrow> span f va n = Some (map g [0..<n])"
  unfolding span_def those_Some [symmetric] by (intro arg_cong [where f = those] map_cong) auto

lemma span_None: "i < n \<Longrightarrow> f (va + of_nat i) = None \<Longrightarrow> span f va n = None"
  using span_nth [of f va n _ i] by (cases "span f va n") auto

section \<open>Well-formed page tables keep their tables apart\<close>

lemma walk_reads_tables:
  assumes r: "pt_rep root tab (pmem s)" and e: "e \<in> set (walk_reads 2 root va s)"
  shows "\<exists>a\<in>ran tab. \<exists>i<512. e = a + 8 * i"
proof -
  have t: "a \<in> ran tab" if "tab n = Some a" for n a using that by (auto simp: ran_def)
  have hit: "PTE2PA (load64 (pmem s) (a + 8 * i)) = c \<and> tab (n @ [i]) = Some c"
    if "tab n = Some a" "length n < 2" "i < 512" "load64 (pmem s) (a + 8 * i) AND PTE_V \<noteq> 0"
      "c = PTE2PA (load64 (pmem s) (a + 8 * i))" for n a i c
    using pt_repD(4) [OF r that(1,2,3)] that(4,5) pt_repD(2) [OF r]
    by (cases "tab (n @ [i])") (auto simp: PTE2PA_table)
  define b where "b = PTE2PA (load64 (pmem s) (root + 8 * PX 2 va))"
  define c where "c = PTE2PA (load64 (pmem s) (b + 8 * PX 1 va))"
  consider "e = root + 8 * PX 2 va"
    | "load64 (pmem s) (root + 8 * PX 2 va) AND PTE_V \<noteq> 0" "e = b + 8 * PX 1 va"
    | "load64 (pmem s) (root + 8 * PX 2 va) AND PTE_V \<noteq> 0" "load64 (pmem s) (b + 8 * PX 1 va) AND PTE_V \<noteq> 0"
      "e = c + 8 * PX 0 va"
    using e by (auto simp: numeral_2_eq_2 Let_def b_def c_def split: if_splits)
  then show ?thesis
  proof cases
    case 1
    then show ?thesis using t [OF pt_repD(1) [OF r]] by (intro bexI [of _ root] exI [of _ "PX 2 va"]) auto
  next
    case 2
    then have "tab [PX 2 va] = Some b" using hit [OF pt_repD(1) [OF r], of "PX 2 va" b] by (simp add: b_def)
    then show ?thesis using 2 t by (intro bexI [of _ b] exI [of _ "PX 1 va"]) auto
  next
    case 3
    then have "tab [PX 2 va] = Some b" using hit [OF pt_repD(1) [OF r], of "PX 2 va" b] by (simp add: b_def)
    then have "tab [PX 2 va, PX 1 va] = Some c" using 3 hit [of "[PX 2 va]" b "PX 1 va" c] by (simp add: c_def)
    then show ?thesis using 3 t by (intro bexI [of _ c] exI [of _ "PX 0 va"]) auto
  qed
qed

lemma PTE2PA_aligned: "PTE2PA e mod PGSIZE = 0"
  by (auto simp: aligned_bits PTE2PA_def bit_simps)

lemma walkaddr_leaf:
  assumes r: "pt_rep root tab (pmem s)" and v: "v < MAXVA"
  shows "walkaddr root v s =
    (let e = leaf tab (pmem s) v in Inr (if e AND PTE_V = 0 \<or> e AND PTE_U = 0 then 0 else PTE2PA e))"
proof (cases "tab [PX 2 v, PX 1 v]")
  case None
  then show ?thesis using walk_missing [OF r None] v by (simp add: walkaddr_def walk_def leaf_def)
next
  case (Some a)
  have "a + 8 * PX 0 v \<noteq> 0"
    using pt_repD(2) [OF r Some] unat_entry [of a "PX 0 v"] by (auto simp: unat_eq_0 [symmetric])
  then show ?thesis
    using walk_found [OF r Some] v Some by (auto simp: walkaddr_def walk_def leaf_def Let_def dest: leD)
qed

lemma aspace_apart:
  assumes r: "pt_rep root tab (pmem s)"
    and d: "\<And>v. v < MAXVA \<Longrightarrow> leaf tab (pmem s) v AND PTE_V \<noteq> 0 \<Longrightarrow> PTE2PA (leaf tab (pmem s) v) \<notin> ran tab"
  shows "tables_apart root s"
  unfolding tables_apart_def
proof (intro allI ballI impI)
  fix va vb e and i :: nat
  assume e: "e \<in> set (walk_reads 2 root va s)" and i: "i < 8"
  obtain a j where a: "a \<in> ran tab" "j < 512" "e = a + 8 * j" using walk_reads_tables [OF r e] by blast
  then have al: "a mod PGSIZE = 0" using pt_repD(2) [OF r] by (auto simp: ran_def)
  have ea: "in_page (e + of_nat i) a" unfolding a(3) by (rule entry_in_page [OF al a(2) i])
  show "user_pa root s vb \<noteq> Some (e + of_nat i)"
  proof
    let ?v = "PGROUNDDOWN vb" and ?e = "leaf tab (pmem s) (PGROUNDDOWN vb)"
    assume u: "user_pa root s vb = Some (e + of_nat i)"
    then have v: "?v < MAXVA" by (auto simp: user_pa_walkaddr walkaddr_def split: if_splits)
    have p: "?e AND PTE_V \<noteq> 0" "e + of_nat i = PTE2PA ?e + (vb - ?v)"
      using u by (auto simp: user_pa_walkaddr walkaddr_leaf [OF r v] Let_def split: if_splits)
    then have "in_page (e + of_nat i) (PTE2PA ?e)" using rounddown_bounds(1) [of vb] by (simp add: in_page_def)
    moreover have "PTE2PA ?e \<noteq> a" using d [OF v p(1)] a(1) by auto
    ultimately show False using page_disjoint [OF PTE2PA_aligned al] ea by blast
  qed
qed

section \<open>An example\<close>

lemma ex_space_apart: "tables_apart 0x1000 ex_space"
  and ex_space_pa: "i < 3 \<Longrightarrow> user_pa 0x1000 ex_space (16 + of_nat i) = Some (0x4010 + of_nat i)"
    "i < 3 \<Longrightarrow> uwpa 0x1000 ex_space (16 + of_nat i) = Some (0x4010 + of_nat i)"
proof -
  have e: "PA2PTE 0x4000 OR 0x16 OR 1 = 0x1017" by (simp add: PA2PTE_def)
  have r: "pt_rep 0x1000 ex_tab (pmem ex_space)"
    and lf: "\<And>v. v < MAXVA \<Longrightarrow> leaf ex_tab (pmem ex_space) v = (if vpage v = 0 then 0x1017 else 0)"
    using ex_space_leaf [of 0] unfolding e by (auto simp: aspace_def)
  have rn: "ran ex_tab = {0x1000, 0x2000, 0x3000}" by (auto simp: ex_tab_def ran_def)
  show "tables_apart 0x1000 ex_space"
    by (rule aspace_apart [OF r]) (auto simp: lf rn PTE2PA_def split: if_splits)
  assume i: "i < 3"
  have z: "PGROUNDDOWN (16 + of_nat i) = 0"
    using same_pageno [of i 16] i by (simp add: page_room_eq PGROUNDDOWN_def)
  have "walkaddr 0x1000 0 ex_space = Inr 0x4000"
    by (simp add: walkaddr_leaf [OF r] lf vpage_def PTE2PA_def)
  then show pa: "user_pa 0x1000 ex_space (16 + of_nat i) = Some (0x4010 + of_nat i)"
    by (simp add: user_pa_walkaddr z)
  obtain b where "walk 0x1000 0 False ex_space = Inr (b, ex_space)" "b \<noteq> 0" "load64 (pmem ex_space) b = 0x1017"
    using walk_leaf [OF r, of 0 False] lf [of 0] by (auto simp: vpage_def)
  then show "uwpa 0x1000 ex_space (16 + of_nat i) = Some (0x4010 + of_nat i)"
    using pa by (simp add: uwpa_walk z)
qed

section \<open>Properties\<close>

text \<open>C25.  \<^verbatim>\<open>copyin\<close> never panics.  It returns 0 and the bytes of user memory when all of
  them lie behind entries that are valid and open to the user; otherwise it returns -1 and has
  copied exactly the bytes before the first address that is not mapped so.\<close>

theorem copyin_exact:
  "case ubytes pt s va len of
     Some bs \<Rightarrow> copyin pt va len s = Inr (0, bs)
   | None \<Rightarrow> \<exists>k<len. \<exists>bs. ubytes pt s va k = Some bs \<and> ubyte pt s (va + of_nat k) = None \<and>
       copyin pt va len s = Inr (-1, bs)"
  by (rule copyin_spec)

text \<open>C26.  \<^verbatim>\<open>copyinstr\<close> never panics.  It returns 0 with the string and its null byte exactly
  when a terminated string of readable bytes starts at the address and fits, and -1 otherwise.\<close>

theorem copyinstr_exact:
  "\<exists>r bs. copyinstr pt va mx s = Inr (r, bs) \<and> r \<in> {0, -1} \<and>
     (r = 0) = (\<exists>cs. ustr pt s va cs \<and> length cs < mx \<and> bs = cs @ [0]) \<and>
     (r = 0) = (\<exists>cs. ustr pt s va cs \<and> length cs < mx)"
  using copyinstr_spec [of pt s va mx] by auto

text \<open>C27.  When no user address leads into the page tables, \<^verbatim>\<open>copyout\<close> never panics, and it
  returns 0 exactly when all bytes are mapped writable for the user.  Then, if the addresses
  of the range are backed by different bytes of memory, \<^verbatim>\<open>copyin\<close> reads back the bytes that
  were written, and all user bytes backed by other memory are unchanged.\<close>

theorem copyout_copyin:
  assumes "tables_apart pt s"
    and "\<And>i j. i < j \<Longrightarrow> j < length src \<Longrightarrow> user_pa pt s (va + of_nat i) \<noteq> user_pa pt s (va + of_nat j)"
  shows "\<exists>r t. copyout pt va src s = Inr (r, t) \<and>
    (r = 0) = (\<forall>i<length src. uwpa pt s (va + of_nat i) \<noteq> None) \<and>
    (r = 0 \<longrightarrow> copyin pt va (length src) t = Inr (0, src) \<and>
       (\<forall>v. (\<forall>i<length src. user_pa pt s v \<noteq> user_pa pt s (va + of_nat i)) \<longrightarrow> ubyte pt t v = ubyte pt s v))"
proof -
  obtain k as where k: "k \<le> length src" "span (uwpa pt s) va k = Some as"
      "k < length src \<longrightarrow> uwpa pt s (va + of_nat k) = None"
      "copyout pt va src s = Inr (if k = length src then 0 else -1, s\<lparr>pmem := put_all as (take k src) (pmem s)\<rparr>)"
    using copyout_spec [OF assms(1)] by blast
  have w: "uwpa pt s (va + of_nat i) = Some (as ! i)" if "i < k" for i by (rule span_nth [OF k(2) that])
  have la: "length as = k" by (rule span_length [OF k(2)])
  have all: "(k = length src) = (\<forall>i<length src. uwpa pt s (va + of_nat i) \<noteq> None)"
    using k(1,3) w by (cases "k = length src") (auto simp: le_less)
  define t where "t = s\<lparr>pmem := put_all as src (pmem s)\<rparr>"
  show ?thesis
  proof (cases "k = length src")
    case False
    then show ?thesis using k(4) all by auto
  next
    case True
    have v: "user_pa pt t v = user_pa pt s v" for v
      using keeps_views(1) [OF assms(1) put_all_keeps [OF k(2)]] by (simp add: t_def)
    have u: "user_pa pt s (va + of_nat i) = Some (as ! i)" if "i < k" for i using uwpa_user w that by blast
    have "distinct as"
      unfolding distinct_conv_nth la using assms(2) u True by (metis nat_neq_iff)
    then have "map (pmem t) as = src" using put_all_at la True by (simp add: t_def)
    then have "ubyte pt t (va + of_nat i) = Some (src ! i)" if "i < k" for i
      using u [OF that] that la v by (auto simp: ubyte_def)
    then have "ubytes pt t va k = Some (map ((!) src) [0..<k])" by (intro span_SomeI) simp
    then have c: "copyin pt va k t = Inr (0, src)" using copyin_spec [where pt = pt and s = t and va = va and len = k] True by (simp add: map_nth)
    have "ubyte pt t x = ubyte pt s x" if "\<forall>i<length src. user_pa pt s x \<noteq> user_pa pt s (va + of_nat i)" for x
    proof (cases "user_pa pt s x")
      case (Some a)
      have "a \<notin> set as" using that Some u la True by (auto simp: in_set_conv_nth)
      then show ?thesis using Some v by (simp add: ubyte_def t_def put_all_other)
    qed (simp add: ubyte_def v)
    then show ?thesis using k(4) all c True by (auto simp: t_def)
  qed
qed

theorem copyout_copyin_witness:
  "\<exists>t. copyout 0x1000 16 [1, 2, 3] ex_space = Inr (0, t) \<and> copyin 0x1000 16 3 t = Inr (0, [1, 2, 3])"
proof -
  have inj: "user_pa 0x1000 ex_space (16 + of_nat i) \<noteq> user_pa 0x1000 ex_space (16 + of_nat j)"
    if "i < j" "j < 3" for i j :: nat
    using ex_space_pa(1) [of i] ex_space_pa(1) [of j] that
    by (auto dest!: arg_cong [where f = unat] simp: unat_of_nat)
  obtain r' t where "copyout 0x1000 16 [1, 2, 3] ex_space = Inr (r', t)"
      "(r' = 0) = (\<forall>i<length [1, 2, 3 :: byte]. uwpa 0x1000 ex_space (16 + of_nat i) \<noteq> None)"
      "r' = 0 \<longrightarrow> copyin 0x1000 16 (length [1, 2, 3 :: byte]) t = Inr (0, [1, 2, 3])"
    using copyout_copyin [OF ex_space_apart, of "[1, 2, 3]" 16] inj by auto
  then show ?thesis using ex_space_pa(2) by (auto simp: eval_nat_numeral)
qed

end
