(* ===== verification/Kern.thy ===== *)
theory Kern
  imports Sync Usercopy
begin

text \<open>
  The part of the kernel's state that every subsystem uses: the process table and scheduler,
  physical memory and the tick counter.  The subsystems extend the record \<open>kern\<close> with their
  own state, and their operations work on any extension.

  A call that sleeps is one pass of its waiting loop: it either returns (\<open>Ret\<close>) or leaves the
  caller asleep with the value of its loop counter (\<open>Slept\<close>); after a wakeup the next pass
  starts from that value.  The long operations of the file system stop with \<open>Sleeping\<close>
  instead when the caller has to wait.
\<close>

record kern =
  k_sched :: sched
  k_phys :: phys
  k_ticks :: u32

datatype pass = Ret int | Slept int

definition k_wakeup :: "chan \<Rightarrow> 'a kern_scheme \<Rightarrow> 'a kern_scheme" where
  "k_wakeup ch s = s\<lparr>k_sched := wakeup (Some ch) (k_sched s)\<rparr>"

definition k_sleep :: "chan \<Rightarrow> 'a kern_scheme \<Rightarrow> 'a kern_scheme res" where
  "k_sleep ch s = bnd (sleep ch (k_sched s)) (\<lambda>d. Inr (s\<lparr>k_sched := d\<rparr>))"

text \<open>The current process; code that dereferences \<^verbatim>\<open>myproc()\<close> faults without one.\<close>

definition k_proc :: "'a kern_scheme \<Rightarrow> (nat \<Rightarrow> 'b res) \<Rightarrow> 'b res" where
  "k_proc s f = with_proc (k_sched s) f"

definition k_pt :: "nat \<Rightarrow> 'a kern_scheme \<Rightarrow> u64" where
  "k_pt p s = p_pagetable (procs (k_sched s) p)"

section \<open>Copying to and from the caller\<close>

text \<open>
  The destination of a copy is a user address, a kernel address, or a variable of the calling
  function, which gets the bytes as a value; likewise for the source.
\<close>

datatype dest = UDst u64 | KDst u64 | VDst

fun dest_add :: "dest \<Rightarrow> nat \<Rightarrow> dest" where
  "dest_add (UDst a) n = UDst (a + of_nat n)"
| "dest_add (KDst a) n = KDst (a + of_nat n)"
| "dest_add VDst n = VDst"

fun either_copyout :: "dest \<Rightarrow> byte list \<Rightarrow> 'a kern_scheme \<Rightarrow> (int \<times> 'a kern_scheme) res" where
  "either_copyout (UDst a) bs s = k_proc s (\<lambda>p.
     bnd (copyout (k_pt p s) a bs (k_phys s)) (\<lambda>(r, m). Inr (r, s\<lparr>k_phys := m\<rparr>)))"
| "either_copyout (KDst a) bs s =
     Inr (0, s\<lparr>k_phys := (k_phys s)\<lparr>pmem := write_bytes a bs (pmem (k_phys s))\<rparr>\<rparr>)"
| "either_copyout VDst bs s = Inr (0, s)"

datatype source = USrc u64 | KSrc u64 | VSrc "byte list"

fun source_add :: "source \<Rightarrow> nat \<Rightarrow> source" where
  "source_add (USrc a) n = USrc (a + of_nat n)"
| "source_add (KSrc a) n = KSrc (a + of_nat n)"
| "source_add (VSrc bs) n = VSrc (drop n bs)"

fun either_copyin :: "source \<Rightarrow> nat \<Rightarrow> 'a kern_scheme \<Rightarrow> (int \<times> byte list) res" where
  "either_copyin (USrc a) n s = k_proc s (\<lambda>p. copyin (k_pt p s) a n (k_phys s))"
| "either_copyin (KSrc a) n s = Inr (0, bytes (pmem (k_phys s)) a n)"
| "either_copyin (VSrc bs) n s = Inr (0, take n bs)"

end
