(* ===== verification/Ring.thy ===== *)
theory Ring
  imports Prelude
begin

text \<open>
  Ring buffers with free-running unsigned counters, as in pipes, the console input and the
  serial line: a buffer of \<open>N\<close> bytes, a read and a write counter that wrap around at the
  word size, and an access at the counter modulo \<open>N\<close>.
\<close>

definition ring_list :: "nat \<Rightarrow> (nat \<Rightarrow> byte) \<Rightarrow> 'l :: len word \<Rightarrow> 'l word \<Rightarrow> byte list" where
  "ring_list N d r w = map (\<lambda>i. d (unat (r + of_nat i) mod N)) [0..<unat (w - r)]"

lemma ring_list_length [simp]: "length (ring_list N d r w) = unat (w - r)"
  by (simp add: ring_list_def)

lemma ring_list_empty [simp]: "ring_list N d r r = []"
  by (simp add: ring_list_def)

lemma ring_list_Nil_iff: "ring_list N d r w = [] \<longleftrightarrow> r = w"
  by (metis ring_list_length ring_list_empty length_0_conv right_minus_eq unat_eq_0)

locale ring =
  fixes N :: nat and tag :: "'l :: len itself"
  assumes size_pos: "0 < N" and size_dvd: "N dvd 2 ^ LENGTH('l)" and size_less: "N < 2 ^ LENGTH('l)"
begin

lemma index: "unat (r + of_nat i :: 'l word) mod N = (unat r + i) mod N"
proof -
  have "unat (r + of_nat i) = (unat r + i) mod 2 ^ LENGTH('l)"
    by (simp add: unat_word_ariths unat_of_nat mod_simps)
  then show ?thesis by (simp add: mod_mod_cancel size_dvd)
qed

lemma write_index: "unat w mod N = (unat r + unat (w - r)) mod N" for r w :: "'l word"
  using index [of r "unat (w - r)"] by simp

lemma index_apart:
  assumes "i < k" "k < N + i"
  shows "(a + i) mod N \<noteq> (a + k) mod N"
proof
  assume "(a + i) mod N = (a + k) mod N"
  then have "N dvd (a + k) - (a + i)" using mod_eq_dvd_iff_nat [of "a + i" "a + k" N] assms(1) by simp
  then have "N \<le> k - i" using assms(1) by (auto dest: dvd_imp_le)
  then show False using assms by simp
qed

lemma succ_distance:
  assumes "unat (w - r) < N"
  shows "unat (w + 1 - r :: 'l word) = Suc (unat (w - r))"
proof -
  have "unat (w - r + 1) = Suc (unat (w - r))"
    using assms size_less by (simp add: unat_word_ariths(1) unat_of_nat)
  then show ?thesis by (simp add: algebra_simps)
qed

lemma push:
  fixes r w :: "'l word"
  assumes "unat (w - r) < N"
  shows "ring_list N (d(unat w mod N := b)) r (w + 1) = ring_list N d r w @ [b]"
proof -
  have "(unat r + i) mod N \<noteq> (unat r + unat (w - r)) mod N" if "i < unat (w - r)" for i
    using that assms by (intro index_apart) auto
  then have "map (\<lambda>i. (d(unat w mod N := b)) (unat (r + of_nat i) mod N)) [0..<unat (w - r)]
      = ring_list N d r w"
    unfolding ring_list_def by (auto simp: index write_index [of w r])
  then show ?thesis unfolding ring_list_def succ_distance [OF assms] by (simp add: ring_list_def)
qed

lemma pop:
  fixes r w :: "'l word"
  assumes "r \<noteq> w"
  shows "ring_list N d r w = d (unat r mod N) # ring_list N d (r + 1) w"
proof -
  obtain k where k: "unat (w - r) = Suc k" using assms by (metis not0_implies_Suc right_minus_eq unat_eq_0)
  then have k': "unat (w - (r + 1)) = k" by (metis diff_Suc_1 diff_diff_add unat_minus_one right_minus_eq assms)
  have "[0..<Suc k] = 0 # map Suc [0..<k]" by (simp only: upt_conv_Cons map_Suc_upt zero_less_Suc)
  then show ?thesis unfolding ring_list_def k k' by (simp add: algebra_simps)
qed

lemma unpush:
  fixes r w :: "'l word"
  assumes "r \<noteq> w"
  shows "ring_list N d r (w - 1) = butlast (ring_list N d r w)"
proof -
  obtain k where k: "unat (w - r) = Suc k" using assms by (metis not0_implies_Suc right_minus_eq unat_eq_0)
  then have k': "unat (w - 1 - r) = k"
    by (metis diff_Suc_1 diff_right_commute unat_minus_one right_minus_eq assms)
  then show ?thesis unfolding ring_list_def k k' by simp
qed

lemma full_iff:
  fixes r w :: "'l word"
  shows "w = r + of_nat N \<longleftrightarrow> unat (w - r) = N"
proof -
  have "w = r + of_nat N \<longleftrightarrow> w - r = of_nat N" by (auto simp: algebra_simps)
  also have "\<dots> \<longleftrightarrow> unat (w - r) = N"
    using size_less by (auto simp: word_unat_eq_iff unat_of_nat)
  finally show ?thesis .
qed

end

end
