(* ===== verification/Pipe.thy ===== *)
theory Pipe
  imports Kern Ring
begin

text \<open>
  Pipes, \<^verbatim>\<open>kernel/pipe.c\<close>.  A pipe lives in a page of its own and is named by the address
  of the page.  The two counters run freely and wrap at 32 bits.
\<close>

record pipe =
  pi_data :: "nat \<Rightarrow> byte"
  pi_nread :: u32
  pi_nwrite :: u32
  pi_readopen :: bool
  pi_writeopen :: bool

record pkern = kern +
  k_pipes :: "u64 \<Rightarrow> pipe"

abbreviation (input) PIPESIZE :: nat where "PIPESIZE \<equiv> 512"

definition upd_pipe :: "u64 \<Rightarrow> (pipe \<Rightarrow> pipe) \<Rightarrow> 'a pkern_scheme \<Rightarrow> 'a pkern_scheme" where
  "upd_pipe pi f s = s\<lparr>k_pipes := (k_pipes s)(pi := f (k_pipes s pi))\<rparr>"

definition pipeclose :: "u64 \<Rightarrow> u64 \<Rightarrow> bool \<Rightarrow> 'a pkern_scheme \<Rightarrow> 'a pkern_scheme res" where
  "pipeclose kend pi writable s =
     (let s = (if writable then k_wakeup (Ch_pipe_nread pi) (upd_pipe pi (\<lambda>x. x\<lparr>pi_writeopen := False\<rparr>) s)
               else k_wakeup (Ch_pipe_nwrite pi) (upd_pipe pi (\<lambda>x. x\<lparr>pi_readopen := False\<rparr>) s))
      in if \<not> pi_readopen (k_pipes s pi) \<and> \<not> pi_writeopen (k_pipes s pi)
         then bnd (kfree kend pi (k_phys s)) (\<lambda>m. Inr (s\<lparr>k_phys := m\<rparr>))
         else Inr s)"

section \<open>Writing\<close>

definition pipe_put :: "byte \<Rightarrow> pipe \<Rightarrow> pipe" where
  "pipe_put ch x = x\<lparr>pi_data := (pi_data x)(unat (pi_nwrite x) mod PIPESIZE := ch),
                    pi_nwrite := pi_nwrite x + 1\<rparr>"

function pipewrite_loop ::
  "u64 \<Rightarrow> u64 \<Rightarrow> int \<Rightarrow> int \<Rightarrow> 'a pkern_scheme \<Rightarrow> (pass \<times> 'a pkern_scheme) res" where
  "pipewrite_loop pi addr n i s =
     (if i < n
      then k_proc s (\<lambda>pr.
        if \<not> pi_readopen (k_pipes s pi) \<or> killed pr (k_sched s) then Inr (Ret (-1), s)
        else if pi_nwrite (k_pipes s pi) = pi_nread (k_pipes s pi) + of_nat PIPESIZE
             then bnd (k_sleep (Ch_pipe_nwrite pi) (k_wakeup (Ch_pipe_nread pi) s))
                    (\<lambda>s. Inr (Slept i, s))
             else bnd (copyin (k_pt pr s) (addr + of_int i) 1 (k_phys s)) (\<lambda>(r, bs).
                    if r = -1 then Inr (Ret i, k_wakeup (Ch_pipe_nread pi) s)
                    else pipewrite_loop pi addr n (i + 1) (upd_pipe pi (pipe_put (bs ! 0)) s)))
      else Inr (Ret i, k_wakeup (Ch_pipe_nread pi) s))"
  by pat_completeness auto
termination
  by (relation "measure (\<lambda>(pi, addr, n, i, s). nat (n - i))") auto

declare pipewrite_loop.simps [simp del]

definition pipewrite ::
  "u64 \<Rightarrow> u64 \<Rightarrow> int \<Rightarrow> 'a pkern_scheme \<Rightarrow> (pass \<times> 'a pkern_scheme) res" where
  "pipewrite pi addr n s = pipewrite_loop pi addr n 0 s"

section \<open>Reading\<close>

function piperead_loop ::
  "u64 \<Rightarrow> u64 \<Rightarrow> int \<Rightarrow> int \<Rightarrow> nat \<Rightarrow> 'a pkern_scheme \<Rightarrow> (int \<times> 'a pkern_scheme) res" where
  "piperead_loop pi addr n i pr s =
     (if i < n
      then if pi_nread (k_pipes s pi) = pi_nwrite (k_pipes s pi) then Inr (i, s)
           else let x = k_pipes s pi;
                    ch = pi_data x (unat (pi_nread x) mod PIPESIZE);
                    s = upd_pipe pi (\<lambda>x. x\<lparr>pi_nread := pi_nread x + 1\<rparr>) s
                in bnd (copyout (k_pt pr s) (addr + of_int i) [ch] (k_phys s)) (\<lambda>(r, m).
                     let s = s\<lparr>k_phys := m\<rparr>
                     in if r = -1 then Inr (i, s) else piperead_loop pi addr n (i + 1) pr s)
      else Inr (i, s))"
  by pat_completeness auto
termination
  by (relation "measure (\<lambda>(pi, addr, n, i, pr, s). nat (n - i))") auto

declare piperead_loop.simps [simp del]

definition piperead ::
  "u64 \<Rightarrow> u64 \<Rightarrow> int \<Rightarrow> 'a pkern_scheme \<Rightarrow> (pass \<times> 'a pkern_scheme) res" where
  "piperead pi addr n s = k_proc s (\<lambda>pr.
     if pi_nread (k_pipes s pi) = pi_nwrite (k_pipes s pi) \<and> pi_writeopen (k_pipes s pi)
     then if killed pr (k_sched s) then Inr (Ret (-1), s)
          else bnd (k_sleep (Ch_pipe_nread pi) s) (\<lambda>s. Inr (Slept 0, s))
     else bnd (piperead_loop pi addr n 0 pr s) (\<lambda>(i, s).
            Inr (Ret i, k_wakeup (Ch_pipe_nwrite pi) s)))"

section \<open>The queue in a pipe\<close>

definition pipe_q :: "pipe \<Rightarrow> byte list" where
  "pipe_q x = ring_list PIPESIZE (pi_data x) (pi_nread x) (pi_nwrite x)"

interpretation pring: ring 512 "TYPE(32)"
  by unfold_locales (simp_all add: dvd_def exI [of _ 8388608])

lemma pipe_full_iff: "pi_nwrite x = pi_nread x + 512 \<longleftrightarrow> length (pipe_q x) = PIPESIZE"
  using pring.full_iff [of "pi_nwrite x" "pi_nread x"] by (simp add: pipe_q_def)

lemma pipe_empty_iff: "pi_nread x = pi_nwrite x \<longleftrightarrow> pipe_q x = []"
  by (simp add: pipe_q_def ring_list_Nil_iff)

lemma pipe_put_q: "length (pipe_q x) < PIPESIZE \<Longrightarrow> pipe_q (pipe_put ch x) = pipe_q x @ [ch]"
  using pring.push [of "pi_nwrite x" "pi_nread x" "pi_data x" ch] by (simp add: pipe_q_def pipe_put_def)

lemma pipe_get_q:
  assumes "pi_nread x \<noteq> pi_nwrite x"
  shows "pipe_q x = pi_data x (unat (pi_nread x) mod PIPESIZE) # pipe_q (x\<lparr>pi_nread := pi_nread x + 1\<rparr>)"
  using pring.pop [OF assms, of "pi_data x"] by (simp add: pipe_q_def)

lemma pipe_open_q [simp]:
  "pipe_q (x\<lparr>pi_readopen := b\<rparr>) = pipe_q x" "pipe_q (x\<lparr>pi_writeopen := b\<rparr>) = pipe_q x"
  by (simp_all add: pipe_q_def)

lemma upd_pipe_sel [simp]:
  "k_pipes (upd_pipe pi f s) = (k_pipes s)(pi := f (k_pipes s pi))"
  "k_sched (upd_pipe pi f s) = k_sched s" "k_phys (upd_pipe pi f s) = k_phys s"
  by (simp_all add: upd_pipe_def)

lemma upd_pipe_phys: "(upd_pipe pi f s)\<lparr>k_phys := k_phys s\<rparr> = upd_pipe pi f s"
  by (cases s) (simp add: upd_pipe_def)

lemma k_wakeup_sel [simp]:
  "k_pipes (k_wakeup ch (s :: 'a pkern_scheme)) = k_pipes s" "k_phys (k_wakeup ch (s' :: 'b kern_scheme)) = k_phys s'"
  by (simp_all add: k_wakeup_def)

lemma k_sleep_sel:
  "k_sleep ch (s :: 'a pkern_scheme) = Inr t \<Longrightarrow> k_pipes t = k_pipes s \<and> k_phys t = k_phys s"
  by (auto simp: k_sleep_def res_simps)

lemma k_proc_Inr: "k_proc s f = Inr r \<longleftrightarrow> (\<exists>p. myproc (k_sched s) = Some p \<and> f p = Inr r)"
  by (simp add: k_proc_def with_proc_def split: option.splits)

section \<open>Writing appends user bytes\<close>

lemma copyin_one:
  "(case ubyte pt s a of None \<Rightarrow> \<exists>bs. copyin pt a 1 s = Inr (-1, bs) | Some b \<Rightarrow> copyin pt a 1 s = Inr (0, [b]))"
  using copyin_spec [where pt = pt and s = s and va = a and len = 1]
  by (auto simp: span_def split: option.splits)

lemma copyin_one_cases:
  obtains bs where "ubyte pt s a = None" "copyin pt a 1 s = Inr (-1, bs)"
  | b where "ubyte pt s a = Some b" "copyin pt a 1 s = Inr (0, [b])"
  using copyin_one [where pt = pt and s = s and a = a] by (cases "ubyte pt s a") auto

lemma span_snoc_front: "f va = Some b \<Longrightarrow> span f (va + 1) k = Some bs \<Longrightarrow> span f va (Suc k) = Some (b # bs)"
  using span_add [of f va 1 k] by (simp add: span_def)

lemma pipewrite_step:
  assumes "myproc (k_sched s) = Some p"
  shows "pipewrite_loop pi addr n i s =
     (if i < n
      then if \<not> pi_readopen (k_pipes s pi) \<or> killed p (k_sched s) then Inr (Ret (-1), s)
           else if length (pipe_q (k_pipes s pi)) = PIPESIZE
                then bnd (k_sleep (Ch_pipe_nwrite pi) (k_wakeup (Ch_pipe_nread pi) s)) (\<lambda>s. Inr (Slept i, s))
                else case ubyte (k_pt p s) (k_phys s) (addr + of_int i) of
                       None \<Rightarrow> Inr (Ret i, k_wakeup (Ch_pipe_nread pi) s)
                     | Some b \<Rightarrow> pipewrite_loop pi addr n (i + 1) (upd_pipe pi (pipe_put b) s)
      else Inr (Ret i, k_wakeup (Ch_pipe_nread pi) s))"
proof (cases rule: copyin_one_cases [of "k_pt p s" "k_phys s" "addr + of_int i"])
  case (1 bs)
  then show ?thesis
    using assms by (subst pipewrite_loop.simps) (simp add: k_proc_def with_proc_def pipe_full_iff)
next
  case (2 b)
  then show ?thesis
    using assms by (subst pipewrite_loop.simps) (simp add: k_proc_def with_proc_def pipe_full_iff)
qed

text \<open>What a pass of \<^verbatim>\<open>pipewrite\<close> that starts with counter \<open>i\<close> guarantees.\<close>

definition pipewrite_post ::
  "u64 \<Rightarrow> u64 \<Rightarrow> int \<Rightarrow> int \<Rightarrow> nat \<Rightarrow> 'a pkern_scheme \<Rightarrow> pass \<Rightarrow> 'a pkern_scheme \<Rightarrow> bool" where
  "pipewrite_post pi addr n i p s r t \<longleftrightarrow>
     (\<exists>j bs. pipe_q (k_pipes t pi) = pipe_q (k_pipes s pi) @ bs \<and> length (pipe_q (k_pipes t pi)) \<le> PIPESIZE \<and>
        ubytes (k_pt p s) (k_phys s) (addr + of_int i) j = Some bs \<and> k_phys t = k_phys s \<and>
        (case r of
           Ret v \<Rightarrow> v = i + int j \<and> (n \<le> v \<or> ubyte (k_pt p s) (k_phys s) (addr + of_int v) = None) \<or>
                   v = -1 \<and> (\<not> pi_readopen (k_pipes s pi) \<or> killed p (k_sched s))
         | Slept v \<Rightarrow> v = i + int j \<and> v < n \<and> length (pipe_q (k_pipes t pi)) = PIPESIZE))"

lemma pipewrite_loop_post:
  assumes "pipewrite_loop pi addr n i s = Inr (r, t)" "myproc (k_sched s) = Some p"
    "length (pipe_q (k_pipes s pi)) \<le> PIPESIZE"
  shows "pipewrite_post pi addr n i p s r t"
  using assms
proof (induction "nat (n - i)" arbitrary: i s rule: less_induct)
  case (less i s)
  show ?case
  proof (cases "i < n \<and> pi_readopen (k_pipes s pi) \<and> \<not> killed p (k_sched s) \<and>
      length (pipe_q (k_pipes s pi)) < PIPESIZE \<and> ubyte (k_pt p s) (k_phys s) (addr + of_int i) \<noteq> None")
    case False
    then show ?thesis
      using less.prems(1,3) unfolding pipewrite_step [OF less.prems(2)] pipewrite_post_def
      by (intro exI [of _ 0] exI [of _ "[]"])
        (auto simp: res_simps split: if_splits option.splits dest: k_sleep_sel)
  next
    case True
    then obtain b where b: "ubyte (k_pt p s) (k_phys s) (addr + of_int i) = Some b" by blast
    define u where "u = upd_pipe pi (pipe_put b) s"
    have rec: "pipewrite_loop pi addr n (i + 1) u = Inr (r, t)"
      using True b less.prems(1) unfolding pipewrite_step [OF less.prems(2)] by (simp add: u_def)
    have q: "pipe_q (k_pipes u pi) = pipe_q (k_pipes s pi) @ [b]"
      using True by (simp add: u_def pipe_put_q)
    have same: "k_pt p u = k_pt p s" "k_phys u = k_phys s" "k_sched u = k_sched s"
        "pi_readopen (k_pipes u pi) = pi_readopen (k_pipes s pi)"
      by (simp_all add: u_def k_pt_def pipe_put_def)
    have "pipewrite_post pi addr n (i + 1) p u r t"
      using less.hyps [OF _ rec] True q less.prems(2) same by simp
    then obtain j bs where j: "pipe_q (k_pipes t pi) = pipe_q (k_pipes s pi) @ b # bs"
      "length (pipe_q (k_pipes t pi)) \<le> PIPESIZE" "k_phys t = k_phys s"
      "ubytes (k_pt p s) (k_phys s) (addr + of_int i + 1) j = Some bs"
      "(case r of
         Ret v \<Rightarrow> v = i + 1 + int j \<and> (n \<le> v \<or> ubyte (k_pt p s) (k_phys s) (addr + of_int v) = None) \<or>
                 v = -1 \<and> (\<not> pi_readopen (k_pipes s pi) \<or> killed p (k_sched s))
       | Slept v \<Rightarrow> v = i + 1 + int j \<and> v < n \<and> length (pipe_q (k_pipes t pi)) = PIPESIZE)"
      unfolding pipewrite_post_def same q by (auto simp: add.assoc)
    show ?thesis
      unfolding pipewrite_post_def
      using j(1,2,3,5) span_snoc_front [of "ubyte (k_pt p s) (k_phys s)", OF b j(4)]
      by (intro exI [of _ "Suc j"] exI [of _ "b # bs"]) (auto split: pass.splits)
  qed
qed

section \<open>Reading delivers from the front\<close>

lemma copyout_one:
  assumes "tables_apart pt s"
  shows "copyout pt a [ch] s =
    (case uwpa pt s a of None \<Rightarrow> Inr (-1, s) | Some x \<Rightarrow> Inr (0, s\<lparr>pmem := (pmem s)(x := ch)\<rparr>))"
proof -
  obtain k as where k: "k \<le> 1" "span (uwpa pt s) a k = Some as" "k < 1 \<longrightarrow> uwpa pt s (a + of_nat k) = None"
      "copyout pt a [ch] s = Inr (if k = 1 then 0 else -1, s\<lparr>pmem := put_all as (take k [ch]) (pmem s)\<rparr>)"
    using copyout_spec [OF assms, of "[ch]" a] by auto
  show ?thesis
  proof (cases "k = 1")
    case True
    then show ?thesis using k span_nth [OF k(2), of 0] span_length [OF k(2)] by (cases as) auto
  next
    case False
    then have "k = 0" using k(1) by simp
    then show ?thesis using k by simp
  qed
qed

lemma uwpa_keeps: "uwpa pt s a = Some x \<Longrightarrow> keeps pt s ((pmem s)(x := ch))"
  using uwpa_user by (fastforce simp: keeps_def)

definition piperead_post ::
  "u64 \<Rightarrow> u64 \<Rightarrow> int \<Rightarrow> int \<Rightarrow> nat \<Rightarrow> 'a pkern_scheme \<Rightarrow> int \<Rightarrow> 'a pkern_scheme \<Rightarrow> bool" where
  "piperead_post pi addr n i p s r t \<longleftrightarrow>
     (\<exists>as bs lost. pipe_q (k_pipes s pi) = bs @ lost @ pipe_q (k_pipes t pi) \<and> r = i + int (length bs) \<and>
        span (uwpa (k_pt p s) (k_phys s)) (addr + of_int i) (length bs) = Some as \<and>
        k_phys t = (k_phys s)\<lparr>pmem := put_all as bs (pmem (k_phys s))\<rparr> \<and>
        (lost = [] \<and> (n \<le> r \<or> pipe_q (k_pipes t pi) = []) \<or>
         length lost = 1 \<and> uwpa (k_pt p s) (k_phys s) (addr + of_int r) = None))"

lemma piperead_loop_post:
  assumes "tables_apart (k_pt p s) (k_phys s)"
  shows "\<exists>r t. piperead_loop pi addr n i p s = Inr (r, t) \<and> piperead_post pi addr n i p s r t"
  using assms
proof (induction "nat (n - i)" arbitrary: i s rule: less_induct)
  case (less i s)
  let ?x = "k_pipes s pi"
  let ?u = "upd_pipe pi (\<lambda>x. x\<lparr>pi_nread := pi_nread x + 1\<rparr>) s"
  define ch where "ch = pi_data ?x (unat (pi_nread ?x) mod PIPESIZE)"
  consider "\<not> i < n \<or> pi_nread ?x = pi_nwrite ?x" | "i < n" "pi_nread ?x \<noteq> pi_nwrite ?x" by blast
  then show ?case
  proof cases
    case 1
    then have "piperead_loop pi addr n i p s = Inr (i, s)" by (subst piperead_loop.simps) auto
    moreover have "piperead_post pi addr n i p s i s"
      unfolding piperead_post_def using 1 pipe_empty_iff [of ?x]
      by (intro exI [of _ "[]"]) auto
    ultimately show ?thesis by blast
  next
    case 2
    have q: "pipe_q ?x = ch # pipe_q (k_pipes ?u pi)" using pipe_get_q [OF 2(2)] by (simp add: ch_def)
    have pt: "k_pt p ?u = k_pt p s" by (simp add: k_pt_def)
    show ?thesis
    proof (cases "uwpa (k_pt p s) (k_phys s) (addr + of_int i)")
      case None
      then have "piperead_loop pi addr n i p s = Inr (i, ?u)"
        using 2 less.prems by (subst piperead_loop.simps) (simp add: Let_def pt copyout_one upd_pipe_phys)
      moreover have "piperead_post pi addr n i p s i ?u"
        unfolding piperead_post_def using None q by (intro exI [of _ "[]"] exI [of _ "[ch]"]) simp
      ultimately show ?thesis by blast
    next
      case (Some x)
      define m where "m = (pmem (k_phys s))(x := ch)"
      define v where "v = ?u\<lparr>k_phys := (k_phys s)\<lparr>pmem := m\<rparr>\<rparr>"
      have step: "piperead_loop pi addr n i p s = piperead_loop pi addr n (i + 1) p v"
        using 2 less.prems Some
        by (subst piperead_loop.simps) (simp add: Let_def pt copyout_one v_def m_def ch_def)
      have kp: "keeps (k_pt p s) (k_phys s) m" unfolding m_def by (rule uwpa_keeps [OF Some])
      have v: "k_pt p v = k_pt p s" "k_phys v = (k_phys s)\<lparr>pmem := m\<rparr>" "k_pipes v = k_pipes ?u"
        by (simp_all add: v_def k_pt_def)
      have view: "uwpa (k_pt p v) (k_phys v) = uwpa (k_pt p s) (k_phys s)"
        unfolding v using keeps_views(2) [OF less.prems kp] by blast
      have ap: "tables_apart (k_pt p v) (k_phys v)" unfolding v by (rule keeps_apart [OF less.prems kp])
      obtain r t where t: "piperead_loop pi addr n (i + 1) p v = Inr (r, t)" "piperead_post pi addr n (i + 1) p v r t"
        using less.hyps [OF _ ap, of "i + 1"] 2(1) by auto
      obtain as bs lost where b: "pipe_q (k_pipes v pi) = bs @ lost @ pipe_q (k_pipes t pi)" "r = i + 1 + int (length bs)"
          "span (uwpa (k_pt p s) (k_phys s)) (addr + of_int i + 1) (length bs) = Some as"
          "k_phys t = (k_phys s)\<lparr>pmem := put_all as bs m\<rparr>"
          "lost = [] \<and> (n \<le> r \<or> pipe_q (k_pipes t pi) = []) \<or>
           length lost = 1 \<and> uwpa (k_pt p s) (k_phys s) (addr + of_int r) = None"
        using t(2) unfolding piperead_post_def view by (auto simp: v(2) add.assoc)
      have "piperead_post pi addr n i p s r t"
        unfolding piperead_post_def
        using b q span_snoc_front [of "uwpa (k_pt p s) (k_phys s)", OF Some b(3)] v(3)
        by (intro exI [of _ "x # as"] exI [of _ "ch # bs"] exI [of _ lost]) (auto simp: m_def)
      then show ?thesis using step t(1) by auto
    qed
  qed
qed

section \<open>An example\<close>

text \<open>A process with one page of memory, and a pipe whose counters are about to wrap.\<close>

definition pipe_ex :: "u32 \<Rightarrow> pkern" where
  "pipe_ex w = \<lparr>k_sched = upd_proc 1 (\<lambda>x. x\<lparr>p_pagetable := 0x1000\<rparr>) sched_ex, k_phys = ex_space, k_ticks = 0,
     k_pipes = (\<lambda>_. \<lparr>pi_data = (\<lambda>i. if i = 511 then 7 else 8), pi_nread = 0xFFFFFFFF, pi_nwrite = w,
                    pi_readopen = True, pi_writeopen = True\<rparr>)\<rparr>"

lemma pipe_ex_sel:
  "myproc (k_sched (pipe_ex w)) = Some 1" "k_pt 1 (pipe_ex w) = 0x1000" "k_phys (pipe_ex w) = ex_space"
  "\<not> killed 1 (k_sched (pipe_ex w))" "pi_readopen (k_pipes (pipe_ex w) 0)"
  by (simp_all add: pipe_ex_def myproc_def upd_proc_def sched_ex_procs k_pt_def killed_def proc0_def)

lemma pipe_ex_q: "pipe_q (k_pipes (pipe_ex 0xFFFFFFFF) 0) = []" "pipe_q (k_pipes (pipe_ex 1) 0) = [7, 8]"
  by (simp_all add: pipe_ex_def pipe_q_def ring_list_def upt_rec)

section \<open>Properties\<close>

text \<open>C28.  \<^verbatim>\<open>pipewrite\<close>, pass by pass: the queue in the pipe grows at its end by exactly the
  user bytes from the current position on, and never beyond \<^verbatim>\<open>PIPESIZE\<close>.  When the caller
  sleeps, the pipe is full and the position counts the bytes accepted so far.  When it
  returns a count, it stopped at \<open>n\<close> or in front of an unreadable byte; it returns -1 only
  when the read end is closed or the process is killed.\<close>

theorem pipewrite_appends:
  assumes "pipewrite_loop pi addr n i s = Inr (r, t)" "myproc (k_sched s) = Some p"
    "length (pipe_q (k_pipes s pi)) \<le> PIPESIZE"
  shows "\<exists>j bs. pipe_q (k_pipes t pi) = pipe_q (k_pipes s pi) @ bs \<and> length (pipe_q (k_pipes t pi)) \<le> PIPESIZE \<and>
    ubytes (k_pt p s) (k_phys s) (addr + of_int i) j = Some bs \<and>
    (case r of
       Ret v \<Rightarrow> v = i + int j \<and> (n \<le> v \<or> ubyte (k_pt p s) (k_phys s) (addr + of_int v) = None) \<or>
               v = -1 \<and> (\<not> pi_readopen (k_pipes s pi) \<or> killed p (k_sched s))
     | Slept v \<Rightarrow> v = i + int j \<and> v < n \<and> length (pipe_q (k_pipes t pi)) = PIPESIZE)"
  using pipewrite_loop_post [OF assms] unfolding pipewrite_post_def by blast

theorem pipewrite_appends_witness:
  "\<exists>t b c. pipewrite_loop 0 16 2 0 (pipe_ex 0xFFFFFFFF) = Inr (Ret 2, t) \<and> pipe_q (k_pipes t 0) = [b, c]"
proof -
  let ?s = "pipe_ex 0xFFFFFFFF"
  have u: "\<exists>b. ubyte 0x1000 ex_space (16 + of_nat i) = Some b" if "i < 3" for i
    using ex_space_pa(1) [OF that] by (simp add: ubyte_def)
  obtain b where b: "ubyte 0x1000 ex_space 16 = Some b" using u [of 0] by auto
  obtain c where c: "ubyte 0x1000 ex_space 17 = Some c" using u [of 1] by auto
  let ?t = "upd_pipe 0 (pipe_put b) ?s"
  have p: "myproc (k_sched ?t) = Some 1" "k_pt 1 ?t = 0x1000" "k_phys ?t = ex_space" "\<not> killed 1 (k_sched ?t)"
      "pi_readopen (k_pipes ?t 0)" "length (pipe_q (k_pipes ?t 0)) = 1"
    using pipe_ex_sel [of "0xFFFFFFFF"] pipe_ex_q(1) by (simp_all add: k_pt_def pipe_put_q) (simp add: pipe_put_def)
  have p2: "myproc (k_sched (upd_pipe 0 f ?t)) = Some 1" for f using p(1) by simp
  have "pipewrite_loop 0 16 2 0 ?s = pipewrite_loop 0 16 2 1 ?t"
    unfolding pipewrite_step [OF pipe_ex_sel(1)] pipe_ex_sel using b pipe_ex_sel(4,5) pipe_ex_q(1) by simp
  moreover have "pipewrite_loop 0 16 2 1 ?t = pipewrite_loop 0 16 2 2 (upd_pipe 0 (pipe_put c) ?t)"
    unfolding pipewrite_step [OF p(1), of 0 16 2 1] p(2,3) using c p(4,5,6) by simp
  ultimately obtain t where t: "pipewrite_loop 0 16 2 0 ?s = Inr (Ret 2, t)"
    by (simp add: pipewrite_step [OF p2])
  show ?thesis
    using pipewrite_appends [OF t pipe_ex_sel(1)] pipe_ex_q(1) t
    by (auto simp: length_Suc_conv numeral_2_eq_2 dest!: span_length)
qed

text \<open>C29.  \<^verbatim>\<open>piperead\<close> on a pipe with data or without a writer: it returns a count \<open>r\<close>, and the
  first \<open>r\<close> bytes of the queue have been stored at the user's addresses, in order.  It stops
  early only when the queue is empty or an address is not writable; in the last case, one
  more byte has left the pipe.\<close>

theorem piperead_takes:
  assumes "tables_apart (k_pt p s) (k_phys s)" "myproc (k_sched s) = Some p"
    "pipe_q (k_pipes s pi) \<noteq> [] \<or> \<not> pi_writeopen (k_pipes s pi)"
  shows "\<exists>r t as bs lost. piperead pi addr n s = Inr (Ret r, t) \<and> r = int (length bs) \<and>
    pipe_q (k_pipes s pi) = bs @ lost @ pipe_q (k_pipes t pi) \<and>
    span (uwpa (k_pt p s) (k_phys s)) addr (length bs) = Some as \<and>
    k_phys t = (k_phys s)\<lparr>pmem := put_all as bs (pmem (k_phys s))\<rparr> \<and>
    (lost = [] \<and> (n \<le> r \<or> pipe_q (k_pipes t pi) = []) \<or>
     length lost = 1 \<and> uwpa (k_pt p s) (k_phys s) (addr + of_int r) = None)"
proof -
  obtain r t where t: "piperead_loop pi addr n 0 p s = Inr (r, t)" "piperead_post pi addr n 0 p s r t"
    using piperead_loop_post [OF assms(1)] by blast
  have "piperead pi addr n s = Inr (Ret r, k_wakeup (Ch_pipe_nwrite pi) t)"
    using assms(2,3) t(1) by (auto simp: piperead_def k_proc_def with_proc_def pipe_empty_iff)
  then show ?thesis using t(2) unfolding piperead_post_def by auto
qed

theorem piperead_takes_witness:
  "\<exists>t. piperead 0 16 5 (pipe_ex 1) = Inr (Ret 2, t) \<and> pipe_q (k_pipes t 0) = []"
proof -
  have ap: "tables_apart (k_pt 1 (pipe_ex 1)) (k_phys (pipe_ex 1))" unfolding pipe_ex_sel by (rule ex_space_apart)
  have ne: "pipe_q (k_pipes (pipe_ex 1) 0) \<noteq> [] \<or> \<not> pi_writeopen (k_pipes (pipe_ex 1) 0)" by (simp add: pipe_ex_q)
  obtain r t as bs lost where t: "piperead 0 16 5 (pipe_ex 1) = Inr (Ret r, t)" "r = int (length bs)"
      "[7, 8] = bs @ lost @ pipe_q (k_pipes t 0)"
      "lost = [] \<and> (5 \<le> r \<or> pipe_q (k_pipes t 0) = []) \<or>
       length lost = 1 \<and> uwpa 0x1000 ex_space (16 + of_int r) = None"
    using piperead_takes [OF ap pipe_ex_sel(1) ne, of 16 5] unfolding pipe_ex_q pipe_ex_sel by blast
  have l: "length bs + length lost + length (pipe_q (k_pipes t 0)) = 2"
    using arg_cong [OF t(3), of length] by simp
  then have "uwpa 0x1000 ex_space (16 + of_nat (length bs)) \<noteq> None"
    using ex_space_pa(2) [of "length bs"] by simp
  then have "lost = []" "pipe_q (k_pipes t 0) = []" using t(2,4) l by auto
  then show ?thesis using t(1,2) l by auto
qed

end
