(* ===== verification/Printf.thy ===== *)
theory Printf
  imports Prelude
begin

text \<open>
  Formatted output, \<^verbatim>\<open>kernel/printf.c\<close> and \<^verbatim>\<open>user/printf.c\<close>: the characters that a call
  prints, as a function of the format and its arguments.  A C string is the list of its
  characters without the null byte.  Taking an argument of the wrong kind, or one more than
  there are, and a store outside of \<^verbatim>\<open>buf[16]\<close> are out of bounds.
\<close>

section \<open>Numbers\<close>

definition digits :: string where
  "digits = ''0123456789abcdef''"

definition udigits :: string where
  "udigits = ''0123456789ABCDEF''"

text \<open>The \<^verbatim>\<open>do\<close> loop that fills \<^verbatim>\<open>buf\<close>, least significant digit first.\<close>

function put_digits :: "string \<Rightarrow> nat \<Rightarrow> nat \<Rightarrow> string \<Rightarrow> string res" where
  "put_digits ds base x buf =
     (if length buf \<ge> 16 then Inl OutOfBounds
      else let buf = buf @ [ds ! (x mod base)]; x = x div base
           in if x \<noteq> 0 then put_digits ds base x buf else Inr buf)"
  by pat_completeness auto
termination
  by (relation "measure (\<lambda>(ds, base, x, buf). 16 - length buf)") (auto simp: Let_def)

declare put_digits.simps [simp del]

definition put_sign :: "bool \<Rightarrow> string \<Rightarrow> string res" where
  "put_sign neg buf =
     (if \<not> neg then Inr buf else if length buf \<ge> 16 then Inl OutOfBounds else Inr (buf @ ''-''))"

text \<open>The kernel's \<^verbatim>\<open>printint\<close> takes a \<^verbatim>\<open>long long\<close>.\<close>

definition printint :: "u64 \<Rightarrow> nat \<Rightarrow> bool \<Rightarrow> string res" where
  "printint xx base sign =
     (let neg = (sign \<and> sint xx < 0); x = (if neg then - xx else xx)
      in bnd (put_digits digits base (unat x) []) (\<lambda>buf.
           bnd (put_sign neg buf) (\<lambda>buf. Inr (rev buf))))"

text \<open>The user's takes an \<^verbatim>\<open>int\<close>.\<close>

definition uprintint :: "u32 \<Rightarrow> nat \<Rightarrow> bool \<Rightarrow> string res" where
  "uprintint xx base sign =
     (let neg = (sign \<and> sint xx < 0); x = (if neg then - xx else xx)
      in bnd (put_digits udigits base (unat x) []) (\<lambda>buf.
           bnd (put_sign neg buf) (\<lambda>buf. Inr (rev buf))))"

fun ptr_digits :: "string \<Rightarrow> nat \<Rightarrow> u64 \<Rightarrow> string" where
  "ptr_digits ds 0 x = []"
| "ptr_digits ds (Suc i) x = ds ! unat (drop_bit 60 x) # ptr_digits ds i (push_bit 4 x)"

definition printptr :: "u64 \<Rightarrow> string" where
  "printptr x = ''0x'' @ ptr_digits digits 16 x"

definition uprintptr :: "u64 \<Rightarrow> string" where
  "uprintptr x = ''0x'' @ ptr_digits udigits 16 x"

section \<open>Formats\<close>

datatype varg = AInt u32 | ALong u64 | AStr "string option"

datatype spec = SInt nat bool | SLong nat bool nat | SPtr | SStr | SPercent | SEnd | SUnknown char

text \<open>The chain of tests after a percent sign.  \<open>SLong\<close> carries the number of characters that
  are skipped after \<^verbatim>\<open>c0\<close>.\<close>

definition spec_of :: "char option \<Rightarrow> char option \<Rightarrow> char option \<Rightarrow> spec" where
  "spec_of c0 c1 c2 =
     (let l = (c0 = Some CHR ''l''); ll = (c0 = Some CHR ''l'' \<and> c1 = Some CHR ''l'')
      in if c0 = Some CHR ''d'' then SInt 10 True
         else if l \<and> c1 = Some CHR ''d'' then SLong 10 True 1
         else if ll \<and> c2 = Some CHR ''d'' then SLong 10 True 2
         else if c0 = Some CHR ''u'' then SInt 10 False
         else if l \<and> c1 = Some CHR ''u'' then SLong 10 False 1
         else if ll \<and> c2 = Some CHR ''u'' then SLong 10 False 2
         else if c0 = Some CHR ''x'' then SInt 16 False
         else if l \<and> c1 = Some CHR ''x'' then SLong 16 False 1
         else if ll \<and> c2 = Some CHR ''x'' then SLong 16 False 2
         else if c0 = Some CHR ''p'' then SPtr
         else if c0 = Some CHR ''s'' then SStr
         else if c0 = Some (CHR 0x25) then SPercent
         else (case c0 of None \<Rightarrow> SEnd | Some c \<Rightarrow> SUnknown c))"

definition at :: "string \<Rightarrow> nat \<Rightarrow> char option" where
  "at fmt i = (if i < length fmt then Some (fmt ! i) else None)"

definition str_arg :: "string option \<Rightarrow> string" where
  "str_arg s = (case s of None \<Rightarrow> ''(null)'' | Some s \<Rightarrow> s)"

text \<open>\<^verbatim>\<open>printf\<close> of the kernel, with the characters printed so far.\<close>

function kprintf_loop :: "string \<Rightarrow> varg list \<Rightarrow> string \<Rightarrow> string res" where
  "kprintf_loop fmt ap out =
     (case fmt of
        [] \<Rightarrow> Inr out
      | cx # f \<Rightarrow>
          if cx \<noteq> CHR 0x25 then kprintf_loop f ap (out @ [cx])
          else case spec_of (at f 0) (at f 1) (at f 2) of
                 SInt base sign \<Rightarrow>
                   (case ap of
                      AInt x # ap \<Rightarrow> bnd (printint (scast x) base sign) (\<lambda>s. kprintf_loop (drop 1 f) ap (out @ s))
                    | _ \<Rightarrow> Inl OutOfBounds)
               | SLong base sign k \<Rightarrow>
                   (case ap of
                      ALong x # ap \<Rightarrow> bnd (printint x base sign) (\<lambda>s. kprintf_loop (drop (1 + k) f) ap (out @ s))
                    | _ \<Rightarrow> Inl OutOfBounds)
               | SPtr \<Rightarrow>
                   (case ap of ALong x # ap \<Rightarrow> kprintf_loop (drop 1 f) ap (out @ printptr x) | _ \<Rightarrow> Inl OutOfBounds)
               | SStr \<Rightarrow>
                   (case ap of AStr s # ap \<Rightarrow> kprintf_loop (drop 1 f) ap (out @ str_arg s) | _ \<Rightarrow> Inl OutOfBounds)
               | SPercent \<Rightarrow> kprintf_loop (drop 1 f) ap (out @ [CHR 0x25])
               | SEnd \<Rightarrow> Inr out
               | SUnknown c \<Rightarrow> kprintf_loop (drop 1 f) ap (out @ [CHR 0x25, c]))"
  by pat_completeness auto
termination
  by (relation "measure (\<lambda>(fmt, ap, out). length fmt)") auto

declare kprintf_loop.simps [simp del]

definition kprintf :: "string \<Rightarrow> varg list \<Rightarrow> string res" where
  "kprintf fmt ap = kprintf_loop fmt ap []"

text \<open>\<^verbatim>\<open>vprintf\<close> of the user library; \<open>pct\<close> is its state.  A long argument is passed to
  \<^verbatim>\<open>printint\<close> as an \<^verbatim>\<open>int\<close>.\<close>

function vprintf_loop :: "string \<Rightarrow> bool \<Rightarrow> varg list \<Rightarrow> string \<Rightarrow> string res" where
  "vprintf_loop fmt pct ap out =
     (case fmt of
        [] \<Rightarrow> Inr out
      | c0 # f \<Rightarrow>
          if \<not> pct then if c0 = CHR 0x25 then vprintf_loop f True ap out
                        else vprintf_loop f False ap (out @ [c0])
          else case spec_of (Some c0) (at f 0) (at f 1) of
                 SInt base sign \<Rightarrow>
                   (case ap of
                      AInt x # ap \<Rightarrow> bnd (uprintint x base sign) (\<lambda>s. vprintf_loop f False ap (out @ s))
                    | _ \<Rightarrow> Inl OutOfBounds)
               | SLong base sign k \<Rightarrow>
                   (case ap of
                      ALong x # ap \<Rightarrow> bnd (uprintint (ucast x) base sign) (\<lambda>s. vprintf_loop (drop k f) False ap (out @ s))
                    | _ \<Rightarrow> Inl OutOfBounds)
               | SPtr \<Rightarrow>
                   (case ap of ALong x # ap \<Rightarrow> vprintf_loop f False ap (out @ uprintptr x) | _ \<Rightarrow> Inl OutOfBounds)
               | SStr \<Rightarrow>
                   (case ap of AStr s # ap \<Rightarrow> vprintf_loop f False ap (out @ str_arg s) | _ \<Rightarrow> Inl OutOfBounds)
               | SPercent \<Rightarrow> vprintf_loop f False ap (out @ [CHR 0x25])
               | SEnd \<Rightarrow> Inr out
               | SUnknown c \<Rightarrow> vprintf_loop f False ap (out @ [CHR 0x25, c]))"
  by pat_completeness auto
termination
  by (relation "measure (\<lambda>(fmt, pct, ap, out). length fmt)") auto

declare vprintf_loop.simps [simp del]

definition vprintf :: "string \<Rightarrow> varg list \<Rightarrow> string res" where
  "vprintf fmt ap = vprintf_loop fmt False ap []"

definition uprintf :: "string \<Rightarrow> varg list \<Rightarrow> string res" where
  "uprintf fmt ap = vprintf fmt ap"

section \<open>Reading numbers\<close>

text \<open>\<^verbatim>\<open>atoi\<close> of \<^verbatim>\<open>user/ulib.c\<close>, with the value read so far.\<close>

fun atoi_loop :: "string \<Rightarrow> int \<Rightarrow> int" where
  "atoi_loop [] n = n"
| "atoi_loop (c # s) n =
     (if 48 \<le> (of_char c :: int) \<and> (of_char c :: int) \<le> 57 then atoi_loop s (n * 10 + of_char c - 48) else n)"

definition atoi :: "string \<Rightarrow> int" where
  "atoi s = atoi_loop s 0"

section \<open>Digits\<close>

text \<open>The number of digits of \<open>x\<close>, and the digits themselves, least significant first.\<close>

function ndigits :: "nat \<Rightarrow> nat \<Rightarrow> nat" where
  "ndigits base x = (if base < 2 \<or> x < base then 1 else Suc (ndigits base (x div base)))"
  by pat_completeness auto
termination
  by (relation "measure (\<lambda>(base, x). x)") auto

declare ndigits.simps [simp del]

fun digit_list :: "nat \<Rightarrow> nat \<Rightarrow> nat \<Rightarrow> nat list" where
  "digit_list base x 0 = []"
| "digit_list base x (Suc k) = x mod base # digit_list base (x div base) k"

lemma digit_list_length [simp]: "length (digit_list base x k) = k"
  by (induction k arbitrary: x) auto

lemma ndigits_pos: "0 < ndigits base x"
  by (subst ndigits.simps) simp

lemma put_digits_eq:
  assumes "2 \<le> base" "length buf < 16"
  shows "put_digits ds base x buf =
    (if length buf + ndigits base x \<le> 16
     then Inr (buf @ map ((!) ds) (digit_list base x (ndigits base x))) else Inl OutOfBounds)"
  using assms(2)
proof (induction x arbitrary: buf rule: less_induct)
  case (less x)
  show ?case
  proof (cases "x < base")
    case True
    then have "ndigits base x = 1" by (subst ndigits.simps) simp
    then show ?thesis using True less.prems by (subst put_digits.simps) simp
  next
    case False
    let ?b = "buf @ [ds ! (x mod base)]"
    have n: "ndigits base x = Suc (ndigits base (x div base))" using assms(1) False by (subst ndigits.simps) simp
    have "x div base < x" "x div base \<noteq> 0" using assms(1) False by (auto simp: div_eq_0_iff)
    moreover from this have step: "put_digits ds base x buf = put_digits ds base (x div base) ?b"
      using less.prems by (subst put_digits.simps) simp
    ultimately show ?thesis
    proof (cases "length ?b < 16")
      case True
      then show ?thesis using step less.IH [OF \<open>x div base < x\<close>, of ?b] by (simp add: n)
    next
      case False
      then have "put_digits ds base (x div base) ?b = Inl OutOfBounds" by (subst put_digits.simps) simp
      then show ?thesis using step False ndigits_pos [of base "x div base"] by (simp add: n)
    qed
  qed
qed

lemma ndigits_le: "2 \<le> base \<Longrightarrow> 0 < k \<Longrightarrow> x < base ^ k \<Longrightarrow> ndigits base x \<le> k"
proof (induction k arbitrary: x)
  case (Suc k)
  show ?case
  proof (cases "k = 0 \<or> x < base")
    case True
    then show ?thesis using Suc.prems by (subst ndigits.simps) auto
  next
    case False
    then have "x div base < base ^ k" using Suc.prems by (simp add: div_less_iff_less_mult mult.commute)
    then show ?thesis using Suc.IH [of "x div base"] Suc.prems False by (subst ndigits.simps) auto
  qed
qed simp

lemma ndigits_gt: "2 \<le> base \<Longrightarrow> base ^ k \<le> x \<Longrightarrow> k < ndigits base x"
proof (induction k arbitrary: x)
  case 0
  then show ?case by (simp add: ndigits_pos)
next
  case (Suc k)
  have "base \<le> x" using Suc.prems by (metis le_trans mult_le_mono2 mult.right_neutral one_le_power power_Suc numeral_le_one_iff
      le_numeral_extra(4) not_less_eq_eq One_nat_def Suc_le_eq numeral_2_eq_2 less_le_trans zero_less_Suc)
  moreover have "base ^ k \<le> x div base"
    using Suc.prems by (simp add: less_eq_div_iff_mult_less_eq mult.commute)
  ultimately show ?case using Suc.IH [of "x div base"] Suc.prems(1) by (subst ndigits.simps) auto
qed

section \<open>The value of the digits\<close>

fun digits_val :: "nat list \<Rightarrow> int" where
  "digits_val [] = 0"
| "digits_val (d # ds) = int d + 10 * digits_val ds"

lemma digits_val_list: "digits_val (digit_list 10 x k) = int (x mod 10 ^ k)"
proof (induction k arbitrary: x)
  case (Suc k)
  have "x mod 10 ^ Suc k = x mod 10 + 10 * (x div 10 mod 10 ^ k)"
    by (simp add: mod_mult2_eq)
  then show ?case using Suc.IH by simp
qed simp

lemma ndigits_covers: "x < 10 ^ ndigits 10 x"
  using ndigits_gt [of 10 "ndigits 10 x" x] by (cases "10 ^ ndigits 10 x \<le> x") auto

lemma udigits_char: "d < 10 \<Longrightarrow> of_char (udigits ! d) = (48 + int d)"
  by (auto simp: udigits_def less_Suc_eq numeral_eq_Suc)

lemma atoi_append:
  assumes "\<forall>d\<in>set ds. d < 10"
  shows "atoi_loop (map ((!) udigits) ds @ s) n = atoi_loop s (atoi_loop (map ((!) udigits) ds) n)"
  using assms by (induction ds arbitrary: n) (auto simp: udigits_char)

lemma atoi_digits:
  "\<forall>d\<in>set ds. d < 10 \<Longrightarrow> atoi_loop (map ((!) udigits) (rev ds)) n = n * 10 ^ length ds + digits_val ds"
proof (induction ds arbitrary: n)
  case (Cons d ds)
  have "atoi_loop (map ((!) udigits) (rev (d # ds))) n
      = atoi_loop [udigits ! d] (atoi_loop (map ((!) udigits) (rev ds)) n)"
    using Cons.prems atoi_append [of "rev ds" "[udigits ! d]" n] by simp
  then show ?case using Cons by (simp add: udigits_char algebra_simps)
qed simp

lemma digit_list_less: "0 < base \<Longrightarrow> \<forall>d\<in>set (digit_list base x k). d < base"
  by (induction k arbitrary: x) auto

lemma atoi_number:
  "atoi (rev (map ((!) udigits) (digit_list 10 x (ndigits 10 x)))) = int x"
  using atoi_digits [of "digit_list 10 x (ndigits 10 x)" 0] digit_list_less [of 10 x "ndigits 10 x"]
    ndigits_covers [of x]
  by (simp add: atoi_def rev_map digits_val_list)

lemma sint_cases: "sint (x :: u32) = (if sint x < 0 then uint x - 2 ^ 32 else uint x)"
proof -
  have "sint x = signed_take_bit 31 (uint x)" by (simp add: sint_uint)
  also have "\<dots> = uint x - 2 ^ 32 * of_bool (bit (uint x) 31)"
    using uint_bounded [of x] by (simp add: signed_take_bit_eq_take_bit_minus take_bit_int_eq_self)
  finally show ?thesis using uint_bounded [of x] by (cases "bit (uint x) 31") auto
qed

section \<open>Properties\<close>

text \<open>C30.  The kernel's \<^verbatim>\<open>printint\<close> writes past the end of its buffer exactly when the
  number, with its sign, has more than 16 characters; otherwise it prints the digits of the
  absolute value, most significant first, behind the sign.\<close>

theorem printint_overflow:
  assumes "base = 10 \<or> base = 16"
  shows "let neg = (sign \<and> sint xx < 0); x = unat (if neg then - xx else xx);
             n = ndigits base x + (if neg then 1 else 0)
         in printint xx base sign =
              (if n \<le> 16
               then Inr ((if neg then ''-'' else []) @ rev (map ((!) digits) (digit_list base x (ndigits base x))))
               else Inl OutOfBounds)"
  using assms by (auto simp: Let_def printint_def put_digits_eq put_sign_def)

theorem printint_overflow_witness:
  "printint (- 1) 10 False = Inl OutOfBounds \<and> printint 42 10 True = Inr ''42''"
proof -
  have n: "\<not> ndigits 10 18446744073709551615 \<le> 16" using ndigits_gt [of 10 16 18446744073709551615] by simp
  have u: "unat (- 1 :: u64) = 18446744073709551615"
    by (simp add: unsigned_minus_1_eq_mask mask_eq_exp_minus_1)
  have m: "printint (- 1) 10 False = Inl OutOfBounds"
    using printint_overflow [of 10 False "- 1"] n unfolding Let_def simp_thms if_False u by auto
  have "ndigits 10 42 = 2" by (simp add: ndigits.simps)
  moreover have "digit_list 10 42 2 = [2, 4]" by (simp add: numeral_2_eq_2)
  ultimately have "printint 42 10 True = Inr ''42''"
    using printint_overflow [of 10 True 42] by (simp add: digits_def)
  with m show ?thesis by blast
qed

text \<open> The user library's \<^verbatim>\<open>printint\<close> never leaves its buffer, and \<^verbatim>\<open>atoi\<close> reads back the
  number it prints; a negative number is printed as its absolute value behind a minus sign.\<close>

theorem uprintint_atoi:
  "\<exists>s. uprintint xx 10 True = Inr (if sint xx < 0 then CHR ''-'' # s else s) \<and> atoi s = \<bar>sint xx\<bar>"
proof -
  define x where "x = unat (if sint xx < 0 then - xx else xx)"
  have "x < 2 ^ 32" unfolding x_def using unsigned_less [where ?'a = nat, of "if sint xx < 0 then - xx else xx"] by simp
  then have "x < 10 ^ 10" by simp
  then have n: "ndigits 10 x \<le> 10" by (intro ndigits_le) auto
  have v: "int x = \<bar>sint xx\<bar>"
  proof (cases "sint xx < 0")
    case True
    then have "uint xx - 2 ^ 32 = sint xx" "xx \<noteq> 0" using sint_cases [of xx] by auto
    moreover have "uint (- xx) = 2 ^ 32 - uint xx" if "xx \<noteq> 0"
      using that uint_bounded [of xx] unsigned_0 by (simp add: uint_word_ariths zmod_zminus1_eq_if word_uint_eq_iff)
    ultimately show ?thesis using True by (simp add: x_def)
  next
    case False
    then have "sint xx = uint xx" using sint_cases [of xx] by auto
    then show ?thesis using False by (simp add: x_def)
  qed
  have "uprintint xx 10 True =
      Inr ((if sint xx < 0 then ''-'' else []) @ rev (map ((!) udigits) (digit_list 10 x (ndigits 10 x))))"
    using n by (auto simp: uprintint_def Let_def put_digits_eq put_sign_def x_def)
  then show ?thesis using atoi_number [of x] v by (auto intro!: exI)
qed

end
