(* ===== verification/Console.thy ===== *)
theory Console
  imports Pipe Printf
begin

text \<open>
  The serial line and the console, \<^verbatim>\<open>kernel/uart.c\<close> and \<^verbatim>\<open>kernel/console.c\<close>, with the
  output side of \<^verbatim>\<open>kernel/printf.c\<close>.  The device is a parameter of the state: \<open>dev_lsr\<close>
  and \<open>dev_rhr\<close> give the values that the successive reads of its line status and receive
  registers return, and \<open>dev_out\<close> collects the writes to its registers.
\<close>

record ckern = pkern +
  con_buf :: "nat \<Rightarrow> byte"
  con_r :: u32
  con_w :: u32
  con_e :: u32
  tx_buf :: "nat \<Rightarrow> byte"
  tx_w :: u64
  tx_r :: u64
  panicked :: bool
  dev_lsr :: "nat \<Rightarrow> byte"
  dev_rhr :: "nat \<Rightarrow> byte"
  lsr_reads :: nat
  rhr_reads :: nat
  dev_out :: "(nat \<times> byte) list"

section \<open>The serial line\<close>

lemma unat_counter: "w \<noteq> r \<Longrightarrow> unat (w - (r + 1)) < unat (w - r :: 'l :: len word)"
proof -
  assume "w \<noteq> r"
  then have "w - r \<noteq> 0" by simp
  then have "unat (w - r - 1) = unat (w - r) - 1" by (rule unat_minus_one)
  moreover have "0 < unat (w - r)" using \<open>w - r \<noteq> 0\<close> by (simp add: unat_gt_0)
  ultimately show ?thesis by (simp add: algebra_simps)
qed

abbreviation (input) LSR_RX_READY :: byte where "LSR_RX_READY \<equiv> 1"
abbreviation (input) LSR_TX_IDLE :: byte where "LSR_TX_IDLE \<equiv> 0x20"
abbreviation (input) UART_TX_BUF_SIZE :: nat where "UART_TX_BUF_SIZE \<equiv> 32"

definition read_lsr :: "'a ckern_scheme \<Rightarrow> byte \<times> 'a ckern_scheme" where
  "read_lsr s = (dev_lsr s (lsr_reads s), s\<lparr>lsr_reads := Suc (lsr_reads s)\<rparr>)"

definition write_reg :: "nat \<Rightarrow> byte \<Rightarrow> 'a ckern_scheme \<Rightarrow> 'a ckern_scheme" where
  "write_reg r v s = s\<lparr>dev_out := dev_out s @ [(r, v)]\<rparr>"

definition uartinit :: "'a ckern_scheme \<Rightarrow> 'a ckern_scheme" where
  "uartinit s = write_reg 1 3 (write_reg 2 7 (write_reg 3 3 (write_reg 1 0 (write_reg 0 3
     (write_reg 3 0x80 (write_reg 1 0 s))))))"

function uartstart :: "'a ckern_scheme \<Rightarrow> 'a ckern_scheme" where
  "uartstart s =
     (if tx_w s = tx_r s then s
      else let v = fst (read_lsr s); s = snd (read_lsr s)
           in if v AND LSR_TX_IDLE = 0 then s
              else let c = tx_buf s (unat (tx_r s) mod UART_TX_BUF_SIZE);
                       s = s\<lparr>tx_r := tx_r s + 1\<rparr>;
                       s = k_wakeup Ch_uart_tx_r s
                   in uartstart (write_reg 0 c s))"
  by pat_completeness auto
termination
  by (relation "measure (\<lambda>s. unat (tx_w s - tx_r s))")
    (auto simp: read_lsr_def write_reg_def k_wakeup_def unat_counter)

declare uartstart.simps [simp del]

text \<open>The process sleeps while the transmit buffer is full.\<close>

definition uartputc :: "int \<Rightarrow> 'a ckern_scheme \<Rightarrow> (pass \<times> 'a ckern_scheme) res" where
  "uartputc c s =
     (if panicked s then Inl Diverges
      else if tx_w s = tx_r s + of_nat UART_TX_BUF_SIZE
      then bnd (k_sleep Ch_uart_tx_r s) (\<lambda>s. Inr (Slept 0, s))
      else let s = s\<lparr>tx_buf := (tx_buf s)(unat (tx_w s) mod UART_TX_BUF_SIZE := of_int c),
                     tx_w := tx_w s + 1\<rparr>
           in Inr (Ret 0, uartstart s))"

partial_function (option) uart_wait :: "'a ckern_scheme \<Rightarrow> 'a ckern_scheme option" where
  "uart_wait s =
     (let v = fst (read_lsr s); s = snd (read_lsr s)
      in if v AND LSR_TX_IDLE = 0 then uart_wait s else Some s)"

definition uartputc_sync :: "int \<Rightarrow> 'a ckern_scheme \<Rightarrow> 'a ckern_scheme res" where
  "uartputc_sync c s =
     (if panicked s then Inl Diverges
      else case uart_wait s of None \<Rightarrow> Inl Diverges | Some s \<Rightarrow> Inr (write_reg 0 (of_int c) s))"

definition uartgetc :: "'a ckern_scheme \<Rightarrow> int \<times> 'a ckern_scheme" where
  "uartgetc s =
     (let v = fst (read_lsr s); s = snd (read_lsr s)
      in if v AND 1 \<noteq> 0 then (uint (dev_rhr s (rhr_reads s)), s\<lparr>rhr_reads := Suc (rhr_reads s)\<rparr>)
         else (-1, s))"

section \<open>Console output\<close>

abbreviation (input) BACKSPACE :: int where "BACKSPACE \<equiv> 0x100"

definition consputc :: "int \<Rightarrow> 'a ckern_scheme \<Rightarrow> 'a ckern_scheme res" where
  "consputc c s =
     (if c = BACKSPACE
      then bnd (uartputc_sync 8 s) (\<lambda>s. bnd (uartputc_sync 32 s) (uartputc_sync 8))
      else uartputc_sync c s)"

fun consputs :: "string \<Rightarrow> 'a ckern_scheme \<Rightarrow> 'a ckern_scheme res" where
  "consputs [] s = Inr s"
| "consputs (c # cs) s = bnd (consputc (of_char c) s) (consputs cs)"

definition printf :: "string \<Rightarrow> varg list \<Rightarrow> 'a ckern_scheme \<Rightarrow> 'a ckern_scheme res" where
  "printf fmt ap s = bnd (kprintf fmt ap) (\<lambda>out. consputs out s)"

text \<open>\<^verbatim>\<open>panic\<close> prints its message, freezes the line and never returns; other operations of the
  development stop with \<open>Panic\<close> at the call.  Here is what the call prints.\<close>

definition panic_print :: "string \<Rightarrow> 'a ckern_scheme \<Rightarrow> 'a ckern_scheme res" where
  "panic_print msg s =
     bnd (printf ''panic: '' [] s) (\<lambda>s.
     bnd (printf (''%s'' @ [CHR 0x0A]) [AStr (Some msg)] s) (\<lambda>s. Inr (s\<lparr>panicked := True\<rparr>)))"

fun state_name :: "procstate \<Rightarrow> string" where
  "state_name UNUSED = ''unused''"
| "state_name USED = ''used''"
| "state_name SLEEPING = ''sleep ''"
| "state_name RUNNABLE = ''runble''"
| "state_name RUNNING = ''run   ''"
| "state_name ZOMBIE = ''zombie''"

definition of_bytes :: "byte list \<Rightarrow> string" where
  "of_bytes bs = map (\<lambda>b. char_of (unat b)) bs"

fun procdump_loop :: "nat list \<Rightarrow> 'a ckern_scheme \<Rightarrow> 'a ckern_scheme res" where
  "procdump_loop [] s = Inr s"
| "procdump_loop (p # ps) s =
     (let x = procs (k_sched s) p
      in if p_state x = UNUSED then procdump_loop ps s
         else bnd (printf ''%d %s %s'' [AInt (of_int (p_pid x)), AStr (Some (state_name (p_state x))),
                                       AStr (Some (of_bytes (p_name x)))] s) (\<lambda>s.
              bnd (printf [CHR 0x0A] [] s) (procdump_loop ps)))"

definition procdump :: "'a ckern_scheme \<Rightarrow> 'a ckern_scheme res" where
  "procdump s = bnd (printf [CHR 0x0A] [] s) (procdump_loop [0..<NPROC])"

text \<open>Console output changes the device registers only.\<close>

definition printed :: "'a ckern_scheme \<Rightarrow> 'a ckern_scheme \<Rightarrow> bool" where
  "printed s t \<longleftrightarrow> (\<exists>n out. t = s\<lparr>lsr_reads := n, dev_out := out\<rparr>)"

lemma printed_refl: "printed s s"
  unfolding printed_def by (rule exI [of _ "lsr_reads s"], rule exI [of _ "dev_out s"]) simp

lemma printed_trans: "printed s t \<Longrightarrow> printed t u \<Longrightarrow> printed s u"
  unfolding printed_def by clarsimp blast

lemma printed_sel:
  assumes "printed s t"
  shows "con_buf t = con_buf s" "con_r t = con_r s" "con_w t = con_w s" "con_e t = con_e s"
    "k_sched t = k_sched s" "k_phys t = k_phys s" "k_pipes t = k_pipes s" "tx_buf t = tx_buf s"
    "tx_w t = tx_w s" "tx_r t = tx_r s" "panicked t = panicked s"
  using assms by (auto simp: printed_def)

lemma uart_wait_printed:
  assumes "uart_wait s = Some t"
  shows "printed s t"
proof (rule uart_wait.raw_induct [OF _ assms])
  fix f s t
  assume ih: "\<And>s t. f s = Some t \<Longrightarrow> printed s t"
    and e: "(let v = fst (read_lsr s); s = snd (read_lsr s) in if v AND LSR_TX_IDLE = 0 then f s else Some s) = Some t"
  have r: "printed s (snd (read_lsr s))"
    unfolding printed_def read_lsr_def by (rule exI [of _ "Suc (lsr_reads s)"], rule exI [of _ "dev_out s"]) simp
  show "printed s t"
    using e ih [of "snd (read_lsr s)" t] r printed_trans [OF r] by (auto simp: Let_def split: if_splits)
qed

lemma uartputc_sync_printed: "uartputc_sync c s = Inr t \<Longrightarrow> printed s t"
proof -
  assume "uartputc_sync c s = Inr t"
  then obtain u where u: "uart_wait s = Some u" "t = write_reg 0 (of_int c) u"
    by (auto simp: uartputc_sync_def split: if_splits option.splits)
  have "printed u t"
    unfolding printed_def u(2) write_reg_def
    by (rule exI [of _ "lsr_reads u"], rule exI [of _ "dev_out u @ [(0, of_int c)]"]) simp
  then show "printed s t" using uart_wait_printed [OF u(1)] printed_trans by blast
qed

lemma consputc_printed: "consputc c s = Inr t \<Longrightarrow> printed s t"
  by (auto simp: consputc_def res_simps split: if_splits dest!: uartputc_sync_printed intro: printed_trans)

lemma consputs_printed: "consputs cs s = Inr t \<Longrightarrow> printed s t"
  by (induction cs arbitrary: s) (auto simp: res_simps printed_refl dest!: consputc_printed intro: printed_trans)

lemma printf_printed: "printf fmt ap s = Inr t \<Longrightarrow> printed s t"
  by (auto simp: printf_def res_simps intro: consputs_printed)

lemma procdump_printed: "procdump s = Inr t \<Longrightarrow> printed s t"
proof -
  have "procdump_loop ps s = Inr t \<Longrightarrow> printed s t" for ps s
    by (induction ps arbitrary: s)
      (auto simp: res_simps printed_refl Let_def split: if_splits dest!: printf_printed intro: printed_trans)
  then show "procdump s = Inr t \<Longrightarrow> printed s t"
    by (auto simp: procdump_def res_simps dest!: printf_printed intro: printed_trans)
qed

section \<open>The line discipline\<close>

abbreviation (input) INPUT_BUF_SIZE :: nat where "INPUT_BUF_SIZE \<equiv> 128"

definition con_last :: "'a ckern_scheme \<Rightarrow> byte" where
  "con_last s = con_buf s (unat (con_e s - 1) mod INPUT_BUF_SIZE)"

function kill_line :: "'a ckern_scheme \<Rightarrow> 'a ckern_scheme res" where
  "kill_line s =
     (if con_e s \<noteq> con_w s \<and> con_last s \<noteq> 10
      then bnd (consputc BACKSPACE (s\<lparr>con_e := con_e s - 1\<rparr>)) kill_line
      else Inr s)"
  by pat_completeness auto
termination
proof (relation "measure (\<lambda>s. unat (con_e s - con_w s))")
  show "(x, s) \<in> measure (\<lambda>s. unat (con_e s - con_w s))"
    if c: "con_e s \<noteq> con_w s \<and> con_last s \<noteq> 10" and x: "consputc BACKSPACE (s\<lparr>con_e := con_e s - 1\<rparr>) = Inr x"
    for s x :: "'a ckern_scheme"
  proof -
    have "con_e x - con_w x = con_e s - con_w s - 1" using printed_sel [OF consputc_printed [OF x]] by simp
    moreover have "unat (con_e s - con_w s - 1) < unat (con_e s - con_w s)"
      using c unat_counter [of "con_e s" "con_w s"] by (simp add: algebra_simps)
    ultimately show ?thesis by simp
  qed
qed simp

declare kill_line.simps [simp del]

definition con_default :: "int \<Rightarrow> 'a ckern_scheme \<Rightarrow> 'a ckern_scheme res" where
  "con_default c s =
     (if c \<noteq> 0 \<and> con_e s - con_r s < of_nat INPUT_BUF_SIZE
      then let c = (if c = 13 then 10 else c)
           in bnd (consputc c s) (\<lambda>s.
                let s = s\<lparr>con_buf := (con_buf s)(unat (con_e s) mod INPUT_BUF_SIZE := of_int c),
                         con_e := con_e s + 1\<rparr>
                in Inr (if c = 10 \<or> c = 4 \<or> con_e s - con_r s = of_nat INPUT_BUF_SIZE
                        then k_wakeup Ch_cons_r (s\<lparr>con_w := con_e s\<rparr>) else s))
      else Inr s)"

definition consoleintr :: "int \<Rightarrow> 'a ckern_scheme \<Rightarrow> 'a ckern_scheme res" where
  "consoleintr c s =
     (if c = 16 then procdump s
      else if c = 21 then kill_line s
      else if c = 8 \<or> c = 0x7F
      then if con_e s \<noteq> con_w s then consputc BACKSPACE (s\<lparr>con_e := con_e s - 1\<rparr>) else Inr s
      else con_default c s)"

partial_function (option) uartintr_loop :: "'a ckern_scheme \<Rightarrow> 'a ckern_scheme res option" where
  "uartintr_loop s =
     (let c = fst (uartgetc s); s = snd (uartgetc s)
      in if c = -1 then Some (Inr s)
         else case consoleintr c s of Inl e \<Rightarrow> Some (Inl e) | Inr s \<Rightarrow> uartintr_loop s)"

definition uartintr :: "'a ckern_scheme \<Rightarrow> 'a ckern_scheme res" where
  "uartintr s = bnd (of_loop (uartintr_loop s)) (\<lambda>s. Inr (uartstart s))"

section \<open>Reading and writing the console\<close>

text \<open>\<open>CSlept i c\<close>: asleep in \<^verbatim>\<open>uartputc\<close> with byte number \<open>i\<close>, which is \<open>c\<close>; the next pass
  starts with \<open>pend = Some c\<close>.\<close>

datatype cpass = CRet int | CSlept int byte

function consolewrite_loop ::
  "source \<Rightarrow> int \<Rightarrow> int \<Rightarrow> byte option \<Rightarrow> 'a ckern_scheme \<Rightarrow> (cpass \<times> 'a ckern_scheme) res" where
  "consolewrite_loop src n i pend s =
     (if i < n
      then bnd (case pend of Some c \<Rightarrow> Inr (0, [c]) | None \<Rightarrow> either_copyin (source_add src (nat i)) 1 s) (\<lambda>(r, bs).
             if r = -1 then Inr (CRet i, s)
             else bnd (uartputc (uint (bs ! 0)) s) (\<lambda>(w, s).
                    case w of
                      Slept _ \<Rightarrow> Inr (CSlept i (bs ! 0), s)
                    | Ret _ \<Rightarrow> consolewrite_loop src n (i + 1) None s))
      else Inr (CRet i, s))"
  by pat_completeness auto
termination
  by (relation "measure (\<lambda>(src, n, i, pend, s). nat (n - i))") auto

declare consolewrite_loop.simps [simp del]

definition consolewrite :: "source \<Rightarrow> int \<Rightarrow> 'a ckern_scheme \<Rightarrow> (cpass \<times> 'a ckern_scheme) res" where
  "consolewrite src n s = consolewrite_loop src n 0 None s"

text \<open>\<open>n\<close> counts down from \<open>target\<close>; \<open>Slept n\<close> is the number of bytes still wanted.\<close>

function consoleread_loop ::
  "dest \<Rightarrow> int \<Rightarrow> int \<Rightarrow> 'a ckern_scheme \<Rightarrow> (pass \<times> 'a ckern_scheme) res" where
  "consoleread_loop dst target n s =
     (if n > 0
      then if con_r s = con_w s
           then k_proc s (\<lambda>p. if killed p (k_sched s) then Inr (Ret (-1), s)
                             else bnd (k_sleep Ch_cons_r s) (\<lambda>s. Inr (Slept n, s)))
           else let c = con_buf s (unat (con_r s) mod INPUT_BUF_SIZE);
                    s = s\<lparr>con_r := con_r s + 1\<rparr>
                in if c = 4
                   then Inr (Ret (target - n), if n < target then s\<lparr>con_r := con_r s - 1\<rparr> else s)
                   else bnd (either_copyout (dest_add dst (nat (target - n))) [c] s) (\<lambda>(r, s).
                          if r = -1 then Inr (Ret (target - n), s)
                          else if c = 10 then Inr (Ret (target - (n - 1)), s)
                          else consoleread_loop dst target (n - 1) s)
      else Inr (Ret (target - n), s))"
  by pat_completeness auto
termination
  by (relation "measure (\<lambda>(dst, target, n, s). nat n)") auto

declare consoleread_loop.simps [simp del]

definition consoleread :: "dest \<Rightarrow> int \<Rightarrow> 'a ckern_scheme \<Rightarrow> (pass \<times> 'a ckern_scheme) res" where
  "consoleread dst n s = consoleread_loop dst n n s"

section \<open>The transmit queue\<close>

interpretation tring: ring 32 "TYPE(64)"
  by unfold_locales (simp_all add: dvd_def exI [of _ 576460752303423488])

interpretation cring: ring 128 "TYPE(32)"
  by unfold_locales (simp_all add: dvd_def exI [of _ 33554432])

definition sent :: "'a ckern_scheme \<Rightarrow> byte list" where
  "sent s = map snd (filter (\<lambda>x. fst x = 0) (dev_out s))"

definition txq :: "'a ckern_scheme \<Rightarrow> byte list" where
  "txq s = ring_list UART_TX_BUF_SIZE (tx_buf s) (tx_r s) (tx_w s)"

lemma uartstart_stream: "sent (uartstart s) @ txq (uartstart s) = sent s @ txq s \<and> length (txq (uartstart s)) \<le> length (txq s)"
proof (induction s rule: uartstart.induct)
  case (1 s)
  show ?case
  proof (cases "tx_w s = tx_r s \<or> fst (read_lsr s) AND LSR_TX_IDLE = 0")
    case True
    then show ?thesis
      by (subst (1 2 3) uartstart.simps) (auto simp: Let_def read_lsr_def sent_def txq_def)
  next
    case False
    define c where "c = tx_buf s (unat (tx_r s) mod UART_TX_BUF_SIZE)"
    define u where "u = write_reg 0 c (k_wakeup Ch_uart_tx_r (s\<lparr>lsr_reads := Suc (lsr_reads s), tx_r := tx_r s + 1\<rparr>))"
    have step: "uartstart s = uartstart u"
      using False by (subst uartstart.simps) (simp add: Let_def read_lsr_def u_def c_def)
    have ih: "sent (uartstart u) @ txq (uartstart u) = sent u @ txq u \<and> length (txq (uartstart u)) \<le> length (txq u)"
      using 1 [OF _ refl refl _ refl refl refl] False by (simp add: read_lsr_def u_def c_def)
    have "txq s = c # txq u"
      using False tring.pop [of "tx_r s" "tx_w s" "tx_buf s"] by (auto simp: txq_def u_def c_def write_reg_def k_wakeup_def)
    moreover have "sent u = sent s @ [c]" by (simp add: sent_def u_def write_reg_def k_wakeup_def)
    ultimately show ?thesis using ih step by simp
  qed
qed

section \<open>The input buffer as an edited line\<close>

definition con_all :: "'a ckern_scheme \<Rightarrow> byte list" where
  "con_all s = ring_list INPUT_BUF_SIZE (con_buf s) (con_r s) (con_e s)"

text \<open>The bytes that are committed for reading, and the line that is being edited.\<close>

definition con_abs :: "'a ckern_scheme \<Rightarrow> byte list \<times> byte list" where
  "con_abs s = (let k = unat (con_w s - con_r s) in (take k (con_all s), drop k (con_all s)))"

definition con_inv :: "'a ckern_scheme \<Rightarrow> bool" where
  "con_inv s \<longleftrightarrow> unat (con_w s - con_r s) \<le> length (con_all s) \<and> length (con_all s) \<le> INPUT_BUF_SIZE"

fun edit :: "int \<Rightarrow> byte list \<times> byte list \<Rightarrow> byte list \<times> byte list" where
  "edit c (com, ed) =
     (if c = 16 then (com, ed)
      else if c = 21 then (com, rev (dropWhile (\<lambda>b. b \<noteq> 10) (rev ed)))
      else if c = 8 \<or> c = 0x7F then (com, butlast ed)
      else if c \<noteq> 0 \<and> length com + length ed < INPUT_BUF_SIZE
      then let c = (if c = 13 then 10 else c); ed = ed @ [of_int c]
           in if c = 10 \<or> c = 4 \<or> length com + length ed = INPUT_BUF_SIZE then (com @ ed, []) else (com, ed)
      else (com, ed))"

lemma con_editing:
  assumes "con_inv s" "con_e s \<noteq> con_w s"
  shows "con_r s \<noteq> con_e s" "unat (con_w s - con_r s) < length (con_all s)"
proof -
  have "unat (con_w s - con_r s) \<noteq> unat (con_e s - con_r s)"
    using assms(2) by (simp add: word_unat_eq_iff [symmetric])
  then show l: "unat (con_w s - con_r s) < length (con_all s)" using assms(1) by (simp add: con_inv_def con_all_def)
  then show "con_r s \<noteq> con_e s" by (auto simp: con_all_def)
qed

lemma con_last_all:
  assumes "con_r s \<noteq> con_e s"
  shows "con_all s \<noteq> []" "con_last s = last (con_all s)"
proof -
  show ne: "con_all s \<noteq> []" using assms by (simp add: con_all_def ring_list_Nil_iff)
  let ?k = "unat (con_e s - con_r s)"
  obtain k where k: "?k = Suc k" using assms by (metis not0_implies_Suc right_minus_eq unat_eq_0)
  have "last (con_all s) = con_buf s (unat (con_r s + of_nat k) mod INPUT_BUF_SIZE)"
    using ne by (simp add: con_all_def ring_list_def k)
  moreover have "con_r s + of_nat k = con_e s - 1"
  proof -
    have "of_nat (Suc k) = con_e s - con_r s" unfolding k [symmetric] by simp
    then show ?thesis by (simp add: algebra_simps)
  qed
  ultimately show "con_last s = last (con_all s)" by (simp add: con_last_def)
qed

lemma con_backspace:
  assumes "con_inv s" "con_e s \<noteq> con_w s" "printed (s\<lparr>con_e := con_e s - 1\<rparr>) t"
  shows "con_inv t" "con_abs t = (fst (con_abs s), butlast (snd (con_abs s)))"
proof -
  have all: "con_all t = butlast (con_all s)"
    using cring.unpush [OF con_editing(1) [OF assms(1,2)], of "con_buf s"]
    by (simp add: con_all_def printed_sel [OF assms(3)])
  have k: "unat (con_w t - con_r t) = unat (con_w s - con_r s)" by (simp add: printed_sel [OF assms(3)])
  have l: "unat (con_w s - con_r s) < length (con_all s)" by (rule con_editing(2) [OF assms(1,2)])
  show "con_inv t" using l assms(1) by (simp add: con_inv_def all k) linarith
  show "con_abs t = (fst (con_abs s), butlast (snd (con_abs s)))"
    using l by (simp add: con_abs_def all k Let_def take_butlast drop_butlast)
qed

lemma rev_last: "xs \<noteq> [] \<Longrightarrow> rev xs = last xs # rev (butlast xs)"
  by (cases xs rule: rev_cases) auto

lemma kill_line_edit:
  "kill_line s = Inr t \<Longrightarrow> con_inv s \<Longrightarrow>
   con_inv t \<and> con_abs t = (fst (con_abs s), rev (dropWhile (\<lambda>b. b \<noteq> 10) (rev (snd (con_abs s)))))"
proof (induction s arbitrary: t rule: kill_line.induct)
  case (1 s)
  let ?k = "unat (con_w s - con_r s)"
  show ?case
  proof (cases "con_e s \<noteq> con_w s")
    case False
    then have "drop ?k (con_all s) = []" by (simp add: con_all_def)
    moreover have "t = s" using "1.prems"(1) False by (subst (asm) kill_line.simps) simp
    ultimately show ?thesis using "1.prems"(2) by (simp add: con_abs_def Let_def)
  next
    case True
    have e: "con_all s \<noteq> []" "con_last s = last (con_all s)" "?k < length (con_all s)"
      using con_last_all [OF con_editing(1) [OF "1.prems"(2) True]] con_editing(2) [OF "1.prems"(2) True] by auto
    have ed: "snd (con_abs s) \<noteq> []" "last (snd (con_abs s)) = con_last s"
      using e by (simp_all add: con_abs_def Let_def)
    have r: "rev (snd (con_abs s)) = con_last s # rev (butlast (snd (con_abs s)))"
      using rev_last [OF ed(1)] ed(2) by simp
    show ?thesis
    proof (cases "con_last s = 10")
      case ten: True
      then have "t = s" using "1.prems"(1) by (subst (asm) kill_line.simps) simp
      moreover have "dropWhile (\<lambda>b. b \<noteq> 10) (rev (snd (con_abs s))) = rev (snd (con_abs s))"
        unfolding r using ten by simp
      ultimately show ?thesis using "1.prems"(2) by simp
    next
      case nine: False
      then obtain u where u: "consputc BACKSPACE (s\<lparr>con_e := con_e s - 1\<rparr>) = Inr u" "kill_line u = Inr t"
        using "1.prems"(1) True by (subst (asm) kill_line.simps) (auto simp: res_simps)
      note b = con_backspace [OF "1.prems"(2) True consputc_printed [OF u(1)]]
      have "con_inv t \<and> con_abs t = (fst (con_abs u), rev (dropWhile (\<lambda>b. b \<noteq> 10) (rev (snd (con_abs u)))))"
        using "1.IH" [of u t] True nine u b(1) by simp
      then show ?thesis unfolding b(2) r using nine by simp
    qed
  qed
qed

lemma con_default_edit:
  assumes "con_default c s = Inr t" "con_inv s" "c \<noteq> 16" "c \<noteq> 21" "c \<noteq> 8" "c \<noteq> 0x7F"
  shows "con_inv t \<and> con_abs t = edit c (con_abs s)"
proof -
  let ?k = "unat (con_w s - con_r s)"
  have len: "length (fst (con_abs s)) + length (snd (con_abs s)) = length (con_all s)"
    and abs: "con_abs s = (take ?k (con_all s), drop ?k (con_all s))" and kl: "?k \<le> length (con_all s)"
    using assms(2) by (auto simp: con_abs_def con_inv_def Let_def)
  have room: "(con_e s - con_r s < of_nat INPUT_BUF_SIZE) = (length (con_all s) < INPUT_BUF_SIZE)"
    by (simp add: con_all_def word_less_nat_alt)
  show ?thesis
  proof (cases "c \<noteq> 0 \<and> length (con_all s) < INPUT_BUF_SIZE")
    case False
    then have "t = s" using assms(1) room by (auto simp: con_default_def)
    then show ?thesis using assms(2-) False len by (auto simp: abs)
  next
    case True
    define d where "d = (if c = 13 then 10 else c)"
    obtain u where u: "consputc d s = Inr u" and t: "t =
        (let v = u\<lparr>con_buf := (con_buf u)(unat (con_e u) mod INPUT_BUF_SIZE := of_int d), con_e := con_e u + 1\<rparr>
         in if d = 10 \<or> d = 4 \<or> con_e v - con_r v = of_nat INPUT_BUF_SIZE
            then k_wakeup Ch_cons_r (v\<lparr>con_w := con_e v\<rparr>) else v)"
      using assms(1) True room by (auto simp: con_default_def Let_def res_simps d_def)
    define v where "v = u\<lparr>con_buf := (con_buf u)(unat (con_e u) mod INPUT_BUF_SIZE := of_int d), con_e := con_e u + 1\<rparr>"
    note p = printed_sel [OF consputc_printed [OF u]]
    have all: "con_all v = con_all s @ [of_int d]"
      using cring.push [of "con_e s" "con_r s" "con_buf s" "of_int d"] True
      by (simp add: con_all_def v_def p)
    have kv: "unat (con_w v - con_r v) = ?k" by (simp add: v_def p)
    have full: "(con_e v - con_r v = of_nat INPUT_BUF_SIZE) = (length (con_all v) = INPUT_BUF_SIZE)"
      unfolding con_all_def ring_list_length by (auto simp: word_unat_eq_iff)
    show ?thesis
    proof (cases "d = 10 \<or> d = 4 \<or> length (con_all v) = INPUT_BUF_SIZE")
      case com: True
      then have "t = k_wakeup Ch_cons_r (v\<lparr>con_w := con_e v\<rparr>)" using t full unfolding v_def [symmetric] by auto
      then have tv: "con_all t = con_all v" "con_w t = con_e v" "con_r t = con_r v"
        by (simp_all add: con_all_def k_wakeup_def)
      have lv: "unat (con_e v - con_r v) = length (con_all v)" by (simp add: con_all_def)
      have "con_abs t = (con_all v, [])" "con_inv t"
        using True all by (simp_all add: con_abs_def con_inv_def Let_def tv lv)
      moreover have "edit c (con_abs s) = (con_all v, [])"
        using True com assms(3-) all kl by (auto simp: abs d_def Let_def)
      ultimately show ?thesis by simp
    next
      case ncom: False
      then have "t = v" using t full unfolding v_def [symmetric] by auto
      then show ?thesis
        using True ncom assms(3-) all kl kv by (auto simp: abs d_def Let_def con_abs_def con_inv_def)
    qed
  qed
qed

section \<open>An example\<close>

text \<open>An idle device, an empty input buffer whose counters are about to wrap, and an empty
  transmit buffer.\<close>

definition con_ex :: ckern where
  "con_ex = \<lparr>k_sched = sched_ex, k_phys = ex_space, k_ticks = 0, k_pipes = k_pipes (pipe_ex 0),
     con_buf = (\<lambda>_. 0), con_r = 0xFFFFFFFF, con_w = 0xFFFFFFFF, con_e = 0xFFFFFFFF,
     tx_buf = (\<lambda>_. 0), tx_w = 0, tx_r = 0, panicked = False, dev_lsr = (\<lambda>_. 0x20), dev_rhr = (\<lambda>_. 0),
     lsr_reads = 0, rhr_reads = 0, dev_out = []\<rparr>"

lemma con_ex_wait: "uart_wait con_ex = Some (con_ex\<lparr>lsr_reads := 1\<rparr>)"
  by (subst uart_wait.simps) (simp add: con_ex_def read_lsr_def)

section \<open>Properties\<close>

text \<open>C31.  The console interrupt handler is a line editor: on the pair of the committed bytes
  and the line being edited, every character acts as \<open>edit\<close> says (append, erase one
  character, erase the line, commit at newline, end-of-file or a full buffer), and the
  buffer never holds more than \<^verbatim>\<open>INPUT_BUF_SIZE\<close> bytes.\<close>

theorem console_edits:
  assumes "consoleintr c s = Inr t" "con_inv s"
  shows "con_inv t \<and> con_abs t = edit c (con_abs s)"
proof -
  have pr: "con_inv u = con_inv s \<and> con_abs u = con_abs s" if "printed s u" for u
    by (simp add: con_inv_def con_abs_def con_all_def printed_sel [OF that])
  consider "c = 16" | "c = 21" | "c = 8 \<or> c = 0x7F" | "c \<noteq> 16" "c \<noteq> 21" "c \<noteq> 8" "c \<noteq> 0x7F" by blast
  then show ?thesis
  proof cases
    case 1
    then show ?thesis using assms pr [OF procdump_printed] by (cases "con_abs s") (auto simp: consoleintr_def)
  next
    case 2
    then show ?thesis using assms kill_line_edit [of s t] by (cases "con_abs s") (auto simp: consoleintr_def)
  next
    case 3
    show ?thesis
    proof (cases "con_e s = con_w s")
      case True
      then have "snd (con_abs s) = []" by (simp add: con_abs_def con_all_def Let_def)
      then show ?thesis using True assms 3 by (cases "con_abs s") (auto simp: consoleintr_def)
    next
      case False
      then have "printed (s\<lparr>con_e := con_e s - 1\<rparr>) t"
        using assms(1) 3 consputc_printed by (auto simp: consoleintr_def)
      then show ?thesis using con_backspace [OF assms(2) False] 3 by (cases "con_abs s") auto
    qed
  next
    case 4
    then show ?thesis using assms con_default_edit by (simp add: consoleintr_def)
  qed
qed

theorem console_edits_witness:
  "\<exists>t. consoleintr 97 con_ex = Inr t \<and> con_abs t = ([], [97])"
proof -
  have i: "con_inv con_ex" "con_abs con_ex = ([], [])"
    by (simp_all add: con_inv_def con_all_def con_abs_def con_ex_def)
  obtain t where t: "consoleintr 97 con_ex = Inr t"
  proof -
    have "\<exists>t. consputc 97 con_ex = Inr t" using con_ex_wait by (simp add: consputc_def uartputc_sync_def con_ex_def)
    moreover have "con_e con_ex - con_r con_ex = 0" by (simp add: con_ex_def)
    ultimately show ?thesis using that by (auto simp: consoleintr_def con_default_def Let_def res_simps)
  qed
  show ?thesis using console_edits [OF t i(1)] t i(2) by simp
qed

text \<open>C32.  The serial line sends the bytes given to \<^verbatim>\<open>uartputc\<close> in order and loses none: what
  has been sent, followed by what is queued, grows at its end by the new byte; the queue
  never exceeds its buffer.\<close>

theorem uart_in_order:
  assumes "uartputc c s = Inr (Ret r, t)" "length (txq s) \<le> UART_TX_BUF_SIZE"
  shows "sent t @ txq t = sent s @ txq s @ [of_int c] \<and> length (txq t) \<le> UART_TX_BUF_SIZE"
proof -
  define u where "u = s\<lparr>tx_buf := (tx_buf s)(unat (tx_w s) mod UART_TX_BUF_SIZE := of_int c), tx_w := tx_w s + 1\<rparr>"
  have nf: "tx_w s \<noteq> tx_r s + 32" and t: "t = uartstart u"
    using assms(1) by (auto simp: uartputc_def u_def res_simps split: if_splits)
  have "unat (tx_w s - tx_r s) \<noteq> 32" using nf tring.full_iff [of "tx_w s" "tx_r s"] by simp
  then have lt: "unat (tx_w s - tx_r s) < 32" using assms(2) by (simp add: txq_def)
  have "txq u = txq s @ [of_int c]" using tring.push [OF lt, of "tx_buf s"] by (simp add: txq_def u_def)
  moreover have "sent u = sent s" by (simp add: sent_def u_def)
  ultimately show ?thesis using uartstart_stream [of u] lt unfolding t by (auto simp: txq_def)
qed

theorem uart_in_order_witness:
  "\<exists>t. uartputc 65 con_ex = Inr (Ret 0, t) \<and> sent t @ txq t = [65]"
proof -
  have e: "txq con_ex = []" "sent con_ex = []" by (simp_all add: txq_def sent_def con_ex_def)
  obtain t where t: "uartputc 65 con_ex = Inr (Ret 0, t)" by (simp add: uartputc_def con_ex_def Let_def)
  show ?thesis using uart_in_order [OF t] t e by simp
qed

end
