(* ===== verification/Virtio.thy ===== *)
theory Virtio
  imports Console
begin

text \<open>
  The disk driver, \<^verbatim>\<open>kernel/virtio_disk.c\<close>, and the buffers it works on.  The descriptor
  table and the two rings are fields of the driver's state; an address in a descriptor names
  the object it points to.  The device is a parameter: it reads the avail ring and writes the
  used ring and the status bytes, and \<open>rd\<close> gives what a read of a control register returns
  after a sequence of writes.  \<open>disk\<close> is the contents of the disk, and \<open>dwrites\<close> the sequence
  of blocks written to it so far.
\<close>

record buf =
  b_valid :: bool
  b_disk :: bool
  b_dev :: u32
  b_blockno :: u32
  b_lock :: sleeplock
  b_refcnt :: u32
  b_prev :: nat
  b_next :: nat
  b_data :: "byte list"

datatype daddr = DNull | DOp nat | DData nat | DStatus nat

record virtq_desc =
  vd_addr :: daddr
  vd_len :: u32
  vd_flags :: u16
  vd_next :: u16

record virtio_blk_req =
  vr_type :: u32
  vr_reserved :: u32
  vr_sector :: u64

record vdisk =
  v_desc :: "nat \<Rightarrow> virtq_desc"
  v_avail_idx :: u16
  v_avail_ring :: "nat \<Rightarrow> u16"
  v_dev_idx :: u16
  v_used_ring :: "nat \<Rightarrow> u32"
  v_free :: "nat \<Rightarrow> bool"
  v_used_idx :: u16
  v_info_b :: "nat \<Rightarrow> nat option"
  v_info_status :: "nat \<Rightarrow> byte"
  v_ops :: "nat \<Rightarrow> virtio_blk_req"
  v_regs :: "(nat \<times> u32) list"

record bkern = ckern +
  bufs :: "nat \<Rightarrow> buf"
  disk :: "u32 \<Rightarrow> byte list"
  dwrites :: "(u32 \<times> byte list) list"
  vdisk :: vdisk

abbreviation (input) BSIZE :: nat where "BSIZE \<equiv> 1024"
abbreviation (input) NUM :: nat where "NUM \<equiv> 8"
abbreviation (input) VRING_DESC_F_NEXT :: u16 where "VRING_DESC_F_NEXT \<equiv> 1"
abbreviation (input) VRING_DESC_F_WRITE :: u16 where "VRING_DESC_F_WRITE \<equiv> 2"
abbreviation (input) VIRTIO_BLK_T_IN :: u32 where "VIRTIO_BLK_T_IN \<equiv> 0"
abbreviation (input) VIRTIO_BLK_T_OUT :: u32 where "VIRTIO_BLK_T_OUT \<equiv> 1"

definition upd_buf :: "nat \<Rightarrow> (buf \<Rightarrow> buf) \<Rightarrow> 'a bkern_scheme \<Rightarrow> 'a bkern_scheme" where
  "upd_buf b f s = s\<lparr>bufs := (bufs s)(b := f (bufs s b))\<rparr>"

definition upd_vd :: "(vdisk \<Rightarrow> vdisk) \<Rightarrow> 'a bkern_scheme \<Rightarrow> 'a bkern_scheme" where
  "upd_vd f s = s\<lparr>vdisk := f (vdisk s)\<rparr>"

section \<open>Descriptors\<close>

definition alloc_desc :: "'a bkern_scheme \<Rightarrow> nat option \<times> 'a bkern_scheme" where
  "alloc_desc s =
     (case find (v_free (vdisk s)) [0..<NUM] of
        None \<Rightarrow> (None, s)
      | Some i \<Rightarrow> (Some i, upd_vd (\<lambda>v. v\<lparr>v_free := (v_free v)(i := False)\<rparr>) s))"

definition no_desc :: virtq_desc where
  "no_desc = \<lparr>vd_addr = DNull, vd_len = 0, vd_flags = 0, vd_next = 0\<rparr>"

definition free_desc :: "nat \<Rightarrow> 'a bkern_scheme \<Rightarrow> 'a bkern_scheme res" where
  "free_desc i s =
     (if i \<ge> NUM then Inl (Panic ''free_desc 1'')
      else if v_free (vdisk s) i then Inl (Panic ''free_desc 2'')
      else Inr (k_wakeup Ch_disk_free (upd_vd (\<lambda>v. v\<lparr>v_desc := (v_desc v)(i := no_desc),
                                                    v_free := (v_free v)(i := True)\<rparr>) s)))"

definition busy_descs :: "vdisk \<Rightarrow> nat set" where
  "busy_descs v = {i. i < NUM \<and> \<not> v_free v i}"

lemma free_desc_busy:
  assumes "free_desc i s = Inr t"
  shows "busy_descs (vdisk t) = busy_descs (vdisk s) - {i} \<and> i \<in> busy_descs (vdisk s)"
  using assms by (auto simp: free_desc_def busy_descs_def upd_vd_def k_wakeup_def split: if_splits)

lemma finite_busy [simp]: "finite (busy_descs v)"
  by (simp add: busy_descs_def)

text \<open>A chain that came back to a freed descriptor would panic, so the loop ends.\<close>

function free_chain :: "nat \<Rightarrow> 'a bkern_scheme \<Rightarrow> 'a bkern_scheme res" where
  "free_chain i s =
     (let d = v_desc (vdisk s) i
      in case free_desc i s of
           Inl e \<Rightarrow> Inl e
         | Inr s \<Rightarrow> if vd_flags d AND VRING_DESC_F_NEXT \<noteq> 0 then free_chain (unat (vd_next d)) s else Inr s)"
  by pat_completeness auto
termination
proof (relation "measure (\<lambda>(i, s). card (busy_descs (vdisk s)))")
  fix i s d t
  assume "free_desc i s = Inr t"
  then have "busy_descs (vdisk t) = busy_descs (vdisk s) - {i}" "i \<in> busy_descs (vdisk s)"
    using free_desc_busy by blast+
  then have "card (busy_descs (vdisk t)) < card (busy_descs (vdisk s))"
    by (metis card_Diff1_less finite_busy)
  then show "((unat (vd_next d), t), i, s) \<in> measure (\<lambda>(i, s). card (busy_descs (vdisk s)))"
    by simp
qed simp

declare free_chain.simps [simp del]

fun free_descs :: "nat list \<Rightarrow> 'a bkern_scheme \<Rightarrow> 'a bkern_scheme res" where
  "free_descs [] s = Inr s"
| "free_descs (i # is) s = bnd (free_desc i s) (free_descs is)"

fun alloc3_loop :: "nat \<Rightarrow> nat list \<Rightarrow> 'a bkern_scheme \<Rightarrow> (nat list option \<times> 'a bkern_scheme) res" where
  "alloc3_loop 0 idx s = Inr (Some idx, s)"
| "alloc3_loop (Suc n) idx s =
     (case alloc_desc s of
        (Some i, s) \<Rightarrow> alloc3_loop n (idx @ [i]) s
      | (None, s) \<Rightarrow> bnd (free_descs idx s) (\<lambda>s. Inr (None, s)))"

definition alloc3_desc :: "'a bkern_scheme \<Rightarrow> (nat list option \<times> 'a bkern_scheme) res" where
  "alloc3_desc s = alloc3_loop 3 [] s"

section \<open>Requests\<close>

text \<open>The descriptors of a request.\<close>

definition fill_descs :: "nat \<Rightarrow> bool \<Rightarrow> u64 \<Rightarrow> nat \<Rightarrow> nat \<Rightarrow> nat \<Rightarrow> vdisk \<Rightarrow> vdisk" where
  "fill_descs b write sector i0 i1 i2 v =
     v\<lparr>v_ops := (v_ops v)(i0 := \<lparr>vr_type = if write then VIRTIO_BLK_T_OUT else VIRTIO_BLK_T_IN,
                               vr_reserved = 0, vr_sector = sector\<rparr>),
       v_desc := (v_desc v)
         (i0 := \<lparr>vd_addr = DOp i0, vd_len = 16, vd_flags = VRING_DESC_F_NEXT, vd_next = of_nat i1\<rparr>,
          i1 := \<lparr>vd_addr = DData b, vd_len = 1024,
                vd_flags = (if write then 0 else VRING_DESC_F_WRITE) OR VRING_DESC_F_NEXT, vd_next = of_nat i2\<rparr>,
          i2 := \<lparr>vd_addr = DStatus i0, vd_len = 1, vd_flags = VRING_DESC_F_WRITE, vd_next = 0\<rparr>),
       v_info_status := (v_info_status v)(i0 := 0xff),
       v_info_b := (v_info_b v)(i0 := Some b),
       v_avail_ring := (v_avail_ring v)(unat (v_avail_idx v) mod NUM := of_nat i0),
       v_avail_idx := v_avail_idx v + 1,
       v_regs := v_regs v @ [(0x050, 0)]\<rparr>"

text \<open>The first part of \<^verbatim>\<open>virtio_disk_rw\<close> posts a request, or leaves the caller asleep for want of
  descriptors; the caller then sleeps until the buffer is done, and the last part frees the
  chain.\<close>

definition virtio_submit :: "nat \<Rightarrow> bool \<Rightarrow> 'a bkern_scheme \<Rightarrow> (nat option \<times> 'a bkern_scheme) res" where
  "virtio_submit b write s =
     (let sector = ucast (b_blockno (bufs s b) * 2)
      in bnd (alloc3_desc s) (\<lambda>(idx, s).
           case idx of
             Some [i0, i1, i2] \<Rightarrow>
               Inr (Some i0, upd_vd (fill_descs b write sector i0 i1 i2) (upd_buf b (\<lambda>x. x\<lparr>b_disk := True\<rparr>) s))
           | _ \<Rightarrow> bnd (k_sleep Ch_disk_free s) (\<lambda>s. Inr (None, s))))"

definition virtio_wait :: "nat \<Rightarrow> 'a bkern_scheme \<Rightarrow> (bool \<times> 'a bkern_scheme) res" where
  "virtio_wait b s =
     (if b_disk (bufs s b) then bnd (k_sleep (Ch_disk_buf b) s) (\<lambda>s. Inr (False, s)) else Inr (True, s))"

definition virtio_finish :: "nat \<Rightarrow> 'a bkern_scheme \<Rightarrow> 'a bkern_scheme res" where
  "virtio_finish i0 s = free_chain i0 (upd_vd (\<lambda>v. v\<lparr>v_info_b := (v_info_b v)(i0 := None)\<rparr>) s)"

function virtio_disk_intr_loop :: "'a bkern_scheme \<Rightarrow> 'a bkern_scheme res" where
  "virtio_disk_intr_loop s =
     (let v = vdisk s
      in if v_used_idx v = v_dev_idx v then Inr s
         else let i = unat (v_used_ring v (unat (v_used_idx v) mod NUM))
              in if i \<ge> NUM then Inl OutOfBounds
                 else if v_info_status v i \<noteq> 0 then Inl (Panic ''virtio_disk_intr status'')
                 else case v_info_b v i of
                        None \<Rightarrow> Inl OutOfBounds
                      | Some b \<Rightarrow>
                          virtio_disk_intr_loop
                            (upd_vd (\<lambda>v. v\<lparr>v_used_idx := v_used_idx v + 1\<rparr>)
                              (k_wakeup (Ch_disk_buf b) (upd_buf b (\<lambda>x. x\<lparr>b_disk := False\<rparr>) s))))"
  by pat_completeness auto
termination
  by (relation "measure (\<lambda>s. unat (v_dev_idx (vdisk s) - v_used_idx (vdisk s)))")
    (simp_all add: upd_vd_def k_wakeup_def upd_buf_def unat_counter)

declare virtio_disk_intr_loop.simps [simp del]

definition write_vreg :: "nat \<Rightarrow> u32 \<Rightarrow> 'a bkern_scheme \<Rightarrow> 'a bkern_scheme" where
  "write_vreg r v s = upd_vd (\<lambda>d. d\<lparr>v_regs := v_regs d @ [(r, v)]\<rparr>) s"

definition virtio_disk_intr :: "((nat \<times> u32) list \<Rightarrow> nat \<Rightarrow> u32) \<Rightarrow> 'a bkern_scheme \<Rightarrow> 'a bkern_scheme res" where
  "virtio_disk_intr rd s = virtio_disk_intr_loop (write_vreg 0x064 (rd (v_regs (vdisk s)) 0x060 AND 3) s)"

section \<open>Initialisation\<close>

definition virtio_features :: "u32 \<Rightarrow> u32" where
  "virtio_features f =
     f AND NOT (push_bit 5 1) AND NOT (push_bit 7 1) AND NOT (push_bit 11 1) AND NOT (push_bit 12 1)
       AND NOT (push_bit 27 1) AND NOT (push_bit 29 1) AND NOT (push_bit 28 1)"

definition write_qaddr :: "nat \<Rightarrow> nat \<Rightarrow> u64 \<Rightarrow> 'a bkern_scheme \<Rightarrow> 'a bkern_scheme" where
  "write_qaddr lo hi a s = write_vreg hi (ucast (drop_bit 32 a)) (write_vreg lo (ucast a) s)"

definition virtio_queue_init :: "u64 \<Rightarrow> u64 \<Rightarrow> u64 \<Rightarrow> u32 \<Rightarrow> 'a bkern_scheme \<Rightarrow> 'a bkern_scheme" where
  "virtio_queue_init d a u status s =
     (let s = upd_vd (\<lambda>v. v\<lparr>v_desc := (\<lambda>_. no_desc), v_avail_idx := 0, v_avail_ring := (\<lambda>_. 0),
                            v_dev_idx := 0, v_used_ring := (\<lambda>_. 0)\<rparr>) s;
          s = write_vreg 0x038 8 s;
          s = write_qaddr 0x080 0x084 d s;
          s = write_qaddr 0x090 0x094 a s;
          s = write_qaddr 0x0a0 0x0a4 u s;
          s = write_vreg 0x044 1 s;
          s = upd_vd (\<lambda>v. v\<lparr>v_free := (\<lambda>i. i < NUM \<or> v_free v i)\<rparr>) s
      in write_vreg 0x070 (status OR 4) s)"

definition virtio_disk_init :: "((nat \<times> u32) list \<Rightarrow> nat \<Rightarrow> u32) \<Rightarrow> 'a bkern_scheme \<Rightarrow> 'a bkern_scheme res" where
  "virtio_disk_init rd s =
     (let R = (\<lambda>r s. rd (v_regs (vdisk s)) r)
      in if R 0x000 s \<noteq> 0x74726976 \<or> R 0x004 s \<noteq> 2 \<or> R 0x008 s \<noteq> 2 \<or> R 0x00c s \<noteq> 0x554d4551
         then Inl (Panic ''could not find virtio disk'')
         else let s = write_vreg 0x070 0 s;
                  s = write_vreg 0x070 1 s;
                  s = write_vreg 0x070 3 s;
                  s = write_vreg 0x020 (virtio_features (R 0x010 s)) s;
                  s = write_vreg 0x070 11 s;
                  status = R 0x070 s
              in if status AND 8 = 0 then Inl (Panic ''virtio disk FEATURES_OK unset'')
                 else let s = write_vreg 0x030 0 s
                      in if R 0x044 s \<noteq> 0 then Inl (Panic ''virtio disk should not be ready'')
                         else if R 0x034 s = 0 then Inl (Panic ''virtio disk has no queue 0'')
                         else if R 0x034 s < 8 then Inl (Panic ''virtio disk max queue too short'')
                         else let (d, m) = kalloc (k_phys s); (a, m) = kalloc m; (u, m) = kalloc m
                              in if d = 0 \<or> a = 0 \<or> u = 0 then Inl (Panic ''virtio disk kalloc'')
                                 else let m = m\<lparr>pmem := memset u 0 4096 (memset a 0 4096 (memset d 0 4096 (pmem m)))\<rparr>
                                      in Inr (virtio_queue_init d a u status (s\<lparr>k_phys := m\<rparr>)))"

end
