(* ===== verification/Bio.thy ===== *)
theory Bio
  imports Virtio
begin

text \<open>
  The buffer cache, \<^verbatim>\<open>kernel/bio.c\<close>.  The buffers are numbered; number \<^verbatim>\<open>NBUF\<close> is the head
  of the circular list that threads them, most recently used first.  The disk maps block
  numbers to their contents; \<open>disk_rw\<close> is a completed request of the driver.  A call that has
  to wait for the lock of a buffer stops with \<open>Sleeping\<close>.
\<close>

abbreviation (input) HEAD :: nat where "HEAD \<equiv> NBUF"

definition disk_rw :: "nat \<Rightarrow> bool \<Rightarrow> 'a bkern_scheme \<Rightarrow> 'a bkern_scheme" where
  "disk_rw b write s =
     (if write then s\<lparr>disk := (disk s)(b_blockno (bufs s b) := b_data (bufs s b)),
                     dwrites := dwrites s @ [(b_blockno (bufs s b), b_data (bufs s b))]\<rparr>
      else upd_buf b (\<lambda>x. x\<lparr>b_data := disk s (b_blockno x)\<rparr>) s)"

section \<open>The list of buffers\<close>

definition buf_push :: "nat \<Rightarrow> 'a bkern_scheme \<Rightarrow> 'a bkern_scheme" where
  "buf_push b s =
     (let s = upd_buf b (\<lambda>x. x\<lparr>b_next := b_next (bufs s HEAD)\<rparr>) s;
          s = upd_buf b (\<lambda>x. x\<lparr>b_prev := HEAD\<rparr>) s;
          s = upd_buf (b_next (bufs s HEAD)) (\<lambda>x. x\<lparr>b_prev := b\<rparr>) s
      in upd_buf HEAD (\<lambda>x. x\<lparr>b_next := b\<rparr>) s)"

definition buf_unlink :: "nat \<Rightarrow> 'a bkern_scheme \<Rightarrow> 'a bkern_scheme" where
  "buf_unlink b s =
     (let s = upd_buf (b_next (bufs s b)) (\<lambda>x. x\<lparr>b_prev := b_prev (bufs s b)\<rparr>) s
      in upd_buf (b_prev (bufs s b)) (\<lambda>x. x\<lparr>b_next := b_next (bufs s b)\<rparr>) s)"

definition binit :: "'a bkern_scheme \<Rightarrow> 'a bkern_scheme" where
  "binit s =
     (let s = upd_buf HEAD (\<lambda>x. x\<lparr>b_prev := HEAD, b_next := HEAD\<rparr>) s
      in fold (\<lambda>b s. buf_push b (upd_buf b (\<lambda>x. x\<lparr>b_lock := initsleeplock\<rparr>) s)) [0..<NBUF] s)"

section \<open>Getting and releasing buffers\<close>

definition lock_buf :: "nat \<Rightarrow> 'a bkern_scheme \<Rightarrow> 'a bkern_scheme res" where
  "lock_buf b s =
     bnd (acquiresleep (Ch_buf b) (b_lock (bufs s b)) (k_sched s)) (\<lambda>(got, lk, d).
       if got then Inr (upd_buf b (\<lambda>x. x\<lparr>b_lock := lk\<rparr>) (s\<lparr>k_sched := d\<rparr>))
       else Inl (Sleeping (Ch_buf b)))"

partial_function (option) bget_find :: "(nat \<Rightarrow> buf) \<Rightarrow> u32 \<Rightarrow> u32 \<Rightarrow> nat \<Rightarrow> nat option option" where
  "bget_find f dev blockno b =
     (if b = HEAD then Some None
      else if b_dev (f b) = dev \<and> b_blockno (f b) = blockno then Some (Some b)
      else bget_find f dev blockno (b_next (f b)))"

partial_function (option) bget_lru :: "(nat \<Rightarrow> buf) \<Rightarrow> nat \<Rightarrow> nat option option" where
  "bget_lru f b =
     (if b = HEAD then Some None
      else if b_refcnt (f b) = 0 then Some (Some b)
      else bget_lru f (b_prev (f b)))"

definition bget :: "u32 \<Rightarrow> u32 \<Rightarrow> 'a bkern_scheme \<Rightarrow> (nat \<times> 'a bkern_scheme) res" where
  "bget dev blockno s =
     (case bget_find (bufs s) dev blockno (b_next (bufs s HEAD)) of
        None \<Rightarrow> Inl Diverges
      | Some (Some b) \<Rightarrow>
          bnd (lock_buf b (upd_buf b (\<lambda>x. x\<lparr>b_refcnt := b_refcnt x + 1\<rparr>) s)) (\<lambda>s. Inr (b, s))
      | Some None \<Rightarrow>
          (case bget_lru (bufs s) (b_prev (bufs s HEAD)) of
             None \<Rightarrow> Inl Diverges
           | Some None \<Rightarrow> Inl (Panic ''bget: no buffers'')
           | Some (Some b) \<Rightarrow>
               bnd (lock_buf b (upd_buf b (\<lambda>x. x\<lparr>b_dev := dev, b_blockno := blockno, b_valid := False,
                                                b_refcnt := 1\<rparr>) s)) (\<lambda>s. Inr (b, s))))"

definition bread :: "u32 \<Rightarrow> u32 \<Rightarrow> 'a bkern_scheme \<Rightarrow> (nat \<times> 'a bkern_scheme) res" where
  "bread dev blockno s =
     bnd (bget dev blockno s) (\<lambda>(b, s).
       Inr (b, if b_valid (bufs s b) then s
               else upd_buf b (\<lambda>x. x\<lparr>b_valid := True\<rparr>) (disk_rw b False s)))"

definition bwrite :: "nat \<Rightarrow> 'a bkern_scheme \<Rightarrow> 'a bkern_scheme res" where
  "bwrite b s =
     bnd (holdingsleep (b_lock (bufs s b)) (k_sched s)) (\<lambda>h.
       if \<not> h then Inl (Panic ''bwrite'') else Inr (disk_rw b True s))"

definition brelse :: "nat \<Rightarrow> 'a bkern_scheme \<Rightarrow> 'a bkern_scheme res" where
  "brelse b s =
     bnd (holdingsleep (b_lock (bufs s b)) (k_sched s)) (\<lambda>h.
       if \<not> h then Inl (Panic ''brelse'')
       else let (lk, d) = releasesleep (Ch_buf b) (b_lock (bufs s b)) (k_sched s);
                s = upd_buf b (\<lambda>x. x\<lparr>b_lock := lk\<rparr>) (s\<lparr>k_sched := d\<rparr>);
                s = upd_buf b (\<lambda>x. x\<lparr>b_refcnt := b_refcnt x - 1\<rparr>) s
            in Inr (if b_refcnt (bufs s b) = 0 then buf_push b (buf_unlink b s) else s))"

definition bpin :: "nat \<Rightarrow> 'a bkern_scheme \<Rightarrow> 'a bkern_scheme" where
  "bpin b s = upd_buf b (\<lambda>x. x\<lparr>b_refcnt := b_refcnt x + 1\<rparr>) s"

definition bunpin :: "nat \<Rightarrow> 'a bkern_scheme \<Rightarrow> 'a bkern_scheme" where
  "bunpin b s = upd_buf b (\<lambda>x. x\<lparr>b_refcnt := b_refcnt x - 1\<rparr>) s"

end
