(* ===== verification/Log.thy ===== *)
theory Log
  imports Bio
begin

text \<open>
  The write-ahead log, \<^verbatim>\<open>kernel/log.c\<close>.  The header block holds the count and the home
  block numbers as little-endian 32-bit words.
\<close>

record logheader =
  lh_n :: int
  lh_block :: "nat \<Rightarrow> u32"

record log =
  lg_start :: int
  lg_size :: int
  lg_outstanding :: int
  lg_committing :: bool
  lg_dev :: u32
  lg_lh :: logheader

record lkern = bkern +
  lg :: log

text \<open>32-bit words in a block.\<close>

definition get32 :: "byte list \<Rightarrow> nat \<Rightarrow> u32" where
  "get32 d off = le_word (take 4 (drop off d))"

definition put :: "byte list \<Rightarrow> nat \<Rightarrow> byte list \<Rightarrow> byte list" where
  "put d off bs = take off d @ bs @ drop (off + length bs) d"

definition put32 :: "byte list \<Rightarrow> nat \<Rightarrow> u32 \<Rightarrow> byte list" where
  "put32 d off v = put d off (le_bytes 4 v)"

definition upd_lh :: "(logheader \<Rightarrow> logheader) \<Rightarrow> 'a lkern_scheme \<Rightarrow> 'a lkern_scheme" where
  "upd_lh f s = s\<lparr>lg := (lg s)\<lparr>lg_lh := f (lg_lh (lg s))\<rparr>\<rparr>"

abbreviation (input) log_n :: "'a lkern_scheme \<Rightarrow> int" where "log_n s \<equiv> lh_n (lg_lh (lg s))"
abbreviation (input) log_block :: "'a lkern_scheme \<Rightarrow> nat \<Rightarrow> u32" where "log_block s \<equiv> lh_block (lg_lh (lg s))"

section \<open>Installing and the header\<close>

definition install_one :: "bool \<Rightarrow> nat \<Rightarrow> 'a lkern_scheme \<Rightarrow> 'a lkern_scheme res" where
  "install_one recovering tail s =
     (if tail \<ge> LOGSIZE then Inl OutOfBounds
      else bnd (bread (lg_dev (lg s)) (of_int (lg_start (lg s) + int tail + 1)) s) (\<lambda>(lbuf, s).
           bnd (bread (lg_dev (lg s)) (log_block s tail) s) (\<lambda>(dbuf, s).
           bnd (bwrite dbuf (upd_buf dbuf (\<lambda>x. x\<lparr>b_data := b_data (bufs s lbuf)\<rparr>) s)) (\<lambda>s.
           bnd (brelse lbuf (if recovering then s else bunpin dbuf s)) (brelse dbuf)))))"

fun install_loop :: "bool \<Rightarrow> nat list \<Rightarrow> 'a lkern_scheme \<Rightarrow> 'a lkern_scheme res" where
  "install_loop recovering [] s = Inr s"
| "install_loop recovering (tail # ts) s = bnd (install_one recovering tail s) (install_loop recovering ts)"

definition install_trans :: "bool \<Rightarrow> 'a lkern_scheme \<Rightarrow> 'a lkern_scheme res" where
  "install_trans recovering s = install_loop recovering [0..<nat (log_n s)] s"

definition read_head :: "'a lkern_scheme \<Rightarrow> 'a lkern_scheme res" where
  "read_head s =
     bnd (bread (lg_dev (lg s)) (of_int (lg_start (lg s))) s) (\<lambda>(b, s).
       let d = b_data (bufs s b); n = sint (get32 d 0)
       in if n > int LOGSIZE then Inl OutOfBounds
          else brelse b (upd_lh (\<lambda>h. h\<lparr>lh_n := n,
                 lh_block := (\<lambda>i. if int i < n then get32 d (4 + 4 * i) else lh_block h i)\<rparr>) s))"

definition head_bytes :: "logheader \<Rightarrow> byte list \<Rightarrow> byte list" where
  "head_bytes h d =
     fold (\<lambda>i d. put32 d (4 + 4 * i) (lh_block h i)) [0..<nat (lh_n h)] (put32 d 0 (of_int (lh_n h)))"

definition write_head :: "'a lkern_scheme \<Rightarrow> 'a lkern_scheme res" where
  "write_head s =
     bnd (bread (lg_dev (lg s)) (of_int (lg_start (lg s))) s) (\<lambda>(b, s).
     bnd (bwrite b (upd_buf b (\<lambda>x. x\<lparr>b_data := head_bytes (lg_lh (lg s)) (b_data x)\<rparr>) s)) (brelse b))"

definition recover_from_log :: "'a lkern_scheme \<Rightarrow> 'a lkern_scheme res" where
  "recover_from_log s =
     bnd (read_head s) (\<lambda>s.
     bnd (install_trans True s) (\<lambda>s.
       write_head (upd_lh (\<lambda>h. h\<lparr>lh_n := 0\<rparr>) s)))"

text \<open>The size check of \<^verbatim>\<open>initlog\<close> compares 124 with \<^verbatim>\<open>BSIZE\<close> and never fires.\<close>

definition initlog :: "u32 \<Rightarrow> u32 \<Rightarrow> u32 \<Rightarrow> 'a lkern_scheme \<Rightarrow> 'a lkern_scheme res" where
  "initlog dev logstart nlog s =
     recover_from_log (s\<lparr>lg := (lg s)\<lparr>lg_start := sint logstart, lg_size := sint nlog, lg_dev := dev\<rparr>\<rparr>)"

section \<open>Transactions\<close>

definition begin_op :: "'a lkern_scheme \<Rightarrow> 'a lkern_scheme res" where
  "begin_op s =
     (if lg_committing (lg s) then Inl (Sleeping Ch_log)
      else if log_n s + (lg_outstanding (lg s) + 1) * int MAXOPBLOCKS > int LOGSIZE then Inl (Sleeping Ch_log)
      else Inr (s\<lparr>lg := (lg s)\<lparr>lg_outstanding := lg_outstanding (lg s) + 1\<rparr>\<rparr>))"

definition write_log_one :: "nat \<Rightarrow> 'a lkern_scheme \<Rightarrow> 'a lkern_scheme res" where
  "write_log_one tail s =
     (if tail \<ge> LOGSIZE then Inl OutOfBounds
      else bnd (bread (lg_dev (lg s)) (of_int (lg_start (lg s) + int tail + 1)) s) (\<lambda>(to, s).
           bnd (bread (lg_dev (lg s)) (log_block s tail) s) (\<lambda>(from, s).
           bnd (bwrite to (upd_buf to (\<lambda>x. x\<lparr>b_data := b_data (bufs s from)\<rparr>) s)) (\<lambda>s.
           bnd (brelse from s) (brelse to)))))"

fun write_log_loop :: "nat list \<Rightarrow> 'a lkern_scheme \<Rightarrow> 'a lkern_scheme res" where
  "write_log_loop [] s = Inr s"
| "write_log_loop (tail # ts) s = bnd (write_log_one tail s) (write_log_loop ts)"

definition write_log :: "'a lkern_scheme \<Rightarrow> 'a lkern_scheme res" where
  "write_log s = write_log_loop [0..<nat (log_n s)] s"

definition commit :: "'a lkern_scheme \<Rightarrow> 'a lkern_scheme res" where
  "commit s =
     (if log_n s > 0
      then bnd (write_log s) (\<lambda>s.
           bnd (write_head s) (\<lambda>s.
           bnd (install_trans False s) (\<lambda>s.
             write_head (upd_lh (\<lambda>h. h\<lparr>lh_n := 0\<rparr>) s))))
      else Inr s)"

definition end_op :: "'a lkern_scheme \<Rightarrow> 'a lkern_scheme res" where
  "end_op s =
     (let s = s\<lparr>lg := (lg s)\<lparr>lg_outstanding := lg_outstanding (lg s) - 1\<rparr>\<rparr>
      in if lg_committing (lg s) then Inl (Panic ''log.committing'')
         else if lg_outstanding (lg s) = 0
         then bnd (commit (s\<lparr>lg := (lg s)\<lparr>lg_committing := True\<rparr>\<rparr>)) (\<lambda>s.
                Inr (k_wakeup Ch_log (s\<lparr>lg := (lg s)\<lparr>lg_committing := False\<rparr>\<rparr>)))
         else Inr (k_wakeup Ch_log s))"

definition log_find :: "u32 \<Rightarrow> 'a lkern_scheme \<Rightarrow> nat" where
  "log_find blockno s =
     (case find (\<lambda>i. log_block s i = blockno) [0..<nat (log_n s)] of Some i \<Rightarrow> i | None \<Rightarrow> nat (log_n s))"

definition log_write :: "nat \<Rightarrow> 'a lkern_scheme \<Rightarrow> 'a lkern_scheme res" where
  "log_write b s =
     (if log_n s \<ge> int LOGSIZE \<or> log_n s \<ge> lg_size (lg s) - 1 then Inl (Panic ''too big a transaction'')
      else if lg_outstanding (lg s) < 1 then Inl (Panic ''log_write outside of trans'')
      else let bno = b_blockno (bufs s b); i = log_find bno s; n = log_n s;
               s = upd_lh (\<lambda>h. h\<lparr>lh_block := (lh_block h)(i := bno)\<rparr>) s
           in Inr (if int i = n then upd_lh (\<lambda>h. h\<lparr>lh_n := lh_n h + 1\<rparr>) (bpin b s) else s))"

end
