(* ===== verification/Fs.thy ===== *)
theory Fs
  imports Log
begin

text \<open>
  The file system, \<^verbatim>\<open>kernel/fs.c\<close>: the super block, the block allocator, the inode
  table, file contents, directories and path names.  Inode pointers are indices of the inode
  table, short integers are 16-bit words.  Path names and name arguments are the bytes
  before the terminating zero.  Sizes and offsets are bounded by the checks at the head of
  \<open>readi\<close> and \<open>writei\<close>, after which their loops count in natural numbers.
\<close>

record superblock =
  sb_magic :: u32
  sb_size :: u32
  sb_nblocks :: u32
  sb_ninodes :: u32
  sb_nlog :: u32
  sb_logstart :: u32
  sb_inodestart :: u32
  sb_bmapstart :: u32

record dinode =
  d_type :: u16
  d_major :: u16
  d_minor :: u16
  d_nlink :: u16
  d_size :: u32
  d_addrs :: "nat \<Rightarrow> u32"

record inode =
  i_dev :: u32
  i_inum :: u32
  i_ref :: int
  i_lock :: sleeplock
  i_valid :: bool
  i_type :: u16
  i_major :: u16
  i_minor :: u16
  i_nlink :: u16
  i_size :: u32
  i_addrs :: "nat \<Rightarrow> u32"

record fkern = lkern +
  sb :: superblock
  itable :: "nat \<Rightarrow> inode"

abbreviation (input) FSMAGIC :: u32 where "FSMAGIC \<equiv> 0x10203040"
abbreviation (input) NDIRECT :: nat where "NDIRECT \<equiv> 12"
abbreviation (input) NINDIRECT :: nat where "NINDIRECT \<equiv> 256"
abbreviation (input) MAXFILE :: nat where "MAXFILE \<equiv> 268"
abbreviation (input) IPB :: nat where "IPB \<equiv> 16"
abbreviation (input) BPB :: nat where "BPB \<equiv> 8192"
abbreviation (input) DIRSIZ :: nat where "DIRSIZ \<equiv> 14"
abbreviation (input) T_DIR :: u16 where "T_DIR \<equiv> 1"
abbreviation (input) T_FILE :: u16 where "T_FILE \<equiv> 2"
abbreviation (input) T_DEVICE :: u16 where "T_DEVICE \<equiv> 3"
abbreviation (input) ROOTDEV :: u32 where "ROOTDEV \<equiv> 1"
abbreviation (input) ROOTINO :: u32 where "ROOTINO \<equiv> 1"

definition upd_inode :: "nat \<Rightarrow> (inode \<Rightarrow> inode) \<Rightarrow> 'a fkern_scheme \<Rightarrow> 'a fkern_scheme" where
  "upd_inode ip f s = s\<lparr>itable := (itable s)(ip := f (itable s ip))\<rparr>"

definition set_data :: "nat \<Rightarrow> byte list \<Rightarrow> 'a bkern_scheme \<Rightarrow> 'a bkern_scheme" where
  "set_data b d s = upd_buf b (\<lambda>x. x\<lparr>b_data := d\<rparr>) s"

text \<open>Every change of a logged block ends with the same two calls.\<close>

definition log_release :: "nat \<Rightarrow> 'a lkern_scheme \<Rightarrow> 'a lkern_scheme res" where
  "log_release b s = bnd (log_write b s) (brelse b)"

section \<open>On-disk structures\<close>

definition get16 :: "byte list \<Rightarrow> nat \<Rightarrow> u16" where
  "get16 d off = le_word (take 2 (drop off d))"

definition dec_sb :: "byte list \<Rightarrow> superblock" where
  "dec_sb d = \<lparr>sb_magic = get32 d 0, sb_size = get32 d 4, sb_nblocks = get32 d 8, sb_ninodes = get32 d 12,
     sb_nlog = get32 d 16, sb_logstart = get32 d 20, sb_inodestart = get32 d 24, sb_bmapstart = get32 d 28\<rparr>"

definition dec_dinode :: "byte list \<Rightarrow> dinode" where
  "dec_dinode d = \<lparr>d_type = get16 d 0, d_major = get16 d 2, d_minor = get16 d 4, d_nlink = get16 d 6,
     d_size = get32 d 8, d_addrs = (\<lambda>i. get32 d (12 + 4 * i))\<rparr>"

definition enc_dinode :: "dinode \<Rightarrow> byte list" where
  "enc_dinode di = le_bytes 2 (d_type di) @ le_bytes 2 (d_major di) @ le_bytes 2 (d_minor di) @
     le_bytes 2 (d_nlink di) @ le_bytes 4 (d_size di) @
     concat (map (\<lambda>i. le_bytes 4 (d_addrs di i)) [0..<NDIRECT + 1])"

definition dinode_off :: "u32 \<Rightarrow> nat" where
  "dinode_off inum = unat inum mod IPB * 64"

definition IBLOCK :: "u32 \<Rightarrow> superblock \<Rightarrow> u32" where
  "IBLOCK i q = i div 16 + sb_inodestart q"

definition BBLOCK :: "u32 \<Rightarrow> superblock \<Rightarrow> u32" where
  "BBLOCK b q = b div 8192 + sb_bmapstart q"

definition readsb :: "u32 \<Rightarrow> 'a fkern_scheme \<Rightarrow> 'a fkern_scheme res" where
  "readsb dev s =
     bnd (bread dev 1 s) (\<lambda>(bp, s). brelse bp (s\<lparr>sb := dec_sb (b_data (bufs s bp))\<rparr>))"

definition fsinit :: "u32 \<Rightarrow> 'a fkern_scheme \<Rightarrow> 'a fkern_scheme res" where
  "fsinit dev s =
     bnd (readsb dev s) (\<lambda>s.
       if sb_magic (sb s) \<noteq> FSMAGIC then Inl (Panic ''invalid file system'')
       else initlog dev (sb_logstart (sb s)) (sb_nlog (sb s)) s)"

section \<open>Blocks\<close>

definition bzero :: "u32 \<Rightarrow> u32 \<Rightarrow> 'a lkern_scheme \<Rightarrow> 'a lkern_scheme res" where
  "bzero dev bno s =
     bnd (bread dev bno s) (\<lambda>(bp, s). log_release bp (set_data bp (replicate BSIZE 0) s))"

definition bit_free :: "byte list \<Rightarrow> nat \<Rightarrow> bool" where
  "bit_free d bi = (d ! (bi div 8) AND push_bit (bi mod 8) 1 = 0)"

definition set_bit_used :: "byte list \<Rightarrow> nat \<Rightarrow> byte list" where
  "set_bit_used d bi = d[bi div 8 := d ! (bi div 8) OR push_bit (bi mod 8) 1]"

definition clear_bit :: "byte list \<Rightarrow> nat \<Rightarrow> byte list" where
  "clear_bit d bi = d[bi div 8 := d ! (bi div 8) AND NOT (push_bit (bi mod 8) 1)]"

fun balloc_loop :: "u32 \<Rightarrow> nat list \<Rightarrow> 'a fkern_scheme \<Rightarrow> (u32 \<times> 'a fkern_scheme) res" where
  "balloc_loop dev [] s = bnd (printf ''balloc: out of blocks\<newline>'' [] s) (\<lambda>s. Inr (0, s))"
| "balloc_loop dev (b # bs) s =
     bnd (bread dev (BBLOCK (of_nat b) (sb s)) s) (\<lambda>(bp, s).
       let d = b_data (bufs s bp)
       in case find (bit_free d) [0..<min BPB (unat (sb_size (sb s)) - b)] of
            Some bi \<Rightarrow>
              bnd (log_release bp (set_data bp (set_bit_used d bi) s)) (\<lambda>s.
              bnd (bzero dev (of_nat (b + bi)) s) (\<lambda>s. Inr (of_nat (b + bi), s)))
          | None \<Rightarrow> bnd (brelse bp s) (balloc_loop dev bs))"

definition balloc :: "u32 \<Rightarrow> 'a fkern_scheme \<Rightarrow> (u32 \<times> 'a fkern_scheme) res" where
  "balloc dev s = balloc_loop dev (map (\<lambda>k. k * BPB) [0..<(unat (sb_size (sb s)) + BPB - 1) div BPB]) s"

definition bfree :: "u32 \<Rightarrow> u32 \<Rightarrow> 'a fkern_scheme \<Rightarrow> 'a fkern_scheme res" where
  "bfree dev b s =
     bnd (bread dev (BBLOCK b (sb s)) s) (\<lambda>(bp, s).
       let bi = unat b mod BPB; d = b_data (bufs s bp)
       in if bit_free d bi then Inl (Panic ''freeing free block'')
          else log_release bp (set_data bp (clear_bit d bi) s))"

section \<open>The inode table\<close>

definition iinit :: "'a fkern_scheme \<Rightarrow> 'a fkern_scheme" where
  "iinit s = fold (\<lambda>i. upd_inode i (\<lambda>x. x\<lparr>i_lock := initsleeplock\<rparr>)) [0..<NINODE] s"

definition iget :: "u32 \<Rightarrow> u32 \<Rightarrow> 'a fkern_scheme \<Rightarrow> (nat \<times> 'a fkern_scheme) res" where
  "iget dev inum s =
     (case find (\<lambda>i. i_ref (itable s i) > 0 \<and> i_dev (itable s i) = dev \<and> i_inum (itable s i) = inum) [0..<NINODE] of
        Some ip \<Rightarrow> Inr (ip, upd_inode ip (\<lambda>x. x\<lparr>i_ref := i_ref x + 1\<rparr>) s)
      | None \<Rightarrow>
          (case find (\<lambda>i. i_ref (itable s i) = 0) [0..<NINODE] of
             None \<Rightarrow> Inl (Panic ''iget: no inodes'')
           | Some ip \<Rightarrow>
               Inr (ip, upd_inode ip (\<lambda>x. x\<lparr>i_dev := dev, i_inum := inum, i_ref := 1, i_valid := False\<rparr>) s)))"

definition idup :: "nat \<Rightarrow> 'a fkern_scheme \<Rightarrow> nat \<times> 'a fkern_scheme" where
  "idup ip s = (ip, upd_inode ip (\<lambda>x. x\<lparr>i_ref := i_ref x + 1\<rparr>) s)"

fun ialloc_loop :: "u32 \<Rightarrow> u16 \<Rightarrow> nat list \<Rightarrow> 'a fkern_scheme \<Rightarrow> (nat option \<times> 'a fkern_scheme) res" where
  "ialloc_loop dev type [] s = bnd (printf ''ialloc: no inodes\<newline>'' [] s) (\<lambda>s. Inr (None, s))"
| "ialloc_loop dev type (inum # is) s =
     bnd (bread dev (IBLOCK (of_nat inum) (sb s)) s) (\<lambda>(bp, s).
       let d = b_data (bufs s bp); off = dinode_off (of_nat inum)
       in if get16 d off = 0
          then bnd (log_release bp (set_data bp (put d off (le_bytes 2 type @ replicate 62 0)) s)) (\<lambda>s.
               bnd (iget dev (of_nat inum) s) (\<lambda>(ip, s). Inr (Some ip, s)))
          else bnd (brelse bp s) (ialloc_loop dev type is))"

definition ialloc :: "u32 \<Rightarrow> u16 \<Rightarrow> 'a fkern_scheme \<Rightarrow> (nat option \<times> 'a fkern_scheme) res" where
  "ialloc dev type s = ialloc_loop dev type [1..<unat (sb_ninodes (sb s))] s"

definition to_dinode :: "inode \<Rightarrow> dinode" where
  "to_dinode x = \<lparr>d_type = i_type x, d_major = i_major x, d_minor = i_minor x, d_nlink = i_nlink x,
     d_size = i_size x, d_addrs = i_addrs x\<rparr>"

definition of_dinode :: "dinode \<Rightarrow> inode \<Rightarrow> inode" where
  "of_dinode di x = x\<lparr>i_type := d_type di, i_major := d_major di, i_minor := d_minor di, i_nlink := d_nlink di,
     i_size := d_size di, i_addrs := (\<lambda>i. if i \<le> NDIRECT then d_addrs di i else i_addrs x i)\<rparr>"

definition iupdate :: "nat \<Rightarrow> 'a fkern_scheme \<Rightarrow> 'a fkern_scheme res" where
  "iupdate ip s =
     bnd (bread (i_dev (itable s ip)) (IBLOCK (i_inum (itable s ip)) (sb s)) s) (\<lambda>(bp, s).
       log_release bp (set_data bp
         (put (b_data (bufs s bp)) (dinode_off (i_inum (itable s ip))) (enc_dinode (to_dinode (itable s ip)))) s))"

definition lock_inode :: "nat \<Rightarrow> 'a fkern_scheme \<Rightarrow> 'a fkern_scheme res" where
  "lock_inode ip s =
     bnd (acquiresleep (Ch_inode ip) (i_lock (itable s ip)) (k_sched s)) (\<lambda>(got, lk, d).
       if got then Inr (upd_inode ip (\<lambda>x. x\<lparr>i_lock := lk\<rparr>) (s\<lparr>k_sched := d\<rparr>))
       else Inl (Sleeping (Ch_inode ip)))"

definition unlock_inode :: "nat \<Rightarrow> 'a fkern_scheme \<Rightarrow> 'a fkern_scheme" where
  "unlock_inode ip s =
     (let (lk, d) = releasesleep (Ch_inode ip) (i_lock (itable s ip)) (k_sched s)
      in upd_inode ip (\<lambda>x. x\<lparr>i_lock := lk\<rparr>) (s\<lparr>k_sched := d\<rparr>))"

definition ilock :: "nat \<Rightarrow> 'a fkern_scheme \<Rightarrow> 'a fkern_scheme res" where
  "ilock ip s =
     (if i_ref (itable s ip) < 1 then Inl (Panic ''ilock'')
      else bnd (lock_inode ip s) (\<lambda>s.
        if i_valid (itable s ip) then Inr s
        else bnd (bread (i_dev (itable s ip)) (IBLOCK (i_inum (itable s ip)) (sb s)) s) (\<lambda>(bp, s).
               let di = dec_dinode (drop (dinode_off (i_inum (itable s ip))) (b_data (bufs s bp)))
               in bnd (brelse bp (upd_inode ip (of_dinode di) s)) (\<lambda>s.
                    let s = upd_inode ip (\<lambda>x. x\<lparr>i_valid := True\<rparr>) s
                    in if i_type (itable s ip) = 0 then Inl (Panic ''ilock: no type'') else Inr s))))"

definition iunlock :: "nat \<Rightarrow> 'a fkern_scheme \<Rightarrow> 'a fkern_scheme res" where
  "iunlock ip s =
     bnd (holdingsleep (i_lock (itable s ip)) (k_sched s)) (\<lambda>h.
       if \<not> h \<or> i_ref (itable s ip) < 1 then Inl (Panic ''iunlock'') else Inr (unlock_inode ip s))"

section \<open>Inode contents\<close>

definition bmap :: "nat \<Rightarrow> nat \<Rightarrow> 'a fkern_scheme \<Rightarrow> (u32 \<times> 'a fkern_scheme) res" where
  "bmap ip bn s =
     (let set_addr = (\<lambda>i a. upd_inode ip (\<lambda>x. x\<lparr>i_addrs := (i_addrs x)(i := a)\<rparr>));
          addr_of = (\<lambda>i s.
            if i_addrs (itable s ip) i \<noteq> 0 then Inr (i_addrs (itable s ip) i, s)
            else bnd (balloc (i_dev (itable s ip)) s) (\<lambda>(addr, s).
                   Inr (if addr = 0 then (0, s) else (addr, set_addr i addr s))))
      in if bn < NDIRECT then addr_of bn s
         else if bn - NDIRECT < NINDIRECT
         then bnd (addr_of NDIRECT s) (\<lambda>(addr, s).
                if addr = 0 then Inr (0, s)
                else bnd (bread (i_dev (itable s ip)) addr s) (\<lambda>(bp, s).
                       let a = get32 (b_data (bufs s bp)) (4 * (bn - NDIRECT))
                       in if a \<noteq> 0 then bnd (brelse bp s) (\<lambda>s. Inr (a, s))
                          else bnd (balloc (i_dev (itable s ip)) s) (\<lambda>(a, s).
                               bnd (if a = 0 then Inr s
                                    else log_write bp (set_data bp
                                      (put32 (b_data (bufs s bp)) (4 * (bn - NDIRECT)) a) s)) (\<lambda>s.
                               bnd (brelse bp s) (\<lambda>s. Inr (a, s))))))
         else Inl (Panic ''bmap: out of range''))"

fun itrunc_direct :: "nat \<Rightarrow> nat list \<Rightarrow> 'a fkern_scheme \<Rightarrow> 'a fkern_scheme res" where
  "itrunc_direct ip [] s = Inr s"
| "itrunc_direct ip (i # is) s =
     (if i_addrs (itable s ip) i \<noteq> 0
      then bnd (bfree (i_dev (itable s ip)) (i_addrs (itable s ip) i) s) (\<lambda>s.
             itrunc_direct ip is (upd_inode ip (\<lambda>x. x\<lparr>i_addrs := (i_addrs x)(i := 0)\<rparr>) s))
      else itrunc_direct ip is s)"

fun itrunc_indirect :: "u32 \<Rightarrow> nat \<Rightarrow> nat list \<Rightarrow> 'a fkern_scheme \<Rightarrow> 'a fkern_scheme res" where
  "itrunc_indirect dev bp [] s = Inr s"
| "itrunc_indirect dev bp (j # js) s =
     (let a = get32 (b_data (bufs s bp)) (4 * j)
      in if a \<noteq> 0 then bnd (bfree dev a s) (itrunc_indirect dev bp js) else itrunc_indirect dev bp js s)"

definition itrunc :: "nat \<Rightarrow> 'a fkern_scheme \<Rightarrow> 'a fkern_scheme res" where
  "itrunc ip s =
     bnd (itrunc_direct ip [0..<NDIRECT] s) (\<lambda>s.
     bnd (if i_addrs (itable s ip) NDIRECT \<noteq> 0
          then bnd (bread (i_dev (itable s ip)) (i_addrs (itable s ip) NDIRECT) s) (\<lambda>(bp, s).
               bnd (itrunc_indirect (i_dev (itable s ip)) bp [0..<NINDIRECT] s) (\<lambda>s.
               bnd (brelse bp s) (\<lambda>s.
               bnd (bfree (i_dev (itable s ip)) (i_addrs (itable s ip) NDIRECT) s) (\<lambda>s.
                 Inr (upd_inode ip (\<lambda>x. x\<lparr>i_addrs := (i_addrs x)(NDIRECT := 0)\<rparr>) s)))))
          else Inr s) (\<lambda>s.
       iupdate ip (upd_inode ip (\<lambda>x. x\<lparr>i_size := 0\<rparr>) s)))"

definition iput :: "nat \<Rightarrow> 'a fkern_scheme \<Rightarrow> 'a fkern_scheme res" where
  "iput ip s =
     bnd (if i_ref (itable s ip) = 1 \<and> i_valid (itable s ip) \<and> i_nlink (itable s ip) = 0
          then bnd (lock_inode ip s) (\<lambda>s.
               bnd (itrunc ip s) (\<lambda>s.
               bnd (iupdate ip (upd_inode ip (\<lambda>x. x\<lparr>i_type := 0\<rparr>) s)) (\<lambda>s.
                 Inr (unlock_inode ip (upd_inode ip (\<lambda>x. x\<lparr>i_valid := False\<rparr>) s)))))
          else Inr s) (\<lambda>s.
       Inr (upd_inode ip (\<lambda>x. x\<lparr>i_ref := i_ref x - 1\<rparr>) s))"

definition iunlockput :: "nat \<Rightarrow> 'a fkern_scheme \<Rightarrow> 'a fkern_scheme res" where
  "iunlockput ip s = bnd (iunlock ip s) (iput ip)"

record stat =
  st_dev :: int
  st_ino :: u32
  st_type :: u16
  st_nlink :: u16
  st_size :: u64

definition stati :: "inode \<Rightarrow> stat" where
  "stati x = \<lparr>st_dev = sint (i_dev x), st_ino = i_inum x, st_type = i_type x, st_nlink = i_nlink x,
     st_size = ucast (i_size x)\<rparr>"

text \<open>Each round of the copy loops makes progress.\<close>

lemma block_progress:
  assumes "\<not> n \<le> tot"
  shows "n - (tot + min (n - tot) (BSIZE - off mod BSIZE)) < n - (tot :: nat)"
proof -
  have "0 < min (n - tot) (BSIZE - off mod BSIZE)"
    using assms by simp
  with assms show ?thesis by linarith
qed

text \<open>The loop of \<open>readi\<close> also returns the bytes read so far, which a read into a variable takes.\<close>

function readi_loop ::
  "nat \<Rightarrow> dest \<Rightarrow> nat \<Rightarrow> nat \<Rightarrow> nat \<Rightarrow> byte list \<Rightarrow> 'a fkern_scheme \<Rightarrow> (int \<times> byte list \<times> 'a fkern_scheme) res" where
  "readi_loop ip dst off n tot acc s =
     (if tot \<ge> n then Inr (int tot, acc, s)
      else bnd (bmap ip (off div BSIZE) s) (\<lambda>(addr, s).
        if addr = 0 then Inr (int tot, acc, s)
        else bnd (bread (i_dev (itable s ip)) addr s) (\<lambda>(bp, s).
          let m = min (n - tot) (BSIZE - off mod BSIZE); bs = take m (drop (off mod BSIZE) (b_data (bufs s bp)))
          in bnd (either_copyout dst bs s) (\<lambda>(r, s).
             bnd (brelse bp s) (\<lambda>s.
               if r = -1 then Inr (-1, acc, s)
               else readi_loop ip (dest_add dst m) (off + m) n (tot + m) (acc @ bs) s)))))"
  by pat_completeness auto
termination
  by (relation "measure (\<lambda>(ip, dst, off, n, tot, acc, s). n - tot)")
    (simp_all only: wf_measure in_measure case_prod_conv block_progress not_False_eq_True)

definition readi ::
  "nat \<Rightarrow> dest \<Rightarrow> u32 \<Rightarrow> u32 \<Rightarrow> 'a fkern_scheme \<Rightarrow> (int \<times> byte list \<times> 'a fkern_scheme) res" where
  "readi ip dst off n s =
     (if off > i_size (itable s ip) \<or> off + n < off then Inr (0, [], s)
      else readi_loop ip dst (unat off)
             (unat (if off + n > i_size (itable s ip) then i_size (itable s ip) - off else n)) 0 [] s)"

function writei_loop ::
  "nat \<Rightarrow> source \<Rightarrow> nat \<Rightarrow> nat \<Rightarrow> nat \<Rightarrow> 'a fkern_scheme \<Rightarrow> (nat \<times> nat \<times> 'a fkern_scheme) res" where
  "writei_loop ip src off n tot s =
     (if tot \<ge> n then Inr (tot, off, s)
      else bnd (bmap ip (off div BSIZE) s) (\<lambda>(addr, s).
        if addr = 0 then Inr (tot, off, s)
        else bnd (bread (i_dev (itable s ip)) addr s) (\<lambda>(bp, s).
          let m = min (n - tot) (BSIZE - off mod BSIZE)
          in bnd (either_copyin src m s) (\<lambda>(r, bs).
               let s = set_data bp (put (b_data (bufs s bp)) (off mod BSIZE) bs) s
               in if r = -1 then bnd (brelse bp s) (\<lambda>s. Inr (tot, off, s))
                  else bnd (log_release bp s) (\<lambda>s.
                         writei_loop ip (source_add src m) (off + m) n (tot + m) s)))))"
  by pat_completeness auto
termination
  by (relation "measure (\<lambda>(ip, src, off, n, tot, s). n - tot)")
    (simp_all only: wf_measure in_measure case_prod_conv block_progress not_False_eq_True)

definition writei :: "nat \<Rightarrow> source \<Rightarrow> u32 \<Rightarrow> u32 \<Rightarrow> 'a fkern_scheme \<Rightarrow> (int \<times> 'a fkern_scheme) res" where
  "writei ip src off n s =
     (if off > i_size (itable s ip) \<or> off + n < off then Inr (-1, s)
      else if unat (off + n) > MAXFILE * BSIZE then Inr (-1, s)
      else bnd (writei_loop ip src (unat off) (unat n) 0 s) (\<lambda>(tot, off, s).
           bnd (iupdate ip (if off > unat (i_size (itable s ip))
                            then upd_inode ip (\<lambda>x. x\<lparr>i_size := of_nat off\<rparr>) s else s)) (\<lambda>s.
             Inr (int tot, s))))"

section \<open>Directories\<close>

text \<open>Strings of up to \<^verbatim>\<open>DIRSIZ\<close> bytes; bytes after the end of a list are the terminating zero.\<close>

fun namecmp_loop :: "nat \<Rightarrow> byte list \<Rightarrow> byte list \<Rightarrow> int" where
  "namecmp_loop 0 p q = 0"
| "namecmp_loop (Suc n) p q =
     (let a = (case p of [] \<Rightarrow> 0 | c # _ \<Rightarrow> c); b = (case q of [] \<Rightarrow> 0 | c # _ \<Rightarrow> c)
      in if a \<noteq> 0 \<and> a = b then namecmp_loop n (tl p) (tl q) else uint a - uint b)"

definition namecmp :: "byte list \<Rightarrow> byte list \<Rightarrow> int" where
  "namecmp p q = namecmp_loop DIRSIZ p q"

definition dirent :: "u16 \<Rightarrow> byte list \<Rightarrow> byte list" where
  "dirent inum name = le_bytes 2 inum @ take DIRSIZ (takeWhile (\<lambda>c. c \<noteq> 0) name @ replicate DIRSIZ 0)"

definition dir_offs :: "u32 \<Rightarrow> nat list" where
  "dir_offs sz = map (\<lambda>k. 16 * k) [0..<(unat sz + 15) div 16]"

fun dirlookup_loop ::
  "nat \<Rightarrow> byte list \<Rightarrow> nat list \<Rightarrow> 'a fkern_scheme \<Rightarrow> ((nat \<times> u32) option \<times> 'a fkern_scheme) res" where
  "dirlookup_loop dp name [] s = Inr (None, s)"
| "dirlookup_loop dp name (off # offs) s =
     bnd (readi dp VDst (of_nat off) 16 s) (\<lambda>(r, de, s).
       if r \<noteq> 16 then Inl (Panic ''dirlookup read'')
       else if get16 de 0 = 0 then dirlookup_loop dp name offs s
       else if namecmp name (drop 2 de) = 0
       then bnd (iget (i_dev (itable s dp)) (ucast (get16 de 0)) s) (\<lambda>(ip, s). Inr (Some (ip, of_nat off), s))
       else dirlookup_loop dp name offs s)"

definition dirlookup :: "nat \<Rightarrow> byte list \<Rightarrow> 'a fkern_scheme \<Rightarrow> ((nat \<times> u32) option \<times> 'a fkern_scheme) res" where
  "dirlookup dp name s =
     (if i_type (itable s dp) \<noteq> T_DIR then Inl (Panic ''dirlookup not DIR'')
      else dirlookup_loop dp name (dir_offs (i_size (itable s dp))) s)"

fun dirlink_loop :: "nat \<Rightarrow> nat list \<Rightarrow> 'a fkern_scheme \<Rightarrow> (nat option \<times> 'a fkern_scheme) res" where
  "dirlink_loop dp [] s = Inr (None, s)"
| "dirlink_loop dp (off # offs) s =
     bnd (readi dp VDst (of_nat off) 16 s) (\<lambda>(r, de, s).
       if r \<noteq> 16 then Inl (Panic ''dirlink read'')
       else if get16 de 0 = 0 then Inr (Some off, s) else dirlink_loop dp offs s)"

definition dirlink :: "nat \<Rightarrow> byte list \<Rightarrow> u32 \<Rightarrow> 'a fkern_scheme \<Rightarrow> (int \<times> 'a fkern_scheme) res" where
  "dirlink dp name inum s =
     bnd (dirlookup dp name s) (\<lambda>(r, s).
       case r of
         Some (ip, _) \<Rightarrow> bnd (iput ip s) (\<lambda>s. Inr (-1, s))
       | None \<Rightarrow>
           bnd (dirlink_loop dp (dir_offs (i_size (itable s dp))) s) (\<lambda>(found, s).
             let off = (case found of Some off \<Rightarrow> off | None \<Rightarrow> 16 * ((unat (i_size (itable s dp)) + 15) div 16))
             in bnd (writei dp (VSrc (dirent (ucast inum) name)) (of_nat off) 16 s) (\<lambda>(r, s).
                  Inr (if r \<noteq> 16 then -1 else 0, s))))"

section \<open>Paths\<close>

abbreviation (input) SLASH :: byte where "SLASH \<equiv> 0x2f"

text \<open>The next path element and the rest of the path.\<close>

definition skipelem :: "byte list \<Rightarrow> (byte list \<times> byte list) option" where
  "skipelem path =
     (let path = dropWhile (\<lambda>c. c = SLASH) path
      in if path = [] then None
         else let s = takeWhile (\<lambda>c. c \<noteq> SLASH) path;
                  path = dropWhile (\<lambda>c. c \<noteq> SLASH) path
              in Some (take DIRSIZ s, dropWhile (\<lambda>c. c = SLASH) path))"

lemma skipelem_shorter:
  assumes "skipelem path = Some r" and "(name, rest) = r"
  shows "length rest < length path"
proof -
  let ?p = "dropWhile (\<lambda>c. c = SLASH) path"
  have ne: "?p \<noteq> []" and rest: "rest = dropWhile (\<lambda>c. c = SLASH) (dropWhile (\<lambda>c. c \<noteq> SLASH) ?p)"
    using assms by (auto simp: skipelem_def Let_def split: if_splits)
  have "hd ?p \<noteq> SLASH"
    using hd_dropWhile [OF ne] by simp
  with ne obtain c q where q: "?p = c # q" "c \<noteq> SLASH"
    by (cases ?p) auto
  then have "length rest \<le> length q"
    using length_dropWhile_le [of "\<lambda>c. c = SLASH" "dropWhile (\<lambda>c. c \<noteq> SLASH) q"]
      length_dropWhile_le [of "\<lambda>c. c \<noteq> SLASH" q] by (simp add: rest)
  also have "length q < length ?p"
    by (simp add: q)
  also have "\<dots> \<le> length path"
    by (rule length_dropWhile_le)
  finally show ?thesis .
qed

function namex_loop ::
  "nat \<Rightarrow> byte list \<Rightarrow> bool \<Rightarrow> byte list \<Rightarrow> 'a fkern_scheme \<Rightarrow> (nat option \<times> byte list \<times> 'a fkern_scheme) res" where
  "namex_loop ip path parent name s =
     (case skipelem path of
        None \<Rightarrow>
          if parent then bnd (iput ip s) (\<lambda>s. Inr (None, name, s)) else Inr (Some ip, name, s)
      | Some (name, path) \<Rightarrow>
          bnd (ilock ip s) (\<lambda>s.
            if i_type (itable s ip) \<noteq> T_DIR then bnd (iunlockput ip s) (\<lambda>s. Inr (None, name, s))
            else if parent \<and> path = [] then bnd (iunlock ip s) (\<lambda>s. Inr (Some ip, name, s))
            else bnd (dirlookup ip name s) (\<lambda>(r, s).
                 bnd (iunlockput ip s) (\<lambda>s.
                   case r of
                     None \<Rightarrow> Inr (None, name, s)
                   | Some (nxt, _) \<Rightarrow> namex_loop nxt path parent name s))))"
  by pat_completeness auto
termination
  by (relation "measure (\<lambda>(ip, path, parent, name, s). length path)",
    rule wf_measure, simp only: in_measure case_prod_conv, erule (1) skipelem_shorter)

definition namex ::
  "byte list \<Rightarrow> bool \<Rightarrow> 'a fkern_scheme \<Rightarrow> (nat option \<times> byte list \<times> 'a fkern_scheme) res" where
  "namex path parent s =
     (if path \<noteq> [] \<and> hd path = SLASH
      then bnd (iget ROOTDEV ROOTINO s) (\<lambda>(ip, s). namex_loop ip path parent [] s)
      else k_proc s (\<lambda>p. case p_cwd (procs (k_sched s) p) of
             None \<Rightarrow> Inl OutOfBounds
           | Some cwd \<Rightarrow> let (ip, s) = idup cwd s in namex_loop ip path parent [] s))"

definition namei :: "byte list \<Rightarrow> 'a fkern_scheme \<Rightarrow> (nat option \<times> 'a fkern_scheme) res" where
  "namei path s = bnd (namex path False s) (\<lambda>(ip, _, s). Inr (ip, s))"

definition nameiparent :: "byte list \<Rightarrow> 'a fkern_scheme \<Rightarrow> (nat option \<times> byte list \<times> 'a fkern_scheme) res" where
  "nameiparent path s = namex path True s"

end
