(* ===== verification/File.thy ===== *)
theory File
  imports Fs
begin

text \<open>
  The open-file table, \<^verbatim>\<open>kernel/file.c\<close>, with the creation of pipes.  Files are indices of the
  table.  The record \<open>ksys\<close> is the whole state of the kernel.  \<open>kend\<close> is the address at which
  the kernel image ends, which the linker assigns.
\<close>

datatype ftype = FD_NONE | FD_PIPE | FD_INODE | FD_DEVICE

record kfile =
  f_type :: ftype
  f_ref :: int
  f_readable :: bool
  f_writable :: bool
  f_pipe :: u64
  f_ip :: nat
  f_off :: u32
  f_major :: u16

text \<open>\<open>devsw\<close> tells which devices have handlers; only the console ever gets some.  \<open>k_first\<close> is
  the static variable of \<^verbatim>\<open>forkret\<close>, \<open>k_sync\<close> the tables of semaphores and reader-writer locks, and
  \<open>k_plic\<close> collects the writes to the interrupt controller.\<close>

record ksys = fkern +
  ftable :: "nat \<Rightarrow> kfile"
  devsw :: "int \<Rightarrow> bool"
  k_first :: bool
  k_sync :: sync
  k_plic :: "(u64 \<times> u32) list"
  kernel_pagetable :: u64

definition upd_file :: "nat \<Rightarrow> (kfile \<Rightarrow> kfile) \<Rightarrow> 'a ksys_scheme \<Rightarrow> 'a ksys_scheme" where
  "upd_file f u s = s\<lparr>ftable := (ftable s)(f := u (ftable s f))\<rparr>"

definition consoleinit :: "'a ksys_scheme \<Rightarrow> 'a ksys_scheme" where
  "consoleinit s = (let s = uartinit s in s\<lparr>devsw := (devsw s)(1 := True)\<rparr>)"

section \<open>References\<close>

definition filealloc :: "'a ksys_scheme \<Rightarrow> nat option \<times> 'a ksys_scheme" where
  "filealloc s =
     (case find (\<lambda>f. f_ref (ftable s f) = 0) [0..<NFILE] of
        Some f \<Rightarrow> (Some f, upd_file f (\<lambda>x. x\<lparr>f_ref := 1\<rparr>) s)
      | None \<Rightarrow> (None, s))"

definition filedup :: "nat \<Rightarrow> 'a ksys_scheme \<Rightarrow> 'a ksys_scheme res" where
  "filedup f s =
     (if f_ref (ftable s f) < 1 then Inl (Panic ''filedup'')
      else Inr (upd_file f (\<lambda>x. x\<lparr>f_ref := f_ref x + 1\<rparr>) s))"

definition fileclose :: "u64 \<Rightarrow> nat \<Rightarrow> 'a ksys_scheme \<Rightarrow> 'a ksys_scheme res" where
  "fileclose kend f s =
     (if f_ref (ftable s f) < 1 then Inl (Panic ''fileclose'')
      else let s = upd_file f (\<lambda>x. x\<lparr>f_ref := f_ref x - 1\<rparr>) s
           in if f_ref (ftable s f) > 0 then Inr s
              else let ff = ftable s f;
                       s = upd_file f (\<lambda>x. x\<lparr>f_ref := 0, f_type := FD_NONE\<rparr>) s
                   in case f_type ff of
                        FD_PIPE \<Rightarrow> pipeclose kend (f_pipe ff) (f_writable ff) s
                      | FD_NONE \<Rightarrow> Inr s
                      | _ \<Rightarrow> bnd (begin_op s) (\<lambda>s. bnd (iput (f_ip ff) s) end_op))"

definition pipe_fail :: "u64 \<Rightarrow> nat option \<Rightarrow> nat option \<Rightarrow> 'a ksys_scheme \<Rightarrow> ((nat \<times> nat) option \<times> 'a ksys_scheme) res" where
  "pipe_fail kend f0 f1 s =
     bnd (case f0 of Some f \<Rightarrow> fileclose kend f s | None \<Rightarrow> Inr s) (\<lambda>s.
     bnd (case f1 of Some f \<Rightarrow> fileclose kend f s | None \<Rightarrow> Inr s) (\<lambda>s. Inr (None, s)))"

definition pipealloc :: "u64 \<Rightarrow> 'a ksys_scheme \<Rightarrow> ((nat \<times> nat) option \<times> 'a ksys_scheme) res" where
  "pipealloc kend s =
     (case filealloc s of
        (None, s) \<Rightarrow> pipe_fail kend None None s
      | (Some f0, s) \<Rightarrow>
          (case filealloc s of
             (None, s) \<Rightarrow> pipe_fail kend (Some f0) None s
           | (Some f1, s) \<Rightarrow>
               let (pi, m) = kalloc (k_phys s); s = s\<lparr>k_phys := m\<rparr>
               in if pi = 0 then pipe_fail kend (Some f0) (Some f1) s
                  else let s = upd_pipe pi (\<lambda>x. x\<lparr>pi_readopen := True, pi_writeopen := True,
                                                 pi_nwrite := 0, pi_nread := 0\<rparr>) s;
                           s = upd_file f0 (\<lambda>x. x\<lparr>f_type := FD_PIPE, f_readable := True,
                                                 f_writable := False, f_pipe := pi\<rparr>) s;
                           s = upd_file f1 (\<lambda>x. x\<lparr>f_type := FD_PIPE, f_readable := False,
                                                 f_writable := True, f_pipe := pi\<rparr>) s
                       in Inr (Some (f0, f1), s)))"

section \<open>Reading and writing\<close>

text \<open>The structure that \<^verbatim>\<open>filestat\<close> copies out has four bytes of padding, which keep whatever the
  stack held; \<open>pad\<close> stands for them.\<close>

definition stat_bytes :: "byte list \<Rightarrow> stat \<Rightarrow> byte list" where
  "stat_bytes pad st =
     le_bytes 4 (of_int (st_dev st) :: u32) @ le_bytes 4 (st_ino st) @ le_bytes 2 (st_type st) @
     le_bytes 2 (st_nlink st) @ take 4 pad @ le_bytes 8 (st_size st)"

definition filestat :: "byte list \<Rightarrow> nat \<Rightarrow> u64 \<Rightarrow> 'a ksys_scheme \<Rightarrow> (int \<times> 'a ksys_scheme) res" where
  "filestat pad f addr s =
     k_proc s (\<lambda>p.
       if f_type (ftable s f) = FD_INODE \<or> f_type (ftable s f) = FD_DEVICE
       then let ip = f_ip (ftable s f)
            in bnd (ilock ip s) (\<lambda>s.
               let st = stati (itable s ip)
               in bnd (iunlock ip s) (\<lambda>s.
                  bnd (copyout (k_pt p s) addr (stat_bytes pad st) (k_phys s)) (\<lambda>(r, m).
                    Inr (if r < 0 then -1 else 0, s\<lparr>k_phys := m\<rparr>))))
       else Inr (-1, s))"

definition no_device :: "kfile \<Rightarrow> 'a ksys_scheme \<Rightarrow> bool" where
  "no_device x s = (sint (f_major x) < 0 \<or> sint (f_major x) \<ge> NDEV \<or> \<not> devsw s (sint (f_major x)))"

definition fileread :: "nat \<Rightarrow> u64 \<Rightarrow> int \<Rightarrow> 'a ksys_scheme \<Rightarrow> (pass \<times> 'a ksys_scheme) res" where
  "fileread f addr n s =
     (let x = ftable s f
      in if \<not> f_readable x then Inr (Ret (-1), s)
         else case f_type x of
                FD_PIPE \<Rightarrow> piperead (f_pipe x) addr n s
              | FD_DEVICE \<Rightarrow>
                  if no_device x s then Inr (Ret (-1), s) else consoleread (UDst addr) n s
              | FD_INODE \<Rightarrow>
                  bnd (ilock (f_ip x) s) (\<lambda>s.
                  bnd (readi (f_ip x) (UDst addr) (f_off x) (of_int n) s) (\<lambda>(r, _, s).
                    let s = (if r > 0 then upd_file f (\<lambda>x. x\<lparr>f_off := f_off x + of_int r\<rparr>) s else s)
                    in bnd (iunlock (f_ip x) s) (\<lambda>s. Inr (Ret r, s))))
              | FD_NONE \<Rightarrow> Inl (Panic ''fileread''))"

abbreviation (input) WRITE_MAX :: int where "WRITE_MAX \<equiv> 3072"

text \<open>\<^verbatim>\<open>((MAXOPBLOCKS-1-1-2) / 2) * BSIZE\<close> is 3072.\<close>

function filewrite_loop :: "nat \<Rightarrow> u64 \<Rightarrow> int \<Rightarrow> int \<Rightarrow> 'a ksys_scheme \<Rightarrow> (int \<times> 'a ksys_scheme) res" where
  "filewrite_loop f addr n i s =
     (if i < n
      then let n1 = min (n - i) WRITE_MAX; ip = f_ip (ftable s f)
           in bnd (begin_op s) (\<lambda>s.
              bnd (ilock ip s) (\<lambda>s.
              bnd (writei ip (USrc (addr + of_int i)) (f_off (ftable s f)) (of_int n1) s) (\<lambda>(r, s).
                let s = (if r > 0 then upd_file f (\<lambda>x. x\<lparr>f_off := f_off x + of_int r\<rparr>) s else s)
                in bnd (iunlock ip s) (\<lambda>s.
                   bnd (end_op s) (\<lambda>s.
                     if r \<noteq> n1 then Inr (i, s) else filewrite_loop f addr n (i + r) s)))))
      else Inr (i, s))"
  by pat_completeness auto
termination
  by (relation "measure (\<lambda>(f, addr, n, i, s). nat (n - i))", rule wf_measure)
    (simp only: in_measure case_prod_conv, linarith)

declare filewrite_loop.simps [simp del]

definition filewrite :: "nat \<Rightarrow> u64 \<Rightarrow> int \<Rightarrow> 'a ksys_scheme \<Rightarrow> (cpass \<times> 'a ksys_scheme) res" where
  "filewrite f addr n s =
     (let x = ftable s f
      in if \<not> f_writable x then Inr (CRet (-1), s)
         else case f_type x of
                FD_PIPE \<Rightarrow>
                  bnd (pipewrite (f_pipe x) addr n s) (\<lambda>(r, s).
                    Inr (case r of Ret i \<Rightarrow> CRet i | Slept i \<Rightarrow> CSlept i 0, s))
              | FD_DEVICE \<Rightarrow>
                  if no_device x s then Inr (CRet (-1), s) else consolewrite (USrc addr) n s
              | FD_INODE \<Rightarrow>
                  bnd (filewrite_loop f addr n 0 s) (\<lambda>(i, s). Inr (CRet (if i = n then n else -1), s))
              | FD_NONE \<Rightarrow> Inl (Panic ''filewrite''))"

end
