(* ===== verification/Proc.thy ===== *)
theory Proc
  imports File
begin

text \<open>
  The life of processes, the rest of \<^verbatim>\<open>kernel/proc.c\<close>: creation, growth, \<^verbatim>\<open>fork\<close>, \<^verbatim>\<open>exit\<close> and
  \<^verbatim>\<open>wait\<close>, the idle process and the first process.  The record \<open>image\<close> holds the addresses
  that the linker gives to code and to the end of the kernel.  The trap frame of a process is a
  page of memory, read and written through its offsets.
\<close>

record image =
  im_end :: u64
  im_etext :: u64
  im_trampoline :: u64
  im_uservec :: u64
  im_userret :: u64
  im_forkret :: u64
  im_idle_main :: u64
  im_usertrap :: u64
  im_kernelvec :: u64

abbreviation (input) TF_EPC :: u64 where "TF_EPC \<equiv> 24"
abbreviation (input) TF_SP :: u64 where "TF_SP \<equiv> 48"
abbreviation (input) TF_A0 :: u64 where "TF_A0 \<equiv> 112"
abbreviation (input) TF_A1 :: u64 where "TF_A1 \<equiv> 120"
abbreviation (input) TF_A7 :: u64 where "TF_A7 \<equiv> 168"

definition k_upd :: "nat \<Rightarrow> (proc \<Rightarrow> proc) \<Rightarrow> 'a kern_scheme \<Rightarrow> 'a kern_scheme" where
  "k_upd p f s = s\<lparr>k_sched := upd_proc p f (k_sched s)\<rparr>"

definition the_proc :: "nat \<Rightarrow> 'a kern_scheme \<Rightarrow> proc" where
  "the_proc p s = procs (k_sched s) p"

definition tf_get :: "nat \<Rightarrow> u64 \<Rightarrow> 'a kern_scheme \<Rightarrow> u64" where
  "tf_get p off s = load64 (pmem (k_phys s)) (p_trapframe (the_proc p s) + off)"

definition tf_set :: "nat \<Rightarrow> u64 \<Rightarrow> u64 \<Rightarrow> 'a kern_scheme \<Rightarrow> 'a kern_scheme" where
  "tf_set p off v s =
     s\<lparr>k_phys := (k_phys s)\<lparr>pmem := store64 (p_trapframe (the_proc p s) + off) v (pmem (k_phys s))\<rparr>\<rparr>"

definition on_phys :: "(phys \<Rightarrow> ('r \<times> phys) res) \<Rightarrow> 'a kern_scheme \<Rightarrow> ('r \<times> 'a kern_scheme) res" where
  "on_phys f s = bnd (f (k_phys s)) (\<lambda>(r, m). Inr (r, s\<lparr>k_phys := m\<rparr>))"

definition in_phys :: "(phys \<Rightarrow> phys res) \<Rightarrow> 'a kern_scheme \<Rightarrow> 'a kern_scheme res" where
  "in_phys f s = bnd (f (k_phys s)) (\<lambda>m. Inr (s\<lparr>k_phys := m\<rparr>))"

text \<open>\<^verbatim>\<open>safestrcpy\<close> into the sixteen bytes of a name.\<close>

definition cut_name :: "byte list \<Rightarrow> byte list" where
  "cut_name bs = take 15 (takeWhile (\<lambda>c. c \<noteq> 0) bs)"

section \<open>Page tables of processes\<close>

definition proc_pagetable :: "image \<Rightarrow> u64 \<Rightarrow> phys \<Rightarrow> (u64 \<times> phys) res" where
  "proc_pagetable im trapframe m =
     (let (pagetable, m) = uvmcreate m
      in if pagetable = 0 then Inr (0, m)
         else bnd (mappages pagetable TRAMPOLINE PGSIZE (im_trampoline im) (PTE_R OR PTE_X) m) (\<lambda>(r, m).
              if r < 0 then bnd (uvmfree (im_end im) pagetable 0 m) (\<lambda>m. Inr (0, m))
              else bnd (mappages pagetable TRAPFRAME PGSIZE trapframe (PTE_R OR PTE_W) m) (\<lambda>(r, m).
                   if r < 0
                   then bnd (uvmunmap (im_end im) pagetable TRAMPOLINE 1 False m) (\<lambda>m.
                        bnd (uvmfree (im_end im) pagetable 0 m) (\<lambda>m. Inr (0, m)))
                   else Inr (pagetable, m))))"

definition proc_freepagetable :: "image \<Rightarrow> u64 \<Rightarrow> u64 \<Rightarrow> phys \<Rightarrow> phys res" where
  "proc_freepagetable im pagetable sz m =
     bnd (uvmunmap (im_end im) pagetable TRAMPOLINE 1 False m) (\<lambda>m.
     bnd (uvmunmap (im_end im) pagetable TRAPFRAME 1 False m) (\<lambda>m.
       uvmfree (im_end im) pagetable sz m))"

definition freeproc :: "image \<Rightarrow> nat \<Rightarrow> 'a kern_scheme \<Rightarrow> 'a kern_scheme res" where
  "freeproc im p s =
     bnd (if p_trapframe (the_proc p s) \<noteq> 0
          then in_phys (kfree (im_end im) (p_trapframe (the_proc p s))) s else Inr s) (\<lambda>s.
     let s = k_upd p (\<lambda>x. x\<lparr>p_trapframe := 0\<rparr>) s
     in bnd (if p_pagetable (the_proc p s) \<noteq> 0
             then in_phys (proc_freepagetable im (p_pagetable (the_proc p s)) (p_sz (the_proc p s))) s
             else Inr s) (\<lambda>s.
          Inr (k_upd p (\<lambda>x. x\<lparr>p_pagetable := 0, p_sz := 0, p_pid := 0, p_parent := None, p_name := [],
                              p_chan := None, p_killed := False, p_xstate := 0, p_state := UNUSED\<rparr>) s)))"

definition new_context :: "u64 \<Rightarrow> u64 \<Rightarrow> ctxt" where
  "new_context ra sp = \<lparr>ctx_ra = ra, ctx_sp = sp, ctx_s = (\<lambda>_. 0)\<rparr>"

definition allocproc :: "image \<Rightarrow> 'a kern_scheme \<Rightarrow> (nat option \<times> 'a kern_scheme) res" where
  "allocproc im s =
     (case find (\<lambda>p. p_state (the_proc p s) = UNUSED) [0..<NPROC] of
        None \<Rightarrow> Inr (None, s)
      | Some p \<Rightarrow>
          let (pid, d) = allocpid (k_sched s);
              s = k_upd p (\<lambda>x. x\<lparr>p_pid := pid, p_state := USED, p_base_prio := PRIO_DEFAULT, p_prio := PRIO_DEFAULT,
                                 p_wait_ticks := 0, p_rq_next := None\<rparr>) (s\<lparr>k_sched := d\<rparr>);
              (tf, m) = kalloc (k_phys s);
              s = k_upd p (\<lambda>x. x\<lparr>p_trapframe := tf\<rparr>) (s\<lparr>k_phys := m\<rparr>)
          in if tf = 0 then bnd (freeproc im p s) (\<lambda>s. Inr (None, s))
             else bnd (on_phys (proc_pagetable im tf) s) (\<lambda>(pt, s).
                  let s = k_upd p (\<lambda>x. x\<lparr>p_pagetable := pt\<rparr>) s
                  in if pt = 0 then bnd (freeproc im p s) (\<lambda>s. Inr (None, s))
                     else Inr (Some p, k_upd p (\<lambda>x. x\<lparr>p_context :=
                            new_context (im_forkret im) (p_kstack x + PGSIZE)\<rparr>) s)))"

section \<open>Starting up\<close>

definition procinit :: "'a ksys_scheme \<Rightarrow> 'a ksys_scheme" where
  "procinit s =
     (let d = fold (\<lambda>p. upd_proc p (\<lambda>x. x\<lparr>p_state := UNUSED, p_kstack := KSTACK p\<rparr>)) [0..<NPROC] (k_sched s)
      in s\<lparr>k_sched := prio_init d, k_sync := rw_table_init (sem_table_init (k_sync s))\<rparr>)"

definition initcode :: "byte list" where
  "initcode =
    [0x17, 0x05, 0x00, 0x00, 0x13, 0x05, 0x45, 0x02,
     0x97, 0x05, 0x00, 0x00, 0x93, 0x85, 0x35, 0x02,
     0x93, 0x08, 0x70, 0x00, 0x73, 0x00, 0x00, 0x00,
     0x93, 0x08, 0x20, 0x00, 0x73, 0x00, 0x00, 0x00,
     0xef, 0xf0, 0x9f, 0xff, 0x2f, 0x69, 0x6e, 0x69,
     0x74, 0x00, 0x00, 0x24, 0x00, 0x00, 0x00, 0x00,
     0x00, 0x00, 0x00, 0x00]"

definition cbytes :: "string \<Rightarrow> byte list" where
  "cbytes = map of_char"

text \<open>\<^verbatim>\<open>userinit\<close> follows the pointer that \<^verbatim>\<open>allocproc\<close> returns without a check.\<close>

definition userinit :: "image \<Rightarrow> 'a ksys_scheme \<Rightarrow> 'a ksys_scheme res" where
  "userinit im s =
     bnd (allocproc im s) (\<lambda>(r, s).
       case r of
         None \<Rightarrow> Inl OutOfBounds
       | Some p \<Rightarrow>
           bnd (in_phys (uvmfirst (p_pagetable (the_proc p s)) initcode)
                 (s\<lparr>k_sched := (k_sched s)\<lparr>s_initproc := Some p\<rparr>\<rparr>)) (\<lambda>s.
           let s = k_upd p (\<lambda>x. x\<lparr>p_sz := PGSIZE\<rparr>) s;
               s = tf_set p TF_EPC 0 s;
               s = tf_set p TF_SP PGSIZE s;
               s = k_upd p (\<lambda>x. x\<lparr>p_name := cut_name (cbytes ''initcode'')\<rparr>) s
           in bnd (namei (cbytes ''/'') s) (\<lambda>(cwd, s).
              let s = k_upd p (\<lambda>x. x\<lparr>p_cwd := cwd, p_state := RUNNABLE\<rparr>) s
              in Inr (s\<lparr>k_sched := prio_enqueue p (k_sched s)\<rparr>))))"

definition alloc_idleproc :: "image \<Rightarrow> 'a kern_scheme \<Rightarrow> (nat \<times> 'a kern_scheme) res" where
  "alloc_idleproc im s =
     (case find (\<lambda>p. p_state (the_proc p s) = UNUSED) [0..<NPROC] of
        None \<Rightarrow> Inl (Panic ''alloc_idleproc: no free proc'')
      | Some p \<Rightarrow>
          let s = k_upd p (\<lambda>x. x\<lparr>p_pid := 0, p_name := cut_name (cbytes ''idle''), p_state := RUNNABLE, p_prio := PRIO_MAX,
                                p_base_prio := PRIO_MAX, p_wait_ticks := 0, p_rq_next := None\<rparr>) s;
              (tf, m) = kalloc (k_phys s);
              s = k_upd p (\<lambda>x. x\<lparr>p_trapframe := tf\<rparr>) (s\<lparr>k_phys := m\<rparr>)
          in if tf = 0 then Inl (Panic ''idle trapframe'')
             else bnd (on_phys (proc_pagetable im tf) s) (\<lambda>(pt, s).
                  let s = k_upd p (\<lambda>x. x\<lparr>p_pagetable := pt\<rparr>) s
                  in if pt = 0 then Inl (Panic ''idle pagetable'')
                     else Inr (p, k_upd p (\<lambda>x. x\<lparr>p_context :=
                            new_context (im_idle_main im) (p_kstack x + PGSIZE)\<rparr>) s)))"

text \<open>\<^verbatim>\<open>scheduler\<close> hands the processor to the idle process and does not return.\<close>

definition scheduler :: "image \<Rightarrow> 'a kern_scheme \<Rightarrow> 'a kern_scheme res" where
  "scheduler im s =
     (let s = s\<lparr>k_sched := set_cpu (\<lambda>c. c\<lparr>c_proc := None, c_preempt_pending := False\<rparr>) (k_sched s)\<rparr>
      in bnd (alloc_idleproc im s) (\<lambda>(p, s).
           Inr (s\<lparr>k_sched := set_cpu (\<lambda>c. c\<lparr>c_idleproc := Some p, c_proc := Some p\<rparr>) (k_sched s)\<rparr>)))"

text \<open>One round of the loop of the idle process.\<close>

definition idle_main :: "'a kern_scheme \<Rightarrow> 'a kern_scheme res" where
  "idle_main s = bnd (schedule (k_sched s)) (\<lambda>d. Inr (s\<lparr>k_sched := d\<rparr>))"

text \<open>The first process to return to user space sets up the file system.\<close>

definition forkret :: "'a ksys_scheme \<Rightarrow> 'a ksys_scheme res" where
  "forkret s =
     (if k_first s then bnd (fsinit ROOTDEV s) (\<lambda>s. Inr (s\<lparr>k_first := False\<rparr>)) else Inr s)"

section \<open>Memory, fork, exit and wait\<close>

definition growproc :: "image \<Rightarrow> int \<Rightarrow> 'a kern_scheme \<Rightarrow> (int \<times> 'a kern_scheme) res" where
  "growproc im n s =
     k_proc s (\<lambda>p.
       let sz = p_sz (the_proc p s); pt = p_pagetable (the_proc p s)
       in if n > 0
          then bnd (on_phys (uvmalloc (im_end im) pt sz (sz + of_int n) PTE_W) s) (\<lambda>(sz, s).
                 if sz = 0 then Inr (-1, s) else Inr (0, k_upd p (\<lambda>x. x\<lparr>p_sz := sz\<rparr>) s))
          else if n < 0
          then bnd (on_phys (uvmdealloc (im_end im) pt sz (sz + of_int n)) s) (\<lambda>(sz, s).
                 Inr (0, k_upd p (\<lambda>x. x\<lparr>p_sz := sz\<rparr>) s))
          else Inr (0, s))"

fun dup_files :: "nat \<Rightarrow> nat \<Rightarrow> nat list \<Rightarrow> 'a ksys_scheme \<Rightarrow> 'a ksys_scheme res" where
  "dup_files p np [] s = Inr s"
| "dup_files p np (i # is) s =
     (case p_ofile (the_proc p s) i of
        None \<Rightarrow> dup_files p np is s
      | Some f \<Rightarrow>
          bnd (filedup f s) (\<lambda>s.
            dup_files p np is (k_upd np (\<lambda>x. x\<lparr>p_ofile := (p_ofile x)(i := Some f)\<rparr>) s)))"

definition copy_trapframe :: "nat \<Rightarrow> nat \<Rightarrow> 'a kern_scheme \<Rightarrow> 'a kern_scheme" where
  "copy_trapframe p np s =
     (let m = pmem (k_phys s)
      in s\<lparr>k_phys := (k_phys s)\<lparr>pmem :=
           write_bytes (p_trapframe (the_proc np s)) (bytes m (p_trapframe (the_proc p s)) 288) m\<rparr>\<rparr>)"

definition fork :: "image \<Rightarrow> 'a ksys_scheme \<Rightarrow> (int \<times> 'a ksys_scheme) res" where
  "fork im s =
     k_proc s (\<lambda>p. bnd (allocproc im s) (\<lambda>(r, s).
       case r of
         None \<Rightarrow> Inr (-1, s)
       | Some np \<Rightarrow>
           bnd (on_phys (uvmcopy (im_end im) (p_pagetable (the_proc p s)) (p_pagetable (the_proc np s))
                           (p_sz (the_proc p s))) s) (\<lambda>(r, s).
           if r < 0 then bnd (freeproc im np s) (\<lambda>s. Inr (-1, s))
           else let s = k_upd np (\<lambda>x. x\<lparr>p_sz := p_sz (the_proc p s)\<rparr>) s;
                    s = copy_trapframe p np s;
                    s = tf_set np TF_A0 0 s
                in bnd (dup_files p np [0..<NOFILE] s) (\<lambda>s.
                   case p_cwd (the_proc p s) of
                     None \<Rightarrow> Inl OutOfBounds
                   | Some cwd \<Rightarrow>
                       let s = snd (idup cwd s);
                           s = k_upd np (\<lambda>x. x\<lparr>p_cwd := Some cwd, p_name := cut_name (p_name (the_proc p s))\<rparr>) s;
                           pid = p_pid (the_proc np s);
                           s = k_upd np (\<lambda>x. x\<lparr>p_parent := Some p\<rparr>) s;
                           s = k_upd np (\<lambda>x. x\<lparr>p_state := RUNNABLE, p_prio := p_prio (the_proc p s),
                                               p_wait_ticks := 0\<rparr>) s
                       in Inr (pid, s\<lparr>k_sched := prio_enqueue np (k_sched s)\<rparr>)))))"

fun close_files :: "u64 \<Rightarrow> nat \<Rightarrow> nat list \<Rightarrow> 'a ksys_scheme \<Rightarrow> 'a ksys_scheme res" where
  "close_files kend p [] s = Inr s"
| "close_files kend p (fd # fds) s =
     (case p_ofile (the_proc p s) fd of
        None \<Rightarrow> close_files kend p fds s
      | Some f \<Rightarrow>
          bnd (fileclose kend f s) (\<lambda>s.
            close_files kend p fds (k_upd p (\<lambda>x. x\<lparr>p_ofile := (p_ofile x)(fd := None)\<rparr>) s)))"

definition exit :: "image \<Rightarrow> int \<Rightarrow> 'a ksys_scheme \<Rightarrow> 'a ksys_scheme res" where
  "exit im status s =
     k_proc s (\<lambda>p.
       if s_initproc (k_sched s) = Some p then Inl (Panic ''init exiting'')
       else bnd (close_files (im_end im) p [0..<NOFILE] s) (\<lambda>s.
            bnd (begin_op s) (\<lambda>s.
            bnd (case p_cwd (the_proc p s) of None \<Rightarrow> Inl OutOfBounds | Some cwd \<Rightarrow> iput cwd s) (\<lambda>s.
            bnd (end_op s) (\<lambda>s.
              let s = k_upd p (\<lambda>x. x\<lparr>p_cwd := None\<rparr>) s
              in bnd (exit_zombie status p (k_sched s)) (\<lambda>d. Inr (s\<lparr>k_sched := d\<rparr>)))))))"

text \<open>One pass of \<^verbatim>\<open>wait\<close>: it returns, or sleeps on the address of the caller.\<close>

definition wait :: "image \<Rightarrow> u64 \<Rightarrow> 'a kern_scheme \<Rightarrow> (pass \<times> 'a kern_scheme) res" where
  "wait im addr s =
     k_proc s (\<lambda>p.
       case find (\<lambda>pp. p_parent (the_proc pp s) = Some p \<and> p_state (the_proc pp s) = ZOMBIE) [0..<NPROC] of
         Some pp \<Rightarrow>
           let pid = p_pid (the_proc pp s)
           in bnd (if addr \<noteq> 0
                   then on_phys (copyout (k_pt p s) addr (le_bytes 4 (of_int (p_xstate (the_proc pp s)) :: u32))) s
                   else Inr (0, s)) (\<lambda>(r, s).
              if r < 0 then Inr (Ret (-1), s)
              else bnd (freeproc im pp s) (\<lambda>s. Inr (Ret pid, s)))
       | None \<Rightarrow>
           if (\<forall>pp \<in> set [0..<NPROC]. p_parent (the_proc pp s) \<noteq> Some p) \<or> killed p (k_sched s)
           then Inr (Ret (-1), s)
           else bnd (k_sleep (Ch_proc p) s) (\<lambda>s. Inr (Slept 0, s)))"

section \<open>Printing the stack\<close>

text \<open>\<^verbatim>\<open>backtrace\<close> starts from the frame pointer in register \<^verbatim>\<open>s0\<close>.  Each frame it visits has a
  higher address than the one before.\<close>

function backtrace_loop :: "u64 \<Rightarrow> 'a ckern_scheme \<Rightarrow> 'a ckern_scheme res" where
  "backtrace_loop fp s =
     (if fp \<noteq> 0 \<and> fp \<ge> KERNBASE
      then let ret_addr = load64 (pmem (k_phys s)) (fp + 8)
           in bnd (printf ''%p\<newline>'' [ALong ret_addr] s) (\<lambda>s.
                let nfp = load64 (pmem (k_phys s)) fp
                in if nfp \<le> fp \<or> nfp AND 7 \<noteq> 0 then Inr s else backtrace_loop nfp s)
      else Inr s)"
  by pat_completeness auto
termination
proof (relation "measure (\<lambda>(fp, s). 2 ^ 64 - unat fp)")
  fix fp nfp :: u64 and t t' :: "'a ckern_scheme"
  assume "\<not> (nfp \<le> fp \<or> nfp AND 7 \<noteq> 0)"
  then have "unat fp < unat nfp" by (simp add: word_less_nat_alt not_le)
  moreover have "unat nfp < 2 ^ 64" using unsigned_less [of nfp, where ?'a = nat] by simp
  ultimately show "((nfp, t), fp, t') \<in> measure (\<lambda>(fp, s). 2 ^ 64 - unat fp)"
    by simp
qed simp

declare backtrace_loop.simps [simp del]

definition backtrace :: "u64 \<Rightarrow> 'a ckern_scheme \<Rightarrow> 'a ckern_scheme res" where
  "backtrace s0 s = backtrace_loop s0 s"

end
