(* ===== verification/Exec.thy ===== *)
theory Exec
  imports Proc
begin

text \<open>
  Loading a program, \<^verbatim>\<open>kernel/exec.c\<close>.  The arguments are the addresses of the kernel pages that
  hold the argument strings.  The ELF header and the program headers are decoded from the bytes
  of the file.
\<close>

definition get64 :: "byte list \<Rightarrow> nat \<Rightarrow> u64" where
  "get64 d off = le_word (take 8 (drop off d))"

record elfhdr =
  e_magic :: u32
  e_entry :: u64
  e_phoff :: u64
  e_phnum :: u16

record proghdr =
  ph_type :: u32
  ph_flags :: u32
  ph_off :: u64
  ph_vaddr :: u64
  ph_filesz :: u64
  ph_memsz :: u64

definition dec_elfhdr :: "byte list \<Rightarrow> elfhdr" where
  "dec_elfhdr d = \<lparr>e_magic = get32 d 0, e_entry = get64 d 24, e_phoff = get64 d 32, e_phnum = get16 d 56\<rparr>"

definition dec_proghdr :: "byte list \<Rightarrow> proghdr" where
  "dec_proghdr d = \<lparr>ph_type = get32 d 0, ph_flags = get32 d 4, ph_off = get64 d 8, ph_vaddr = get64 d 16,
     ph_filesz = get64 d 32, ph_memsz = get64 d 40\<rparr>"

abbreviation (input) ELF_MAGIC :: u32 where "ELF_MAGIC \<equiv> 0x464C457F"
abbreviation (input) ELF_PROG_LOAD :: u32 where "ELF_PROG_LOAD \<equiv> 1"
abbreviation (input) MAXARG :: nat where "MAXARG \<equiv> 32"
abbreviation (input) USERSTACK :: u64 where "USERSTACK \<equiv> 1"

definition flags2perm :: "u32 \<Rightarrow> u64" where
  "flags2perm flags =
     (let perm = (if flags AND 1 \<noteq> 0 then PTE_X else 0)
      in if flags AND 2 \<noteq> 0 then perm OR PTE_W else perm)"

section \<open>Loading segments\<close>

text \<open>The counter \<^verbatim>\<open>i\<close> is an unsigned integer and may wrap.\<close>

partial_function (option) loadseg_loop ::
  "u64 \<Rightarrow> u64 \<Rightarrow> nat \<Rightarrow> u32 \<Rightarrow> u32 \<Rightarrow> u32 \<Rightarrow> 'a fkern_scheme \<Rightarrow> (int \<times> 'a fkern_scheme) res option" where
  "loadseg_loop pagetable va ip off sz i s =
     (if i < sz
      then case walkaddr pagetable (va + ucast i) (k_phys s) of
             Inl e \<Rightarrow> Some (Inl e)
           | Inr pa \<Rightarrow>
               if pa = 0 then Some (Inl (Panic ''loadseg: address should exist''))
               else let n = (if sz - i < 4096 then sz - i else 4096)
                    in case readi ip (KDst pa) (off + i) n s of
                         Inl e \<Rightarrow> Some (Inl e)
                       | Inr r \<Rightarrow>
                           if of_int (fst r) \<noteq> n then Some (Inr (-1, snd (snd r)))
                           else loadseg_loop pagetable va ip off sz (i + 4096) (snd (snd r))
      else Some (Inr (0, s)))"

definition loadseg :: "u64 \<Rightarrow> u64 \<Rightarrow> nat \<Rightarrow> u32 \<Rightarrow> u32 \<Rightarrow> 'a fkern_scheme \<Rightarrow> (int \<times> 'a fkern_scheme) res" where
  "loadseg pagetable va ip off sz s = of_loop (loadseg_loop pagetable va ip off sz 0 s)"

text \<open>The program headers, at the given offsets; the result tells whether all went well, and the
  size reached.\<close>

fun load_segs :: "image \<Rightarrow> u64 \<Rightarrow> nat \<Rightarrow> u32 list \<Rightarrow> u64 \<Rightarrow> 'a fkern_scheme \<Rightarrow> (bool \<times> u64 \<times> 'a fkern_scheme) res" where
  "load_segs im pagetable ip [] sz s = Inr (True, sz, s)"
| "load_segs im pagetable ip (off # offs) sz s =
     bnd (readi ip VDst off 56 s) (\<lambda>(r, d, s).
       let ph = dec_proghdr d
       in if r \<noteq> 56 then Inr (False, sz, s)
          else if ph_type ph \<noteq> ELF_PROG_LOAD then load_segs im pagetable ip offs sz s
          else if ph_memsz ph < ph_filesz ph then Inr (False, sz, s)
          else if ph_vaddr ph + ph_memsz ph < ph_vaddr ph then Inr (False, sz, s)
          else if ph_vaddr ph mod PGSIZE \<noteq> 0 then Inr (False, sz, s)
          else bnd (on_phys (uvmalloc (im_end im) pagetable sz (ph_vaddr ph + ph_memsz ph)
                               (flags2perm (ph_flags ph))) s) (\<lambda>(sz1, s).
               if sz1 = 0 then Inr (False, sz, s)
               else bnd (loadseg pagetable (ph_vaddr ph) ip (ucast (ph_off ph)) (ucast (ph_filesz ph)) s) (\<lambda>(r, s).
                    if r < 0 then Inr (False, sz1, s) else load_segs im pagetable ip offs sz1 s)))"

section \<open>The stack and the new image\<close>

fun push_args ::
  "u64 \<Rightarrow> u64 \<Rightarrow> u64 list \<Rightarrow> u64 \<Rightarrow> u64 list \<Rightarrow> 'a kern_scheme \<Rightarrow> (bool \<times> u64 \<times> u64 list \<times> 'a kern_scheme) res" where
  "push_args pagetable stackbase [] sp ustack s = Inr (True, sp, ustack, s)"
| "push_args pagetable stackbase (a # argv) sp ustack s =
     (if length ustack \<ge> MAXARG then Inr (False, sp, ustack, s)
      else case strlen a (pmem (k_phys s)) of
             None \<Rightarrow> Inl Diverges
           | Some n \<Rightarrow>
               let sp = sp - (of_nat n + 1);
                   sp = sp - sp mod 16
               in if sp < stackbase then Inr (False, sp, ustack, s)
                  else bnd (on_phys (copyout pagetable sp (bytes (pmem (k_phys s)) a (n + 1))) s) (\<lambda>(r, s).
                       if r < 0 then Inr (False, sp, ustack, s)
                       else push_args pagetable stackbase argv sp (ustack @ [sp]) s))"

definition exec_fail :: "image \<Rightarrow> u64 \<Rightarrow> u64 \<Rightarrow> nat option \<Rightarrow> 'a fkern_scheme \<Rightarrow> (int \<times> 'a fkern_scheme) res" where
  "exec_fail im pagetable sz ip s =
     bnd (if pagetable \<noteq> 0 then in_phys (proc_freepagetable im pagetable sz) s else Inr s) (\<lambda>s.
     bnd (case ip of None \<Rightarrow> Inr s | Some i \<Rightarrow> bnd (iunlockput i s) end_op) (\<lambda>s. Inr (-1, s)))"

definition exec_name :: "byte list \<Rightarrow> byte list" where
  "exec_name path = cut_name (rev (takeWhile (\<lambda>c. c \<noteq> SLASH) (rev path)))"

definition exec_commit ::
  "image \<Rightarrow> nat \<Rightarrow> byte list \<Rightarrow> u64 \<Rightarrow> u64 \<Rightarrow> u64 \<Rightarrow> u64 \<Rightarrow> 'a fkern_scheme \<Rightarrow> 'a fkern_scheme res" where
  "exec_commit im p path entry pagetable sz sp s =
     (let oldpagetable = p_pagetable (the_proc p s); oldsz = p_sz (the_proc p s);
          s = tf_set p TF_A1 sp s;
          s = k_upd p (\<lambda>x. x\<lparr>p_name := exec_name path, p_pagetable := pagetable, p_sz := sz\<rparr>) s;
          s = tf_set p TF_EPC entry s;
          s = tf_set p TF_SP sp s
      in in_phys (proc_freepagetable im oldpagetable oldsz) s)"

definition exec_stack ::
  "image \<Rightarrow> nat \<Rightarrow> byte list \<Rightarrow> u64 list \<Rightarrow> u64 \<Rightarrow> u64 \<Rightarrow> u64 \<Rightarrow> 'a fkern_scheme \<Rightarrow> (int \<times> 'a fkern_scheme) res" where
  "exec_stack im p path argv entry pagetable sz s =
     (let sz = PGROUNDUP sz
      in bnd (on_phys (uvmalloc (im_end im) pagetable sz (sz + (USERSTACK + 1) * PGSIZE) PTE_W) s) (\<lambda>(sz1, s).
         if sz1 = 0 then exec_fail im pagetable sz None s
         else bnd (in_phys (uvmclear pagetable (sz1 - (USERSTACK + 1) * PGSIZE)) s) (\<lambda>s.
              let stackbase = sz1 - USERSTACK * PGSIZE
              in bnd (push_args pagetable stackbase argv sz1 [] s) (\<lambda>(ok, sp, ustack, s).
                 if \<not> ok then exec_fail im pagetable sz1 None s
                 else if length ustack \<ge> MAXARG then Inl OutOfBounds
                 else let argc = length ustack;
                          sp = sp - (of_nat argc + 1) * 8;
                          sp = sp - sp mod 16
                      in if sp < stackbase then exec_fail im pagetable sz1 None s
                         else bnd (on_phys (copyout pagetable sp (concat (map (le_bytes 8) (ustack @ [0])))) s) (\<lambda>(r, s).
                              if r < 0 then exec_fail im pagetable sz1 None s
                              else bnd (exec_commit im p path entry pagetable sz1 sp s) (\<lambda>s.
                                   Inr (int argc, s)))))))"

definition exec :: "image \<Rightarrow> byte list \<Rightarrow> u64 list \<Rightarrow> 'a fkern_scheme \<Rightarrow> (int \<times> 'a fkern_scheme) res" where
  "exec im path argv s =
     k_proc s (\<lambda>p. bnd (begin_op s) (\<lambda>s. bnd (namei path s) (\<lambda>(r, s).
       case r of
         None \<Rightarrow> bnd (end_op s) (\<lambda>s. Inr (-1, s))
       | Some ip \<Rightarrow>
           bnd (ilock ip s) (\<lambda>s.
           bnd (readi ip VDst 0 64 s) (\<lambda>(r, d, s).
           let elf = dec_elfhdr d
           in if r \<noteq> 64 then exec_fail im 0 0 (Some ip) s
              else if e_magic elf \<noteq> ELF_MAGIC then exec_fail im 0 0 (Some ip) s
              else bnd (on_phys (proc_pagetable im (p_trapframe (the_proc p s))) s) (\<lambda>(pagetable, s).
                   if pagetable = 0 then exec_fail im 0 0 (Some ip) s
                   else bnd (load_segs im pagetable ip
                               (map (\<lambda>i. ucast (e_phoff elf) + of_nat (56 * i)) [0..<unat (e_phnum elf)]) 0 s)
                          (\<lambda>(ok, sz, s).
                        if \<not> ok then exec_fail im pagetable sz (Some ip) s
                        else bnd (iunlockput ip s) (\<lambda>s.
                             bnd (end_op s) (\<lambda>s.
                               exec_stack im p path argv (e_entry elf) pagetable sz s)))))))))"

end
