(* ===== verification/Sysfile.thy ===== *)
theory Sysfile
  imports Exec
begin

text \<open>
  System calls on files, \<^verbatim>\<open>kernel/sysfile.c\<close>, and the fetching of arguments,
  \<^verbatim>\<open>kernel/syscall.c\<close>.  A call returns the value for register \<^verbatim>\<open>a0\<close>, or \<open>None\<close> when the caller
  is asleep inside it.
\<close>

type_synonym 's sysret = "(u64 option \<times> 's) res"

abbreviation (input) MAXPATH :: nat where "MAXPATH \<equiv> 128"
abbreviation (input) O_RDONLY :: int where "O_RDONLY \<equiv> 0"
abbreviation (input) O_WRONLY :: int where "O_WRONLY \<equiv> 1"
abbreviation (input) O_RDWR :: int where "O_RDWR \<equiv> 2"
abbreviation (input) O_CREATE :: int where "O_CREATE \<equiv> 0x200"
abbreviation (input) O_TRUNC :: int where "O_TRUNC \<equiv> 0x400"

definition ret :: "int \<Rightarrow> 's \<Rightarrow> 's sysret" where
  "ret r s = Inr (Some (of_int r), s)"

definition of_pass :: "pass \<Rightarrow> u64 option" where
  "of_pass r = (case r of Ret i \<Rightarrow> Some (of_int i) | Slept _ \<Rightarrow> None)"

definition of_cpass :: "cpass \<Rightarrow> u64 option" where
  "of_cpass r = (case r of CRet i \<Rightarrow> Some (of_int i) | CSlept _ _ \<Rightarrow> None)"

section \<open>Arguments\<close>

definition argraw :: "nat \<Rightarrow> 'a kern_scheme \<Rightarrow> (u64 \<Rightarrow> 'r res) \<Rightarrow> 'r res" where
  "argraw n s f =
     k_proc s (\<lambda>p. if n < 6 then f (tf_get p (TF_A0 + 8 * of_nat n) s) else Inl (Panic ''argraw''))"

definition argint :: "nat \<Rightarrow> 'a kern_scheme \<Rightarrow> (int \<Rightarrow> 'r res) \<Rightarrow> 'r res" where
  "argint n s f = argraw n s (\<lambda>a. f (sint (ucast a :: u32)))"

definition argaddr :: "nat \<Rightarrow> 'a kern_scheme \<Rightarrow> (u64 \<Rightarrow> 'r res) \<Rightarrow> 'r res" where
  "argaddr n s f = argraw n s f"

definition fetchaddr :: "u64 \<Rightarrow> 'a kern_scheme \<Rightarrow> u64 option res" where
  "fetchaddr addr s =
     k_proc s (\<lambda>p.
       if addr \<ge> p_sz (the_proc p s) \<or> addr + 8 > p_sz (the_proc p s) then Inr None
       else bnd (copyin (k_pt p s) addr 8 (k_phys s)) (\<lambda>(r, bs).
              Inr (if r \<noteq> 0 then None else Some (le_word bs))))"

text \<open>The bytes stored in the buffer, and the string when the copy was successful.\<close>

definition fetchstr :: "u64 \<Rightarrow> nat \<Rightarrow> 'a kern_scheme \<Rightarrow> (byte list \<times> byte list option) res" where
  "fetchstr addr mx s =
     k_proc s (\<lambda>p.
       bnd (copyinstr (k_pt p s) addr mx (k_phys s)) (\<lambda>(r, bs).
         Inr (bs, if r < 0 then None else Some (takeWhile (\<lambda>c. c \<noteq> 0) bs))))"

definition argstr :: "nat \<Rightarrow> nat \<Rightarrow> 'a kern_scheme \<Rightarrow> (byte list option \<Rightarrow> 'r res) \<Rightarrow> 'r res" where
  "argstr n mx s f = argaddr n s (\<lambda>a. bnd (fetchstr a mx s) (\<lambda>(_, r). f r))"

definition argfd :: "nat \<Rightarrow> 'a kern_scheme \<Rightarrow> ((nat \<times> nat) option \<Rightarrow> 'r res) \<Rightarrow> 'r res" where
  "argfd n s f =
     argint n s (\<lambda>fd. k_proc s (\<lambda>p.
       if fd < 0 \<or> fd \<ge> int NOFILE then f None
       else case p_ofile (the_proc p s) (nat fd) of
              None \<Rightarrow> f None
            | Some file \<Rightarrow> f (Some (nat fd, file))))"

definition fdalloc :: "nat \<Rightarrow> 'a kern_scheme \<Rightarrow> (nat option \<times> 'a kern_scheme) res" where
  "fdalloc f s =
     k_proc s (\<lambda>p.
       case find (\<lambda>fd. p_ofile (the_proc p s) fd = None) [0..<NOFILE] of
         Some fd \<Rightarrow> Inr (Some fd, k_upd p (\<lambda>x. x\<lparr>p_ofile := (p_ofile x)(fd := Some f)\<rparr>) s)
       | None \<Rightarrow> Inr (None, s))"

definition clear_fd :: "nat \<Rightarrow> 'a kern_scheme \<Rightarrow> 'a kern_scheme res" where
  "clear_fd fd s = k_proc s (\<lambda>p. Inr (k_upd p (\<lambda>x. x\<lparr>p_ofile := (p_ofile x)(fd := None)\<rparr>) s))"

section \<open>Descriptors\<close>

definition sys_dup :: "'a ksys_scheme \<Rightarrow> 'a ksys_scheme sysret" where
  "sys_dup s =
     argfd 0 s (\<lambda>r. case r of
       None \<Rightarrow> ret (-1) s
     | Some (_, f) \<Rightarrow>
         bnd (fdalloc f s) (\<lambda>(fd, s).
           case fd of
             None \<Rightarrow> ret (-1) s
           | Some fd \<Rightarrow> bnd (filedup f s) (ret (int fd))))"

definition sys_read :: "'a ksys_scheme \<Rightarrow> 'a ksys_scheme sysret" where
  "sys_read s =
     argaddr 1 s (\<lambda>p. argint 2 s (\<lambda>n. argfd 0 s (\<lambda>r.
       case r of
         None \<Rightarrow> ret (-1) s
       | Some (_, f) \<Rightarrow> bnd (fileread f p n s) (\<lambda>(r, s). Inr (of_pass r, s)))))"

definition sys_write :: "'a ksys_scheme \<Rightarrow> 'a ksys_scheme sysret" where
  "sys_write s =
     argaddr 1 s (\<lambda>p. argint 2 s (\<lambda>n. argfd 0 s (\<lambda>r.
       case r of
         None \<Rightarrow> ret (-1) s
       | Some (_, f) \<Rightarrow> bnd (filewrite f p n s) (\<lambda>(r, s). Inr (of_cpass r, s)))))"

definition sys_close :: "u64 \<Rightarrow> 'a ksys_scheme \<Rightarrow> 'a ksys_scheme sysret" where
  "sys_close kend s =
     argfd 0 s (\<lambda>r. case r of
       None \<Rightarrow> ret (-1) s
     | Some (fd, f) \<Rightarrow> bnd (clear_fd fd s) (\<lambda>s. bnd (fileclose kend f s) (ret 0)))"

definition sys_fstat :: "byte list \<Rightarrow> 'a ksys_scheme \<Rightarrow> 'a ksys_scheme sysret" where
  "sys_fstat pad s =
     argaddr 1 s (\<lambda>st. argfd 0 s (\<lambda>r.
       case r of
         None \<Rightarrow> ret (-1) s
       | Some (_, f) \<Rightarrow> bnd (filestat pad f st s) (\<lambda>(r, s). ret r s)))"

section \<open>Links\<close>

definition upd_nlink :: "nat \<Rightarrow> u16 \<Rightarrow> 'a fkern_scheme \<Rightarrow> 'a fkern_scheme res" where
  "upd_nlink ip d s = iupdate ip (upd_inode ip (\<lambda>x. x\<lparr>i_nlink := i_nlink x + d\<rparr>) s)"

definition link_bad :: "nat \<Rightarrow> 'a fkern_scheme \<Rightarrow> 'a fkern_scheme sysret" where
  "link_bad ip s =
     bnd (ilock ip s) (\<lambda>s.
     bnd (upd_nlink ip (-1) s) (\<lambda>s.
     bnd (iunlockput ip s) (\<lambda>s.
     bnd (end_op s) (ret (-1)))))"

definition do_link :: "byte list \<Rightarrow> byte list \<Rightarrow> 'a fkern_scheme \<Rightarrow> 'a fkern_scheme sysret" where
  "do_link old new s =
     bnd (begin_op s) (\<lambda>s.
     bnd (namei old s) (\<lambda>(r, s).
     case r of
       None \<Rightarrow> bnd (end_op s) (ret (-1))
     | Some ip \<Rightarrow>
         bnd (ilock ip s) (\<lambda>s.
         if i_type (itable s ip) = T_DIR
         then bnd (iunlockput ip s) (\<lambda>s. bnd (end_op s) (ret (-1)))
         else bnd (upd_nlink ip 1 s) (\<lambda>s.
              bnd (iunlock ip s) (\<lambda>s.
              bnd (nameiparent new s) (\<lambda>(r, name, s).
              case r of
                None \<Rightarrow> link_bad ip s
              | Some dp \<Rightarrow>
                  bnd (ilock dp s) (\<lambda>s.
                  bnd (if i_dev (itable s dp) \<noteq> i_dev (itable s ip) then Inr (-1, s)
                       else dirlink dp name (i_inum (itable s ip)) s) (\<lambda>(r, s).
                  if r < 0 then bnd (iunlockput dp s) (link_bad ip)
                  else bnd (iunlockput dp s) (\<lambda>s.
                       bnd (iput ip s) (\<lambda>s.
                       bnd (end_op s) (ret 0)))))))))))"

definition sys_link :: "'a fkern_scheme \<Rightarrow> 'a fkern_scheme sysret" where
  "sys_link s =
     argstr 0 MAXPATH s (\<lambda>old.
       case old of
         None \<Rightarrow> ret (-1) s
       | Some old \<Rightarrow>
           argstr 1 MAXPATH s (\<lambda>new.
             case new of None \<Rightarrow> ret (-1) s | Some new \<Rightarrow> do_link old new s))"

fun isdirempty_loop :: "nat \<Rightarrow> nat list \<Rightarrow> 'a fkern_scheme \<Rightarrow> (bool \<times> 'a fkern_scheme) res" where
  "isdirempty_loop dp [] s = Inr (True, s)"
| "isdirempty_loop dp (off # offs) s =
     bnd (readi dp VDst (of_nat off) 16 s) (\<lambda>(r, de, s).
       if r \<noteq> 16 then Inl (Panic ''isdirempty: readi'')
       else if get16 de 0 \<noteq> 0 then Inr (False, s) else isdirempty_loop dp offs s)"

definition isdirempty :: "nat \<Rightarrow> 'a fkern_scheme \<Rightarrow> (bool \<times> 'a fkern_scheme) res" where
  "isdirempty dp s = isdirempty_loop dp (drop 2 (dir_offs (i_size (itable s dp)))) s"

definition unlink_bad :: "nat \<Rightarrow> 'a fkern_scheme \<Rightarrow> 'a fkern_scheme sysret" where
  "unlink_bad dp s = bnd (iunlockput dp s) (\<lambda>s. bnd (end_op s) (ret (-1)))"

abbreviation (input) DOT :: "byte list" where "DOT \<equiv> [46]"
abbreviation (input) DOTDOT :: "byte list" where "DOTDOT \<equiv> [46, 46]"

definition do_unlink :: "byte list \<Rightarrow> 'a fkern_scheme \<Rightarrow> 'a fkern_scheme sysret" where
  "do_unlink path s =
     bnd (begin_op s) (\<lambda>s.
     bnd (nameiparent path s) (\<lambda>(r, name, s).
     case r of
       None \<Rightarrow> bnd (end_op s) (ret (-1))
     | Some dp \<Rightarrow>
         bnd (ilock dp s) (\<lambda>s.
         if namecmp name DOT = 0 \<or> namecmp name DOTDOT = 0 then unlink_bad dp s
         else bnd (dirlookup dp name s) (\<lambda>(r, s).
         case r of
           None \<Rightarrow> unlink_bad dp s
         | Some (ip, off) \<Rightarrow>
             bnd (ilock ip s) (\<lambda>s.
             if sint (i_nlink (itable s ip)) < 1 then Inl (Panic ''unlink: nlink < 1'')
             else bnd (if i_type (itable s ip) = T_DIR then isdirempty ip s else Inr (True, s)) (\<lambda>(empty, s).
             if \<not> empty then bnd (iunlockput ip s) (unlink_bad dp)
             else bnd (writei dp (VSrc (replicate 16 0)) off 16 s) (\<lambda>(r, s).
             if r \<noteq> 16 then Inl (Panic ''unlink: writei'')
             else bnd (if i_type (itable s ip) = T_DIR then upd_nlink dp (-1) s else Inr s) (\<lambda>s.
             bnd (iunlockput dp s) (\<lambda>s.
             bnd (upd_nlink ip (-1) s) (\<lambda>s.
             bnd (iunlockput ip s) (\<lambda>s.
             bnd (end_op s) (ret 0))))))))))))"

definition sys_unlink :: "'a fkern_scheme \<Rightarrow> 'a fkern_scheme sysret" where
  "sys_unlink s =
     argstr 0 MAXPATH s (\<lambda>path. case path of None \<Rightarrow> ret (-1) s | Some path \<Rightarrow> do_unlink path s)"

section \<open>Creating and opening\<close>

definition create_fail :: "nat \<Rightarrow> nat \<Rightarrow> 'a fkern_scheme \<Rightarrow> (nat option \<times> 'a fkern_scheme) res" where
  "create_fail ip dp s =
     bnd (iupdate ip (upd_inode ip (\<lambda>x. x\<lparr>i_nlink := 0\<rparr>) s)) (\<lambda>s.
     bnd (iunlockput ip s) (\<lambda>s.
     bnd (iunlockput dp s) (\<lambda>s. Inr (None, s))))"

definition create_dots :: "nat \<Rightarrow> nat \<Rightarrow> 'a fkern_scheme \<Rightarrow> (bool \<times> 'a fkern_scheme) res" where
  "create_dots ip dp s =
     bnd (dirlink ip DOT (i_inum (itable s ip)) s) (\<lambda>(r, s).
       if r < 0 then Inr (False, s)
       else bnd (dirlink ip DOTDOT (i_inum (itable s dp)) s) (\<lambda>(r, s). Inr (\<not> r < 0, s)))"

definition create :: "byte list \<Rightarrow> u16 \<Rightarrow> u16 \<Rightarrow> u16 \<Rightarrow> 'a fkern_scheme \<Rightarrow> (nat option \<times> 'a fkern_scheme) res" where
  "create path type major minor s =
     bnd (nameiparent path s) (\<lambda>(r, name, s).
     case r of
       None \<Rightarrow> Inr (None, s)
     | Some dp \<Rightarrow>
         bnd (ilock dp s) (\<lambda>s.
         bnd (dirlookup dp name s) (\<lambda>(r, s).
         case r of
           Some (ip, _) \<Rightarrow>
             bnd (iunlockput dp s) (\<lambda>s.
             bnd (ilock ip s) (\<lambda>s.
             if type = T_FILE \<and> (i_type (itable s ip) = T_FILE \<or> i_type (itable s ip) = T_DEVICE)
             then Inr (Some ip, s)
             else bnd (iunlockput ip s) (\<lambda>s. Inr (None, s))))
         | None \<Rightarrow>
             bnd (ialloc (i_dev (itable s dp)) type s) (\<lambda>(r, s).
             case r of
               None \<Rightarrow> bnd (iunlockput dp s) (\<lambda>s. Inr (None, s))
             | Some ip \<Rightarrow>
                 bnd (ilock ip s) (\<lambda>s.
                 bnd (iupdate ip (upd_inode ip (\<lambda>x. x\<lparr>i_major := major, i_minor := minor, i_nlink := 1\<rparr>) s)) (\<lambda>s.
                 bnd (if type = T_DIR then create_dots ip dp s else Inr (True, s)) (\<lambda>(ok, s).
                 if \<not> ok then create_fail ip dp s
                 else bnd (dirlink dp name (i_inum (itable s ip)) s) (\<lambda>(r, s).
                 if r < 0 then create_fail ip dp s
                 else bnd (if type = T_DIR then upd_nlink dp 1 s else Inr s) (\<lambda>s.
                 bnd (iunlockput dp s) (\<lambda>s. Inr (Some ip, s)))))))))))"

definition open_bad :: "nat \<Rightarrow> 'a fkern_scheme \<Rightarrow> 'a fkern_scheme sysret" where
  "open_bad ip s = bnd (iunlockput ip s) (\<lambda>s. bnd (end_op s) (ret (-1)))"

text \<open>From the locked inode to the descriptor.\<close>

definition open_file :: "u64 \<Rightarrow> nat \<Rightarrow> int \<Rightarrow> 'a ksys_scheme \<Rightarrow> 'a ksys_scheme sysret" where
  "open_file kend ip omode s =
     (let x = itable s ip
      in if i_type x = T_DEVICE \<and> (sint (i_major x) < 0 \<or> sint (i_major x) \<ge> NDEV) then open_bad ip s
         else case filealloc s of
                (None, s) \<Rightarrow> open_bad ip s
              | (Some f, s) \<Rightarrow>
                  bnd (fdalloc f s) (\<lambda>(fd, s).
                    case fd of
                      None \<Rightarrow> bnd (fileclose kend f s) (open_bad ip)
                    | Some fd \<Rightarrow>
                        let s = (if i_type (itable s ip) = T_DEVICE
                                 then upd_file f (\<lambda>y. y\<lparr>f_type := FD_DEVICE, f_major := i_major (itable s ip)\<rparr>) s
                                 else upd_file f (\<lambda>y. y\<lparr>f_type := FD_INODE, f_off := 0\<rparr>) s);
                            s = upd_file f (\<lambda>y. y\<lparr>f_ip := ip, f_readable := (omode AND O_WRONLY = 0),
                                  f_writable := (omode AND O_WRONLY \<noteq> 0 \<or> omode AND O_RDWR \<noteq> 0)\<rparr>) s
                        in bnd (if omode AND O_TRUNC \<noteq> 0 \<and> i_type (itable s ip) = T_FILE then itrunc ip s
                                else Inr s) (\<lambda>s.
                           bnd (iunlock ip s) (\<lambda>s.
                           bnd (end_op s) (ret (int fd))))))"

definition do_open :: "u64 \<Rightarrow> byte list \<Rightarrow> int \<Rightarrow> 'a ksys_scheme \<Rightarrow> 'a ksys_scheme sysret" where
  "do_open kend path omode s =
     bnd (begin_op s) (\<lambda>s.
     if omode AND O_CREATE \<noteq> 0
     then bnd (create path T_FILE 0 0 s) (\<lambda>(r, s).
          case r of None \<Rightarrow> bnd (end_op s) (ret (-1)) | Some ip \<Rightarrow> open_file kend ip omode s)
     else bnd (namei path s) (\<lambda>(r, s).
          case r of
            None \<Rightarrow> bnd (end_op s) (ret (-1))
          | Some ip \<Rightarrow>
              bnd (ilock ip s) (\<lambda>s.
                if i_type (itable s ip) = T_DIR \<and> omode \<noteq> O_RDONLY then open_bad ip s
                else open_file kend ip omode s)))"

definition sys_open :: "u64 \<Rightarrow> 'a ksys_scheme \<Rightarrow> 'a ksys_scheme sysret" where
  "sys_open kend s =
     argint 1 s (\<lambda>omode. argstr 0 MAXPATH s (\<lambda>path.
       case path of None \<Rightarrow> ret (-1) s | Some path \<Rightarrow> do_open kend path omode s))"

definition make_node :: "byte list option \<Rightarrow> u16 \<Rightarrow> u16 \<Rightarrow> u16 \<Rightarrow> 'a fkern_scheme \<Rightarrow> 'a fkern_scheme sysret" where
  "make_node path type major minor s =
     bnd (case path of None \<Rightarrow> Inr (None, s) | Some path \<Rightarrow> create path type major minor s) (\<lambda>(r, s).
       case r of
         None \<Rightarrow> bnd (end_op s) (ret (-1))
       | Some ip \<Rightarrow> bnd (iunlockput ip s) (\<lambda>s. bnd (end_op s) (ret 0)))"

definition sys_mkdir :: "'a fkern_scheme \<Rightarrow> 'a fkern_scheme sysret" where
  "sys_mkdir s = bnd (begin_op s) (\<lambda>s. argstr 0 MAXPATH s (\<lambda>path. make_node path T_DIR 0 0 s))"

definition sys_mknod :: "'a fkern_scheme \<Rightarrow> 'a fkern_scheme sysret" where
  "sys_mknod s =
     bnd (begin_op s) (\<lambda>s.
       argint 1 s (\<lambda>major. argint 2 s (\<lambda>minor. argstr 0 MAXPATH s (\<lambda>path.
         make_node path T_DEVICE (of_int major) (of_int minor) s))))"

definition do_chdir :: "byte list option \<Rightarrow> 'a fkern_scheme \<Rightarrow> 'a fkern_scheme sysret" where
  "do_chdir path s =
     k_proc s (\<lambda>p.
     bnd (case path of None \<Rightarrow> Inr (None, s) | Some path \<Rightarrow> namei path s) (\<lambda>(r, s).
       case r of
         None \<Rightarrow> bnd (end_op s) (ret (-1))
       | Some ip \<Rightarrow>
           bnd (ilock ip s) (\<lambda>s.
           if i_type (itable s ip) \<noteq> T_DIR then bnd (iunlockput ip s) (\<lambda>s. bnd (end_op s) (ret (-1)))
           else bnd (iunlock ip s) (\<lambda>s.
                case p_cwd (the_proc p s) of
                  None \<Rightarrow> Inl OutOfBounds
                | Some cwd \<Rightarrow>
                    bnd (iput cwd s) (\<lambda>s.
                    bnd (end_op s) (\<lambda>s. ret 0 (k_upd p (\<lambda>x. x\<lparr>p_cwd := Some ip\<rparr>) s)))))))"

definition sys_chdir :: "'a fkern_scheme \<Rightarrow> 'a fkern_scheme sysret" where
  "sys_chdir s = bnd (begin_op s) (\<lambda>s. argstr 0 MAXPATH s (\<lambda>path. do_chdir path s))"

section \<open>Programs and pipes\<close>

fun fetch_args :: "u64 \<Rightarrow> nat list \<Rightarrow> u64 list \<Rightarrow> 'a kern_scheme \<Rightarrow> (bool \<times> u64 list \<times> 'a kern_scheme) res" where
  "fetch_args uargv [] argv s = Inr (False, argv, s)"
| "fetch_args uargv (i # is) argv s =
     bnd (fetchaddr (uargv + 8 * of_nat i) s) (\<lambda>r.
       case r of
         None \<Rightarrow> Inr (False, argv, s)
       | Some uarg \<Rightarrow>
           if uarg = 0 then Inr (True, argv, s)
           else let (a, m) = kalloc (k_phys s); s = s\<lparr>k_phys := m\<rparr>
                in if a = 0 then Inr (False, argv, s)
                   else bnd (fetchstr uarg 4096 s) (\<lambda>(bs, r).
                        let s = s\<lparr>k_phys := (k_phys s)\<lparr>pmem := write_bytes a bs (pmem (k_phys s))\<rparr>\<rparr>
                        in case r of
                             None \<Rightarrow> Inr (False, argv @ [a], s)
                           | Some _ \<Rightarrow> fetch_args uargv is (argv @ [a]) s))"

fun free_args :: "u64 \<Rightarrow> u64 list \<Rightarrow> 'a kern_scheme \<Rightarrow> 'a kern_scheme res" where
  "free_args kend [] s = Inr s"
| "free_args kend (a # argv) s = bnd (in_phys (kfree kend a) s) (free_args kend argv)"

definition sys_exec :: "image \<Rightarrow> 'a fkern_scheme \<Rightarrow> 'a fkern_scheme sysret" where
  "sys_exec im s =
     argaddr 1 s (\<lambda>uargv. argstr 0 MAXPATH s (\<lambda>path.
       case path of
         None \<Rightarrow> ret (-1) s
       | Some path \<Rightarrow>
           bnd (fetch_args uargv [0..<MAXARG] [] s) (\<lambda>(ok, argv, s).
             if \<not> ok then bnd (free_args (im_end im) argv s) (ret (-1))
             else bnd (exec im path argv s) (\<lambda>(r, s).
                  bnd (free_args (im_end im) argv s) (ret r)))))"

definition pipe_bad :: "u64 \<Rightarrow> nat \<Rightarrow> nat \<Rightarrow> 'a ksys_scheme \<Rightarrow> 'a ksys_scheme sysret" where
  "pipe_bad kend rfile wfile s = bnd (fileclose kend rfile s) (\<lambda>s. bnd (fileclose kend wfile s) (ret (-1)))"

definition sys_pipe :: "u64 \<Rightarrow> 'a ksys_scheme \<Rightarrow> 'a ksys_scheme sysret" where
  "sys_pipe kend s =
     k_proc s (\<lambda>p. argaddr 0 s (\<lambda>fdarray.
     bnd (pipealloc kend s) (\<lambda>(r, s).
     case r of
       None \<Rightarrow> ret (-1) s
     | Some (rfile, wfile) \<Rightarrow>
         bnd (fdalloc rfile s) (\<lambda>(fd0, s).
         case fd0 of
           None \<Rightarrow> pipe_bad kend rfile wfile s
         | Some fd0 \<Rightarrow>
             bnd (fdalloc wfile s) (\<lambda>(fd1, s).
             case fd1 of
               None \<Rightarrow> bnd (clear_fd fd0 s) (pipe_bad kend rfile wfile)
             | Some fd1 \<Rightarrow>
                 bnd (on_phys (copyout (k_pt p s) fdarray (le_bytes 4 (of_nat fd0 :: u32))) s) (\<lambda>(r, s).
                 bnd (if r < 0 then Inr (r, s)
                      else on_phys (copyout (k_pt p s) (fdarray + 4) (le_bytes 4 (of_nat fd1 :: u32))) s) (\<lambda>(r, s).
                 if r < 0
                 then bnd (clear_fd fd0 s) (\<lambda>s. bnd (clear_fd fd1 s) (pipe_bad kend rfile wfile))
                 else ret 0 s)))))))"

end
