(* ===== verification/Syscall.thy ===== *)
theory Syscall
  imports Sysfile
begin

text \<open>
  The remaining system calls, \<^verbatim>\<open>kernel/sysproc.c\<close>, and the dispatcher of
  \<^verbatim>\<open>kernel/syscall.c\<close>.  Inputs of a call that are not part of the kernel's state are collected in
  \<open>sysenv\<close>: the addresses of the kernel image, the frame pointer that \<^verbatim>\<open>backtrace\<close> reads, and the
  padding bytes of the structure that \<^verbatim>\<open>fstat\<close> copies out.
\<close>

record sysenv =
  se_image :: image
  se_fp :: u64
  se_pad :: "byte list"

section \<open>Locks and semaphores\<close>

text \<open>The tables of \<open>k_sync\<close> work on the scheduler of the kernel.\<close>

definition on_sync :: "(sync \<Rightarrow> (bool \<times> sync) res) \<Rightarrow> 'a ksys_scheme \<Rightarrow> (bool \<times> 'a ksys_scheme) res" where
  "on_sync f s =
     bnd (f ((k_sync s)\<lparr>sy_sched := k_sched s\<rparr>)) (\<lambda>(ok, y).
       Inr (ok, s\<lparr>k_sched := sy_sched y, k_sync := y\<rparr>))"

definition sync_ret :: "(sync \<Rightarrow> (bool \<times> sync) res) \<Rightarrow> 'a ksys_scheme \<Rightarrow> 'a ksys_scheme sysret" where
  "sync_ret f s = bnd (on_sync f s) (\<lambda>(ok, s). Inr (if ok then Some 0 else None, s))"

definition pure_sync :: "(sync \<Rightarrow> sync) \<Rightarrow> sync \<Rightarrow> (bool \<times> sync) res" where
  "pure_sync f y = Inr (True, f y)"

definition sys_rw_init :: "'a ksys_scheme \<Rightarrow> 'a ksys_scheme sysret" where
  "sys_rw_init s = argint 0 s (\<lambda>rid. sync_ret (pure_sync (rw_init_k rid)) s)"

definition sys_rw_rlock :: "'a ksys_scheme \<Rightarrow> 'a ksys_scheme sysret" where
  "sys_rw_rlock s = argint 0 s (\<lambda>rid. sync_ret (rw_rlock_k rid) s)"

definition sys_rw_runlock :: "'a ksys_scheme \<Rightarrow> 'a ksys_scheme sysret" where
  "sys_rw_runlock s = argint 0 s (\<lambda>rid. sync_ret (pure_sync (rw_runlock_k rid)) s)"

definition sys_rw_wlock :: "'a ksys_scheme \<Rightarrow> 'a ksys_scheme sysret" where
  "sys_rw_wlock s = argint 0 s (\<lambda>rid. sync_ret (rw_wlock_k rid) s)"

definition sys_rw_wunlock :: "'a ksys_scheme \<Rightarrow> 'a ksys_scheme sysret" where
  "sys_rw_wunlock s = argint 0 s (\<lambda>rid. sync_ret (pure_sync (rw_wunlock_k rid)) s)"

definition sys_sem_init :: "'a ksys_scheme \<Rightarrow> 'a ksys_scheme sysret" where
  "sys_sem_init s = argint 0 s (\<lambda>sid. argint 1 s (\<lambda>v. sync_ret (pure_sync (sem_init_k sid v)) s))"

definition sys_sem_wait :: "'a ksys_scheme \<Rightarrow> 'a ksys_scheme sysret" where
  "sys_sem_wait s = argint 0 s (\<lambda>sid. sync_ret (sem_wait_k sid) s)"

definition sys_sem_signal :: "'a ksys_scheme \<Rightarrow> 'a ksys_scheme sysret" where
  "sys_sem_signal s = argint 0 s (\<lambda>sid. sync_ret (pure_sync (sem_signal_k sid)) s)"

section \<open>Processes and time\<close>

text \<open>\<^verbatim>\<open>exit\<close> does not return to its caller.\<close>

definition sys_exit :: "image \<Rightarrow> 'a ksys_scheme \<Rightarrow> 'a ksys_scheme sysret" where
  "sys_exit im s = argint 0 s (\<lambda>n. bnd (exit im n s) (\<lambda>s. Inr (None, s)))"

definition sys_getpid :: "'a kern_scheme \<Rightarrow> 'a kern_scheme sysret" where
  "sys_getpid s = k_proc s (\<lambda>p. ret (p_pid (the_proc p s)) s)"

definition sys_fork :: "image \<Rightarrow> 'a ksys_scheme \<Rightarrow> 'a ksys_scheme sysret" where
  "sys_fork im s = bnd (fork im s) (\<lambda>(r, s). ret r s)"

definition sys_wait :: "image \<Rightarrow> 'a kern_scheme \<Rightarrow> 'a kern_scheme sysret" where
  "sys_wait im s = argaddr 0 s (\<lambda>p. bnd (wait im p s) (\<lambda>(r, s). Inr (of_pass r, s)))"

definition sys_sbrk :: "image \<Rightarrow> 'a kern_scheme \<Rightarrow> 'a kern_scheme sysret" where
  "sys_sbrk im s =
     argint 0 s (\<lambda>n. k_proc s (\<lambda>p.
       let addr = p_sz (the_proc p s)
       in bnd (growproc im n s) (\<lambda>(r, s). if r < 0 then ret (-1) s else Inr (Some addr, s))))"

text \<open>One pass of the waiting loop of \<^verbatim>\<open>sys_sleep\<close>; the comparison is unsigned.\<close>

definition sleep_pass :: "u32 \<Rightarrow> int \<Rightarrow> 'a kern_scheme \<Rightarrow> 'a kern_scheme sysret" where
  "sleep_pass ticks0 n s =
     (if k_ticks s - ticks0 < of_int n
      then k_proc s (\<lambda>p.
             if killed p (k_sched s) then ret (-1) s
             else bnd (k_sleep Ch_ticks s) (\<lambda>s. Inr (None, s)))
      else ret 0 s)"

definition sys_sleep :: "u64 \<Rightarrow> 'a ckern_scheme \<Rightarrow> 'a ckern_scheme sysret" where
  "sys_sleep fp s =
     argint 0 s (\<lambda>n.
       let n = (if n < 0 then 0 else n)
       in bnd (backtrace fp s) (\<lambda>s. sleep_pass (k_ticks s) n s))"

definition sys_pgpte :: "'a kern_scheme \<Rightarrow> 'a kern_scheme sysret" where
  "sys_pgpte s =
     k_proc s (\<lambda>p. argaddr 0 s (\<lambda>va.
       bnd (pgpte (k_pt p s) va (k_phys s)) (\<lambda>(pte, m).
         ret (if pte \<noteq> 0 then sint (ucast (load64 (pmem m) pte) :: u32) else 0) s)))"

text \<open>The indentation has room for sixteen characters.\<close>

function vmprint_rec :: "u64 \<Rightarrow> nat \<Rightarrow> nat \<Rightarrow> 'a ckern_scheme \<Rightarrow> 'a ckern_scheme res" where
  "vmprint_rec pagetable level i s =
     (if level \<ge> 8 then Inl OutOfBounds
      else if i \<ge> 512 then Inr s
      else let pte = load64 (pmem (k_phys s)) (pagetable + 8 * of_nat i)
           in if pte AND PTE_V \<noteq> 0
              then bnd (printf ''%s%p: pte %p pa %p\<newline>''
                         [AStr (Some (concat (replicate level ''..''))), ALong (push_bit 12 (of_nat i)), ALong pte,
                          ALong (PTE2PA pte)] s) (\<lambda>s.
                   bnd (if pte AND (PTE_R OR PTE_W OR PTE_X) = 0 then vmprint_rec (PTE2PA pte) (level + 1) 0 s
                        else Inr s)
                     (vmprint_rec pagetable level (i + 1)))
              else vmprint_rec pagetable level (i + 1) s)"
  by pat_completeness auto
termination
  by (relation "measures [\<lambda>(pt, level, i, s). 8 - level, \<lambda>(pt, level, i, s). 512 - i]") auto

declare vmprint_rec.simps [simp del]

definition vmprint :: "u64 \<Rightarrow> 'a ckern_scheme \<Rightarrow> 'a ckern_scheme res" where
  "vmprint pagetable s = bnd (printf ''page table %p\<newline>'' [ALong pagetable] s) (vmprint_rec pagetable 0 0)"

definition sys_kpgtbl :: "'a ckern_scheme \<Rightarrow> 'a ckern_scheme sysret" where
  "sys_kpgtbl s = k_proc s (\<lambda>p. bnd (vmprint (k_pt p s) s) (ret 0))"

definition sys_kill :: "'a kern_scheme \<Rightarrow> 'a kern_scheme sysret" where
  "sys_kill s = argint 0 s (\<lambda>pid. let (r, d) = kill pid (k_sched s) in ret r (s\<lparr>k_sched := d\<rparr>))"

definition sys_uptime :: "'a kern_scheme \<Rightarrow> 'a kern_scheme sysret" where
  "sys_uptime s = Inr (Some (ucast (k_ticks s)), s)"

section \<open>The dispatcher\<close>

definition syscalls :: "sysenv \<Rightarrow> int \<Rightarrow> ('a ksys_scheme \<Rightarrow> 'a ksys_scheme sysret) option" where
  "syscalls e num =
     (let im = se_image e; kend = im_end im
      in if num = 1 then Some (sys_fork im)
         else if num = 2 then Some (sys_exit im)
         else if num = 3 then Some (sys_wait im)
         else if num = 4 then Some (sys_pipe kend)
         else if num = 5 then Some sys_read
         else if num = 6 then Some sys_kill
         else if num = 7 then Some (sys_exec im)
         else if num = 8 then Some (sys_fstat (se_pad e))
         else if num = 9 then Some sys_chdir
         else if num = 10 then Some sys_dup
         else if num = 11 then Some sys_getpid
         else if num = 12 then Some (sys_sbrk im)
         else if num = 13 then Some (sys_sleep (se_fp e))
         else if num = 14 then Some sys_uptime
         else if num = 15 then Some (sys_open kend)
         else if num = 16 then Some sys_write
         else if num = 17 then Some sys_mknod
         else if num = 18 then Some sys_unlink
         else if num = 19 then Some sys_link
         else if num = 20 then Some sys_mkdir
         else if num = 21 then Some (sys_close kend)
         else if num = 33 then Some sys_pgpte
         else if num = 34 then Some sys_kpgtbl
         else if num = 35 then Some sys_sem_init
         else if num = 36 then Some sys_sem_wait
         else if num = 37 then Some sys_sem_signal
         else if num = 38 then Some sys_rw_init
         else if num = 39 then Some sys_rw_rlock
         else if num = 40 then Some sys_rw_runlock
         else if num = 41 then Some sys_rw_wlock
         else if num = 42 then Some sys_rw_wunlock
         else None)"

text \<open>The result tells whether the call has returned.\<close>

definition syscall :: "sysenv \<Rightarrow> 'a ksys_scheme \<Rightarrow> (bool \<times> 'a ksys_scheme) res" where
  "syscall e s =
     k_proc s (\<lambda>p.
       let num = sint (ucast (tf_get p TF_A7 s) :: u32)
       in case syscalls e num of
            Some f \<Rightarrow>
              bnd (f s) (\<lambda>(r, s).
                case r of None \<Rightarrow> Inr (False, s) | Some v \<Rightarrow> Inr (True, tf_set p TF_A0 v s))
          | None \<Rightarrow>
              bnd (printf ''%d %s: unknown sys call %d\<newline>''
                     [AInt (of_int (p_pid (the_proc p s))), AStr (Some (of_bytes (p_name (the_proc p s)))),
                      AInt (of_int num)] s) (\<lambda>s.
                Inr (True, tf_set p TF_A0 (-1) s)))"

end
