(* ===== verification/Trap.thy ===== *)
theory Trap
  imports Syscall
begin

text \<open>
  Traps and start-up, \<^verbatim>\<open>kernel/trap.c\<close>, \<^verbatim>\<open>kernel/plic.c\<close> and \<^verbatim>\<open>kernel/main.c\<close>, for hart 0.  The
  control registers that a trap sets are the argument \<open>csr\<close>; the interrupt that the controller
  hands out and the registers of the disk are arguments too.
\<close>

record csr =
  r_scause :: u64
  r_sepc :: u64
  r_stval :: u64
  r_sstatus :: u64
  r_satp :: u64
  r_tp :: u64

record trapenv =
  te_sys :: sysenv
  te_csr :: csr
  te_irq :: u32
  te_virtio :: "(nat \<times> u32) list \<Rightarrow> nat \<Rightarrow> u32"

abbreviation (input) PLIC :: u64 where "PLIC \<equiv> 0x0c000000"
abbreviation (input) UART0_IRQ :: u32 where "UART0_IRQ \<equiv> 10"
abbreviation (input) VIRTIO0_IRQ :: u32 where "VIRTIO0_IRQ \<equiv> 1"
abbreviation (input) SSTATUS_SPP :: u64 where "SSTATUS_SPP \<equiv> 0x100"
abbreviation (input) SSTATUS_SPIE :: u64 where "SSTATUS_SPIE \<equiv> 0x20"
abbreviation (input) SSTATUS_SIE :: u64 where "SSTATUS_SIE \<equiv> 2"

section \<open>The interrupt controller\<close>

definition plic_write :: "u64 \<Rightarrow> u32 \<Rightarrow> 'a ksys_scheme \<Rightarrow> 'a ksys_scheme" where
  "plic_write a v s = s\<lparr>k_plic := k_plic s @ [(a, v)]\<rparr>"

definition PLIC_SENABLE :: "u64 \<Rightarrow> u64" where
  "PLIC_SENABLE hart = PLIC + 0x2080 + hart * 0x100"

definition PLIC_SPRIORITY :: "u64 \<Rightarrow> u64" where
  "PLIC_SPRIORITY hart = PLIC + 0x201000 + hart * 0x2000"

definition PLIC_SCLAIM :: "u64 \<Rightarrow> u64" where
  "PLIC_SCLAIM hart = PLIC + 0x201004 + hart * 0x2000"

definition plicinit :: "'a ksys_scheme \<Rightarrow> 'a ksys_scheme" where
  "plicinit s = plic_write (PLIC + ucast VIRTIO0_IRQ * 4) 1 (plic_write (PLIC + ucast UART0_IRQ * 4) 1 s)"

definition plicinithart :: "u64 \<Rightarrow> 'a ksys_scheme \<Rightarrow> 'a ksys_scheme" where
  "plicinithart hart s =
     plic_write (PLIC_SPRIORITY hart) 0
       (plic_write (PLIC_SENABLE hart) (push_bit 10 1 OR push_bit 1 1) s)"

definition plic_complete :: "u64 \<Rightarrow> u32 \<Rightarrow> 'a ksys_scheme \<Rightarrow> 'a ksys_scheme" where
  "plic_complete hart irq s = plic_write (PLIC_SCLAIM hart) irq s"

section \<open>Interrupts and traps\<close>

definition devintr :: "trapenv \<Rightarrow> 'a ksys_scheme \<Rightarrow> (nat \<times> 'a ksys_scheme) res" where
  "devintr e s =
     (let scause = r_scause (te_csr e); irq = te_irq e
      in if scause = 0x8000000000000009
         then bnd (if irq = UART0_IRQ then uartintr s
                   else if irq = VIRTIO0_IRQ then virtio_disk_intr (te_virtio e) s
                   else if irq \<noteq> 0 then printf ''unexpected interrupt irq=%d\<newline>'' [AInt irq] s
                   else Inr s) (\<lambda>s.
              Inr (1, if irq \<noteq> 0 then plic_complete 0 irq s else s))
         else if scause = 0x8000000000000005
         then let (t, d) = clockintr (k_ticks s) (k_sched s) in Inr (2, s\<lparr>k_ticks := t, k_sched := d\<rparr>)
         else Inr (0, s))"

text \<open>The registers with which the trampoline enters user space.\<close>

record userregs =
  u_stvec :: u64
  u_sstatus :: u64
  u_sepc :: u64
  u_satp :: u64
  u_pc :: u64

definition usertrapret :: "trapenv \<Rightarrow> nat \<Rightarrow> 'a kern_scheme \<Rightarrow> userregs \<times> 'a kern_scheme" where
  "usertrapret e p s =
     (let im = se_image (te_sys e);
          s = tf_set p 0 (r_satp (te_csr e)) s;
          s = tf_set p 8 (p_kstack (the_proc p s) + PGSIZE) s;
          s = tf_set p 16 (im_usertrap im) s;
          s = tf_set p 32 (r_tp (te_csr e)) s
      in (\<lparr>u_stvec = TRAMPOLINE + (im_uservec im - im_trampoline im),
           u_sstatus = (r_sstatus (te_csr e) AND NOT SSTATUS_SPP) OR SSTATUS_SPIE,
           u_sepc = tf_get p TF_EPC s,
           u_satp = MAKE_SATP (k_pt p s),
           u_pc = TRAMPOLINE + (im_userret im - im_trampoline im)\<rparr>, s))"

text \<open>The part of \<^verbatim>\<open>usertrap\<close> before the second test for a killed process.  It tells which device
  interrupted, or \<open>None\<close> when the process is asleep in a system call or has ended.\<close>

definition usertrap_cause :: "trapenv \<Rightarrow> nat \<Rightarrow> 'a ksys_scheme \<Rightarrow> (nat option \<times> 'a ksys_scheme) res" where
  "usertrap_cause e p s =
     (let c = te_csr e; im = se_image (te_sys e)
      in if r_scause c = 8
         then if killed p (k_sched s) then bnd (exit im (-1) s) (\<lambda>s. Inr (None, s))
              else bnd (syscall (te_sys e) (tf_set p TF_EPC (tf_get p TF_EPC s + 4) s)) (\<lambda>(finished, s).
                     Inr (if finished then Some 0 else None, s))
         else bnd (devintr e s) (\<lambda>(dev, s).
              if dev \<noteq> 0 then Inr (Some dev, s)
              else bnd (printf ''usertrap(): unexpected scause 0x%lx pid=%d\<newline>''
                          [ALong (r_scause c), AInt (of_int (p_pid (the_proc p s)))] s) (\<lambda>s.
                   bnd (printf ''            sepc=0x%lx stval=0x%lx\<newline>'' [ALong (r_sepc c), ALong (r_stval c)] s) (\<lambda>s.
                     Inr (Some 0, s\<lparr>k_sched := setkilled p (k_sched s)\<rparr>)))))"

definition usertrap :: "trapenv \<Rightarrow> 'a ksys_scheme \<Rightarrow> (userregs option \<times> 'a ksys_scheme) res" where
  "usertrap e s =
     (if r_sstatus (te_csr e) AND SSTATUS_SPP \<noteq> 0 then Inl (Panic ''usertrap: not from user mode'')
      else k_proc s (\<lambda>p.
        bnd (usertrap_cause e p (tf_set p TF_EPC (r_sepc (te_csr e)) s)) (\<lambda>(dev, s).
        case dev of
          None \<Rightarrow> Inr (None, s)
        | Some dev \<Rightarrow>
            if killed p (k_sched s) then bnd (exit (se_image (te_sys e)) (-1) s) (\<lambda>s. Inr (None, s))
            else bnd (if dev = 2 then bnd (usertrap_timer p (k_sched s)) (\<lambda>d. Inr (s\<lparr>k_sched := d\<rparr>)) else Inr s) (\<lambda>s.
                 if myproc (k_sched s) = Some p
                 then let (u, s) = usertrapret e p s in Inr (Some u, s)
                 else Inr (None, s)))))"

definition kerneltrap :: "trapenv \<Rightarrow> 'a ksys_scheme \<Rightarrow> ((u64 \<times> u64) \<times> 'a ksys_scheme) res" where
  "kerneltrap e s =
     (let c = te_csr e
      in if r_sstatus c AND SSTATUS_SPP = 0 then Inl (Panic ''kerneltrap: not from supervisor mode'')
         else if r_sstatus c AND SSTATUS_SIE \<noteq> 0 then Inl (Panic ''kerneltrap: interrupts enabled'')
         else bnd (devintr e s) (\<lambda>(dev, s).
              if dev = 0
              then bnd (printf ''scause=0x%lx sepc=0x%lx stval=0x%lx\<newline>''
                          [ALong (r_scause c), ALong (r_sepc c), ALong (r_stval c)] s) (\<lambda>_. Inl (Panic ''kerneltrap''))
              else bnd (if dev = 2 then bnd (kerneltrap_timer (k_sched s)) (\<lambda>d. Inr (s\<lparr>k_sched := d\<rparr>)) else Inr s) (\<lambda>s.
                   Inr ((r_sepc c, r_sstatus c), s))))"

section \<open>Start-up\<close>

definition kvminit :: "image \<Rightarrow> 'a ksys_scheme \<Rightarrow> 'a ksys_scheme res" where
  "kvminit im s =
     bnd (on_phys (kvmmake (im_etext im) (im_trampoline im)) s) (\<lambda>(pt, s). Inr (s\<lparr>kernel_pagetable := pt\<rparr>))"

text \<open>\<^verbatim>\<open>main\<close> on hart 0, from the serial line to the idle process.\<close>

definition main :: "trapenv \<Rightarrow> 'a ksys_scheme \<Rightarrow> 'a ksys_scheme res" where
  "main e s =
     (let im = se_image (te_sys e); s = consoleinit s
      in bnd (printf ''\<newline>'' [] s) (\<lambda>s.
         bnd (printf ''xv6 kernel is booting\<newline>'' [] s) (\<lambda>s.
         bnd (printf ''\<newline>'' [] s) (\<lambda>s.
         bnd (in_phys (kinit (im_end im)) s) (\<lambda>s.
         bnd (kvminit im s) (\<lambda>s.
         let s = procinit s; s = plicinit s; s = plicinithart 0 s; s = binit s; s = iinit s
         in bnd (virtio_disk_init (te_virtio e) s) (\<lambda>s.
            bnd (userinit im s) (scheduler im))))))))"

end
