(* ===== verification/Frames.thy ===== *)
theory Frames
  imports Trap
begin

text \<open>
  What the operations of the kernel leave alone: the descriptors of the processes and the
  reference counts of the open files.  \<open>fr c s\<close> says that the reference counts, the
  descriptors and the idle process of \<open>s\<close> are those of \<open>c\<close>, that every process that is unused or
  has ended was so in \<open>c\<close>, and that neither the idle process nor, if \<open>fd_live\<close> holds, the running
  process is one of them.  Each lemma says that an operation that
  returns keeps this; together they cover the scheduler, the console, the buffer cache, the log,
  the file system, pipes and the loading of programs.
\<close>

section \<open>Results that keep a property\<close>

definition ok :: "('s \<Rightarrow> bool) \<Rightarrow> ('x \<Rightarrow> 's) \<Rightarrow> 'x res \<Rightarrow> bool" where
  "ok P st r \<longleftrightarrow> (\<forall>x. r = Inr x \<longrightarrow> P (st x))"

record fds =
  fd_ref :: "nat \<Rightarrow> int"
  fd_of :: "nat \<Rightarrow> nat \<Rightarrow> nat option"
  fd_dead :: "nat set"
  fd_idle :: "nat option"
  fd_live :: bool

definition dead :: "sched \<Rightarrow> nat set" where
  "dead d = {p. p_state (procs d p) = UNUSED \<or> p_state (procs d p) = ZOMBIE}"

definition sk :: "fds \<Rightarrow> sched \<Rightarrow> bool" where
  "sk c d \<longleftrightarrow> (\<forall>p. p_ofile (procs d p) = fd_of c p) \<and> dead d \<subseteq> fd_dead c \<and> c_idleproc (s_cpu d) = fd_idle c \<and>
     (\<forall>p \<in> dead d. fd_idle c \<noteq> Some p \<and> (fd_live c \<longrightarrow> myproc d \<noteq> Some p))"

definition fr :: "fds \<Rightarrow> 'a ksys_scheme \<Rightarrow> bool" where
  "fr c s \<longleftrightarrow> (\<forall>f. f_ref (ftable s f) = fd_ref c f) \<and> sk c (k_sched s)"

abbreviation third :: "'a \<times> 'b \<times> 'c \<Rightarrow> 'c" where "third x \<equiv> snd (snd x)"
abbreviation (input) this :: "'a \<Rightarrow> 'a" where "this \<equiv> (\<lambda>x. x)"

lemma ok_Inl [simp]: "ok P st (Inl e)" and ok_Inr [simp]: "ok P st (Inr x) \<longleftrightarrow> P (st x)"
  by (auto simp: ok_def)

lemma ok_bnd:
  assumes "ok P st r" "\<And>x. r = Inr x \<Longrightarrow> P (st x) \<Longrightarrow> ok Q st' (f x)"
  shows "ok Q st' (bnd r f)"
  using assms by (cases r) (auto simp: ok_def)

lemma ok_any: "(\<And>x. r = Inr x \<Longrightarrow> ok Q st (f x)) \<Longrightarrow> ok Q st (bnd r f)"
  by (cases r) auto

lemma ok_case_option [intro!]:
  "(x = None \<Longrightarrow> ok P st f) \<Longrightarrow> (\<And>a. x = Some a \<Longrightarrow> ok P st (g a)) \<Longrightarrow> ok P st (case x of None \<Rightarrow> f | Some a \<Rightarrow> g a)"
  by (cases x) auto

lemma ok_case_prod [intro!]: "(\<And>a b. x = (a, b) \<Longrightarrow> ok P st (f a b)) \<Longrightarrow> ok P st (case x of (a, b) \<Rightarrow> f a b)"
  by (cases x) auto

lemma ok_if [intro!]: "(b \<Longrightarrow> ok P st x) \<Longrightarrow> (\<not> b \<Longrightarrow> ok P st y) \<Longrightarrow> ok P st (if b then x else y)"
  by simp

lemma ok_Let [intro!]: "ok P st (f x) \<Longrightarrow> ok P st (Let x f)"
  by simp

text \<open>The state is the result, its second or its third component.\<close>

lemmas ok_fr [intro!] =
  ok_bnd [where P = "fr c" and Q = "fr c" and st = this for c]
  ok_bnd [where P = "fr c" and Q = "fr c" and st = snd for c]
  ok_bnd [where P = "fr c" and Q = "fr c" and st = third for c]
  ok_bnd [where P = "sk c" and Q = "fr c" and st = this for c]
  ok_bnd [where P = "sk c" and Q = "fr c" and st = third for c]
  ok_bnd [where P = "sk c" and Q = "sk c" and st = this for c]
  ok_bnd [where P = "sk c" and Q = "sk c" and st = snd for c]

lemma ok_with_proc [intro!]: "(\<And>p. ok P st (f p)) \<Longrightarrow> ok P st (with_proc d f)"
  by (auto simp: with_proc_def split: option.splits)

lemma ok_k_proc [intro!]: "(\<And>p. ok P st (f p)) \<Longrightarrow> ok P st (k_proc s f)"
  unfolding k_proc_def by (rule ok_with_proc)

section \<open>The scheduler\<close>

lemma dead_upd:
  "(\<And>x. p_state (f x) = p_state x) \<Longrightarrow> dead (upd_proc p f d) = dead d"
  "(\<And>x. p_state (f x) \<noteq> UNUSED) \<Longrightarrow> (\<And>x. p_state (f x) \<noteq> ZOMBIE) \<Longrightarrow> dead (upd_proc p f d) \<subseteq> dead d"
  by (auto simp: dead_def upd_proc_def)

lemma ofile_upd: "(\<And>x. p_ofile (f x) = p_ofile x) \<Longrightarrow> p_ofile (procs (upd_proc p f d) q) = p_ofile (procs d q)"
  and cpu_upd: "s_cpu (upd_proc p f d) = s_cpu d" "myproc (upd_proc p f d) = myproc d"
  by (simp_all add: upd_proc_def myproc_def)

lemma sk_upd [simp]:
  assumes "\<And>x. p_ofile (f x) = p_ofile x" "\<And>x. p_state (f x) = p_state x"
  shows "sk c (upd_proc p f d) = sk c d"
  by (simp add: sk_def dead_upd(1) [OF assms(2)] ofile_upd [OF assms(1)] cpu_upd)

lemma sk_upd_state [simp]:
  assumes "\<And>x. p_ofile (f x) = p_ofile x" "\<And>x. p_state (f x) \<noteq> UNUSED" "\<And>x. p_state (f x) \<noteq> ZOMBIE" "sk c d"
  shows "sk c (upd_proc p f d)"
  using assms(4) dead_upd(2) [of f p d, OF assms(2,3)] by (auto simp: sk_def ofile_upd [OF assms(1)] cpu_upd)

lemma sk_more [simp]:
  "sk c (d\<lparr>highest_nonempty := h\<rparr>) = sk c d" "sk c (d\<lparr>s_nextpid := n\<rparr>) = sk c d" "sk c (upd_q i g d) = sk c d"
  "sk c (d\<lparr>s_cpu := (s_cpu d)\<lparr>c_preempt_pending := b\<rparr>\<rparr>) = sk c d" "sk c (set_cpu (\<lambda>x. x\<lparr>c_preempt_pending := b\<rparr>) d) = sk c d"
  by (simp_all add: sk_def dead_def upd_q_def set_cpu_def myproc_def)

lemma sk_if [simp]: "sk c (if b then d else e) \<longleftrightarrow> (b \<longrightarrow> sk c d) \<and> (\<not> b \<longrightarrow> sk c e)"
  by simp

lemma sk_set_rq_next [simp]: "sk c (set_rq_next p v d) = sk c d"
  by (simp add: set_rq_next_def)

lemma rq_push_tail_sk [simp]: "sk c (rq_push_tail pr p d) = sk c d"
  by (auto simp: rq_push_tail_def Let_def split: option.splits)

lemma prio_enqueue_sk [intro!]: "sk c d \<Longrightarrow> sk c (prio_enqueue p d)"
  by (auto simp: prio_enqueue_def Let_def split: option.splits)

lemma rq_remove_sk [intro!]: "sk c d \<Longrightarrow> ok (sk c) this (rq_remove pr p d)"
  by (auto simp: rq_remove_def rq_unlink_def Let_def split: option.splits)

lemma pick_sk [intro!]: "sk c d \<Longrightarrow> ok (sk c) snd (prio_pick_next d)"
  by (auto simp: prio_pick_next_def)

lemma schedule_loop_sk:
  assumes "schedule_loop d = Some r" "sk c d"
  shows "ok (\<lambda>x. sk c (snd x) \<and> (\<forall>p \<in> dead (snd x). fst x \<noteq> Some p)) this r"
proof -
  let ?Q = "\<lambda>x. sk c (snd x) \<and> (\<forall>p \<in> dead (snd x). fst x \<noteq> Some p)"
  have "sk c d \<longrightarrow> ok ?Q this r"
  proof (rule schedule_loop.raw_induct [OF _ assms(1)], intro impI)
    fix f s r
    assume ih: "\<And>s r. f s = Some r \<Longrightarrow> sk c s \<longrightarrow> ok ?Q this r"
      and e: "(case prio_pick_next s of Inl e \<Rightarrow> Some (Inl e)
        | Inr r \<Rightarrow> let s = snd r in case fst r of None \<Rightarrow> Some (Inr (c_idleproc (s_cpu s), s))
          | Some next \<Rightarrow> if c_idleproc (s_cpu s) = Some next then Some (Inr (Some next, s))
              else if p_state (procs s next) = RUNNABLE
              then Some (Inr (Some next, upd_proc next (\<lambda>x. x\<lparr>p_state := RUNNING, p_wait_ticks := 0\<rparr>) s)) else f s) = Some r"
      and s: "sk c s"
    have pick: "sk c (snd x)" if "prio_pick_next s = Inr x" for x using pick_sk [OF s] that by (simp add: ok_def)
    have idle: "\<forall>p \<in> dead t. c_idleproc (s_cpu t) \<noteq> Some p" if "sk c t" for t using that by (simp add: sk_def)
    have live: "next \<notin> dead (upd_proc next (\<lambda>x. x\<lparr>p_state := RUNNING, p_wait_ticks := 0\<rparr>) t)" for "next" t
      by (simp add: dead_def upd_proc_def)
    show "ok ?Q this r" using e ih pick idle live
      by (cases "prio_pick_next s") (auto simp: Let_def split: option.splits if_splits)
  qed
  then show ?thesis using assms(2) by simp
qed

lemma schedule_live:
  assumes "sk c d"
  shows "ok (sk (c\<lparr>fd_live := True\<rparr>)) this (schedule d)"
proof -
  have "ok (\<lambda>x. sk c (snd x) \<and> (\<forall>p \<in> dead (snd x). fst x \<noteq> Some p)) this (of_loop (schedule_loop d))"
    using schedule_loop_sk [OF _ assms] by (cases "schedule_loop d") auto
  then show ?thesis by (auto simp: ok_def schedule_def res_simps sk_def set_cpu_def dead_def myproc_def)
qed

lemma schedule_sk [intro!]: "sk c d \<Longrightarrow> ok (sk c) this (schedule d)"
  using schedule_live [of c d] by (auto simp: ok_def sk_def)

lemma wake_proc_sk [intro!]: "sk c d \<Longrightarrow> sk c (wake_proc p d)"
  by (auto simp: wake_proc_def)

lemma wakeup_sk [intro!]: "sk c d \<Longrightarrow> sk c (wakeup ch d)"
proof -
  have "sk c d \<Longrightarrow> sk c (fold (wakeup_one ch) ps d)" for ps
    by (induction ps arbitrary: d) (auto simp: wakeup_one_def)
  then show "sk c d \<Longrightarrow> sk c (wakeup ch d)" by (simp add: wakeup_def)
qed

lemma yield_sk [intro!]: "sk c d \<Longrightarrow> ok (sk c) this (yield d)"
  by (auto simp: yield_def)

text \<open>
  \<^verbatim>\<open>exit\<close> releases \<^verbatim>\<open>p->lock\<close> after it has marked the process as ended and before it calls \<^verbatim>\<open>schedule\<close>.
  A timer interrupt in between may call \<^verbatim>\<open>yield\<close>, which makes the process runnable again, so that its
  parent no longer finds it.
\<close>

lemma timer_revives_zombie:
  assumes "myproc d = Some p" "p_state (procs d p) = ZOMBIE" "c_idleproc (s_cpu d) = Some i" "i \<notin> dead d" "yield d = Inr t"
  shows "p_state (procs t p) \<noteq> ZOMBIE"
proof -
  let ?d = "upd_proc p (\<lambda>x. x\<lparr>p_state := RUNNABLE, p_wait_ticks := 0\<rparr>) d"
  let ?c = "\<lparr>fd_ref = \<lambda>_. 0, fd_of = \<lambda>q. p_ofile (procs ?d q), fd_dead = dead ?d, fd_idle = Some i, fd_live = False\<rparr>"
  have "dead ?d = dead d - {p}" by (auto simp: dead_def upd_proc_def)
  then have "sk ?c ?d" using assms(3,4) by (auto simp: sk_def cpu_upd)
  then have "ok (sk ?c) this (schedule (prio_enqueue p ?d))" by blast
  then have "dead t \<subseteq> dead d - {p}" using assms(1,5) \<open>dead ?d = dead d - {p}\<close> by (simp add: yield_def with_proc_def ok_def sk_def)
  then show ?thesis by (auto simp: dead_def)
qed

lemma sleep_sk [intro!]: "sk c d \<Longrightarrow> ok (sk c) this (sleep ch d)"
  by (auto simp: sleep_def sleep_mark_def prio_dequeue_def)

lemma kill_sk [intro!]: "sk c d \<Longrightarrow> sk c (snd (kill pid d))"
proof -
  have "sk c d \<Longrightarrow> sk c (snd (kill_loop ps pid d))" for ps
    by (induction ps) (auto simp: Let_def)
  then show "sk c d \<Longrightarrow> sk c (snd (kill pid d))" by (simp add: kill_def)
qed

lemma acquiresleep_sk [intro!]: "sk c d \<Longrightarrow> ok (sk c) third (acquiresleep ch lk d)"
  by (auto simp: acquiresleep_def)

section \<open>State changes that do not touch descriptors\<close>

lemma fr_more [simp]:
  "fr c (s\<lparr>k_phys := m\<rparr>) = fr c s" "fr c (s\<lparr>k_ticks := t\<rparr>) = fr c s" "fr c (s\<lparr>lg := l\<rparr>) = fr c s" "fr c (s\<lparr>sb := q\<rparr>) = fr c s"
  "fr c (s\<lparr>k_sync := y\<rparr>) = fr c s" "fr c (upd_pipe pi g s) = fr c s" "fr c (upd_buf b h s) = fr c s"
  "fr c (upd_lh u s) = fr c s" "fr c (upd_inode ip v s) = fr c s" "fr c (set_data b bs s) = fr c s" "fr c (disk_rw b w s) = fr c s"
  "fr c (s\<lparr>con_r := r\<rparr>) = fr c s" "fr c (s\<lparr>con_e := re\<rparr>) = fr c s" "fr c (s\<lparr>con_w := rw\<rparr>) = fr c s"
  "fr c (s\<lparr>con_buf := cb\<rparr>) = fr c s" "fr c (s\<lparr>tx_buf := tb\<rparr>) = fr c s" "fr c (s\<lparr>tx_w := tw\<rparr>) = fr c s" "fr c (write_reg rg by s) = fr c s" "fr c (snd (read_lsr s)) = fr c s"
  "fr c (s\<lparr>tx_r := tr\<rparr>) = fr c s" "fr c (tf_set p off val s) = fr c s" "fr c (plic_write a0 v0 s) = fr c s"
  by (simp_all add: fr_def upd_pipe_def upd_buf_def upd_lh_def upd_inode_def set_data_def disk_rw_def write_reg_def
    read_lsr_def tf_set_def plic_write_def)

lemma fr_list [simp]: "fr c (buf_push b s) = fr c s" "fr c (buf_unlink b s) = fr c s" "fr c (bpin b s) = fr c s" "fr c (bunpin b s) = fr c s"
  by (simp_all add: buf_push_def buf_unlink_def bpin_def bunpin_def Let_def)

lemma fr_if [simp]: "fr c (if b then s else t) \<longleftrightarrow> (b \<longrightarrow> fr c s) \<and> (\<not> b \<longrightarrow> fr c t)"
  by simp

lemma fr_sched [simp]: "fr c s \<Longrightarrow> fr c (s\<lparr>k_sched := d\<rparr>) = sk c d" and fr_sk: "fr c s \<Longrightarrow> sk c (k_sched s)"
  by (simp_all add: fr_def)

lemma k_upd_fr [simp]:
  assumes "\<And>x. p_ofile (f x) = p_ofile x" "\<And>x. p_state (f x) = p_state x"
  shows "fr c (k_upd p f s) = fr c s"
  using assms by (simp add: fr_def k_upd_def)

lemma k_wakeup_fr [intro!]: "fr c s \<Longrightarrow> fr c (k_wakeup ch s)"
  using wakeup_sk [of c "k_sched s" "Some ch"] by (simp add: k_wakeup_def fr_sk)

lemma k_sleep_fr [intro!]: "fr c s \<Longrightarrow> ok (fr c) this (k_sleep ch s)"
  by (auto simp: k_sleep_def fr_sk)

lemma on_phys_fr [intro!]: "fr c s \<Longrightarrow> ok (fr c) snd (on_phys f s)" and in_phys_fr [intro!]: "fr c s \<Longrightarrow> ok (fr c) this (in_phys g s)"
  by (auto simp: on_phys_def in_phys_def intro!: ok_any)

lemmas ok_val [intro!] =
  ok_any [where r = "r :: (int \<times> byte list) res" for r] ok_any [where r = "r :: (int \<times> phys) res" for r]
  ok_any [where r = "r :: phys res" for r] ok_any [where r = "r :: bool res" for r] ok_any [where r = "r :: string res" for r]
  ok_any [where r = "r :: u64 res" for r] ok_any [where r = "r :: u64 option res" for r]
  ok_any [where r = "r :: (byte list \<times> byte list option) res" for r] ok_any [where r = "r :: (u64 \<times> phys) res" for r]

lemma either_copyout_fr [intro!]: "fr c s \<Longrightarrow> ok (fr c) snd (either_copyout dst bs s)"
  by (cases dst) auto

section \<open>Console and pipes\<close>

lemma printed_fr: "printed s t \<Longrightarrow> fr c t = fr c s"
  by (auto simp: printed_def fr_def)

lemma consputc_fr [intro!]: "fr c s \<Longrightarrow> ok (fr c) this (consputc ch s)"
  using consputc_printed [of ch s] by (auto simp: ok_def printed_fr)

lemma printf_fr [intro!]: "fr c s \<Longrightarrow> ok (fr c) this (printf fmt ap s)"
  using printf_printed [of fmt ap s] by (auto simp: ok_def printed_fr)

lemma procdump_fr [intro!]: "fr c s \<Longrightarrow> ok (fr c) this (procdump s)"
  using procdump_printed [of s] by (auto simp: ok_def printed_fr)

lemma uartstart_fr [intro!]: "fr c s \<Longrightarrow> fr c (uartstart s)"
proof (induction s rule: uartstart.induct)
  case (1 s)
  then show ?case by (subst uartstart.simps) (auto simp: Let_def intro!: 1(1))
qed

lemma uartputc_fr [intro!]: "fr c s \<Longrightarrow> ok (fr c) snd (uartputc ch s)"
  by (auto simp: uartputc_def)

lemma consolewrite_fr [intro!]: "fr c s \<Longrightarrow> ok (fr c) snd (consolewrite src n s)"
proof -
  have "fr c s \<Longrightarrow> ok (fr c) snd (consolewrite_loop src n i pend s)" for i pend
  proof (induction src n i pend s rule: consolewrite_loop.induct)
    case (1 src n i pend s)
    then show ?case by (subst consolewrite_loop.simps) (auto split: pass.splits intro!: 1(1))
  qed
  then show "fr c s \<Longrightarrow> ok (fr c) snd (consolewrite src n s)" by (simp add: consolewrite_def)
qed

lemma consoleread_fr [intro!]: "fr c s \<Longrightarrow> ok (fr c) snd (consoleread dst n s)"
proof -
  have "fr c s \<Longrightarrow> ok (fr c) snd (consoleread_loop dst target n s)" for target
  proof (induction dst target n s rule: consoleread_loop.induct)
    case (1 dst target n s)
    then show ?case by (subst consoleread_loop.simps) (auto simp: Let_def intro!: 1(1))
  qed
  then show "fr c s \<Longrightarrow> ok (fr c) snd (consoleread dst n s)" by (simp add: consoleread_def)
qed

lemma kill_line_fr [intro!]: "fr c s \<Longrightarrow> ok (fr c) this (kill_line s)"
proof (induction s rule: kill_line.induct)
  case (1 s)
  then show ?case by (subst kill_line.simps) (auto intro!: 1(1))
qed

lemma consoleintr_fr [intro!]: "fr c s \<Longrightarrow> ok (fr c) this (consoleintr ch s)"
  by (auto simp: consoleintr_def con_default_def)

lemma pipewrite_fr [intro!]: "fr c s \<Longrightarrow> ok (fr c) snd (pipewrite pi addr n s)"
proof -
  have "fr c s \<Longrightarrow> ok (fr c) snd (pipewrite_loop pi addr n i s)" for i
  proof (induction pi addr n i s rule: pipewrite_loop.induct)
    case (1 pi addr n i s)
    then show ?case by (subst pipewrite_loop.simps) (auto intro!: 1(1))
  qed
  then show "fr c s \<Longrightarrow> ok (fr c) snd (pipewrite pi addr n s)" by (simp add: pipewrite_def)
qed

lemma piperead_fr [intro!]: "fr c s \<Longrightarrow> ok (fr c) snd (piperead pi addr n s)"
proof -
  have "fr c s \<Longrightarrow> ok (fr c) snd (piperead_loop pi addr n i pr s)" for i pr
  proof (induction pi addr n i pr s rule: piperead_loop.induct)
    case (1 pi addr n i pr s)
    then show ?case by (subst piperead_loop.simps) (auto simp: Let_def intro!: 1(1))
  qed
  then show "fr c s \<Longrightarrow> ok (fr c) snd (piperead pi addr n s)" by (auto simp: piperead_def)
qed

lemma pipeclose_fr [intro!]: "fr c s \<Longrightarrow> ok (fr c) this (pipeclose kend pi w s)"
  by (auto simp: pipeclose_def Let_def)

section \<open>Buffers and the log\<close>

lemma lock_buf_fr [intro!]: "fr c s \<Longrightarrow> ok (fr c) this (lock_buf b s)"
  by (auto simp: lock_buf_def fr_sk)

lemma bget_fr [intro!]: "fr c s \<Longrightarrow> ok (fr c) snd (bget dev b s)"
  by (auto simp: bget_def)

lemma bread_fr [intro!]: "fr c s \<Longrightarrow> ok (fr c) snd (bread dev b s)"
  by (auto simp: bread_def)

lemma bwrite_fr [intro!]: "fr c s \<Longrightarrow> ok (fr c) this (bwrite b s)"
  by (auto simp: bwrite_def)

lemma brelse_fr [intro!]: "fr c s \<Longrightarrow> ok (fr c) this (brelse b s)"
  by (auto simp: brelse_def releasesleep_def fr_sk)

lemma log_write_fr [intro!]: "fr c s \<Longrightarrow> ok (fr c) this (log_write b s)"
  by (auto simp: log_write_def Let_def)

lemma log_release_fr [intro!]: "fr c s \<Longrightarrow> ok (fr c) this (log_release b s)"
  by (auto simp: log_release_def)

lemma install_trans_fr [intro!]: "fr c s \<Longrightarrow> ok (fr c) this (install_trans rec s)"
proof -
  have "fr c s \<Longrightarrow> ok (fr c) this (install_loop rec ts s)" for ts
    by (induction ts arbitrary: s) (auto simp: install_one_def)
  then show "fr c s \<Longrightarrow> ok (fr c) this (install_trans rec s)" by (simp add: install_trans_def)
qed

lemma write_log_fr [intro!]: "fr c s \<Longrightarrow> ok (fr c) this (write_log s)"
proof -
  have "fr c s \<Longrightarrow> ok (fr c) this (write_log_loop ts s)" for ts
    by (induction ts arbitrary: s) (auto simp: write_log_one_def)
  then show "fr c s \<Longrightarrow> ok (fr c) this (write_log s)" by (simp add: write_log_def)
qed

lemma write_head_fr [intro!]: "fr c s \<Longrightarrow> ok (fr c) this (write_head s)"
  by (auto simp: write_head_def)

lemma commit_fr [intro!]: "fr c s \<Longrightarrow> ok (fr c) this (commit s)"
  by (auto simp: commit_def)

lemma begin_op_fr [intro!]: "fr c s \<Longrightarrow> ok (fr c) this (begin_op s)"
  by (auto simp: begin_op_def)

lemma end_op_fr [intro!]: "fr c s \<Longrightarrow> ok (fr c) this (end_op s)"
  by (auto simp: end_op_def Let_def)

section \<open>The file system\<close>

lemma iget_fr [intro!]: "fr c s \<Longrightarrow> ok (fr c) snd (iget dev i s)"
  by (auto simp: iget_def)

lemma idup_fr [simp]: "fr c (snd (idup ip s)) = fr c s"
  by (simp add: idup_def)

lemma bzero_fr [intro!]: "fr c s \<Longrightarrow> ok (fr c) this (bzero dev b s)"
  by (auto simp: bzero_def)

lemma balloc_fr [intro!]: "fr c s \<Longrightarrow> ok (fr c) snd (balloc dev s)"
proof -
  have "fr c s \<Longrightarrow> ok (fr c) snd (balloc_loop dev bs s)" for bs by (induction bs arbitrary: s) (auto simp: Let_def)
  then show "fr c s \<Longrightarrow> ok (fr c) snd (balloc dev s)" by (simp add: balloc_def)
qed

lemma bfree_fr [intro!]: "fr c s \<Longrightarrow> ok (fr c) this (bfree dev b s)"
  by (auto simp: bfree_def Let_def)

lemma ialloc_fr [intro!]: "fr c s \<Longrightarrow> ok (fr c) snd (ialloc dev ty s)"
proof -
  have "fr c s \<Longrightarrow> ok (fr c) snd (ialloc_loop dev ty is s)" for "is" by (induction "is" arbitrary: s) (auto simp: Let_def)
  then show "fr c s \<Longrightarrow> ok (fr c) snd (ialloc dev ty s)" by (simp add: ialloc_def)
qed

lemma iupdate_fr [intro!]: "fr c s \<Longrightarrow> ok (fr c) this (iupdate ip s)"
  by (auto simp: iupdate_def)

lemma lock_inode_fr [intro!]: "fr c s \<Longrightarrow> ok (fr c) this (lock_inode ip s)"
  by (auto simp: lock_inode_def fr_sk)

lemma unlock_inode_fr [intro!]: "fr c s \<Longrightarrow> fr c (unlock_inode ip s)"
  by (auto simp: unlock_inode_def releasesleep_def fr_sk)

lemma ilock_fr [intro!]: "fr c s \<Longrightarrow> ok (fr c) this (ilock ip s)"
  by (auto simp: ilock_def Let_def)

lemma iunlock_fr [intro!]: "fr c s \<Longrightarrow> ok (fr c) this (iunlock ip s)"
  by (auto simp: iunlock_def)

lemma bmap_fr [intro!]: "fr c s \<Longrightarrow> ok (fr c) snd (bmap ip bn s)"
  by (auto simp: bmap_def Let_def)

lemma itrunc_fr [intro!]: "fr c s \<Longrightarrow> ok (fr c) this (itrunc ip s)"
proof -
  have [intro!]: "fr c s \<Longrightarrow> ok (fr c) this (itrunc_direct ip is s)" for "is" s by (induction "is" arbitrary: s) auto
  have [intro!]: "fr c s \<Longrightarrow> ok (fr c) this (itrunc_indirect dev bp is s)" for dev bp "is" s
    by (induction "is" arbitrary: s) (auto simp: Let_def)
  show "fr c s \<Longrightarrow> ok (fr c) this (itrunc ip s)" by (auto simp: itrunc_def)
qed

lemma iput_fr [intro!]: "fr c s \<Longrightarrow> ok (fr c) this (iput ip s)"
  by (auto simp: iput_def)

lemma iunlockput_fr [intro!]: "fr c s \<Longrightarrow> ok (fr c) this (iunlockput ip s)"
  by (auto simp: iunlockput_def)

lemma readi_fr [intro!]: "fr c s \<Longrightarrow> ok (fr c) third (readi ip dst off n s)"
proof -
  have "fr c s \<Longrightarrow> ok (fr c) third (readi_loop ip dst o' k tot acc s)" for o' k tot acc
  proof (induction ip dst o' k tot acc s rule: readi_loop.induct)
    case (1 ip dst off n tot acc s)
    show ?case unfolding readi_loop.simps [of ip dst off] Let_def
      by (safe intro!: 1; (assumption | rule refl | blast | simp add: 1(2)))
  qed
  then show "fr c s \<Longrightarrow> ok (fr c) third (readi ip dst off n s)" by (simp add: readi_def del: readi_loop.simps)
qed

lemma writei_fr [intro!]: "fr c s \<Longrightarrow> ok (fr c) snd (writei ip src off n s)"
proof -
  have [intro!]: "fr c s \<Longrightarrow> ok (fr c) third (writei_loop ip src o' k tot s)" for o' k tot s
  proof (induction ip src o' k tot s rule: writei_loop.induct)
    case (1 ip src off n tot s)
    show ?case unfolding writei_loop.simps [of ip src off] Let_def
      by (safe intro!: 1; (assumption | rule refl | blast | simp add: 1(2)))
  qed
  show "fr c s \<Longrightarrow> ok (fr c) snd (writei ip src off n s)" unfolding writei_def by (safe; simp)
qed

lemma dirlookup_fr [intro!]: "fr c s \<Longrightarrow> ok (fr c) snd (dirlookup dp name s)"
proof -
  have "fr c s \<Longrightarrow> ok (fr c) snd (dirlookup_loop dp name offs s)" for offs
    by (induction offs arbitrary: s) (simp_all, safe, auto)
  then show "fr c s \<Longrightarrow> ok (fr c) snd (dirlookup dp name s)" by (auto simp: dirlookup_def)
qed

lemma dirlink_fr [intro!]: "fr c s \<Longrightarrow> ok (fr c) snd (dirlink dp name i s)"
proof -
  have [intro!]: "fr c s \<Longrightarrow> ok (fr c) snd (dirlink_loop dp offs s)" for offs s
    by (induction offs arbitrary: s) (simp_all, safe, auto)
  show "fr c s \<Longrightarrow> ok (fr c) snd (dirlink dp name i s)" unfolding dirlink_def Let_def by (safe; simp)
qed

lemma namex_fr [intro!]: "fr c s \<Longrightarrow> ok (fr c) third (namex path parent s)"
proof -
  have [intro!]: "fr c s \<Longrightarrow> ok (fr c) third (namex_loop ip path parent name s)" for path ip name s
  proof (induction ip path parent name s rule: namex_loop.induct)
    case (1 ip path parent name s)
    show ?case unfolding namex_loop.simps [of ip path]
      by (safe intro!: 1; (assumption | rule refl | blast | simp add: 1(2)))
  qed
  show "fr c s \<Longrightarrow> ok (fr c) third (namex path parent s)" unfolding namex_def idup_def Let_def by (safe; simp)
qed

lemma namei_fr [intro!]: "fr c s \<Longrightarrow> ok (fr c) snd (namei path s)"
  unfolding namei_def by (safe; simp)

lemma nameiparent_fr [intro!]: "fr c s \<Longrightarrow> ok (fr c) third (nameiparent path s)"
  unfolding nameiparent_def by safe

section \<open>Open files, programs and links\<close>

lemma filestat_fr [intro!]: "fr c s \<Longrightarrow> ok (fr c) snd (filestat pad f addr s)"
  unfolding filestat_def Let_def by (safe; simp)

lemma fr_off [simp]: "fr c (upd_file f (\<lambda>x. x\<lparr>f_off := u x\<rparr>) s) = fr c s"
  by (auto simp: fr_def upd_file_def)

lemma fileread_fr [intro!]: "fr c s \<Longrightarrow> ok (fr c) snd (fileread f addr n s)"
  unfolding fileread_def Let_def by (cases "f_type (ftable s f)"; simp; safe; simp)

lemma filewrite_fr [intro!]: "fr c s \<Longrightarrow> ok (fr c) snd (filewrite f addr n s)"
proof -
  have [intro!]: "fr c s \<Longrightarrow> ok (fr c) snd (filewrite_loop f addr n i s)" for i s
  proof (induction f addr n i s rule: filewrite_loop.induct)
    case (1 f addr n i s)
    show ?case unfolding filewrite_loop.simps [of f addr n i s] Let_def
      by (safe intro!: 1; (assumption | rule refl | blast | simp add: 1(2)))
  qed
  show "fr c s \<Longrightarrow> ok (fr c) snd (filewrite f addr n s)"
    unfolding filewrite_def Let_def by (cases "f_type (ftable s f)"; simp; safe; simp)
qed

lemma growproc_fr [intro!]: "fr c s \<Longrightarrow> ok (fr c) snd (growproc im n s)"
  unfolding growproc_def Let_def by (safe; simp)

lemma upd_nlink_fr [intro!]: "fr c s \<Longrightarrow> ok (fr c) this (upd_nlink ip k s)"
  unfolding upd_nlink_def by (safe; simp)

lemma ret_fr [simp]: "ok P snd (ret r s) = P s"
  by (simp add: ret_def)

lemma arg_fr [intro!]:
  "(\<And>a. ok P st (f a)) \<Longrightarrow> ok P st (argraw n s f)" "(\<And>a. ok P st (g a)) \<Longrightarrow> ok P st (argint n s g)"
  "(\<And>a. ok P st (f a)) \<Longrightarrow> ok P st (argaddr n s f)" "(\<And>a. ok P st (h a)) \<Longrightarrow> ok P st (argstr n mx s h)"
  "(\<And>a. ok P st (k a)) \<Longrightarrow> ok P st (argfd n s k)"
  by (auto simp: argraw_def argint_def argaddr_def argstr_def argfd_def fetchstr_def intro!: ok_any)

lemma link_bad_fr [intro!]: "fr c s \<Longrightarrow> ok (fr c) snd (link_bad ip s)"
  unfolding link_bad_def by (safe; simp)

lemma sys_link_fr [intro!]: "fr c s \<Longrightarrow> ok (fr c) snd (sys_link s)"
  unfolding sys_link_def do_link_def by (safe; simp)

lemma isdirempty_fr [intro!]: "fr c s \<Longrightarrow> ok (fr c) snd (isdirempty dp s)"
proof -
  have "fr c s \<Longrightarrow> ok (fr c) snd (isdirempty_loop dp offs s)" for offs
    by (induction offs arbitrary: s) (simp_all, safe, auto)
  then show "fr c s \<Longrightarrow> ok (fr c) snd (isdirempty dp s)" by (simp add: isdirempty_def)
qed

lemma unlink_bad_fr [intro!]: "fr c s \<Longrightarrow> ok (fr c) snd (unlink_bad ip s)"
  unfolding unlink_bad_def by (safe; simp)

lemma sys_unlink_fr [intro!]: "fr c s \<Longrightarrow> ok (fr c) snd (sys_unlink s)"
  unfolding sys_unlink_def do_unlink_def by (safe; simp)

lemma create_fail_fr [intro!]: "fr c s \<Longrightarrow> ok (fr c) snd (create_fail ip dp s)"
  unfolding create_fail_def by (safe; simp)

lemma create_fr [intro!]: "fr c s \<Longrightarrow> ok (fr c) snd (create path type major minor s)"
  unfolding create_def create_dots_def by (safe; simp)

lemma make_node_fr [intro!]: "fr c s \<Longrightarrow> ok (fr c) snd (make_node path type major minor s)"
  unfolding make_node_def by (safe; simp)

lemma sys_mkdir_fr [intro!]: "fr c s \<Longrightarrow> ok (fr c) snd (sys_mkdir s)"
  and sys_mknod_fr [intro!]: "fr c s \<Longrightarrow> ok (fr c) snd (sys_mknod s)"
  and sys_chdir_fr [intro!]: "fr c s \<Longrightarrow> ok (fr c) snd (sys_chdir s)"
  unfolding sys_mkdir_def sys_mknod_def sys_chdir_def do_chdir_def by (safe; simp)+

section \<open>Loading programs\<close>

lemma loadseg_fr [intro!]:
  assumes "fr c s"
  shows "ok (fr c) snd (loadseg pt va ip off sz s)"
proof -
  have "fr c s \<longrightarrow> ok (fr c) snd r" if "loadseg_loop pt va ip off sz i s = Some r" for i r
  proof (rule loadseg_loop.raw_induct [OF _ that], intro impI)
    fix f pagetable va ip off sz i and s :: "'a ksys_scheme" and r
    assume ih: "\<And>pagetable va ip off sz i s r. f pagetable va ip off sz i s = Some r \<Longrightarrow> fr c s \<longrightarrow> ok (fr c) snd r"
      and e: "(if i < sz then case walkaddr pagetable (va + ucast i) (k_phys s) of Inl e \<Rightarrow> Some (Inl e)
        | Inr pa \<Rightarrow> if pa = 0 then Some (Inl (Panic ''loadseg: address should exist''))
            else let n = if sz - i < 4096 then sz - i else 4096
                 in case readi ip (KDst pa) (off + i) n s of Inl e \<Rightarrow> Some (Inl e)
                    | Inr r \<Rightarrow> if of_int (fst r) \<noteq> n then Some (Inr (-1, snd (snd r)))
                        else f pagetable va ip off sz (i + 4096) (snd (snd r)) else Some (Inr (0, s))) = Some r"
      and s: "fr c s"
    have rd: "readi ip dst o' n s = Inr x \<Longrightarrow> fr c (third x)" for dst o' n x
      using readi_fr [OF s, of ip dst o' n] by (simp add: ok_def)
    show "ok (fr c) snd r"
      using e s rd ih [of pagetable va ip off sz "i + 4096"] by (auto simp: Let_def split: if_splits sum.splits)
  qed
  then show ?thesis using assms by (cases "loadseg_loop pt va ip off sz 0 s") (auto simp: loadseg_def)
qed

lemma load_segs_fr [intro!]: "fr c s \<Longrightarrow> ok (fr c) third (load_segs im pt ip offs sz s)"
  by (induction offs arbitrary: sz s) (simp_all add: Let_def, safe, simp_all)

lemma push_args_fr [intro!]: "fr c s \<Longrightarrow> ok (fr c) (\<lambda>x. snd (third x)) (push_args pt base argv sp us s)"
  by (induction argv arbitrary: sp us s) (simp_all add: Let_def, safe, simp_all)

lemmas ok_fr4 [intro!] = ok_bnd [where P = "fr c" and Q = "fr c" and st = "\<lambda>x. snd (third x)" for c]

lemma exec_fail_fr [intro!]: "fr c s \<Longrightarrow> ok (fr c) snd (exec_fail im pt sz ip s)"
  unfolding exec_fail_def by (safe; simp)

lemma exec_stack_fr [intro!]: "fr c s \<Longrightarrow> ok (fr c) snd (exec_stack im p path argv entry pt sz s)"
  unfolding exec_stack_def exec_commit_def Let_def by (safe; simp)

lemma exec_fr [intro!]: "fr c s \<Longrightarrow> ok (fr c) snd (exec im path argv s)"
  unfolding exec_def Let_def by (safe; simp)

lemma fetch_args_fr [intro!]: "fr c s \<Longrightarrow> ok (fr c) third (fetch_args uargv is argv s)"
  by (induction "is" arbitrary: argv s) (simp_all add: Let_def, safe, simp_all)

lemma free_args_fr [intro!]: "fr c s \<Longrightarrow> ok (fr c) this (free_args kend argv s)"
  by (induction argv arbitrary: s) (simp_all, safe, simp_all)

lemma sys_exec_fr [intro!]: "fr c s \<Longrightarrow> ok (fr c) snd (sys_exec im s)"
  unfolding sys_exec_def by (safe; simp)

section \<open>The other system calls and interrupts\<close>

lemma backtrace_fr [intro!]: "fr c s \<Longrightarrow> ok (fr c) this (backtrace fp s)"
proof -
  have "fr c s \<Longrightarrow> ok (fr c) this (backtrace_loop fp s)"
  proof (induction fp s rule: backtrace_loop.induct)
    case (1 fp s)
    show ?case unfolding backtrace_loop.simps [of fp] Let_def
      by (safe intro!: 1; (assumption | rule refl | blast | simp add: 1(2)))
  qed
  then show "fr c s \<Longrightarrow> ok (fr c) this (backtrace fp s)" by (simp add: backtrace_def)
qed

lemma vmprint_fr [intro!]: "fr c s \<Longrightarrow> ok (fr c) this (vmprint pt s)"
proof -
  have [intro!]: "fr c s \<Longrightarrow> ok (fr c) this (vmprint_rec pt level i s)" for pt level i s
  proof (induction pt level i s rule: vmprint_rec.induct)
    case (1 pt level i s)
    show ?case unfolding vmprint_rec.simps [of pt level i] Let_def
      by (safe intro!: 1; (assumption | rule refl | blast | simp add: 1))
  qed
  show "fr c s \<Longrightarrow> ok (fr c) this (vmprint pt s)" unfolding vmprint_def by (safe; simp)
qed

lemma sys_sleep_fr [intro!]: "fr c s \<Longrightarrow> ok (fr c) snd (sys_sleep fp s)"
  unfolding sys_sleep_def sleep_pass_def Let_def by (safe; simp)

lemma sys_proc_fr [intro!]:
  "fr c s \<Longrightarrow> ok (fr c) snd (sys_sbrk im s)" "fr c s \<Longrightarrow> ok (fr c) snd (sys_getpid s)" "fr c s \<Longrightarrow> ok (fr c) snd (sys_pgpte s)"
  "fr c s \<Longrightarrow> ok (fr c) snd (sys_kpgtbl s)"
  unfolding sys_sbrk_def sys_getpid_def sys_pgpte_def sys_kpgtbl_def Let_def by (safe; simp)+

lemma sys_uptime_fr [simp]: "ok (fr c) snd (sys_uptime s) = fr c s"
  by (simp add: sys_uptime_def)

lemma sys_kill_fr [intro!]: "fr c s \<Longrightarrow> ok (fr c) snd (sys_kill s)"
  by (auto simp: sys_kill_def split_beta fr_sk)

lemma sys_rw_fr [intro!]: "fr c s \<Longrightarrow> ok (fr c) snd (sys_read s)" "fr c s \<Longrightarrow> ok (fr c) snd (sys_write s)" "fr c s \<Longrightarrow> ok (fr c) snd (sys_fstat pad s)"
  unfolding sys_read_def sys_write_def sys_fstat_def by (safe; simp)+

lemma sync_ret_fr:
  assumes "fr c s" "\<And>y. sk c (sy_sched y) \<Longrightarrow> ok (\<lambda>y. sk c (sy_sched y)) snd (f y)"
  shows "ok (fr c) snd (sync_ret f s)"
proof -
  have "ok (\<lambda>y. sk c (sy_sched y)) snd (f ((k_sync s)\<lparr>sy_sched := k_sched s\<rparr>))" using fr_sk [OF assms(1)] assms(2) by simp
  then show ?thesis using assms(1) by (auto simp: ok_def sync_ret_def on_sync_def res_simps)
qed

lemma sync_sk:
  "sk c (sy_sched y) \<Longrightarrow> sk c (sy_sched (sync_wakeup ch y))" "sk c (sy_sched (upd_sem i f y)) = sk c (sy_sched y)"
  "sk c (sy_sched (upd_rw i g y)) = sk c (sy_sched y)" "sk c (sy_sched y) \<Longrightarrow> ok (\<lambda>y. sk c (sy_sched y)) snd (sync_sleep ch y)"
proof -
  show "sk c (sy_sched y) \<Longrightarrow> ok (\<lambda>y. sk c (sy_sched y)) snd (sync_sleep ch y)"
    using sleep_sk [of c "sy_sched y" ch] by (auto simp: ok_def sync_sleep_def res_simps)
qed (auto simp: sync_wakeup_def upd_sem_def upd_rw_def)

lemma sys_sync_fr [intro!]:
  assumes "fr c s"
  shows "ok (fr c) snd (sys_sem_init s)" "ok (fr c) snd (sys_sem_wait s)" "ok (fr c) snd (sys_sem_signal s)" "ok (fr c) snd (sys_rw_init s)"
    "ok (fr c) snd (sys_rw_rlock s)" "ok (fr c) snd (sys_rw_runlock s)" "ok (fr c) snd (sys_rw_wlock s)" "ok (fr c) snd (sys_rw_wunlock s)"
  unfolding sys_sem_init_def sys_sem_wait_def sys_sem_signal_def sys_rw_init_def sys_rw_rlock_def sys_rw_runlock_def
    sys_rw_wlock_def sys_rw_wunlock_def
  by (intro arg_fr sync_ret_fr assms; auto simp: pure_sync_def sem_init_k_def sem_wait_k_def sem_signal_k_def rw_init_k_def rw_rlock_k_def
    rw_runlock_k_def rw_wlock_k_def rw_wlock_pass_def rw_wlock_enter_def rw_wunlock_k_def Let_def sync_sk)+

lemma age_queue_sk:
  assumes "age_queue pr cur d = Some r"
  shows "sk c d \<longrightarrow> ok (sk c) this r"
proof (rule age_queue.raw_induct [OF _ assms], intro impI)
  fix f pr cur s r
  assume ih: "\<And>pr cur s r. f pr cur s = Some r \<Longrightarrow> sk c s \<longrightarrow> ok (sk c) this r"
    and e: "(case cur of None \<Rightarrow> Some (Inr s)
      | Some c \<Rightarrow> let s = upd_proc c (\<lambda>x. x\<lparr>p_wait_ticks := p_wait_ticks x + 1\<rparr>) s
          in if AGING_TICKS \<le> p_wait_ticks (procs s c) \<and> PRIO_MIN < p_prio (procs s c)
             then let next = p_rq_next (procs s c)
                  in case rq_remove pr c s of Inl e \<Rightarrow> Some (Inl e)
                     | Inr s \<Rightarrow> let s = upd_proc c (\<lambda>x. x\<lparr>p_prio := p_prio x - 1\<rparr>) s; s = upd_proc c (\<lambda>x. x\<lparr>p_wait_ticks := 0\<rparr>) s
                         in f pr next (rq_push_tail (p_prio (procs s c)) c s)
             else f pr (p_rq_next (procs s c)) s) = Some r"
    and s: "sk c s"
  have rm: "rq_remove pr p (upd_proc p (\<lambda>x. x\<lparr>p_wait_ticks := p_wait_ticks x + 1\<rparr>) s) = Inr t \<Longrightarrow> sk c t" for p t
    using rq_remove_sk [of c "upd_proc p (\<lambda>x. x\<lparr>p_wait_ticks := p_wait_ticks x + 1\<rparr>) s" pr p] s by (simp add: ok_def)
  show "ok (sk c) this r"
    using e s rm ih [of pr] by (auto simp: Let_def split: option.splits if_splits sum.splits)
qed

lemma prio_on_tick_sk [intro!]: "sk c d \<Longrightarrow> ok (sk c) this (prio_on_tick d)"
proof -
  have "sk c d \<Longrightarrow> ok (sk c) this (of_loop (age_queue pr cur d))" for pr cur d
    using age_queue_sk [of pr cur d _ c] by (cases "age_queue pr cur d") auto
  then have "sk c d \<Longrightarrow> ok (sk c) this (age_queues prs d)" for prs
    by (induction prs arbitrary: d) auto
  then show "sk c d \<Longrightarrow> ok (sk c) this (prio_on_tick d)" by (simp add: prio_on_tick_def)
qed

lemma timer_sk [intro!]: "sk c d \<Longrightarrow> ok (sk c) this (usertrap_timer p d)" "sk c d \<Longrightarrow> ok (sk c) this (kerneltrap_timer d)"
  by (auto simp: usertrap_timer_def kerneltrap_timer_def Let_def)

lemma virtio_disk_intr_fr [intro!]: "fr c s \<Longrightarrow> ok (fr c) this (virtio_disk_intr rd s)"
proof -
  have [simp]: "fr c (upd_vd f s) = fr c s" for f and s :: "'a ksys_scheme" by (simp add: upd_vd_def fr_def)
  have "fr c s \<Longrightarrow> ok (fr c) this (virtio_disk_intr_loop s)" for s :: "'a ksys_scheme"
  proof (induction s rule: virtio_disk_intr_loop.induct)
    case (1 s)
    show ?case unfolding virtio_disk_intr_loop.simps [of s] Let_def
      by (safe intro!: 1; (assumption | rule refl | blast | simp add: 1(2) k_wakeup_fr))
  qed
  then show "fr c s \<Longrightarrow> ok (fr c) this (virtio_disk_intr rd s)" by (simp add: virtio_disk_intr_def write_vreg_def)
qed

lemma uartintr_fr [intro!]: "fr c s \<Longrightarrow> ok (fr c) this (uartintr s)"
proof -
  have g: "fr c (snd (uartgetc s)) = fr c s" for s :: "'a ksys_scheme" by (simp add: uartgetc_def Let_def fr_def read_lsr_def)
  have "fr c s \<longrightarrow> ok (fr c) this r" if "uartintr_loop s = Some r" for r
  proof (rule uartintr_loop.raw_induct [OF _ that], intro impI)
    fix f and s :: "'a ksys_scheme" and r
    assume ih: "\<And>s r. f s = Some r \<Longrightarrow> fr c s \<longrightarrow> ok (fr c) this r"
      and e: "(let ch = fst (uartgetc s); s = snd (uartgetc s) in if ch = -1 then Some (Inr s)
        else case consoleintr ch s of Inl e \<Rightarrow> Some (Inl e) | Inr s \<Rightarrow> f s) = Some r" and s: "fr c s"
    have "consoleintr ch (snd (uartgetc s)) = Inr t \<Longrightarrow> fr c t" for ch t
      using consoleintr_fr [of c "snd (uartgetc s)" ch] s g by (simp add: ok_def)
    then show "ok (fr c) this r" using e s g ih by (auto simp: Let_def split: if_splits sum.splits)
  qed
  then show "fr c s \<Longrightarrow> ok (fr c) this (uartintr s)"
    by (cases "uartintr_loop s") (auto simp: uartintr_def)
qed

lemma devintr_fr [intro!]: "fr c s \<Longrightarrow> ok (fr c) snd (devintr e s)"
  by (auto simp: devintr_def clockintr_def plic_complete_def Let_def fr_sk)

end
