(* ===== verification/Cache.thy ===== *)
theory Cache
  imports Bio
begin

text \<open>
  Correctness of the buffer cache.  The buffers form one circular doubly linked list with the
  most recently released buffer first; the two searches of \<open>bget\<close> are searches of that list
  and always end.  No block of a real device is cached twice, and the cache is transparent:
  \<open>bread\<close> returns the current contents of the block and changes the contents of none.
\<close>

section \<open>Doubly linked lists\<close>

lemma find_member: "find P xs = Some x \<Longrightarrow> x \<in> set xs \<and> P x"
  by (induction xs) (auto split: if_splits)

text \<open>\<open>seg n p a xs c\<close>: the links \<open>n\<close> lead from \<open>a\<close> through \<open>xs\<close> to \<open>c\<close>, and \<open>p\<close> leads back.\<close>

fun seg :: "(nat \<Rightarrow> nat) \<Rightarrow> (nat \<Rightarrow> nat) \<Rightarrow> nat \<Rightarrow> nat list \<Rightarrow> nat \<Rightarrow> bool" where
  "seg n p a [] c \<longleftrightarrow> n a = c \<and> p c = a"
| "seg n p a (x # xs) c \<longleftrightarrow> n a = x \<and> p x = a \<and> seg n p x xs c"

lemma seg_append: "seg n p a (xs @ y # ys) c \<longleftrightarrow> seg n p a xs y \<and> seg n p y ys c"
  by (induction xs arbitrary: a) auto

lemma seg_frame:
  assumes "seg n p a xs c" "\<forall>x \<in> set (a # xs). n' x = n x" "\<forall>x \<in> set (c # xs). p' x = p x"
  shows "seg n' p' a xs c"
  using assms by (induction xs arbitrary: a) auto

lemma seg_ends:
  assumes "seg n p a xs c"
  shows "n a \<in> set xs \<union> {c}" "p c \<in> set xs \<union> {a}"
  using assms by (induction xs arbitrary: a) auto

lemma seg_remove:
  assumes "seg n p a us b" "seg n p b vs c" "distinct (a # us @ b # vs)" "distinct (us @ b # vs @ [c])"
  shows "seg (n(p b := n b)) (p(n b := p b)) a (us @ vs) c"
  using assms
proof (induction us arbitrary: a)
  case Nil
  then show ?case
  proof (cases vs)
    case (Cons v ws)
    with Nil show ?thesis by (auto elim: seg_frame)
  qed auto
next
  case (Cons x us)
  have rest: "seg (n(p b := n b)) (p(n b := p b)) x (us @ vs) c"
    using Cons.prems by (intro Cons.IH) auto
  have "p b \<in> set us \<union> {x}" "n b \<in> set vs \<union> {c}"
    using seg_ends(2) [of n p x us b] seg_ends(1) [OF Cons.prems(2)] Cons.prems(1) by simp_all
  then have "p b \<noteq> a" "n b \<noteq> x" using Cons.prems(3,4) by auto
  with rest Cons.prems(1) show ?case by (simp add: fun_upd_def)
qed

lemma seg_insert:
  assumes "seg n p a xs c" "b \<notin> set xs" "b \<noteq> a" "b \<noteq> c" "distinct (a # xs)" "distinct (xs @ [c])"
  shows "seg (n(b := n a, a := b)) (p(b := a, n a := b)) a (b # xs) c"
proof (cases xs)
  case Nil
  then show ?thesis using assms by auto
next
  case (Cons x ys)
  then have "n a = x" "p x = a" "seg n p x ys c" using assms(1) by auto
  moreover from this(3) have "seg (n(b := x, a := b)) (p(b := a, x := b)) x ys c"
    by (rule seg_frame) (use assms Cons in auto)
  ultimately show ?thesis using assms(2,3,4,5) Cons by (auto simp: fun_upd_def)
qed

definition b_ring :: "(nat \<Rightarrow> buf) \<Rightarrow> nat list \<Rightarrow> bool" where
  "b_ring f xs \<longleftrightarrow> seg (\<lambda>i. b_next (f i)) (\<lambda>i. b_prev (f i)) HEAD xs HEAD \<and> distinct xs \<and> set xs = {..<NBUF}"

section \<open>The searches\<close>

lemma bget_find_seg:
  assumes "seg (\<lambda>i. b_next (f i)) p a xs HEAD" "HEAD \<notin> set xs"
  shows "bget_find f d k (b_next (f a)) = Some (find (\<lambda>b. b_dev (f b) = d \<and> b_blockno (f b) = k) xs)"
  using assms
proof (induction xs arbitrary: a)
  case Nil
  then show ?case by (subst bget_find.simps) simp
next
  case (Cons x xs)
  then show ?case by (subst bget_find.simps) auto
qed

lemma bget_lru_seg:
  assumes "seg n (\<lambda>i. b_prev (f i)) HEAD xs c" "HEAD \<notin> set xs"
  shows "bget_lru f (b_prev (f c)) = Some (find (\<lambda>b. b_refcnt (f b) = 0) (rev xs))"
  using assms
proof (induction xs arbitrary: c rule: rev_induct)
  case Nil
  then show ?case by (subst bget_lru.simps) simp
next
  case (snoc x xs)
  then have "seg n (\<lambda>i. b_prev (f i)) HEAD xs x" "b_prev (f c) = x"
    by (simp_all add: seg_append [of _ _ _ _ x "[]", simplified])
  with snoc show ?case by (subst bget_lru.simps) auto
qed

lemma bget_find_ring:
  "b_ring f xs \<Longrightarrow>
   bget_find f d k (b_next (f HEAD)) = Some (find (\<lambda>b. b_dev (f b) = d \<and> b_blockno (f b) = k) xs)"
  by (rule bget_find_seg) (auto simp: b_ring_def)

lemma bget_lru_ring:
  "b_ring f xs \<Longrightarrow> bget_lru f (b_prev (f HEAD)) = Some (find (\<lambda>b. b_refcnt (f b) = 0) (rev xs))"
  by (rule bget_lru_seg) (auto simp: b_ring_def)

section \<open>Relinking\<close>

lemma upd_buf_bufs: "bufs (upd_buf b f s) = (bufs s)(b := f (bufs s b))"
  by (simp add: upd_buf_def)

lemma b_ring_cong:
  assumes "b_ring f xs" "\<forall>i. b_next (g i) = b_next (f i) \<and> b_prev (g i) = b_prev (f i)"
  shows "b_ring g xs"
  using assms by (simp add: b_ring_def)

lemma unlink_links:
  "(\<lambda>i. b_next (bufs (buf_unlink b s) i)) =
     (\<lambda>i. b_next (bufs s i))(b_prev (bufs s b) := b_next (bufs s b))"
  "(\<lambda>i. b_prev (bufs (buf_unlink b s) i)) =
     (\<lambda>i. b_prev (bufs s i))(b_next (bufs s b) := b_prev (bufs s b))"
  by (rule ext, simp add: buf_unlink_def Let_def upd_buf_bufs)+

lemma push_links:
  assumes "b \<noteq> HEAD"
  shows "(\<lambda>i. b_next (bufs (buf_push b s) i)) =
      (\<lambda>i. b_next (bufs s i))(b := b_next (bufs s HEAD), HEAD := b)"
    "(\<lambda>i. b_prev (bufs (buf_push b s) i)) =
      (\<lambda>i. b_prev (bufs s i))(b := HEAD, b_next (bufs s HEAD) := b)"
  using assms by (rule_tac [!] ext) (simp_all add: buf_push_def Let_def upd_buf_bufs)

text \<open>Relinking a buffer changes nothing but links.\<close>

definition core :: "buf \<Rightarrow> buf" where
  "core x = x\<lparr>b_next := 0, b_prev := 0\<rparr>"

lemma core_fields:
  assumes "core x = core y"
  shows "b_valid x = b_valid y" "b_disk x = b_disk y" "b_dev x = b_dev y" "b_blockno x = b_blockno y"
    "b_lock x = b_lock y" "b_refcnt x = b_refcnt y" "b_data x = b_data y"
  using assms by (cases x; cases y; simp add: core_def)+

lemma core_upd:
  "core (bufs (upd_buf c (\<lambda>x. x\<lparr>b_next := v\<rparr>) s) i) = core (bufs s i)"
  "core (bufs (upd_buf c (\<lambda>x. x\<lparr>b_prev := v\<rparr>) s) i) = core (bufs s i)"
  by (simp_all add: upd_buf_bufs core_def)

lemma relink_core: "core (bufs (buf_push b (buf_unlink b s)) i) = core (bufs s i)"
  by (simp only: buf_push_def buf_unlink_def Let_def core_upd)

lemma relink_state: "buf_push b (buf_unlink b s) = s\<lparr>bufs := bufs (buf_push b (buf_unlink b s))\<rparr>"
  by (simp add: buf_push_def buf_unlink_def Let_def upd_buf_def)

lemma relink_ring:
  assumes "b_ring (bufs s) xs" "b < NBUF"
  shows "b_ring (bufs (buf_push b (buf_unlink b s))) (b # remove1 b xs)"
proof -
  let ?n = "\<lambda>i. b_next (bufs s i)" and ?p = "\<lambda>i. b_prev (bufs s i)"
  obtain us vs where xs: "xs = us @ b # vs" "b \<notin> set us"
    using assms by (metis b_ring_def lessThan_iff split_list_first)
  have d: "distinct xs" "set xs = {..<NBUF}" and seg: "seg ?n ?p HEAD us b" "seg ?n ?p b vs HEAD"
    using assms(1) by (auto simp: b_ring_def xs seg_append)
  from d(2) have "HEAD \<notin> set xs" by auto
  with d(1) have "distinct (HEAD # us @ b # vs)" "distinct (us @ b # vs @ [HEAD])" by (auto simp: xs)
  from seg_remove [OF seg this]
  have "seg (\<lambda>i. b_next (bufs (buf_unlink b s) i)) (\<lambda>i. b_prev (bufs (buf_unlink b s) i)) HEAD (us @ vs) HEAD"
    by (simp add: unlink_links)
  moreover have "b \<noteq> HEAD" using assms(2) by simp
  ultimately have "seg (\<lambda>i. b_next (bufs (buf_push b (buf_unlink b s)) i))
      (\<lambda>i. b_prev (bufs (buf_push b (buf_unlink b s)) i)) HEAD (b # us @ vs) HEAD"
    unfolding push_links [OF \<open>b \<noteq> HEAD\<close>] using d(1) \<open>HEAD \<notin> set xs\<close>
    by (intro seg_insert) (auto simp: xs)
  moreover have "remove1 b xs = us @ vs" using xs by (simp add: remove1_append)
  moreover have "set (b # us @ vs) = {..<NBUF}" "distinct (b # us @ vs)" using d by (auto simp: xs)
  ultimately show ?thesis by (simp add: b_ring_def)
qed

section \<open>The invariant\<close>

definition cached :: "(nat \<Rightarrow> buf) \<Rightarrow> u32 \<Rightarrow> u32 \<Rightarrow> nat \<Rightarrow> bool" where
  "cached f d k b \<longleftrightarrow> b < NBUF \<and> b_dev (f b) = d \<and> b_blockno (f b) = k"

definition once :: "(nat \<Rightarrow> buf) \<Rightarrow> bool" where
  "once f \<longleftrightarrow> (\<forall>d k i j. d \<noteq> 0 \<longrightarrow> cached f d k i \<longrightarrow> cached f d k j \<longrightarrow> i = j)"

definition cache_inv :: "(nat \<Rightarrow> buf) \<Rightarrow> bool" where
  "cache_inv f \<longleftrightarrow> (\<exists>xs. b_ring f xs) \<and> once f \<and>
     (\<forall>b < NBUF. sl_locked (b_lock (f b)) \<longrightarrow> b_refcnt (f b) \<noteq> 0)"

text \<open>A buffer without users holds what is on the disk.\<close>

definition clean :: "'a bkern_scheme \<Rightarrow> bool" where
  "clean s \<longleftrightarrow> (\<forall>b < NBUF. b_valid (bufs s b) \<longrightarrow> b_refcnt (bufs s b) = 0 \<longrightarrow>
     b_data (bufs s b) = disk s (b_blockno (bufs s b)))"

text \<open>The contents of a block: of its buffer if it has one, else of the disk.\<close>

definition content :: "'a bkern_scheme \<Rightarrow> u32 \<Rightarrow> u32 \<Rightarrow> byte list" where
  "content s d k =
     (case find (\<lambda>b. cached (bufs s) d k b \<and> b_valid (bufs s b)) [0..<NBUF] of
        Some b \<Rightarrow> b_data (bufs s b) | None \<Rightarrow> disk s k)"

lemma content_cached:
  assumes "once (bufs s)" "d \<noteq> 0" "cached (bufs s) d k b" "b_valid (bufs s b)"
  shows "content s d k = b_data (bufs s b)"
proof (cases "find (\<lambda>b. cached (bufs s) d k b \<and> b_valid (bufs s b)) [0..<NBUF]")
  case None
  then show ?thesis using assms(3,4) by (auto simp: find_None_iff cached_def)
next
  case (Some c)
  then have "cached (bufs s) d k c" by (auto simp: find_Some_iff)
  with assms have "c = b" by (auto simp: once_def)
  with Some show ?thesis by (simp add: content_def)
qed

lemma content_uncached:
  assumes "\<And>b. cached (bufs s) d k b \<Longrightarrow> \<not> b_valid (bufs s b)"
  shows "content s d k = disk s k"
proof -
  have "find (\<lambda>b. cached (bufs s) d k b \<and> b_valid (bufs s b)) [0..<NBUF] = None"
    using assms by (auto simp: find_None_iff)
  then show ?thesis by (simp add: content_def)
qed

lemma cache_inv_core:
  assumes "cache_inv f" "b_ring g ys" "\<And>i. core (g i) = core (f i)"
  shows "cache_inv g"
proof -
  note eq = core_fields [OF assms(3)]
  show ?thesis using assms(1,2) by (auto simp: cache_inv_def once_def cached_def eq)
qed

lemma content_core:
  assumes "\<And>i. core (bufs t i) = core (bufs s i)" "disk t = disk s"
  shows "content t d k = content s d k"
proof -
  note eq = core_fields [OF assms(1)]
  show ?thesis by (simp add: content_def cached_def eq assms(2) cong: option.case_cong)
qed

section \<open>Reading a block\<close>

definition my_pid :: "sched \<Rightarrow> int" where
  "my_pid d = (case myproc d of Some p \<Rightarrow> p_pid (procs d p) | None \<Rightarrow> 0)"

definition my_lock :: "sched \<Rightarrow> sleeplock" where
  "my_lock d = \<lparr>sl_locked = True, sl_pid = my_pid d\<rparr>"

text \<open>Buffer \<open>b\<close>, changed to \<open>X\<close>, is the result of reading a block.\<close>

definition fetched :: "'a bkern_scheme \<Rightarrow> u32 \<Rightarrow> u32 \<Rightarrow> nat \<Rightarrow> buf \<Rightarrow> bool" where
  "fetched s d k b X \<longleftrightarrow> b < NBUF \<and> b_dev X = d \<and> b_blockno X = k \<and> b_valid X \<and> b_data X = content s d k \<and>
     b_lock X = my_lock (k_sched s) \<and> b_next X = b_next (bufs s b) \<and> b_prev X = b_prev (bufs s b) \<and>
     b_refcnt X = b_refcnt (bufs s b) + 1 \<and>
     (cached (bufs s) d k b \<or> (\<forall>c. \<not> cached (bufs s) d k c) \<and> b_refcnt (bufs s b) = 0)"

lemma lock_buf_free:
  assumes "myproc (k_sched s) = Some p" "\<not> sl_locked (b_lock (bufs s b))"
  shows "lock_buf b s = Inr (upd_buf b (\<lambda>x. x\<lparr>b_lock := my_lock (k_sched s)\<rparr>) s)"
proof -
  have "(b_lock (bufs s b))\<lparr>sl_locked := True, sl_pid := my_pid (k_sched s)\<rparr> = my_lock (k_sched s)"
    by (cases "b_lock (bufs s b)") (simp add: my_lock_def)
  then show ?thesis
    using assms by (simp add: lock_buf_def acquiresleep_def with_proc_def my_pid_def bnd_def)
qed

lemma bread_ok:
  assumes inv: "cache_inv (bufs s)" and "d \<noteq> 0" and p: "myproc (k_sched s) = Some p"
    and unlocked: "\<And>b. cached (bufs s) d k b \<Longrightarrow> \<not> sl_locked (b_lock (bufs s b))"
    and room: "(\<exists>b. cached (bufs s) d k b) \<or> (\<exists>b < NBUF. b_refcnt (bufs s b) = 0)"
  shows "\<exists>b X. bread d k s = Inr (b, s\<lparr>bufs := (bufs s)(b := X)\<rparr>) \<and> fetched s d k b X"
proof -
  obtain xs where xs: "b_ring (bufs s) xs" using inv by (auto simp: cache_inv_def)
  then have set_xs: "set xs = {..<NBUF}" by (simp add: b_ring_def)
  show ?thesis
  proof (cases "find (\<lambda>b. b_dev (bufs s b) = d \<and> b_blockno (bufs s b) = k) xs")
    case (Some b)
    then have b: "cached (bufs s) d k b" using set_xs by (auto simp: find_Some_iff cached_def)
    let ?X = "(bufs s b)\<lparr>b_valid := True, b_lock := my_lock (k_sched s), b_refcnt := b_refcnt (bufs s b) + 1,
      b_data := if b_valid (bufs s b) then b_data (bufs s b) else disk s k\<rparr>"
    have "bread d k s = Inr (b, s\<lparr>bufs := (bufs s)(b := ?X)\<rparr>)"
      using b unlocked [OF b] p Some
      by (cases "bufs s b")
        (simp add: bread_def bget_def bget_find_ring [OF xs] lock_buf_free upd_buf_def bnd_def disk_rw_def cached_def)
    moreover have "b_data ?X = content s d k"
    proof (cases "b_valid (bufs s b)")
      case True
      then show ?thesis using content_cached [OF _ assms(2) b] inv by (simp add: cache_inv_def)
    next
      case False
      have "content s d k = disk s k"
        by (rule content_uncached) (use inv assms(2) b False in \<open>auto simp: cache_inv_def once_def\<close>)
      with False show ?thesis by simp
    qed
    then have "fetched s d k b ?X" using b by (simp add: fetched_def cached_def)
    ultimately show ?thesis by blast
  next
    case None
    then have nc: "\<forall>c. \<not> cached (bufs s) d k c" using set_xs by (auto simp: find_None_iff cached_def)
    with room set_xs obtain c where "c \<in> set (rev xs)" "b_refcnt (bufs s c) = 0" by auto
    then obtain b where b: "find (\<lambda>b. b_refcnt (bufs s b) = 0) (rev xs) = Some b"
      by (cases "find (\<lambda>b. b_refcnt (bufs s b) = 0) (rev xs)") (auto simp: find_None_iff)
    then have "b \<in> set (rev xs)" "b_refcnt (bufs s b) = 0" using find_member by fastforce+
    then have r: "b < NBUF" "b_refcnt (bufs s b) = 0" using set_xs by auto
    then have l: "\<not> sl_locked (b_lock (bufs s b))" using inv by (auto simp: cache_inv_def)
    let ?X = "(bufs s b)\<lparr>b_valid := True, b_dev := d, b_blockno := k, b_lock := my_lock (k_sched s),
      b_refcnt := 1, b_data := disk s k\<rparr>"
    have "bread d k s = Inr (b, s\<lparr>bufs := (bufs s)(b := ?X)\<rparr>)"
      using l p None b
      by (cases "bufs s b")
        (simp add: bread_def bget_def bget_find_ring [OF xs] bget_lru_ring [OF xs] lock_buf_free upd_buf_def
          bnd_def disk_rw_def)
    moreover have "content s d k = disk s k" by (rule content_uncached) (use nc in auto)
    then have "fetched s d k b ?X" using nc r by (simp add: fetched_def)
    ultimately show ?thesis by blast
  qed
qed

text \<open>Reading a block keeps the cache consistent and the contents of all blocks.\<close>

definition roomy :: "(nat \<Rightarrow> buf) \<Rightarrow> bool" where
  "roomy f \<longleftrightarrow> (\<forall>b < NBUF. b_refcnt (f b) \<noteq> - 1)"

lemma fetched_inv:
  assumes "cache_inv (bufs s)" "fetched s d k b X" "d \<noteq> 0" "roomy (bufs s)"
  shows "cache_inv ((bufs s)(b := X))"
proof -
  let ?f = "(bufs s)(b := X)"
  obtain xs where "b_ring (bufs s) xs" using assms(1) by (auto simp: cache_inv_def)
  then have "b_ring ?f xs" by (rule b_ring_cong) (use assms(2) in \<open>simp add: fetched_def\<close>)
  moreover have only: "c = b" if "cached ?f d k c" for c
  proof (rule ccontr)
    assume "c \<noteq> b"
    with that have "cached (bufs s) d k c" by (simp add: cached_def)
    with assms(1,2,3) \<open>c \<noteq> b\<close> show False by (auto simp: fetched_def cache_inv_def once_def)
  qed
  have "once ?f" unfolding once_def
  proof (intro allI impI)
    fix e j c c'
    assume "e \<noteq> 0" and c: "cached ?f e j c" "cached ?f e j c'"
    show "c = c'"
    proof (cases "c = b \<or> c' = b")
      case True
      then have "e = d" "j = k" using c assms(2) by (auto simp: cached_def fetched_def)
      with c only show ?thesis by blast
    next
      case False
      then have "cached (bufs s) e j c" "cached (bufs s) e j c'" using c by (auto simp: cached_def)
      with assms(1) \<open>e \<noteq> 0\<close> show ?thesis by (auto simp: cache_inv_def once_def)
    qed
  qed
  moreover have "b_refcnt X \<noteq> 0"
  proof
    assume "b_refcnt X = 0"
    then have "b_refcnt (bufs s b) = - 1" using assms(2) by (simp add: fetched_def eq_neg_iff_add_eq_0)
    then show False using assms(2,4) by (simp add: fetched_def roomy_def)
  qed
  ultimately show ?thesis using assms(1) by (auto simp: cache_inv_def)
qed

lemma fetched_content:
  assumes "cache_inv (bufs s)" "clean s" "fetched s d k b X" "d \<noteq> 0" "roomy (bufs s)" "e \<noteq> 0"
  shows "content (s\<lparr>bufs := (bufs s)(b := X)\<rparr>) e j = content s e j"
proof -
  let ?t = "s\<lparr>bufs := (bufs s)(b := X)\<rparr>"
  have once: "once (bufs s)" "once (bufs ?t)"
    using assms(1) fetched_inv [OF assms(1,3,4,5)] by (simp_all add: cache_inv_def)
  show ?thesis
  proof (cases "e = d \<and> j = k")
    case True
    then have "cached (bufs ?t) e j b" "b_valid (bufs ?t b)" using assms(3) by (simp_all add: fetched_def cached_def)
    from content_cached [OF once(2) assms(6) this] show ?thesis using assms(3) True by (simp add: fetched_def)
  next
    case False
    then have same: "cached (bufs ?t) e j c \<longleftrightarrow> cached (bufs s) e j c \<and> c \<noteq> b" for c
      using assms(3) by (auto simp: fetched_def cached_def)
    show ?thesis
    proof (cases "\<exists>c. cached (bufs s) e j c \<and> b_valid (bufs s c)")
      case True
      then obtain c where c: "cached (bufs s) e j c" "b_valid (bufs s c)" by blast
      show ?thesis
      proof (cases "c = b")
        case True
        then have "b_refcnt (bufs s b) = 0" using False assms(3) c(1) by (auto simp: fetched_def cached_def)
        then have "b_data (bufs s b) = disk s j" using assms(2) c True by (auto simp: clean_def cached_def)
        moreover have "content ?t e j = disk ?t j"
          by (rule content_uncached) (use once(1) assms(6) c(1) True same in \<open>auto simp: once_def\<close>)
        ultimately show ?thesis using content_cached [OF once(1) assms(6) c] True by simp
      next
        case False
        then have "cached (bufs ?t) e j c" "b_valid (bufs ?t c)" using c same by auto
        from content_cached [OF once(2) assms(6) this] content_cached [OF once(1) assms(6) c] False
        show ?thesis by simp
      qed
    next
      case False
      then have "content s e j = disk s j" by (intro content_uncached) auto
      moreover have "content ?t e j = disk ?t j" by (rule content_uncached) (use False same in auto)
      ultimately show ?thesis by simp
    qed
  qed
qed

lemma fetched_clean:
  assumes "clean s" "fetched s d k b X" "b_refcnt X \<noteq> 0"
  shows "clean (s\<lparr>bufs := (bufs s)(b := X)\<rparr>)"
  using assms by (auto simp: clean_def)

section \<open>Waking up\<close>

lemma rq_push_tail_me:
  "s_cpu (rq_push_tail pr p s) = s_cpu s" "p_pid (procs (rq_push_tail pr p s) q) = p_pid (procs s q)"
  by (cases "q_tail (rq s pr)"; simp add: rq_push_tail_def set_rq_next_def upd_proc_def upd_q_def Let_def)+

lemma prio_enqueue_me:
  "myproc (prio_enqueue p s) = myproc s" "p_pid (procs (prio_enqueue p s) q) = p_pid (procs s q)"
  by (simp_all add: prio_enqueue_def Let_def myproc_def rq_push_tail_me upd_proc_def split: option.split)

lemma wake_proc_me:
  "myproc (wake_proc p s) = myproc s" "p_pid (procs (wake_proc p s) q) = p_pid (procs s q)"
  by (simp_all add: wake_proc_def prio_enqueue_me) (simp_all add: upd_proc_def myproc_def)

lemma wakeup_fold_me:
  "myproc (fold (wakeup_one ch) ps s) = myproc s \<and> p_pid (procs (fold (wakeup_one ch) ps s) q) = p_pid (procs s q)"
  by (induction ps arbitrary: s) (simp_all add: wakeup_one_def wake_proc_me)

lemma wakeup_me [simp]: "myproc (wakeup ch s) = myproc s" "my_pid (wakeup ch s) = my_pid s"
  "my_lock (wakeup ch s) = my_lock s"
  using wakeup_fold_me [of ch "[0..<NPROC]" s]
  by (simp_all add: wakeup_def my_lock_def my_pid_def split: option.split)

section \<open>Releasing a block\<close>

definition released :: "buf \<Rightarrow> buf" where
  "released x = x\<lparr>b_lock := initsleeplock, b_refcnt := b_refcnt x - 1\<rparr>"

lemma released_sel [simp]:
  "b_valid (released x) = b_valid x" "b_dev (released x) = b_dev x" "b_blockno (released x) = b_blockno x"
  "b_data (released x) = b_data x" "b_next (released x) = b_next x" "b_prev (released x) = b_prev x"
  "b_refcnt (released x) = b_refcnt x - 1" "b_lock (released x) = initsleeplock"
  by (simp_all add: released_def)

lemma holding_mine:
  assumes "myproc d = Some p" "lk = my_lock d"
  shows "holdingsleep lk d = Inr True"
  using assms by (simp add: holdingsleep_def with_proc_def my_lock_def my_pid_def)

lemma brelse_ok:
  assumes inv: "cache_inv (bufs s)" and b: "b < NBUF" "b_lock (bufs s b) = my_lock (k_sched s)"
    and p: "myproc (k_sched s) = Some p"
  shows "\<exists>g. brelse b s = Inr (s\<lparr>k_sched := wakeup (Some (Ch_buf b)) (k_sched s), bufs := g\<rparr>) \<and> cache_inv g \<and>
    (\<forall>i. core (g i) = core (((bufs s)(b := released (bufs s b))) i))"
proof -
  let ?f = "(bufs s)(b := released (bufs s b))" and ?k = "wakeup (Some (Ch_buf b)) (k_sched s)"
  let ?t = "s\<lparr>k_sched := ?k, bufs := ?f\<rparr>"
  obtain xs where xs: "b_ring (bufs s) xs" using inv by (auto simp: cache_inv_def)
  have f: "b_ring ?f xs" using xs by (rule b_ring_cong) simp
  have inv_f: "cache_inv ?f"
    using inv f by (auto simp: cache_inv_def once_def cached_def initsleeplock_def)
  have lk: "(my_lock (k_sched s))\<lparr>sl_locked := False, sl_pid := 0\<rparr> = initsleeplock"
    by (simp add: my_lock_def initsleeplock_def)
  have r: "brelse b s = Inr (if b_refcnt (released (bufs s b)) = 0 then buf_push b (buf_unlink b ?t) else ?t)"
    using p b by (cases "bufs s b")
      (simp add: brelse_def holding_mine [OF p] bnd_def releasesleep_def lk upd_buf_def released_def Let_def)
  show ?thesis
  proof (cases "b_refcnt (released (bufs s b)) = 0")
    case True
    let ?g = "bufs (buf_push b (buf_unlink b ?t))"
    have "b_ring ?g (b # remove1 b xs)" using relink_ring [of ?t xs b] f b by simp
    moreover have core: "core (?g i) = core (?f i)" for i using relink_core [of b ?t i] by simp
    ultimately have "cache_inv ?g" using cache_inv_core [OF inv_f, of ?g] by blast
    moreover have "buf_push b (buf_unlink b ?t) = s\<lparr>k_sched := ?k, bufs := ?g\<rparr>"
      using relink_state [of b ?t] by simp
    ultimately show ?thesis using r True core by (intro exI [of _ ?g]) simp
  next
    case False
    with r inv_f show ?thesis by (intro exI [of _ ?f]) simp
  qed
qed

section \<open>Sessions\<close>

text \<open>
  \<open>busy d P H s\<close>: one device \<open>d\<close> is in use, the blocks \<open>P\<close> are pinned, and the running
  process holds the buffers \<open>H\<close> and no other process holds any.
\<close>

definition pin :: "u32 \<Rightarrow> u32 set \<Rightarrow> buf \<Rightarrow> u32" where
  "pin d P x = (if b_dev x = d \<and> b_blockno x \<in> P then 1 else 0)"

definition busy :: "u32 \<Rightarrow> u32 set \<Rightarrow> nat set \<Rightarrow> 'a bkern_scheme \<Rightarrow> bool" where
  "busy d P H s \<longleftrightarrow> cache_inv (bufs s) \<and> clean s \<and> d \<noteq> 0 \<and> (\<exists>p. myproc (k_sched s) = Some p) \<and> H \<subseteq> {..<NBUF} \<and>
     (\<forall>b < NBUF. b_refcnt (bufs s b) = pin d P (bufs s b) + (if b \<in> H then 1 else 0)) \<and>
     (\<forall>b < NBUF. b \<notin> H \<longrightarrow> \<not> sl_locked (b_lock (bufs s b))) \<and>
     (\<forall>b \<in> H. b_lock (bufs s b) = my_lock (k_sched s) \<and> b_valid (bufs s b)) \<and>
     (\<forall>b < NBUF. b_valid (bufs s b) \<longrightarrow> b_dev (bufs s b) = d) \<and>
     (\<forall>k \<in> P. \<exists>b. cached (bufs s) d k b \<and> b_valid (bufs s b))"

lemma busyD:
  assumes "busy d P H s"
  shows "cache_inv (bufs s)" "clean s" "d \<noteq> 0" "\<exists>p. myproc (k_sched s) = Some p" "H \<subseteq> {..<NBUF}" "once (bufs s)"
    "b < NBUF \<Longrightarrow> b_refcnt (bufs s b) = pin d P (bufs s b) + (if b \<in> H then 1 else 0)"
    "b < NBUF \<Longrightarrow> b \<notin> H \<Longrightarrow> \<not> sl_locked (b_lock (bufs s b))"
    "b \<in> H \<Longrightarrow> b_lock (bufs s b) = my_lock (k_sched s)" "b \<in> H \<Longrightarrow> b_valid (bufs s b)"
    "b < NBUF \<Longrightarrow> b_valid (bufs s b) \<Longrightarrow> b_dev (bufs s b) = d"
    "k \<in> P \<Longrightarrow> \<exists>b. cached (bufs s) d k b \<and> b_valid (bufs s b)"
  using assms by (auto simp: busy_def cache_inv_def)

lemma busy_roomy: "busy d P H s \<Longrightarrow> roomy (bufs s)"
proof -
  assume "busy d P H s"
  then have "b_refcnt (bufs s b) \<in> {0, 1, 2}" if "b < NBUF" for b
    using busyD(7) [of d P H s b] that by (auto simp: pin_def)
  moreover have "- 1 \<notin> {0, 1, 2 :: u32}" by simp
  ultimately show ?thesis unfolding roomy_def by metis
qed

lemma busy_free:
  assumes "busy d P H s" "finite P" "card P + card H < NBUF"
  shows "\<exists>b < NBUF. b_refcnt (bufs s b) = 0"
proof (rule ccontr)
  assume none: "\<not> ?thesis"
  let ?B = "{..<NBUF} - H"
  have "b_dev (bufs s b) = d \<and> b_blockno (bufs s b) \<in> P" if "b \<in> ?B" for b
    using busyD(7) [OF assms(1), of b] that none by (auto simp: pin_def split: if_splits)
  then have P: "cached (bufs s) d (b_blockno (bufs s b)) b" "b_blockno (bufs s b) \<in> P" if "b \<in> ?B" for b
    using that by (auto simp: cached_def)
  have "inj_on (\<lambda>b. b_blockno (bufs s b)) ?B"
    using P(1) busyD(3,6) [OF assms(1)] unfolding inj_on_def once_def by metis
  then have "card ?B \<le> card P" using P(2) assms(2) by (intro card_inj_on_le) auto
  moreover have "card ?B = NBUF - card H"
    using busyD(5) [OF assms(1)] by (simp add: card_Diff_subset finite_subset)
  ultimately show False using assms(3) by simp
qed

lemma busy_bread:
  assumes busy: "busy d P H s" and H: "\<And>b. b \<in> H \<Longrightarrow> \<not> cached (bufs s) d k b"
    and room: "k \<in> P \<or> finite P \<and> card P + card H < NBUF"
  shows "\<exists>b X. bread d k s = Inr (b, s\<lparr>bufs := (bufs s)(b := X)\<rparr>) \<and> fetched s d k b X \<and> b \<notin> H \<and>
    busy d P (insert b H) (s\<lparr>bufs := (bufs s)(b := X)\<rparr>) \<and>
    (\<forall>j. content (s\<lparr>bufs := (bufs s)(b := X)\<rparr>) d j = content s d j)"
proof -
  note D = busyD [OF busy]
  have "(\<exists>b. cached (bufs s) d k b) \<or> (\<exists>b < NBUF. b_refcnt (bufs s b) = 0)"
    using room D(12) busy_free [OF busy] by blast
  moreover have unl: "\<not> sl_locked (b_lock (bufs s b))" if "cached (bufs s) d k b" for b
    using D(8) [of b] H that by (auto simp: cached_def)
  ultimately obtain b X where b: "bread d k s = Inr (b, s\<lparr>bufs := (bufs s)(b := X)\<rparr>)" and X: "fetched s d k b X"
    using bread_ok [OF D(1,3)] D(4) by blast
  let ?t = "s\<lparr>bufs := (bufs s)(b := X)\<rparr>"
  have lt: "b < NBUF" using X by (simp add: fetched_def)
  have nH: "b \<notin> H"
  proof
    assume "b \<in> H"
    then have "b_refcnt (bufs s b) \<noteq> 0" using D(1,9) lt by (auto simp: cache_inv_def my_lock_def)
    with X H \<open>b \<in> H\<close> show False by (auto simp: fetched_def)
  qed
  have hit: "cached (bufs s) d j c \<Longrightarrow> b_valid (bufs s c) \<Longrightarrow> j \<in> P \<Longrightarrow> \<exists>c. cached (bufs ?t) d j c \<and> b_valid (bufs ?t c)" for j c
  proof (cases "c = b")
    case True
    assume c: "cached (bufs s) d j c" "j \<in> P"
    with D(7) [OF lt] True have "b_refcnt (bufs s b) \<noteq> 0" by (auto simp: cached_def pin_def)
    with X True c have "j = k" by (auto simp: fetched_def cached_def)
    then show ?thesis using X by (intro exI [of _ b]) (simp add: cached_def fetched_def)
  next
    case False
    assume "cached (bufs s) d j c" "b_valid (bufs s c)"
    then show ?thesis using False by (intro exI [of _ c]) (simp add: cached_def)
  qed
  have kP: "cached (bufs s) d k b \<or> k \<notin> P" using X D(12) by (auto simp: fetched_def)
  have "busy d P (insert b H) ?t"
  proof -
    have "b_refcnt X = pin d P X + 1"
      using X kP D(7) [OF lt] nH by (auto simp: fetched_def cached_def pin_def)
    moreover have "cache_inv (bufs ?t)" using fetched_inv [OF D(1) X D(3) busy_roomy [OF busy]] by simp
    moreover have "clean ?t"
      using fetched_clean [OF D(2) X] \<open>cache_inv (bufs ?t)\<close> X lt by (auto simp: cache_inv_def fetched_def my_lock_def)
    moreover have "\<forall>j \<in> P. \<exists>c. cached (bufs ?t) d j c \<and> b_valid (bufs ?t c)"
      using D(12) hit by blast
    moreover have "\<forall>c < NBUF. b_valid (bufs ?t c) \<longrightarrow> b_dev (bufs ?t c) = d"
      using X D(11) by (simp add: fetched_def)
    ultimately show ?thesis using X lt nH D(3-10) by (simp add: busy_def fetched_def)
  qed
  then show ?thesis using b X nH fetched_content [OF D(1,2) X D(3) busy_roomy [OF busy] D(3)] by blast
qed

text \<open>Changing the data of a held buffer.\<close>

lemma busy_upd:
  fixes s :: "'a bkern_scheme" and D :: "byte list"
  assumes busy: "busy d P H s" and b: "b \<in> H"
  defines "t \<equiv> upd_buf b (\<lambda>x. x\<lparr>b_data := D\<rparr>) s"
  shows "busy d P H t" "content t d j = (if j = b_blockno (bufs s b) then D else content s d j)"
proof -
  note B = busyD [OF busy]
  have lt: "b < NBUF" using B(5) b by auto
  obtain xs where "b_ring (bufs s) xs" using B(1) by (auto simp: cache_inv_def)
  then have "b_ring (bufs t) xs" by (rule b_ring_cong) (simp add: t_def upd_buf_bufs)
  then have inv: "cache_inv (bufs t)" using B(1) by (auto simp: cache_inv_def once_def cached_def t_def upd_buf_bufs)
  have "b_refcnt (bufs s b) \<noteq> 0" using B(1) B(9) [OF b] lt by (auto simp: cache_inv_def my_lock_def)
  then have "clean t" using B(2) by (auto simp: clean_def t_def upd_buf_def)
  moreover have eq: "b_dev (bufs t c) = b_dev (bufs s c)" "b_blockno (bufs t c) = b_blockno (bufs s c)"
    "b_refcnt (bufs t c) = b_refcnt (bufs s c)" "b_lock (bufs t c) = b_lock (bufs s c)"
    "b_valid (bufs t c) = b_valid (bufs s c)" "k_sched t = k_sched s" for c
    by (simp_all add: t_def upd_buf_def)
  ultimately show "busy d P H t"
    using busy inv by (simp add: busy_def cached_def pin_def eq)
  have c: "cached (bufs t) d j c = cached (bufs s) d j c" "b_valid (bufs t c) = b_valid (bufs s c)" for c
    by (auto simp: t_def upd_buf_bufs cached_def)
  have self: "cached (bufs s) d (b_blockno (bufs s b)) b" using B(11) [OF lt B(10) [OF b]] lt by (simp add: cached_def)
  show "content t d j = (if j = b_blockno (bufs s b) then D else content s d j)"
  proof (cases "\<exists>c. cached (bufs s) d j c \<and> b_valid (bufs s c)")
    case True
    then obtain c where c': "cached (bufs s) d j c" "b_valid (bufs s c)" by blast
    then have "content s d j = b_data (bufs s c)" "content t d j = b_data (bufs t c)"
      using content_cached [OF B(6,3)] content_cached [OF _ B(3), of t j c] inv c by (auto simp: cache_inv_def)
    moreover have "c = b \<longleftrightarrow> j = b_blockno (bufs s b)"
      using c'(1) self B(3,6) by (auto simp: once_def cached_def)
    ultimately show ?thesis by (auto simp: t_def upd_buf_bufs)
  next
    case False
    then have "content s d j = disk s j" "content t d j = disk t j" by (auto intro!: content_uncached simp: c)
    moreover have "j \<noteq> b_blockno (bufs s b)" using False self B(10) [OF b] by blast
    ultimately show ?thesis by (simp add: t_def upd_buf_def)
  qed
qed

lemma busy_bwrite:
  fixes s :: "'a bkern_scheme"
  assumes busy: "busy d P H s" and b: "b \<in> H"
  defines "t \<equiv> s\<lparr>disk := (disk s)(b_blockno (bufs s b) := b_data (bufs s b)),
                  dwrites := dwrites s @ [(b_blockno (bufs s b), b_data (bufs s b))]\<rparr>"
  shows "bwrite b s = Inr t" "busy d P H t" "content t d j = content s d j"
proof -
  note B = busyD [OF busy]
  have lt: "b < NBUF" using B(5) b by auto
  obtain p where p: "myproc (k_sched s) = Some p" using B(4) by blast
  show "bwrite b s = Inr t"
    using holding_mine [OF p B(9) [OF b]] by (simp add: bwrite_def bnd_def disk_rw_def t_def)
  have nz: "b_refcnt (bufs s b) \<noteq> 0" using B(1) B(9) [OF b] lt by (auto simp: cache_inv_def my_lock_def)
  have self: "cached (bufs s) d (b_blockno (bufs s b)) b" using B(11) [OF lt B(10) [OF b]] lt by (simp add: cached_def)
  have "b_blockno (bufs s c) \<noteq> b_blockno (bufs s b)"
    if c: "c < NBUF" "b_valid (bufs s c)" "b_refcnt (bufs s c) = 0" for c
  proof
    assume "b_blockno (bufs s c) = b_blockno (bufs s b)"
    with c B(11) have "cached (bufs s) d (b_blockno (bufs s b)) c" by (simp add: cached_def)
    with self B(3,6) have "c = b" by (auto simp: once_def)
    with c(3) nz show False by simp
  qed
  then have "clean t" using B(2) by (auto simp: clean_def t_def)
  then show "busy d P H t" using busy by (simp add: busy_def t_def)
  show "content t d j = content s d j"
  proof (cases "\<exists>c. cached (bufs s) d j c \<and> b_valid (bufs s c)")
    case True
    then obtain c where c: "cached (bufs s) d j c" "b_valid (bufs s c)" by blast
    then show ?thesis using content_cached [OF B(6,3)] content_cached [OF _ B(3), of t j c] B(6) by (simp add: t_def)
  next
    case False
    then have "content s d j = disk s j" by (auto intro!: content_uncached)
    moreover have "content t d j = disk t j" by (rule content_uncached) (use False in \<open>auto simp: t_def\<close>)
    moreover have "j \<noteq> b_blockno (bufs s b)" using False self B(10) [OF b] by blast
    ultimately show ?thesis by (simp add: t_def)
  qed
qed

text \<open>A block that is neither pinned nor held has the contents of the disk.\<close>

lemma busy_content_disk:
  assumes busy: "busy d P H s" and "k \<notin> P" "\<And>b. b \<in> H \<Longrightarrow> \<not> cached (bufs s) d k b"
  shows "content s d k = disk s k"
proof (cases "\<exists>c. cached (bufs s) d k c \<and> b_valid (bufs s c)")
  case True
  note B = busyD [OF busy]
  from True obtain c where c: "cached (bufs s) d k c" "b_valid (bufs s c)" by blast
  then have "b_refcnt (bufs s c) = 0" using B(7) [of c] assms(2,3) by (auto simp: cached_def pin_def)
  then show ?thesis using content_cached [OF B(6,3) c] B(2) c by (auto simp: clean_def cached_def)
qed (auto intro: content_uncached)

lemma busy_brelse:
  assumes busy: "busy d P H s" and b: "b \<in> H"
    and data: "b_blockno (bufs s b) \<in> P \<or> b_data (bufs s b) = disk s (b_blockno (bufs s b))"
  shows "\<exists>g k. brelse b s = Inr (s\<lparr>k_sched := k, bufs := g\<rparr>) \<and> my_lock k = my_lock (k_sched s) \<and>
    busy d P (H - {b}) (s\<lparr>k_sched := k, bufs := g\<rparr>) \<and>
    (\<forall>j. content (s\<lparr>k_sched := k, bufs := g\<rparr>) d j = content s d j) \<and>
    (\<forall>c. b_blockno (g c) = b_blockno (bufs s c) \<and> b_data (g c) = b_data (bufs s c))"
proof -
  note B = busyD [OF busy]
  have lt: "b < NBUF" using B(5) b by auto
  obtain p where p: "myproc (k_sched s) = Some p" using B(4) by blast
  let ?f = "(bufs s)(b := released (bufs s b))" and ?k = "wakeup (Some (Ch_buf b)) (k_sched s)"
  obtain g where g: "brelse b s = Inr (s\<lparr>k_sched := ?k, bufs := g\<rparr>)" "cache_inv g"
    and core: "\<And>i. core (g i) = core (?f i)"
    using brelse_ok [OF B(1) lt B(9) [OF b] p] by blast
  let ?t = "s\<lparr>k_sched := ?k, bufs := g\<rparr>"
  note eq = core_fields [OF core]
  have flds: "b_valid (g c) = b_valid (bufs s c)" "b_dev (g c) = b_dev (bufs s c)"
    "b_blockno (g c) = b_blockno (bufs s c)" "b_data (g c) = b_data (bufs s c)"
    "b_refcnt (g c) = (if c = b then b_refcnt (bufs s c) - 1 else b_refcnt (bufs s c))"
    "b_lock (g c) = (if c = b then initsleeplock else b_lock (bufs s c))" for c
    by (simp_all add: eq)
  have "content ?t d j = content s d j" for j
    by (simp add: content_def cached_def flds cong: option.case_cong)
  moreover have "clean ?t"
    unfolding clean_def
  proof (intro allI impI)
    fix c assume c: "c < NBUF" "b_valid (bufs ?t c)" "b_refcnt (bufs ?t c) = 0"
    show "b_data (bufs ?t c) = disk ?t (b_blockno (bufs ?t c))"
    proof (cases "c = b")
      case True
      then have "pin d P (bufs s b) = 0" using c(3) B(7) [OF lt] b by (simp add: flds)
      then have "b_blockno (bufs s b) \<notin> P" using B(11) [OF lt B(10) [OF b]] by (auto simp: pin_def)
      with data show ?thesis by (simp add: flds True)
    next
      case False
      then show ?thesis using c B(2) by (simp add: flds clean_def)
    qed
  qed
  ultimately have "busy d P (H - {b}) ?t"
    using g(2) B b by (auto simp: busy_def flds cached_def pin_def initsleeplock_def)
  then show ?thesis using g(1) flds \<open>\<And>j. content ?t d j = content s d j\<close> by (intro exI [of _ g] exI [of _ ?k]) simp
qed

lemma busy_bunpin:
  assumes busy: "busy d P H s" and b: "b \<in> H" "b_blockno (bufs s b) = k" "k \<in> P"
  shows "busy d (P - {k}) H (bunpin b s)" "content (bunpin b s) d j = content s d j"
proof -
  note B = busyD [OF busy]
  have lt: "b < NBUF" using B(5) b by auto
  let ?t = "bunpin b s"
  have eq: "b_dev (bufs ?t c) = b_dev (bufs s c)" "b_blockno (bufs ?t c) = b_blockno (bufs s c)"
    "b_data (bufs ?t c) = b_data (bufs s c)" "b_lock (bufs ?t c) = b_lock (bufs s c)"
    "b_valid (bufs ?t c) = b_valid (bufs s c)" "k_sched ?t = k_sched s" "disk ?t = disk s"
    "b_next (bufs ?t c) = b_next (bufs s c)" "b_prev (bufs ?t c) = b_prev (bufs s c)"
    "b_refcnt (bufs ?t c) = (if c = b then b_refcnt (bufs s c) - 1 else b_refcnt (bufs s c))" for c
    by (simp_all add: bunpin_def upd_buf_def)
  show "content ?t d j = content s d j" by (simp add: content_def cached_def eq cong: option.case_cong)
  have dev: "b_dev (bufs s b) = d" using B(11) [OF lt B(10) [OF b(1)]] .
  have "b_refcnt (bufs s b) = 2" using B(7) [OF lt] b dev by (simp add: pin_def)
  then have ref: "b_refcnt (bufs ?t b) = 1" by (simp add: eq)
  have other: "pin d P (bufs s c) = pin d (P - {k}) (bufs s c)" if "c < NBUF" "c \<noteq> b" for c
    using that lt b(2) dev B(3,6) by (auto simp: pin_def once_def cached_def)
  obtain xs where "b_ring (bufs s) xs" using B(1) by (auto simp: cache_inv_def)
  then have "b_ring (bufs ?t) xs" by (rule b_ring_cong) (simp add: eq)
  then have "cache_inv (bufs ?t)" using B(1) ref by (auto simp: cache_inv_def once_def cached_def eq)
  moreover have "clean ?t" using B(2) ref by (auto simp: clean_def eq)
  moreover have "b_refcnt (bufs ?t c) = pin d (P - {k}) (bufs ?t c) + (if c \<in> H then 1 else 0)" if "c < NBUF" for c
  proof (cases "c = b")
    case True
    then show ?thesis using ref b by (simp add: pin_def eq)
  next
    case False
    then show ?thesis using B(7) [OF that] other [OF that False] by (simp add: pin_def eq)
  qed
  ultimately show "busy d (P - {k}) H ?t" using B by (auto simp: busy_def eq cached_def)
qed

lemma busy_bpin:
  assumes busy: "busy d P H s" and b: "b \<in> H" "b_blockno (bufs s b) = k" "k \<notin> P"
  shows "busy d (insert k P) H (bpin b s)" "content (bpin b s) d j = content s d j"
proof -
  note B = busyD [OF busy]
  have lt: "b < NBUF" using B(5) b by auto
  let ?t = "bpin b s"
  have eq: "b_dev (bufs ?t c) = b_dev (bufs s c)" "b_blockno (bufs ?t c) = b_blockno (bufs s c)"
    "b_data (bufs ?t c) = b_data (bufs s c)" "b_lock (bufs ?t c) = b_lock (bufs s c)"
    "b_valid (bufs ?t c) = b_valid (bufs s c)" "k_sched ?t = k_sched s" "disk ?t = disk s"
    "b_next (bufs ?t c) = b_next (bufs s c)" "b_prev (bufs ?t c) = b_prev (bufs s c)"
    "b_refcnt (bufs ?t c) = (if c = b then b_refcnt (bufs s c) + 1 else b_refcnt (bufs s c))" for c
    by (simp_all add: bpin_def upd_buf_def)
  show "content ?t d j = content s d j" by (simp add: content_def cached_def eq cong: option.case_cong)
  have dev: "b_dev (bufs s b) = d" using B(11) [OF lt B(10) [OF b(1)]] .
  have "b_refcnt (bufs s b) = 1" using B(7) [OF lt] b dev by (simp add: pin_def)
  then have ref: "b_refcnt (bufs ?t b) = 2" by (simp add: eq)
  have other: "pin d P (bufs s c) = pin d (insert k P) (bufs s c)" if "c < NBUF" "c \<noteq> b" for c
    using that lt b(2) dev B(3,6) by (auto simp: pin_def once_def cached_def)
  obtain xs where "b_ring (bufs s) xs" using B(1) by (auto simp: cache_inv_def)
  then have "b_ring (bufs ?t) xs" by (rule b_ring_cong) (simp add: eq)
  then have "cache_inv (bufs ?t)" using B(1) ref by (auto simp: cache_inv_def once_def cached_def eq)
  moreover have "clean ?t" using B(2) ref by (auto simp: clean_def eq)
  moreover have "b_refcnt (bufs ?t c) = pin d (insert k P) (bufs ?t c) + (if c \<in> H then 1 else 0)" if "c < NBUF" for c
  proof (cases "c = b")
    case True
    then show ?thesis using ref b dev by (simp add: pin_def eq)
  next
    case False
    then show ?thesis using B(7) [OF that] other [OF that False] by (simp add: pin_def eq)
  qed
  ultimately show "busy d (insert k P) H ?t"
    using B lt b(2) dev B(10) [OF b(1)] by (auto simp: busy_def eq cached_def)
qed

section \<open>The cache after start-up\<close>

lemma push_all:
  assumes "distinct (bs @ xs)" "HEAD \<notin> set (bs @ xs)"
    "seg (\<lambda>i. b_next (bufs s i)) (\<lambda>i. b_prev (bufs s i)) HEAD xs HEAD"
  defines "t \<equiv> fold (\<lambda>b s. buf_push b (upd_buf b (\<lambda>x. x\<lparr>b_lock := initsleeplock\<rparr>) s)) bs s"
  shows "seg (\<lambda>i. b_next (bufs t i)) (\<lambda>i. b_prev (bufs t i)) HEAD (rev bs @ xs) HEAD \<and>
    (\<forall>i. core (bufs t i) = core (if i \<in> set bs then (bufs s i)\<lparr>b_lock := initsleeplock\<rparr> else bufs s i))"
  using assms(1-3) unfolding t_def
proof (induction bs arbitrary: s xs)
  case (Cons b bs)
  let ?u = "upd_buf b (\<lambda>x. x\<lparr>b_lock := initsleeplock\<rparr>) s"
  have u: "(\<lambda>i. b_next (bufs ?u i)) = (\<lambda>i. b_next (bufs s i))" "(\<lambda>i. b_prev (bufs ?u i)) = (\<lambda>i. b_prev (bufs s i))"
    by (auto simp: upd_buf_bufs)
  have "b \<noteq> HEAD" using Cons.prems(2) by auto
  have "seg (\<lambda>i. b_next (bufs (buf_push b ?u) i)) (\<lambda>i. b_prev (bufs (buf_push b ?u) i)) HEAD (b # xs) HEAD"
    unfolding push_links [OF \<open>b \<noteq> HEAD\<close>] u
    using seg_insert [OF Cons.prems(3), of b] Cons.prems(1,2) by (simp add: upd_buf_bufs)
  then have "seg (\<lambda>i. b_next (bufs (fold (\<lambda>b s. buf_push b (upd_buf b (\<lambda>x. x\<lparr>b_lock := initsleeplock\<rparr>) s)) bs (buf_push b ?u)) i))
      (\<lambda>i. b_prev (bufs (fold (\<lambda>b s. buf_push b (upd_buf b (\<lambda>x. x\<lparr>b_lock := initsleeplock\<rparr>) s)) bs (buf_push b ?u)) i))
      HEAD (rev bs @ b # xs) HEAD \<and>
    (\<forall>i. core (bufs (fold (\<lambda>b s. buf_push b (upd_buf b (\<lambda>x. x\<lparr>b_lock := initsleeplock\<rparr>) s)) bs (buf_push b ?u)) i) =
      core (if i \<in> set bs then (bufs (buf_push b ?u) i)\<lparr>b_lock := initsleeplock\<rparr> else bufs (buf_push b ?u) i))"
    using Cons.prems(1,2) by (intro Cons.IH) auto
  moreover have "core (bufs (buf_push b ?u) i) = core (bufs ?u i)" for i
    by (simp only: buf_push_def Let_def core_upd)
  moreover have "core (x\<lparr>b_lock := l\<rparr>) = (core x)\<lparr>b_lock := l\<rparr>" for x l by (simp add: core_def)
  ultimately show ?case using Cons.prems(1) by (auto simp: upd_buf_bufs)
qed simp

lemma binit_ring:
  "b_ring (bufs (binit s)) (rev [0..<NBUF])"
  "b < NBUF \<Longrightarrow> core (bufs (binit s) b) = core ((bufs s b)\<lparr>b_lock := initsleeplock\<rparr>)"
proof -
  let ?s = "upd_buf HEAD (\<lambda>x. x\<lparr>b_prev := HEAD, b_next := HEAD\<rparr>) s"
  have "seg (\<lambda>i. b_next (bufs ?s i)) (\<lambda>i. b_prev (bufs ?s i)) HEAD [] HEAD" by (simp add: upd_buf_bufs)
  from push_all [of "[0..<NBUF]" "[]" ?s, OF _ _ this]
  have t: "seg (\<lambda>i. b_next (bufs (binit s) i)) (\<lambda>i. b_prev (bufs (binit s) i)) HEAD (rev [0..<NBUF]) HEAD"
    "\<And>i. core (bufs (binit s) i) = core (if i \<in> set [0..<NBUF] then (bufs ?s i)\<lparr>b_lock := initsleeplock\<rparr> else bufs ?s i)"
    unfolding binit_def Let_def by (simp_all del: upt_conv_Cons upt_rec_numeral)
  show "b_ring (bufs (binit s)) (rev [0..<NBUF])"
    using t(1) by (simp add: b_ring_def atLeast0LessThan del: upt_conv_Cons upt_rec_numeral)
  show "b < NBUF \<Longrightarrow> core (bufs (binit s) b) = core ((bufs s b)\<lparr>b_lock := initsleeplock\<rparr>)"
    using t(2) [of b] by (simp add: upd_buf_bufs del: upt_conv_Cons upt_rec_numeral)
qed

lemma binit_state:
  "disk (binit s) = disk s" "dwrites (binit s) = dwrites s" "k_sched (binit s) = k_sched s" "bkern.more (binit s) = bkern.more s"
proof -
  let ?f = "\<lambda>b s. buf_push b (upd_buf b (\<lambda>x. x\<lparr>b_lock := initsleeplock\<rparr>) s)"
  have st: "disk (fold ?f bs u) = disk u" "dwrites (fold ?f bs u) = dwrites u" "k_sched (fold ?f bs u) = k_sched u"
    "bkern.more (fold ?f bs u) = bkern.more u" for bs and u :: "'a bkern_scheme"
    by (induction bs arbitrary: u) (simp_all add: buf_push_def upd_buf_def Let_def)
  show "disk (binit s) = disk s" "dwrites (binit s) = dwrites s" "k_sched (binit s) = k_sched s"
    "bkern.more (binit s) = bkern.more s"
    by (simp_all only: binit_def Let_def st) (simp_all add: upd_buf_def)
qed

text \<open>With the zeroed table of the kernel image, the cache starts out empty.\<close>

lemma binit_busy:
  assumes "\<And>b. b < NBUF \<Longrightarrow> \<not> b_valid (bufs s b) \<and> b_dev (bufs s b) = 0 \<and> b_refcnt (bufs s b) = 0"
    "myproc (k_sched s) = Some p" "d \<noteq> 0"
  shows "busy d {} {} (binit s)"
proof -
  have z: "\<not> b_valid (bufs (binit s) b)" "b_dev (bufs (binit s) b) = 0" "b_refcnt (bufs (binit s) b) = 0"
    "\<not> sl_locked (b_lock (bufs (binit s) b))" if "b < NBUF" for b
    using core_fields [OF binit_ring(2) [OF that], of s] assms(1) [OF that] by (simp_all add: initsleeplock_def)
  have "cache_inv (bufs (binit s))"
    using binit_ring(1) [of s] by (auto simp: cache_inv_def once_def cached_def z)
  then show ?thesis
    using assms(2,3) by (auto simp: busy_def clean_def pin_def z binit_state)
qed

text \<open>An example: the cache of a machine whose disk holds zeroes, before \<^verbatim>\<open>binit\<close>.\<close>

definition disk_ex :: "'a \<Rightarrow> 'a bkern_scheme" where
  "disk_ex m = \<lparr>k_sched = sched_ex, k_phys = ex_space, k_ticks = 0, k_pipes = k_pipes (pipe_ex 0),
     con_buf = (\<lambda>_. 0), con_r = 0, con_w = 0, con_e = 0,
     tx_buf = (\<lambda>_. 0), tx_w = 0, tx_r = 0, panicked = False, dev_lsr = (\<lambda>_. 0x20), dev_rhr = (\<lambda>_. 0),
     lsr_reads = 0, rhr_reads = 0, dev_out = [],
     bufs = (\<lambda>_. \<lparr>b_valid = False, b_disk = False, b_dev = 0, b_blockno = 0, b_lock = initsleeplock, b_refcnt = 0,
       b_prev = 0, b_next = 0, b_data = replicate BSIZE 0\<rparr>),
     disk = (\<lambda>_. replicate BSIZE 0), dwrites = [],
     vdisk = \<lparr>v_desc = (\<lambda>_. no_desc), v_avail_idx = 0, v_avail_ring = (\<lambda>_. 0), v_dev_idx = 0,
       v_used_ring = (\<lambda>_. 0), v_free = (\<lambda>_. True), v_used_idx = 0, v_info_b = (\<lambda>_. None),
       v_info_status = (\<lambda>_. 0), v_ops = (\<lambda>_. \<lparr>vr_type = 0, vr_reserved = 0, vr_sector = 0\<rparr>), v_regs = []\<rparr>, \<dots> = m\<rparr>"

lemma disk_ex_busy: "busy 1 {} {} (binit (disk_ex m))"
  by (rule binit_busy [of _ 1]) (simp_all add: disk_ex_def myproc_def sched_ex_procs)

section \<open>Properties\<close>

text \<open>C7.  \<^verbatim>\<open>bread\<close> returns a locked buffer with the current contents of the block: what the
  cache holds if the block is cached, else what is on the disk.  It keeps the invariant of
  the cache (the list is a ring of all buffers, a block has at most one buffer, reference
  counts count the holders and the pins, an unreferenced buffer agrees with the disk) and
  changes the contents of no block.  It needs a free buffer only for a block that is not
  pinned.\<close>

theorem bread_coherent:
  assumes "busy d P H s" "\<And>b. b \<in> H \<Longrightarrow> \<not> cached (bufs s) d k b"
    "k \<in> P \<or> finite P \<and> card P + card H < NBUF"
  shows "\<exists>b t. bread d k s = Inr (b, t) \<and> b \<notin> H \<and> cached (bufs t) d k b \<and> sl_locked (b_lock (bufs t b)) \<and>
    b_data (bufs t b) = content s d k \<and> busy d P (insert b H) t \<and> (\<forall>j. content t d j = content s d j)"
proof -
  obtain b X where t: "bread d k s = Inr (b, s\<lparr>bufs := (bufs s)(b := X)\<rparr>)" "fetched s d k b X" "b \<notin> H"
    "busy d P (insert b H) (s\<lparr>bufs := (bufs s)(b := X)\<rparr>)"
    "\<And>j. content (s\<lparr>bufs := (bufs s)(b := X)\<rparr>) d j = content s d j" using busy_bread [OF assms] by blast
  moreover have "cached (bufs (s\<lparr>bufs := (bufs s)(b := X)\<rparr>)) d k b" "sl_locked (b_lock X)" "b_data X = content s d k"
    using t(2) by (auto simp: fetched_def cached_def my_lock_def)
  ultimately show ?thesis by fastforce
qed

theorem bread_coherent_witness:
  "\<exists>b t. bread 1 7 (binit (disk_ex ())) = Inr (b, t) \<and> b_data (bufs t b) = replicate BSIZE 0 \<and> busy 1 {} {b} t"
proof -
  have "content (binit (disk_ex ())) 1 7 = replicate BSIZE 0"
    using busy_content_disk [OF disk_ex_busy, of 7] by (simp add: binit_state disk_ex_def)
  then show ?thesis using bread_coherent [OF disk_ex_busy [of "()"], of 7] by (auto simp del: replicate.simps)
qed

end
