(* ===== verification/Recovery.thy ===== *)
theory Recovery
  imports Log Cache
begin

text \<open>
  Atomicity of transactions.  \<open>commit\<close> writes the logged blocks, the header, the blocks at home
  and the cleared header, in this order.  If the machine stops after any number of these writes,
  \<open>recover_from_log\<close> brings the disk to the state before the transaction or to the state after
  it, according to whether the header had been written.
\<close>

section \<open>Sequences of disk writes\<close>

definition apply_writes :: "(u32 \<Rightarrow> byte list) \<Rightarrow> (u32 \<times> byte list) list \<Rightarrow> u32 \<Rightarrow> byte list" where
  "apply_writes D ws = fold (\<lambda>(k, v) D. D(k := v)) ws D"

lemma apply_writes_simps [simp]:
  "apply_writes D [] = D" "apply_writes D ((k, v) # ws) = apply_writes (D(k := v)) ws"
  "apply_writes D (ws @ ws') = apply_writes (apply_writes D ws) ws'"
  by (simp_all add: apply_writes_def)

lemma apply_writes_other: "k \<notin> fst ` set ws \<Longrightarrow> apply_writes D ws k = D k"
  by (induction ws arbitrary: D) auto

lemma apply_writes_map:
  assumes "inj_on f (set is)" "distinct is" "i \<in> set is"
  shows "apply_writes D (map (\<lambda>i. (f i, v i)) is) (f i) = v i"
  using assms
proof (induction "is" arbitrary: D)
  case (Cons a bs)
  show ?case
  proof (cases "i = a")
    case True
    then have "f i \<notin> fst ` set (map (\<lambda>i. (f i, v i)) bs)" using Cons.prems by (auto simp: inj_on_def)
    then show ?thesis using True apply_writes_other [of "f i" _ "D(f a := v a)"] by simp
  next
    case False
    then show ?thesis using Cons by simp
  qed
qed simp

lemma apply_writes_map_other:
  "(\<And>i. i \<in> set is \<Longrightarrow> f i \<noteq> k) \<Longrightarrow> apply_writes D (map (\<lambda>i. (f i, v i)) is) k = D k"
  by (rule apply_writes_other) force

text \<open>\<open>ran s t ws\<close>: \<open>t\<close> follows \<open>s\<close> after the disk writes \<open>ws\<close>, and the log's own data have not changed.\<close>

definition ran :: "'a lkern_scheme \<Rightarrow> 'a lkern_scheme \<Rightarrow> (u32 \<times> byte list) list \<Rightarrow> bool" where
  "ran s t ws \<longleftrightarrow> lg t = lg s \<and> disk t = apply_writes (disk s) ws \<and> dwrites t = dwrites s @ ws \<and>
     lkern.more t = lkern.more s"

lemma ran_refl: "ran s s []"
  by (simp add: ran_def)

lemma ran_trans: "ran s t ws \<Longrightarrow> ran t u vs \<Longrightarrow> ran s u (ws @ vs)"
  by (simp add: ran_def)

section \<open>Steps of the log\<close>

text \<open>The calls of the buffer cache, in the form in which the log uses them.\<close>

lemma log_bread:
  fixes s :: "'a lkern_scheme"
  assumes "busy d P H s" "\<And>b. b \<in> H \<Longrightarrow> b_blockno (bufs s b) \<noteq> k"
    "k \<in> P \<or> finite P \<and> card P + card H < NBUF"
  obtains b t where "bread d k s = Inr (b, t)" "busy d P (insert b H) t" "b \<notin> H" "ran s t []"
    "b_blockno (bufs t b) = k" "b_data (bufs t b) = content s d k" "\<And>c. c \<in> H \<Longrightarrow> bufs t c = bufs s c"
    "content t d = content s d"
proof -
  have "\<not> cached (bufs s) d k b" if "b \<in> H" for b using assms(2) that by (auto simp: cached_def)
  from busy_bread [OF assms(1) this assms(3)] obtain b X where
    "bread d k s = Inr (b, s\<lparr>bufs := (bufs s)(b := X)\<rparr>)" "fetched s d k b X" "b \<notin> H"
    "busy d P (insert b H) (s\<lparr>bufs := (bufs s)(b := X)\<rparr>)"
    "\<And>j. content (s\<lparr>bufs := (bufs s)(b := X)\<rparr>) d j = content s d j" by blast
  then show ?thesis by (intro that [of b "s\<lparr>bufs := (bufs s)(b := X)\<rparr>"]) (auto simp: fetched_def ran_def)
qed

lemma log_bwrite:
  fixes s :: "'a lkern_scheme"
  assumes "busy d P H s" "b \<in> H" "b_blockno (bufs s b) = k"
  obtains t where "bwrite b (upd_buf b (\<lambda>x. x\<lparr>b_data := v\<rparr>) s) = Inr t" "busy d P H t" "ran s t [(k, v)]"
    "\<And>c. b_blockno (bufs t c) = b_blockno (bufs s c)"
    "\<And>c. b_data (bufs t c) = (if c = b then v else b_data (bufs s c))"
    "content t d = (content s d)(k := v)"
proof -
  define u where "u = upd_buf b (\<lambda>x. x\<lparr>b_data := v\<rparr>) s"
  note u = busy_upd [OF assms(1,2), of v, folded u_def]
  have sel: "bufs u = (bufs s)(b := (bufs s b)\<lparr>b_data := v\<rparr>)" "disk u = disk s" "dwrites u = dwrites s" "lg u = lg s"
    "lkern.more u = lkern.more s"
    by (simp_all add: u_def upd_buf_def)
  note w = busy_bwrite [OF u(1) assms(2)]
  show ?thesis
    by (rule that [OF w(1,2) [unfolded u_def]])
      (use assms(3) u(2) w(3) in \<open>auto simp: ran_def sel u_def [symmetric] fun_eq_iff\<close>)
qed

lemma log_brelse:
  fixes s :: "'a lkern_scheme"
  assumes "busy d P H s" "b \<in> H"
    "b_blockno (bufs s b) \<in> P \<or> b_data (bufs s b) = disk s (b_blockno (bufs s b))"
  obtains t where "brelse b s = Inr t" "busy d P (H - {b}) t" "ran s t []"
    "\<And>c. b_blockno (bufs t c) = b_blockno (bufs s c)" "\<And>c. b_data (bufs t c) = b_data (bufs s c)"
    "content t d = content s d"
proof -
  from busy_brelse [OF assms] obtain g k where
    "brelse b s = Inr (s\<lparr>k_sched := k, bufs := g\<rparr>)" "busy d P (H - {b}) (s\<lparr>k_sched := k, bufs := g\<rparr>)"
    "\<And>j. content (s\<lparr>k_sched := k, bufs := g\<rparr>) d j = content s d j"
    "\<And>c. b_blockno (g c) = b_blockno (bufs s c) \<and> b_data (g c) = b_data (bufs s c)" by blast
  then show ?thesis by (intro that [of "s\<lparr>k_sched := k, bufs := g\<rparr>"]) (auto simp: ran_def)
qed

lemma ranD:
  assumes "ran s t ws"
  shows "lg t = lg s" "disk t = apply_writes (disk s) ws" "dwrites t = dwrites s @ ws"
    "lkern.more t = lkern.more s"
  using assms by (simp_all add: ran_def)

text \<open>Copying a pinned block into the log.\<close>

lemma write_log_one_ok:
  fixes s :: "'a lkern_scheme"
  assumes busy: "busy d P {} s" and d: "d = lg_dev (lg s)" and P: "finite P" "card P < NBUF"
    and k: "k = log_block s tail" "k \<in> P" and l: "l = of_int (lg_start (lg s) + int tail + 1)" "l \<notin> P"
    and "tail < LOGSIZE"
  obtains t where "write_log_one tail s = Inr t" "busy d P {} t" "ran s t [(l, content s d k)]"
    "content t d = (content s d)(l := content s d k)"
proof -
  obtain b s1 where 1: "bread d l s = Inr (b, s1)" "busy d P {b} s1" "ran s s1 []" "b_blockno (bufs s1 b) = l"
    "content s1 d = content s d"
    by (rule log_bread [OF busy, of l]) (use P in auto)
  have "l \<noteq> k" using k l by auto
  obtain c s2 where 2: "bread d k s1 = Inr (c, s2)" "busy d P {c, b} s2" "c \<noteq> b" "ran s1 s2 []"
    "b_blockno (bufs s2 c) = k" "b_data (bufs s2 c) = content s1 d k" "bufs s2 b = bufs s1 b"
    "content s2 d = content s1 d"
    by (rule log_bread [OF 1(2), of k]) (use 1(4) k(2) \<open>l \<noteq> k\<close> in auto)
  obtain s3 where 3: "bwrite b (upd_buf b (\<lambda>x. x\<lparr>b_data := b_data (bufs s2 c)\<rparr>) s2) = Inr s3"
    "busy d P {c, b} s3" "ran s2 s3 [(l, b_data (bufs s2 c))]" "\<And>i. b_blockno (bufs s3 i) = b_blockno (bufs s2 i)"
    "\<And>i. b_data (bufs s3 i) = (if i = b then b_data (bufs s2 c) else b_data (bufs s2 i))"
    "content s3 d = (content s2 d)(l := b_data (bufs s2 c))"
    by (rule log_bwrite [OF 2(2), of b l "b_data (bufs s2 c)"]) (use 1(4) 2(7) in auto)
  obtain s4 where 4: "brelse c s3 = Inr s4" "busy d P {b} s4" "ran s3 s4 []"
    "\<And>i. b_blockno (bufs s4 i) = b_blockno (bufs s3 i)" "\<And>i. b_data (bufs s4 i) = b_data (bufs s3 i)"
    "content s4 d = content s3 d"
    by (rule log_brelse [OF 3(2), of c]) (use 3(4) 2(3,5) k(2) in \<open>auto simp: insert_Diff_if\<close>)
  have "b_data (bufs s4 b) = disk s4 (b_blockno (bufs s4 b))"
    using 3(4,5) 4(4,5) 2(7) 1(4) ranD(2) [OF 4(3)] ranD(2) [OF 3(3)] by simp
  then obtain s5 where 5: "brelse b s4 = Inr s5" "busy d P {} s5" "ran s4 s5 []" "content s5 d = content s4 d"
    by (rule_tac log_brelse [OF 4(2), of b]) auto
  note lg = ranD(1) [OF 1(3)]
  have "write_log_one tail s = Inr s5"
    using assms(9) 1(1) 2(1) 3(1) 4(1) 5(1) by (simp add: write_log_one_def bnd_def d k(1) l(1) lg)
  moreover have "ran s s5 [(l, content s d k)]"
    using ran_trans [OF 1(3) ran_trans [OF 2(4) ran_trans [OF 3(3) ran_trans [OF 4(3) 5(3)]]]] 1(5) 2(6) by simp
  ultimately show ?thesis using that 5(2,4) 4(6) 3(6) 2(6,8) 1(5) by simp
qed

text \<open>Copying a block of the log to its home.\<close>

lemma install_one_ok:
  fixes s :: "'a lkern_scheme"
  assumes busy: "busy d P {} s" and d: "d = lg_dev (lg s)" and P: "finite P" "card P < NBUF"
    and k: "k = log_block s tail" "if recovering then P = {} else k \<in> P"
    and l: "l = of_int (lg_start (lg s) + int tail + 1)" "l \<notin> P" "l \<noteq> k" and "tail < LOGSIZE"
  obtains t where "install_one recovering tail s = Inr t" "busy d (P - {k}) {} t" "ran s t [(k, content s d l)]"
    "content t d = (content s d)(k := content s d l)"
proof -
  obtain b s1 where 1: "bread d l s = Inr (b, s1)" "busy d P {b} s1" "ran s s1 []" "b_blockno (bufs s1 b) = l"
    "b_data (bufs s1 b) = content s d l" "content s1 d = content s d"
    by (rule log_bread [OF busy, of l]) (use P in auto)
  obtain c s2 where 2: "bread d k s1 = Inr (c, s2)" "busy d P {c, b} s2" "c \<noteq> b" "ran s1 s2 []"
    "b_blockno (bufs s2 c) = k" "bufs s2 b = bufs s1 b" "content s2 d = content s1 d"
    by (rule log_bread [OF 1(2), of k]) (use 1(4) k(2) l(3) in \<open>auto split: if_splits\<close>)
  let ?v = "content s d l"
  obtain s3 where 3: "bwrite c (upd_buf c (\<lambda>x. x\<lparr>b_data := ?v\<rparr>) s2) = Inr s3"
    "busy d P {c, b} s3" "ran s2 s3 [(k, ?v)]" "\<And>i. b_blockno (bufs s3 i) = b_blockno (bufs s2 i)"
    "\<And>i. b_data (bufs s3 i) = (if i = c then ?v else b_data (bufs s2 i))" "content s3 d = (content s2 d)(k := ?v)"
    by (rule log_bwrite [OF 2(2) _ 2(5), of ?v]) auto
  define s3' where "s3' = (if recovering then s3 else bunpin c s3)"
  have unp: "busy d (P - {k}) {c, b} s3'" "ran s3 s3' []" "content s3' d = content s3 d"
    "\<And>i. b_blockno (bufs s3' i) = b_blockno (bufs s3 i) \<and> b_data (bufs s3' i) = b_data (bufs s3 i)"
    using busy_bunpin [OF 3(2), of c k] 3(2,4) 2(5) k(2)
    by (auto simp: s3'_def fun_eq_iff ran_def bunpin_def upd_buf_def)
  have "content s d l = disk s l" using busy_content_disk [OF busy l(2)] by simp
  moreover have "disk s3' l = disk s l"
    using ranD(2) [OF ran_trans [OF 1(3) ran_trans [OF 2(4) ran_trans [OF 3(3) unp(2)]]]] l(3) by simp
  ultimately have "b_data (bufs s3' b) = disk s3' (b_blockno (bufs s3' b))"
    using 3(4,5) unp(4) 2(3,6) 1(4,5) by simp
  then obtain s4 where 4: "brelse b s3' = Inr s4" "busy d (P - {k}) {c} s4" "ran s3' s4 []"
    "\<And>i. b_blockno (bufs s4 i) = b_blockno (bufs s3' i)" "\<And>i. b_data (bufs s4 i) = b_data (bufs s3' i)"
    "content s4 d = content s3' d"
    by (rule_tac log_brelse [OF unp(1), of b]) (use 2(3) in \<open>auto simp: insert_Diff_if\<close>)
  have "disk s4 k = ?v" using ranD(2) [OF ran_trans [OF 3(3) ran_trans [OF unp(2) 4(3)]]] by simp
  then have "b_data (bufs s4 c) = disk s4 (b_blockno (bufs s4 c))" using 4(4,5) unp(4) 3(4,5) 2(5) by simp
  then obtain s5 where 5: "brelse c s4 = Inr s5" "busy d (P - {k}) {} s5" "ran s4 s5 []" "content s5 d = content s4 d"
    by (rule_tac log_brelse [OF 4(2), of c]) auto
  note lg = ranD(1) [OF 1(3)]
  have "install_one recovering tail s = Inr s5"
    using assms(10) 1(1) 2(1) 3(1) 4(1) 5(1) 1(5) 2(6)
    by (simp add: install_one_def bnd_def d k(1) l(1) lg s3'_def)
  moreover have "ran s s5 [(k, ?v)]"
    using ran_trans [OF 1(3) ran_trans [OF 2(4) ran_trans [OF 3(3) ran_trans [OF unp(2) ran_trans [OF 4(3) 5(3)]]]]] by simp
  ultimately show ?thesis using that 5(2,4) 4(6) unp(3) 3(6) 2(7) 1(6) by simp
qed

section \<open>The loops\<close>

definition log_at :: "'a lkern_scheme \<Rightarrow> nat \<Rightarrow> u32" where
  "log_at s i = of_int (lg_start (lg s) + int i + 1)"

definition head_at :: "'a lkern_scheme \<Rightarrow> u32" where
  "head_at s = of_int (lg_start (lg s))"

lemma write_log_loop_ok:
  fixes s :: "'a lkern_scheme"
  assumes "busy (lg_dev (lg s)) P {} s" "finite P" "card P < NBUF"
    "\<And>i. i \<in> set ts \<Longrightarrow> log_block s i \<in> P \<and> log_at s i \<notin> P \<and> i < LOGSIZE"
  defines "d \<equiv> lg_dev (lg s)"
  defines "ws \<equiv> map (\<lambda>i. (log_at s i, content s d (log_block s i))) ts"
  shows "\<exists>t. write_log_loop ts s = Inr t \<and> busy d P {} t \<and> ran s t ws \<and> content t d = apply_writes (content s d) ws"
  using assms(1,4) unfolding ws_def d_def
proof (induction ts arbitrary: s)
  case Nil
  then show ?case by (simp add: ran_refl)
next
  case (Cons i ts)
  let ?d = "lg_dev (lg s)" and ?w = "(log_at s i, content s (lg_dev (lg s)) (log_block s i))"
  obtain u where u: "write_log_one i s = Inr u" "busy ?d P {} u" "ran s u [?w]"
    "content u ?d = (content s ?d)(log_at s i := content s ?d (log_block s i))"
    by (rule write_log_one_ok [OF Cons.prems(1) refl assms(2,3) refl _ refl])
      (use Cons.prems(2) [of i] in \<open>auto simp: log_at_def\<close>)
  have eq: "log_at u = log_at s" "log_block u = log_block s" "lg_dev (lg u) = ?d"
    using ranD(1) [OF u(3)] by (auto simp: log_at_def)
  have m: "map (\<lambda>j. (log_at s j, content u ?d (log_block s j))) ts =
      map (\<lambda>j. (log_at s j, content s ?d (log_block s j))) ts"
    using Cons.prems(2) u(4) by (intro map_cong refl) (metis fun_upd_other list.set_intros(1,2))
  obtain t where t: "write_log_loop ts u = Inr t" "busy ?d P {} t"
    "ran u t (map (\<lambda>j. (log_at s j, content s ?d (log_block s j))) ts)"
    "content t ?d = apply_writes (content u ?d) (map (\<lambda>j. (log_at s j, content s ?d (log_block s j))) ts)"
    using Cons.IH [of u] Cons.prems(2) u(2) by (auto simp: eq m)
  show ?case
    using ran_trans [OF u(3) t(3)] t u(1,4) by (intro exI [of _ t]) (simp add: bnd_def)
qed

lemma install_loop_ok:
  fixes s :: "'a lkern_scheme"
  assumes "busy (lg_dev (lg s)) P {} s" "finite P" "card P < NBUF"
    "\<And>i. i \<in> set ts \<Longrightarrow> (if recovering then P = {} else log_block s i \<in> P) \<and> log_at s i \<notin> P \<and> i < LOGSIZE"
    "\<And>i j. i \<in> set ts \<Longrightarrow> j \<in> set ts \<Longrightarrow> log_at s i \<noteq> log_block s j"
    "recovering \<or> inj_on (log_block s) (set ts)" "distinct ts"
  defines "d \<equiv> lg_dev (lg s)"
  defines "ws \<equiv> map (\<lambda>i. (log_block s i, content s d (log_at s i))) ts"
  shows "\<exists>t. install_loop recovering ts s = Inr t \<and> busy d (P - log_block s ` set ts) {} t \<and> ran s t ws \<and>
    content t d = apply_writes (content s d) ws"
  using assms(1-7) unfolding ws_def d_def
proof (induction ts arbitrary: s P)
  case Nil
  then show ?case by (simp add: ran_refl)
next
  case (Cons i ts)
  let ?d = "lg_dev (lg s)" and ?k = "log_block s i" and ?v = "content s (lg_dev (lg s)) (log_at s i)"
  obtain u where u: "install_one recovering i s = Inr u" "busy ?d (P - {?k}) {} u" "ran s u [(?k, ?v)]"
    "content u ?d = (content s ?d)(?k := ?v)"
    by (rule install_one_ok [where recovering = recovering, OF Cons.prems(1) refl Cons.prems(2,3) refl _ refl])
      (use Cons.prems(4) [of i] Cons.prems(5) [of i i] in \<open>auto simp: log_at_def split: if_splits\<close>)
  have eq: "log_at u = log_at s" "log_block u = log_block s" "lg_dev (lg u) = ?d"
    using ranD(1) [OF u(3)] by (auto simp: log_at_def)
  have card: "card (P - {?k}) < NBUF" using card_Diff1_le [of P ?k] Cons.prems(3) by simp
  have m: "map (\<lambda>j. (log_block s j, content u ?d (log_at s j))) ts =
      map (\<lambda>j. (log_block s j, content s ?d (log_at s j))) ts"
    using Cons.prems(5) u(4) by (intro map_cong refl) (metis fun_upd_other list.set_intros(1,2))
  have P: "(if recovering then P - {?k} = {} else log_block s j \<in> P - {?k}) \<and> log_at s j \<notin> P - {?k} \<and> j < LOGSIZE"
    if "j \<in> set ts" for j
    using Cons.prems(4) [of j] Cons.prems(6,7) that by (auto simp: inj_on_def split: if_splits)
  have "\<exists>t. install_loop recovering ts u = Inr t \<and> busy ?d (P - {?k} - log_block s ` set ts) {} t \<and>
      ran u t (map (\<lambda>j. (log_block s j, content s ?d (log_at s j))) ts) \<and>
      content t ?d = apply_writes (content u ?d) (map (\<lambda>j. (log_block s j, content s ?d (log_at s j))) ts)"
    by (rule Cons.IH [of u "P - {?k}", unfolded eq m])
      (use u(2) Cons.prems(2,5-7) card P in \<open>auto simp del: insert_iff Diff_iff\<close>)
  then obtain t where t: "install_loop recovering ts u = Inr t" "busy ?d (P - {?k} - log_block s ` set ts) {} t"
    "ran u t (map (\<lambda>j. (log_block s j, content s ?d (log_at s j))) ts)"
    "content t ?d = apply_writes (content u ?d) (map (\<lambda>j. (log_block s j, content s ?d (log_at s j))) ts)"
    by blast
  moreover have "P - {?k} - log_block s ` set ts = P - log_block s ` set (i # ts)" by auto
  ultimately show ?case
    using ran_trans [OF u(3) t(3)] u(1,4) by (intro exI [of _ t]) (simp add: bnd_def)
qed

section \<open>The header\<close>

lemma put_nth:
  assumes "off + length bs \<le> length d" "j < length d"
  shows "put d off bs ! j = (if off \<le> j \<and> j < off + length bs then bs ! (j - off) else d ! j)"
  using assms by (auto simp: put_def nth_append min_def)

lemma put_length [simp]: "off + length bs \<le> length d \<Longrightarrow> length (put d off bs) = length d"
  by (simp add: put_def)

lemma get32_put32_same: "off + 4 \<le> length d \<Longrightarrow> get32 (put32 d off v) off = v"
  by (simp add: get32_def put32_def put_def le_word_bytes)

lemma get32_put32_other:
  assumes "off + 4 \<le> length d" "i + 4 \<le> off \<or> off + 4 \<le> i"
  shows "get32 (put32 d off v) i = get32 d i"
proof -
  have "take 4 (drop i (put32 d off v)) = take 4 (drop i d)"
    using assms by (intro nth_equalityI) (auto simp: put32_def put_nth)
  then show ?thesis by (simp add: get32_def)
qed

lemma put32_length [simp]: "off + 4 \<le> length d \<Longrightarrow> length (put32 d off v) = length d"
  by (simp add: put32_def)

lemma put32s:
  fixes f :: "nat \<Rightarrow> u32"
  assumes "distinct is" "\<And>i. i \<in> set is \<Longrightarrow> 8 + 4 * i \<le> length d"
  defines "e \<equiv> fold (\<lambda>i d. put32 d (4 + 4 * i) (f i)) is d"
  shows "length e = length d \<and> get32 e 0 = get32 d 0 \<and>
    (\<forall>j. get32 e (4 + 4 * j) = (if j \<in> set is then f j else get32 d (4 + 4 * j)))"
  using assms(1,2) unfolding e_def
proof (induction "is" arbitrary: d)
  case (Cons i js)
  let ?d = "put32 d (4 + 4 * i) (f i)"
  have len: "4 + 4 * i + 4 \<le> length d" using Cons.prems(2) [of i] by simp
  then have "length ?d = length d" by simp
  then have IH: "length (fold (\<lambda>i d. put32 d (4 + 4 * i) (f i)) js ?d) = length ?d \<and>
      get32 (fold (\<lambda>i d. put32 d (4 + 4 * i) (f i)) js ?d) 0 = get32 ?d 0 \<and>
      (\<forall>j. get32 (fold (\<lambda>i d. put32 d (4 + 4 * i) (f i)) js ?d) (4 + 4 * j) =
        (if j \<in> set js then f j else get32 ?d (4 + 4 * j)))"
    using Cons.prems by (intro Cons.IH) auto
  moreover have "get32 ?d 0 = get32 d 0" using len by (intro get32_put32_other) auto
  moreover have "get32 ?d (4 + 4 * j) = (if j = i then f i else get32 d (4 + 4 * j))" for j
  proof (cases "j = i")
    case False
    then have "4 + 4 * j + 4 \<le> 4 + 4 * i \<or> 4 + 4 * i + 4 \<le> 4 + 4 * j" by linarith
    with False show ?thesis using get32_put32_other [OF len] by simp
  qed (use get32_put32_same [OF len] in simp)
  ultimately show ?case using Cons.prems(1) \<open>length ?d = length d\<close> by auto
qed simp

lemma head_bytes_dec:
  assumes "4 + 4 * nat (lh_n h) \<le> length d"
  shows "length (head_bytes h d) = length d" "get32 (head_bytes h d) 0 = of_int (lh_n h)"
    "int i < lh_n h \<Longrightarrow> get32 (head_bytes h d) (4 + 4 * i) = lh_block h i"
proof -
  let ?d = "put32 d 0 (of_int (lh_n h))"
  have "length ?d = length d" "get32 ?d 0 = of_int (lh_n h)"
    using assms get32_put32_same [of 0 d] by simp_all
  moreover from this(1) have "length (head_bytes h d) = length ?d \<and> get32 (head_bytes h d) 0 = get32 ?d 0 \<and>
      (\<forall>j. get32 (head_bytes h d) (4 + 4 * j) = (if j \<in> set [0..<nat (lh_n h)] then lh_block h j else get32 ?d (4 + 4 * j)))"
    unfolding head_bytes_def by (intro put32s) (use assms in auto)
  ultimately show "length (head_bytes h d) = length d" "get32 (head_bytes h d) 0 = of_int (lh_n h)"
    "int i < lh_n h \<Longrightarrow> get32 (head_bytes h d) (4 + 4 * i) = lh_block h i"
    by auto
qed

lemma busy_upd_lh [simp]: "busy d P H (upd_lh f s) = busy d P H s" "content (upd_lh f s) d k = content s d k"
  by (simp_all add: busy_def clean_def upd_lh_def content_def cong: option.case_cong)

lemma write_head_ok:
  fixes s :: "'a lkern_scheme"
  assumes busy: "busy d P {} s" and d: "d = lg_dev (lg s)" and P: "finite P" "card P < NBUF" "head_at s \<notin> P"
  defines "h \<equiv> head_bytes (lg_lh (lg s)) (content s d (head_at s))"
  obtains t where "write_head s = Inr t" "busy d P {} t" "ran s t [(head_at s, h)]"
    "content t d = (content s d)(head_at s := h)"
proof -
  obtain b s1 where 1: "bread d (head_at s) s = Inr (b, s1)" "busy d P {b} s1" "ran s s1 []"
    "b_blockno (bufs s1 b) = head_at s" "b_data (bufs s1 b) = content s d (head_at s)" "content s1 d = content s d"
    by (rule log_bread [OF busy, of "head_at s"]) (use P in auto)
  have v: "upd_buf b (\<lambda>x. x\<lparr>b_data := head_bytes (lg_lh (lg s1)) (b_data x)\<rparr>) s1 =
      upd_buf b (\<lambda>x. x\<lparr>b_data := h\<rparr>) s1"
    using 1(5) ranD(1) [OF 1(3)] by (simp add: upd_buf_def h_def)
  obtain s2 where 2: "bwrite b (upd_buf b (\<lambda>x. x\<lparr>b_data := h\<rparr>) s1) = Inr s2" "busy d P {b} s2"
    "ran s1 s2 [(head_at s, h)]" "\<And>c. b_blockno (bufs s2 c) = b_blockno (bufs s1 c)"
    "\<And>c. b_data (bufs s2 c) = (if c = b then h else b_data (bufs s1 c))" "content s2 d = (content s1 d)(head_at s := h)"
    by (rule log_bwrite [OF 1(2) _ 1(4), of h]) auto
  have "b_data (bufs s2 b) = disk s2 (b_blockno (bufs s2 b))" using 2(4,5) 1(4) ranD(2) [OF 2(3)] by simp
  then obtain s3 where 3: "brelse b s2 = Inr s3" "busy d P {} s3" "ran s2 s3 []" "content s3 d = content s2 d"
    by (rule_tac log_brelse [OF 2(2), of b]) auto
  have "write_head s = Inr s3"
    using 1(1) 2(1) 3(1) v by (simp add: write_head_def bnd_def d head_at_def)
  then show ?thesis
    using that 3(2,4) 2(6) 1(6) ran_trans [OF 1(3) ran_trans [OF 2(3) 3(3)]] by simp
qed

section \<open>Committing\<close>

definition in_log :: "'a lkern_scheme \<Rightarrow> u32 \<Rightarrow> bool" where
  "in_log s k \<longleftrightarrow> k = head_at s \<or> (\<exists>i. int i < lg_size (lg s) - 1 \<and> k = log_at s i)"

text \<open>
  The state during a transaction, with the buffers \<open>H\<close> held: the header on the disk is clear; the
  logged blocks fit in the log, lie outside it, are recorded once each and are pinned in the cache.
\<close>

definition log_open :: "nat set \<Rightarrow> 'a lkern_scheme \<Rightarrow> bool" where
  "log_open H s \<longleftrightarrow>
     0 \<le> lg_start (lg s) \<and> lg_start (lg s) + int LOGSIZE < 2 ^ 31 \<and> lg_size (lg s) \<le> int LOGSIZE \<and>
     0 \<le> log_n s \<and> log_n s \<le> lg_size (lg s) - 1 \<and>
     inj_on (log_block s) {..<nat (log_n s)} \<and> (\<forall>i < nat (log_n s). \<not> in_log s (log_block s i)) \<and>
     busy (lg_dev (lg s)) (log_block s ` {..<nat (log_n s)}) H s \<and>
     get32 (disk s (head_at s)) 0 = 0 \<and> length (disk s (head_at s)) = BSIZE"

lemma of_int_u32_inj:
  assumes "(of_int a :: u32) = of_int b" "0 \<le> a" "a < 2 ^ 32" "0 \<le> b" "b < 2 ^ 32"
  shows "a = b"
proof -
  have "uint (of_int a :: u32) = uint (of_int b :: u32)" using assms(1) by simp
  then show ?thesis using assms(2-5) by (simp add: uint_word_of_int)
qed

lemma log_at_inj:
  assumes "0 \<le> lg_start (lg s)" "lg_start (lg s) + int LOGSIZE < 2 ^ 31"
  shows "inj_on (log_at s) {..<LOGSIZE}" "i < LOGSIZE \<Longrightarrow> log_at s i \<noteq> head_at s"
proof -
  show "inj_on (log_at s) {..<LOGSIZE}"
  proof (rule inj_onI)
    fix i j assume "i \<in> {..<LOGSIZE}" "j \<in> {..<LOGSIZE}" "log_at s i = log_at s j"
    with assms show "i = j" using of_int_u32_inj [of "lg_start (lg s) + int i + 1" "lg_start (lg s) + int j + 1"]
      unfolding log_at_def by simp
  qed
  show "log_at s i \<noteq> head_at s" if "i < LOGSIZE"
    using assms that of_int_u32_inj [of "lg_start (lg s) + int i + 1" "lg_start (lg s)"]
    unfolding log_at_def head_at_def by auto
qed

lemma in_log_below:
  assumes "in_log s k" "0 \<le> lg_start (lg s)" "lg_start (lg s) + int LOGSIZE < 2 ^ 31" "lg_size (lg s) \<le> int LOGSIZE"
  shows "uint k < lg_start (lg s) + int LOGSIZE"
  using assms by (auto simp: in_log_def head_at_def log_at_def uint_word_of_int simp del: of_int_add)

lemma ran_at:
  assumes "lg t = lg s"
  shows "log_at t = log_at s" "head_at t = head_at s"
  using assms by (auto simp: log_at_def head_at_def)

lemma upd_lh_sel [simp]:
  "disk (upd_lh f s) = disk s" "dwrites (upd_lh f s) = dwrites s" "lg (upd_lh f s) = (lg s)\<lparr>lg_lh := f (lg_lh (lg s))\<rparr>"
  by (simp_all add: upd_lh_def)

text \<open>The writes of a commit, in order.\<close>

definition commit_writes :: "'a lkern_scheme \<Rightarrow> (u32 \<times> byte list) list" where
  "commit_writes s =
     (let c = (\<lambda>i. content s (lg_dev (lg s)) (log_block s i)); is = [0..<nat (log_n s)];
          h = head_bytes (lg_lh (lg s)) (disk s (head_at s))
      in map (\<lambda>i. (log_at s i, c i)) is @ [(head_at s, h)] @ map (\<lambda>i. (log_block s i, c i)) is @
         [(head_at s, head_bytes ((lg_lh (lg s))\<lparr>lh_n := 0\<rparr>) h)])"

lemma commit_ok:
  fixes s :: "'a lkern_scheme"
  assumes ready: "log_open {} s" "0 < log_n s"
  obtains t where "commit s = Inr t" "busy (lg_dev (lg s)) {} {} t"
    "dwrites t = dwrites s @ commit_writes s" "disk t = apply_writes (disk s) (commit_writes s)"
    "lg t = (lg s)\<lparr>lg_lh := (lg_lh (lg s))\<lparr>lh_n := 0\<rparr>\<rparr>"
proof -
  define d n P where "d = lg_dev (lg s)" and "n = nat (log_n s)" and "P = log_block s ` {..<n}"
  note R = ready [unfolded log_open_def, folded n_def, folded P_def d_def]
  have n: "n < NBUF" "n < LOGSIZE" "0 < n" using R by (auto simp: n_def)
  have P: "finite P" "card P < NBUF" using card_image_le [of "{..<n}" "log_block s"] n by (auto simp: P_def)
  note inj = log_at_inj [of s]
  have out: "head_at s \<notin> P" "\<And>i. i < n \<Longrightarrow> log_at s i \<notin> P" "\<And>i j. i < n \<Longrightarrow> j < n \<Longrightarrow> log_at s i \<noteq> log_block s j"
    "\<And>i. i < n \<Longrightarrow> head_at s \<noteq> log_block s i" "\<And>i. i < n \<Longrightarrow> log_at s i \<noteq> head_at s"
    using R n(2) inj unfolding P_def in_log_def image_def n_def by (auto simp: zless_nat_eq_int_zless, smt (verit), smt (verit))
  define c where "c = (\<lambda>i. content s d (log_block s i))"
  define ws1 where "ws1 = map (\<lambda>i. (log_at s i, c i)) [0..<n]"
  define h where "h = head_bytes (lg_lh (lg s)) (disk s (head_at s))"
  obtain t1 where t1: "write_log s = Inr t1" "busy d P {} t1" "ran s t1 ws1" "content t1 d = apply_writes (content s d) ws1"
    using write_log_loop_ok [of s P "[0..<n]"] R P n out(2)
    by (auto simp: write_log_def d_def n_def ws1_def c_def P_def)
  note eq1 = ranD(1) [OF t1(3)] ran_at [OF ranD(1) [OF t1(3)]]
  have "content s d (head_at s) = disk s (head_at s)" using busy_content_disk [of d P "{}" s] R out(1) by simp
  then have h1: "content t1 d (head_at s) = disk s (head_at s)"
    using out(5) unfolding t1(4) ws1_def by (subst apply_writes_map_other) auto
  obtain t2 where t2: "write_head t1 = Inr t2" "busy d P {} t2" "ran t1 t2 [(head_at s, h)]"
    "content t2 d = (content t1 d)(head_at s := h)"
    by (rule write_head_ok [OF t1(2), unfolded eq1 h1, folded h_def]) (use P out d_def in auto)
  note eq2 = ran_trans [OF t1(3) t2(3)]
  have lg2: "lg t2 = lg s" "log_at t2 = log_at s" "head_at t2 = head_at s"
    using ranD(1) [OF eq2] ran_at [OF ranD(1) [OF eq2]] by auto
  have c2: "content t2 d (log_at s i) = c i" if "i < n" for i
    using out(5) that apply_writes_map [of "log_at s" "[0..<n]" i "content s d" c]
      inj_on_subset [OF inj(1), of "{..<n}"] R n by (auto simp: t2(4) t1(4) ws1_def lessThan_atLeast0)
  define ws3 where "ws3 = map (\<lambda>i. (log_block s i, c i)) [0..<n]"
  have ws3: "map (\<lambda>i. (log_block s i, content t2 d (log_at s i))) [0..<n] = ws3" using c2 by (simp add: ws3_def)
  obtain t3 where t3: "install_trans False t2 = Inr t3" "busy d {} {} t3" "ran t2 t3 ws3"
    "content t3 d = apply_writes (content t2 d) ws3"
    using install_loop_ok [of t2 P "[0..<n]" False, unfolded lg2, folded d_def, unfolded ws3] t2(2) P n out R
    by (auto simp: install_trans_def lg2 n_def [symmetric] P_def lessThan_atLeast0)
  have h3: "content t3 d (head_at s) = h"
    using not_sym [OF out(4)] unfolding t3(4) t2(4) ws3_def by (subst apply_writes_map_other) auto
  define t4 where "t4 = upd_lh (\<lambda>h. h\<lparr>lh_n := 0\<rparr>) t3"
  have lg4: "lg t4 = (lg s)\<lparr>lg_lh := (lg_lh (lg s))\<lparr>lh_n := 0\<rparr>\<rparr>" "head_at t4 = head_at s"
    using ranD(1) [OF t3(3)] by (auto simp: t4_def lg2 head_at_def)
  have h4: "content t4 d (head_at s) = h" using h3 by (simp add: t4_def)
  obtain t5 where t5: "write_head t4 = Inr t5" "busy d {} {} t5"
    "ran t4 t5 [(head_at s, head_bytes ((lg_lh (lg s))\<lparr>lh_n := 0\<rparr>) h)]"
    by (rule write_head_ok [of d "{}" t4, unfolded lg4 h4]) (use t3(2) in \<open>simp_all add: t4_def d_def\<close>)
  have "commit s = Inr t5"
    using t1(1) t2(1) t3(1) t5(1) n by (simp add: commit_def bnd_def n_def t4_def)
  moreover have "commit_writes s = ws1 @ [(head_at s, h)] @ ws3 @ [(head_at s, head_bytes ((lg_lh (lg s))\<lparr>lh_n := 0\<rparr>) h)]"
    by (simp add: commit_writes_def Let_def ws1_def ws3_def c_def h_def n_def d_def)
  moreover note ranD [OF t5(3)] ranD [OF ran_trans [OF eq2 t3(3)]]
  ultimately show ?thesis using t5(2) by (intro that) (auto simp: lg4 d_def t4_def)
qed

section \<open>Recovery\<close>

lemma sint_small: "n \<le> LOGSIZE \<Longrightarrow> sint (of_nat n :: u32) = int n"
  by (simp add: signed_of_nat signed_take_bit_int_eq_self)

lemma read_head_ok:
  fixes s :: "'a lkern_scheme"
  assumes busy: "busy (lg_dev (lg s)) {} {} s" and n: "sint (get32 (disk s (head_at s)) 0) \<le> int LOGSIZE"
  defines "x \<equiv> disk s (head_at s)"
  obtains t where "read_head s = Inr t" "busy (lg_dev (lg s)) {} {} t" "disk t = disk s" "dwrites t = dwrites s"
    "lg t = (lg s)\<lparr>lg_lh := (lg_lh (lg s))\<lparr>lh_n := sint (get32 x 0),
       lh_block := (\<lambda>i. if int i < sint (get32 x 0) then get32 x (4 + 4 * i) else log_block s i)\<rparr>\<rparr>"
    "lkern.more t = lkern.more s"
proof -
  let ?d = "lg_dev (lg s)"
  let ?f = "\<lambda>h. h\<lparr>lh_n := sint (get32 x 0),
    lh_block := (\<lambda>i. if int i < sint (get32 x 0) then get32 x (4 + 4 * i) else lh_block h i)\<rparr>"
  obtain b s1 where 1: "bread ?d (head_at s) s = Inr (b, s1)" "busy ?d {} {b} s1" "ran s s1 []"
    "b_blockno (bufs s1 b) = head_at s" "b_data (bufs s1 b) = content s ?d (head_at s)"
    by (rule log_bread [OF busy, of "head_at s"]) auto
  have x: "b_data (bufs s1 b) = x" using busy_content_disk [OF busy] 1(5) by (simp add: x_def)
  have "busy ?d {} {b} (upd_lh ?f s1)" using 1(2) by simp
  moreover have "b_data (bufs (upd_lh ?f s1) b) = disk (upd_lh ?f s1) (b_blockno (bufs (upd_lh ?f s1) b))"
    using x 1(4) ranD(2) [OF 1(3)] by (simp add: upd_lh_def x_def)
  ultimately obtain t where t: "brelse b (upd_lh ?f s1) = Inr t" "busy ?d {} {} t" "ran (upd_lh ?f s1) t []"
    by (rule_tac log_brelse [of ?d "{}" "{b}" "upd_lh ?f s1" b]) auto
  have "read_head s = Inr t"
    using 1(1) [unfolded head_at_def] t(1) n [folded x_def] x by (simp add: read_head_def bnd_def Let_def cong: if_cong)
  then show ?thesis
  proof (rule that)
    show "disk t = disk s" "dwrites t = dwrites s"
      using ranD(2,3) [OF t(3)] ranD(2,3) [OF 1(3)] by simp_all
    show "lg t = (lg s)\<lparr>lg_lh := ?f (lg_lh (lg s))\<rparr>"
      by (simp only: ranD(1) [OF t(3)] upd_lh_sel ranD(1) [OF 1(3)])
    show "lkern.more t = lkern.more s" using ranD(4) [OF t(3)] ranD(4) [OF 1(3)] by (simp add: upd_lh_def)
  qed (rule t(2))
qed

text \<open>The disk after recovery, from the disk before it.\<close>

definition recovered :: "'a lkern_scheme \<Rightarrow> nat \<Rightarrow> (nat \<Rightarrow> u32) \<Rightarrow> (u32 \<Rightarrow> byte list) \<Rightarrow> u32 \<Rightarrow> byte list" where
  "recovered s n bl D = apply_writes D (map (\<lambda>i. (bl i, D (log_at s i))) [0..<n])"

lemma recover_ok:
  fixes s :: "'a lkern_scheme"
  assumes busy: "busy (lg_dev (lg s)) {} {} s"
    and rng: "0 \<le> lg_start (lg s)" "lg_start (lg s) + int LOGSIZE < 2 ^ 31"
    and sz: "lg_size (lg s) \<le> int LOGSIZE" "int n \<le> lg_size (lg s) - 1"
    and n: "get32 (disk s (head_at s)) 0 = of_nat n" "BSIZE = length (disk s (head_at s))"
    and bl: "\<And>i. i < n \<Longrightarrow> get32 (disk s (head_at s)) (4 + 4 * i) = bl i" "\<And>i. i < n \<Longrightarrow> \<not> in_log s (bl i)"
  obtains t where "recover_from_log s = Inr t" "busy (lg_dev (lg s)) {} {} t"
    "\<And>k. k \<noteq> head_at s \<Longrightarrow> disk t k = recovered s n bl (disk s) k"
    "get32 (disk t (head_at s)) 0 = 0" "length (disk t (head_at s)) = BSIZE" "log_n t = 0"
    "lg t = (lg s)\<lparr>lg_lh := lg_lh (lg t)\<rparr>" "lkern.more t = lkern.more s"
proof -
  let ?d = "lg_dev (lg s)"
  have le: "n \<le> LOGSIZE" using sz by simp
  then have sn: "sint (get32 (disk s (head_at s)) 0) = int n"
    using n(1) sint_small by simp
  obtain t1 where t1: "read_head s = Inr t1" "busy ?d {} {} t1" "disk t1 = disk s" "dwrites t1 = dwrites s"
    "lg t1 = (lg s)\<lparr>lg_lh := (lg_lh (lg s))\<lparr>lh_n := int n,
       lh_block := (\<lambda>i. if int i < int n then get32 (disk s (head_at s)) (4 + 4 * i) else log_block s i)\<rparr>\<rparr>"
    "lkern.more t1 = lkern.more s"
    by (rule read_head_ok [OF busy, unfolded sn]) (use le in auto)
  have at: "log_at t1 = log_at s" "head_at t1 = head_at s" "lg_dev (lg t1) = ?d" "nat (log_n t1) = n"
    and blk: "\<And>i. i < n \<Longrightarrow> log_block t1 i = bl i"
    using t1(5) bl(1) by (auto simp: log_at_def head_at_def)
  let ?ws = "map (\<lambda>i. (bl i, disk s (log_at s i))) [0..<n]"
  have ws: "map (\<lambda>i. (log_block t1 i, content t1 ?d (log_at s i))) [0..<n] = ?ws"
    using blk busy_content_disk [OF t1(2)] t1(3) by simp
  have out: "log_at s i \<noteq> bl j" "head_at s \<noteq> bl j" if "i < n" "j < n" for i j
  proof -
    have "int i < lg_size (lg s) - 1" using that sz(2) by simp
    then show "log_at s i \<noteq> bl j" "head_at s \<noteq> bl j"
      using bl(2) [OF that(2)] unfolding in_log_def by metis+
  qed
  obtain t2 where t2: "install_trans True t1 = Inr t2" "busy ?d {} {} t2" "ran t1 t2 ?ws"
    using install_loop_ok [of t1 "{}" "[0..<n]" True, unfolded at ws] t1(2) le out blk
    by (auto simp: install_trans_def at)
  define t3 where "t3 = upd_lh (\<lambda>h. h\<lparr>lh_n := 0\<rparr>) t2"
  have t3: "busy ?d {} {} t3" "lg_dev (lg t3) = ?d" "head_at t3 = head_at s" "log_n t3 = 0"
    using t2(2) ranD(1) [OF t2(3)] at by (auto simp: t3_def head_at_def)
  have lg3: "lg t3 = (lg s)\<lparr>lg_lh := lg_lh (lg t3)\<rparr>" using ranD(1) [OF t2(3)] t1(5) by (simp add: t3_def)
  have D: "disk t3 = recovered s n bl (disk s)"
    using ranD(2) [OF t2(3)] t1(3) by (simp add: t3_def recovered_def)
  have hd: "disk t3 (head_at s) = disk s (head_at s)"
    unfolding D recovered_def using out(2) by (subst apply_writes_map_other) (auto dest: sym)
  have "content t3 ?d (head_at s) = disk s (head_at s)" using busy_content_disk [OF t3(1)] hd by simp
  then obtain t4 where t4: "write_head t3 = Inr t4" "busy ?d {} {} t4"
    "ran t3 t4 [(head_at s, head_bytes (lg_lh (lg t3)) (disk s (head_at s)))]"
    by (rule_tac write_head_ok [of ?d "{}" t3]) (use t3 in \<open>simp_all\<close>)
  have "recover_from_log s = Inr t4"
    using t1(1) t2(1) t4(1) by (simp add: recover_from_log_def bnd_def t3_def)
  moreover note head_bytes_dec(1,2) [of "lg_lh (lg t3)" "disk s (head_at s)"]
  ultimately show ?thesis
    using that [of t4] t4(2) ranD(1,2,4) [OF t4(3)] ranD(4) [OF t2(3)] t1(6) D t3(4) n(2) lg3
    by (simp add: t3_def upd_lh_def)
qed

section \<open>The disk after a crash\<close>

lemma open_out:
  assumes "log_open H s" "i < nat (log_n s)"
  shows "in_log s (log_at s i)" "log_at s i \<noteq> head_at s"
    "j < nat (log_n s) \<Longrightarrow> \<not> in_log s (log_block s j)" "i < LOGSIZE"
proof -
  have i: "i < LOGSIZE" "int i < lg_size (lg s) - 1" using assms by (auto simp: log_open_def)
  then show "in_log s (log_at s i)" "i < LOGSIZE" by (auto simp: in_log_def)
  show "log_at s i \<noteq> head_at s" using assms(1) i(1) log_at_inj(2) [of s i] by (simp add: log_open_def)
qed (use assms in \<open>auto simp: log_open_def\<close>)

lemma in_log_head: "in_log s (head_at s)"
  by (simp add: in_log_def)

text \<open>Before the header is written, the disk outside the log and the clear header are as they were.\<close>

lemma crash_before:
  assumes "log_open {} s" "j \<le> nat (log_n s)"
  defines "D \<equiv> apply_writes (disk s) (take j (commit_writes s))"
  shows "D (head_at s) = disk s (head_at s)" "\<not> in_log s k \<Longrightarrow> D k = disk s k"
proof -
  let ?c = "\<lambda>i. content s (lg_dev (lg s)) (log_block s i)"
  have take: "take j (commit_writes s) = map (\<lambda>i. (log_at s i, ?c i)) [0..<j]"
    using assms(2) by (simp add: commit_writes_def Let_def take_map)
  show "D (head_at s) = disk s (head_at s)"
    unfolding D_def take using open_out(2) [OF assms(1)] assms(2) by (subst apply_writes_map_other) auto
  show "D k = disk s k" if "\<not> in_log s k"
    unfolding D_def take using open_out(1) [OF assms(1)] assms(2) that by (subst apply_writes_map_other) auto
qed

text \<open>From then on the log holds the new contents, until the header is cleared.\<close>

lemma crash_after:
  assumes "log_open {} s" "nat (log_n s) < j" "j \<le> 2 * nat (log_n s) + 1"
  defines "D \<equiv> apply_writes (disk s) (take j (commit_writes s))"
  shows "D (head_at s) = head_bytes (lg_lh (lg s)) (disk s (head_at s))"
    "i < nat (log_n s) \<Longrightarrow> D (log_at s i) = content s (lg_dev (lg s)) (log_block s i)"
    "\<not> in_log s k \<Longrightarrow> k \<notin> log_block s ` {..<nat (log_n s)} \<Longrightarrow> D k = disk s k"
proof -
  define n where "n = nat (log_n s)"
  let ?c = "\<lambda>i. content s (lg_dev (lg s)) (log_block s i)" and ?h = "head_bytes (lg_lh (lg s)) (disk s (head_at s))"
  let ?log = "map (\<lambda>i. (log_at s i, ?c i)) [0..<n]" and ?home = "map (\<lambda>i. (log_block s i, ?c i)) [0..<j - n - 1]"
  have "min (j - Suc n) n = j - Suc n" using assms(3) by (simp add: n_def)
  then have take: "take j (commit_writes s) = ?log @ (head_at s, ?h) # ?home"
    using assms(2,3) by (simp add: commit_writes_def Let_def take_map n_def [symmetric] take_Cons')
  have out: "log_at s i \<noteq> head_at s" "log_block s i \<noteq> head_at s" if "i < n" for i
    using open_out(2,3) [OF assms(1)] in_log_head that unfolding n_def by metis+
  show "D (head_at s) = ?h"
    unfolding D_def take apply_writes_simps using out assms(3) by (subst apply_writes_map_other) (auto simp: n_def)
  show "D (log_at s i) = ?c i" if "i < nat (log_n s)"
  proof -
    have "inj_on (log_at s) {..<LOGSIZE}" using assms(1) log_at_inj(1) [of s] by (simp add: log_open_def)
    then have inj: "inj_on (log_at s) (set [0..<n])" using open_out(4) [OF assms(1)] by (auto simp: inj_on_def n_def)
    have "log_block s k \<noteq> log_at s i" if "k \<in> set [0..<j - n - 1]" for k
    proof -
      have "k < nat (log_n s)" using that assms(3) by (auto simp: n_def)
      then show ?thesis using open_out(1,3) [OF assms(1) \<open>i < _\<close>] by metis
    qed
    then show ?thesis
      unfolding D_def take apply_writes_simps
      using that out(1) [of i] apply_writes_map [OF inj, of i] by (subst apply_writes_map_other) (auto simp: n_def)
  qed
  show "D k = disk s k" if "\<not> in_log s k" "k \<notin> log_block s ` {..<nat (log_n s)}"
    unfolding D_def take apply_writes_simps using that open_out(1) [OF assms(1)] in_log_head assms(3)
    by (subst apply_writes_map_other, force simp: n_def) (auto simp: n_def intro!: apply_writes_map_other)
qed

lemma crash_end:
  assumes "log_open {} s" "2 * nat (log_n s) + 1 < j" "0 < log_n s"
  defines "D \<equiv> apply_writes (disk s) (take j (commit_writes s))"
  shows "get32 (D (head_at s)) 0 = 0" "length (D (head_at s)) = BSIZE"
    "\<not> in_log s k \<Longrightarrow> D k = content s (lg_dev (lg s)) k"
proof -
  define n where "n = nat (log_n s)"
  let ?d = "lg_dev (lg s)"
  let ?c = "\<lambda>i. content s ?d (log_block s i)" and ?h = "head_bytes (lg_lh (lg s)) (disk s (head_at s))"
  let ?log = "map (\<lambda>i. (log_at s i, ?c i)) [0..<n]" and ?home = "map (\<lambda>i. (log_block s i, ?c i)) [0..<n]"
  have take: "take j (commit_writes s) =
      ?log @ (head_at s, ?h) # ?home @ [(head_at s, head_bytes ((lg_lh (lg s))\<lparr>lh_n := 0\<rparr>) ?h)]"
    using assms(2) by (simp add: commit_writes_def Let_def n_def [symmetric])
  have "nat (log_n s) \<le> 255" using assms(1) by (auto simp: log_open_def)
  then have "length ?h = BSIZE" using assms(1) head_bytes_dec(1) [of "lg_lh (lg s)" "disk s (head_at s)"]
    by (simp add: log_open_def)
  then show "get32 (D (head_at s)) 0 = 0" "length (D (head_at s)) = BSIZE"
    using head_bytes_dec(1,2) [of "(lg_lh (lg s))\<lparr>lh_n := 0\<rparr>" ?h] by (simp_all add: D_def take)
  show "D k = content s ?d k" if out: "\<not> in_log s k"
  proof (cases "k \<in> log_block s ` {..<n}")
    case True
    have "k \<noteq> head_at s" using out in_log_head by blast
    from True obtain i where i: "i < n" "k = log_block s i" by auto
    have "inj_on (log_block s) (set [0..<n])" using assms(1) by (simp add: log_open_def n_def lessThan_atLeast0)
    from apply_writes_map [OF this, of i] i \<open>k \<noteq> head_at s\<close> show ?thesis by (simp add: D_def take)
  next
    case False
    then have "D k = disk s k"
      unfolding D_def take using out open_out(1) [OF assms(1)] in_log_head
      by (subst apply_writes_other) (auto simp: n_def)
    moreover have "busy ?d (log_block s ` {..<n}) {} s" using assms(1) by (simp add: log_open_def n_def)
    ultimately show ?thesis using busy_content_disk False by fastforce
  qed
qed

text \<open>Installing the whole log yields the committed contents.\<close>

lemma recovered_new:
  assumes "log_open {} s"
    and log: "\<And>i. i < nat (log_n s) \<Longrightarrow> D (log_at s i) = content s (lg_dev (lg s)) (log_block s i)"
    and other: "k \<notin> log_block s ` {..<nat (log_n s)} \<Longrightarrow> D k = disk s k"
  shows "recovered s (nat (log_n s)) (log_block s) D k = content s (lg_dev (lg s)) k"
proof -
  let ?n = "nat (log_n s)" and ?d = "lg_dev (lg s)"
  have ws: "map (\<lambda>i. (log_block s i, D (log_at s i))) [0..<?n] = map (\<lambda>i. (log_block s i, content s ?d (log_block s i))) [0..<?n]"
    using log by simp
  show ?thesis
  proof (cases "k \<in> log_block s ` {..<?n}")
    case True
    then obtain i where i: "i < ?n" "k = log_block s i" by auto
    have "inj_on (log_block s) (set [0..<?n])" using assms(1) by (simp add: log_open_def lessThan_atLeast0)
    from apply_writes_map [OF this, of i] i show ?thesis by (simp add: recovered_def ws)
  next
    case False
    have "busy ?d (log_block s ` {..<?n}) {} s" using assms(1) by (simp add: log_open_def)
    then have "disk s k = content s ?d k" using busy_content_disk False by fastforce
    moreover have "recovered s ?n (log_block s) D k = D k"
      unfolding recovered_def by (rule apply_writes_map_other) (use False in auto)
    ultimately show ?thesis using other [OF False] by simp
  qed
qed

text \<open>Recovery from each of the disks a crash can leave.\<close>

lemma in_log_cong: "lg_start (lg u) = lg_start (lg s) \<Longrightarrow> lg_size (lg u) = lg_size (lg s) \<Longrightarrow> in_log u = in_log s"
  by (auto simp: in_log_def log_at_def head_at_def)

definition settled :: "'a lkern_scheme \<Rightarrow> 'a lkern_scheme \<Rightarrow> bool" where
  "settled s v \<longleftrightarrow> log_open {} v \<and> log_n v = 0 \<and> lg_start (lg v) = lg_start (lg s) \<and>
     lg_size (lg v) = lg_size (lg s) \<and> lg_dev (lg v) = lg_dev (lg s)"

lemma settledI:
  assumes "log_open {} s" "busy (lg_dev (lg s)) {} {} v" "get32 (disk v (head_at s)) 0 = 0"
    "length (disk v (head_at s)) = BSIZE" "log_n v = 0" "lg_start (lg v) = lg_start (lg s)"
    "lg_size (lg v) = lg_size (lg s)" "lg_dev (lg v) = lg_dev (lg s)"
  shows "settled s v"
proof -
  have "head_at v = head_at s" using assms(6) by (simp add: head_at_def)
  then show ?thesis using assms by (simp add: settled_def log_open_def)
qed

lemma recover_crash:
  fixes s u :: "'a lkern_scheme"
  assumes s: "log_open {} s" "0 < log_n s" and u: "busy (lg_dev (lg s)) {} {} u"
    and lg: "lg_start (lg u) = lg_start (lg s)" "lg_size (lg u) = lg_size (lg s)" "lg_dev (lg u) = lg_dev (lg s)"
    and D: "disk u = apply_writes (disk s) (take j (commit_writes s))"
  shows "\<exists>v. recover_from_log u = Inr v \<and> settled s v \<and> (\<forall>k. \<not> in_log s k \<longrightarrow>
    disk v k = (if j \<le> nat (log_n s) then disk s k else content s (lg_dev (lg s)) k))"
proof -
  define n where "n = nat (log_n s)"
  have at: "head_at u = head_at s" "log_at u = log_at s" using lg(1) by (auto simp: head_at_def log_at_def)
  note O = s(1) [unfolded log_open_def]
  have n255: "n \<le> 255" "int n \<le> lg_size (lg s) - 1" "int n = log_n s" using O by (auto simp: n_def)
  have run: ?thesis
    if m: "get32 (disk u (head_at s)) 0 = of_nat m" "length (disk u (head_at s)) = BSIZE" "m \<le> n"
      "\<And>i. i < m \<Longrightarrow> get32 (disk u (head_at s)) (4 + 4 * i) = log_block s i"
      "\<And>k. \<not> in_log s k \<Longrightarrow> recovered s m (log_block s) (disk u) k =
         (if j \<le> n then disk s k else content s (lg_dev (lg s)) k)" for m
  proof -
    have out: "\<not> in_log u (log_block s i)" if "i < m" for i
      using O that m(3) in_log_cong [OF lg(1,2)] by (auto simp: n_def)
    obtain v where v: "recover_from_log u = Inr v" "busy (lg_dev (lg u)) {} {} v"
      "\<And>k. k \<noteq> head_at u \<Longrightarrow> disk v k = recovered u m (log_block s) (disk u) k"
      "get32 (disk v (head_at u)) 0 = 0" "length (disk v (head_at u)) = BSIZE" "log_n v = 0"
      "lg v = (lg u)\<lparr>lg_lh := lg_lh (lg v)\<rparr>"
      by (rule recover_ok [of u m "log_block s"]) (use u m O n255(2) out in \<open>simp_all add: lg at\<close>)
    have lgv: "lg_start (lg v) = lg_start (lg s)" "lg_size (lg v) = lg_size (lg s)" "lg_dev (lg v) = lg_dev (lg s)"
      by (subst v(7), simp add: lg)+
    have "settled s v" by (rule settledI [OF s(1)]) (use v(2,4-6) lgv in \<open>simp_all add: lg at\<close>)
    moreover have "disk v k = (if j \<le> n then disk s k else content s (lg_dev (lg s)) k)" if "\<not> in_log s k" for k
    proof -
      have "k \<noteq> head_at s" using that in_log_head by blast
      then show ?thesis using v(3) m(5) [OF that] by (simp add: at recovered_def)
    qed
    ultimately show ?thesis using v(1) by (auto simp: n_def)
  qed
  show ?thesis
  proof (cases "j \<le> n")
    case True
    note B = crash_before [OF s(1), of j, folded D]
    show ?thesis by (rule run [of 0]) (use True B O in \<open>auto simp: n_def recovered_def\<close>)
  next
    case j: False
    show ?thesis
    proof (cases "j \<le> 2 * n + 1")
      case True
      note A = crash_after [OF s(1), of j, folded D n_def]
      have h: "disk u (head_at s) = head_bytes (lg_lh (lg s)) (disk s (head_at s))" using A(1) j True by simp
      note dec = head_bytes_dec [of "lg_lh (lg s)" "disk s (head_at s)"]
      have rec: "recovered s n (log_block s) (disk u) k = content s (lg_dev (lg s)) k" if "\<not> in_log s k" for k
        by (rule recovered_new [OF s(1), folded n_def]) (use A j True that in auto)
      show ?thesis
        by (rule run [of n]) (use j dec O n255(1,2) rec in \<open>simp_all add: h n255(3) [symmetric]\<close>)
    next
      case False
      note E = crash_end [OF s(1) _ s(2), of j, folded D n_def]
      show ?thesis by (rule run [of 0]) (use False E j in \<open>auto simp: n_def recovered_def\<close>)
    qed
  qed
qed

section \<open>Writing within a transaction\<close>

lemma log_write_open:
  fixes s :: "'a lkern_scheme"
  assumes s: "log_open H s" and b: "b \<in> H" "k = b_blockno (bufs s b)" "\<not> in_log s k"
    and room: "log_n s < lg_size (lg s) - 1" "1 \<le> lg_outstanding (lg s)"
  defines "old \<equiv> log_block s ` {..<nat (log_n s)}"
  obtains t where "log_write b s = Inr t" "log_open H t" "log_block t ` {..<nat (log_n t)} = insert k old"
    "log_n t = (if k \<in> old then log_n s else log_n s + 1)" "lg t = (lg s)\<lparr>lg_lh := lg_lh (lg t)\<rparr>"
    "content t (lg_dev (lg s)) = content s (lg_dev (lg s))" "disk t = disk s" "dwrites t = dwrites s"
    "\<And>c. b_blockno (bufs t c) = b_blockno (bufs s c)" "\<And>c. b_data (bufs t c) = b_data (bufs s c)"
    "lkern.more t = lkern.more s"
proof (cases "find (\<lambda>i. log_block s i = k) [0..<nat (log_n s)]")
  case (Some i)
  then have i: "i < nat (log_n s)" "log_block s i = k" using find_member by fastforce+
  then have k: "k \<in> old" by (auto simp: old_def)
  have "log_write b s = Inr (upd_lh (\<lambda>h. h) s)"
    using Some i room s b(2) [symmetric]
    by (auto simp: log_write_def log_find_def Let_def log_open_def upd_lh_def fun_upd_idem)
  moreover have "upd_lh (\<lambda>h. h) s = s" by (simp add: upd_lh_def)
  ultimately show ?thesis using that [of s] s k by (auto simp: old_def)
next
  case None
  define n where "n = nat (log_n s)"
  let ?d = "lg_dev (lg s)"
  note O = s [unfolded log_open_def, folded n_def, folded old_def]
  from None have new: "k \<notin> old" by (auto simp: find_None_iff old_def)
  define t where "t = upd_lh (\<lambda>h. h\<lparr>lh_n := lh_n h + 1, lh_block := (lh_block h)(n := k)\<rparr>) (bpin b s)"
  have st: "lg (bpin b s) = lg s" "disk (bpin b s) = disk s" "dwrites (bpin b s) = dwrites s"
    by (simp_all add: bpin_def upd_buf_def)
  have lg: "lg t = (lg s)\<lparr>lg_lh := (lg_lh (lg s))\<lparr>lh_n := log_n s + 1, lh_block := (log_block s)(n := k)\<rparr>\<rparr>"
    by (simp add: t_def st)
  have w: "log_write b s = Inr t"
    using None room O b(2) [symmetric]
    by (simp add: log_write_def log_find_def Let_def t_def n_def upd_lh_def bpin_def upd_buf_def)
  have n: "nat (log_n t) = Suc n" using O by (simp add: lg n_def nat_add_distrib)
  have blk: "log_block t ` {..<Suc n} = insert k old" by (auto simp: lg old_def n_def)
  have "busy ?d old H s" using O by (simp add: old_def n_def)
  from busy_bpin [OF this b(1) b(2) [symmetric] new] have "busy ?d (insert k old) H t" "content t ?d = content s ?d"
    by (simp_all add: t_def fun_eq_iff)
  moreover have "inj_on (log_block t) {..<Suc n}"
  proof -
    have "inj_on (log_block t) {..<n}" using O by (simp add: inj_on_def lg)
    moreover have "log_block t n \<notin> log_block t ` {..<n}" using new by (auto simp: lg old_def n_def)
    ultimately show ?thesis by (simp add: lessThan_Suc)
  qed
  moreover have at: "in_log t = in_log s" "head_at t = head_at s" by (auto simp: in_log_def log_at_def head_at_def lg)
  moreover have "\<not> in_log s (log_block t i)" if "i < Suc n" for i using that O b(3) by (simp add: lg)
  ultimately have "log_open H t"
    unfolding log_open_def n blk at using O room by (simp add: lg) (simp add: t_def st)
  then show ?thesis
    using that [of t, OF w] new \<open>content t ?d = _\<close> n blk by (simp add: lg) (simp add: t_def st, simp add: upd_lh_def bpin_def upd_buf_def)
qed

text \<open>Changing the data of a held buffer, and reading and releasing within the transaction.\<close>

lemma open_bread:
  assumes s: "log_open H s" "\<And>b. b \<in> H \<Longrightarrow> b_blockno (bufs s b) \<noteq> k"
    "k \<in> log_block s ` {..<nat (log_n s)} \<or> nat (log_n s) + card H < NBUF"
  obtains b t where "bread (lg_dev (lg s)) k s = Inr (b, t)" "log_open (insert b H) t" "b \<notin> H" "lg t = lg s"
    "b_blockno (bufs t b) = k" "b_data (bufs t b) = content s (lg_dev (lg s)) k"
    "content t (lg_dev (lg s)) = content s (lg_dev (lg s))" "disk t = disk s"
    "lkern.more t = lkern.more s" "\<And>c. c \<in> H \<Longrightarrow> bufs t c = bufs s c"
proof -
  let ?P = "log_block s ` {..<nat (log_n s)}"
  have "card ?P \<le> nat (log_n s)" using card_image_le [of "{..<nat (log_n s)}" "log_block s"] by simp
  then have "k \<in> ?P \<or> finite ?P \<and> card ?P + card H < NBUF" using s(3) by auto
  moreover have "busy (lg_dev (lg s)) ?P H s" using s(1) by (simp add: log_open_def)
  ultimately obtain b t where t: "bread (lg_dev (lg s)) k s = Inr (b, t)" "busy (lg_dev (lg s)) ?P (insert b H) t" "b \<notin> H"
      "ran s t []" "b_blockno (bufs t b) = k" "b_data (bufs t b) = content s (lg_dev (lg s)) k"
      "content t (lg_dev (lg s)) = content s (lg_dev (lg s))"
      "\<And>c. c \<in> H \<Longrightarrow> bufs t c = bufs s c"
    using log_bread [OF _ s(2)] by metis
  note r = ranD [OF t(4)]
  have "in_log t = in_log s" "head_at t = head_at s" by (auto simp: in_log_def log_at_def head_at_def r)
  then have "log_open (insert b H) t" using s(1) t(2) r by (simp add: log_open_def)
  then show ?thesis using that t r by simp
qed

lemma open_upd:
  fixes v :: "byte list"
  assumes s: "log_open H s" "b \<in> H"
  defines "t \<equiv> upd_buf b (\<lambda>x. x\<lparr>b_data := v\<rparr>) s"
  shows "log_open H t" "content t (lg_dev (lg s)) = (content s (lg_dev (lg s)))(b_blockno (bufs s b) := v)"
    "lg t = lg s" "disk t = disk s" "b_blockno (bufs t c) = b_blockno (bufs s c)" "lkern.more t = lkern.more s"
    "c \<noteq> b \<Longrightarrow> bufs t c = bufs s c"
proof -
  let ?d = "lg_dev (lg s)" and ?P = "log_block s ` {..<nat (log_n s)}"
  have "busy ?d ?P H s" using s(1) by (simp add: log_open_def)
  from busy_upd [OF this s(2), of v] have u: "busy ?d ?P H t" "content t ?d = (content s ?d)(b_blockno (bufs s b) := v)"
    by (auto simp: t_def fun_eq_iff)
  show e: "lg t = lg s" "disk t = disk s" "b_blockno (bufs t c) = b_blockno (bufs s c)" "lkern.more t = lkern.more s"
    "c \<noteq> b \<Longrightarrow> bufs t c = bufs s c"
    by (simp_all add: t_def upd_buf_def)
  have "in_log t = in_log s" "head_at t = head_at s" by (auto simp: in_log_def log_at_def head_at_def e)
  then show "log_open H t" using s(1) u(1) e by (simp add: log_open_def)
  show "content t ?d = (content s ?d)(b_blockno (bufs s b) := v)" by (rule u(2))
qed

lemma open_brelse:
  fixes s :: "'a lkern_scheme"
  assumes s: "log_open H s" "b \<in> H"
    and clean: "b_blockno (bufs s b) \<in> log_block s ` {..<nat (log_n s)} \<or> b_data (bufs s b) = disk s (b_blockno (bufs s b))"
  obtains t where "brelse b s = Inr t" "log_open (H - {b}) t" "lg t = lg s" "disk t = disk s"
    "content t (lg_dev (lg s)) = content s (lg_dev (lg s))" "lkern.more t = lkern.more s"
    "\<And>c. b_blockno (bufs t c) = b_blockno (bufs s c)" "\<And>c. b_data (bufs t c) = b_data (bufs s c)"
proof -
  let ?d = "lg_dev (lg s)" and ?P = "log_block s ` {..<nat (log_n s)}"
  have "busy ?d ?P H s" using s(1) by (simp add: log_open_def)
  then obtain t where t: "brelse b s = Inr t" "busy ?d ?P (H - {b}) t" "ran s t []" "content t ?d = content s ?d"
      "\<And>c. b_blockno (bufs t c) = b_blockno (bufs s c)" "\<And>c. b_data (bufs t c) = b_data (bufs s c)"
    using log_brelse [OF _ s(2) clean] by metis
  note r = ranD [OF t(3)]
  have "in_log t = in_log s" "head_at t = head_at s" by (auto simp: in_log_def log_at_def head_at_def r)
  then have "log_open (H - {b}) t" using s(1) t(2) r by (simp add: log_open_def)
  then show ?thesis using that t r by simp
qed

section \<open>Starting up\<close>

text \<open>A machine that has just started and runs its first process: no buffer is in use.\<close>

definition cold :: "'a lkern_scheme \<Rightarrow> bool" where
  "cold u \<longleftrightarrow> (\<forall>b < NBUF. \<not> b_valid (bufs u b) \<and> b_dev (bufs u b) = 0 \<and> b_refcnt (bufs u b) = 0) \<and>
     myproc (k_sched u) \<noteq> None"

lemma sint_of_int32: "0 \<le> a \<Longrightarrow> a < 2 ^ 31 \<Longrightarrow> sint (of_int a :: u32) = a"
  by (simp add: signed_of_int signed_take_bit_int_eq_self)

lemma boot_state:
  fixes u :: "'a lkern_scheme"
  assumes "cold u" "d \<noteq> 0" "0 \<le> a" "a < 2 ^ 31" "0 \<le> n" "n < 2 ^ 31"
  obtains v where "initlog d (of_int a) (of_int n) (binit u) = recover_from_log v" "busy d {} {} v"
    "lg_start (lg v) = a" "lg_size (lg v) = n" "lg_dev (lg v) = d" "disk v = disk u"
proof -
  let ?v = "(binit u)\<lparr>lg := (lg (binit u))\<lparr>lg_start := a, lg_size := n, lg_dev := d\<rparr>\<rparr>"
  obtain p where "myproc (k_sched u) = Some p" using assms(1) by (auto simp: cold_def)
  from binit_busy [OF _ this assms(2)] have "busy d {} {} (binit u)" using assms(1) by (auto simp: cold_def)
  then have "busy d {} {} ?v" by (simp add: busy_def clean_def)
  moreover have "initlog d (of_int a) (of_int n) (binit u) = recover_from_log ?v"
    using assms(3-6) by (simp add: initlog_def sint_of_int32)
  ultimately show ?thesis using that [of ?v] binit_state(1) [of u] by simp
qed

text \<open>An example: the log at block 2 of a disk of zeroes, with one operation outstanding.\<close>

definition log_ex :: lkern where
  "log_ex = disk_ex (lkern.fields \<lparr>lg_start = 2, lg_size = 30, lg_outstanding = 1, lg_committing = False, lg_dev = 1,
     lg_lh = \<lparr>lh_n = 0, lh_block = (\<lambda>_. 0)\<rparr>\<rparr>)"

lemma log_ex_sel:
  "lg (binit log_ex) = \<lparr>lg_start = 2, lg_size = 30, lg_outstanding = 1, lg_committing = False, lg_dev = 1,
     lg_lh = \<lparr>lh_n = 0, lh_block = (\<lambda>_. 0)\<rparr>\<rparr>" "disk (binit log_ex) = (\<lambda>_. replicate BSIZE 0)"
proof -
  have "lg s = lg t" if "bkern.more s = bkern.more t" for s t :: lkern using that by (cases s; cases t) simp
  from this [OF binit_state(4)] show "lg (binit log_ex) = \<lparr>lg_start = 2, lg_size = 30, lg_outstanding = 1, lg_committing = False, lg_dev = 1,
     lg_lh = \<lparr>lh_n = 0, lh_block = (\<lambda>_. 0)\<rparr>\<rparr>" by (simp add: log_ex_def disk_ex_def lkern.defs)
  show "disk (binit log_ex) = (\<lambda>_. replicate BSIZE 0)" by (simp add: binit_state log_ex_def disk_ex_def)
qed

lemma log_ex_open: "log_open {} (binit log_ex)"
proof -
  have "get32 (replicate BSIZE 0) 0 = 0" by (simp add: get32_def) (simp add: eval_nat_numeral)
  moreover have "busy 1 {} {} (binit log_ex)" unfolding log_ex_def by (rule disk_ex_busy)
  ultimately show ?thesis by (simp add: log_open_def log_ex_sel head_at_def)
qed

lemma log_ex_cold: "cold (log_ex\<lparr>disk := D\<rparr>)"
  by (simp add: cold_def log_ex_def disk_ex_def myproc_def sched_ex_procs)

text \<open>Block 100 is read, changed and logged; the hypotheses of the properties below hold.\<close>

lemma log_ex_run:
  obtains b s1 s2 s3 where "bread 1 100 (binit log_ex) = Inr (b, s1)" "log_open {b} s1" "b_blockno (bufs s1 b) = 100"
    "lg s1 = lg (binit log_ex)"
    "log_write b (upd_buf b (\<lambda>x. x\<lparr>b_data := replicate BSIZE 1\<rparr>) s1) = Inr s2" "brelse b s2 = Inr s3"
    "log_open {} s3" "log_n s3 = 1" "disk s3 = (\<lambda>_. replicate BSIZE 0)" "content s3 1 100 = replicate BSIZE 1"
    "lg_start (lg s3) = 2" "lg_size (lg s3) = 30" "lg_dev (lg s3) = 1"
proof -
  let ?v = "replicate BSIZE (1 :: byte)"
  obtain b s1 where 1: "bread 1 100 (binit log_ex) = Inr (b, s1)" "log_open {b} s1" "lg s1 = lg (binit log_ex)"
    "b_blockno (bufs s1 b) = 100" "disk s1 = disk (binit log_ex)"
    by (rule open_bread [OF log_ex_open, of 100]) (auto simp: log_ex_sel)
  define u where "u = upd_buf b (\<lambda>x. x\<lparr>b_data := ?v\<rparr>) s1"
  note U = open_upd [OF 1(2), where b = b and v = ?v, folded u_def, simplified]
  have lgu: "lg u = lg (binit log_ex)" using U(3) 1(3) by simp
  have "\<not> in_log u 100" using in_log_below [of u 100] by (auto simp: lgu log_ex_sel)
  then obtain s2 where 2: "log_write b u = Inr s2" "log_open {b} s2" "log_block s2 ` {..<nat (log_n s2)} = {100}"
    "log_n s2 = 1" "lg s2 = (lg u)\<lparr>lg_lh := lg_lh (lg s2)\<rparr>" "content s2 1 = content u 1" "disk s2 = disk u"
    "b_blockno (bufs s2 b) = 100"
    by (rule_tac log_write_open [OF U(1), of b 100]) (auto simp: U(5) 1(4) lgu log_ex_sel)
  have lg2: "lg_start (lg s2) = 2" "lg_size (lg s2) = 30" "lg_dev (lg s2) = 1"
    by (subst 2(5), simp add: lgu log_ex_sel)+
  have "b_blockno (bufs s2 b) \<in> log_block s2 ` {..<nat (log_n s2)}" using 2(3,8) by simp
  then obtain s3 where 3: "brelse b s2 = Inr s3" "log_open {} s3" "lg s3 = lg s2" "disk s3 = disk s2" "content s3 1 = content s2 1"
    by (rule_tac open_brelse [OF 2(2), of b]) (auto simp: lg2)
  show ?thesis
    by (rule that [OF 1(1,2,4,3) 2(1) [unfolded u_def] 3(1,2)])
      (use 2(4,6,7) 3(3-5) U(2,4) 1(4,5) lg2 in \<open>simp_all add: log_ex_sel 1(3)\<close>)
qed

section \<open>The reservation\<close>

text \<open>The reservation of \<^verbatim>\<open>begin_op\<close> is one block too generous for the log of the file system
  image.  It admits three operations of \<^verbatim>\<open>MAXOPBLOCKS\<close> blocks each into an empty log, but
  with 29 blocks logged, which is fewer than three operations may log, \<^verbatim>\<open>log_write\<close> panics.\<close>

lemma begin_op_overcommits:
  fixes s :: "'a lkern_scheme"
  assumes "lg_size (lg s) = int LOGSIZE" "log_n s = 0" "lg_outstanding (lg s) = 0" "\<not> lg_committing (lg s)"
  shows "\<exists>t. bnd (begin_op s) (\<lambda>s. bnd (begin_op s) begin_op) = Inr t \<and> lg_outstanding (lg t) = 3 \<and>
    (\<forall>u b. lg_size (lg u) = lg_size (lg t) \<longrightarrow> log_n u = 29 \<longrightarrow>
       29 < lg_outstanding (lg t) * int MAXOPBLOCKS \<and> log_write b (u :: 'a lkern_scheme) = Inl (Panic ''too big a transaction''))"
  using assms by (simp add: begin_op_def bnd_def log_write_def)

section \<open>Properties\<close>

text \<open>C4.  Transactions are atomic across crashes.  \<^verbatim>\<open>commit\<close> returns with an empty log.
  Suppose the machine stops after any number \<open>j\<close> of the disk writes of the commit and starts
  again: \<^verbatim>\<open>binit\<close> and \<^verbatim>\<open>initlog\<close> return, the log is empty, and every block outside the log
  is as before the transaction when the header had not been written (\<open>j\<close> at most the number of
  logged blocks), and otherwise has the contents that the transaction gave it in the cache.\<close>

theorem commit_crash_atomic:
  fixes s :: "'a lkern_scheme"
  assumes "log_open {} s" "0 < log_n s"
  shows "\<exists>t ws. commit s = Inr t \<and> settled s t \<and> dwrites t = dwrites s @ ws \<and> disk t = apply_writes (disk s) ws \<and>
    (\<forall>j u. cold (u :: 'a lkern_scheme) \<longrightarrow> disk u = apply_writes (disk s) (take j ws) \<longrightarrow>
      (\<exists>v. initlog (lg_dev (lg s)) (of_int (lg_start (lg s))) (of_int (lg_size (lg s))) (binit u) = Inr v \<and>
        settled s v \<and> (\<forall>k. \<not> in_log s k \<longrightarrow>
          disk v k = (if j \<le> nat (log_n s) then disk s k else content s (lg_dev (lg s)) k))))"
proof -
  note O = assms(1) [unfolded log_open_def]
  obtain t where t: "commit s = Inr t" "busy (lg_dev (lg s)) {} {} t" "dwrites t = dwrites s @ commit_writes s"
    "disk t = apply_writes (disk s) (commit_writes s)" "lg t = (lg s)\<lparr>lg_lh := (lg_lh (lg s))\<lparr>lh_n := 0\<rparr>\<rparr>"
    by (rule commit_ok [OF assms])
  note E = crash_end [OF assms(1) _ assms(2), of "length (commit_writes s)"]
  have len: "length (commit_writes s) = 2 * nat (log_n s) + 2" by (simp add: commit_writes_def Let_def)
  have "settled s t"
    by (rule settledI [OF assms(1) t(2)]) (use E len t(4) in \<open>simp_all add: t(5)\<close>)
  moreover have "\<exists>v. initlog (lg_dev (lg s)) (of_int (lg_start (lg s))) (of_int (lg_size (lg s))) (binit u) = Inr v \<and>
      settled s v \<and> (\<forall>k. \<not> in_log s k \<longrightarrow>
        disk v k = (if j \<le> nat (log_n s) then disk s k else content s (lg_dev (lg s)) k))"
    if u: "cold u" "disk u = apply_writes (disk s) (take j (commit_writes s))" for j and u :: "'a lkern_scheme"
  proof -
    have rng: "lg_dev (lg s) \<noteq> 0" "0 \<le> lg_start (lg s)" "lg_start (lg s) < 2 ^ 31" "0 \<le> lg_size (lg s)" "lg_size (lg s) < 2 ^ 31"
      using O by (auto simp: busy_def)
    obtain w where w: "initlog (lg_dev (lg s)) (of_int (lg_start (lg s))) (of_int (lg_size (lg s))) (binit u) = recover_from_log w"
      "busy (lg_dev (lg s)) {} {} w" "lg_start (lg w) = lg_start (lg s)" "lg_size (lg w) = lg_size (lg s)"
      "lg_dev (lg w) = lg_dev (lg s)" "disk w = disk u" by (rule boot_state [OF u(1) rng])
    show ?thesis unfolding w(1) by (rule recover_crash [OF assms w(2-5)]) (use w(6) u(2) in simp)
  qed
  ultimately show ?thesis using t(1,3,4) by blast
qed

theorem commit_crash_atomic_witness:
  "\<exists>b s1 s2 s. bread 1 100 (binit log_ex) = Inr (b, s1) \<and>
    log_write b (upd_buf b (\<lambda>x. x\<lparr>b_data := replicate BSIZE 1\<rparr>) s1) = Inr s2 \<and> brelse b s2 = Inr s \<and>
    (\<exists>t ws. commit s = Inr t \<and> dwrites t = dwrites s @ ws \<and>
      (\<exists>v. initlog 1 2 30 (binit (log_ex\<lparr>disk := apply_writes (disk s) (take 1 ws)\<rparr>)) = Inr v \<and> disk v 100 = replicate BSIZE 0) \<and>
      (\<exists>v. initlog 1 2 30 (binit (log_ex\<lparr>disk := apply_writes (disk s) (take 2 ws)\<rparr>)) = Inr v \<and> disk v 100 = replicate BSIZE 1))"
proof -
  obtain b s1 s2 s where s: "bread 1 100 (binit log_ex) = Inr (b, s1)"
    "log_write b (upd_buf b (\<lambda>x. x\<lparr>b_data := replicate BSIZE 1\<rparr>) s1) = Inr s2" "brelse b s2 = Inr s"
    "log_open {} s" "log_n s = 1" "disk s = (\<lambda>_. replicate BSIZE 0)" "content s 1 100 = replicate BSIZE 1"
    "lg_start (lg s) = 2" "lg_size (lg s) = 30" "lg_dev (lg s) = 1" by (rule log_ex_run)
  have k: "\<not> in_log s 100" using in_log_below [of s 100] s(8,9) by auto
  obtain t ws where t: "commit s = Inr t" "dwrites t = dwrites s @ ws"
    and c: "\<forall>j u. cold (u :: lkern) \<longrightarrow> disk u = apply_writes (disk s) (take j ws) \<longrightarrow>
      (\<exists>v. initlog 1 2 30 (binit u) = Inr v \<and> settled s v \<and>
        (\<forall>k. \<not> in_log s k \<longrightarrow> disk v k = (if j \<le> 1 then disk s k else content s 1 k)))"
    using commit_crash_atomic [OF s(4), unfolded s(5,8-10)] by auto
  have r: "\<exists>v. initlog 1 2 30 (binit (log_ex\<lparr>disk := apply_writes (disk s) (take j ws)\<rparr>)) = Inr v \<and>
      disk v 100 = (if j \<le> 1 then disk s 100 else content s 1 100)" for j
    using c [rule_format, OF log_ex_cold, of _ j] k by auto
  have "disk s 100 = replicate BSIZE 0" by (simp only: s(6))
  with r [of 1] r [of 2] s(7) have
    "\<exists>v. initlog 1 2 30 (binit (log_ex\<lparr>disk := apply_writes (disk s) (take 1 ws)\<rparr>)) = Inr v \<and> disk v 100 = replicate BSIZE 0"
    "\<exists>v. initlog 1 2 30 (binit (log_ex\<lparr>disk := apply_writes (disk s) (take 2 ws)\<rparr>)) = Inr v \<and> disk v 100 = replicate BSIZE 1"
    by simp_all
  with s(1-3) t show ?thesis by blast
qed

text \<open>C33.  \<^verbatim>\<open>log_write\<close> within a transaction keeps its invariant and adds the buffer's block to
  the logged ones.  A block logged before is absorbed: the log does not grow.  The contents of
  no block change and nothing is written to the disk.\<close>

theorem log_write_absorbs:
  fixes s :: "'a lkern_scheme"
  assumes "log_open H s" "b \<in> H" "\<not> in_log s (b_blockno (bufs s b))"
    "log_n s < lg_size (lg s) - 1" "1 \<le> lg_outstanding (lg s)"
  shows "\<exists>t. log_write b s = Inr t \<and> log_open H t \<and>
    log_block t ` {..<nat (log_n t)} = insert (b_blockno (bufs s b)) (log_block s ` {..<nat (log_n s)}) \<and>
    log_n t = (if b_blockno (bufs s b) \<in> log_block s ` {..<nat (log_n s)} then log_n s else log_n s + 1) \<and>
    content t (lg_dev (lg s)) = content s (lg_dev (lg s)) \<and> dwrites t = dwrites s"
proof -
  obtain t where "log_write b s = Inr t" "log_open H t"
    "log_block t ` {..<nat (log_n t)} = insert (b_blockno (bufs s b)) (log_block s ` {..<nat (log_n s)})"
    "log_n t = (if b_blockno (bufs s b) \<in> log_block s ` {..<nat (log_n s)} then log_n s else log_n s + 1)"
    "content t (lg_dev (lg s)) = content s (lg_dev (lg s))" "dwrites t = dwrites s"
    by (rule log_write_open [OF assms(1,2) refl assms(3-5)])
  then show ?thesis by blast
qed

theorem log_write_absorbs_witness:
  "\<exists>b s1 s2. bread 1 100 (binit log_ex) = Inr (b, s1) \<and> log_write b s1 = Inr s2 \<and> log_open {b} s2 \<and> log_n s2 = 1"
proof -
  obtain b s1 s2 s where s: "bread 1 100 (binit log_ex) = Inr (b, s1)" "log_open {b} s1" "b_blockno (bufs s1 b) = 100"
    "lg s1 = lg (binit log_ex)" by (rule log_ex_run)
  have "\<not> in_log s1 100" using in_log_below [of s1 100] by (auto simp: s(4) log_ex_sel)
  then show ?thesis using log_write_absorbs [OF s(2), of b] s by (auto simp: log_ex_sel)
qed

end
