(* ===== verification/Descriptors.thy ===== *)
theory Descriptors
  imports Frames Recovery
begin

text \<open>
  Reference counts of open files.  \<open>refs e s\<close>: the count of every open file is the number of
  descriptors, over all processes, that refer to it, plus \<open>e\<close>, the references that an
  operation in progress holds itself; descriptors are below \<^verbatim>\<open>NOFILE\<close>, and processes that are unused or have
  ended have none.  Each operation of \<^verbatim>\<open>kernel/file.c\<close> and \<^verbatim>\<open>kernel/sysfile.c\<close> that makes or drops a
  reference changes \<open>e\<close> accordingly, so that every system call keeps the counts exact.
\<close>

section \<open>Exact counts\<close>

definition exact :: "(nat \<Rightarrow> int) \<Rightarrow> fds \<Rightarrow> bool" where
  "exact e c \<longleftrightarrow> finite {(p, fd). fd_of c p fd \<noteq> None} \<and>
     (\<forall>p fd. fd_of c p fd \<noteq> None \<longrightarrow> fd < NOFILE \<and> p \<notin> fd_dead c) \<and>
     (\<forall>f. fd_ref c f = int (card {(p, fd). fd_of c p fd = Some f}) + e f)"

definition fds_of :: "'a ksys_scheme \<Rightarrow> fds" where
  "fds_of s = \<lparr>fd_ref = \<lambda>f. f_ref (ftable s f), fd_of = \<lambda>p. p_ofile (procs (k_sched s) p), fd_dead = dead (k_sched s),
     fd_idle = c_idleproc (s_cpu (k_sched s)), fd_live = True\<rparr>"

definition refs :: "(nat \<Rightarrow> int) \<Rightarrow> 'a ksys_scheme \<Rightarrow> bool" where
  "refs e s \<longleftrightarrow> fr (fds_of s) s \<and> exact e (fds_of s)"

definition bump :: "nat \<Rightarrow> int \<Rightarrow> (nat \<Rightarrow> int) \<Rightarrow> nat \<Rightarrow> int" where
  "bump f k e = (\<lambda>g. e g + (if g = f then k else 0))"

lemma bump_bump [simp]: "bump f k (bump f l e) = bump f (l + k) e" "bump f 0 e = e"
  by (auto simp: bump_def)

lemma bump_commute: "bump f k (bump g l e) = bump g l (bump f k e)"
  by (auto simp: bump_def)

lemma exact_fewer: "exact e c \<Longrightarrow> D \<subseteq> fd_dead c \<Longrightarrow> exact e (c\<lparr>fd_dead := D\<rparr>)"
  by (auto simp: exact_def)

lemma exact_live [simp]: "exact e (c\<lparr>fd_live := b\<rparr>) = exact e c"
  by (simp add: exact_def)

lemma exact_ref: "exact e c \<Longrightarrow> exact (bump f k e) (c\<lparr>fd_ref := (fd_ref c)(f := fd_ref c f + k)\<rparr>)"
  by (auto simp: exact_def bump_def)

lemma holders_finite: "exact e c \<Longrightarrow> finite {(p, fd). fd_of c p fd = Some f}"
  by (rule finite_subset [of _ "{(p, fd). fd_of c p fd \<noteq> None}"]) (auto simp: exact_def)

definition set_fd :: "nat \<Rightarrow> nat \<Rightarrow> nat option \<Rightarrow> fds \<Rightarrow> fds" where
  "set_fd p fd x c = c\<lparr>fd_of := (fd_of c)(p := (fd_of c p)(fd := x))\<rparr>"

lemma set_fd_sel [simp]:
  "fd_of (set_fd p fd x c) q = (if q = p then (fd_of c p)(fd := x) else fd_of c q)" "fd_ref (set_fd p fd x c) = fd_ref c"
  "fd_dead (set_fd p fd x c) = fd_dead c" "fd_idle (set_fd p fd x c) = fd_idle c" "fd_live (set_fd p fd x c) = fd_live c"
  by (auto simp: set_fd_def)

lemma exact_open:
  assumes "exact e c" "fd_of c p fd = None" "fd < NOFILE" "p \<notin> fd_dead c"
  shows "exact (bump f (-1) e) (set_fd p fd (Some f) c)"
proof -
  have "{(q, i). fd_of (set_fd p fd (Some f) c) q i = Some g} =
      (if g = f then insert (p, fd) {(q, i). fd_of c q i = Some f} else {(q, i). fd_of c q i = Some g})" for g
    using assms(2) by (auto split: if_splits)
  moreover have "(p, fd) \<notin> {(q, i). fd_of c q i = Some f}" using assms(2) by simp
  ultimately have "int (card {(q, i). fd_of (set_fd p fd (Some f) c) q i = Some g}) =
      int (card {(q, i). fd_of c q i = Some g}) + (if g = f then 1 else 0)" for g
    using holders_finite [OF assms(1), of f] by simp
  moreover have "{(q, i). fd_of (set_fd p fd (Some f) c) q i \<noteq> None} = insert (p, fd) {(q, i). fd_of c q i \<noteq> None}"
    by (auto split: if_splits)
  ultimately show ?thesis using assms by (auto simp: exact_def bump_def split: if_splits)
qed

lemma exact_close:
  assumes "exact e c" "fd_of c p fd = Some f"
  shows "exact (bump f 1 e) (set_fd p fd None c)"
proof -
  have "{(q, i). fd_of (set_fd p fd None c) q i = Some g} = {(q, i). fd_of c q i = Some g} - (if g = f then {(p, fd)} else {})" for g
    using assms(2) by (auto split: if_splits)
  moreover have "(p, fd) \<in> {(q, i). fd_of c q i = Some f}" using assms(2) by simp
  ultimately have "int (card {(q, i). fd_of (set_fd p fd None c) q i = Some g}) =
      int (card {(q, i). fd_of c q i = Some g}) - (if g = f then 1 else 0)" for g
    using holders_finite [OF assms(1), of f] card_gt_0_iff [of "{(q, i). fd_of c q i = Some f}"]
    by (auto simp: card_Diff_singleton)
  moreover have "{(q, i). fd_of (set_fd p fd None c) q i \<noteq> None} \<subseteq> {(q, i). fd_of c q i \<noteq> None}"
    by (auto split: if_splits)
  ultimately show ?thesis using assms finite_subset by (auto simp: exact_def bump_def split: if_splits)
qed

lemma exact_dead: "exact e c \<Longrightarrow> (\<And>fd. fd_of c p fd = None) \<Longrightarrow> exact e (c\<lparr>fd_dead := insert p (fd_dead c)\<rparr>)"
  by (auto simp: exact_def)

section \<open>Frames and counts\<close>

lemma refsI:
  assumes "fr c s" "exact e c" "fd_live c"
  shows "refs e s"
proof -
  have "fds_of s = c\<lparr>fd_dead := dead (k_sched s)\<rparr>" "dead (k_sched s) \<subseteq> fd_dead c"
    using assms(1,3) by (auto simp: fr_def sk_def fds_of_def intro!: fds.equality)
  then show ?thesis using assms exact_fewer [of e c] by (simp add: refs_def fr_def sk_def)
qed

lemma refsE:
  assumes "refs e s"
  obtains c where "fr c s" "exact e c" "fd_live c" "fd_dead c = dead (k_sched s)"
  using assms that [of "fds_of s"] by (simp add: refs_def fds_of_def)

lemma refs_frame:
  assumes "\<And>c. fr c s \<Longrightarrow> ok (fr c) st r" "refs e s"
  shows "ok (refs e) st r"
  using assms by (auto simp: ok_def elim!: refsE intro: refsI)

lemma refs_frame1: "(\<And>c. fr c s \<Longrightarrow> fr c t) \<Longrightarrow> refs e s \<Longrightarrow> refs e t"
  by (auto elim!: refsE intro: refsI)

lemma refs_ex: "refs e s \<longleftrightarrow> (\<exists>c. fr c s \<and> exact e c \<and> fd_live c)"
  by (auto elim!: refsE intro: refsI)

lemma fr_upd_same [simp]: "(\<And>x. f_ref (g x) = f_ref x) \<Longrightarrow> fr c (upd_file f g s) = fr c s"
  by (auto simp: fr_def upd_file_def)

lemma refs_more [simp]:
  "refs e (s\<lparr>k_phys := m\<rparr>) = refs e s" "refs e (upd_pipe pi h s) = refs e s" "refs e (tf_set p off v s) = refs e s" "refs e (upd_inode ip u s) = refs e s"
  "(\<And>x. f_ref (g x) = f_ref x) \<Longrightarrow> refs e (upd_file f g s) = refs e s"
  "(\<And>x. p_ofile (h' x) = p_ofile x) \<Longrightarrow> (\<And>x. p_state (h' x) = p_state x) \<Longrightarrow> refs e (k_upd p h' s) = refs e s"
  by (simp_all add: refs_ex)

lemma upd_file_sched [simp]: "k_sched (upd_file f g s) = k_sched s"
  by (simp add: upd_file_def)

lemma fr_ofile: "fr c s \<Longrightarrow> p_ofile (the_proc p s) = fd_of c p"
  by (simp add: fr_def sk_def the_proc_def)

lemma fr_ref: "fr c s \<Longrightarrow> f_ref (ftable s f) = fd_ref c f"
  by (simp add: fr_def)

lemma fr_alive: "fr c s \<Longrightarrow> fd_live c \<Longrightarrow> myproc (k_sched s) = Some p \<Longrightarrow> fd_dead c = dead (k_sched s) \<Longrightarrow> p \<notin> fd_dead c"
  by (auto simp: fr_def sk_def)

lemma fr_upd_file: "fr c s \<Longrightarrow> fr (c\<lparr>fd_ref := (fd_ref c)(f := f_ref (g (ftable s f)))\<rparr>) (upd_file f g s)"
  by (simp add: fr_def upd_file_def sk_def)

lemma fr_set_fd:
  assumes "fr c s"
  shows "fr (set_fd p fd x c) (k_upd p (\<lambda>y. y\<lparr>p_ofile := (p_ofile y)(fd := x)\<rparr>) s)"
proof -
  have "dead (upd_proc p (\<lambda>y. y\<lparr>p_ofile := (p_ofile y)(fd := x)\<rparr>) d) = dead d" for d by (rule dead_upd(1)) simp
  then show ?thesis using assms by (auto simp: fr_def sk_def k_upd_def cpu_upd) (auto simp: upd_proc_def)
qed

section \<open>Making and dropping references\<close>

lemma filealloc_refs:
  assumes "refs e s"
  shows "case filealloc s of (None, t) \<Rightarrow> t = s | (Some f, t) \<Rightarrow> refs (bump f 1 e) t \<and> k_sched t = k_sched s"
proof (cases "find (\<lambda>f. f_ref (ftable s f) = 0) [0..<NFILE]")
  case (Some f)
  obtain c where c: "fr c s" "exact e c" "fd_live c" by (rule refsE [OF assms])
  have "fd_ref c f = 0" using Some find_Some_iff [of "\<lambda>f. f_ref (ftable s f) = 0"] fr_ref [OF c(1)] by auto
  then have "exact (bump f 1 e) (c\<lparr>fd_ref := (fd_ref c)(f := 1)\<rparr>)" using exact_ref [OF c(2), of f 1] by simp
  then show ?thesis using Some c(3) fr_upd_file [OF c(1), of f "\<lambda>x. x\<lparr>f_ref := 1\<rparr>"]
    by (auto simp: filealloc_def upd_file_def intro!: refsI)
qed (simp add: filealloc_def)

lemma filedup_refs: "refs e s \<Longrightarrow> ok (refs (bump f 1 e)) this (filedup f s)"
  using fr_upd_file [of _ s f "\<lambda>x. x\<lparr>f_ref := f_ref x + 1\<rparr>"] exact_ref [of e _ f 1]
  by (auto simp: filedup_def fr_ref elim!: refsE intro!: refsI)

lemma ok_mono: "ok P st r \<Longrightarrow> (\<And>x. P x \<Longrightarrow> Q x) \<Longrightarrow> ok Q st r"
  by (simp add: ok_def)

lemma fileclose_fr:
  assumes c: "fr c s"
  shows "ok (fr (c\<lparr>fd_ref := (fd_ref c)(f := fd_ref c f + - 1)\<rparr>)) this (fileclose kend f s)"
proof (cases "f_ref (ftable s f) < 1")
  case False
  let ?c = "c\<lparr>fd_ref := (fd_ref c)(f := fd_ref c f + - 1)\<rparr>"
  let ?s = "upd_file f (\<lambda>x. x\<lparr>f_ref := f_ref x - 1\<rparr>) s"
  let ?t = "upd_file f (\<lambda>x. x\<lparr>f_ref := 0, f_type := FD_NONE\<rparr>) ?s"
  have s: "fr ?c ?s" using fr_upd_file [OF c, of f "\<lambda>x. x\<lparr>f_ref := f_ref x - 1\<rparr>"] fr_ref [OF c, of f] by simp
  have t: "fr ?c ?t" if "\<not> f_ref (ftable ?s f) > 0"
    using fr_upd_file [OF s, of f "\<lambda>x. x\<lparr>f_ref := 0, f_type := FD_NONE\<rparr>"] that False fr_ref [OF c, of f]
    by (simp add: upd_file_def)
  show ?thesis
    unfolding fileclose_def Let_def using False s t by (auto split: ftype.splits)
qed (simp add: fileclose_def)

lemma fileclose_refs: "refs e s \<Longrightarrow> ok (refs (bump f (-1) e)) this (fileclose kend f s)"
  using fileclose_fr [of _ s f kend] exact_ref [of e _ f "-1"] by (fastforce elim!: refsE intro: ok_mono refsI)

lemma fdalloc_refs:
  assumes "refs e s" "fdalloc f s = Inr (r, t)"
  shows "case r of None \<Rightarrow> t = s
    | Some fd \<Rightarrow> refs (bump f (-1) e) t \<and> myproc (k_sched t) = myproc (k_sched s) \<and>
        (\<forall>p. myproc (k_sched s) = Some p \<longrightarrow> p_ofile (the_proc p s) fd = None \<and> p_ofile (the_proc p t) = (p_ofile (the_proc p s))(fd := Some f))"
proof (cases r)
  case (Some fd)
  obtain c where c: "fr c s" "exact e c" "fd_live c" "fd_dead c = dead (k_sched s)" by (rule refsE [OF assms(1)])
  obtain p where p: "myproc (k_sched s) = Some p" "find (\<lambda>fd. p_ofile (the_proc p s) fd = None) [0..<NOFILE] = Some fd"
    "t = k_upd p (\<lambda>x. x\<lparr>p_ofile := (p_ofile x)(fd := Some f)\<rparr>) s"
    using assms(2) Some by (auto simp: fdalloc_def k_proc_Inr split: option.splits)
  have fd: "fd < NOFILE" "fd_of c p fd = None"
    using p(2) find_Some_iff [of "\<lambda>fd. p_ofile (the_proc p s) fd = None"] fr_ofile [OF c(1)] by auto
  have "refs (bump f (-1) e) t" unfolding p(3)
    using refsI [OF fr_set_fd [OF c(1)] exact_open [OF c(2) fd(2,1) fr_alive [OF c(1,3) p(1) c(4)]]] c(3) by simp
  then show ?thesis using Some p fd fr_ofile [OF c(1)] by (simp add: k_upd_def the_proc_def upd_proc_def myproc_def)
qed (use assms in \<open>auto simp: fdalloc_def k_proc_Inr split: option.splits\<close>)

lemma clear_fd_refs:
  assumes "refs e s" "myproc (k_sched s) = Some p" "p_ofile (the_proc p s) fd = Some f"
  shows "\<exists>t. clear_fd fd s = Inr t \<and> refs (bump f 1 e) t \<and> myproc (k_sched t) = Some p \<and> p_ofile (the_proc p t) = (p_ofile (the_proc p s))(fd := None)"
proof -
  obtain c where c: "fr c s" "exact e c" "fd_live c" by (rule refsE [OF assms(1)])
  have "fd_of c p fd = Some f" using assms(3) fr_ofile [OF c(1)] by simp
  then have "refs (bump f 1 e) (k_upd p (\<lambda>x. x\<lparr>p_ofile := (p_ofile x)(fd := None)\<rparr>) s)"
    using refsI [OF fr_set_fd [OF c(1)] exact_close [OF c(2)]] c(3) by simp
  then show ?thesis using assms(2) by (simp add: clear_fd_def k_proc_def with_proc_def k_upd_def the_proc_def upd_proc_def myproc_def)
qed

section \<open>System calls on descriptors\<close>

text \<open>The same facts as rules for the code that follows a call.\<close>

lemma ok_argfd:
  assumes "ok P st (k None)" "\<And>p fd f. myproc (k_sched s) = Some p \<Longrightarrow> p_ofile (the_proc p s) fd = Some f \<Longrightarrow> ok P st (k (Some (fd, f)))"
  shows "ok P st (argfd n s k)"
  using assms by (auto simp: argfd_def argint_def argraw_def k_proc_def with_proc_def split: option.splits)

lemma ok_filealloc:
  assumes "refs e s" "ok P st (a s)" "\<And>f t. refs (bump f 1 e) t \<Longrightarrow> k_sched t = k_sched s \<Longrightarrow> ok P st (b f t)"
  shows "ok P st (case filealloc s of (None, t) \<Rightarrow> a t | (Some f, t) \<Rightarrow> b f t)"
  using assms filealloc_refs [OF assms(1)] by (auto split: prod.splits option.splits)

lemma ok_fdalloc:
  assumes "refs e s" "ok P st (k (None, s))"
    "\<And>fd t p. refs (bump f (-1) e) t \<Longrightarrow> myproc (k_sched s) = Some p \<Longrightarrow> myproc (k_sched t) = Some p \<Longrightarrow>
      p_ofile (the_proc p s) fd = None \<Longrightarrow> p_ofile (the_proc p t) = (p_ofile (the_proc p s))(fd := Some f) \<Longrightarrow> ok P st (k (Some fd, t))"
  shows "ok P st (bnd (fdalloc f s) k)"
proof (cases "fdalloc f s")
  case (Inr x)
  obtain r t where x: "x = (r, t)" by force
  obtain p where "myproc (k_sched s) = Some p" using Inr by (auto simp: fdalloc_def k_proc_Inr)
  then show ?thesis using fdalloc_refs [OF assms(1), of f r t] Inr x assms(2,3) by (cases r) auto
qed simp

lemma ok_clear_fd:
  assumes "refs e s" "myproc (k_sched s) = Some p" "p_ofile (the_proc p s) fd = Some f"
    "\<And>t. refs (bump f 1 e) t \<Longrightarrow> myproc (k_sched t) = Some p \<Longrightarrow> p_ofile (the_proc p t) = (p_ofile (the_proc p s))(fd := None) \<Longrightarrow> ok P st (k t)"
  shows "ok P st (bnd (clear_fd fd s) k)"
  using clear_fd_refs [OF assms(1-3)] assms(4) by auto

lemma ok_filedup: "refs e s \<Longrightarrow> (\<And>t. refs (bump f 1 e) t \<Longrightarrow> ok P st (k t)) \<Longrightarrow> ok P st (bnd (filedup f s) k)"
  by (rule ok_bnd [OF filedup_refs]) auto

lemma ok_fileclose: "refs e s \<Longrightarrow> (\<And>t. refs (bump f (-1) e) t \<Longrightarrow> ok P st (k t)) \<Longrightarrow> ok P st (bnd (fileclose kend f s) k)"
  by (rule ok_bnd [OF fileclose_refs]) auto

lemma refs_then:
  assumes "refs e s" "\<And>c. fr c s \<Longrightarrow> ok (fr c) st' r" "\<And>x. refs e (st' x) \<Longrightarrow> ok Q st (k x)"
  shows "ok Q st (bnd r k)"
  using refs_frame [OF assms(2,1)] assms(3) by (rule ok_bnd) auto

lemma sys_dup_refs: "refs e s \<Longrightarrow> ok (refs e) snd (sys_dup s)"
  unfolding sys_dup_def
  by (rule ok_argfd; simp) (rule ok_fdalloc, assumption, simp, simp, rule ok_filedup, assumption, simp)

lemma sys_close_refs: "refs e s \<Longrightarrow> ok (refs e) snd (sys_close kend s)"
  unfolding sys_close_def
  by (rule ok_argfd; simp) (rule ok_clear_fd, assumption+, rule ok_fileclose, assumption, simp)

lemma open_bad_refs: "refs e s \<Longrightarrow> ok (refs e) snd (open_bad ip s)"
  by (rule refs_frame) (unfold open_bad_def, safe, simp_all)

lemma open_file_refs: "refs e s \<Longrightarrow> ok (refs e) snd (open_file kend ip omode s)"
  unfolding open_file_def Let_def
  apply (rule ok_if, erule open_bad_refs)
  apply (rule ok_filealloc, assumption, erule open_bad_refs)
  apply (rule ok_fdalloc, assumption, simp, rule ok_fileclose, assumption, simp add: open_bad_refs)
  subgoal premises prems for f t fd u p
    unfolding prod.case option.case by (rule refs_frame [OF _ prems(5) [simplified]]) (safe; simp)
  done

lemma sys_open_refs: "refs e s \<Longrightarrow> ok (refs e) snd (sys_open kend s)"
proof -
  assume r: "refs e s"
  have fin: "refs e t \<Longrightarrow> ok (refs e) snd (bnd (end_op t) (ret (-1)))" for t :: "'a ksys_scheme"
    by (rule refs_frame) (safe; simp)
  have "ok (refs e) snd (do_open kend path omode s)" for path omode
    unfolding do_open_def
    apply (rule refs_then [OF r], erule begin_op_fr, rule ok_if)
     apply (rule refs_then, assumption, erule create_fr, clarsimp simp: fin open_file_refs split: option.splits)
    apply (rule refs_then, assumption, erule namei_fr, clarsimp simp: fin open_bad_refs open_file_refs split: option.splits)
    apply (rule refs_then, assumption, erule ilock_fr, simp add: open_bad_refs open_file_refs)
    done
  then show ?thesis using r unfolding sys_open_def by (intro arg_fr ok_case_option) simp_all
qed

section \<open>Pipes\<close>

lemma bump_both [simp]: "bump g (-1) (bump f (-1) (bump g 1 (bump f 1 e))) = e" "bump f (-1) (bump g 1 (bump f 1 e)) = bump g 1 e"
  by (auto simp: bump_def)

lemma pipe_fail_refs: "refs (bump f1 1 (bump f0 1 e)) s \<Longrightarrow> ok (refs e) snd (pipe_fail kend (Some f0) (Some f1) s)"
  unfolding pipe_fail_def option.case by (rule ok_fileclose, assumption, rule ok_fileclose, assumption) simp

lemma pipe_fail_none: "refs e s \<Longrightarrow> ok (refs e) snd (pipe_fail kend None None s)"
  by (simp add: pipe_fail_def)

lemma pipe_fail_one: "refs (bump f 1 e) s \<Longrightarrow> ok (refs e) snd (pipe_fail kend (Some f) None s)"
  unfolding pipe_fail_def by (simp, rule ok_fileclose, assumption, simp)

definition pipe_made :: "(nat \<Rightarrow> int) \<Rightarrow> sched \<Rightarrow> (nat \<times> nat) option \<times> 'a ksys_scheme \<Rightarrow> bool" where
  "pipe_made e d = (\<lambda>(r, t). case r of None \<Rightarrow> refs e t | Some (f0, f1) \<Rightarrow> refs (bump f1 1 (bump f0 1 e)) t \<and> k_sched t = d)"

lemma pipealloc_refs:
  assumes r: "refs e s"
  shows "ok (pipe_made e (k_sched s)) this (pipealloc kend s)"
proof -
  have fail: "ok (pipe_made e d) this (pipe_fail kend f0 f1 t)" if "ok (refs e) snd (pipe_fail kend f0 f1 t)" for d f0 f1 and t :: "'a ksys_scheme"
    using that by (auto simp: ok_def pipe_made_def pipe_fail_def res_simps)
  show ?thesis
    unfolding pipealloc_def
    apply (rule ok_filealloc [OF r], rule fail, rule pipe_fail_none, rule r)
    apply (rule ok_filealloc, assumption, rule fail, erule pipe_fail_one)
    apply (clarsimp simp: Let_def split: prod.splits)
    apply (intro conjI impI allI)
     apply (rule fail, rule pipe_fail_refs, simp)
    apply (simp add: pipe_made_def)
    done
qed

lemma pipe_bad_refs: "refs (bump wfile 1 (bump rfile 1 e)) s \<Longrightarrow> ok (refs e) snd (pipe_bad kend rfile wfile s)"
  unfolding pipe_bad_def by (rule ok_fileclose, assumption, rule ok_fileclose, assumption) simp

lemma ok_on_phys: "(\<And>r m. ok P st (k (r, s\<lparr>k_phys := m\<rparr>))) \<Longrightarrow> ok P st (bnd (on_phys f s) k)"
  by (auto simp: on_phys_def bnd_assoc split_beta intro!: ok_any)

lemma pipe_undo_refs:
  assumes "refs e s" "myproc (k_sched s) = Some p" "p_ofile (the_proc p s) fd0 = Some rfile" "p_ofile (the_proc p s) fd1 = Some wfile" "fd0 \<noteq> fd1"
  shows "ok (refs e) snd (bnd (clear_fd fd0 s) (\<lambda>s. bnd (clear_fd fd1 s) (pipe_bad kend rfile wfile)))"
  apply (rule ok_clear_fd [OF assms(1-3)], rule ok_clear_fd, assumption, assumption)
  using assms(4,5) pipe_bad_refs by auto

lemma sys_pipe_refs:
  assumes r: "refs e s"
  shows "ok (refs e) snd (sys_pipe kend s)"
proof -
  have two: "ok (refs e) snd (bnd (fdalloc wfile u) (\<lambda>(fd1, s). case fd1 of
      None \<Rightarrow> bnd (clear_fd fd0 s) (pipe_bad kend rfile wfile)
    | Some fd1 \<Rightarrow>
        bnd (on_phys (copyout (k_pt p s) a (le_bytes 4 (of_nat fd0 :: u32))) s) (\<lambda>(r, s).
        bnd (if r < 0 then Inr (r, s) else on_phys (copyout (k_pt p s) b (le_bytes 4 (of_nat fd1 :: u32))) s) (\<lambda>(r, s).
        if r < 0 then bnd (clear_fd fd0 s) (\<lambda>s. bnd (clear_fd fd1 s) (pipe_bad kend rfile wfile)) else ret 0 s))))"
    if u: "refs (bump wfile 1 e) u" "myproc (k_sched u) = Some q" "p_ofile (the_proc q u) fd0 = Some rfile"
    for rfile wfile fd0 p q a b and u :: "'a ksys_scheme"
    apply (rule ok_fdalloc [OF u(1)])
     apply (simp, rule ok_clear_fd [OF u], simp add: bump_commute [of rfile] pipe_bad_refs)
    subgoal premises h for fd1 v q'
    proof -
      have v: "refs e v" "myproc (k_sched v) = Some q" "p_ofile (the_proc q v) fd0 = Some rfile" "p_ofile (the_proc q v) fd1 = Some wfile" "fd0 \<noteq> fd1"
        using h u by auto
      have un: "ok (refs e) snd (bnd (clear_fd fd0 (v\<lparr>k_phys := m\<rparr>)) (\<lambda>s. bnd (clear_fd fd1 s) (pipe_bad kend rfile wfile)))" for m
        using v pipe_undo_refs [of e "v\<lparr>k_phys := m\<rparr>" q fd0 rfile fd1 wfile kend] by (simp add: the_proc_def)
      have "ok (refs e) snd (bnd (on_phys g (v\<lparr>k_phys := m\<rparr>)) (\<lambda>(r, s).
          if r < 0 then bnd (clear_fd fd0 s) (\<lambda>s. bnd (clear_fd fd1 s) (pipe_bad kend rfile wfile)) else ret 0 s))"
        for g :: "phys \<Rightarrow> (int \<times> phys) res" and m
        by (rule ok_on_phys) (simp add: un v(1))
      then show ?thesis unfolding prod.case option.case by (intro ok_on_phys) (simp add: un)
    qed
    done
  show ?thesis
    unfolding sys_pipe_def
    apply (intro ok_k_proc arg_fr, rule ok_bnd [OF pipealloc_refs [OF r]])
    apply (rule ok_case_prod, rule ok_case_option; clarsimp simp: pipe_made_def)
    apply (rule ok_fdalloc, assumption, simp, erule pipe_bad_refs)
    apply (simp, rule two, assumption, assumption, simp)
    done
qed

section \<open>The life of processes\<close>

lemma bnd_if: "bnd (if b then x else y) k = (if b then bnd x k else bnd y k)"
  by simp

lemma ok_in_phys: "(\<And>m. ok P st (k (s\<lparr>k_phys := m\<rparr>))) \<Longrightarrow> ok P st (bnd (in_phys f s) k)"
  by (auto simp: in_phys_def bnd_assoc intro!: ok_any)

lemma k_upd_sel [simp]:
  "myproc (k_sched (k_upd p f s)) = myproc (k_sched s)" "ftable (k_upd p f s) = ftable s"
  "the_proc q (k_upd p f s) = (if q = p then f (the_proc p s) else the_proc q s)"
  "the_proc q (s\<lparr>k_phys := m\<rparr>) = the_proc q s"
  by (auto simp: k_upd_def upd_proc_def the_proc_def myproc_def)

lemma k_upd_state [simp]:
  "(\<And>x. p_ofile (f x) = p_ofile x) \<Longrightarrow> (\<And>x. p_state (f x) \<noteq> UNUSED) \<Longrightarrow> (\<And>x. p_state (f x) \<noteq> ZOMBIE) \<Longrightarrow> fr c s \<Longrightarrow> fr c (k_upd p f s)"
  by (simp add: fr_def k_upd_def)

text \<open>A process without descriptors may end.\<close>

lemma sk_end:
  assumes "sk c d" "\<And>x. p_ofile (f x) = p_ofile x" "fd_idle c \<noteq> Some p" "fd_live c \<longrightarrow> myproc d \<noteq> Some p"
  shows "sk (c\<lparr>fd_dead := insert p (fd_dead c)\<rparr>) (upd_proc p f d)"
proof -
  have "dead (upd_proc p f d) \<subseteq> insert p (dead d)" by (auto simp: dead_def upd_proc_def)
  then show ?thesis using assms by (auto simp: sk_def ofile_upd cpu_upd)
qed

lemma freeproc_fr:
  assumes "fr c s" "fd_idle c \<noteq> Some p" "myproc (k_sched s) \<noteq> Some p"
  shows "ok (fr (c\<lparr>fd_dead := insert p (fd_dead c)\<rparr>)) this (freeproc im p s)"
proof -
  have fin: "fr (c\<lparr>fd_dead := insert p (fd_dead c)\<rparr>) (k_upd p f t)"
    if "fr c t" "myproc (k_sched t) \<noteq> Some p" "\<And>x. p_ofile (f x) = p_ofile x" for f and t :: "'a ksys_scheme"
    using that sk_end [of c "k_sched t" f p] assms(2) by (simp add: fr_def k_upd_def)
  show ?thesis
    unfolding freeproc_def Let_def bnd_if
    by (intro ok_if ok_in_phys, simp_all only: bnd_simps) (auto simp: assms intro!: ok_in_phys fin)
qed

definition fresh :: "(nat \<Rightarrow> int) \<Rightarrow> nat \<Rightarrow> 'a ksys_scheme \<Rightarrow> bool" where
  "fresh e np t \<longleftrightarrow> (\<exists>c. fr c t \<and> exact e c \<and> fd_live c \<and> np \<notin> fd_dead c \<and> fd_of c np = (\<lambda>_. None) \<and> fd_idle c \<noteq> Some np \<and>
     myproc (k_sched t) \<noteq> Some np)"

lemma fresh_more [simp]:
  "fresh e np (s\<lparr>k_phys := m\<rparr>) = fresh e np s"
  "(\<And>x. p_ofile (f x) = p_ofile x) \<Longrightarrow> (\<And>x. p_state (f x) = p_state x) \<Longrightarrow> fresh e np (k_upd p f s) = fresh e np s"
  by (simp_all add: fresh_def)

lemma freeproc_fresh: "fresh e np s \<Longrightarrow> ok (refs e) this (freeproc im np s)"
proof -
  assume "fresh e np s"
  then obtain c where c: "fr c s" "exact e c" "fd_live c" "fd_of c np = (\<lambda>_. None)" "fd_idle c \<noteq> Some np" "myproc (k_sched s) \<noteq> Some np"
    by (auto simp: fresh_def)
  show ?thesis using freeproc_fr [OF c(1,5,6), of im] exact_dead [OF c(2), of np] c(3,4) by (auto simp: ok_def intro!: refsI)
qed

lemma unused_fresh:
  assumes "refs e s" "np \<in> dead (k_sched s)" "\<And>x. p_ofile (f x) = p_ofile x" "\<And>x. p_state (f x) = USED"
  shows "fresh e np (k_upd np f (s\<lparr>k_sched := snd (allocpid (k_sched s))\<rparr>))"
proof -
  obtain c where c: "fr c s" "exact e c" "fd_live c" "fd_dead c = dead (k_sched s)" by (rule refsE [OF assms(1)])
  let ?c = "c\<lparr>fd_dead := fd_dead c - {np}\<rparr>"
  have none: "fd_of c np fd = None" for fd using c(2,4) assms(2) unfolding exact_def by blast
  have alive: "fd_idle c \<noteq> Some np" "myproc (k_sched s) \<noteq> Some np" using c(1,3,4) assms(2) by (auto simp: fr_def sk_def)
  have "dead (upd_proc np f d) \<subseteq> dead d - {np}" for d using assms(4) by (auto simp: dead_def upd_proc_def)
  then have "sk ?c (upd_proc np f d)" if "sk c d" for d using that assms(3) by (fastforce simp: sk_def ofile_upd cpu_upd)
  then have "fr ?c (k_upd np f (s\<lparr>k_sched := snd (allocpid (k_sched s))\<rparr>))" using c(1) by (simp add: fr_def k_upd_def allocpid_def)
  then show ?thesis unfolding fresh_def
    using exact_fewer [OF c(2), of "fd_dead c - {np}"] c(3) none alive
    by (intro exI [of _ ?c]) (auto simp: allocpid_def, simp add: myproc_def)
qed

lemma allocproc_refs:
  assumes "refs e s"
  shows "ok (\<lambda>(r, t). case r of None \<Rightarrow> refs e t | Some np \<Rightarrow> fresh e np t) this (allocproc im s)"
proof (cases "find (\<lambda>p. p_state (the_proc p s) = UNUSED) [0..<NPROC]")
  case (Some np)
  then have "np \<in> dead (k_sched s)" by (auto simp: find_Some_iff dead_def the_proc_def)
  note fresh = unused_fresh [OF assms this]
  let ?s = "k_upd np (\<lambda>x. x\<lparr>p_pid := s_nextpid (k_sched s), p_state := USED, p_base_prio := PRIO_DEFAULT, p_prio := PRIO_DEFAULT,
    p_wait_ticks := 0, p_rq_next := None\<rparr>) (s\<lparr>k_sched := snd (allocpid (k_sched s))\<rparr>)"
  have f: "fresh e np ?s" by (rule fresh) simp_all
  have fail: "ok (\<lambda>(r, t). case r of None \<Rightarrow> refs e t | Some np \<Rightarrow> fresh e np t) this (bnd (freeproc im np t) (\<lambda>s. Inr (None, s)))"
    if "fresh e np t" for t :: "'a ksys_scheme"
    by (rule ok_bnd [OF freeproc_fresh [OF that]]) simp
  show ?thesis
    using Some f unfolding allocproc_def
    by (auto simp: Let_def allocpid_def split_beta intro!: fail ok_on_phys)
qed (use assms in \<open>simp add: allocproc_def\<close>)

lemma dup_files_refs:
  assumes "distinct is" "set is \<subseteq> {..<NOFILE}"
  shows "fr c s \<Longrightarrow> exact e c \<Longrightarrow> fd_live c \<Longrightarrow> np \<notin> fd_dead c \<Longrightarrow> (\<forall>i \<in> set is. fd_of c np i = None) \<Longrightarrow>
    ok (refs e) this (dup_files p np is s)"
  using assms
proof (induction "is" arbitrary: c s)
  case Nil
  then show ?case by (simp add: refsI)
next
  case (Cons i "is")
  show ?case
  proof (cases "p_ofile (the_proc p s) i")
    case (Some f)
    let ?c = "c\<lparr>fd_ref := (fd_ref c)(f := fd_ref c f + 1)\<rparr>"
    let ?s = "k_upd np (\<lambda>x. x\<lparr>p_ofile := (p_ofile x)(i := Some f)\<rparr>) (upd_file f (\<lambda>x. x\<lparr>f_ref := f_ref x + 1\<rparr>) s)"
    have c: "fr ?c (upd_file f (\<lambda>x. x\<lparr>f_ref := f_ref x + 1\<rparr>) s)"
      using fr_upd_file [OF Cons.prems(1), of f "\<lambda>x. x\<lparr>f_ref := f_ref x + 1\<rparr>"] fr_ref [OF Cons.prems(1)] by simp
    have "exact (bump f (-1) (bump f 1 e)) (set_fd np i (Some f) ?c)"
      using Cons.prems by (intro exact_open exact_ref) auto
    then have "ok (refs e) this (dup_files p np is ?s)"
      using Cons.prems by (intro Cons.IH [OF fr_set_fd [OF c]]) auto
    then show ?thesis using Some by (auto simp: filedup_def)
  qed (use Cons in auto)
qed

lemma enqueue_fr: "fr c s \<Longrightarrow> fr c (s\<lparr>k_sched := prio_enqueue p (k_sched s)\<rparr>)"
  using prio_enqueue_sk [of c "k_sched s" p] by (simp add: fr_sk)

lemma fork_refs:
  assumes "refs e s"
  shows "ok (refs e) snd (fork im s)"
proof -
  have run: "refs e (t\<lparr>k_sched := prio_enqueue np (k_sched t)\<rparr>)" if "refs e t" for np and t :: "'a ksys_scheme"
    using that enqueue_fr by (rule refs_frame1 [rotated])
  have st: "refs e (k_upd np f t)" if "refs e t" "\<And>x. p_ofile (f x) = p_ofile x" "\<And>x. p_state (f x) = RUNNABLE" for np f and t :: "'a ksys_scheme"
    by (rule refs_frame1 [OF _ that(1)]) (simp add: that(2,3))
  have dup: "ok (refs e) this (dup_files p np [0..<NOFILE] t)" if "fresh e np t" for p np and t :: "'a ksys_scheme"
    using that by (auto simp: fresh_def intro!: dup_files_refs)
  have tf: "fresh e np (copy_trapframe p q t) = fresh e np t" "fresh e np (tf_set q off v t) = fresh e np t" for p q np off v and t :: "'a ksys_scheme"
    by (simp_all add: copy_trapframe_def tf_set_def Let_def)
  show ?thesis
    unfolding fork_def
    apply (rule ok_k_proc, rule ok_bnd [OF allocproc_refs [OF assms]], rule ok_case_prod, rule ok_case_option, simp)
    apply (rule ok_on_phys, unfold prod.case, rule ok_if)
     apply (rule ok_bnd [OF freeproc_fresh], simp, simp)
    apply (simp only: Let_def, rule ok_bnd [OF dup], simp add: tf)
    apply (rule ok_case_option, simp, simp add: run st idup_def)
    done
qed

text \<open>No descriptor of \<open>p\<close> outside \<open>F\<close> is open.\<close>

definition closing :: "(nat \<Rightarrow> int) \<Rightarrow> nat option \<Rightarrow> nat \<Rightarrow> nat set \<Rightarrow> 'a ksys_scheme \<Rightarrow> bool" where
  "closing e i p F t \<longleftrightarrow> (\<exists>c. fr c t \<and> exact e c \<and> fd_live c \<and> fd_idle c = i \<and> (\<forall>fd. fd \<notin> F \<longrightarrow> fd_of c p fd = None))"

lemma close_files_refs: "closing e i p F s \<Longrightarrow> ok (closing e i p (F - set fds)) this (close_files kend p fds s)"
proof (induction fds arbitrary: F s)
  case (Cons fd fds)
  obtain c where c: "fr c s" "exact e c" "fd_live c" "fd_idle c = i" "\<And>fd. fd \<notin> F \<Longrightarrow> fd_of c p fd = None"
    using Cons.prems by (auto simp: closing_def)
  have F: "F - set (fd # fds) = F - {fd} - set fds" by auto
  show ?case
  proof (cases "p_ofile (the_proc p s) fd")
    case None
    then have "closing e i p (F - {fd}) s" using c fr_ofile [OF c(1), of p] unfolding closing_def by (intro exI [of _ c]) auto
    then show ?thesis using None Cons.IH unfolding F by simp
  next
    case (Some f)
    let ?c = "c\<lparr>fd_ref := (fd_ref c)(f := fd_ref c f + - 1)\<rparr>"
    have "exact e (set_fd p fd None ?c)"
      using exact_close [OF exact_ref [OF c(2), of f "-1"], of p fd f] Some fr_ofile [OF c(1), of p] by simp
    then have "closing e i p (F - {fd}) (k_upd p (\<lambda>x. x\<lparr>p_ofile := (p_ofile x)(fd := None)\<rparr>) t)" if "fr ?c t" for t :: "'a ksys_scheme"
      using fr_set_fd [OF that, of p fd None] c unfolding closing_def by (intro exI [of _ "set_fd p fd None ?c"]) auto
    then show ?thesis using Some unfolding F by (simp, intro ok_bnd [OF fileclose_fr [OF c(1)]] Cons.IH)
  qed
qed simp

lemma exit_zombie_sk:
  assumes "sk c d" "fd_idle c \<noteq> Some p" "fd_live c"
  shows "ok (sk (c\<lparr>fd_dead := insert p (fd_dead c)\<rparr>)) this (exit_zombie st p d)"
proof -
  have "sk c d \<Longrightarrow> sk c (reparent_one p q d)" for q d by (auto simp: reparent_one_def)
  then have "sk c d \<Longrightarrow> sk c (fold (reparent_one p) qs d)" for qs d by (induction qs arbitrary: d) simp_all
  then have "sk c (wakeup ch (reparent p d))" for ch using assms(1) by (auto simp: reparent_def)
  then have "sk (c\<lparr>fd_live := False\<rparr>) (wakeup ch (reparent p d))" for ch by (simp add: sk_def)
  from schedule_live [OF sk_end [OF this, where f = "\<lambda>x. x\<lparr>p_xstate := st, p_state := ZOMBIE\<rparr>" and p = p]] assms(2)
  have "ok (sk (c\<lparr>fd_dead := insert p (fd_dead c), fd_live := True\<rparr>)) this (exit_zombie st p d)"
    by (simp add: exit_zombie_def Let_def)
  moreover have "c\<lparr>fd_dead := insert p (fd_dead c), fd_live := True\<rparr> = c\<lparr>fd_dead := insert p (fd_dead c)\<rparr>" using assms(3) by simp
  ultimately show ?thesis by simp
qed

lemma exit_refs:
  assumes "refs e s" "myproc (k_sched s) \<noteq> c_idleproc (s_cpu (k_sched s))"
  shows "ok (refs e) this (exit im status s)"
proof -
  have cl: "closing e (c_idleproc (s_cpu (k_sched s))) p {..<NOFILE} s" for p
  proof -
    obtain c where c: "fr c s" "exact e c" "fd_live c" by (rule refsE [OF assms(1)])
    have "fd_of c p fd = None" if "\<not> fd < NOFILE" for fd using c(2) that unfolding exact_def by blast
    then show ?thesis using c unfolding closing_def by (intro exI [of _ c]) (auto simp: fr_def sk_def)
  qed
  have "{..<NOFILE} - set [0..<NOFILE] = {}" by auto
  then have close: "ok (closing e (c_idleproc (s_cpu (k_sched s))) p {}) this (close_files (im_end im) p [0..<NOFILE] s)" for p
    using close_files_refs [OF cl [of p], of "[0..<NOFILE]" "im_end im"] by (simp only:)
  have keep: "ok (closing e i p F) this r" if "closing e i p F t" "\<And>c. fr c t \<Longrightarrow> ok (fr c) this r" for i p F r and t :: "'a ksys_scheme"
    using that unfolding closing_def ok_def by blast
  have zom: "ok (refs e) this (bnd (exit_zombie status p (k_sched t)) (\<lambda>d. Inr (t\<lparr>k_sched := d\<rparr>)))"
    if t: "closing e (c_idleproc (s_cpu (k_sched s))) p {} t" "c_idleproc (s_cpu (k_sched s)) \<noteq> Some p" for p and t :: "'a ksys_scheme"
  proof -
    obtain c where c: "fr c t" "exact e c" "fd_live c" "fd_idle c \<noteq> Some p" "\<And>fd. fd_of c p fd = None" using t by (auto simp: closing_def)
    have "fr (c\<lparr>fd_dead := insert p (fd_dead c)\<rparr>) (t\<lparr>k_sched := d\<rparr>)" if "sk (c\<lparr>fd_dead := insert p (fd_dead c)\<rparr>) d" for d
      using c(1) that by (simp add: fr_def)
    then show ?thesis
      using exit_zombie_sk [OF fr_sk [OF c(1)] c(4,3), of status] exact_dead [OF c(2,5)] c(3)
      by (auto simp: ok_def res_simps intro!: refsI)
  qed
  have cwd: "closing e i p {} (k_upd p (\<lambda>x. x\<lparr>p_cwd := None\<rparr>) t) = closing e i p {} t" for i p and t :: "'a ksys_scheme"
    by (simp add: closing_def)
  show ?thesis
    unfolding exit_def k_proc_def with_proc_def
    apply (rule ok_case_option, simp, rule ok_if, simp)
    subgoal for p
      apply (rule ok_bnd [OF close [of p]])
      apply (rule ok_bnd [OF keep [OF _ begin_op_fr]], assumption, assumption)
      apply (rule ok_bnd [OF keep [OF _ ok_case_option [OF ok_Inl iput_fr]]], assumption, assumption)
      apply (rule ok_bnd [OF keep [OF _ end_op_fr]], assumption, assumption)
      using assms(2) by (simp only: Let_def, intro zom) (simp_all add: cwd)
    done
qed

lemma wait_refs:
  assumes "refs e s"
  shows "ok (refs e) snd (wait im addr s)"
proof -
  obtain c where c: "fr c s" "exact e c" "fd_live c" "fd_dead c = dead (k_sched s)" by (rule refsE [OF assms])
  have free: "ok (refs e) this (freeproc im q (s\<lparr>k_phys := m\<rparr>))" if "q \<in> dead (k_sched s)" for q m
  proof -
    have "fd_of c q fd = None" for fd using c(2,4) that unfolding exact_def by blast
    moreover have "fd_idle c \<noteq> Some q" "myproc (k_sched s) \<noteq> Some q" using c(1,3,4) that by (auto simp: fr_def sk_def)
    ultimately show ?thesis
      using freeproc_fr [of c "s\<lparr>k_phys := m\<rparr>" q im] exact_dead [OF c(2), of q] c(1,3) by (auto simp: ok_def intro!: refsI)
  qed
  have free': "ok (refs e) this (freeproc im q s)" if "q \<in> dead (k_sched s)" for q using free [OF that, of "k_phys s"] by simp
  have slp: "ok (refs e) snd (bnd (k_sleep ch s) (\<lambda>s. Inr (Slept 0, s)))" for ch
    by (rule refs_frame [OF _ assms]) auto
  show ?thesis
    unfolding wait_def Let_def bnd_if
    apply (rule ok_k_proc, rule ok_case_option)
     apply (simp add: assms slp)
    subgoal for p q
      apply (subgoal_tac "q \<in> dead (k_sched s)")
       apply (rule ok_if, rule ok_on_phys)
        apply (simp add: assms, intro impI, rule ok_bnd [OF free], simp, simp)
       apply (simp, rule ok_bnd [OF free'], simp, simp)
      by (auto simp: find_Some_iff dead_def the_proc_def)
    done
qed

section \<open>Every system call\<close>

lemma syscalls_refs:
  assumes "refs e s" "myproc (k_sched s) \<noteq> c_idleproc (s_cpu (k_sched s))" "syscalls v num = Some f"
  shows "ok (refs e) snd (f s)"
proof -
  let ?im = "se_image v"
  have fork: "ok (refs e) snd (sys_fork ?im s)" unfolding sys_fork_def by (rule ok_bnd [OF fork_refs [OF assms(1)]]) (simp add: split_beta)
  have exit: "ok (refs e) snd (sys_exit ?im s)"
    unfolding sys_exit_def by (intro arg_fr ok_bnd [OF exit_refs [OF assms(1,2)]]) simp
  have wait: "ok (refs e) snd (sys_wait ?im s)"
    unfolding sys_wait_def by (intro arg_fr ok_bnd [OF wait_refs [OF assms(1)]]) (simp add: split_beta)
  have frame: "ok (refs e) snd (g s)" if "\<And>c. fr c s \<Longrightarrow> ok (fr c) snd (g s)" for g by (rule refs_frame [OF that assms(1)])
  show ?thesis using assms(3) fork exit wait sys_dup_refs [OF assms(1)]
      sys_pipe_refs [OF assms(1), of "im_end ?im"] sys_open_refs [OF assms(1), of "im_end ?im"] sys_close_refs [OF assms(1), of "im_end ?im"]
    unfolding syscalls_def Let_def
    by (simp split: if_split_asm) (auto intro!: frame)
qed

lemma syscall_refs:
  assumes "refs e s" "myproc (k_sched s) \<noteq> c_idleproc (s_cpu (k_sched s))"
  shows "ok (refs e) snd (syscall v s)"
  unfolding syscall_def Let_def
  apply (rule ok_k_proc, rule ok_case_option)
   apply (rule refs_then [OF assms(1)], erule printf_fr, simp)
  apply (rule ok_bnd [OF syscalls_refs [OF assms]], assumption)
  apply (auto split: option.splits)
  done

section \<open>Runs of the kernel\<close>

text \<open>The steps of a run: system calls, and the end of a process that was killed, by a process
  other than the idle process; device and timer interrupts.\<close>

definition in_process :: "'a ksys_scheme \<Rightarrow> bool" where
  "in_process s \<longleftrightarrow> myproc (k_sched s) \<noteq> c_idleproc (s_cpu (k_sched s))"

inductive kstep :: "'a ksys_scheme \<Rightarrow> 'a ksys_scheme \<Rightarrow> bool" where
  kstep_syscall: "in_process s \<Longrightarrow> syscall v s = Inr (finished, t) \<Longrightarrow> kstep s t"
| kstep_exit: "in_process s \<Longrightarrow> exit im status s = Inr t \<Longrightarrow> kstep s t"
| kstep_devintr: "devintr e s = Inr (dev, t) \<Longrightarrow> kstep s t"
| kstep_setkilled: "kstep s (s\<lparr>k_sched := setkilled p (k_sched s)\<rparr>)"
| kstep_user_timer: "usertrap_timer p (k_sched s) = Inr d \<Longrightarrow> kstep s (s\<lparr>k_sched := d\<rparr>)"
| kstep_kernel_timer: "kerneltrap_timer (k_sched s) = Inr d \<Longrightarrow> kstep s (s\<lparr>k_sched := d\<rparr>)"

inductive_cases kstepE: "kstep s t"

lemma kstep_refs:
  assumes "kstep s t" "refs e s"
  shows "refs e t"
  using assms(1)
proof cases
  case (kstep_syscall v finished)
  then show ?thesis using syscall_refs [OF assms(2), of v] by (simp add: in_process_def ok_def)
next
  case (kstep_exit im status)
  then show ?thesis using exit_refs [OF assms(2), of im status] by (simp add: in_process_def ok_def)
next
  case (kstep_devintr v dev)
  then show ?thesis using refs_frame [OF devintr_fr [where e = v and s = s] assms(2)] by (simp add: ok_def)
next
  case (kstep_setkilled p)
  then show ?thesis using refs_frame1 [OF _ assms(2), of t] by (simp add: setkilled_def fr_sk)
next
  case (kstep_user_timer p d)
  have "sk c (k_sched s) \<Longrightarrow> sk c d" for c using timer_sk(1) [of c "k_sched s" p] kstep_user_timer by (simp add: ok_def)
  then show ?thesis using refs_frame1 [OF _ assms(2), of t] kstep_user_timer by (simp add: fr_sk)
next
  case (kstep_kernel_timer d)
  have "sk c (k_sched s) \<Longrightarrow> sk c d" for c using timer_sk(2) [of c "k_sched s"] kstep_kernel_timer by (simp add: ok_def)
  then show ?thesis using refs_frame1 [OF _ assms(2), of t] kstep_kernel_timer by (simp add: fr_sk)
qed

text \<open>Exact counts, and the conditions on processes that keep them.\<close>

definition counts_exact :: "'a ksys_scheme \<Rightarrow> bool" where
  "counts_exact s \<longleftrightarrow>
     (\<forall>f. f_ref (ftable s f) = int (card {(p, fd). p_ofile (the_proc p s) fd = Some f})) \<and>
     finite {(p, fd). p_ofile (the_proc p s) fd \<noteq> None} \<and>
     (\<forall>p fd. p_ofile (the_proc p s) fd \<noteq> None \<longrightarrow> fd < NOFILE \<and> p_state (the_proc p s) \<notin> {UNUSED, ZOMBIE}) \<and>
     (\<forall>p. p_state (the_proc p s) \<in> {UNUSED, ZOMBIE} \<longrightarrow> Some p \<notin> {myproc (k_sched s), c_idleproc (s_cpu (k_sched s))})"

lemma counts_exact_refs: "counts_exact s \<longleftrightarrow> refs (\<lambda>_. 0) s"
  by (auto simp: counts_exact_def refs_def exact_def fr_def sk_def fds_of_def dead_def the_proc_def)

lemma counts_exact_open: "counts_exact s \<Longrightarrow> p_ofile (the_proc p s) fd = Some f \<Longrightarrow> 1 \<le> f_ref (ftable s f)"
proof -
  assume c: "counts_exact s" and o: "p_ofile (the_proc p s) fd = Some f"
  let ?H = "{(p, fd). p_ofile (the_proc p s) fd = Some f}"
  have "finite ?H" using c by (auto simp: counts_exact_def intro: finite_subset [of _ "{(p, fd). p_ofile (the_proc p s) fd \<noteq> None}"])
  moreover have "(p, fd) \<in> ?H" using o by simp
  ultimately have "0 < card ?H" using card_gt_0_iff by blast
  then show ?thesis using c by (simp add: counts_exact_def)
qed

text \<open>C3. In every run of the kernel, by whatever system calls (each one step), deaths of processes, device interrupts and timer
  interrupts, the reference count of every entry of the table of open files is the number of descriptors,
  over all processes, that refer to it; a process that is unused or has ended has no descriptor.  So the entry
  behind an open descriptor always has a positive count: it is never handed out again, and neither \<^verbatim>\<open>dup\<close> nor
  \<^verbatim>\<open>close\<close> finds a count of zero.\<close>

theorem file_counts_exact:
  assumes "counts_exact s" "kstep\<^sup>*\<^sup>* s t"
  shows "counts_exact t \<and> (\<forall>p fd f. p_ofile (the_proc p t) fd = Some f \<longrightarrow> 1 \<le> f_ref (ftable t f))"
proof -
  from assms(2,1) have "counts_exact t" by (induction) (auto simp: counts_exact_refs intro: kstep_refs)
  then show ?thesis using counts_exact_open by blast
qed

text \<open>An example: process 1 has descriptor 0, for entry 5, and calls \<^verbatim>\<open>dup\<close>.\<close>

definition fd_ex :: ksys where
  "fd_ex = (disk_ex (lkern_ext (lg (binit log_ex)) (fkern_ext
       \<lparr>sb_magic = FSMAGIC, sb_size = 200, sb_nblocks = 100, sb_ninodes = 16, sb_nlog = 30, sb_logstart = 2,
        sb_inodestart = 32, sb_bmapstart = 45\<rparr>
       (\<lambda>_. \<lparr>i_dev = 0, i_inum = 0, i_ref = 0, i_lock = initsleeplock, i_valid = False, i_type = 0, i_major = 0,
         i_minor = 0, i_nlink = 0, i_size = 0, i_addrs = (\<lambda>_. 0)\<rparr>)
       (ksys_ext (\<lambda>f. \<lparr>f_type = (if f = 5 then FD_DEVICE else FD_NONE), f_ref = (if f = 5 then 1 else 0), f_readable = True,
           f_writable = True, f_pipe = 0, f_ip = 0, f_off = 0, f_major = 1\<rparr>)
         (\<lambda>_. True) False
         \<lparr>sy_locks = (\<lambda>_. initsleeplock), sem_table = (\<lambda>_. \<lparr>sem_value = 0\<rparr>),
          rw_table = (\<lambda>_. \<lparr>rw_readers = 0, rw_writer = False, rw_waiting_writers = 0\<rparr>), sy_sched = sched_ex\<rparr> [] 0 ()))))
     \<lparr>k_sched := upd_proc 1 (\<lambda>x. x\<lparr>p_ofile := (\<lambda>_. None)(0 := Some 5), p_trapframe := 0\<rparr>) sched_ex,
      k_phys := ex_space\<lparr>pmem := store64 168 10 (store64 112 0 (\<lambda>_. 0))\<rparr>\<rparr>"

lemma fd_ex_sel:
  "k_sched fd_ex = upd_proc 1 (\<lambda>x. x\<lparr>p_ofile := (\<lambda>_. None)(0 := Some 5), p_trapframe := 0\<rparr>) sched_ex"
  "pmem (k_phys fd_ex) = store64 168 10 (store64 112 0 (\<lambda>_. 0))"
  "f_ref (ftable fd_ex f) = (if f = 5 then 1 else 0)"
  by (simp_all add: fd_ex_def disk_ex_def)

lemma fd_ex_procs: "p_ofile (the_proc p fd_ex) = (if p = 1 then (\<lambda>_. None)(0 := Some 5) else (\<lambda>_. None))" "p_trapframe (the_proc 1 fd_ex) = 0"
  "p_state (the_proc p fd_ex) = (if p = 0 then RUNNABLE else if p = 1 then RUNNING else if p = 2 then SLEEPING else UNUSED)"
  "myproc (k_sched fd_ex) = Some 1" "c_idleproc (s_cpu (k_sched fd_ex)) = Some 0"
  by (simp_all add: the_proc_def fd_ex_sel upd_proc_def sched_ex_procs proc0_def myproc_def)

lemma fd_ex_counts: "counts_exact fd_ex"
proof -
  have f: "{(p, fd). p_ofile (the_proc p fd_ex) fd = Some f} = (if f = 5 then {(1, 0)} else {})" for f
    by (auto simp: fd_ex_procs(1) split: if_splits)
  have d: "{(p, fd). p_ofile (the_proc p fd_ex) fd \<noteq> None} = {(1, 0)}" by (auto simp: fd_ex_procs(1) split: if_splits)
  have o: "p = 1 \<and> fd = 0" if "p_ofile (the_proc p fd_ex) fd \<noteq> None" for p fd
    using that by (simp add: fd_ex_procs(1) split: if_splits)
  have z: "p \<noteq> 0 \<and> p \<noteq> 1" if "p_state (the_proc p fd_ex) \<in> {UNUSED, ZOMBIE}" for p
    using that by (simp add: fd_ex_procs(3) split: if_splits)
  show ?thesis unfolding counts_exact_def f d
  proof (intro conjI allI impI)
    show "f_ref (ftable fd_ex f) = int (card (if f = 5 then {(1 :: nat, 0 :: nat)} else {}))" for f by (simp add: fd_ex_sel(3))
    show "Some p \<notin> {myproc (k_sched fd_ex), c_idleproc (s_cpu (k_sched fd_ex))}" if "p_state (the_proc p fd_ex) \<in> {UNUSED, ZOMBIE}" for p
      using z [OF that] by (simp add: fd_ex_procs(4,5))
  qed (use o in \<open>force simp: fd_ex_procs(3) simp del: not_None_eq\<close>)+
qed

lemma fd_ex_dup: "\<exists>t. syscall v fd_ex = Inr (True, t) \<and> p_ofile (the_proc 1 t) 1 = Some 5 \<and> f_ref (ftable t 5) = 2"
proof -
  have "load64 (store64 168 10 (store64 112 0 (\<lambda>_. 0))) 112 = 0"
    using load_store64_other [of 168 112 10 "store64 112 0 (\<lambda>_. 0)"] by simp
  then have tf: "tf_get 1 168 fd_ex = 10" "tf_get 1 112 fd_ex = 0"
    by (simp_all add: tf_get_def fd_ex_procs(2) fd_ex_sel(2) del: One_nat_def)
  have fd: "find (\<lambda>fd. p_ofile (the_proc 1 fd_ex) fd = None) [0..<NOFILE] = Some 1"
    by (simp add: fd_ex_procs(1) upt_rec)
  have ofd: "p_ofile (the_proc 1 fd_ex) 0 = Some 5" by (simp add: fd_ex_procs(1))
  have ref: "\<not> f_ref (ftable (k_upd p f fd_ex) 5) < 1" for p f by (simp add: fd_ex_sel(3))
  have arg: "argfd 0 fd_ex k = k (Some (0, 5))" for k :: "(nat \<times> nat) option \<Rightarrow> 'r res"
    using tf(2) ofd by (simp add: argfd_def argint_def argraw_def k_proc_def with_proc_def fd_ex_procs(4) del: One_nat_def)
  have "fdalloc 5 fd_ex = Inr (Some 1, k_upd 1 (\<lambda>x. x\<lparr>p_ofile := (p_ofile x)(1 := Some 5)\<rparr>) fd_ex)"
    using fd by (simp add: fdalloc_def k_proc_def with_proc_def fd_ex_procs(4) del: One_nat_def)
  then have "sys_dup fd_ex = ret 1 (upd_file 5 (\<lambda>x. x\<lparr>f_ref := f_ref x + 1\<rparr>) (k_upd 1 (\<lambda>x. x\<lparr>p_ofile := (p_ofile x)(1 := Some 5)\<rparr>) fd_ex))"
    using ref by (simp add: sys_dup_def arg filedup_def del: One_nat_def)
  moreover have "(syscalls v 10 :: (ksys \<Rightarrow> ksys sysret) option) = Some sys_dup" by (simp add: syscalls_def)
  ultimately have "syscall v fd_ex = Inr (True, tf_set 1 112 1
      (upd_file 5 (\<lambda>x. x\<lparr>f_ref := f_ref x + 1\<rparr>) (k_upd 1 (\<lambda>x. x\<lparr>p_ofile := (p_ofile x)(1 := Some 5)\<rparr>) fd_ex)))"
    using tf(1) by (simp add: syscall_def k_proc_def with_proc_def fd_ex_procs(4) ret_def del: One_nat_def)
  then show ?thesis by (simp add: tf_set_def upd_file_def fd_ex_sel(3) the_proc_def k_upd_def upd_proc_def)
qed

theorem file_counts_exact_witness:
  "\<exists>t. kstep\<^sup>*\<^sup>* fd_ex t \<and> p_ofile (the_proc 1 t) 1 = Some 5 \<and> f_ref (ftable t 5) = 2 \<and> counts_exact t"
proof -
  obtain v t where t: "syscall v fd_ex = Inr (True, t)" "p_ofile (the_proc 1 t) 1 = Some 5" "f_ref (ftable t 5) = 2"
    using fd_ex_dup by blast
  have "kstep\<^sup>*\<^sup>* fd_ex t" by (rule r_into_rtranclp, rule kstep_syscall [OF _ t(1)]) (simp add: in_process_def fd_ex_procs)
  then show ?thesis using file_counts_exact [OF fd_ex_counts] t by blast
qed

end
