(* ===== verification/Blocks.thy ===== *)
theory Blocks
  imports Fs Recovery
begin

text \<open>
  Blocks within a transaction: what reading, writing, \<^verbatim>\<open>balloc\<close> and \<^verbatim>\<open>bfree\<close> do to the contents of the
  blocks, in terms of the view of the disk through the cache (\<open>content\<close>).
\<close>

section \<open>Steps of a transaction\<close>

text \<open>The blocks in the log.  \<open>kept n s t\<close>: between \<open>s\<close> and \<open>t\<close> at most \<open>n\<close> blocks were added to the
  log, none was removed, and nothing but blocks, buffers and the log changed.  \<open>held H s t\<close>: the buffers
  \<open>H\<close> have kept their blocks and data.\<close>

definition logged :: "'a lkern_scheme \<Rightarrow> u32 set" where
  "logged s = log_block s ` {..<nat (log_n s)}"

definition kept :: "nat \<Rightarrow> 'a lkern_scheme \<Rightarrow> 'a lkern_scheme \<Rightarrow> bool" where
  "kept n s t \<longleftrightarrow> lg t = (lg s)\<lparr>lg_lh := lg_lh (lg t)\<rparr> \<and> lkern.more t = lkern.more s \<and>
     log_n t \<le> log_n s + int n \<and> logged s \<subseteq> logged t"

definition held :: "nat set \<Rightarrow> 'a lkern_scheme \<Rightarrow> 'a lkern_scheme \<Rightarrow> bool" where
  "held H s t \<longleftrightarrow> (\<forall>c\<in>H. b_blockno (bufs t c) = b_blockno (bufs s c) \<and> b_data (bufs t c) = b_data (bufs s c))"

lemma held_trans: "held H s t \<Longrightarrow> held H t u \<Longrightarrow> held H s u"
  by (simp add: held_def)

lemma kept_logged: "kept n s t \<Longrightarrow> logged s \<subseteq> logged t"
  by (simp add: kept_def)

lemma kept_refl: "kept 0 s s"
  by (simp add: kept_def)

lemma keptD:
  assumes "kept n s t"
  shows "lg_dev (lg t) = lg_dev (lg s)" "lg_size (lg t) = lg_size (lg s)" "lg_outstanding (lg t) = lg_outstanding (lg s)"
    "lg_start (lg t) = lg_start (lg s)" "in_log t = in_log s" "lkern.more t = lkern.more s" "log_n t \<le> log_n s + int n"
proof -
  have e: "lg t = (lg s)\<lparr>lg_lh := lg_lh (lg t)\<rparr>" using assms by (simp add: kept_def)
  show f: "lg_dev (lg t) = lg_dev (lg s)" "lg_size (lg t) = lg_size (lg s)" "lg_outstanding (lg t) = lg_outstanding (lg s)"
    "lg_start (lg t) = lg_start (lg s)" by (subst e, simp)+
  show "in_log t = in_log s" by (rule in_log_cong [OF f(4,2)])
qed (use assms in \<open>simp_all add: kept_def\<close>)

lemma kept_trans:
  assumes "kept n s t" "kept m t u" "n + m \<le> k"
  shows "kept k s u"
proof -
  have "lg u = (lg t)\<lparr>lg_lh := lg_lh (lg u)\<rparr>" "lg t = (lg s)\<lparr>lg_lh := lg_lh (lg t)\<rparr>" using assms by (simp_all add: kept_def)
  then have "lg u = (lg s)\<lparr>lg_lh := lg_lh (lg u)\<rparr>" by (metis log.surjective log.update_convs(6))
  then show ?thesis using assms by (auto simp: kept_def)
qed

lemma kept_mono: "kept n s t \<Longrightarrow> n \<le> m \<Longrightarrow> kept m s t"
  by (simp add: kept_def)

lemma more_fs:
  fixes s t :: "'a fkern_scheme"
  assumes "lkern.more t = lkern.more s"
  shows "sb t = sb s" "itable t = itable s"
  using assms by (cases s; cases t; simp)+

text \<open>Room for \<open>n\<close> more blocks.\<close>

definition room :: "nat \<Rightarrow> 'a lkern_scheme \<Rightarrow> bool" where
  "room n s \<longleftrightarrow> log_n s + int n \<le> lg_size (lg s) - 1 \<and> 1 \<le> lg_outstanding (lg s)"

lemma room_kept: "room k s \<Longrightarrow> kept n s t \<Longrightarrow> n + m \<le> k \<Longrightarrow> room m t"
  using keptD [of n s t] by (simp add: room_def)

lemma log_n_bound: "log_open H s \<Longrightarrow> nat (log_n s) < NBUF"
  by (auto simp: log_open_def)

text \<open>Reading a block and giving the buffer back unchanged, while the buffers \<open>H\<close> are held.\<close>

lemma open_read:
  fixes s :: "'a lkern_scheme"
  assumes s: "log_open H s" "d = lg_dev (lg s)" and H: "\<forall>c\<in>H. b_blockno (bufs s c) \<noteq> k" "nat (log_n s) + card H < NBUF"
  obtains b t where "bread d k s = Inr (b, t)" "log_open (insert b H) t" "b \<notin> H" "kept 0 s t" "b_blockno (bufs t b) = k"
    "b_data (bufs t b) = content s d k" "content t d = content s d" "disk t = disk s" "held H s t"
    "\<exists>u. brelse b t = Inr u \<and> log_open H u \<and> kept 0 s u \<and> content u d = content s d \<and> held H s u"
    "lg t = lg s"
proof -
  obtain b t where t: "bread d k s = Inr (b, t)" "log_open (insert b H) t" "b \<notin> H" "lg t = lg s" "b_blockno (bufs t b) = k"
    "b_data (bufs t b) = content s d k" "content t d = content s d" "disk t = disk s" "lkern.more t = lkern.more s"
    "\<And>c. c \<in> H \<Longrightarrow> bufs t c = bufs s c"
    unfolding s(2) by (rule open_bread [OF s(1), of k]) (use H in auto)
  have "b_blockno (bufs t b) \<in> log_block t ` {..<nat (log_n t)} \<or> b_data (bufs t b) = disk t (b_blockno (bufs t b))"
  proof (rule disjCI)
    assume "b_data (bufs t b) \<noteq> disk t (b_blockno (bufs t b))"
    then have "content s d k \<noteq> disk s k" using t(5,6,8) by simp
    moreover have "busy d (log_block s ` {..<nat (log_n s)}) H s" using s by (simp add: log_open_def)
    ultimately show "b_blockno (bufs t b) \<in> log_block t ` {..<nat (log_n t)}"
      using busy_content_disk [of d _ H s k] t(4,5) H(1) by (auto simp: cached_def)
  qed
  then obtain u where u: "brelse b t = Inr u" "log_open (insert b H - {b}) u" "lg u = lg t"
    "content u (lg_dev (lg t)) = content t (lg_dev (lg t))" "lkern.more u = lkern.more t"
    "\<And>c. b_blockno (bufs u c) = b_blockno (bufs t c)" "\<And>c. b_data (bufs u c) = b_data (bufs t c)"
    by (rule_tac open_brelse [OF t(2), of b]) auto
  have "log_open H u" using u(2) t(3) by (simp add: insert_Diff_if)
  moreover have "held H s t" "held H s u" using t(10) u(6,7) by (simp_all add: held_def)
  moreover have "kept 0 s t" "kept 0 s u" using t(4,9) u(3,5) by (simp_all add: kept_def logged_def)
  ultimately show ?thesis using that [OF t(1-3) _ t(5-8)] t(4,7) u(1,4) s(2) by auto
qed

lemma tx_read:
  fixes s :: "'a lkern_scheme"
  assumes "log_open {} s" "d = lg_dev (lg s)"
  obtains b t where "bread d k s = Inr (b, t)" "log_open {b} t" "kept 0 s t" "b_blockno (bufs t b) = k"
    "b_data (bufs t b) = content s d k" "content t d = content s d" "disk t = disk s"
    "\<exists>u. brelse b t = Inr u \<and> log_open {} u \<and> kept 0 s u \<and> content u d = content s d"
  by (rule open_read [OF assms, of k]) (use log_n_bound [OF assms(1)] in \<open>auto intro: that\<close>)

text \<open>Storing a new value in a block that is held.\<close>

lemma tx_write:
  fixes s :: "'a lkern_scheme"
  assumes s: "log_open H s" "d = lg_dev (lg s)" and b: "b \<in> H" "b_blockno (bufs s b) = k" "\<not> in_log s k" and "room 1 s"
  obtains t where "log_release b (set_data b v s) = Inr t" "log_open (H - {b}) t" "kept 1 s t"
    "content t d = (content s d)(k := v)" "\<And>c. b_blockno (bufs t c) = b_blockno (bufs s c)"
    "\<And>c. c \<noteq> b \<Longrightarrow> b_data (bufs t c) = b_data (bufs s c)"
    "logged t = insert k (logged s)" "kept (if k \<in> logged s then 0 else 1) s t"
proof -
  define u where "u = set_data b v s"
  note U = open_upd [OF s(1) b(1), where v = v, folded set_data_def, folded u_def]
  have bn: "b_blockno (bufs u c) = b_blockno (bufs s c)" for c by (simp add: u_def set_data_def upd_buf_def)
  have out: "\<not> in_log u k" using b(3) U(3) in_log_cong [of u s] by simp
  obtain w where w: "log_write b u = Inr w" "log_open H w"
    "log_block w ` {..<nat (log_n w)} = insert k (log_block u ` {..<nat (log_n u)})"
    "log_n w = (if k \<in> log_block u ` {..<nat (log_n u)} then log_n u else log_n u + 1)" "lg w = (lg u)\<lparr>lg_lh := lg_lh (lg w)\<rparr>"
    "content w (lg_dev (lg u)) = content u (lg_dev (lg u))" "\<And>c. b_blockno (bufs w c) = b_blockno (bufs u c)"
    "\<And>c. b_data (bufs w c) = b_data (bufs u c)" "lkern.more w = lkern.more u"
    by (rule log_write_open [OF U(1) b(1) _ out]) (use assms(6) b(2) bn U(3) in \<open>auto simp: room_def\<close>)
  have logged: "b_blockno (bufs w b) \<in> log_block w ` {..<nat (log_n w)} \<or> b_data (bufs w b) = disk w (b_blockno (bufs w b))"
    using w(3,7) bn b(2) by simp
  obtain t where t: "brelse b w = Inr t" "log_open (H - {b}) t" "lg t = lg w" "disk t = disk w"
    "content t (lg_dev (lg w)) = content w (lg_dev (lg w))" "lkern.more t = lkern.more w"
    "\<And>c. b_blockno (bufs t c) = b_blockno (bufs w c)" "\<And>c. b_data (bufs t c) = b_data (bufs w c)"
    by (rule open_brelse [OF w(2) b(1) logged]) (rule that)
  have dev: "lg_dev (lg w) = d" by (subst w(5)) (simp add: U(3) s(2))
  show ?thesis
  proof (rule that [of t])
    show "log_release b (set_data b v s) = Inr t" using w(1) t(1) by (simp add: log_release_def u_def bnd_def)
    show l: "logged t = insert k (logged s)" using w(3) t(3) U(3) by (simp add: logged_def)
    show "kept 1 s t" using w(4,5,9) t(3,6) U(3,6) l by (auto simp: kept_def)
    show "kept (if k \<in> logged s then 0 else 1) s t" using w(4,5,9) t(3,6) U(3,6) l by (auto simp: kept_def logged_def)
    show "content t d = (content s d)(k := v)" using t(5) w(6) U(2,3) dev b(2) s(2) by simp
    show "b_data (bufs t c) = b_data (bufs s c)" if "c \<noteq> b" for c
      using that t(8) w(8) by (simp add: u_def set_data_def upd_buf_def)
  qed (use t w bn in simp_all)
qed

text \<open>Reading a block and storing a new value in it.\<close>

lemma room_bufs: "log_open H s \<Longrightarrow> room 1 s \<Longrightarrow> card G \<le> 1 \<Longrightarrow> nat (log_n s) + card G < NBUF"
  by (auto simp: log_open_def room_def)

lemma open_rmw:
  fixes s :: "'a lkern_scheme"
  assumes s: "log_open H s" "d = lg_dev (lg s)" and H: "\<forall>c\<in>H. b_blockno (bufs s c) \<noteq> k" "card H \<le> 1"
    and k: "\<not> in_log s k" "room 1 s"
  obtains b t where "bread d k s = Inr (b, t)" "b_data (bufs t b) = content s d k" "lkern.more t = lkern.more s"
    "\<And>v. \<exists>u. log_release b (set_data b v t) = Inr u \<and> log_open H u \<and> kept (if k \<in> logged s then 0 else 1) s u \<and>
       content u d = (content s d)(k := v) \<and> held H s u \<and> k \<in> logged u"
proof -
  obtain b t where t: "bread d k s = Inr (b, t)" "log_open (insert b H) t" "b \<notin> H" "kept 0 s t" "b_blockno (bufs t b) = k"
    "b_data (bufs t b) = content s d k" "content t d = content s d" "held H s t" "lg t = lg s"
    by (rule open_read [OF s H(1) room_bufs [OF s(1) k(2) H(2)]])
  note K = keptD [OF t(4)]
  have lt: "logged t = logged s" using t(9) by (simp add: logged_def)
  have "\<exists>u. log_release b (set_data b v t) = Inr u \<and> log_open H u \<and> kept (if k \<in> logged s then 0 else 1) s u \<and>
      content u d = (content s d)(k := v) \<and> held H s u \<and> k \<in> logged u" for v
  proof -
    obtain u where u: "log_release b (set_data b v t) = Inr u" "log_open (insert b H - {b}) u" "content u d = (content t d)(k := v)"
      "\<And>c. b_blockno (bufs u c) = b_blockno (bufs t c)" "\<And>c. c \<noteq> b \<Longrightarrow> b_data (bufs u c) = b_data (bufs t c)"
      "logged u = insert k (logged t)" "kept (if k \<in> logged t then 0 else 1) t u"
      by (rule tx_write [OF t(2), of d b k v]) (use K s(2) k t(5) room_kept [OF _ t(4), of 1 1] in auto)
    have "kept (if k \<in> logged s then 0 else 1) s u" by (rule kept_trans [OF t(4) u(7)]) (simp add: lt)
    moreover have "held H t u" using u(4,5) t(3) by (metis held_def)
    then have "held H s u" by (rule held_trans [OF t(8)])
    ultimately show ?thesis using u(1-3,6) t(3,7) by (auto simp: insert_Diff_if)
  qed
  then show ?thesis using that [OF t(1,6) K(6)] by blast
qed

lemma tx_rmw:
  fixes s :: "'a lkern_scheme"
  assumes "log_open {} s" "d = lg_dev (lg s)" "\<not> in_log s k" "room 1 s"
  obtains b t where "bread d k s = Inr (b, t)" "b_data (bufs t b) = content s d k" "lkern.more t = lkern.more s"
    "\<And>v. \<exists>u. log_release b (set_data b v t) = Inr u \<and> log_open {} u \<and> kept 1 s u \<and> content u d = (content s d)(k := v)"
proof -
  obtain b t where t: "bread d k s = Inr (b, t)" "b_data (bufs t b) = content s d k" "lkern.more t = lkern.more s"
    "\<And>v. \<exists>u. log_release b (set_data b v t) = Inr u \<and> log_open {} u \<and> kept (if k \<in> logged s then 0 else 1) s u \<and>
       content u d = (content s d)(k := v) \<and> held {} s u \<and> k \<in> logged u"
    by (rule open_rmw [OF assms(1,2) _ _ assms(3,4)]) (auto intro: that)
  have "\<exists>u. log_release b (set_data b v t) = Inr u \<and> log_open {} u \<and> kept 1 s u \<and> content u d = (content s d)(k := v)" for v
    using t(4) [of v] kept_mono [of "if k \<in> logged s then 0 else 1" s _ 1] by auto
  then show ?thesis using that [OF t(1-3)] by blast
qed

lemma bzero_ok:
  fixes s :: "'a lkern_scheme"
  assumes "log_open H s" "d = lg_dev (lg s)" "\<forall>c\<in>H. b_blockno (bufs s c) \<noteq> k" "card H \<le> 1" "\<not> in_log s k" "room 1 s"
  obtains t where "bzero d k s = Inr t" "log_open H t" "kept 1 s t" "content t d = (content s d)(k := replicate BSIZE 0)"
    "held H s t" "k \<in> logged t"
proof -
  obtain b t where t: "bread d k s = Inr (b, t)" "b_data (bufs t b) = content s d k" "lkern.more t = lkern.more s"
    "\<And>v. \<exists>u. log_release b (set_data b v t) = Inr u \<and> log_open H u \<and> kept (if k \<in> logged s then 0 else 1) s u \<and>
       content u d = (content s d)(k := v) \<and> held H s u \<and> k \<in> logged u"
    by (rule open_rmw [OF assms]) (rule that)
  from t(4) [of "replicate BSIZE 0"] that show ?thesis
    using t(1) kept_mono [of "if k \<in> logged s then 0 else 1" s _ 1] by (auto simp: bzero_def bnd_def)
qed

section \<open>The bitmap\<close>

lemma bit_free_iff: "bit_free d bi \<longleftrightarrow> \<not> bit (d ! (bi div 8)) (bi mod 8)"
  by (simp add: bit_free_def bit_iff_and_push_bit_not_eq_0)

lemma div_mod_eq: "(i :: nat) div 8 = j div 8 \<Longrightarrow> i mod 8 = j mod 8 \<Longrightarrow> i = j"
  by (metis div_mult_mod_eq)

lemma bit_free_set:
  assumes "length d = BSIZE" "bi < BPB" "bj < BPB"
  shows "bit_free (set_bit_used d bi) bj \<longleftrightarrow> bit_free d bj \<and> bj \<noteq> bi"
proof (cases "bj div 8 = bi div 8")
  case True
  have "bi div 8 < length d" using assms by simp
  then show ?thesis using True div_mod_eq [OF True]
    by (auto simp: bit_free_iff set_bit_used_def bit_or_iff bit_exp_iff possible_bit_word)
next
  case False
  then have "bj \<noteq> bi" by auto
  then show ?thesis using False by (simp add: bit_free_iff set_bit_used_def)
qed

lemma bit_free_clear:
  assumes "length d = BSIZE" "bi < BPB" "bj < BPB"
  shows "bit_free (clear_bit d bi) bj \<longleftrightarrow> bit_free d bj \<or> bj = bi"
proof (cases "bj div 8 = bi div 8")
  case True
  have "bi div 8 < length d" using assms by simp
  then show ?thesis using True div_mod_eq [OF True]
    by (auto simp: bit_free_iff clear_bit_def bit_and_iff bit_not_iff bit_exp_iff possible_bit_word)
next
  case False
  then have "bj \<noteq> bi" by auto
  then show ?thesis using False by (simp add: bit_free_iff clear_bit_def)
qed

lemma bitmap_length [simp]: "length (set_bit_used d bi) = length d" "length (clear_bit d bi) = length d"
  by (simp_all add: set_bit_used_def clear_bit_def)

text \<open>The block of the bitmap for block \<open>b\<close>, and whether the bitmap says that \<open>b\<close> is free.\<close>

definition bm_block :: "superblock \<Rightarrow> nat \<Rightarrow> u32" where
  "bm_block q b = of_nat (b div BPB) + sb_bmapstart q"

lemma BBLOCK_nat: "b < 2 ^ 32 \<Longrightarrow> BBLOCK (of_nat b) q = bm_block q b"
proof -
  assume "b < 2 ^ 32"
  then have "unat ((of_nat b :: u32) div 8192) = unat (of_nat (b div BPB) :: u32)"
    by (simp add: unat_div_distrib unsigned_of_nat take_bit_nat_eq_self)
  then have "(of_nat b :: u32) div 8192 = of_nat (b div BPB)" by (rule unsigned_word_eqI)
  then show ?thesis by (simp add: BBLOCK_def bm_block_def)
qed

definition blk_free :: "superblock \<Rightarrow> (u32 \<Rightarrow> byte list) \<Rightarrow> nat \<Rightarrow> bool" where
  "blk_free q C b \<longleftrightarrow> bit_free (C (bm_block q b)) (b mod BPB)"

abbreviation (input) fs_size :: "superblock \<Rightarrow> nat" where "fs_size q \<equiv> unat (sb_size q)"

text \<open>The bitmap is outside the log and disjoint from the blocks it says are free, and its blocks are distinct.\<close>

definition bitmap_ok :: "'a fkern_scheme \<Rightarrow> bool" where
  "bitmap_ok s \<longleftrightarrow> (let q = sb s; C = content s (lg_dev (lg s)) in
     (\<forall>b < fs_size q. \<not> in_log s (bm_block q b) \<and> length (C (bm_block q b)) = BSIZE) \<and>
     (\<forall>b < fs_size q. \<forall>c < fs_size q. bm_block q b = bm_block q c \<longrightarrow> b div BPB = c div BPB) \<and>
     (\<forall>b < fs_size q. blk_free q C b \<longrightarrow> \<not> in_log s (of_nat b) \<and> (\<forall>c < fs_size q. bm_block q c \<noteq> of_nat b)))"

lemma blk_free_set:
  assumes "length (C (bm_block q b)) = BSIZE" "\<And>c. c < fs_size q \<Longrightarrow> bm_block q b = bm_block q c \<Longrightarrow> b div BPB = c div BPB" "c < fs_size q"
  shows "blk_free q (C(bm_block q b := set_bit_used (C (bm_block q b)) (b mod BPB))) c \<longleftrightarrow> blk_free q C c \<and> c \<noteq> b"
    "blk_free q (C(bm_block q b := clear_bit (C (bm_block q b)) (b mod BPB))) c \<longleftrightarrow> blk_free q C c \<or> c = b"
proof -
  have same: "bm_block q c = bm_block q b \<and> c mod BPB = b mod BPB \<longleftrightarrow> c = b"
    using assms(2) [OF assms(3)] by (metis div_mult_mod_eq)
  have lt: "b mod BPB < BPB" "c mod BPB < BPB" by simp_all
  show "blk_free q (C(bm_block q b := set_bit_used (C (bm_block q b)) (b mod BPB))) c \<longleftrightarrow> blk_free q C c \<and> c \<noteq> b"
    using bit_free_set [OF assms(1) lt] same by (auto simp: blk_free_def)
  show "blk_free q (C(bm_block q b := clear_bit (C (bm_block q b)) (b mod BPB))) c \<longleftrightarrow> blk_free q C c \<or> c = b"
    using bit_free_clear [OF assms(1) lt] same by (auto simp: blk_free_def)
qed

section \<open>Allocating and freeing\<close>

text \<open>The contents of the disk after block \<open>b\<close> has been allocated.\<close>

definition allocated :: "superblock \<Rightarrow> (u32 \<Rightarrow> byte list) \<Rightarrow> nat \<Rightarrow> u32 \<Rightarrow> byte list" where
  "allocated q C b = C(bm_block q b := set_bit_used (C (bm_block q b)) (b mod BPB), of_nat b := replicate BSIZE 0)"

lemma bm_block_base: "b mod BPB = 0 \<Longrightarrow> i < BPB \<Longrightarrow> bm_block q (b + i) = bm_block q b \<and> (b + i) mod BPB = i"
  by (auto simp: bm_block_def mod_eq_0_iff_dvd elim!: dvdE)

lemma bitmap_ok_cong:
  assumes "kept n s t" "content t (lg_dev (lg s)) = content s (lg_dev (lg s))"
  shows "bitmap_ok t = bitmap_ok s"
  using keptD [OF assms(1)] more_fs [of t s] assms(2) by (simp add: bitmap_ok_def)

text \<open>The held buffers have neither blocks of the bitmap nor free blocks.\<close>

definition unheld :: "nat set \<Rightarrow> 'a fkern_scheme \<Rightarrow> bool" where
  "unheld H s \<longleftrightarrow> card H \<le> 1 \<and> (\<forall>c\<in>H. \<forall>b < fs_size (sb s). b_blockno (bufs s c) \<noteq> bm_block (sb s) b \<and>
     (blk_free (sb s) (content s (lg_dev (lg s))) b \<longrightarrow> b_blockno (bufs s c) \<noteq> of_nat b))"

lemma unheld_empty [simp]: "unheld {} s"
  by (simp add: unheld_def)

lemma unheld_cong:
  assumes "held H s t" "kept n s t" "content t (lg_dev (lg s)) = content s (lg_dev (lg s))"
  shows "unheld H t = unheld H s"
  using assms keptD [OF assms(2)] more_fs [of t s] by (simp add: unheld_def held_def)

lemma balloc_take:
  fixes s :: "'a fkern_scheme"
  assumes s: "log_open H s" "room 2 s" "bitmap_ok s" "d = lg_dev (lg s)" "unheld H s"
    and b: "b mod BPB = 0" "bi < BPB" "b + bi < fs_size (sb s)"
    and t: "log_open (insert bp H) t" "bp \<notin> H" "kept 0 s t" "b_blockno (bufs t bp) = bm_block (sb s) b" "content t d = content s d" "held H s t"
    and free: "blk_free (sb s) (content s d) (b + bi)" and data: "b_data (bufs t bp) = content s d (bm_block (sb s) b)"
  obtains u v where "log_release bp (set_data bp (set_bit_used (b_data (bufs t bp)) bi) t) = Inr u"
    "bzero d (of_nat (b + bi)) u = Inr v" "log_open H v" "kept 2 s v" "content v d = allocated (sb s) (content s d) (b + bi)"
    "held H s v" "of_nat (b + bi) \<in> logged v"
proof -
  let ?q = "sb s" and ?C = "content s d"
  note T = keptD [OF t(3)] and O = s(3) [unfolded bitmap_ok_def Let_def, folded s(4)] and base = bm_block_base [OF b(1,2), of ?q]
  have out: "\<not> in_log s (bm_block ?q b)" "\<not> in_log s (of_nat (b + bi))" using O b(3) free base by metis+
  obtain u where u: "log_release bp (set_data bp (set_bit_used (b_data (bufs t bp)) bi) t) = Inr u" "log_open (insert bp H - {bp}) u"
    "kept 1 t u" "content u d = (content t d)(bm_block ?q b := set_bit_used (b_data (bufs t bp)) bi)"
    "\<And>c. b_blockno (bufs u c) = b_blockno (bufs t c)" "\<And>c. c \<noteq> bp \<Longrightarrow> b_data (bufs u c) = b_data (bufs t c)"
    by (rule tx_write [OF t(1), of d bp "bm_block ?q b" "set_bit_used (b_data (bufs t bp)) bi"])
      (use T(1,5) s(4) t(3,4) out room_kept [OF s(2) t(3), of 1] in \<open>auto intro: that\<close>)
  have su: "kept 1 s u" by (rule kept_trans [OF t(3) u(3)]) simp
  note U = keptD [OF su]
  have "held H t u" using u(5,6) t(2) by (metis held_def)
  then have hu: "held H s u" by (rule held_trans [OF t(6)])
  have lu: "log_open H u" using u(2) t(2) by (simp add: insert_Diff_if)
  have "\<forall>c\<in>H. b_blockno (bufs u c) \<noteq> of_nat (b + bi)" using s(4,5) b(3) free hu unfolding unheld_def held_def by metis
  then obtain v where v: "bzero d (of_nat (b + bi)) u = Inr v" "log_open H v" "kept 1 u v"
    "content v d = (content u d)(of_nat (b + bi) := replicate BSIZE 0)" "held H u v" "of_nat (b + bi) \<in> logged v"
    by (rule bzero_ok [OF lu, of d "of_nat (b + bi)", rotated])
      (use U(1,5) s(4,5) out(2) room_kept [OF s(2) su, of 1] in \<open>auto simp: unheld_def intro: that\<close>)
  show ?thesis
  proof (rule that [OF u(1) v(1,2)])
    show "kept 2 s v" by (rule kept_trans [OF su v(3)]) simp
    show "content v d = allocated ?q ?C (b + bi)" using v(4) u(4) t(5) data base by (simp add: allocated_def)
    show "held H s v" by (rule held_trans [OF hu v(5)])
  qed (rule v(6))
qed

lemma balloc_loop_ok:
  fixes s :: "'a fkern_scheme"
  assumes "log_open H s" "room 2 s" "bitmap_ok s" "d = lg_dev (lg s)" "unheld H s"
    "\<And>b. b \<in> set bs \<Longrightarrow> b mod BPB = 0 \<and> b < fs_size (sb s)"
    "\<exists>b \<in> set bs. \<exists>i < min BPB (fs_size (sb s) - b). blk_free (sb s) (content s d) (b + i)"
  shows "\<exists>b t. balloc_loop d bs s = Inr (of_nat b, t) \<and> b < fs_size (sb s) \<and> blk_free (sb s) (content s d) b \<and>
    log_open H t \<and> kept 2 s t \<and> content t d = allocated (sb s) (content s d) b \<and> held H s t \<and> of_nat b \<in> logged t"
  using assms
proof (induction bs arbitrary: s)
  case (Cons b bs)
  let ?q = "sb s" and ?C = "content s d"
  have sz: "fs_size ?q < 2 ^ 32" using unsigned_less [of "sb_size ?q", where ?'a = nat] by simp
  have b0: "b mod BPB = 0" "b < fs_size ?q" using Cons.prems(6) by auto
  then have bb: "BBLOCK (of_nat b) ?q = bm_block ?q b" using sz by (intro BBLOCK_nat) simp
  have nb: "\<forall>c\<in>H. b_blockno (bufs s c) \<noteq> bm_block ?q b" "card H \<le> 1" using Cons.prems(5) b0(2) by (auto simp: unheld_def)
  have "room 1 s" using Cons.prems(2) by (simp add: room_def)
  from room_bufs [OF Cons.prems(1) this nb(2)]
  obtain bp t where t: "bread d (bm_block ?q b) s = Inr (bp, t)" "log_open (insert bp H) t" "bp \<notin> H" "kept 0 s t"
    "b_blockno (bufs t bp) = bm_block ?q b" "b_data (bufs t bp) = ?C (bm_block ?q b)" "content t d = ?C" "held H s t"
    "\<exists>u. brelse bp t = Inr u \<and> log_open H u \<and> kept 0 s u \<and> content u d = ?C \<and> held H s u"
    by (rule open_read [OF Cons.prems(1,4) nb(1)])
  note T = keptD [OF t(4)] more_fs [OF keptD(6) [OF t(4)]]
  show ?case
  proof (cases "find (bit_free (b_data (bufs t bp))) [0..<min BPB (fs_size ?q - b)]")
    case None
    obtain u where u: "brelse bp t = Inr u" "log_open H u" "kept 0 s u" "content u d = ?C" "held H s u" using t(9) by blast
    note K = keptD [OF u(3)] and F = more_fs [OF keptD(6) [OF u(3)]]
    have no: "\<not> blk_free ?q ?C (b + i)" if "i < min BPB (fs_size ?q - b)" for i
      using None that bm_block_base [OF b0(1), of i ?q] t(6) by (auto simp: find_None_iff blk_free_def)
    have "\<exists>b t. balloc_loop d bs u = Inr (of_nat b, t) \<and> b < fs_size (sb u) \<and> blk_free (sb u) (content u d) b \<and>
        log_open H t \<and> kept 2 u t \<and> content t d = allocated (sb u) (content u d) b \<and> held H u t \<and> of_nat b \<in> logged t"
    proof (rule Cons.IH [OF u(2)])
      show "room 2 u" by (rule room_kept [OF Cons.prems(2) u(3)]) simp
      show "bitmap_ok u" using bitmap_ok_cong [OF u(3)] Cons.prems(3,4) u(4) by simp
      show "unheld H u" using unheld_cong [OF u(5,3)] Cons.prems(4,5) u(4) by simp
      show "\<exists>b \<in> set bs. \<exists>i < min BPB (fs_size (sb u) - b). blk_free (sb u) (content u d) (b + i)"
        using Cons.prems(7) no by (auto simp: F u(4))
    qed (use K F Cons.prems in auto)
    then obtain c v where v: "balloc_loop d bs u = Inr (of_nat c, v)" "c < fs_size ?q" "blk_free ?q ?C c" "log_open H v"
      "kept 2 u v" "content v d = allocated ?q ?C c" "held H u v" "of_nat c \<in> logged v" by (auto simp: F u(4))
    have "balloc_loop d (b # bs) s = Inr (of_nat c, v)" using t(1) None u(1) v(1) T bb by (simp add: bnd_def)
    moreover have "kept 2 s v" by (rule kept_trans [OF u(3) v(5)]) simp
    moreover have "held H s v" by (rule held_trans [OF u(5) v(7)])
    ultimately show ?thesis using v by blast
  next
    case (Some bi)
    then have bi: "bi < min BPB (fs_size ?q - b)" "bit_free (b_data (bufs t bp)) bi" using find_member by fastforce+
    then have lt: "b + bi < fs_size ?q" "bi < BPB" by auto
    have free: "blk_free ?q ?C (b + bi)" using bi(2) t(6) bm_block_base [OF b0(1) lt(2), of ?q] by (simp add: blk_free_def)
    obtain u v where v: "log_release bp (set_data bp (set_bit_used (b_data (bufs t bp)) bi) t) = Inr u"
      "bzero d (of_nat (b + bi)) u = Inr v" "log_open H v" "kept 2 s v" "content v d = allocated ?q ?C (b + bi)"
      "held H s v" "of_nat (b + bi) \<in> logged v"
      by (rule balloc_take [OF Cons.prems(1-5) b0(1) lt(2,1) t(2-5,7,8) free t(6)])
    have "balloc_loop d (b # bs) s = Inr (of_nat (b + bi), v)" using t(1) Some v(1,2) T bb by (simp add: bnd_def Let_def)
    then show ?thesis using lt(1) free v(3-7) by blast
  qed
qed simp

lemma balloc_open:
  fixes s :: "'a fkern_scheme"
  assumes "log_open H s" "room 2 s" "bitmap_ok s" "d = lg_dev (lg s)" "unheld H s" "b0 < fs_size (sb s)" "blk_free (sb s) (content s d) b0"
  obtains b t where "balloc d s = Inr (of_nat b, t)" "b < fs_size (sb s)" "blk_free (sb s) (content s d) b" "log_open H t"
    "kept 2 s t" "content t d = allocated (sb s) (content s d) b" "held H s t" "of_nat b \<in> logged t"
proof -
  let ?bs = "map (\<lambda>k. k * BPB) [0..<(fs_size (sb s) + BPB - 1) div BPB]"
  have "b0 div BPB < (fs_size (sb s) + BPB - 1) div BPB" using assms(6) by (simp add: less_eq_div_iff_mult_less_eq less_Suc_eq_le [symmetric] div_less_iff_less_mult)
  then have "b0 div BPB * BPB \<in> set ?bs" by auto
  moreover have "b0 mod BPB < min BPB (fs_size (sb s) - b0 div BPB * BPB)"
    using assms(6) by (simp add: less_diff_conv)
  moreover have "blk_free (sb s) (content s d) (b0 div BPB * BPB + b0 mod BPB)" using assms(7) by simp
  ultimately have "\<exists>b \<in> set ?bs. \<exists>i < min BPB (fs_size (sb s) - b). blk_free (sb s) (content s d) (b + i)" by blast
  moreover have "b mod BPB = 0 \<and> b < fs_size (sb s)" if b: "b \<in> set ?bs" for b
  proof -
    obtain k where k: "b = k * BPB" "k < (fs_size (sb s) + BPB - 1) div BPB" using b by auto
    have "(k + 1) * BPB \<le> fs_size (sb s) + BPB - 1" using k(2) by (simp add: less_eq_div_iff_mult_less_eq [symmetric])
    then show ?thesis using k(1) by simp
  qed
  ultimately obtain b t where "balloc_loop d ?bs s = Inr (of_nat b, t)" "b < fs_size (sb s)" "blk_free (sb s) (content s d) b"
    "log_open H t" "kept 2 s t" "content t d = allocated (sb s) (content s d) b" "held H s t" "of_nat b \<in> logged t"
    using balloc_loop_ok [OF assms(1-5), of ?bs] by blast
  then show ?thesis by (intro that) (simp_all add: balloc_def)
qed

lemma bfree_ok:
  fixes s :: "'a fkern_scheme"
  assumes "log_open {} s" "room 1 s" "d = lg_dev (lg s)" "b < 2 ^ 32" "\<not> in_log s (bm_block (sb s) b)"
    "\<not> blk_free (sb s) (content s d) b"
  obtains t where "bfree d (of_nat b) s = Inr t" "log_open {} t" "kept 1 s t"
    "content t d = (content s d)(bm_block (sb s) b := clear_bit (content s d (bm_block (sb s) b)) (b mod BPB))"
proof -
  let ?k = "bm_block (sb s) b"
  obtain bp t where t: "bread d ?k s = Inr (bp, t)" "b_data (bufs t bp) = content s d ?k" "lkern.more t = lkern.more s"
    "\<And>v. \<exists>u. log_release bp (set_data bp v t) = Inr u \<and> log_open {} u \<and> kept 1 s u \<and> content u d = (content s d)(?k := v)"
    by (rule tx_rmw [OF assms(1,3,5,2)]) (rule that)
  obtain u where u: "log_release bp (set_data bp (clear_bit (content s d ?k) (b mod BPB)) t) = Inr u" "log_open {} u" "kept 1 s u"
    "content u d = (content s d)(?k := clear_bit (content s d ?k) (b mod BPB))" using t(4) by blast
  have "unat (of_nat b :: u32) = b" using assms(4) by (simp add: unsigned_of_nat take_bit_nat_eq_self)
  then have "bfree d (of_nat b) s = Inr u"
    using t(1,2) u(1) assms(6) BBLOCK_nat [OF assms(4)] by (simp add: bfree_def bnd_def Let_def blk_free_def)
  then show ?thesis using that u by blast
qed

text \<open>An example: 200 blocks, the log at block 2, the bitmap in block 45 with the blocks below 120 in
  use, inode 1 a file of 2000 bytes in the blocks 110 and 111, inode 2 a directory of two free
  entries in block 112, and inode 3 an empty directory.\<close>

definition fs_ex :: fkern where
  "fs_ex = (disk_ex (lkern_ext (lg (binit log_ex)) (fkern_ext
       \<lparr>sb_magic = FSMAGIC, sb_size = 200, sb_nblocks = 100, sb_ninodes = 16, sb_nlog = 30, sb_logstart = 2,
        sb_inodestart = 32, sb_bmapstart = 45\<rparr>
       (\<lambda>ip. \<lparr>i_dev = 1, i_inum = (if ip = 2 then 2 else if ip = 3 then 3 else 1), i_ref = 1, i_lock = initsleeplock, i_valid = True,
         i_type = (if ip = 2 \<or> ip = 3 then T_DIR else T_FILE), i_major = 0, i_minor = 0, i_nlink = 1,
         i_size = (if ip = 2 then 32 else if ip = 3 then 0 else 2000),
         i_addrs = (if ip = 2 then (\<lambda>_. 0)(0 := 112) else if ip = 3 then (\<lambda>_. 0) else (\<lambda>_. 0)(0 := 110, 1 := 111))\<rparr>) ())))
     \<lparr>disk := (\<lambda>_. replicate BSIZE 0)(45 := replicate 15 255 @ replicate 1009 0)\<rparr>"

lemma fs_ex_sel:
  "lg (binit fs_ex) = lg (binit log_ex)" "sb (binit fs_ex) = sb fs_ex" "sb_size (sb fs_ex) = 200" "sb_bmapstart (sb fs_ex) = 45"
  "disk (binit fs_ex) = (\<lambda>_. replicate BSIZE 0)(45 := replicate 15 255 @ replicate 1009 0)"
  "itable (binit fs_ex) = itable fs_ex" "sb_inodestart (sb fs_ex) = 32"
  "itable fs_ex 0 = \<lparr>i_dev = 1, i_inum = 1, i_ref = 1, i_lock = initsleeplock, i_valid = True, i_type = T_FILE, i_major = 0,
     i_minor = 0, i_nlink = 1, i_size = 2000, i_addrs = (\<lambda>_. 0)(0 := 110, 1 := 111)\<rparr>"
  "itable fs_ex 2 = \<lparr>i_dev = 1, i_inum = 2, i_ref = 1, i_lock = initsleeplock, i_valid = True, i_type = T_DIR, i_major = 0,
     i_minor = 0, i_nlink = 1, i_size = 32, i_addrs = (\<lambda>_. 0)(0 := 112)\<rparr>"
  "itable fs_ex 3 = \<lparr>i_dev = 1, i_inum = 3, i_ref = 1, i_lock = initsleeplock, i_valid = True, i_type = T_DIR, i_major = 0,
     i_minor = 0, i_nlink = 1, i_size = 0, i_addrs = (\<lambda>_. 0)\<rparr>"
proof -
  have "lg s = lg t \<and> sb s = sb t \<and> itable s = itable t" if "bkern.more s = bkern.more t" for s t :: fkern using that by (cases s; cases t) simp
  from this [OF binit_state(4)] show "lg (binit fs_ex) = lg (binit log_ex)" "sb (binit fs_ex) = sb fs_ex"
    "itable (binit fs_ex) = itable fs_ex" by (simp_all add: fs_ex_def disk_ex_def)
qed (simp_all add: fs_ex_def disk_ex_def binit_state)

lemma fs_ex_busy: "busy 1 {} {} (binit fs_ex)"
  by (rule binit_busy [of _ 1]) (simp_all add: fs_ex_def disk_ex_def myproc_def sched_ex_procs)

lemma fs_ex_content: "content (binit fs_ex) 1 = disk (binit fs_ex)"
  using busy_content_disk [OF fs_ex_busy] by auto

lemma fs_ex_open: "log_open {} (binit fs_ex)" "room 20 (binit fs_ex)"
proof -
  have "get32 (replicate BSIZE 0) 0 = 0" by (simp add: get32_def) (simp add: eval_nat_numeral)
  then show "log_open {} (binit fs_ex)" using fs_ex_busy by (simp add: log_open_def fs_ex_sel log_ex_sel head_at_def)
  show "room 20 (binit fs_ex)" by (simp add: room_def fs_ex_sel log_ex_sel)
qed

lemma fs_ex_free: "b < 200 \<Longrightarrow> blk_free (sb fs_ex) (content (binit fs_ex) 1) b \<longleftrightarrow> 120 \<le> b"
proof -
  assume b: "b < 200"
  have nth: "(replicate 15 255 @ replicate 1009 0) ! (b div 8) = (if b div 8 < 15 then 255 else 0 :: byte)" using b by (simp add: nth_append)
  have "bit (mask 8 :: byte) (b mod 8)" by (simp only: bit_mask_iff possible_bit_word) simp
  then have "bit (255 :: byte) (b mod 8)" by (simp add: mask_eq_exp_minus_1)
  then show ?thesis using b nth by (auto simp: blk_free_def fs_ex_content fs_ex_sel bm_block_def bit_free_iff)
qed

lemma fs_ex_bitmap: "bitmap_ok (binit fs_ex)"
proof -
  have out: "\<not> in_log (binit fs_ex) k" if "32 \<le> uint k" for k
    using in_log_below [of "binit fs_ex" k] that by (auto simp: fs_ex_sel log_ex_sel)
  have u: "uint (of_nat b :: u32) = int b" if "b < 200" for b using that by (simp add: uint_nat unsigned_of_nat take_bit_nat_eq_self)
  have "(of_nat b :: u32) \<noteq> 45" if "b < 200" "120 \<le> b" for b using u [OF that(1)] that(2) by auto
  moreover have "\<not> in_log (binit fs_ex) (of_nat b)" if "b < 200" "120 \<le> b" for b using out u that by simp
  moreover have "length (content (binit fs_ex) 1 45) = BSIZE" by (simp add: fs_ex_content fs_ex_sel)
  ultimately show ?thesis
    using out [of 45] by (auto simp: bitmap_ok_def Let_def fs_ex_sel log_ex_sel bm_block_def fs_ex_free)
qed

section \<open>Properties\<close>

text \<open>C38.  \<^verbatim>\<open>balloc\<close> takes a block that the bitmap says is free: it marks this block and no
  other, fills it with zeroes, and changes nothing else on the disk.  \<^verbatim>\<open>bfree\<close> of the block
  returns and restores the bitmap.\<close>

theorem balloc_bfree:
  fixes s :: "'a fkern_scheme"
  assumes s: "log_open {} s" "room 3 s" "bitmap_ok s" and d: "d = lg_dev (lg s)"
    and "b0 < fs_size (sb s)" "blk_free (sb s) (content s d) b0"
  shows "\<exists>b t u. balloc d s = Inr (of_nat b, t) \<and> b < fs_size (sb s) \<and> blk_free (sb s) (content s d) b \<and>
    (\<forall>c < fs_size (sb s). blk_free (sb s) (content t d) c \<longleftrightarrow> blk_free (sb s) (content s d) c \<and> c \<noteq> b) \<and>
    content t d (of_nat b) = replicate BSIZE 0 \<and>
    (\<forall>k. k \<noteq> of_nat b \<longrightarrow> k \<noteq> bm_block (sb s) b \<longrightarrow> content t d k = content s d k) \<and>
    bfree d (of_nat b) t = Inr u \<and>
    (\<forall>c < fs_size (sb s). blk_free (sb s) (content u d) c \<longleftrightarrow> blk_free (sb s) (content s d) c)"
proof -
  let ?q = "sb s" and ?C = "content s d"
  obtain b t where t: "balloc d s = Inr (of_nat b, t)" "b < fs_size ?q" "blk_free ?q ?C b" "log_open {} t" "kept 2 s t"
    "content t d = allocated ?q ?C b"
    by (rule balloc_open [OF s(1) _ s(3) d unheld_empty assms(5,6)]) (use s(2) in \<open>auto simp: room_def intro: that\<close>)
  note O = s(3) [unfolded bitmap_ok_def Let_def, folded d] and K = keptD [OF t(5)] and F = more_fs [OF keptD(6) [OF t(5)]]
  have b32: "b < 2 ^ 32" using t(2) unsigned_less [of "sb_size ?q", where ?'a = nat] by simp
  have ne: "bm_block ?q c \<noteq> of_nat b" if "c < fs_size ?q" for c using O t(2,3) that by blast
  have len: "length (?C (bm_block ?q b)) = BSIZE"
    and inj: "\<And>c. c < fs_size ?q \<Longrightarrow> bm_block ?q b = bm_block ?q c \<Longrightarrow> b div BPB = c div BPB" using O t(2) by blast+
  have ft: "blk_free ?q (content t d) c \<longleftrightarrow> blk_free ?q ?C c \<and> c \<noteq> b" if "c < fs_size ?q" for c
    using blk_free_set(1) [of ?C ?q b c, OF len inj that] ne [OF that] by (simp add: t(6) allocated_def blk_free_def)
  let ?k = "bm_block ?q b"
  obtain u where u: "bfree d (of_nat b) t = Inr u" "content u d = (content t d)(?k := clear_bit (content t d ?k) (b mod BPB))"
    by (rule bfree_ok [OF t(4), of d b, unfolded F])
      (use room_kept [OF s(2) t(5), of 1] K d b32 O t(2) ft in auto)
  have lt: "length (content t d ?k) = BSIZE" using len ne [OF t(2)] by (simp add: t(6) allocated_def)
  have fu: "blk_free ?q (content u d) c \<longleftrightarrow> blk_free ?q ?C c" if "c < fs_size ?q" for c
    using blk_free_set(2) [of "content t d" ?q b c, OF lt inj that] ft [OF that] t(3) unfolding u(2) by auto
  show ?thesis using t ft fu u(1) by (intro exI [of _ b] exI [of _ t] exI [of _ u]) (simp add: allocated_def)
qed

theorem balloc_bfree_witness:
  "\<exists>b t u. balloc 1 (binit fs_ex) = Inr (of_nat b, t) \<and> 120 \<le> b \<and> b < 200 \<and> \<not> blk_free (sb fs_ex) (content t 1) b \<and>
    bfree 1 (of_nat b) t = Inr u \<and> blk_free (sb fs_ex) (content u 1) b"
proof -
  have "room 3 (binit fs_ex)" using fs_ex_open(2) by (simp add: room_def)
  moreover have "1 = lg_dev (lg (binit fs_ex))" by (simp add: fs_ex_sel log_ex_sel)
  moreover have "120 < fs_size (sb (binit fs_ex))" by (simp add: fs_ex_sel)
  moreover have "blk_free (sb (binit fs_ex)) (content (binit fs_ex) 1) 120" by (simp add: fs_ex_sel fs_ex_free)
  ultimately obtain b t u where b: "balloc 1 (binit fs_ex) = Inr (of_nat b, t)" "b < fs_size (sb (binit fs_ex))"
    "blk_free (sb (binit fs_ex)) (content (binit fs_ex) 1) b" "\<not> blk_free (sb (binit fs_ex)) (content t 1) b"
    "bfree 1 (of_nat b) t = Inr u" "blk_free (sb (binit fs_ex)) (content u 1) b"
    using balloc_bfree [OF fs_ex_open(1) _ fs_ex_bitmap, of 1 120] by blast
  have lt: "b < 200" using b(2) by (simp add: fs_ex_sel)
  have "120 \<le> b" using b(3) fs_ex_free [OF lt] unfolding fs_ex_sel by blast
  then show ?thesis using b lt unfolding fs_ex_sel by blast
qed

end
