(* ===== verification/Inodes.thy ===== *)
theory Inodes
  imports Blocks
begin

text \<open>
  Inodes, file contents, directories and path names: the encoding of inodes on the disk, what
  \<^verbatim>\<open>readi\<close> returns, what \<^verbatim>\<open>dirlookup\<close> finds, and how \<^verbatim>\<open>skipelem\<close> cuts a path.  Writing is the
  matter of \<^verbatim>\<open>Growth\<close>.
\<close>

section \<open>Inodes on the disk\<close>

lemma take_drop_concat:
  assumes "\<And>i. length (f i) = m" "i < n"
  shows "take m (drop (m * i) (concat (map f [0..<n]))) = f i"
proof -
  have len: "length (concat (map f [0..<j])) = m * j" for j using assms(1) by (induction j) auto
  have "[0..<n] = [0..<i] @ i # [Suc i..<n]" using assms(2) by (metis less_imp_le_nat upt_add_eq_append upt_conv_Cons le_add_diff_inverse zero_le add_0)
  then have "concat (map f [0..<n]) = concat (map f [0..<i]) @ f i @ concat (map f [Suc i..<n])" by simp
  then show ?thesis using len [of i] assms(1) by simp
qed

lemma le_bytes_chunks: "length (le_bytes 4 x) = 4" "length (le_bytes 2 y) = 2"
  by simp_all

text \<open>What \<^verbatim>\<open>ilock\<close> loads depends on the 64 bytes of the inode only.\<close>

lemma of_dinode_take: "of_dinode (dec_dinode (take 64 bs)) y = of_dinode (dec_dinode bs) y"
proof -
  have g4: "get32 (take 64 bs) off = get32 bs off" if "off + 4 \<le> 64" for off
    using that by (simp add: get32_def drop_take min_def)
  have g2: "get16 (take 64 bs) off = get16 bs off" if "off + 2 \<le> 64" for off
    using that by (simp add: get16_def drop_take min_def)
  show ?thesis by (auto simp: of_dinode_def dec_dinode_def g4 g2 intro!: inode.equality)
qed

lemma enc_length: "length (enc_dinode di) = 64"
proof -
  have "length (concat (map (\<lambda>i. le_bytes 4 (f i :: u32)) [0..<n])) = 4 * n" for f n by (induction n) auto
  from this [of "d_addrs di" "NDIRECT + 1"] show ?thesis by (simp add: enc_dinode_def del: upt_Suc)
qed

lemma dec_enc: "of_dinode (dec_dinode (enc_dinode di)) y = of_dinode di y"
proof -
  let ?A = "concat (map (\<lambda>i. le_bytes 4 (d_addrs di i)) [0..<NDIRECT + 1])"
  have "get32 (enc_dinode di) (12 + 4 * i) = d_addrs di i" if "i \<le> NDIRECT" for i
  proof -
    have "drop (12 + 4 * i) (enc_dinode di) = drop (4 * i) ?A" by (simp add: enc_dinode_def del: upt_Suc)
    then show ?thesis using take_drop_concat [of "\<lambda>i. le_bytes 4 (d_addrs di i)" 4 i "NDIRECT + 1"] that
      by (simp add: get32_def le_word_bytes del: upt_Suc)
  qed
  moreover have "get16 (enc_dinode di) 0 = d_type di" "get16 (enc_dinode di) 2 = d_major di" "get16 (enc_dinode di) 4 = d_minor di"
    "get16 (enc_dinode di) 6 = d_nlink di" "get32 (enc_dinode di) 8 = d_size di"
    by (simp_all add: enc_dinode_def get16_def get32_def le_word_bytes del: upt_Suc)
  ultimately show ?thesis by (auto simp: of_dinode_def dec_dinode_def intro!: inode.equality)
qed

lemma put_here: "off + length bs \<le> length d \<Longrightarrow> take (length bs) (drop off (put d off bs)) = bs"
  by (simp add: put_def)

lemma put_there:
  assumes "off + length bs \<le> length d" "i + n \<le> off \<or> off + length bs \<le> i" "i + n \<le> length d"
  shows "take n (drop i (put d off bs)) = take n (drop i d)"
  using assms by (intro nth_equalityI) (auto simp: put_nth)

lemma get32_put32:
  assumes "off + 4 \<le> length d" "off' + 4 \<le> length d" "off' + 4 \<le> off \<or> off + 4 \<le> off' \<or> off' = off"
  shows "get32 (put32 d off v) off' = (if off' = off then v else get32 d off')"
proof (cases "off' = off")
  case True
  then show ?thesis using put_here [of off "le_bytes 4 v" d] assms by (simp add: get32_def put32_def le_word_bytes)
next
  case False
  then show ?thesis using put_there [of off "le_bytes 4 v" d off' 4] assms by (simp add: get32_def put32_def)
qed

text \<open>The inode numbered \<open>i\<close> as \<^verbatim>\<open>ilock\<close> loads it into the table entry \<open>y\<close>.\<close>

definition loaded :: "superblock \<Rightarrow> (u32 \<Rightarrow> byte list) \<Rightarrow> u32 \<Rightarrow> inode \<Rightarrow> inode" where
  "loaded q C i y = of_dinode (dec_dinode (drop (dinode_off i) (C (IBLOCK i q)))) y"

lemma dinode_off_bound: "dinode_off i + 64 \<le> BSIZE"
  by (simp add: dinode_off_def)

lemma dinode_off_disjoint:
  assumes "IBLOCK i q = IBLOCK j q" "i \<noteq> j"
  shows "dinode_off i + 64 \<le> dinode_off j \<or> dinode_off j + 64 \<le> dinode_off i"
proof -
  have "i div 16 = j div 16" using assms(1) by (simp add: IBLOCK_def)
  then have "unat (i div 16) = unat (j div 16)" by simp
  then have "unat i div 16 = unat j div 16" by (simp add: unat_div_distrib)
  moreover have "unat i \<noteq> unat j" using assms(2) unsigned_word_eqI by blast
  ultimately have "unat i mod 16 \<noteq> unat j mod 16" by (metis div_mult_mod_eq)
  then show ?thesis by (auto simp: dinode_off_def)
qed

lemma iupdate_ok:
  fixes s :: "'a fkern_scheme"
  assumes "log_open {} s" "room 1 s" "i_dev (itable s ip) = lg_dev (lg s)" "i = i_inum (itable s ip)" "\<not> in_log s (IBLOCK i (sb s))"
  obtains t where "iupdate ip s = Inr t" "log_open {} t" "kept 1 s t"
    "content t (lg_dev (lg s)) = (content s (lg_dev (lg s)))(IBLOCK i (sb s) :=
       put (content s (lg_dev (lg s)) (IBLOCK i (sb s))) (dinode_off i) (enc_dinode (to_dinode (itable s ip))))"
proof -
  let ?d = "lg_dev (lg s)" and ?k = "IBLOCK i (sb s)"
  obtain bp t where t: "bread ?d ?k s = Inr (bp, t)" "b_data (bufs t bp) = content s ?d ?k" "lkern.more t = lkern.more s"
    "\<And>v. \<exists>u. log_release bp (set_data bp v t) = Inr u \<and> log_open {} u \<and> kept 1 s u \<and> content u ?d = (content s ?d)(?k := v)"
    by (rule tx_rmw [OF assms(1) refl assms(5,2)]) (rule that)
  note F = more_fs [OF t(3)]
  from t(4) [of "put (content s ?d ?k) (dinode_off i) (enc_dinode (to_dinode (itable s ip)))"] that show ?thesis
    using t(1,2) assms(3,4) by (auto simp: iupdate_def bnd_def F)
qed

section \<open>File contents\<close>

text \<open>The block of the disk with block \<open>bn\<close> of the file, and byte \<open>i\<close> of the file.\<close>

definition fblk :: "inode \<Rightarrow> (u32 \<Rightarrow> byte list) \<Rightarrow> nat \<Rightarrow> u32" where
  "fblk x C bn = (if bn < NDIRECT then i_addrs x bn else get32 (C (i_addrs x NDIRECT)) (4 * (bn - NDIRECT)))"

definition fbyte :: "inode \<Rightarrow> (u32 \<Rightarrow> byte list) \<Rightarrow> nat \<Rightarrow> byte" where
  "fbyte x C i = C (fblk x C (i div BSIZE)) ! (i mod BSIZE)"

text \<open>The first \<open>nb\<close> blocks of the file exist, are different, and differ from the indirect block.\<close>

definition file_ok :: "inode \<Rightarrow> (u32 \<Rightarrow> byte list) \<Rightarrow> nat \<Rightarrow> bool" where
  "file_ok x C nb \<longleftrightarrow> nb \<le> MAXFILE \<and> (\<forall>bn < nb. fblk x C bn \<noteq> 0 \<and> length (C (fblk x C bn)) = BSIZE) \<and>
     inj_on (fblk x C) {..<nb} \<and>
     (NDIRECT < nb \<longrightarrow> i_addrs x NDIRECT \<noteq> 0 \<and> (\<forall>bn < nb. fblk x C bn \<noteq> i_addrs x NDIRECT))"

lemma bmap_ok:
  fixes s :: "'a fkern_scheme"
  assumes "log_open {} s" "x = itable s ip" "i_dev x = lg_dev (lg s)" "C = content s (lg_dev (lg s))" "file_ok x C nb" "bn < nb"
  obtains t where "bmap ip bn s = Inr (fblk x C bn, t)" "log_open {} t" "kept 0 s t" "content t (lg_dev (lg s)) = C"
proof (cases "bn < NDIRECT")
  case True
  have "fblk x C bn = i_addrs (itable s ip) bn" "fblk x C bn \<noteq> 0" using True assms(2,5,6) by (auto simp: fblk_def file_ok_def)
  then have "bmap ip bn s = Inr (fblk x C bn, s)" using True by (simp add: bmap_def Let_def)
  then show ?thesis using that assms(1,4) kept_refl by blast
next
  case False
  let ?d = "lg_dev (lg s)" and ?k = "i_addrs x NDIRECT"
  have k: "?k \<noteq> 0" "bn - NDIRECT < NINDIRECT" "fblk x C bn \<noteq> 0" using assms(5,6) False by (auto simp: file_ok_def)
  obtain b t where t: "bread ?d ?k s = Inr (b, t)" "log_open {b} t" "kept 0 s t" "b_data (bufs t b) = content s ?d ?k"
    "\<exists>u. brelse b t = Inr u \<and> log_open {} u \<and> kept 0 s u \<and> content u ?d = content s ?d"
    by (rule tx_read [OF assms(1) refl, of ?k]) (rule that)
  then obtain u where u: "brelse b t = Inr u" "log_open {} u" "kept 0 s u" "content u ?d = content s ?d" by blast
  have "get32 (b_data (bufs t b)) (4 * (bn - NDIRECT)) = fblk x C bn" using False t(4) assms(4) by (simp add: fblk_def)
  moreover have "i_addrs (itable s ip) NDIRECT \<noteq> 0" "bread (i_dev (itable s ip)) (i_addrs (itable s ip) NDIRECT) s = Inr (b, t)"
    using k(1) t(1) assms(2,3) by simp_all
  ultimately have "bmap ip bn s = Inr (fblk x C bn, u)"
    using False k(2,3) u(1) by (simp add: bmap_def Let_def bnd_def)
  then show ?thesis using that u assms(4) by simp
qed

lemma block_pos:
  assumes "off mod BSIZE + i < BSIZE"
  shows "(off + i) div BSIZE = off div BSIZE" "(off + i) mod BSIZE = off mod BSIZE + i"
proof -
  have e: "off + i = BSIZE * (off div BSIZE) + (off mod BSIZE + i)" by simp
  have "(BSIZE * q + t) div BSIZE = q \<and> (BSIZE * q + t) mod BSIZE = t" if "t < BSIZE" for q t :: nat using that by simp
  from this [OF assms, of "off div BSIZE"] show "(off + i) div BSIZE = off div BSIZE" "(off + i) mod BSIZE = off mod BSIZE + i"
    unfolding e [symmetric] by blast+
qed

lemma fbytes_block:
  assumes "length (C (fblk x C (off div BSIZE))) = BSIZE" "m \<le> BSIZE - off mod BSIZE"
  shows "take m (drop (off mod BSIZE) (C (fblk x C (off div BSIZE)))) = map (fbyte x C) [off..<off + m]"
proof (rule nth_equalityI)
  have lt: "off mod BSIZE < BSIZE" by simp
  show "length (take m (drop (off mod BSIZE) (C (fblk x C (off div BSIZE))))) = length (map (fbyte x C) [off..<off + m])"
    using assms lt by simp
  fix i assume "i < length (take m (drop (off mod BSIZE) (C (fblk x C (off div BSIZE)))))"
  then have i: "i < m" "off mod BSIZE + i < BSIZE" using assms lt by auto
  have "(off + i) div BSIZE = off div BSIZE" "(off + i) mod BSIZE = off mod BSIZE + i" using block_pos [OF i(2)] by simp_all
  then show "take m (drop (off mod BSIZE) (C (fblk x C (off div BSIZE)))) ! i = map (fbyte x C) [off..<off + m] ! i"
    using i assms by (simp add: fbyte_def)
qed

lemma readi_loop_ok:
  fixes s :: "'a fkern_scheme"
  assumes "log_open {} s" "x = itable s ip" "i_dev x = lg_dev (lg s)" "C = content s (lg_dev (lg s))" "file_ok x C nb"
    "off + (n - tot) \<le> nb * BSIZE" "tot \<le> n"
  shows "\<exists>t. readi_loop ip VDst off n tot acc s = Inr (int n, acc @ map (fbyte x C) [off..<off + (n - tot)], t) \<and>
    log_open {} t \<and> kept 0 s t \<and> content t (lg_dev (lg s)) = C"
  using assms
proof (induction "n - tot" arbitrary: off tot acc s rule: less_induct)
  case less
  let ?d = "lg_dev (lg s)" and ?bn = "off div BSIZE"
  show ?case
  proof (cases "tot = n")
    case True
    then show ?thesis using less.prems by (subst readi_loop.simps) (simp add: kept_refl)
  next
    case False
    define m where "m = min (n - tot) (BSIZE - off mod BSIZE)"
    have m: "0 < m" "m \<le> n - tot" "m \<le> BSIZE - off mod BSIZE" using False less.prems(7) by (auto simp: m_def)
    have bn: "?bn < nb" using less.prems(6,7) False by (simp add: div_less_iff_less_mult)
    obtain u where u: "bmap ip ?bn s = Inr (fblk x C ?bn, u)" "log_open {} u" "kept 0 s u" "content u ?d = C"
      by (rule bmap_ok [OF less.prems(1-5) bn])
    note U = keptD [OF u(3)] more_fs [OF keptD(6) [OF u(3)]]
    have blk: "fblk x C ?bn \<noteq> 0" "length (C (fblk x C ?bn)) = BSIZE" using less.prems(5) bn by (auto simp: file_ok_def)
    obtain b v where v: "bread ?d (fblk x C ?bn) u = Inr (b, v)" "kept 0 u v" "b_data (bufs v b) = C (fblk x C ?bn)"
      "\<exists>w. brelse b v = Inr w \<and> log_open {} w \<and> kept 0 u w \<and> content w ?d = C"
      by (rule tx_read [OF u(2), of ?d "fblk x C ?bn"]) (use U(1) u(4) in \<open>auto intro: that\<close>)
    then obtain w where w: "brelse b v = Inr w" "log_open {} w" "kept 0 u w" "content w ?d = C" by blast
    have sw: "kept 0 s w" by (rule kept_trans [OF u(3) w(3)]) simp
    note W = keptD [OF sw] more_fs [OF keptD(6) [OF sw]]
    let ?bs = "map (fbyte x C) [off..<off + m]"
    have bs: "take m (drop (off mod BSIZE) (b_data (bufs v b))) = ?bs" using fbytes_block [of C x off m, OF blk(2) m(3)] v(3) by simp
    have step: "readi_loop ip VDst off n tot acc s = readi_loop ip VDst (off + m) n (tot + m) (acc @ ?bs) w"
      using False less.prems(2,3,7) u(1) v(1) w(1) blk(1) bs U(9)
      by (subst readi_loop.simps) (simp add: bnd_def Let_def m_def [symmetric])
    have "\<exists>t. readi_loop ip VDst (off + m) n (tot + m) (acc @ ?bs) w =
        Inr (int n, (acc @ ?bs) @ map (fbyte x C) [off + m..<off + m + (n - (tot + m))], t) \<and>
        log_open {} t \<and> kept 0 w t \<and> content t (lg_dev (lg w)) = C"
      by (rule less.hyps) (use m less.prems(2,3,5-7) w(2,4) W in auto)
    moreover have "?bs @ map (fbyte x C) [off + m..<off + m + (n - (tot + m))] = map (fbyte x C) [off..<off + (n - tot)]"
    proof -
      have e: "off + m + (n - (tot + m)) = off + (n - tot)" using m(2) by simp
      show ?thesis using upt_add_eq_append [of off "off + m" "n - (tot + m)"] unfolding e by simp
    qed
    ultimately obtain t where t: "readi_loop ip VDst off n tot acc s = Inr (int n, acc @ map (fbyte x C) [off..<off + (n - tot)], t)"
      "log_open {} t" "kept 0 w t" "content t ?d = C" using step W(1) by auto
    moreover have "kept 0 s t" by (rule kept_trans [OF sw t(3)]) simp
    ultimately show ?thesis by blast
  qed
qed

section \<open>Reading files\<close>

definition fsize_blocks :: "inode \<Rightarrow> nat" where
  "fsize_blocks x = (unat (i_size x) + 1023) div BSIZE"

lemma fsize_blocks_le: "unat (i_size x) \<le> fsize_blocks x * BSIZE"
  by (simp add: fsize_blocks_def)

lemma readi_ok:
  fixes s :: "'a fkern_scheme"
  assumes "log_open {} s" "x = itable s ip" "i_dev x = lg_dev (lg s)" "C = content s (lg_dev (lg s))" "file_ok x C (fsize_blocks x)"
    "unat off + n \<le> unat (i_size x)"
  shows "\<exists>t. readi ip VDst off (of_nat n) s = Inr (int n, map (fbyte x C) [unat off..<unat off + n], t) \<and>
    log_open {} t \<and> kept 0 s t \<and> content t (lg_dev (lg s)) = C"
proof -
  have lt: "unat (i_size x) < 2 ^ 32" using unsigned_less [of "i_size x", where ?'a = nat] by simp
  have n: "unat (of_nat n :: u32) = n" using assms(6) lt by (simp add: unsigned_of_nat take_bit_nat_eq_self)
  have sum: "unat (off + of_nat n) = unat off + n" using assms(6) lt n by (simp add: unat_word_ariths)
  have "\<not> off > i_size x" "\<not> off + of_nat n < off" "\<not> off + of_nat n > i_size x"
    using assms(6) sum by (simp_all add: word_less_nat_alt)
  then have "readi ip VDst off (of_nat n) s = readi_loop ip VDst (unat off) n 0 [] s"
    using assms(2) n by (simp add: readi_def)
  moreover have "unat off + (n - 0) \<le> fsize_blocks x * BSIZE" using assms(6) fsize_blocks_le [of x] by simp
  ultimately show ?thesis using readi_loop_ok [OF assms(1-5), of "unat off" n 0 "[]"] by simp
qed

section \<open>Directories\<close>

lemma namecmp_loop_eq:
  "namecmp_loop n p q = 0 \<longleftrightarrow> takeWhile (\<lambda>c. c \<noteq> 0) (take n p) = takeWhile (\<lambda>c. c \<noteq> 0) (take n q)"
proof (induction n p q rule: namecmp_loop.induct)
  case (2 n p q)
  show ?case
  proof (cases "p \<noteq> [] \<and> q \<noteq> [] \<and> hd p \<noteq> 0 \<and> hd p = hd q")
    case True
    then show ?thesis using 2 by (cases p; cases q) auto
  next
    case False
    then show ?thesis
      by (cases p; cases q) (auto simp: Let_def uint_0_iff dest: unsigned_word_eqI sym)
  qed
qed simp

lemma namecmp_eq: "namecmp p q = 0 \<longleftrightarrow> takeWhile (\<lambda>c. c \<noteq> 0) (take DIRSIZ p) = takeWhile (\<lambda>c. c \<noteq> 0) (take DIRSIZ q)"
  unfolding namecmp_def by (rule namecmp_loop_eq)

text \<open>Entry \<open>k\<close> of a directory, and whether it has the given name.\<close>

definition entry :: "inode \<Rightarrow> (u32 \<Rightarrow> byte list) \<Rightarrow> nat \<Rightarrow> byte list" where
  "entry x C k = map (fbyte x C) [16 * k..<16 * k + 16]"

definition named :: "byte list \<Rightarrow> byte list \<Rightarrow> bool" where
  "named name de \<longleftrightarrow> get16 de 0 \<noteq> 0 \<and>
     takeWhile (\<lambda>c. c \<noteq> 0) (take DIRSIZ name) = takeWhile (\<lambda>c. c \<noteq> 0) (take DIRSIZ (drop 2 de))"

definition nents :: "inode \<Rightarrow> nat" where
  "nents x = unat (i_size x) div 16"

lemma dir_offs_ents: "16 dvd unat (i_size x) \<Longrightarrow> dir_offs (i_size x) = map (\<lambda>k. 16 * k) [0..<nents x]"
  by (auto simp: dir_offs_def nents_def elim!: dvdE)

lemma read_entry:
  fixes s :: "'a fkern_scheme"
  assumes "log_open {} s" "x = itable s dp" "i_dev x = lg_dev (lg s)" "C = content s (lg_dev (lg s))" "file_ok x C (fsize_blocks x)"
    "k < nents x"
  obtains t where "readi dp VDst (of_nat (16 * k)) 16 s = Inr (16, entry x C k, t)" "log_open {} t" "kept 0 s t"
    "content t (lg_dev (lg s)) = C"
proof -
  have le: "16 * k + 16 \<le> unat (i_size x)" using assms(6) by (simp add: nents_def)
  have "unat (i_size x) < 2 ^ 32" using unsigned_less [of "i_size x", where ?'a = nat] by simp
  then have o: "unat (of_nat (16 * k) :: u32) = 16 * k" using le by (simp add: unsigned_of_nat take_bit_nat_eq_self del: of_nat_mult)
  from readi_ok [OF assms(1-5), of "of_nat (16 * k)" 16] le o that show ?thesis by (auto simp: entry_def)
qed

text \<open>Running along a directory.\<close>

lemma dirlookup_loop_ok:
  fixes s :: "'a fkern_scheme"
  assumes "log_open {} s" "x = itable s dp" "i_dev x = lg_dev (lg s)" "C = content s (lg_dev (lg s))" "file_ok x C (fsize_blocks x)"
    "\<forall>k \<in> set ks. k < nents x"
  shows "\<exists>t. log_open {} t \<and> kept 0 s t \<and> content t (lg_dev (lg s)) = C \<and>
    dirlookup_loop dp name (map (\<lambda>k. 16 * k) ks) s =
      (case find (\<lambda>k. named name (entry x C k)) ks of
         None \<Rightarrow> Inr (None, t)
       | Some k \<Rightarrow> bnd (iget (lg_dev (lg s)) (ucast (get16 (entry x C k) 0)) t) (\<lambda>(ip, s). Inr (Some (ip, of_nat (16 * k)), s)))"
  using assms
proof (induction ks arbitrary: s)
  case Nil
  then show ?case using kept_refl by fastforce
next
  case (Cons k ks)
  obtain t where t: "readi dp VDst (of_nat (16 * k)) 16 s = Inr (16, entry x C k, t)" "log_open {} t" "kept 0 s t"
    "content t (lg_dev (lg s)) = C"
    by (rule read_entry [OF Cons.prems(1-5), of k]) (use Cons.prems(6) in auto)
  note T = keptD [OF t(3)] more_fs [OF keptD(6) [OF t(3)]]
  show ?case
  proof (cases "named name (entry x C k)")
    case True
    then have "get16 (entry x C k) 0 \<noteq> 0" "namecmp name (drop 2 (entry x C k)) = 0" by (simp_all add: named_def namecmp_eq)
    then show ?thesis using t T(9) Cons.prems(2,3) True by (intro exI [of _ t]) (simp add: bnd_def)
  next
    case False
    then have "get16 (entry x C k) 0 = 0 \<or> namecmp name (drop 2 (entry x C k)) \<noteq> 0" by (simp add: named_def namecmp_eq)
    then have step: "dirlookup_loop dp name (map (\<lambda>k. 16 * k) (k # ks)) s = dirlookup_loop dp name (map (\<lambda>k. 16 * k) ks) t"
      using t(1) by (auto simp: bnd_def)
    obtain u where u: "log_open {} u" "kept 0 t u" "content u (lg_dev (lg t)) = C" "dirlookup_loop dp name (map (\<lambda>k. 16 * k) ks) t =
      (case find (\<lambda>k. named name (entry x C k)) ks of
         None \<Rightarrow> Inr (None, u)
       | Some k \<Rightarrow> bnd (iget (lg_dev (lg t)) (ucast (get16 (entry x C k) 0)) u) (\<lambda>(ip, s). Inr (Some (ip, of_nat (16 * k)), s)))"
      using Cons.IH [OF t(2)] T Cons.prems(2,3,5,6) t(4) by auto
    have "kept 0 s u" by (rule kept_trans [OF t(3) u(2)]) simp
    then show ?thesis using u(1,3) False unfolding step u(4) T(1) by (intro exI [of _ u]) simp
  qed
qed

lemma dirlink_loop_ok:
  fixes s :: "'a fkern_scheme"
  assumes "log_open {} s" "x = itable s dp" "i_dev x = lg_dev (lg s)" "C = content s (lg_dev (lg s))" "file_ok x C (fsize_blocks x)"
    "\<forall>k \<in> set ks. k < nents x"
  shows "\<exists>t. log_open {} t \<and> kept 0 s t \<and> content t (lg_dev (lg s)) = C \<and>
    dirlink_loop dp (map (\<lambda>k. 16 * k) ks) s = Inr (map_option (\<lambda>k. 16 * k) (find (\<lambda>k. get16 (entry x C k) 0 = 0) ks), t)"
  using assms
proof (induction ks arbitrary: s)
  case Nil
  then show ?case using kept_refl by fastforce
next
  case (Cons k ks)
  obtain t where t: "readi dp VDst (of_nat (16 * k)) 16 s = Inr (16, entry x C k, t)" "log_open {} t" "kept 0 s t"
    "content t (lg_dev (lg s)) = C"
    by (rule read_entry [OF Cons.prems(1-5), of k]) (use Cons.prems(6) in auto)
  note T = keptD [OF t(3)] more_fs [OF keptD(6) [OF t(3)]]
  show ?case
  proof (cases "get16 (entry x C k) 0 = 0")
    case True
    then show ?thesis using t by (intro exI [of _ t]) (simp add: bnd_def)
  next
    case False
    obtain u where u: "log_open {} u" "kept 0 t u" "content u (lg_dev (lg t)) = C" "dirlink_loop dp (map (\<lambda>k. 16 * k) ks) t =
        Inr (map_option (\<lambda>k. 16 * k) (find (\<lambda>k. get16 (entry x C k) 0 = 0) ks), u)"
      using Cons.IH [OF t(2)] T Cons.prems(2,3,5,6) t(4) by auto
    have "kept 0 s u" by (rule kept_trans [OF t(3) u(2)]) simp
    then show ?thesis using u t(1) T(1) False by (intro exI [of _ u]) (simp add: bnd_def)
  qed
qed

lemma name_take: "0 \<notin> set name \<Longrightarrow> takeWhile (\<lambda>c. c \<noteq> 0) (take n name) = take n name"
  by (auto simp: takeWhile_eq_all_conv dest: in_set_takeD)

lemma dirent_props:
  assumes "0 \<notin> set name" "inum \<noteq> 0"
  shows "length (dirent inum name) = 16" "get16 (dirent inum name) 0 = inum" "named name (dirent inum name)"
proof -
  let ?n = "take DIRSIZ (name @ replicate DIRSIZ 0)"
  have w: "takeWhile (\<lambda>c. c \<noteq> 0) name = name" using assms(1) by (auto simp: takeWhile_eq_all_conv)
  note z = name_take [OF assms(1), of DIRSIZ]
  have n: "takeWhile (\<lambda>c. c \<noteq> 0) (take DIRSIZ ?n) = take DIRSIZ name"
    using z by (auto simp: takeWhile_append)
  have e: "dirent inum name = le_bytes 2 inum @ ?n" by (simp only: dirent_def w)
  show "length (dirent inum name) = 16" "get16 (dirent inum name) 0 = inum" by (simp_all add: e get16_def le_word_bytes)
  moreover have "drop 2 (dirent inum name) = ?n" by (simp add: e)
  ultimately show "named name (dirent inum name)" using assms(2) unfolding named_def by (simp only: n z) simp
qed

section \<open>Path elements\<close>

text \<open>The names the loop of \<^verbatim>\<open>namex\<close> takes from a path, and the text between the slashes of the path.\<close>

function path_elems :: "byte list \<Rightarrow> byte list list" where
  "path_elems p = (case skipelem p of None \<Rightarrow> [] | Some (name, rest) \<Rightarrow> name # path_elems rest)"
  by pat_completeness auto
termination by (relation "measure length") (auto intro: skipelem_shorter)

declare path_elems.simps [simp del]

fun split_path :: "byte list \<Rightarrow> byte list list" where
  "split_path [] = [[]]"
| "split_path (c # p) = (if c = SLASH then [] # split_path p else (c # hd (split_path p)) # tl (split_path p))"

definition elems :: "byte list \<Rightarrow> byte list list" where
  "elems p = filter (\<lambda>e. e \<noteq> []) (split_path p)"

lemma split_path_first:
  "split_path p = takeWhile (\<lambda>c. c \<noteq> SLASH) p #
     (case dropWhile (\<lambda>c. c \<noteq> SLASH) p of [] \<Rightarrow> [] | _ # r \<Rightarrow> split_path r)"
  by (induction p) auto

lemma elems_slashes: "elems (dropWhile (\<lambda>c. c = SLASH) p) = elems p"
  by (induction p) (auto simp: elems_def)

lemma elems_first:
  assumes "p \<noteq> []" "hd p \<noteq> SLASH"
  shows "elems p = takeWhile (\<lambda>c. c \<noteq> SLASH) p # elems (dropWhile (\<lambda>c. c \<noteq> SLASH) p)"
proof -
  let ?r = "dropWhile (\<lambda>c. c \<noteq> SLASH) p"
  have "takeWhile (\<lambda>c. c \<noteq> SLASH) p \<noteq> []" using assms by (cases p) auto
  moreover have "elems ?r = filter (\<lambda>e. e \<noteq> []) (case ?r of [] \<Rightarrow> [] | _ # r \<Rightarrow> split_path r)"
    using hd_dropWhile [of "\<lambda>c. c \<noteq> SLASH" p] by (cases ?r) (auto simp: elems_def simp del: dropWhile_eq_Nil_conv)
  ultimately show ?thesis using split_path_first [of p] by (simp add: elems_def)
qed

lemma skipelem_elems:
  "elems p = (case skipelem p of None \<Rightarrow> [] | Some (name, rest) \<Rightarrow>
     takeWhile (\<lambda>c. c \<noteq> SLASH) (dropWhile (\<lambda>c. c = SLASH) p) # elems rest)"
proof (cases "dropWhile (\<lambda>c. c = SLASH) p = []")
  case True
  then have "elems p = elems []" using elems_slashes [of p] by (simp del: dropWhile_eq_Nil_conv)
  then show ?thesis using True by (simp add: skipelem_def elems_def)
next
  case False
  then show ?thesis
    using elems_first [OF False] hd_dropWhile [OF False] elems_slashes by (simp add: skipelem_def Let_def)
qed

section \<open>Properties\<close>

lemma fs_ex_out: "32 \<le> uint k \<Longrightarrow> \<not> in_log (binit fs_ex) k"
  using in_log_below [of "binit fs_ex" k] by (auto simp: fs_ex_sel log_ex_sel)

lemma le_word_zeros: "le_word (replicate n 0) = 0"
  by (induction n) simp_all

lemma fs_ex_room: "k \<le> 20 \<Longrightarrow> room k (binit fs_ex)"
  using fs_ex_open(2) by (simp add: room_def)

text \<open>C39. \<^verbatim>\<open>iupdate\<close> writes the inode where \<^verbatim>\<open>ilock\<close> reads it: inside a transaction, what \<^verbatim>\<open>ilock\<close> then loads for
  the number of the inode is the type, device numbers, link count, size and block addresses of its
  copy in memory, and what it loads for every other number is what it loaded before.\<close>

theorem iupdate_ilock:
  fixes s :: "'a fkern_scheme"
  assumes "log_open {} s" "room 1 s" "d = lg_dev (lg s)" "i_dev (itable s ip) = d" "i = i_inum (itable s ip)"
    "\<not> in_log s (IBLOCK i (sb s))" "length (content s d (IBLOCK i (sb s))) = BSIZE"
  shows "\<exists>t. iupdate ip s = Inr t \<and> log_open {} t \<and> kept 1 s t \<and>
    (\<forall>j y. loaded (sb t) (content t d) j y = (if j = i then of_dinode (to_dinode (itable s ip)) y else loaded (sb s) (content s d) j y))"
proof -
  let ?C = "content s d" and ?k = "IBLOCK i (sb s)"
  obtain t where t: "iupdate ip s = Inr t" "log_open {} t" "kept 1 s t"
    "content t d = ?C(?k := put (?C ?k) (dinode_off i) (enc_dinode (to_dinode (itable s ip))))"
    using iupdate_ok [OF assms(1,2) _ assms(5,6)] assms(3,4) by metis
  let ?D = "content t d"
  have b: "dinode_off j + 64 \<le> length (?C ?k)" for j using dinode_off_bound [of j] assms(7) by simp
  have ld: "loaded (sb s) E j y = of_dinode (dec_dinode (take 64 (drop (dinode_off j) (E (IBLOCK j (sb s)))))) y" for E j y
    by (simp only: loaded_def of_dinode_take)
  have "loaded (sb s) ?D i y = of_dinode (to_dinode (itable s ip)) y" for y
    using put_here [of "dinode_off i" "enc_dinode (to_dinode (itable s ip))" "?C ?k"] b [of i] by (simp add: ld t(4) enc_length dec_enc)
  moreover have "loaded (sb s) ?D j y = loaded (sb s) ?C j y" if "j \<noteq> i" for j y
    using put_there [of "dinode_off i" "enc_dinode (to_dinode (itable s ip))" "?C ?k" "dinode_off j" 64] b [of i] b [of j]
      dinode_off_disjoint [of j "sb s" i] that by (auto simp add: ld t(4) enc_length)
  moreover have "sb t = sb s" using more_fs [OF keptD(6) [OF t(3)]] by simp
  ultimately show ?thesis using t(1-3) by (intro exI [of _ t]) simp
qed

theorem iupdate_ilock_witness:
  "\<exists>t. iupdate 0 (binit fs_ex) = Inr t \<and> i_size (loaded (sb t) (content t 1) 1 (itable fs_ex 2)) = 2000 \<and>
    i_size (loaded (sb t) (content t 1) 2 (itable fs_ex 2)) = 0"
proof -
  have d: "1 = lg_dev (lg (binit fs_ex))" "i_dev (itable (binit fs_ex) 0) = 1" "1 = i_inum (itable (binit fs_ex) 0)"
    by (simp_all add: fs_ex_sel log_ex_sel)
  have b: "IBLOCK 1 (sb (binit fs_ex)) = 32" "IBLOCK 2 (sb (binit fs_ex)) = 32" by (simp_all add: IBLOCK_def fs_ex_sel)
  have c: "content (binit fs_ex) 1 32 = replicate BSIZE 0" by (simp add: fs_ex_content fs_ex_sel)
  obtain t where t: "iupdate 0 (binit fs_ex) = Inr t"
    "\<forall>j y. loaded (sb t) (content t 1) j y = (if j = 1 then of_dinode (to_dinode (itable (binit fs_ex) 0)) y
       else loaded (sb (binit fs_ex)) (content (binit fs_ex) 1) j y)"
    using iupdate_ilock [OF fs_ex_open(1) fs_ex_room d] b(1) c fs_ex_out [of 32] by auto
  moreover have "i_size (of_dinode (to_dinode (itable (binit fs_ex) 0)) y) = 2000" for y by (simp add: of_dinode_def to_dinode_def fs_ex_sel)
  moreover have "i_size (loaded (sb (binit fs_ex)) (content (binit fs_ex) 1) 2 y) = 0" for y
    by (simp add: loaded_def b c of_dinode_def dec_dinode_def dinode_off_def get32_def le_word_zeros)
  ultimately show ?thesis by simp
qed

text \<open>C40. \<^verbatim>\<open>skipelem\<close> cuts a path at its slashes: the names the loop of \<^verbatim>\<open>namex\<close> takes from a path are the non-empty
  texts between its slashes, each cut to 14 bytes; \<^verbatim>\<open>skipelem\<close> returns 0 exactly when none is left, and the rest it
  returns has no leading slash, so that the rest is empty exactly when the name taken was the last.\<close>

theorem skipelem_splits:
  "path_elems p = map (take DIRSIZ) (elems p) \<and>
   (case skipelem p of
      None \<Rightarrow> elems p = []
    | Some (name, rest) \<Rightarrow> \<exists>e. elems p = e # elems rest \<and> name = take DIRSIZ e \<and> (rest = []) = (elems rest = []))"
proof -
  have sk: "case skipelem p of None \<Rightarrow> elems p = []
    | Some (name, rest) \<Rightarrow> \<exists>e. elems p = e # elems rest \<and> name = take DIRSIZ e \<and> (rest = []) = (elems rest = [])" for p
  proof (cases "skipelem p")
    case None
    then show ?thesis using skipelem_elems [of p] by simp
  next
    case (Some q)
    obtain name rest where q: "q = (name, rest)" by force
    then have r: "name = take DIRSIZ (takeWhile (\<lambda>c. c \<noteq> SLASH) (dropWhile (\<lambda>c. c = SLASH) p))"
      "\<exists>p. rest = dropWhile (\<lambda>c. c = SLASH) p"
      using Some by (auto simp: skipelem_def Let_def split: if_splits)
    obtain p' where p': "rest = dropWhile (\<lambda>c. c = SLASH) p'" using r(2) by blast
    have "elems rest \<noteq> []" if ne: "rest \<noteq> []"
      using elems_first [OF ne] hd_dropWhile [OF ne [unfolded p']] by (simp add: p')
    moreover have "elems [] = []" by (simp add: elems_def)
    ultimately have "(rest = []) = (elems rest = [])" by metis
    then show ?thesis using Some q r(1) skipelem_elems [of p] by simp
  qed
  have "path_elems p = map (take DIRSIZ) (elems p)"
  proof (induction p rule: path_elems.induct)
    case (1 p)
    then show ?case using sk [of p] by (subst path_elems.simps) (auto split: option.splits)
  qed
  then show ?thesis using sk by simp
qed

end
