(* ===== verification/Mkfs.thy ===== *)
theory Mkfs
  imports Inodes
begin

text \<open>
  The program \<^verbatim>\<open>mkfs/mkfs.c\<close>, which makes the image of the file system, and its agreement with the
  kernel: the inodes and blocks that it writes are those that the kernel's functions read.  The image
  is a sequence of sectors.  The calls of the host system are parameters: for which sectors of the image
  its calls succeed, whether the image opens, and for every input file whether it opens and the results
  of its successive reads, an empty one being the end.  A call of \<^verbatim>\<open>die\<close> and a failed assertion
  stop with a message.  The host stores integers with the low byte first.
\<close>

abbreviation (input) NINODES :: nat where "NINODES \<equiv> 200"
abbreviation (input) FSSIZE :: nat where "FSSIZE \<equiv> 2000"

record mkfs =
  mk_img :: "nat \<Rightarrow> byte list"
  mk_len :: nat
  mk_sb :: superblock
  mk_freeinode :: u32
  mk_freeblock :: u32

record host =
  h_seek :: "nat \<Rightarrow> bool"
  h_read :: "nat \<Rightarrow> bool"
  h_write :: "nat \<Rightarrow> bool"

section \<open>Sectors\<close>

definition xshort :: "u16 \<Rightarrow> u16" where
  "xshort x = le_word [ucast x, ucast (drop_bit 8 x)]"

definition xint :: "u32 \<Rightarrow> u32" where
  "xint x = le_word [ucast x, ucast (drop_bit 8 x), ucast (drop_bit 16 x), ucast (drop_bit 24 x)]"

text \<open>The offset is computed with 32 bits.\<close>

definition sector :: "u32 \<Rightarrow> nat" where
  "sector sec = unat (sec * 1024) div BSIZE"

definition wsect :: "host \<Rightarrow> u32 \<Rightarrow> byte list \<Rightarrow> mkfs \<Rightarrow> mkfs res" where
  "wsect h sec buf s =
     (let k = sector sec
      in if \<not> h_seek h k then Inl (Panic ''lseek'')
         else if \<not> h_write h k then Inl (Panic ''write'')
         else Inr (s\<lparr>mk_img := (\<lambda>j. if j = k then take BSIZE buf else if mk_len s \<le> j then replicate BSIZE 0 else mk_img s j),
                     mk_len := max (mk_len s) (k + 1)\<rparr>))"

definition rsect :: "host \<Rightarrow> u32 \<Rightarrow> mkfs \<Rightarrow> byte list res" where
  "rsect h sec s =
     (let k = sector sec
      in if \<not> h_seek h k then Inl (Panic ''lseek'')
         else if \<not> h_read h k \<or> mk_len s \<le> k then Inl (Panic ''read'')
         else Inr (mk_img s k))"

definition winode :: "host \<Rightarrow> u32 \<Rightarrow> dinode \<Rightarrow> mkfs \<Rightarrow> mkfs res" where
  "winode h inum ip s =
     (let bn = IBLOCK inum (mk_sb s)
      in bnd (rsect h bn s) (\<lambda>buf. wsect h bn (put buf (dinode_off inum) (enc_dinode ip)) s))"

definition rinode :: "host \<Rightarrow> u32 \<Rightarrow> mkfs \<Rightarrow> dinode res" where
  "rinode h inum s =
     (let bn = IBLOCK inum (mk_sb s) in bnd (rsect h bn s) (\<lambda>buf. Inr (dec_dinode (drop (dinode_off inum) buf))))"

section \<open>Inodes, blocks and appending\<close>

definition mk_ialloc :: "host \<Rightarrow> u16 \<Rightarrow> mkfs \<Rightarrow> (u32 \<times> mkfs) res" where
  "mk_ialloc h type s =
     (let inum = mk_freeinode s; s = s\<lparr>mk_freeinode := inum + 1\<rparr>
      in bnd (winode h inum \<lparr>d_type = xshort type, d_major = 0, d_minor = 0, d_nlink = xshort 1, d_size = xint 0,
                d_addrs = (\<lambda>_. 0)\<rparr> s) (\<lambda>s. Inr (inum, s)))"

definition mk_balloc :: "host \<Rightarrow> int \<Rightarrow> mkfs \<Rightarrow> mkfs res" where
  "mk_balloc h used s =
     (if \<not> used < int BPB then Inl (Panic ''assert'')
      else wsect h (sb_bmapstart (mk_sb s)) (fold (\<lambda>i buf. set_bit_used buf i) [0..<nat used] (replicate BSIZE 0)) s)"

text \<open>The block for the position \<open>off\<close>, which is allocated when the file does not have it yet.\<close>

definition fresh_block :: "mkfs \<Rightarrow> u32 \<times> mkfs" where
  "fresh_block s = (xint (mk_freeblock s), s\<lparr>mk_freeblock := mk_freeblock s + 1\<rparr>)"

definition set_daddr :: "nat \<Rightarrow> u32 \<Rightarrow> dinode \<Rightarrow> dinode" where
  "set_daddr i a din = din\<lparr>d_addrs := (d_addrs din)(i := a)\<rparr>"

definition append_block :: "host \<Rightarrow> nat \<Rightarrow> dinode \<Rightarrow> mkfs \<Rightarrow> (u32 \<times> dinode \<times> mkfs) res" where
  "append_block h fbn din s =
     (if fbn < NDIRECT
      then let (din, s) = (if xint (d_addrs din fbn) = 0
                           then let (a, s) = fresh_block s in (set_daddr fbn a din, s) else (din, s))
           in Inr (xint (d_addrs din fbn), din, s)
      else let (din, s) = (if xint (d_addrs din NDIRECT) = 0
                           then let (a, s) = fresh_block s in (set_daddr NDIRECT a din, s) else (din, s))
           in bnd (rsect h (xint (d_addrs din NDIRECT)) s) (\<lambda>indirect.
              if get32 indirect (4 * (fbn - NDIRECT)) = 0
              then let (a, s) = fresh_block s; indirect = put32 indirect (4 * (fbn - NDIRECT)) a
                   in bnd (wsect h (xint (d_addrs din NDIRECT)) indirect s) (\<lambda>s.
                        Inr (xint (get32 indirect (4 * (fbn - NDIRECT))), din, s))
              else Inr (xint (get32 indirect (4 * (fbn - NDIRECT))), din, s)))"

function iappend_loop :: "host \<Rightarrow> byte list \<Rightarrow> u32 \<Rightarrow> dinode \<Rightarrow> mkfs \<Rightarrow> (u32 \<times> dinode \<times> mkfs) res" where
  "iappend_loop h p off din s =
     (if p = [] then Inr (off, din, s)
      else let fbn = unat (off div 1024)
           in if \<not> fbn < MAXFILE then Inl (Panic ''assert'')
              else bnd (append_block h fbn din s) (\<lambda>(x, din, s).
                   let n1 = min (length p) (BSIZE - unat off mod BSIZE)
                   in bnd (rsect h x s) (\<lambda>buf.
                      bnd (wsect h x (put buf (unat off mod BSIZE) (take n1 p)) s) (\<lambda>s.
                        iappend_loop h (drop n1 p) (off + of_nat n1) din s))))"
  by pat_completeness auto
termination
proof (relation "measure (\<lambda>(h, p, off, din, s). length p)")
  fix h p off din s x xa a b aa ba xb xc xd
  assume "p \<noteq> []" "xb = min (length p) (BSIZE - unat (off :: u32) mod BSIZE)"
  moreover have "unat off mod BSIZE < BSIZE" by simp
  ultimately show "((h, drop xb p, off + of_nat xb, ba, xd), h, p, off, din, s) \<in> measure (\<lambda>(h, p, off, din, s). length p)"
    by (cases p) (auto simp: min_def)
qed simp

declare iappend_loop.simps [simp del]

definition iappend :: "host \<Rightarrow> u32 \<Rightarrow> byte list \<Rightarrow> mkfs \<Rightarrow> mkfs res" where
  "iappend h inum xp s =
     bnd (rinode h inum s) (\<lambda>din.
     bnd (iappend_loop h xp (xint (d_size din)) din s) (\<lambda>(off, din, s).
       winode h inum (din\<lparr>d_size := xint off\<rparr>) s))"

section \<open>The program\<close>

text \<open>The number of blocks of inodes, of the bitmap and of all metadata.\<close>

abbreviation (input) ninodeblocks :: nat where "ninodeblocks \<equiv> 13"
abbreviation (input) nmeta :: nat where "nmeta \<equiv> 46"

definition mk_super :: superblock where
  "mk_super = \<lparr>sb_magic = FSMAGIC, sb_size = xint (of_nat FSSIZE), sb_nblocks = xint (of_nat (FSSIZE - nmeta)),
     sb_ninodes = xint (of_nat NINODES), sb_nlog = xint (of_nat LOGSIZE), sb_logstart = xint 2,
     sb_inodestart = xint (of_nat (2 + LOGSIZE)), sb_bmapstart = xint (of_nat (2 + LOGSIZE + ninodeblocks))\<rparr>"

definition enc_sb :: "superblock \<Rightarrow> byte list" where
  "enc_sb q = concat (map (le_bytes 4) [sb_magic q, sb_size q, sb_nblocks q, sb_ninodes q, sb_nlog q, sb_logstart q,
     sb_inodestart q, sb_bmapstart q])"

fun zero_sectors :: "host \<Rightarrow> nat list \<Rightarrow> mkfs \<Rightarrow> mkfs res" where
  "zero_sectors h [] s = Inr s"
| "zero_sectors h (i # is) s = bnd (wsect h (of_nat i) (replicate BSIZE 0) s) (zero_sectors h is)"

definition shortname :: "byte list \<Rightarrow> byte list" where
  "shortname arg = (if take 5 arg = [0x75, 0x73, 0x65, 0x72, 0x2f] then drop 5 arg else arg)"

definition strip_underscore :: "byte list \<Rightarrow> byte list" where
  "strip_underscore n = (if n \<noteq> [] \<and> hd n = 0x5f then tl n else n)"

fun append_all :: "host \<Rightarrow> u32 \<Rightarrow> byte list list \<Rightarrow> mkfs \<Rightarrow> mkfs res" where
  "append_all h inum [] s = Inr s"
| "append_all h inum (buf # rest) s =
     (if buf = [] then Inr s else bnd (iappend h inum buf s) (append_all h inum rest))"

definition add_file :: "host \<Rightarrow> u32 \<Rightarrow> byte list \<times> byte list list option \<Rightarrow> mkfs \<Rightarrow> mkfs res" where
  "add_file h rootino f s =
     (let name = shortname (fst f)
      in if SLASH \<in> set name then Inl (Panic ''assert'')
         else case snd f of
                None \<Rightarrow> Inl (Panic ''open'')
              | Some reads \<Rightarrow>
                  let name = strip_underscore name
                  in if \<not> length name \<le> DIRSIZ then Inl (Panic ''assert'')
                     else bnd (mk_ialloc h T_FILE s) (\<lambda>(inum, s).
                          bnd (iappend h rootino (dirent (xshort (ucast inum)) name) s) (\<lambda>s.
                            append_all h inum reads s)))"

fun add_files :: "host \<Rightarrow> u32 \<Rightarrow> (byte list \<times> byte list list option) list \<Rightarrow> mkfs \<Rightarrow> mkfs res" where
  "add_files h rootino [] s = Inr s"
| "add_files h rootino (f # fs) s = bnd (add_file h rootino f s) (add_files h rootino fs)"

text \<open>The first argument is absent, or names an image that opens or does not.\<close>

definition mk_main :: "host \<Rightarrow> bool option \<Rightarrow> (byte list \<times> byte list list option) list \<Rightarrow> mkfs res" where
  "mk_main h target files =
     (if target = None then Inl (Panic ''usage'')
      else if target = Some False then Inl (Panic ''open'')
      else let s = \<lparr>mk_img = (\<lambda>_. []), mk_len = 0, mk_sb = mk_super, mk_freeinode = 1, mk_freeblock = of_nat nmeta\<rparr>
      in bnd (zero_sectors h [0..<FSSIZE] s) (\<lambda>s.
         bnd (wsect h 1 (put (replicate BSIZE 0) 0 (enc_sb (mk_sb s))) s) (\<lambda>s.
         bnd (mk_ialloc h T_DIR s) (\<lambda>(rootino, s).
         if rootino \<noteq> ROOTINO then Inl (Panic ''assert'')
         else bnd (iappend h rootino (dirent (xshort (ucast rootino)) [46]) s) (\<lambda>s.
              bnd (iappend h rootino (dirent (xshort (ucast rootino)) [46, 46]) s) (\<lambda>s.
              bnd (add_files h rootino files s) (\<lambda>s.
              bnd (rinode h rootino s) (\<lambda>din.
              let off = (xint (d_size din) div 1024 + 1) * 1024
              in bnd (winode h rootino (din\<lparr>d_size := xint off\<rparr>) s) (\<lambda>s.
                   mk_balloc h (sint (mk_freeblock s)) s)))))))))"

section \<open>The host\<close>

text \<open>The image as the kernel sees it: a block for every number.\<close>

definition img :: "mkfs \<Rightarrow> u32 \<Rightarrow> byte list" where
  "img s b = mk_img s (unat b)"

abbreviation (input) zeros :: "byte list" where "zeros \<equiv> replicate BSIZE 0"

definition host_ok :: "host \<Rightarrow> bool" where
  "host_ok h \<longleftrightarrow> (\<forall>k < FSSIZE. h_seek h k \<and> h_read h k \<and> h_write h k)"

definition base :: "mkfs \<Rightarrow> bool" where
  "base s \<longleftrightarrow> mk_len s = FSSIZE \<and> mk_sb s = mk_super \<and> nmeta \<le> unat (mk_freeblock s) \<and> unat (mk_freeblock s) \<le> FSSIZE \<and>
     (\<forall>k. length (img s k) = BSIZE) \<and> (\<forall>k. unat (mk_freeblock s) \<le> unat k \<longrightarrow> img s k = zeros)"

lemma baseD:
  assumes "base s"
  shows "mk_len s = FSSIZE" "mk_sb s = mk_super" "nmeta \<le> unat (mk_freeblock s)" "unat (mk_freeblock s) \<le> FSSIZE"
    "length (img s k) = BSIZE" "unat (mk_freeblock s) \<le> unat k \<Longrightarrow> img s k = zeros"
  using assms by (auto simp: base_def)

lemma xint_id [simp]: "xint x = x"
proof -
  have "xint x = le_word (le_bytes 4 x)" by (simp add: xint_def le_bytes_def upt_rec numeral_eq_Suc)
  then show ?thesis by (simp add: le_word_bytes)
qed

lemma xshort_id [simp]: "xshort x = x"
proof -
  have "xshort x = le_word (le_bytes 2 x)" by (simp add: xshort_def le_bytes_def upt_rec numeral_eq_Suc)
  then show ?thesis by (simp add: le_word_bytes)
qed

lemma sector_small: "unat b \<le> FSSIZE \<Longrightarrow> sector b = unat b"
  by (simp add: sector_def unat_word_ariths)

lemma rsect_ok:
  assumes "host_ok h" "base s" "unat b < FSSIZE"
  shows "rsect h b s = Inr (img s b)"
  using assms by (simp add: rsect_def sector_small host_ok_def baseD img_def)

lemma wsect_ok:
  assumes "host_ok h" "base s" "unat b < unat (mk_freeblock s)" "length buf = BSIZE"
  obtains t where "wsect h b buf s = Inr t" "base t" "img t = (img s)(b := buf)"
    "mk_freeblock t = mk_freeblock s" "mk_freeinode t = mk_freeinode s"
proof -
  note B = baseD [OF assms(2)]
  let ?t = "s\<lparr>mk_img := (\<lambda>j. if j = unat b then take BSIZE buf else if mk_len s \<le> j then zeros else mk_img s j),
    mk_len := max (mk_len s) (unat b + 1)\<rparr>"
  have lt: "unat b < FSSIZE" using assms(3) B(4) by simp
  then have w: "wsect h b buf s = Inr ?t" using assms(1) by (simp add: wsect_def sector_small host_ok_def Let_def)
  have i: "img ?t = (img s)(b := buf)"
  proof
    fix k :: u32
    have "mk_img s (unat k) = zeros" if "FSSIZE \<le> unat k" using B(4) B(6) [of k] that by (simp add: img_def)
    then show "img ?t k = ((img s)(b := buf)) k" using assms(4) B(1) by (simp add: img_def word_unat_eq_iff)
  qed
  have "base ?t" using assms(3,4) B lt i unfolding base_def by (auto simp: max_def)
  from that [OF w this i] show ?thesis by simp
qed

lemma fresh_ok:
  assumes "base s" "unat (mk_freeblock s) < FSSIZE"
  obtains t where "fresh_block s = (mk_freeblock s, t)" "base t" "img t = img s" "mk_freeinode t = mk_freeinode s"
    "unat (mk_freeblock t) = unat (mk_freeblock s) + 1"
proof -
  let ?t = "s\<lparr>mk_freeblock := mk_freeblock s + 1\<rparr>"
  have f: "unat (mk_freeblock s + 1) = unat (mk_freeblock s) + 1" using assms(2) by (simp add: unat_word_ariths)
  have i: "img ?t = img s" by (simp add: img_def fun_eq_iff)
  have "base ?t" using baseD [OF assms(1)] assms(2) f i by (simp add: base_def)
  from that [of ?t, OF _ this i] show ?thesis using f by (simp add: fresh_block_def)
qed

section \<open>The blocks of one file\<close>

text \<open>
  The file has exactly its first \<open>nb\<close> blocks, and the indirect block when \<open>ind\<close>; they are all different and
  below \<open>fb\<close>.
\<close>

definition has_blocks :: "inode \<Rightarrow> (u32 \<Rightarrow> byte list) \<Rightarrow> nat \<Rightarrow> bool \<Rightarrow> nat \<Rightarrow> bool" where
  "has_blocks x C fb ind nb \<longleftrightarrow> nb \<le> MAXFILE \<and>
     (\<forall>j < nb. nmeta \<le> unat (fblk x C j) \<and> unat (fblk x C j) < fb) \<and> inj_on (fblk x C) {..<nb} \<and>
     (\<forall>j. nb \<le> j \<longrightarrow> j < NDIRECT \<longrightarrow> i_addrs x j = 0) \<and>
     (if ind then NDIRECT \<le> nb \<and> nmeta \<le> unat (i_addrs x NDIRECT) \<and> unat (i_addrs x NDIRECT) < fb \<and>
        (\<forall>j < nb. fblk x C j \<noteq> i_addrs x NDIRECT) \<and> (\<forall>j. nb \<le> j \<longrightarrow> j < MAXFILE \<longrightarrow> fblk x C j = 0)
      else nb \<le> NDIRECT \<and> i_addrs x NDIRECT = 0)"

definition own :: "inode \<Rightarrow> (u32 \<Rightarrow> byte list) \<Rightarrow> bool \<Rightarrow> nat \<Rightarrow> u32 set" where
  "own x C ind nb = fblk x C ` {..<nb} \<union> (if ind then {i_addrs x NDIRECT} else {})"

text \<open>From one stage to a later one: the blocks that are new, and all other blocks unchanged.\<close>

definition file_grown ::
  "inode \<Rightarrow> (u32 \<Rightarrow> byte list) \<Rightarrow> nat \<Rightarrow> bool \<Rightarrow> nat \<Rightarrow> inode \<Rightarrow> (u32 \<Rightarrow> byte list) \<Rightarrow> nat \<Rightarrow> bool \<Rightarrow> nat \<Rightarrow> bool" where
  "file_grown x C fb ind nb x' C' fb' ind' nb' \<longleftrightarrow> has_blocks x' C' fb' ind' nb' \<and> fb \<le> fb' \<and>
     fb' + nb + of_bool ind = fb + nb' + of_bool ind' \<and>
     own x' C' ind' nb' \<subseteq> own x C ind nb \<union> {k. fb \<le> unat k} \<and>
     (\<forall>k. unat k < fb \<longrightarrow> k \<notin> own x C ind nb \<longrightarrow> C' k = C k)"

lemma file_grown_refl: "has_blocks x C fb ind nb \<Longrightarrow> file_grown x C fb ind nb x C fb ind nb"
  by (auto simp: file_grown_def)

lemma file_grown_trans:
  assumes "file_grown x C fb ind nb x' C' fb' ind' nb'" "file_grown x' C' fb' ind' nb' x'' C'' fb'' ind'' nb''"
  shows "file_grown x C fb ind nb x'' C'' fb'' ind'' nb''"
proof -
  have "C'' k = C k" if "unat k < fb" "k \<notin> own x C ind nb" for k
  proof -
    have "k \<notin> own x' C' ind' nb'" "unat k < fb'" "C' k = C k" using assms(1) that by (auto simp: file_grown_def)
    then show ?thesis using assms(2) by (simp add: file_grown_def)
  qed
  moreover have "own x'' C'' ind'' nb'' \<subseteq> own x C ind nb \<union> {k. fb \<le> unat k}"
  proof -
    have "{k :: u32. fb' \<le> unat k} \<subseteq> {k. fb \<le> unat k}" using assms(1) by (auto simp: file_grown_def)
    then show ?thesis using assms unfolding file_grown_def by blast
  qed
  ultimately show ?thesis using assms by (simp add: file_grown_def)
qed

lemma has_file_ok:
  assumes "has_blocks x C fb (NDIRECT < nb) nb" "\<And>k. length (C k) = BSIZE"
  shows "file_ok x C nb"
  using assms by (force simp: has_blocks_def file_ok_def split: if_splits)

text \<open>The three ways in which a file gets a block.\<close>

lemma fblk_addr:
  assumes "i \<le> NDIRECT" "x' = x\<lparr>i_addrs := (i_addrs x)(i := a)\<rparr>"
  shows "j < NDIRECT \<Longrightarrow> fblk x' C j = (if j = i then a else fblk x C j)"
    "\<not> j < NDIRECT \<Longrightarrow> i \<noteq> NDIRECT \<Longrightarrow> fblk x' C j = fblk x C j"
    "i_addrs x' NDIRECT = (if i = NDIRECT then a else i_addrs x NDIRECT)"
  using assms by (auto simp: fblk_def)

lemma inj_extend:
  fixes n :: nat
  assumes "inj_on f {..<n}" "\<And>j. j < n \<Longrightarrow> g j = f j" "\<And>j. j < n \<Longrightarrow> f j \<noteq> g n"
  shows "inj_on g {..<n + 1}"
proof -
  have "inj_on g {..<n}" using assms(1,2) by (simp add: inj_on_def)
  moreover have "g n \<notin> g ` {..<n}" using assms(2,3) by force
  ultimately show ?thesis by (simp add: lessThan_Suc)
qed

lemma grow_direct:
  assumes "has_blocks x C fb False nb" "nb < NDIRECT" "unat a = fb" "nmeta \<le> fb" "x' = x\<lparr>i_addrs := (i_addrs x)(nb := a)\<rparr>"
  shows "file_grown x C fb False nb x' C (fb + 1) False (nb + 1)" "fblk x' C nb = a" "\<And>j. j < nb \<Longrightarrow> fblk x' C j = fblk x C j"
proof -
  have f: "fblk x' C j = (if j = nb then a else fblk x C j)" if "j < nb + 1" for j
    using fblk_addr(1) [of nb x' x a j C] assms(2,5) that by simp
  then show "fblk x' C nb = a" "\<And>j. j < nb \<Longrightarrow> fblk x' C j = fblk x C j" by simp_all
  have "fblk x C j \<noteq> a" if "j < nb" for j using assms(1,3) that by (auto simp: has_blocks_def)
  then have "inj_on (fblk x' C) {..<nb + 1}"
    using assms(1) f by (intro inj_extend [of "fblk x C"]) (simp_all add: has_blocks_def)
  moreover have "\<forall>j < nb + 1. nmeta \<le> unat (fblk x' C j) \<and> unat (fblk x' C j) < fb + 1"
    using assms(1,3,4) f by (auto simp: has_blocks_def less_Suc_eq)
  ultimately have "has_blocks x' C (fb + 1) False (nb + 1)" using assms(1,2,5) by (auto simp: has_blocks_def)
  moreover have "own x' C False (nb + 1) \<subseteq> own x C False nb \<union> {k. fb \<le> unat k}"
    using f assms(3) by (auto simp: own_def less_Suc_eq)
  ultimately show "file_grown x C fb False nb x' C (fb + 1) False (nb + 1)" by (simp add: file_grown_def)
qed

lemma get32_zeros: "get32 zeros off = 0"
proof -
  have "take 4 (drop off zeros) = replicate (min 4 (BSIZE - off)) (0 :: byte)" by simp
  then show ?thesis unfolding get32_def by (simp only: le_word_zeros)
qed

lemma grow_indirect:
  assumes "has_blocks x C fb False NDIRECT" "unat a = fb" "nmeta \<le> fb" "C a = zeros" "x' = x\<lparr>i_addrs := (i_addrs x)(NDIRECT := a)\<rparr>"
  shows "file_grown x C fb False NDIRECT x' C (fb + 1) True NDIRECT" "\<And>j. j < NDIRECT \<Longrightarrow> fblk x' C j = fblk x C j"
proof -
  have f: "fblk x' C j = fblk x C j" if "j < NDIRECT" for j using fblk_addr(1) [of NDIRECT x' x a j C] assms(5) that by simp
  then show "\<And>j. j < NDIRECT \<Longrightarrow> fblk x' C j = fblk x C j" .
  have a: "i_addrs x' NDIRECT = a" using assms(5) by simp
  have "fblk x' C j = 0" if "NDIRECT \<le> j" for j using that assms(4) a get32_zeros by (simp add: fblk_def)
  moreover have "fblk x C j \<noteq> a" if "j < NDIRECT" for j using assms(1,2) that by (auto simp: has_blocks_def)
  moreover have "inj_on (fblk x' C) {..<NDIRECT}" using assms(1) f by (auto simp: has_blocks_def inj_on_def)
  ultimately have "has_blocks x' C (fb + 1) True NDIRECT" using assms(1-3) f a by (auto simp: has_blocks_def)
  moreover have "own x' C True NDIRECT \<subseteq> own x C False NDIRECT \<union> {k. fb \<le> unat k}"
    using f assms(2) a by (auto simp: own_def)
  ultimately show "file_grown x C fb False NDIRECT x' C (fb + 1) True NDIRECT" by (simp add: file_grown_def)
qed

lemma grow_entry:
  assumes "has_blocks x C fb True nb" "nb < MAXFILE" "unat a = fb" "nmeta \<le> fb" "\<And>k. length (C k) = BSIZE"
    "C' = C(i_addrs x NDIRECT := put32 (C (i_addrs x NDIRECT)) (4 * (nb - NDIRECT)) a)"
  shows "file_grown x C fb True nb x C' (fb + 1) True (nb + 1)" "fblk x C' nb = a" "\<And>j. j < nb \<Longrightarrow> fblk x C' j = fblk x C j"
proof -
  have nb: "NDIRECT \<le> nb" using assms(1) by (simp add: has_blocks_def)
  have f: "fblk x C' j = (if j = nb then a else fblk x C j)" if "j < MAXFILE" for j
  proof (cases "j < NDIRECT")
    case False
    have "4 * (j - NDIRECT) + 4 \<le> 4 * (nb - NDIRECT) \<or> 4 * (nb - NDIRECT) + 4 \<le> 4 * (j - NDIRECT) \<or> j = nb"
      using False nb by linarith
    then show ?thesis using nb assms(2,5,6) that False
        get32_put32 [of "4 * (nb - NDIRECT)" "C (i_addrs x NDIRECT)" "4 * (j - NDIRECT)" a] by (auto simp: fblk_def)
  qed (use nb in \<open>simp add: fblk_def\<close>)
  then show "fblk x C' nb = a" "\<And>j. j < nb \<Longrightarrow> fblk x C' j = fblk x C j" using assms(2) by simp_all
  have n: "fblk x C j \<noteq> a" if "j < nb" for j using assms(1,3) that by (auto simp: has_blocks_def)
  then have "inj_on (fblk x C') {..<nb + 1}"
    using assms(1,2) f by (intro inj_extend [of "fblk x C"]) (simp_all add: has_blocks_def)
  moreover have "\<forall>j < nb + 1. nmeta \<le> unat (fblk x C' j) \<and> unat (fblk x C' j) < fb + 1 \<and> fblk x C' j \<noteq> i_addrs x NDIRECT"
    using assms(1-4) f by (auto simp: has_blocks_def less_Suc_eq)
  ultimately have "has_blocks x C' (fb + 1) True (nb + 1)" using assms(1,2) f nb by (auto simp: has_blocks_def)
  moreover have "own x C' True (nb + 1) \<subseteq> own x C True nb \<union> {k. fb \<le> unat k}"
    using f assms(2,3) by (auto simp: own_def less_Suc_eq)
  moreover have "C' k = C k" if "k \<notin> own x C True nb" for k using that assms(6) by (auto simp: own_def)
  ultimately show "file_grown x C fb True nb x C' (fb + 1) True (nb + 1)" by (simp add: file_grown_def)
qed

section \<open>Appending to a file\<close>

lemma of_dinode_addr: "i \<le> NDIRECT \<Longrightarrow> i_addrs (of_dinode din y) i = d_addrs din i"
  by (simp add: of_dinode_def)

lemma of_dinode_set: "i \<le> NDIRECT \<Longrightarrow>
    of_dinode (set_daddr i a din) y = (of_dinode din y)\<lparr>i_addrs := (i_addrs (of_dinode din y))(i := a)\<rparr>"
  by (auto simp: of_dinode_def set_daddr_def intro!: inode.equality)

lemma of_dinode_size: "of_dinode (din\<lparr>d_size := n\<rparr>) y = (of_dinode din y)\<lparr>i_size := n\<rparr>"
  by (auto simp: of_dinode_def intro!: inode.equality)

lemma of_dinode_sel: "i_type (of_dinode din y) = d_type din" "i_nlink (of_dinode din y) = d_nlink din" "i_size (of_dinode din y) = d_size din"
  by (simp_all add: of_dinode_def)

lemma set_daddr_sel: "d_addrs (set_daddr i a din) j = (if j = i then a else d_addrs din j)"
  "set_daddr i a din = din\<lparr>d_addrs := d_addrs (set_daddr i a din)\<rparr>"
  by (simp_all add: set_daddr_def)

text \<open>The number of blocks of a file with \<open>n\<close> blocks of data.\<close>

definition need :: "nat \<Rightarrow> nat" where
  "need n = n + of_bool (NDIRECT < n)"

lemma append_present:
  assumes "host_ok h" "base s" "x = of_dinode din y" "has_blocks x (img s) (unat (mk_freeblock s)) (NDIRECT < fbn + 1) (fbn + 1)" "fbn < MAXFILE"
  shows "append_block h fbn din s = Inr (fblk x (img s) fbn, din, s)"
proof -
  have "nmeta \<le> unat (fblk x (img s) fbn)" using assms(4) by (simp add: has_blocks_def)
  then have f: "fblk x (img s) fbn \<noteq> 0" by auto
  show ?thesis
  proof (cases "fbn < NDIRECT")
    case True
    then show ?thesis using f of_dinode_addr [of fbn din y] assms(3) by (simp add: append_block_def fblk_def)
  next
    case False
    then have i: "nmeta \<le> unat (d_addrs din NDIRECT)" "unat (d_addrs din NDIRECT) < unat (mk_freeblock s)"
      using assms(3,4) of_dinode_addr [of NDIRECT din y] by (auto simp: has_blocks_def)
    then have "d_addrs din NDIRECT \<noteq> 0" by auto
    moreover have "rsect h (d_addrs din NDIRECT) s = Inr (img s (d_addrs din NDIRECT))"
      by (rule rsect_ok [OF assms(1,2)]) (use i baseD(4) [OF assms(2)] in simp)
    ultimately show ?thesis using False f of_dinode_addr [of NDIRECT din y] assms(3)
      by (simp add: append_block_def fblk_def bnd_def)
  qed
qed

text \<open>A new entry of the indirect block, which has just been allocated or existed before.\<close>

lemma append_entry:
  assumes "host_ok h" "base s" "x = of_dinode din y" "has_blocks x (img s) (unat (mk_freeblock s)) True fbn" "fbn < MAXFILE"
    "unat (mk_freeblock s) < FSSIZE"
  obtains t where "append_block h fbn din s = Inr (fblk x (img t) fbn, din, t)" "base t" "mk_freeinode t = mk_freeinode s"
    "file_grown x (img s) (unat (mk_freeblock s)) True fbn x (img t) (unat (mk_freeblock t)) True (fbn + 1)"
    "\<And>j. j < fbn \<Longrightarrow> fblk x (img t) j = fblk x (img s) j \<and> img t (fblk x (img s) j) = img s (fblk x (img s) j)"
proof -
  let ?i = "d_addrs din NDIRECT" and ?fb = "mk_freeblock s"
  note B = baseD [OF assms(2)]
  have x: "i_addrs x NDIRECT = ?i" using assms(3) by (simp add: of_dinode_addr)
  have H: "NDIRECT \<le> fbn" "nmeta \<le> unat ?i" "unat ?i < unat ?fb" "fblk x (img s) fbn = 0" "\<And>j. j < fbn \<Longrightarrow> fblk x (img s) j \<noteq> ?i"
    using assms(4,5) x by (auto simp: has_blocks_def)
  have "?i \<noteq> 0" using H(2) by auto
  moreover have r: "rsect h ?i s = Inr (img s ?i)" by (rule rsect_ok [OF assms(1,2)]) (use H(3) B(4) in simp)
  moreover have z: "get32 (img s ?i) (4 * (fbn - NDIRECT)) = 0" using H(1,4) x by (simp add: fblk_def)
  obtain u where u: "fresh_block s = (?fb, u)" "base u" "img u = img s" "mk_freeinode u = mk_freeinode s" "unat (mk_freeblock u) = unat ?fb + 1"
    by (rule fresh_ok [OF assms(2,6)])
  let ?d = "put32 (img s ?i) (4 * (fbn - NDIRECT)) ?fb"
  have d: "unat ?i < unat (mk_freeblock u)" "length ?d = BSIZE" using B(5) [of ?i] assms(5) H(1,3) u(5) by (simp_all add: put32_def)
  obtain t where t: "wsect h ?i ?d u = Inr t" "base t" "img t = (img u)(?i := ?d)" "mk_freeblock t = mk_freeblock u" "mk_freeinode t = mk_freeinode u"
    by (rule wsect_ok [OF assms(1) u(2) d])
  have C: "img t = (img s)(i_addrs x NDIRECT := put32 (img s (i_addrs x NDIRECT)) (4 * (fbn - NDIRECT)) ?fb)" using t(3) u(3) x by simp
  note G = grow_entry [OF assms(4,5) refl B(3,5) C]
  have "get32 ?d (4 * (fbn - NDIRECT)) = fblk x (img t) fbn" using C x H(1) by (simp add: fblk_def)
  ultimately have "append_block h fbn din s = Inr (fblk x (img t) fbn, din, t)"
    using H(1) r z u(1) t(1) by (simp add: append_block_def bnd_def)
  from that [OF this t(2)] show ?thesis using t(4,5) u(4,5) G(1,3) H(5) C x by simp
qed

lemma append_direct:
  assumes "base s" "x = of_dinode din y" "has_blocks x (img s) (unat (mk_freeblock s)) False fbn" "fbn < NDIRECT"
    "unat (mk_freeblock s) < FSSIZE"
  obtains din' x' t where "append_block h fbn din s = Inr (fblk x' (img t) fbn, din', t)" "x' = of_dinode din' y" "base t"
    "mk_freeinode t = mk_freeinode s" "din' = din\<lparr>d_addrs := d_addrs din'\<rparr>"
    "file_grown x (img s) (unat (mk_freeblock s)) False fbn x' (img t) (unat (mk_freeblock t)) False (fbn + 1)"
    "\<And>j. j < fbn \<Longrightarrow> fblk x' (img t) j = fblk x (img s) j" "img t = img s"
proof -
  let ?fb = "mk_freeblock s" and ?din = "set_daddr fbn (mk_freeblock s) din"
  obtain u where u: "fresh_block s = (?fb, u)" "base u" "img u = img s" "mk_freeinode u = mk_freeinode s" "unat (mk_freeblock u) = unat ?fb + 1"
    by (rule fresh_ok [OF assms(1,5)])
  have e: "of_dinode ?din y = x\<lparr>i_addrs := (i_addrs x)(fbn := ?fb)\<rparr>" using assms(2,4) by (simp add: of_dinode_set)
  note G = grow_direct [OF assms(3,4) refl baseD(3) [OF assms(1)] e]
  have "d_addrs din fbn = 0" using assms(2-4) of_dinode_addr [of fbn din y] by (simp add: has_blocks_def)
  then have "append_block h fbn din s = Inr (fblk (of_dinode ?din y) (img u) fbn, ?din, u)"
    using assms(4) u(1,3) G(2) by (simp add: append_block_def set_daddr_sel(1))
  from that [OF this refl u(2,4) set_daddr_sel(2)] show ?thesis using G(1,3) u(3,5) by simp
qed

lemma append_indirect:
  assumes "host_ok h" "base s" "x = of_dinode din y" "has_blocks x (img s) (unat (mk_freeblock s)) False NDIRECT"
    "unat (mk_freeblock s) + 1 < FSSIZE"
  obtains din' x' t where "append_block h NDIRECT din s = Inr (fblk x' (img t) NDIRECT, din', t)" "x' = of_dinode din' y" "base t"
    "mk_freeinode t = mk_freeinode s" "din' = din\<lparr>d_addrs := d_addrs din'\<rparr>"
    "file_grown x (img s) (unat (mk_freeblock s)) False NDIRECT x' (img t) (unat (mk_freeblock t)) True (NDIRECT + 1)"
    "\<And>j. j < NDIRECT \<Longrightarrow> fblk x' (img t) j = fblk x (img s) j \<and> img t (fblk x (img s) j) = img s (fblk x (img s) j)"
proof -
  note B = baseD [OF assms(2)]
  let ?fb = "mk_freeblock s" and ?din = "set_daddr NDIRECT (mk_freeblock s) din"
  let ?x = "of_dinode ?din y"
  have lt: "unat ?fb < FSSIZE" using assms(5) by simp
  obtain u where u: "fresh_block s = (?fb, u)" "base u" "img u = img s" "mk_freeinode u = mk_freeinode s" "unat (mk_freeblock u) = unat ?fb + 1"
    by (rule fresh_ok [OF assms(2) lt])
  have e: "?x = x\<lparr>i_addrs := (i_addrs x)(NDIRECT := ?fb)\<rparr>" using assms(3) by (simp add: of_dinode_set)
  note G = grow_indirect [OF assms(4) refl B(3) B(6) e, OF order_refl]
  have H: "has_blocks ?x (img u) (unat (mk_freeblock u)) True NDIRECT" using G(1) u(3,5) by (simp add: file_grown_def)
  obtain t where
    t: "append_block h NDIRECT ?din u = Inr (fblk ?x (img t) NDIRECT, ?din, t)" "base t" "mk_freeinode t = mk_freeinode u"
      "file_grown ?x (img u) (unat (mk_freeblock u)) True NDIRECT ?x (img t) (unat (mk_freeblock t)) True (NDIRECT + 1)"
      "\<And>j. j < NDIRECT \<Longrightarrow> fblk ?x (img t) j = fblk ?x (img u) j \<and> img t (fblk ?x (img u) j) = img u (fblk ?x (img u) j)"
    by (rule append_entry [OF assms(1) u(2) refl H]) (use assms(5) u(5) in \<open>simp_all add: that\<close>)
  have z: "d_addrs din NDIRECT = 0" using assms(3,4) of_dinode_addr [of NDIRECT din y] by (simp add: has_blocks_def)
  have "?fb \<noteq> 0" using B(3) by auto
  then have "append_block h NDIRECT din s = append_block h NDIRECT ?din u"
    using z u(1) by (simp add: append_block_def set_daddr_sel(1))
  from that [OF this [unfolded t(1)] refl t(2) _ set_daddr_sel(2)] show ?thesis
    using file_grown_trans [OF G(1), of ?x "img t"] t(3-5) u(3-5) G(2) by simp
qed

lemma append_block_ok:
  assumes "host_ok h" "base s" "x = of_dinode din y" "has_blocks x (img s) (unat (mk_freeblock s)) (NDIRECT < nb) nb" "fbn < MAXFILE"
    "nb = fbn \<or> nb = fbn + 1" "unat (mk_freeblock s) + need (fbn + 1) \<le> FSSIZE + need nb"
  obtains din' x' t where "append_block h fbn din s = Inr (fblk x' (img t) fbn, din', t)" "x' = of_dinode din' y" "base t"
    "mk_freeinode t = mk_freeinode s" "din' = din\<lparr>d_addrs := d_addrs din'\<rparr>"
    "file_grown x (img s) (unat (mk_freeblock s)) (NDIRECT < nb) nb x' (img t) (unat (mk_freeblock t)) (NDIRECT < fbn + 1) (fbn + 1)"
    "\<And>j. j < nb \<Longrightarrow> fblk x' (img t) j = fblk x (img s) j \<and> img t (fblk x (img s) j) = img s (fblk x (img s) j)"
proof -
  consider "nb = fbn + 1" | "nb = fbn" "fbn < NDIRECT" | "nb = fbn" "fbn = NDIRECT" | "nb = fbn" "NDIRECT < fbn" using assms(6) by linarith
  then show ?thesis
  proof cases
    case 1
    then show ?thesis using that [OF append_present [OF assms(1-3) _ assms(5)] assms(3,2)] assms(4) file_grown_refl by simp
  next
    case 2
    show ?thesis
      by (rule append_direct [OF assms(2,3), of fbn h]) (use assms(4,7) 2 that in \<open>simp_all add: need_def\<close>)
  next
    case 3
    show ?thesis
      by (rule append_indirect [OF assms(1-3)]) (use assms(4,7) 3 that in \<open>simp_all add: need_def\<close>)
  next
    case 4
    show ?thesis
      by (rule append_entry [OF assms(1-3), of fbn]) (use assms(3-5,7) 4 that in \<open>simp_all add: need_def\<close>)
  qed
qed

definition nblk :: "nat \<Rightarrow> nat" where
  "nblk n = (n + 1023) div BSIZE"

definition holds :: "inode \<Rightarrow> (u32 \<Rightarrow> byte list) \<Rightarrow> byte list \<Rightarrow> bool" where
  "holds x C bs \<longleftrightarrow> (\<forall>i < length bs. fbyte x C i = bs ! i)"

lemma need_mono: "m \<le> n \<Longrightarrow> need m \<le> need n"
  by (auto simp: need_def)

lemma nblk_cases: "nblk n = n div BSIZE \<or> nblk n = n div BSIZE + 1" "n \<le> nblk n * BSIZE"
  "0 < m \<Longrightarrow> m \<le> BSIZE - n mod BSIZE \<Longrightarrow> nblk (n + m) = n div BSIZE + 1"
proof -
  obtain q r where n: "n = BSIZE * q + r" "r < BSIZE" by (metis mod_less_divisor mult_div_mod_eq zero_less_numeral)
  have d: "n div BSIZE = q" "n mod BSIZE = r" using n by simp_all
  have "nblk n = (if r = 0 then q else q + 1)" unfolding nblk_def by (rule div_nat_eqI) (use n in simp_all)
  then show "nblk n = n div BSIZE \<or> nblk n = n div BSIZE + 1" "n \<le> nblk n * BSIZE" using n d by auto
  show "nblk (n + m) = n div BSIZE + 1" if "0 < m" "m \<le> BSIZE - n mod BSIZE"
    unfolding nblk_def d by (rule div_nat_eqI) (use that n d in simp_all)
qed

lemma file_grown_store:
  assumes "has_blocks x C fb ind nb" "fbn < nb"
  shows "file_grown x C fb ind nb x (C(fblk x C fbn := v)) fb ind nb"
proof -
  let ?C = "C(fblk x C fbn := v)"
  have f: "fblk x ?C j = fblk x C j" if "ind \<or> j < nb" for j using assms that by (auto simp: fblk_def has_blocks_def split: if_splits)
  then have "fblk x ?C ` {..<nb} = fblk x C ` {..<nb}" "inj_on (fblk x ?C) {..<nb} = inj_on (fblk x C) {..<nb}"
    by (auto simp: inj_on_def)
  then have "has_blocks x ?C fb ind nb" "own x ?C ind nb = own x C ind nb" using assms f by (auto simp: has_blocks_def own_def)
  then show ?thesis using assms(2) by (auto simp: file_grown_def own_def)
qed

text \<open>The effect of storing a block of the file.\<close>

lemma fblk_upd:
  assumes "file_ok x C nb" "bn < nb" "length v = BSIZE"
  defines "D \<equiv> C(fblk x C bn := v)"
  shows "j < nb \<Longrightarrow> fblk x D j = fblk x C j" "file_ok x D nb" "j < nb \<Longrightarrow> D (fblk x C j) = (if j = bn then v else C (fblk x C j))"
proof -
  have f: "fblk x D j = fblk x C j" if "j < nb" for j
    using assms(1,2) that by (auto simp: D_def fblk_def file_ok_def)
  then show "j < nb \<Longrightarrow> fblk x D j = fblk x C j" .
  have inj: "inj_on (fblk x C) {..<nb}" using assms(1) by (simp add: file_ok_def)
  then have c: "D (fblk x C j) = (if j = bn then v else C (fblk x C j))" if "j < nb" for j
    using that assms(2) by (auto simp: D_def inj_on_def)
  then show "j < nb \<Longrightarrow> D (fblk x C j) = (if j = bn then v else C (fblk x C j))" .
  have "inj_on (fblk x D) {..<nb}" using inj f by (simp add: inj_on_def)
  then show "file_ok x D nb" using assms(1,3) f c by (auto simp: file_ok_def)
qed

lemma fbyte_upd:
  assumes ok: "file_ok x C nb" "off div BSIZE < nb" and bs: "off mod BSIZE + length bs \<le> BSIZE" and i: "i < nb * BSIZE"
  defines "k \<equiv> fblk x C (off div BSIZE)"
  defines "D \<equiv> C(k := put (C k) (off mod BSIZE) bs)"
  shows "fbyte x D i = (if off \<le> i \<and> i < off + length bs then bs ! (i - off) else fbyte x C i)"
proof -
  have len: "length (C k) = BSIZE" using ok by (simp add: file_ok_def k_def)
  then have "length (put (C k) (off mod BSIZE) bs) = BSIZE" using bs by simp
  note U = fblk_upd [OF ok this, folded k_def, folded D_def]
  have j: "i div BSIZE < nb" using i by (simp add: div_less_iff_less_mult)
  show ?thesis
  proof (cases "i div BSIZE = off div BSIZE")
    case True
    have e: "i = BSIZE * (off div BSIZE) + i mod BSIZE" "off = BSIZE * (off div BSIZE) + off mod BSIZE"
      unfolding True [symmetric] by (simp_all only: mult_div_mod_eq) (simp_all only: True mult_div_mod_eq)
    have "off \<le> i \<and> i < off + length bs \<longleftrightarrow> off mod BSIZE \<le> i mod BSIZE \<and> i mod BSIZE < off mod BSIZE + length bs"
      "i - off = i mod BSIZE - off mod BSIZE" using e by linarith+
    moreover have "D k ! (i mod BSIZE) = (if off mod BSIZE \<le> i mod BSIZE \<and> i mod BSIZE < off mod BSIZE + length bs
        then bs ! (i mod BSIZE - off mod BSIZE) else C k ! (i mod BSIZE))"
      using put_nth [of "off mod BSIZE" bs "C k" "i mod BSIZE"] bs len by (simp add: D_def)
    moreover have "fbyte x D i = D k ! (i mod BSIZE)" "fbyte x C i = C k ! (i mod BSIZE)"
      by (simp_all only: fbyte_def U(1) [OF j]) (simp_all only: True k_def)
    ultimately show ?thesis by (simp only:)
  next
    case False
    have "\<not> (off \<le> i \<and> i < off + length bs)"
    proof
      assume a: "off \<le> i \<and> i < off + length bs"
      then have "off mod BSIZE + (i - off) < BSIZE" using bs by linarith
      from block_pos(1) [OF this] show False using False a by simp
    qed
    then show ?thesis using U(1,3) [OF j] False unfolding fbyte_def by (simp only: if_False)
  qed
qed

lemma holds_append:
  assumes "file_ok x C nb" "holds x C bs" "length bs div BSIZE < nb" "length bs mod BSIZE + length cs \<le> BSIZE"
    "b = fblk x C (length bs div BSIZE)" "C' = C(b := put (C b) (length bs mod BSIZE) cs)"
  shows "holds x C' (bs @ cs)"
proof -
  have "fbyte x C' i = (if length bs \<le> i \<and> i < length bs + length cs then cs ! (i - length bs) else fbyte x C i)" if "i < nb * BSIZE" for i
    using fbyte_upd [OF assms(1,3,4) that] unfolding assms(5,6) .
  moreover have "length (bs @ cs) \<le> nb * BSIZE"
  proof -
    have "length bs = BSIZE * (length bs div BSIZE) + length bs mod BSIZE" by simp
    then have "length (bs @ cs) \<le> BSIZE * (length bs div BSIZE) + BSIZE" using assms(4) unfolding length_append by linarith
    also have "\<dots> = (length bs div BSIZE + 1) * BSIZE" by simp
    also have "\<dots> \<le> nb * BSIZE" using assms(3) by (intro mult_le_mono1) simp
    finally show ?thesis .
  qed
  ultimately show ?thesis using assms(2) by (auto simp: holds_def nth_append)
qed

lemma holds_same:
  assumes "holds x C bs" "\<And>j. j < nblk (length bs) \<Longrightarrow> fblk x' C' j = fblk x C j \<and> C' (fblk x C j) = C (fblk x C j)"
  shows "holds x' C' bs"
proof -
  have "fbyte x' C' i = fbyte x C i" if "i < length bs" for i
  proof -
    have "i < nblk (length bs) * BSIZE" using that nblk_cases(2) [of "length bs"] by linarith
    then have "i div BSIZE < nblk (length bs)" by (simp add: div_less_iff_less_mult)
    from assms(2) [OF this] show ?thesis by (simp add: fbyte_def)
  qed
  then show ?thesis using assms(1) by (simp add: holds_def)
qed

text \<open>A file of \<open>bs\<close> as the loop of \<^verbatim>\<open>iappend\<close> sees it.\<close>

definition filled :: "inode \<Rightarrow> mkfs \<Rightarrow> byte list \<Rightarrow> bool" where
  "filled x s bs \<longleftrightarrow> has_blocks x (img s) (unat (mk_freeblock s)) (NDIRECT < nblk (length bs)) (nblk (length bs)) \<and> holds x (img s) bs"

abbreviation (input) grows :: "inode \<Rightarrow> mkfs \<Rightarrow> nat \<Rightarrow> inode \<Rightarrow> mkfs \<Rightarrow> nat \<Rightarrow> bool" where
  "grows x s nb x' t nb' \<equiv> file_grown x (img s) (unat (mk_freeblock s)) (NDIRECT < nb) nb x' (img t) (unat (mk_freeblock t)) (NDIRECT < nb') nb'"

text \<open>One round of the loop.\<close>

lemma iappend_step:
  assumes "host_ok h" "base s" "x = of_dinode din y" "filled x s bs" "unat off = length bs" "p \<noteq> []"
    "n1 = min (length p) (BSIZE - length bs mod BSIZE)" "length bs < MAXFILE * BSIZE"
    "unat (mk_freeblock s) + need (nblk (length bs + n1)) \<le> FSSIZE + need (nblk (length bs))"
  obtains din' x' t where "iappend_loop h p off din s = iappend_loop h (drop n1 p) (off + of_nat n1) din' t"
    "x' = of_dinode din' y" "base t" "mk_freeinode t = mk_freeinode s" "din' = din\<lparr>d_addrs := d_addrs din'\<rparr>"
    "grows x s (nblk (length bs)) x' t (nblk (length bs + n1))" "filled x' t (bs @ take n1 p)"
proof -
  let ?f = "length bs div BSIZE" and ?nb = "nblk (length bs)"
  have lt: "length bs mod BSIZE < BSIZE" by simp
  have n1: "0 < n1" "n1 \<le> BSIZE - length bs mod BSIZE" "n1 \<le> length p" "length bs mod BSIZE + n1 \<le> BSIZE"
    using assms(6,7) lt by (cases p; simp)+
  have nb: "nblk (length bs + n1) = ?f + 1" by (rule nblk_cases(3) [OF n1(1,2)])
  have f: "?f < MAXFILE" "unat (off div 1024) = ?f" "unat off mod BSIZE = length bs mod BSIZE"
    using assms(5,8) by (simp_all add: div_less_iff_less_mult unat_div_distrib)
  have H: "has_blocks x (img s) (unat (mk_freeblock s)) (NDIRECT < ?nb) ?nb" "holds x (img s) bs" using assms(4) by (simp_all add: filled_def)
  obtain din' x' u where u: "append_block h ?f din s = Inr (fblk x' (img u) ?f, din', u)" "x' = of_dinode din' y" "base u"
    "mk_freeinode u = mk_freeinode s" "din' = din\<lparr>d_addrs := d_addrs din'\<rparr>" "grows x s ?nb x' u (?f + 1)"
    "\<And>j. j < ?nb \<Longrightarrow> fblk x' (img u) j = fblk x (img s) j \<and> img u (fblk x (img s) j) = img s (fblk x (img s) j)"
    by (rule append_block_ok [OF assms(1-3) H(1) f(1) nblk_cases(1)]) (use assms(9) nb that in simp_all)
  note B = baseD [OF u(3)]
  let ?b = "fblk x' (img u) ?f"
  have H': "has_blocks x' (img u) (unat (mk_freeblock u)) (NDIRECT < ?f + 1) (?f + 1)" using u(6) by (simp add: file_grown_def)
  then have b: "unat ?b < unat (mk_freeblock u)" by (simp add: has_blocks_def)
  have ok: "file_ok x' (img u) (?f + 1)" by (rule has_file_ok [OF H' B(5)])
  have hold: "holds x' (img u) bs" by (rule holds_same [OF H(2) u(7)])
  have r: "rsect h ?b u = Inr (img u ?b)" by (rule rsect_ok [OF assms(1) u(3)]) (use b B(4) in simp)
  let ?v = "put (img u ?b) (length bs mod BSIZE) (take n1 p)"
  have v: "length ?v = BSIZE" using B(5) [of ?b] n1(3,4) by simp
  obtain t where t: "wsect h ?b ?v u = Inr t" "base t" "img t = (img u)(?b := ?v)" "mk_freeblock t = mk_freeblock u" "mk_freeinode t = mk_freeinode u"
    by (rule wsect_ok [OF assms(1) u(3) b v])
  have "holds x' (img t) (bs @ take n1 p)"
    by (rule holds_append [OF ok hold _ _ refl t(3)]) (use n1 in simp_all)
  moreover have g: "grows x' u (?f + 1) x' t (?f + 1)" using file_grown_store [OF H', of ?f ?v] t(3,4) by simp
  ultimately have "filled x' t (bs @ take n1 p)" using nb n1(3) t(4) by (simp add: filled_def file_grown_def)
  moreover have "iappend_loop h p off din s = iappend_loop h (drop n1 p) (off + of_nat n1) din' t"
    using assms(5-7) f u(1) r t(1) by (subst iappend_loop.simps) (simp add: bnd_def Let_def)
  ultimately show ?thesis using that u(2,4,5) t(2,5) file_grown_trans [OF u(6) g] nb by simp
qed

lemma iappend_loop_ok:
  assumes "host_ok h" "base s" "x = of_dinode din y" "filled x s bs" "unat off = length bs" "length bs + length p \<le> MAXFILE * BSIZE"
    "unat (mk_freeblock s) + need (nblk (length bs + length p)) \<le> FSSIZE + need (nblk (length bs))"
  shows "\<exists>din' x' t. iappend_loop h p off din s = Inr (of_nat (length bs + length p), din', t) \<and> x' = of_dinode din' y \<and> base t \<and>
    mk_freeinode t = mk_freeinode s \<and> din' = din\<lparr>d_addrs := d_addrs din'\<rparr> \<and>
    grows x s (nblk (length bs)) x' t (nblk (length bs + length p)) \<and> filled x' t (bs @ p)"
  using assms
proof (induction "length p" arbitrary: p off din x s bs rule: less_induct)
  case less
  show ?case
  proof (cases "p = []")
    case True
    have "of_nat (unat off) = off" by simp
    then have "off = of_nat (length bs)" using less.prems(5) by simp
    then show ?thesis using True less.prems(3,4) file_grown_refl [of x "img s"] less.prems(2)
      by (subst iappend_loop.simps) (auto simp: filled_def)
  next
    case False
    define n1 where "n1 = min (length p) (BSIZE - length bs mod BSIZE)"
    have n1: "0 < n1" "n1 \<le> length p" using False by (auto simp: n1_def)
    have "nblk (length bs + n1) \<le> nblk (length bs + length p)" using n1(2) by (simp add: nblk_def div_le_mono)
    from need_mono [OF this] have fit: "unat (mk_freeblock s) + need (nblk (length bs + n1)) \<le> FSSIZE + need (nblk (length bs))"
      using less.prems(7) by simp
    have lb: "length bs < MAXFILE * BSIZE" using less.prems(6) n1 by simp
    obtain din1 x1 u where u: "iappend_loop h p off din s = iappend_loop h (drop n1 p) (off + of_nat n1) din1 u"
      "x1 = of_dinode din1 y" "base u" "mk_freeinode u = mk_freeinode s" "din1 = din\<lparr>d_addrs := d_addrs din1\<rparr>"
      "grows x s (nblk (length bs)) x1 u (nblk (length bs + n1))" "filled x1 u (bs @ take n1 p)"
      by (rule iappend_step [OF less.prems(1-5) False n1_def lb fit])
    have off: "unat (off + of_nat n1) = length (bs @ take n1 p)"
      using less.prems(5,6) n1 by (simp add: unat_word_ariths unat_of_nat)
    have eq: "unat (mk_freeblock u) + need (nblk (length bs)) = unat (mk_freeblock s) + need (nblk (length bs + n1))"
      using u(6) by (simp add: file_grown_def need_def)
    have len: "length (bs @ take n1 p) = length bs + n1" "length bs + n1 + length (drop n1 p) = length bs + length p"
      "(bs @ take n1 p) @ drop n1 p = bs @ p" using n1(2) by auto
    have "\<exists>din' x' t. iappend_loop h (drop n1 p) (off + of_nat n1) din1 u =
        Inr (of_nat (length (bs @ take n1 p) + length (drop n1 p)), din', t) \<and> x' = of_dinode din' y \<and> base t \<and>
      mk_freeinode t = mk_freeinode u \<and> din' = din1\<lparr>d_addrs := d_addrs din'\<rparr> \<and>
      grows x1 u (nblk (length (bs @ take n1 p))) x' t (nblk (length (bs @ take n1 p) + length (drop n1 p))) \<and>
      filled x' t ((bs @ take n1 p) @ drop n1 p)"
      by (rule less.hyps [OF _ less.prems(1) u(3,2,7) off]) (use n1 less.prems(6,7) eq in auto)
    note this [unfolded len, folded u(1), unfolded u(4)]
    then obtain din' x' t where t: "iappend_loop h p off din s = Inr (of_nat (length bs + length p), din', t)" "x' = of_dinode din' y" "base t"
      "mk_freeinode t = mk_freeinode s" "din' = din1\<lparr>d_addrs := d_addrs din'\<rparr>"
      "grows x1 u (nblk (length bs + n1)) x' t (nblk (length bs + length p))" "filled x' t (bs @ p)"
      by blast
    have "din' = din\<lparr>d_addrs := d_addrs din'\<rparr>" using t(5) u(5) by (metis dinode.update_convs(6) dinode.surjective)
    then show ?thesis using t file_grown_trans [OF u(6) t(6)] by blast
  qed
qed

section \<open>The inodes of the image\<close>

definition node :: "inode \<Rightarrow> mkfs \<Rightarrow> nat \<Rightarrow> inode" where
  "node y s i = loaded mk_super (img s) (of_nat i) y"

lemma super_sel: "sb_inodestart mk_super = 32" "sb_bmapstart mk_super = 45"
  by (simp_all add: mk_super_def)

lemma IBLOCK_range:
  assumes "i < NINODES"
  shows "32 \<le> unat (IBLOCK (of_nat i) mk_super)" "unat (IBLOCK (of_nat i) mk_super) < 45"
proof -
  have "unat (of_nat i div 16 :: u32) = i div 16" using assms by (simp add: unat_div_distrib unat_of_nat)
  moreover have "i div 16 < 13" using assms by (simp add: div_less_iff_less_mult)
  ultimately have "unat (IBLOCK (of_nat i) mk_super) = i div 16 + 32" by (simp add: IBLOCK_def super_sel unat_word_ariths)
  then show "32 \<le> unat (IBLOCK (of_nat i) mk_super)" "unat (IBLOCK (of_nat i) mk_super) < 45" using \<open>i div 16 < 13\<close> by simp_all
qed

lemma rinode_ok:
  assumes "host_ok h" "base s" "i < NINODES"
  obtains din where "rinode h (of_nat i) s = Inr din" "of_dinode din y = node y s i"
proof -
  have "rsect h (IBLOCK (of_nat i) mk_super) s = Inr (img s (IBLOCK (of_nat i) mk_super))"
    by (rule rsect_ok [OF assms(1,2)]) (use IBLOCK_range [OF assms(3)] in simp)
  then show ?thesis using that baseD(2) [OF assms(2)] by (simp add: rinode_def bnd_def node_def loaded_def)
qed

lemma winode_ok:
  assumes "host_ok h" "base s" "i < NINODES"
  obtains t where "winode h (of_nat i) din s = Inr t" "base t" "mk_freeblock t = mk_freeblock s" "mk_freeinode t = mk_freeinode s"
    "\<And>k. unat k < 32 \<or> 45 \<le> unat k \<Longrightarrow> img t k = img s k"
    "\<And>j y. j < NINODES \<Longrightarrow> node y t j = (if j = i then of_dinode din y else node y s j)"
proof -
  let ?k = "IBLOCK (of_nat i) mk_super" and ?o = "dinode_off (of_nat i)"
  note B = baseD [OF assms(2)] and R = IBLOCK_range [OF assms(3)]
  have len: "length (enc_dinode din) = 64" "?o + 64 \<le> BSIZE" by (rule enc_length, rule dinode_off_bound)
  have r: "rsect h ?k s = Inr (img s ?k)" by (rule rsect_ok [OF assms(1,2)]) (use R in simp)
  have w: "unat ?k < unat (mk_freeblock s)" "length (put (img s ?k) ?o (enc_dinode din)) = BSIZE"
    using R B(3) B(5) [of ?k] len by simp_all
  obtain t where t: "wsect h ?k (put (img s ?k) ?o (enc_dinode din)) s = Inr t" "base t" "img t = (img s)(?k := put (img s ?k) ?o (enc_dinode din))"
    "mk_freeblock t = mk_freeblock s" "mk_freeinode t = mk_freeinode s"
    by (rule wsect_ok [OF assms(1,2) w])
  have "winode h (of_nat i) din s = Inr t" using r t(1) B(2) by (simp add: winode_def bnd_def)
  moreover have "img t k = img s k" if "unat k < 32 \<or> 45 \<le> unat k" for k using that R t(3) by auto
  moreover have "node y t j = (if j = i then of_dinode din y else node y s j)" if j: "j < NINODES" for j y
  proof -
    have same: "loaded mk_super C a y = of_dinode (dec_dinode (take 64 (drop (dinode_off a) (C (IBLOCK a mk_super))))) y" for C a
      by (simp add: loaded_def of_dinode_take)
    show ?thesis
    proof (cases "j = i")
      case True
      then show ?thesis using put_here [of ?o "enc_dinode din" "img s ?k"] len B(5) [of ?k] t(3) by (simp add: node_def same dec_enc)
    next
      case False
      moreover have "unat (of_nat j :: u32) = j" "unat (of_nat i :: u32) = i" using j assms(3) by (simp_all add: unat_of_nat)
      ultimately have ne: "(of_nat j :: u32) \<noteq> of_nat i" by metis
      show ?thesis
      proof (cases "IBLOCK (of_nat j) mk_super = ?k")
        case True
        from dinode_off_disjoint [OF this ne] show ?thesis
          using False True t(3) put_there [of ?o "enc_dinode din" "img s ?k" "dinode_off (of_nat j)" 64] len B(5) [of ?k] dinode_off_bound [of "of_nat j"]
          by (auto simp: node_def same)
      qed (use False t(3) in \<open>simp add: node_def same\<close>)
    qed
  qed
  ultimately show ?thesis using that t(2,4,5) by blast
qed

lemma blocks_cong:
  assumes "has_blocks x C fb ind nb" "i_addrs x' = i_addrs x" "\<And>k. k \<in> own x C ind nb \<Longrightarrow> C' k = C k" "fb \<le> fb'"
  shows "has_blocks x' C' fb' ind nb" "own x' C' ind nb = own x C ind nb" "nb = nblk (length bs) \<Longrightarrow> holds x C bs \<Longrightarrow> holds x' C' bs"
proof -
  have f: "fblk x' C' j = fblk x C j" if "ind \<or> j < nb" for j
    using assms(1-3) that by (auto simp: fblk_def has_blocks_def own_def split: if_splits)
  have "inj_on (fblk x' C') {..<nb} = inj_on (fblk x C) {..<nb}" using f by (auto simp: inj_on_def)
  then show "has_blocks x' C' fb' ind nb" using assms f by (fastforce simp: has_blocks_def)
  show "own x' C' ind nb = own x C ind nb" using assms(2) f by (auto simp: own_def)
  show "holds x' C' bs" if "nb = nblk (length bs)" "holds x C bs"
    by (rule holds_same [OF that(2)]) (use that(1) f assms(3) in \<open>auto simp: own_def\<close>)
qed

text \<open>
  The image after some calls: inode \<open>i\<close> has the type and the contents that \<open>F\<close> says, no block belongs to two
  inodes, and no block below the next free one is unused.
\<close>

abbreviation (input) blocks :: "(nat \<Rightarrow> u16 \<times> byte list) \<Rightarrow> nat \<Rightarrow> nat" where
  "blocks F i \<equiv> nblk (length (snd (F i)))"

definition own_of :: "inode \<Rightarrow> (nat \<Rightarrow> u16 \<times> byte list) \<Rightarrow> mkfs \<Rightarrow> nat \<Rightarrow> u32 set" where
  "own_of y F s i = own (node y s i) (img s) (NDIRECT < blocks F i) (blocks F i)"

definition node_ok :: "inode \<Rightarrow> (nat \<Rightarrow> u16 \<times> byte list) \<Rightarrow> mkfs \<Rightarrow> nat \<Rightarrow> bool" where
  "node_ok y F s i \<longleftrightarrow> i_type (node y s i) = fst (F i) \<and> i_nlink (node y s i) = 1 \<and>
     unat (i_size (node y s i)) = length (snd (F i)) \<and> filled (node y s i) s (snd (F i))"

definition meta :: "(u32 \<Rightarrow> byte list) \<Rightarrow> bool" where
  "meta C \<longleftrightarrow> C 1 = put zeros 0 (enc_sb mk_super) \<and> C 2 = zeros"

definition fs_inv :: "inode \<Rightarrow> (nat \<Rightarrow> u16 \<times> byte list) \<Rightarrow> mkfs \<Rightarrow> bool" where
  "fs_inv y F s \<longleftrightarrow> base s \<and> 1 \<le> unat (mk_freeinode s) \<and> unat (mk_freeinode s) \<le> NINODES \<and>
     meta (img s) \<and>
     unat (mk_freeblock s) = nmeta + (\<Sum>i \<in> {1..<unat (mk_freeinode s)}. need (blocks F i)) \<and>
     (\<forall>i \<in> {1..<unat (mk_freeinode s)}. node_ok y F s i) \<and>
     (\<forall>i \<in> {1..<unat (mk_freeinode s)}. \<forall>j \<in> {1..<unat (mk_freeinode s)}. i \<noteq> j \<longrightarrow> own_of y F s i \<inter> own_of y F s j = {})"

lemma own_range: "has_blocks x C fb ind nb \<Longrightarrow> k \<in> own x C ind nb \<Longrightarrow> nmeta \<le> unat k \<and> unat k < fb"
  by (auto simp: has_blocks_def own_def split: if_splits)

text \<open>An inode whose blocks have not been written is as it was.\<close>

lemma node_kept:
  assumes "node_ok y F s i" "node y t i = node y s i" "F' i = F i" "unat (mk_freeblock s) \<le> unat (mk_freeblock t)"
    "\<And>k. k \<in> own_of y F s i \<Longrightarrow> img t k = img s k"
  shows "node_ok y F' t i" "own_of y F' t i = own_of y F s i"
proof -
  have H: "has_blocks (node y s i) (img s) (unat (mk_freeblock s)) (NDIRECT < blocks F i) (blocks F i)" "holds (node y s i) (img s) (snd (F i))"
    using assms(1) by (simp_all add: node_ok_def filled_def)
  have o: "img t k = img s k" if "k \<in> own (node y s i) (img s) (NDIRECT < blocks F i) (blocks F i)" for k
    using assms(5) that by (simp add: own_of_def)
  note B = blocks_cong [OF H(1) refl, of "img t", OF o assms(4)]
  show "own_of y F' t i = own_of y F s i" using B(2) assms(2,3) by (simp add: own_of_def)
  show "node_ok y F' t i" using assms(1-3) B(1,3) H(2) by (simp add: node_ok_def filled_def)
qed

lemma fs_inv_update:
  assumes "fs_inv y F s" "1 \<le> i" "i < unat (mk_freeinode s)" "base t" "mk_freeinode t = mk_freeinode s" "F' = F(i := (ty, cs))"
    "unat (mk_freeblock s) \<le> unat (mk_freeblock t)" "unat (mk_freeblock t) + need (blocks F i) = unat (mk_freeblock s) + need (nblk (length cs))"
    "node_ok y F' t i" "own_of y F' t i \<subseteq> own_of y F s i \<union> {k. unat (mk_freeblock s) \<le> unat k}"
    "\<And>k. unat k < 32 \<or> nmeta \<le> unat k \<and> unat k < unat (mk_freeblock s) \<and> k \<notin> own_of y F s i \<Longrightarrow> img t k = img s k"
    "\<And>j. j < NINODES \<Longrightarrow> j \<noteq> i \<Longrightarrow> node y t j = node y s j"
  shows "fs_inv y F' t"
proof -
  let ?fi = "unat (mk_freeinode s)" and ?fb = "unat (mk_freeblock s)"
  have I: "?fi \<le> NINODES" "meta (img s)" "?fb = nmeta + (\<Sum>i \<in> {1..<?fi}. need (blocks F i))"
    "\<And>j. j \<in> {1..<?fi} \<Longrightarrow> node_ok y F s j" "\<And>j k. j \<in> {1..<?fi} \<Longrightarrow> k \<in> {1..<?fi} \<Longrightarrow> j \<noteq> k \<Longrightarrow> own_of y F s j \<inter> own_of y F s k = {}"
    using assms(1) by (auto simp: fs_inv_def)
  have i: "i \<in> {1..<?fi}" using assms(2,3) by simp
  have range: "nmeta \<le> unat k \<and> unat k < ?fb" if "j \<in> {1..<?fi}" "k \<in> own_of y F s j" for j k
    using I(4) [OF that(1)] that(2) by (auto simp: node_ok_def filled_def own_of_def dest: own_range)
  have K: "node_ok y F' t j \<and> own_of y F' t j = own_of y F s j" if j: "j \<in> {1..<?fi}" "j \<noteq> i" for j
  proof -
    have "img t k = img s k" if k: "k \<in> own_of y F s j" for k
      using range [OF j(1) k] I(5) [OF j(1) i j(2)] k by (intro assms(11)) auto
    moreover have "node y t j = node y s j" using j I(1) by (intro assms(12)) auto
    ultimately show ?thesis using node_kept [OF I(4) [OF j(1)], of t F'] assms(6,7) j(2) by simp
  qed
  have disj: "own_of y F' t i \<inter> own_of y F' t j = {}" if j: "j \<in> {1..<?fi}" "j \<noteq> i" for j
    using assms(10) K [OF j] I(5) [OF i j(1)] range [OF j(1)] j(2) by fastforce
  have "own_of y F' t j \<inter> own_of y F' t k = {}" if "j \<in> {1..<?fi}" "k \<in> {1..<?fi}" "j \<noteq> k" for j k
    using that disj [of j] disj [of k] K [of j] K [of k] I(5) [of j k] by (cases "j = i"; cases "k = i") auto
  moreover have "node_ok y F' t j" if "j \<in> {1..<?fi}" for j using K [OF that] assms(9) by (cases "j = i") auto
  moreover have "unat (mk_freeblock t) = nmeta + (\<Sum>j \<in> {1..<?fi}. need (blocks F' j))"
  proof -
    have "(\<Sum>j \<in> {1..<?fi} - {i}. need (blocks F' j)) = (\<Sum>j \<in> {1..<?fi} - {i}. need (blocks F j))"
      using assms(6) by (intro sum.cong) auto
    moreover have "need (blocks F' i) = need (nblk (length cs))" using assms(6) by simp
    ultimately show ?thesis using I(3) assms(8) sum.remove [OF _ i, of "\<lambda>j. need (blocks F' j)"] sum.remove [OF _ i, of "\<lambda>j. need (blocks F j)"] by simp
  qed
  moreover have "img t 1 = img s 1" "img t 2 = img s 2" by (rule assms(11), simp)+
  then have "meta (img t)" using I(2) by (simp add: meta_def)
  ultimately show ?thesis using assms(1,4,5) I(1,2) by (simp add: fs_inv_def)
qed

lemma iappend_parts:
  assumes "host_ok h" "base s" "i < NINODES" "unat (i_size (node y s i)) = length bs" "filled (node y s i) s bs"
    "length bs + length p \<le> MAXFILE * BSIZE" "unat (mk_freeblock s) + need (nblk (length bs + length p)) \<le> FSSIZE + need (nblk (length bs))"
  obtains x' u t where "iappend h (of_nat i) p s = Inr t" "base t" "mk_freeblock t = mk_freeblock u" "mk_freeinode t = mk_freeinode s"
    "grows (node y s i) s (nblk (length bs)) x' u (nblk (length bs + length p))" "filled x' u (bs @ p)"
    "\<And>k. unat k < 32 \<or> 45 \<le> unat k \<Longrightarrow> img t k = img u k" "node y t i = x'\<lparr>i_size := of_nat (length bs + length p)\<rparr>"
    "i_type x' = i_type (node y s i)" "i_nlink x' = i_nlink (node y s i)" "\<And>j. j < NINODES \<Longrightarrow> j \<noteq> i \<Longrightarrow> node y t j = node y s j"
proof -
  let ?nb = "nblk (length bs)" and ?nb' = "nblk (length bs + length p)"
  obtain din where din: "rinode h (of_nat i) s = Inr din" "of_dinode din y = node y s i"
    by (rule rinode_ok [OF assms(1-3)])
  have sz: "unat (d_size din) = length bs" using assms(4) din(2) [symmetric] by (simp add: of_dinode_sel)
  from iappend_loop_ok [OF assms(1,2) din(2) [symmetric] assms(5) sz assms(6,7)] obtain din' x' u where
    u: "iappend_loop h p (d_size din) din s = Inr (of_nat (length bs + length p), din', u)" "x' = of_dinode din' y" "base u"
      "mk_freeinode u = mk_freeinode s" "din' = din\<lparr>d_addrs := d_addrs din'\<rparr>" "grows (node y s i) s ?nb x' u ?nb'" "filled x' u (bs @ p)" by blast
  let ?d = "din'\<lparr>d_size := of_nat (length bs + length p)\<rparr>"
  obtain t where t: "winode h (of_nat i) ?d u = Inr t" "base t" "mk_freeblock t = mk_freeblock u" "mk_freeinode t = mk_freeinode u"
    "\<And>k. unat k < 32 \<or> 45 \<le> unat k \<Longrightarrow> img t k = img u k" "\<And>j y. j < NINODES \<Longrightarrow> node y t j = (if j = i then of_dinode ?d y else node y u j)"
    by (rule winode_ok [OF assms(1) u(3) assms(3), where din = ?d]) (rule that)
  have run: "iappend h (of_nat i) p s = Inr t" using din(1) u(1) t(1) by (simp add: iappend_def bnd_def)
  have x: "node y t i = x'\<lparr>i_size := of_nat (length bs + length p)\<rparr>" using t(6) [OF assms(3)] u(2) by (simp add: of_dinode_size)
  have "d_type din' = d_type din" "d_nlink din' = d_nlink din" using arg_cong [OF u(5), of d_type] arg_cong [OF u(5), of d_nlink] by simp_all
  then have m: "i_type x' = i_type (node y s i)" "i_nlink x' = i_nlink (node y s i)" using din(2) [symmetric] u(2) by (simp_all add: of_dinode_sel)
  have near: "node y t j = node y s j" if j: "j < NINODES" "j \<noteq> i" for j
  proof -
    let ?k = "IBLOCK (of_nat j) mk_super"
    have "?k \<notin> own (node y s i) (img s) (NDIRECT < ?nb) ?nb" using IBLOCK_range [OF j(1)] assms(5) by (auto simp: filled_def dest: own_range)
    then have "img u ?k = img s ?k" using IBLOCK_range [OF j(1)] baseD(3) [OF assms(2)] u(6) by (simp add: file_grown_def)
    then show ?thesis using t(6) [OF j(1)] j(2) by (simp add: node_def loaded_def)
  qed
  show ?thesis by (rule that [OF run t(2,3) _ u(6,7) t(5) x m near]) (use t(4) u(4) in simp)
qed

lemma iappend_inv:
  assumes "host_ok h" "fs_inv y F s" "1 \<le> i" "i < unat (mk_freeinode s)" "F i = (ty, bs)" "length bs + length p \<le> MAXFILE * BSIZE"
    "unat (mk_freeblock s) + need (nblk (length bs + length p)) \<le> FSSIZE + need (nblk (length bs))"
  obtains t where "iappend h (of_nat i) p s = Inr t" "fs_inv y (F(i := (ty, bs @ p))) t" "mk_freeinode t = mk_freeinode s"
proof -
  let ?nb = "nblk (length bs)" and ?nb' = "nblk (length bs + length p)" and ?F = "F(i := (ty, bs @ p))"
  have I: "base s" "unat (mk_freeinode s) \<le> NINODES" "node_ok y F s i" "i < NINODES" using assms(2-4) by (auto simp: fs_inv_def)
  have N: "i_type (node y s i) = ty" "i_nlink (node y s i) = 1" "unat (i_size (node y s i)) = length bs" "filled (node y s i) s bs"
    using I(3) assms(5) by (simp_all add: node_ok_def)
  obtain x' u t where t: "iappend h (of_nat i) p s = Inr t" "base t" "mk_freeblock t = mk_freeblock u" "mk_freeinode t = mk_freeinode s"
    "grows (node y s i) s ?nb x' u ?nb'" "filled x' u (bs @ p)"
    "\<And>k. unat k < 32 \<or> 45 \<le> unat k \<Longrightarrow> img t k = img u k" "node y t i = x'\<lparr>i_size := of_nat (length bs + length p)\<rparr>"
    "i_type x' = i_type (node y s i)" "i_nlink x' = i_nlink (node y s i)" "\<And>j. j < NINODES \<Longrightarrow> j \<noteq> i \<Longrightarrow> node y t j = node y s j"
    by (rule iappend_parts [OF assms(1) I(1,4) N(3,4) assms(6,7)]) (rule that)
  have H: "has_blocks x' (img u) (unat (mk_freeblock u)) (NDIRECT < ?nb') ?nb'" "holds x' (img u) (bs @ p)" using t(6) by (simp_all add: filled_def)
  have "img t k = img u k" if "k \<in> own x' (img u) (NDIRECT < ?nb') ?nb'" for k using own_range [OF H(1) that] t(7) by simp
  note C = blocks_cong [OF H(1) _ this order_refl, of "node y t i"]
  have n: "node_ok y ?F t i"
    using C(1,3) H(2) t(3,8-10) N(1,2) assms(6) by (simp add: node_ok_def filled_def unat_of_nat del: of_nat_add)
  have o: "own_of y F s i = own (node y s i) (img s) (NDIRECT < ?nb) ?nb" "own_of y ?F t i = own x' (img u) (NDIRECT < ?nb') ?nb'"
    using assms(5) C(2) t(8) by (simp_all add: own_of_def)
  have far: "img t k = img s k" if "unat k < 32 \<or> nmeta \<le> unat k \<and> unat k < unat (mk_freeblock s) \<and> k \<notin> own_of y F s i" for k
  proof -
    have "unat k < unat (mk_freeblock s)" "k \<notin> own_of y F s i" using that baseD(3) [OF I(1)] N(4) o(1) by (auto simp: filled_def dest: own_range)
    then show ?thesis using t(5) t(7) [of k] that o(1) by (auto simp: file_grown_def)
  qed
  have "fs_inv y ?F t"
    by (rule fs_inv_update [OF assms(2-4) t(2) _ refl _ _ n _ far t(11)])
      (use t(3-5) o assms(5) in \<open>auto simp: file_grown_def need_def\<close>)
  then show ?thesis using that t(1,4) by simp
qed

text \<open>A new inode is an empty file.\<close>

lemma ialloc_inv:
  assumes "host_ok h" "fs_inv y F s" "i = unat (mk_freeinode s)" "i < NINODES"
  obtains t where "mk_ialloc h ty s = Inr (of_nat i, t)" "fs_inv y (F(i := (ty, []))) t" "unat (mk_freeinode t) = i + 1"
    "mk_freeblock t = mk_freeblock s"
proof -
  let ?s = "s\<lparr>mk_freeinode := mk_freeinode s + 1\<rparr>" and ?F = "F(i := (ty, []))"
  let ?d = "\<lparr>d_type = ty, d_major = 0, d_minor = 0, d_nlink = 1, d_size = 0, d_addrs = (\<lambda>_. 0)\<rparr>"
  have I: "base s" "1 \<le> i" "meta (img s)" "unat (mk_freeblock s) = nmeta + (\<Sum>j \<in> {1..<i}. need (blocks F j))"
    "\<And>j. j \<in> {1..<i} \<Longrightarrow> node_ok y F s j" "\<And>j k. j \<in> {1..<i} \<Longrightarrow> k \<in> {1..<i} \<Longrightarrow> j \<noteq> k \<Longrightarrow> own_of y F s j \<inter> own_of y F s k = {}"
    using assms(2,3) by (auto simp: fs_inv_def)
  have im: "img ?s = img s" by (simp add: img_def fun_eq_iff)
  then have e: "img ?s = img s" "base ?s" "node y ?s j = node y s j" for j using I(1) by (simp_all add: base_def node_def)
  obtain t where t: "winode h (of_nat i) ?d ?s = Inr t" "base t" "mk_freeblock t = mk_freeblock ?s" "mk_freeinode t = mk_freeinode ?s"
    "\<And>k. unat k < 32 \<or> 45 \<le> unat k \<Longrightarrow> img t k = img ?s k" "\<And>j y. j < NINODES \<Longrightarrow> node y t j = (if j = i then of_dinode ?d y else node y ?s j)"
    by (rule winode_ok [OF assms(1) e(2) assms(4), where din = ?d]) (rule that)
  have fi: "unat (mk_freeinode t) = i + 1" using t(4) assms(3,4) by (simp add: unat_word_ariths)
  have "of_nat i = mk_freeinode s" using assms(3) by simp
  then have run: "mk_ialloc h ty s = Inr (of_nat i, t)" using t(1) by (simp add: mk_ialloc_def bnd_def)
  have K: "node_ok y ?F t j \<and> own_of y ?F t j = own_of y F s j" if j: "j \<in> {1..<i}" for j
  proof -
    have "img t k = img s k" if "k \<in> own_of y F s j" for k
      using I(5) [OF j] that t(5) [of k] e(1) by (auto simp: node_ok_def filled_def own_of_def dest: own_range)
    then show ?thesis using node_kept [OF I(5) [OF j], of t ?F] j assms(4) t(3,6) e(3) by simp
  qed
  have "i_addrs (node y t i) j = 0" if "j \<le> NDIRECT" for j using that t(6) [OF assms(4)] by (simp add: of_dinode_addr)
  then have n: "node_ok y ?F t i" "own_of y ?F t i = {}"
    using t(6) [OF assms(4)] by (simp_all add: node_ok_def of_dinode_sel filled_def has_blocks_def holds_def nblk_def own_of_def own_def)
  have at: "{1..<i + 1} = insert i {1..<i}" using I(2) by auto
  have "\<forall>j \<in> {1..<i + 1}. node_ok y ?F t j" unfolding at using K n(1) by blast
  moreover have "\<forall>j \<in> {1..<i + 1}. \<forall>k \<in> {1..<i + 1}. j \<noteq> k \<longrightarrow> own_of y ?F t j \<inter> own_of y ?F t k = {}"
    unfolding at using K n(2) I(6) by auto
  moreover have "(\<Sum>j \<in> {1..<i + 1}. need (blocks ?F j)) = (\<Sum>j \<in> {1..<i}. need (blocks F j))"
    unfolding at by (auto simp: need_def nblk_def intro: sum.cong)
  moreover have "meta (img t)" using t(5) [of 1] t(5) [of 2] I(3) e(1) by (simp add: meta_def)
  ultimately have "fs_inv y ?F t" using fi t(2,3) I(4) assms(4) by (simp add: fs_inv_def)
  then show ?thesis using that run fi t(3) by simp
qed

section \<open>The whole image\<close>

lemma zero_sectors_snoc: "zero_sectors h (is @ [i]) s = bnd (zero_sectors h is s) (wsect h (of_nat i) zeros)"
  by (induction "is" arbitrary: s) (auto simp: bnd_def split: sum.splits)

lemma zero_sectors_ok:
  assumes "host_ok h" "mk_len s = 0" "n < FSSIZE"
  shows "zero_sectors h [0..<Suc n] s = Inr (s\<lparr>mk_img := (\<lambda>_. zeros), mk_len := Suc n\<rparr>)"
  using assms(3)
proof (induction n)
  case 0
  have "sector 0 = 0" by (simp add: sector_def)
  then show ?case using assms(1,2) by (simp add: wsect_def host_ok_def bnd_def cong: if_cong)
next
  case (Suc n)
  have n: "sector (of_nat (Suc n)) = Suc n"
    using sector_small [of "of_nat (Suc n)"] Suc.prems by (simp add: unat_of_nat del: of_nat_Suc)
  have "zero_sectors h [0..<Suc (Suc n)] s = bnd (zero_sectors h [0..<Suc n] s) (wsect h (of_nat (Suc n)) zeros)"
    using zero_sectors_snoc [of h "[0..<Suc n]" "Suc n" s] by simp
  also have "\<dots> = Inr (s\<lparr>mk_img := (\<lambda>_. zeros), mk_len := Suc (Suc n)\<rparr>)"
    unfolding Suc.IH [OF Suc_lessD [OF Suc.prems]]
    using n assms(1) Suc.prems by (simp add: wsect_def host_ok_def bnd_def Let_def fun_eq_iff del: of_nat_Suc)
  finally show ?case .
qed

abbreviation (input) mk_start :: mkfs where
  "mk_start \<equiv> \<lparr>mk_img = (\<lambda>_. []), mk_len = 0, mk_sb = mk_super, mk_freeinode = 1, mk_freeblock = of_nat nmeta\<rparr>"

lemma enc_sb_length: "length (enc_sb q) = 32"
  by (simp add: enc_sb_def)

lemma dec_enc_sb: "dec_sb (put zeros 0 (enc_sb q)) = q"
  by (simp add: dec_sb_def enc_sb_def put_def get32_def le_word_bytes)

lemma start_inv:
  assumes "host_ok h"
  obtains s t where "zero_sectors h [0..<FSSIZE] mk_start = Inr s" "mk_sb s = mk_super"
    "wsect h 1 (put zeros 0 (enc_sb mk_super)) s = Inr t" "fs_inv y F t" "unat (mk_freeinode t) = 1"
proof -
  let ?s = "mk_start\<lparr>mk_img := (\<lambda>_. zeros), mk_len := FSSIZE\<rparr>"
  have z: "zero_sectors h [0..<FSSIZE] mk_start = Inr ?s" using zero_sectors_ok [OF assms, of mk_start 1999] by simp
  have b: "base ?s" by (simp add: base_def img_def)
  have w: "unat (1 :: u32) < unat (mk_freeblock ?s)" "length (put zeros 0 (enc_sb mk_super)) = BSIZE" by (simp_all add: enc_sb_length)
  obtain t where t: "wsect h 1 (put zeros 0 (enc_sb mk_super)) ?s = Inr t" "base t" "img t = (img ?s)(1 := put zeros 0 (enc_sb mk_super))"
    "mk_freeblock t = mk_freeblock ?s" "mk_freeinode t = mk_freeinode ?s" by (rule wsect_ok [OF assms b w])
  have "meta (img t)" using t(3) by (simp add: meta_def img_def)
  then have "fs_inv y F t" using t(2,4,5) by (simp add: fs_inv_def)
  then show ?thesis using that [OF z _ t(1)] t(5) by simp
qed

text \<open>What is to be stored: the contents of an input file, its name, and the entries of the root directory.\<close>

definition data :: "byte list \<times> byte list list option \<Rightarrow> byte list" where
  "data f = concat (takeWhile (\<lambda>b. b \<noteq> []) (the (snd f)))"

definition name_of :: "byte list \<times> byte list list option \<Rightarrow> byte list" where
  "name_of f = strip_underscore (shortname (fst f))"

definition good_file :: "byte list \<times> byte list list option \<Rightarrow> bool" where
  "good_file f \<longleftrightarrow> SLASH \<notin> set (shortname (fst f)) \<and> snd f \<noteq> None \<and> length (name_of f) \<le> DIRSIZ \<and> length (data f) \<le> MAXFILE * BSIZE"

fun ents :: "nat \<Rightarrow> (byte list \<times> byte list list option) list \<Rightarrow> byte list" where
  "ents i [] = []"
| "ents i (f # fs) = dirent (of_nat i) (name_of f) @ ents (i + 1) fs"

definition used_by :: "(byte list \<times> byte list list option) list \<Rightarrow> nat" where
  "used_by fs = (\<Sum>f \<leftarrow> fs. need (nblk (length (data f))))"

lemma dirent_length: "length (dirent i name) = 16"
  by (simp add: dirent_def)

lemma nblk_mono: "m \<le> n \<Longrightarrow> need (nblk m) \<le> need (nblk n)"
  by (rule need_mono) (simp add: nblk_def div_le_mono)

lemma freeblock_update:
  assumes "fs_inv y F s" "fs_inv y (F(i := (ty, cs))) t" "mk_freeinode t = mk_freeinode s" "1 \<le> i" "i < unat (mk_freeinode s)"
  shows "unat (mk_freeblock t) + need (blocks F i) = unat (mk_freeblock s) + need (nblk (length cs))"
proof -
  let ?A = "{1..<unat (mk_freeinode s)}" and ?F = "F(i := (ty, cs))"
  have i: "i \<in> ?A" using assms(4,5) by simp
  have "(\<Sum>j \<in> ?A - {i}. need (blocks ?F j)) = (\<Sum>j \<in> ?A - {i}. need (blocks F j))" by (intro sum.cong) auto
  then show ?thesis using assms(1-3) sum.remove [OF _ i, of "\<lambda>j. need (blocks ?F j)"] sum.remove [OF _ i, of "\<lambda>j. need (blocks F j)"]
    by (simp add: fs_inv_def)
qed

lemma append_all_inv:
  assumes "host_ok h" "fs_inv y F s" "1 \<le> i" "i < unat (mk_freeinode s)" "F i = (ty, bs)" "cs = concat (takeWhile (\<lambda>b. b \<noteq> []) reads)"
    "length bs + length cs \<le> MAXFILE * BSIZE" "unat (mk_freeblock s) + need (nblk (length bs + length cs)) \<le> FSSIZE + need (nblk (length bs))"
  shows "\<exists>t. append_all h (of_nat i) reads s = Inr t \<and> fs_inv y (F(i := (ty, bs @ cs))) t \<and> mk_freeinode t = mk_freeinode s"
  using assms
proof (induction reads arbitrary: F s bs cs)
  case Nil
  have "F(i := (ty, bs @ cs)) = F" using Nil.prems(5,6) by auto
  then show ?case using Nil.prems(2) by simp
next
  case (Cons b reads)
  show ?case
  proof (cases "b = []")
    case True
    then have "F(i := (ty, bs @ cs)) = F" using Cons.prems(5,6) by auto
    then show ?thesis using Cons.prems(2) True by simp
  next
    case False
    let ?cs = "concat (takeWhile (\<lambda>b. b \<noteq> []) reads)"
    have cs: "cs = b @ ?cs" using False Cons.prems(6) by simp
    have le: "need (nblk (length bs + length b)) \<le> need (nblk (length bs + length cs))" using cs by (intro nblk_mono) simp
    obtain u where u: "iappend h (of_nat i) b s = Inr u" "fs_inv y (F(i := (ty, bs @ b))) u" "mk_freeinode u = mk_freeinode s"
      by (rule iappend_inv [OF Cons.prems(1-5), of b]) (use Cons.prems(7,8) cs le in auto)
    have fb: "unat (mk_freeblock u) + need (nblk (length bs)) = unat (mk_freeblock s) + need (nblk (length bs + length b))"
      using freeblock_update [OF Cons.prems(2) u(2,3) Cons.prems(3,4)] Cons.prems(5) by simp
    have "\<exists>t. append_all h (of_nat i) reads u = Inr t \<and> fs_inv y ((F(i := (ty, bs @ b)))(i := (ty, (bs @ b) @ ?cs))) t \<and> mk_freeinode t = mk_freeinode u"
      by (rule Cons.IH [OF Cons.prems(1) u(2) Cons.prems(3)]) (use Cons.prems(4,7,8) u(3) cs fb in \<open>auto simp: add.assoc\<close>)
    note this [unfolded fun_upd_upd append_assoc u(3), folded cs]
    moreover have "append_all h (of_nat i) (b # reads) s = append_all h (of_nat i) reads u" using u(1) False by (simp add: bnd_def)
    ultimately show ?thesis by (simp only:)
  qed
qed

lemma add_file_inv:
  assumes "host_ok h" "fs_inv y F s" "i = unat (mk_freeinode s)" "1 < i" "i < NINODES" "F 1 = (T_DIR, bs)" "good_file f"
    "length bs + 16 \<le> MAXFILE * BSIZE"
    "unat (mk_freeblock s) + need (nblk (length bs + 16)) + need (nblk (length (data f))) \<le> FSSIZE + need (nblk (length bs))"
  shows "\<exists>t. add_file h 1 f s = Inr t \<and> fs_inv y (F(1 := (T_DIR, bs @ dirent (of_nat i) (name_of f)), i := (T_FILE, data f))) t \<and>
    unat (mk_freeinode t) = i + 1 \<and>
    unat (mk_freeblock t) + need (nblk (length bs)) = unat (mk_freeblock s) + need (nblk (length bs + 16)) + need (nblk (length (data f)))"
proof -
  let ?d = "dirent (of_nat i) (name_of f)"
  let ?F = "F(i := (T_FILE, []))" let ?G = "?F(1 := (T_DIR, bs @ ?d))"
  obtain reads where f: "snd f = Some reads" using assms(7) by (auto simp: good_file_def)
  obtain u where u: "mk_ialloc h T_FILE s = Inr (of_nat i, u)" "fs_inv y ?F u" "unat (mk_freeinode u) = i + 1"
    "mk_freeblock u = mk_freeblock s"
    by (rule ialloc_inv [OF assms(1-3,5)])
  have F1: "?F 1 = (T_DIR, bs)" using assms(4,6) by simp
  have c: "1 < unat (mk_freeinode u)" "length bs + length ?d \<le> MAXFILE * BSIZE"
    "unat (mk_freeblock u) + need (nblk (length bs + length ?d)) \<le> FSSIZE + need (nblk (length bs))"
    using u(3,4) assms(4,8,9) by (simp_all add: dirent_length)
  obtain v where v: "iappend h (of_nat 1) ?d u = Inr v" "fs_inv y ?G v" "mk_freeinode v = mk_freeinode u"
    by (rule iappend_inv [OF assms(1) u(2) order_refl c(1) F1 c(2,3)])
  have fbv: "unat (mk_freeblock v) + need (nblk (length bs)) = unat (mk_freeblock u) + need (nblk (length bs + 16))"
    using freeblock_update [OF u(2) v(2,3)] u(3) assms(4) F1 by (simp add: dirent_length)
  have z: "need (nblk 0) = 0" by (simp add: need_def nblk_def)
  have d: "data f = concat (takeWhile (\<lambda>b. b \<noteq> []) reads)" using f by (simp add: data_def)
  have Gi: "?G i = (T_FILE, [])" using assms(4) by simp
  have "\<exists>t. append_all h (of_nat i) reads v = Inr t \<and> fs_inv y (?G(i := (T_FILE, [] @ data f))) t \<and> mk_freeinode t = mk_freeinode v"
    by (rule append_all_inv [OF assms(1) v(2) _ _ Gi d])
      (use v(3) u(3) assms(4,7,9) u(4) fbv z in \<open>auto simp: good_file_def\<close>)
  then obtain t where t: "append_all h (of_nat i) reads v = Inr t" "fs_inv y (?G(i := (T_FILE, data f))) t" "mk_freeinode t = mk_freeinode v" by auto
  have "ucast (of_nat i :: u32) = (of_nat i :: u16)" using assms(5) by (simp add: unsigned_of_nat take_bit_nat_eq_self)
  then have "add_file h 1 f s = Inr t"
    using u(1) v(1) t(1) f assms(7) by (simp add: add_file_def good_file_def name_of_def bnd_def)
  moreover have "?G(i := (T_FILE, data f)) = F(1 := (T_DIR, bs @ ?d), i := (T_FILE, data f))" by auto
  moreover have "unat (mk_freeblock t) = unat (mk_freeblock v) + need (nblk (length (data f)))"
    using freeblock_update [OF v(2) t(2,3)] v(3) u(3) assms(4) Gi z by simp
  ultimately show ?thesis using t(2,3) v(3) u(3,4) fbv by simp
qed

lemma add_files_inv:
  assumes "host_ok h" "fs_inv y F s" "i = unat (mk_freeinode s)" "1 < i" "i + length fs \<le> NINODES" "F 1 = (T_DIR, bs)" "\<forall>f \<in> set fs. good_file f"
    "length bs + 16 * length fs \<le> MAXFILE * BSIZE"
    "unat (mk_freeblock s) + need (nblk (length bs + 16 * length fs)) + used_by fs \<le> FSSIZE + need (nblk (length bs))"
  shows "\<exists>F' t. add_files h 1 fs s = Inr t \<and> fs_inv y F' t \<and> unat (mk_freeinode t) = i + length fs \<and> F' 1 = (T_DIR, bs @ ents i fs) \<and>
    (\<forall>j. 1 < j \<longrightarrow> j < i \<longrightarrow> F' j = F j) \<and> (\<forall>k < length fs. F' (i + k) = (T_FILE, data (fs ! k))) \<and>
    unat (mk_freeblock t) + need (nblk (length bs)) = unat (mk_freeblock s) + need (nblk (length bs + 16 * length fs)) + used_by fs"
  using assms
proof (induction fs arbitrary: F s i bs)
  case Nil
  then show ?case by (auto simp: used_by_def)
next
  case (Cons f fs)
  let ?d = "dirent (of_nat i) (name_of f)" and ?F = "F(1 := (T_DIR, bs @ dirent (of_nat i) (name_of f)), i := (T_FILE, data f))"
  have le: "need (nblk (length bs + 16)) \<le> need (nblk (length bs + 16 * length (f # fs)))" by (intro nblk_mono) simp
  have c: "i < NINODES" "good_file f" "length bs + 16 \<le> MAXFILE * BSIZE"
    "unat (mk_freeblock s) + need (nblk (length bs + 16)) + need (nblk (length (data f))) \<le> FSSIZE + need (nblk (length bs))"
    using Cons.prems(5,7-9) le by (simp_all add: used_by_def)
  from add_file_inv [OF Cons.prems(1-4) c(1) Cons.prems(6) c(2-4)] obtain u where
    u: "add_file h 1 f s = Inr u" "fs_inv y ?F u" "unat (mk_freeinode u) = i + 1"
      "unat (mk_freeblock u) + need (nblk (length bs)) = unat (mk_freeblock s) + need (nblk (length bs + 16)) + need (nblk (length (data f)))" by blast
  have F1: "?F 1 = (T_DIR, bs @ ?d)" using Cons.prems(4) by simp
  have len: "length (bs @ ?d) = length bs + 16" "length bs + 16 + 16 * length fs = length bs + 16 * length (f # fs)" by (simp_all add: dirent_length)
  have "\<exists>F' t. add_files h 1 fs u = Inr t \<and> fs_inv y F' t \<and> unat (mk_freeinode t) = i + 1 + length fs \<and> F' 1 = (T_DIR, (bs @ ?d) @ ents (i + 1) fs) \<and>
    (\<forall>j. 1 < j \<longrightarrow> j < i + 1 \<longrightarrow> F' j = ?F j) \<and> (\<forall>k < length fs. F' (i + 1 + k) = (T_FILE, data (fs ! k))) \<and>
    unat (mk_freeblock t) + need (nblk (length (bs @ ?d))) = unat (mk_freeblock u) + need (nblk (length (bs @ ?d) + 16 * length fs)) + used_by fs"
    by (rule Cons.IH [OF Cons.prems(1) u(2) u(3) [symmetric] _ _ F1])
      (use Cons.prems(4,5,7-9) u(4) in \<open>simp_all only: len, simp_all add: used_by_def add.assoc\<close>)
  note this [unfolded len]
  then obtain F' t where t: "add_files h 1 fs u = Inr t" "fs_inv y F' t" "unat (mk_freeinode t) = i + 1 + length fs" "F' 1 = (T_DIR, (bs @ ?d) @ ents (i + 1) fs)"
    "\<forall>j. 1 < j \<longrightarrow> j < i + 1 \<longrightarrow> F' j = ?F j" "\<forall>k < length fs. F' (i + 1 + k) = (T_FILE, data (fs ! k))"
    "unat (mk_freeblock t) + need (nblk (length bs + 16)) = unat (mk_freeblock u) + need (nblk (length bs + 16 * length (f # fs))) + used_by fs"
    by (elim exE conjE) (rule that)
  have "F' (i + k) = (T_FILE, data ((f # fs) ! k))" if "k < length (f # fs)" for k
    using t(5) [rule_format, of i] t(6) [rule_format, of "k - 1"] that Cons.prems(4) by (cases k) auto
  moreover have "F' j = F j" if "1 < j" "j < i" for j using t(5) [rule_format, of j] that by simp
  moreover have "add_files h 1 (f # fs) s = Inr t" using u(1) t(1) by (simp add: bnd_def)
  ultimately show ?case using t(2-4,7) u(4) by (intro exI [of _ F'] exI [of _ t]) (simp add: used_by_def)
qed

text \<open>The bitmap marks the first blocks.\<close>

lemma bitmap_fold:
  assumes "n \<le> BPB" "bj < BPB"
  shows "length (fold (\<lambda>i buf. set_bit_used buf i) [0..<n] zeros) = BSIZE \<and>
    (bit_free (fold (\<lambda>i buf. set_bit_used buf i) [0..<n] zeros) bj \<longleftrightarrow> n \<le> bj)"
  using assms(1)
proof (induction n)
  case 0
  have "bj div 8 < BSIZE" using assms(2) by simp
  then show ?case by (simp add: bit_free_def)
next
  case (Suc n)
  then show ?case using bit_free_set [OF _ _ assms(2), of "fold (\<lambda>i buf. set_bit_used buf i) [0..<n] zeros" n] by auto
qed

lemma mk_balloc_ok:
  assumes "host_ok h" "base s"
  obtains t where "mk_balloc h (sint (mk_freeblock s)) s = Inr t" "base t" "\<And>k. k \<noteq> 45 \<Longrightarrow> img t k = img s k"
    "mk_freeblock t = mk_freeblock s" "mk_freeinode t = mk_freeinode s"
    "\<And>b. b < FSSIZE \<Longrightarrow> blk_free mk_super (img t) b \<longleftrightarrow> unat (mk_freeblock s) \<le> b"
proof -
  let ?n = "unat (mk_freeblock s)"
  let ?d = "fold (\<lambda>i buf. set_bit_used buf i) [0..<?n] zeros"
  note B = baseD [OF assms(2)]
  have le: "uint (mk_freeblock s) \<le> 2000" using of_nat_mono [OF B(4), where ?'a = int] by simp
  moreover have "- 2147483648 \<le> uint (mk_freeblock s)" by (rule order_trans [OF _ unsigned_greater_eq]) simp
  ultimately have "sint (mk_freeblock s) = uint (mk_freeblock s)" unfolding sint_uint by (intro signed_take_bit_int_eq_self) simp_all
  then have n: "sint (mk_freeblock s) = int ?n" by simp
  have w: "unat (45 :: u32) < ?n" "length ?d = BSIZE" using B(3,4) bitmap_fold [of ?n 0] by simp_all
  obtain t where t: "wsect h 45 ?d s = Inr t" "base t" "img t = (img s)(45 := ?d)" "mk_freeblock t = mk_freeblock s" "mk_freeinode t = mk_freeinode s"
    by (rule wsect_ok [OF assms w])
  have run: "mk_balloc h (sint (mk_freeblock s)) s = Inr t" unfolding n using t(1) B(2) le by (simp add: mk_balloc_def super_sel)
  have "blk_free mk_super (img t) b \<longleftrightarrow> ?n \<le> b" if "b < FSSIZE" for b
  proof -
    have "bm_block mk_super b = 45" "b mod BPB = b" using that by (simp_all add: bm_block_def super_sel)
    then show ?thesis using that bitmap_fold [of ?n b] B(4) t(3) by (simp add: blk_free_def)
  qed
  then show ?thesis using that [OF run t(2) _ t(4,5)] t(3) by simp
qed

text \<open>The end of the program: the size of the root directory and the bitmap.\<close>

definition fixed_size :: "nat \<Rightarrow> nat" where
  "fixed_size n = (n div BSIZE + 1) * BSIZE"

lemma finish_inv:
  assumes "host_ok h" "fs_inv y F s" "1 < unat (mk_freeinode s)" "length (snd (F 1)) \<le> MAXFILE * BSIZE"
  obtains din u t where "rinode h 1 s = Inr din" "winode h 1 (din\<lparr>d_size := (d_size din div 1024 + 1) * 1024\<rparr>) s = Inr u"
    "mk_balloc h (sint (mk_freeblock u)) u = Inr t" "meta (img t)" "\<And>k. length (img t k) = BSIZE"
    "node y t 1 = (node y s 1)\<lparr>i_size := of_nat (fixed_size (length (snd (F 1))))\<rparr>" "filled (node y t 1) t (snd (F 1))"
    "\<And>i. 1 < i \<Longrightarrow> i < unat (mk_freeinode s) \<Longrightarrow> node_ok y F t i"
    "\<And>b. b < FSSIZE \<Longrightarrow> blk_free mk_super (img t) b \<longleftrightarrow> unat (mk_freeblock s) \<le> b" "mk_freeblock t = mk_freeblock s"
    "\<And>i j. 1 < i \<Longrightarrow> i < unat (mk_freeinode s) \<Longrightarrow> 1 < j \<Longrightarrow> j < unat (mk_freeinode s) \<Longrightarrow> i \<noteq> j \<Longrightarrow> own_of y F t i \<inter> own_of y F t j = {}"
proof -
  have I: "base s" "unat (mk_freeinode s) \<le> NINODES" "meta (img s)" "node_ok y F s 1"
    "\<And>i. 1 < i \<Longrightarrow> i < unat (mk_freeinode s) \<Longrightarrow> node_ok y F s i" using assms(2,3) by (auto simp: fs_inv_def)
  let ?n = "length (snd (F 1))"
  have one: "1 < NINODES" by simp
  obtain din where din: "rinode h (of_nat 1) s = Inr din" "of_dinode din y = node y s 1" by (rule rinode_ok [OF assms(1) I(1) one])
  have sz: "unat (d_size din) = ?n" using I(4) din(2) [symmetric] by (simp add: node_ok_def of_dinode_sel)
  let ?d = "din\<lparr>d_size := (d_size din div 1024 + 1) * 1024\<rparr>"
  have "of_nat (unat (d_size din div 1024)) = d_size din div 1024" by simp
  then have "of_nat (fixed_size (unat (d_size din))) = (d_size din div 1024 + 1) * 1024"
    by (simp only: fixed_size_def unat_div_distrib) simp
  then have sz': "(d_size din div 1024 + 1) * 1024 = of_nat (fixed_size ?n)" unfolding sz by simp
  obtain u where u: "winode h (of_nat 1) ?d s = Inr u" "base u" "mk_freeblock u = mk_freeblock s" "mk_freeinode u = mk_freeinode s"
    "\<And>k. unat k < 32 \<or> 45 \<le> unat k \<Longrightarrow> img u k = img s k" "\<And>j y. j < NINODES \<Longrightarrow> node y u j = (if j = 1 then of_dinode ?d y else node y s j)"
    by (rule winode_ok [OF assms(1) I(1) one, where din = ?d]) (rule that)
  obtain t where t: "mk_balloc h (sint (mk_freeblock u)) u = Inr t" "base t" "\<And>k. k \<noteq> 45 \<Longrightarrow> img t k = img u k"
    "mk_freeblock t = mk_freeblock u" "mk_freeinode t = mk_freeinode u" "\<And>b. b < FSSIZE \<Longrightarrow> blk_free mk_super (img t) b \<longleftrightarrow> unat (mk_freeblock u) \<le> b"
    by (rule mk_balloc_ok [OF assms(1) u(2)]) (rule that)
  have far: "img t k = img s k" if "nmeta \<le> unat k" for k using t(3) [of k] u(5) [of k] that by force
  have node: "node y t j = node y u j" if "j < NINODES" for j
    using t(3) [of "IBLOCK (of_nat j) mk_super"] IBLOCK_range [OF that] by (force simp: node_def loaded_def)
  have K: "node_ok y F t i \<and> own_of y F t i = own_of y F s i" if i: "1 < i" "i < unat (mk_freeinode s)" for i
  proof -
    have "img t k = img s k" if "k \<in> own_of y F s i" for k
      using I(5) [OF i] that by (intro far) (auto simp: node_ok_def filled_def own_of_def dest: own_range)
    then show ?thesis using node_kept [OF I(5) [OF i], of t F] node [of i] u(3,6) t(4) i I(2) by simp
  qed
  have D: "own_of y F t i \<inter> own_of y F t j = {}"
    if "1 < i" "i < unat (mk_freeinode s)" "1 < j" "j < unat (mk_freeinode s)" "i \<noteq> j" for i j
    using that K [of i] K [of j] assms(2) by (simp add: fs_inv_def)
  have x: "node y t 1 = (node y s 1)\<lparr>i_size := of_nat (fixed_size ?n)\<rparr>"
    using node [OF one] u(6) [OF one] din(2) sz' by (simp add: of_dinode_size)
  moreover have "filled (node y t 1) t (snd (F 1))"
  proof -
    have H: "has_blocks (node y s 1) (img s) (unat (mk_freeblock s)) (NDIRECT < nblk ?n) (nblk ?n)" "holds (node y s 1) (img s) (snd (F 1))"
      using I(4) by (simp_all add: node_ok_def filled_def)
    have "img t k = img s k" if "k \<in> own (node y s 1) (img s) (NDIRECT < nblk ?n) (nblk ?n)" for k using own_range [OF H(1) that] far by simp
    note C = blocks_cong [OF H(1) _ this order_refl, of "node y t 1"]
    show ?thesis using C(1,3) H(2) x t(4) u(3) by (simp add: filled_def)
  qed
  moreover have "meta (img t)" using t(3) [of 1] u(5) [of 1] t(3) [of 2] u(5) [of 2] I(3) by (simp add: meta_def)
  ultimately show ?thesis using that [of din u t] din(1) u(1,3) t(1,4,6) baseD(5) [OF t(2)] K D x by simp
qed

definition root_of :: "(byte list \<times> byte list list option) list \<Rightarrow> byte list" where
  "root_of files = (dirent 1 [46] @ dirent 1 [46, 46]) @ ents 2 files"

text \<open>The part of the program before the input files.\<close>

lemma root_inv:
  assumes "host_ok h"
  obtains s0 s1 s2 s3 s4 where "zero_sectors h [0..<FSSIZE] mk_start = Inr s0" "mk_sb s0 = mk_super"
    "wsect h 1 (put zeros 0 (enc_sb mk_super)) s0 = Inr s1" "mk_ialloc h T_DIR s1 = Inr (1, s2)"
    "iappend h 1 (dirent 1 [46]) s2 = Inr s3" "iappend h 1 (dirent 1 [46, 46]) s3 = Inr s4"
    "fs_inv y ((\<lambda>_. (0, []))(1 := (T_DIR, dirent 1 [46] @ dirent 1 [46, 46]))) s4" "unat (mk_freeinode s4) = 2" "unat (mk_freeblock s4) = nmeta + 1"
proof -
  let ?F = "\<lambda>_ :: nat. (0 :: u16, [] :: byte list)"
  obtain s0 s1 where s1: "zero_sectors h [0..<FSSIZE] mk_start = Inr s0" "mk_sb s0 = mk_super"
    "wsect h 1 (put zeros 0 (enc_sb mk_super)) s0 = Inr s1" "fs_inv y ?F s1" "unat (mk_freeinode s1) = 1" by (rule start_inv [OF assms])
  have one: "1 = unat (mk_freeinode s1)" "1 < NINODES" using s1(5) by simp_all
  obtain s2 where s2: "mk_ialloc h T_DIR s1 = Inr (of_nat 1, s2)" "fs_inv y (?F(1 := (T_DIR, []))) s2" "unat (mk_freeinode s2) = 1 + 1" "mk_freeblock s2 = mk_freeblock s1"
    by (rule ialloc_inv [OF assms s1(4) one])
  have fb: "unat (mk_freeblock s1) = nmeta" using s1(4,5) by (simp add: fs_inv_def)
  have n: "need (nblk 0) = 0" "need (nblk 16) = 1" "need (nblk 32) = 1" by (simp_all add: need_def nblk_def)
  have F2: "(?F(1 := (T_DIR, []))) 1 = (T_DIR, [])" by simp
  have c: "1 < unat (mk_freeinode s2)" "length ([] :: byte list) + length (dirent 1 [46]) \<le> MAXFILE * BSIZE"
    "unat (mk_freeblock s2) + need (nblk (length ([] :: byte list) + length (dirent 1 [46]))) \<le> FSSIZE + need (nblk (length ([] :: byte list)))"
    using s2(3,4) fb n by (simp_all add: dirent_length)
  obtain s3 where s3: "iappend h (of_nat 1) (dirent 1 [46]) s2 = Inr s3" "fs_inv y ((?F(1 := (T_DIR, [])))(1 := (T_DIR, [] @ dirent 1 [46]))) s3" "mk_freeinode s3 = mk_freeinode s2"
    by (rule iappend_inv [OF assms s2(2) order_refl c(1) F2 c(2,3)])
  have fb3: "unat (mk_freeblock s3) = nmeta + 1"
    using freeblock_update [OF s2(2) s3(2,3) order_refl c(1)] n fb s2(4) by (simp add: dirent_length)
  have F3: "((?F(1 := (T_DIR, [])))(1 := (T_DIR, [] @ dirent 1 [46]))) 1 = (T_DIR, dirent 1 [46])" by simp
  have d: "1 < unat (mk_freeinode s3)" "length (dirent 1 [46]) + length (dirent 1 [46, 46]) \<le> MAXFILE * BSIZE"
    "unat (mk_freeblock s3) + need (nblk (length (dirent 1 [46]) + length (dirent 1 [46, 46]))) \<le> FSSIZE + need (nblk (length (dirent 1 [46])))"
    using s3(3) c(1) fb3 n by (simp_all add: dirent_length)
  obtain s4 where s4: "iappend h (of_nat 1) (dirent 1 [46, 46]) s3 = Inr s4"
    "fs_inv y ((?F(1 := (T_DIR, []), 1 := (T_DIR, [] @ dirent 1 [46])))(1 := (T_DIR, dirent 1 [46] @ dirent 1 [46, 46]))) s4" "mk_freeinode s4 = mk_freeinode s3"
    by (rule iappend_inv [OF assms s3(2) order_refl d(1) F3 d(2,3)])
  have "unat (mk_freeblock s4) = nmeta + 1"
    using freeblock_update [OF s3(2) s4(2,3) order_refl d(1)] n fb3 by (simp add: dirent_length)
  then show ?thesis using that [OF s1(1-3)] s2(1,3) s3(1,3) s4 by (simp only: fun_upd_upd of_nat_1)
qed

lemma ents_length: "length (ents i fs) = 16 * length fs"
  by (induction fs arbitrary: i) (simp_all add: dirent_length)

lemma mk_main_ok:
  assumes "host_ok h" "\<forall>f \<in> set files. good_file f" "length files \<le> NINODES - 2"
    "nmeta + need (nblk (length (root_of files))) + used_by files \<le> FSSIZE"
  obtains F s where "mk_main h (Some True) files = Inr s" "dec_sb (img s 1) = mk_super" "img s 2 = zeros" "\<And>k. length (img s k) = BSIZE"
    "filled (node y s 1) s (root_of files)" "i_type (node y s 1) = T_DIR" "unat (i_size (node y s 1)) = fixed_size (length (root_of files))"
    "\<And>i. i < length files \<Longrightarrow> node_ok y F s (i + 2)" "\<And>i. i < length files \<Longrightarrow> F (i + 2) = (T_FILE, data (files ! i))"
    "\<And>b. b < FSSIZE \<Longrightarrow> blk_free mk_super (img s) b \<longleftrightarrow> nmeta + need (nblk (length (root_of files))) + used_by files \<le> b"
    "unat (mk_freeblock s) = nmeta + need (nblk (length (root_of files))) + used_by files"
    "\<And>i j. i < length files \<Longrightarrow> j < length files \<Longrightarrow> i \<noteq> j \<Longrightarrow> own_of y F s (i + 2) \<inter> own_of y F s (j + 2) = {}"
proof -
  let ?r = "dirent 1 [46] @ dirent 1 [46, 46]"
  have len: "length ?r + 16 * length files = length (root_of files)" "length ?r = 32" by (simp_all add: root_of_def dirent_length ents_length)
  have n: "need (nblk 32) = 1" by (simp add: need_def nblk_def)
  obtain s0 s1 s2 s3 s4 where s: "zero_sectors h [0..<FSSIZE] mk_start = Inr s0" "mk_sb s0 = mk_super"
    "wsect h 1 (put zeros 0 (enc_sb mk_super)) s0 = Inr s1" "mk_ialloc h T_DIR s1 = Inr (1, s2)"
    "iappend h 1 (dirent 1 [46]) s2 = Inr s3" "iappend h 1 (dirent 1 [46, 46]) s3 = Inr s4"
    "fs_inv y ((\<lambda>_. (0, []))(1 := (T_DIR, ?r))) s4" "unat (mk_freeinode s4) = 2" "unat (mk_freeblock s4) = nmeta + 1" by (rule root_inv [OF assms(1)])
  have "\<exists>F' t. add_files h 1 files s4 = Inr t \<and> fs_inv y F' t \<and> unat (mk_freeinode t) = 2 + length files \<and> F' 1 = (T_DIR, ?r @ ents 2 files) \<and>
    (\<forall>j. 1 < j \<longrightarrow> j < 2 \<longrightarrow> F' j = ((\<lambda>_. (0, []))(1 := (T_DIR, ?r))) j) \<and> (\<forall>k < length files. F' (2 + k) = (T_FILE, data (files ! k))) \<and>
    unat (mk_freeblock t) + need (nblk (length ?r)) = unat (mk_freeblock s4) + need (nblk (length ?r + 16 * length files)) + used_by files"
    by (rule add_files_inv [OF assms(1) s(7) s(8) [symmetric]]) (use assms(2-4) s(9) n in \<open>simp_all only: len, simp_all\<close>, simp add: dirent_length flip: len(1))
  then obtain F s5 where f: "add_files h 1 files s4 = Inr s5" "fs_inv y F s5" "unat (mk_freeinode s5) = 2 + length files" "F 1 = (T_DIR, ?r @ ents 2 files)"
    "\<forall>k < length files. F (2 + k) = (T_FILE, data (files ! k))"
    "unat (mk_freeblock s5) + need (nblk (length ?r)) = unat (mk_freeblock s4) + need (nblk (length ?r + 16 * length files)) + used_by files"
    by (elim exE conjE) (rule that)
  have R: "snd (F 1) = root_of files" using f(4) by (simp add: root_of_def)
  have L: "length (root_of files) \<le> 3200" using assms(3) len by simp
  have two: "1 < unat (mk_freeinode s5)" "length (snd (F 1)) \<le> MAXFILE * BSIZE" using f(3) L R by simp_all
  obtain din u t where t: "rinode h 1 s5 = Inr din" "winode h 1 (din\<lparr>d_size := (d_size din div 1024 + 1) * 1024\<rparr>) s5 = Inr u"
    "mk_balloc h (sint (mk_freeblock u)) u = Inr t" "meta (img t)" "\<And>k. length (img t k) = BSIZE"
    "node y t 1 = (node y s5 1)\<lparr>i_size := of_nat (fixed_size (length (snd (F 1))))\<rparr>" "filled (node y t 1) t (snd (F 1))"
    "\<And>i. 1 < i \<Longrightarrow> i < unat (mk_freeinode s5) \<Longrightarrow> node_ok y F t i"
    "\<And>b. b < FSSIZE \<Longrightarrow> blk_free mk_super (img t) b \<longleftrightarrow> unat (mk_freeblock s5) \<le> b" "mk_freeblock t = mk_freeblock s5"
    "\<And>i j. 1 < i \<Longrightarrow> i < unat (mk_freeinode s5) \<Longrightarrow> 1 < j \<Longrightarrow> j < unat (mk_freeinode s5) \<Longrightarrow> i \<noteq> j \<Longrightarrow> own_of y F t i \<inter> own_of y F t j = {}"
    by (rule finish_inv [OF assms(1) f(2) two]) (rule that)
  have run: "mk_main h (Some True) files = Inr t"
    using s(1-6) f(1) t(1-3) by (simp add: mk_main_def bnd_def)
  have fb: "unat (mk_freeblock s5) = nmeta + need (nblk (length (root_of files))) + used_by files" using f(6) s(9) n len by simp
  have "fixed_size (length (root_of files)) \<le> 4096" using L by (simp add: fixed_size_def)
  then have size: "unat (i_size (node y t 1)) = fixed_size (length (root_of files))" using t(6) R by (simp add: unat_of_nat)
  have "node_ok y F s5 1" using f(2,3) by (simp add: fs_inv_def)
  then have "i_type (node y t 1) = T_DIR" using t(6) f(4) by (simp add: node_ok_def)
  then show ?thesis using that [of t F, OF run] t(4,5,7-11) [unfolded meta_def] dec_enc_sb size R f(3,5) fb by (simp add: add.commute)
qed

lemma entry_holds:
  assumes "holds x C bs" "16 * k + 16 \<le> length bs"
  shows "entry x C k = take 16 (drop (16 * k) bs)"
  using assms by (intro nth_equalityI) (auto simp: entry_def holds_def)

lemma nth_ents: "k < length fs \<Longrightarrow> take 16 (drop (16 * k) (ents i fs)) = dirent (of_nat (i + k)) (name_of (fs ! k))"
proof (induction fs arbitrary: i k)
  case (Cons f fs)
  then show ?case using Cons.IH [of "k - 1" "i + 1"] dirent_length [of "of_nat i" "name_of f"] by (cases k) simp_all
qed simp

definition file_blocks :: "inode \<Rightarrow> (u32 \<Rightarrow> byte list) \<Rightarrow> u32 set" where
  "file_blocks x C = own x C (NDIRECT < fsize_blocks x) (fsize_blocks x)"

definition fits :: "(byte list \<times> byte list list option) list \<Rightarrow> bool" where
  "fits files \<longleftrightarrow> length files \<le> NINODES - 2 \<and> nmeta + need (nblk (length (root_of files))) + used_by files \<le> FSSIZE"

lemma node_file:
  assumes "node_ok y F s i" "F i = (ty, bs)" "x = node y s i" "\<And>k. length (img s k) = BSIZE"
  shows "i_type x = ty" "i_nlink x = 1" "unat (i_size x) = length bs" "file_ok x (img s) (fsize_blocks x)"
    "map (fbyte x (img s)) [0..<length bs] = bs" "file_blocks x (img s) = own_of y F s i"
    "b \<in> file_blocks x (img s) \<Longrightarrow> nmeta \<le> unat b \<and> unat b < unat (mk_freeblock s)"
proof -
  have N: "i_type x = ty" "i_nlink x = 1" "unat (i_size x) = length bs"
    "has_blocks x (img s) (unat (mk_freeblock s)) (NDIRECT < nblk (length bs)) (nblk (length bs))" "holds x (img s) bs"
    using assms(1-3) by (simp_all add: node_ok_def filled_def)
  then show "i_type x = ty" "i_nlink x = 1" "unat (i_size x) = length bs" by simp_all
  have n: "fsize_blocks x = nblk (length bs)" using N(3) by (simp add: fsize_blocks_def nblk_def)
  show "file_ok x (img s) (fsize_blocks x)" unfolding n by (rule has_file_ok [OF N(4) assms(4)])
  show "map (fbyte x (img s)) [0..<length bs] = bs" using N(5) by (intro nth_equalityI) (auto simp: holds_def)
  show "file_blocks x (img s) = own_of y F s i" using n assms(2,3) by (simp add: file_blocks_def own_of_def)
  show "b \<in> file_blocks x (img s) \<Longrightarrow> nmeta \<le> unat b \<and> unat b < unat (mk_freeblock s)"
    using own_range [OF N(4)] n by (simp add: file_blocks_def)
qed

section \<open>Correctness of the image\<close>

text \<open>C11. The image that \<^verbatim>\<open>mkfs\<close> makes: when the host's calls succeed, the names are legal and everything fits, \<^verbatim>\<open>mkfs\<close>
  returns.  The super block is the one of the layout; input file number \<open>k\<close> has the inode \<open>k + 2\<close>, whose blocks hold exactly the bytes
  read, and the entry \<open>k + 2\<close> of the root directory has its name; no two files share a block; and the bitmap marks as used exactly the blocks
  up to the last one in use, among them all blocks of the file.\<close>

theorem mkfs_image:
  fixes y :: inode
  assumes "host_ok h" "\<forall>f \<in> set files. good_file f" "fits files" "k < length files"
  shows "\<exists>s. mk_main h (Some True) files = Inr s \<and> dec_sb (img s 1) = mk_super \<and>
    (let C = img s; x = loaded mk_super C (of_nat (k + 2)) y; r = loaded mk_super C (of_nat 1) y; bs = data (files ! k) in
      i_type x = T_FILE \<and> i_nlink x = 1 \<and> unat (i_size x) = length bs \<and> file_ok x C (fsize_blocks x) \<and> map (fbyte x C) [0..<length bs] = bs \<and>
      i_type r = T_DIR \<and> entry r C (k + 2) = dirent (of_nat (k + 2)) (name_of (files ! k)) \<and>
      (\<forall>j < length files. j \<noteq> k \<longrightarrow> file_blocks x C \<inter> file_blocks (loaded mk_super C (of_nat (j + 2)) y) C = {}) \<and>
      (\<forall>b < FSSIZE. blk_free mk_super C b \<longleftrightarrow> unat (mk_freeblock s) \<le> b) \<and> (\<forall>b \<in> file_blocks x C. \<not> blk_free mk_super C (unat b)))"
proof -
  have fit: "length files \<le> NINODES - 2" "nmeta + need (nblk (length (root_of files))) + used_by files \<le> FSSIZE" using assms(3) by (simp_all add: fits_def)
  obtain F s where s: "mk_main h (Some True) files = Inr s" "dec_sb (img s 1) = mk_super" "img s 2 = zeros" "\<And>k. length (img s k) = BSIZE"
    "filled (node y s 1) s (root_of files)" "i_type (node y s 1) = T_DIR" "unat (i_size (node y s 1)) = fixed_size (length (root_of files))"
    "\<And>i. i < length files \<Longrightarrow> node_ok y F s (i + 2)" "\<And>i. i < length files \<Longrightarrow> F (i + 2) = (T_FILE, data (files ! i))"
    "\<And>b. b < FSSIZE \<Longrightarrow> blk_free mk_super (img s) b \<longleftrightarrow> nmeta + need (nblk (length (root_of files))) + used_by files \<le> b"
    "unat (mk_freeblock s) = nmeta + need (nblk (length (root_of files))) + used_by files"
    "\<And>i j. i < length files \<Longrightarrow> j < length files \<Longrightarrow> i \<noteq> j \<Longrightarrow> own_of y F s (i + 2) \<inter> own_of y F s (j + 2) = {}"
    by (rule mk_main_ok [OF assms(1,2) fit]) (rule that)
  note N = node_file [OF s(8) s(9) refl s(4)]
  have used: "\<not> blk_free mk_super (img s) (unat b)" if "b \<in> file_blocks (node y s (k + 2)) (img s)" for b
    using N(7) [OF assms(4) assms(4) that] s(10) [of "unat b"] s(11) fit(2) by simp
  have apart: "file_blocks (node y s (k + 2)) (img s) \<inter> file_blocks (node y s (j + 2)) (img s) = {}" if "j < length files" "j \<noteq> k" for j
    using N(6) [OF assms(4) assms(4)] N(6) [OF that(1) that(1)] s(12) [OF assms(4) that(1)] that(2) by simp
  have "16 * (k + 2) + 16 \<le> length (root_of files)" "drop (16 * (k + 2)) (root_of files) = drop (16 * k) (ents 2 files)"
    using ents_length [of 2 files] assms(4) by (simp_all add: root_of_def dirent_length)
  then have "entry (node y s 1) (img s) (k + 2) = dirent (of_nat (k + 2)) (name_of (files ! k))"
    using entry_holds [of "node y s 1" "img s" "root_of files" "k + 2"] s(5) nth_ents [OF assms(4), of 2] by (simp add: filled_def add.commute)
  then show ?thesis using s(1,2,6,10,11) N(1-5) [OF assms(4) assms(4)] used apart unfolding node_def by (intro exI [of _ s]) (simp add: Let_def)
qed

text \<open>
  When the entries fill their last block, the size that the program then gives to the root directory
  covers one more block, which does not exist.
\<close>

lemma root_block_missing:
  assumes "host_ok h" "\<forall>f \<in> set files. good_file f" "fits files" "64 dvd length files + 2"
  shows "\<exists>s. mk_main h (Some True) files = Inr s \<and>
    (let r = loaded mk_super (img s) (of_nat 1) y; n = fsize_blocks r in 0 < n \<and> fblk r (img s) (n - 1) = 0)"
proof -
  have fit: "length files \<le> NINODES - 2" "nmeta + need (nblk (length (root_of files))) + used_by files \<le> FSSIZE" using assms(3) by (simp_all add: fits_def)
  obtain F s where s: "mk_main h (Some True) files = Inr s" "filled (node y s 1) s (root_of files)"
    "unat (i_size (node y s 1)) = fixed_size (length (root_of files))" by (rule mk_main_ok [OF assms(1,2) fit]) (rule that)
  obtain m where m: "length files + 2 = 64 * m" using assms(4) by (auto elim: dvdE)
  have len: "length (root_of files) = BSIZE * m" using m ents_length [of 2 files] by (simp add: root_of_def dirent_length)
  have nb: "nblk (length (root_of files)) = m" unfolding nblk_def len by (rule div_nat_eqI) simp_all
  have n: "fsize_blocks (node y s 1) = m + 1" unfolding fsize_blocks_def s(3) fixed_size_def len by (rule div_nat_eqI) simp_all
  have "m < NDIRECT" using m fit(1) by simp
  then have "fblk (node y s 1) (img s) m = 0" using s(2) nb by (simp add: filled_def has_blocks_def fblk_def)
  then show ?thesis using s(1) n unfolding node_def by (intro exI [of _ s]) (simp add: Let_def)
qed

text \<open>The number of input files is not checked: the inode of the 207th lies in the block of the bitmap.\<close>

lemma inode_in_bitmap: "IBLOCK (of_nat (206 + 2)) mk_super = sb_bmapstart mk_super"
  by (simp add: IBLOCK_def super_sel)

text \<open>An input file \<^verbatim>\<open>user/_a\<close> of three bytes.\<close>

definition host_ex :: host where
  "host_ex = \<lparr>h_seek = (\<lambda>_. True), h_read = (\<lambda>_. True), h_write = (\<lambda>_. True)\<rparr>"

definition files_ex :: "(byte list \<times> byte list list option) list" where
  "files_ex = [([0x75, 0x73, 0x65, 0x72, 0x2f, 0x5f, 0x61], Some [[1, 2], [3], []])]"

lemma files_ex_ok: "host_ok host_ex" "\<forall>f \<in> set files_ex. good_file f" "fits files_ex" "data (files_ex ! 0) = [1, 2, 3]" "name_of (files_ex ! 0) = [0x61]"
  "length files_ex = 1"
  by (simp_all add: host_ok_def host_ex_def files_ex_def good_file_def data_def name_of_def shortname_def strip_underscore_def
    fits_def root_of_def dirent_length used_by_def need_def nblk_def)

theorem mkfs_image_witness:
  "\<exists>s. mk_main host_ex (Some True) files_ex = Inr s \<and> dec_sb (img s 1) = mk_super \<and>
    map (fbyte (loaded mk_super (img s) 2 (itable fs_ex 0)) (img s)) [0..<3] = [1, 2, 3] \<and>
    entry (loaded mk_super (img s) 1 (itable fs_ex 0)) (img s) 2 = dirent 2 [0x61]"
  using mkfs_image [OF files_ex_ok(1-3), of 0 "itable fs_ex 0"] files_ex_ok(4-6) by (auto simp: Let_def numeral_2_eq_2 eval_nat_numeral)

end
