(* ===== verification/Boot.thy ===== *)
theory Boot
  imports Mkfs
begin

text \<open>
  The kernel on the image that \<^verbatim>\<open>mkfs\<close> makes: mounting with \<^verbatim>\<open>fsinit\<close>, loading an inode with \<^verbatim>\<open>ilock\<close> and
  reading the file with \<^verbatim>\<open>readi\<close>.
\<close>

section \<open>Mounting\<close>

lemma fs_fields [simp]:
  "busy d P H (s\<lparr>sb := q\<rparr>) = busy d P H s" "busy d P H (s\<lparr>itable := f\<rparr>) = busy d P H s" "busy d P H (s\<lparr>lg := l\<rparr>) = busy d P H s"
  "content (s\<lparr>sb := q\<rparr>) d = content s d" "content (s\<lparr>itable := f\<rparr>) d = content s d" "content (s\<lparr>lg := l\<rparr>) d = content s d"
  by (simp_all add: busy_def clean_def content_def fun_eq_iff cong: option.case_cong)

lemma log_open_itable [simp]: "log_open H (s\<lparr>itable := f\<rparr>) = log_open H s"
  by (simp add: log_open_def head_at_def in_log_def log_at_def)

lemma binit_itable:
  fixes s :: "'a fkern_scheme"
  shows "itable (binit s) = itable s"
proof -
  have "itable t = itable s" if "bkern.more t = bkern.more s" for t :: "'a fkern_scheme" using that by (cases s; cases t) simp
  from this [OF binit_state(4)] show ?thesis .
qed

lemma fsinit_ok:
  fixes u :: "'a fkern_scheme"
  assumes "cold u" "dec_sb (disk u 1) = mk_super" "disk u 2 = zeros"
  obtains v where "fsinit 1 (binit u) = Inr v" "log_open {} v" "sb v = mk_super" "itable v = itable u" "lg_dev (lg v) = 1"
    "\<And>k. k \<noteq> 2 \<Longrightarrow> content v 1 k = disk u k"
proof -
  obtain p where "myproc (k_sched u) = Some p" using assms(1) by (auto simp: cold_def)
  then have busy: "busy 1 {} {} (binit u)" using assms(1) by (intro binit_busy) (auto simp: cold_def)
  obtain b s1 where s1: "bread 1 1 (binit u) = Inr (b, s1)" "busy 1 {} (insert b {}) s1" "ran (binit u) s1 []"
    "b_blockno (bufs s1 b) = 1" "b_data (bufs s1 b) = content (binit u) 1 1"
    by (rule log_bread [OF busy, of 1]) auto
  have d: "b_data (bufs s1 b) = disk u 1" "disk s1 = disk u"
    using s1(5) busy_content_disk [OF busy] ranD(2) [OF s1(3)] by (simp_all add: binit_state)
  let ?s = "s1\<lparr>sb := mk_super\<rparr>"
  obtain s2 where s2: "brelse b ?s = Inr s2" "busy 1 {} ({b} - {b}) s2" "ran ?s s2 []"
    by (rule log_brelse [of 1 "{}" "{b}" ?s b]) (use s1(2,4) d in auto)
  have m: "sb s2 = mk_super" "itable s2 = itable u" "disk s2 = disk u"
    using more_fs [OF ranD(4) [OF s2(3)]] more_fs [OF ranD(4) [OF s1(3)]] binit_itable ranD(2) [OF s2(3)] d(2) by simp_all
  let ?t = "s2\<lparr>lg := (lg s2)\<lparr>lg_start := 2, lg_size := 30, lg_dev := 1\<rparr>\<rparr>"
  have h: "head_at ?t = 2" by (simp add: head_at_def)
  obtain v where v: "recover_from_log ?t = Inr v" "busy (lg_dev (lg ?t)) {} {} v"
    "\<And>k. k \<noteq> head_at ?t \<Longrightarrow> disk v k = recovered ?t 0 (\<lambda>_. 0) (disk ?t) k"
    "get32 (disk v (head_at ?t)) 0 = 0" "length (disk v (head_at ?t)) = BSIZE" "log_n v = 0"
    "lg v = (lg ?t)\<lparr>lg_lh := lg_lh (lg v)\<rparr>" "lkern.more v = lkern.more ?t"
    by (rule recover_ok [of ?t 0 "\<lambda>_. 0"]) (use s2(2) m(3) assms(3) h get32_zeros in simp_all)
  have lg: "lg_start (lg v) = 2" "lg_size (lg v) = 30" "lg_dev (lg v) = 1" by (subst v(7), simp)+
  have "readsb 1 (binit u) = Inr s2" using s1(1) s2(1) d(1) assms(2) by (simp add: readsb_def bnd_def)
  then have "fsinit 1 (binit u) = Inr v" using m(1) v(1) by (simp add: fsinit_def bnd_def initlog_def mk_super_def)
  moreover have "log_open {} v" using v(2,4-6) lg h by (simp add: log_open_def head_at_def)
  moreover have "content v 1 k = disk u k" if "k \<noteq> 2" for k
    using busy_content_disk [OF v(2)] v(3) that h m(3) by (simp add: recovered_def)
  moreover have "sb v = mk_super" "itable v = itable u" using more_fs [OF v(8)] m by simp_all
  ultimately show ?thesis using that lg(3) by blast
qed

section \<open>Loading an inode\<close>

lemma bufs_itable:
  "upd_buf b g (s\<lparr>itable := f\<rparr>) = (upd_buf b g s)\<lparr>itable := f\<rparr>" "bufs (s\<lparr>itable := f\<rparr>) = bufs s"
  "buf_push b (s\<lparr>itable := f\<rparr>) = (buf_push b s)\<lparr>itable := f\<rparr>" "buf_unlink b (s\<lparr>itable := f\<rparr>) = (buf_unlink b s)\<lparr>itable := f\<rparr>"
proof -
  show u: "upd_buf b g (s\<lparr>itable := f\<rparr>) = (upd_buf b g s)\<lparr>itable := f\<rparr>" for b g and s :: "'a fkern_scheme" by (simp add: upd_buf_def)
  show "bufs (s\<lparr>itable := f\<rparr>) = bufs s" by simp
  show "buf_push b (s\<lparr>itable := f\<rparr>) = (buf_push b s)\<lparr>itable := f\<rparr>" "buf_unlink b (s\<lparr>itable := f\<rparr>) = (buf_unlink b s)\<lparr>itable := f\<rparr>"
    by (simp_all add: buf_push_def buf_unlink_def u Let_def)
qed

lemma brelse_itable:
  assumes "brelse b s = Inr t"
  shows "brelse b (s\<lparr>itable := f\<rparr>) = Inr (t\<lparr>itable := f\<rparr>)"
proof -
  have k: "s\<lparr>itable := f, k_sched := d\<rparr> = s\<lparr>k_sched := d\<rparr>\<lparr>itable := f\<rparr>" for d by simp
  show ?thesis using assms
    by (cases "releasesleep (Ch_buf b) (b_lock (bufs s b)) (k_sched s)")
      (auto simp add: brelse_def Let_def bnd_def k bufs_itable simp del: fkern.update_convs split: sum.splits if_splits)
qed

lemma of_dinode_lock: "of_dinode din (y\<lparr>i_lock := lk\<rparr>) = (of_dinode din y)\<lparr>i_lock := lk\<rparr>"
  by (auto simp: of_dinode_def intro!: inode.equality)

lemma ilock_ok:
  fixes s :: "'a fkern_scheme"
  assumes "log_open {} s" "itable s ip = y" "1 \<le> i_ref y" "\<not> sl_locked (i_lock y)" "\<not> i_valid y" "i_dev y = lg_dev (lg s)"
    "x = loaded (sb s) (content s (lg_dev (lg s))) (i_inum y) y" "i_type x \<noteq> 0"
  obtains t lk where "ilock ip s = Inr t" "log_open {} t" "content t (lg_dev (lg s)) = content s (lg_dev (lg s))" "lg_dev (lg t) = lg_dev (lg s)"
    "itable t = (itable s)(ip := x\<lparr>i_lock := lk, i_valid := True\<rparr>)" "sb t = sb s"
proof -
  let ?d = "lg_dev (lg s)" and ?k = "IBLOCK (i_inum y) (sb s)"
  obtain p where p: "myproc (k_sched s) = Some p" using assms(1) unfolding log_open_def by (blast dest: busyD(4))
  define lk where "lk = (i_lock y)\<lparr>sl_locked := True, sl_pid := p_pid (procs (k_sched s) p)\<rparr>"
  define s1 where "s1 = upd_inode ip (\<lambda>x. x\<lparr>i_lock := lk\<rparr>) s"
  have l: "lock_inode ip s = Inr s1" using assms(2,4) p by (simp add: lock_inode_def acquiresleep_def with_proc_def bnd_def lk_def s1_def)
  have o1: "log_open {} s1" "lg s1 = lg s" "sb s1 = sb s" "content s1 ?d = content s ?d" using assms(1) by (simp_all add: s1_def upd_inode_def)
  have y1: "itable s1 ip = y\<lparr>i_lock := lk\<rparr>" using assms(2) by (simp add: s1_def upd_inode_def)
  obtain b t where t: "bread ?d ?k s1 = Inr (b, t)" "kept 0 s1 t" "b_data (bufs t b) = content s ?d ?k"
    "\<exists>u. brelse b t = Inr u \<and> log_open {} u \<and> kept 0 s1 u \<and> content u ?d = content s ?d"
    by (rule tx_read [OF o1(1), of ?d ?k]) (use o1 in \<open>auto intro: that\<close>)
  then obtain u where u: "brelse b t = Inr u" "log_open {} u" "kept 0 s1 u" "content u ?d = content s ?d" by blast
  note T = more_fs [OF keptD(6) [OF t(2)]] and U = more_fs [OF keptD(6) [OF u(3)]]
  let ?x = "of_dinode (dec_dinode (drop (dinode_off (i_inum y)) (content s ?d ?k))) (y\<lparr>i_lock := lk\<rparr>)"
  have x: "?x = x\<lparr>i_lock := lk\<rparr>" using assms(7) by (simp add: loaded_def of_dinode_lock)
  let ?u = "upd_inode ip (\<lambda>x. x\<lparr>i_valid := True\<rparr>) (u\<lparr>itable := (itable u)(ip := ?x)\<rparr>)"
  have "ilock ip s = Inr ?u"
    using assms(3,5,6,8) l y1 t(1,3) u(1) T U o1(3) x by (simp add: ilock_def bnd_def upd_inode_def brelse_itable assms(2))
  moreover have "itable u = (itable s)(ip := y\<lparr>i_lock := lk\<rparr>)" using U(2) assms(2) by (simp add: s1_def upd_inode_def)
  ultimately show ?thesis using that [of ?u lk] u(2,4) keptD(1) [OF u(3)] o1(2,3) U(1) x by (simp add: upd_inode_def)
qed

section \<open>Files of the image\<close>

text \<open>A file looks the same in all copies of the disk that agree on the data blocks.\<close>

lemma file_view:
  assumes "filled x s bs" "\<And>k. length (img s k) = BSIZE" "i_addrs x' = i_addrs x" "fsize_blocks x' = nblk (length bs)" "\<And>k. nmeta \<le> unat k \<Longrightarrow> C k = img s k"
  shows "file_ok x' C (fsize_blocks x')" "holds x' C bs"
proof -
  have H: "has_blocks x (img s) (unat (mk_freeblock s)) (NDIRECT < nblk (length bs)) (nblk (length bs))" "holds x (img s) bs"
    using assms(1) by (simp_all add: filled_def)
  have "C k = img s k" if "k \<in> own x (img s) (NDIRECT < nblk (length bs)) (nblk (length bs))" for k using own_range [OF H(1) that] assms(5) by simp
  note B = blocks_cong [OF H(1) assms(3) this order_refl]
  have "length (C (fblk x' C j)) = BSIZE" if "j < nblk (length bs)" for j using B(1) that assms(2,5) by (simp add: has_blocks_def)
  then show "file_ok x' C (fsize_blocks x')" unfolding assms(4) using B(1) by (force simp: has_blocks_def file_ok_def split: if_splits)
  show "holds x' C bs" using B(3) H(2) by simp
qed

lemma named_dirent_iff:
  assumes "0 \<notin> set n" "0 \<notin> set m" "length n \<le> DIRSIZ" "length m \<le> DIRSIZ" "i \<noteq> 0"
  shows "named n (dirent i m) \<longleftrightarrow> n = m"
proof -
  have w: "takeWhile (\<lambda>c. c \<noteq> 0) m = m" using assms(2) by (auto simp: takeWhile_eq_all_conv)
  have d: "drop 2 (dirent i m) = m @ replicate (DIRSIZ - length m) 0" unfolding dirent_def w using assms(4) by simp
  have "takeWhile (\<lambda>c. c \<noteq> 0) (take DIRSIZ (drop 2 (dirent i m))) = m" unfolding d using assms(2,4) by (simp add: takeWhile_append takeWhile_eq_all_conv)
  moreover have "takeWhile (\<lambda>c. c \<noteq> 0) (take DIRSIZ n) = n" using name_take [OF assms(1), of DIRSIZ] assms(3) by simp
  ultimately show ?thesis using dirent_props(2) [OF assms(2,5)] assms(5) by (simp add: named_def)
qed

text \<open>The names are C strings, all different, and the entries do not fill their last block.\<close>

definition findable :: "(byte list \<times> byte list list option) list \<Rightarrow> bool" where
  "findable files \<longleftrightarrow> distinct (map name_of files) \<and> (\<forall>f \<in> set files. 0 \<notin> set (name_of f) \<and> name_of f \<notin> {[46], [46, 46]}) \<and>
     \<not> 64 dvd length files + 2"

text \<open>The entry of the root directory.\<close>

definition root_name :: "(byte list \<times> byte list list option) list \<Rightarrow> nat \<Rightarrow> byte list" where
  "root_name files j = (if j = 0 then [46] else if j = 1 then [46, 46] else name_of (files ! (j - 2)))"

lemma root_entry:
  assumes "j < length files + 2" "holds x C (root_of files)"
  shows "entry x C j = dirent (of_nat (if j < 2 then 1 else j)) (root_name files j)"
proof -
  have "16 * j + 16 \<le> length (root_of files)" using assms(1) ents_length [of 2 files] by (simp add: root_of_def dirent_length)
  note e = entry_holds [OF assms(2) this]
  consider "j = 0" | "j = 1" | i where "j = i + 2" by (cases j; cases "j - 1") auto
  then show ?thesis
  proof cases
    case (3 i)
    then have "drop (16 * j) (root_of files) = drop (16 * i) (ents 2 files)" by (simp add: root_of_def dirent_length)
    then show ?thesis using e nth_ents [of i files 2] assms(1) 3 by (simp add: root_name_def add.commute)
  qed (use e in \<open>simp_all add: root_of_def dirent_length root_name_def\<close>)
qed

lemma root_finds:
  assumes "\<forall>f \<in> set files. good_file f" "findable files" "length files \<le> NINODES - 2" "k < length files" "holds x C (root_of files)" "length files + 2 \<le> n"
  shows "find (\<lambda>j. named (name_of (files ! k)) (entry x C j)) [0..<n] = Some (k + 2)"
proof -
  let ?nm = "name_of (files ! k)"
  have nm: "0 \<notin> set (root_name files j) \<and> length (root_name files j) \<le> DIRSIZ" if "j < length files + 2" for j
    using that assms(1,2) by (auto simp: root_name_def findable_def good_file_def)
  have ne: "(of_nat (if j < 2 then 1 else j) :: u16) \<noteq> 0" if "j < length files + 2" for j
  proof
    assume "(of_nat (if j < 2 then 1 else j) :: u16) = 0"
    then have "unat (of_nat (if j < 2 then 1 else j) :: u16) = 0" by simp
    then show False using that assms(3) by (auto simp: unat_of_nat split: if_splits)
  qed
  have me: "?nm = root_name files (k + 2)" by (simp add: root_name_def)
  have iff: "named ?nm (entry x C j) \<longleftrightarrow> ?nm = root_name files j" if "j < length files + 2" for j
    unfolding root_entry [OF that assms(5)] by (rule named_dirent_iff) (use nm [OF that] nm [of "k + 2"] me ne [OF that] assms(4) in auto)
  have "?nm \<noteq> root_name files j" if "j < k + 2" for j
    using that assms(2,4) nth_eq_iff_index_eq [of "map name_of files" k "j - 2"] nth_mem [OF assms(4)] by (auto simp: root_name_def findable_def)
  then have "\<not> named ?nm (entry x C j)" if "j < k + 2" for j using iff [of j] that assms(4) by simp
  moreover have "named ?nm (entry x C (k + 2))" using iff [of "k + 2"] me assms(4) by simp
  ultimately show ?thesis using assms(4,6) by (auto simp: find_Some_iff nth_append intro!: exI [of _ "k + 2"])
qed

section \<open>Finding and reading a file\<close>

text \<open>An inode table in which no entry is in use.\<close>

definition fresh_table :: "(nat \<Rightarrow> inode) \<Rightarrow> bool" where
  "fresh_table f \<longleftrightarrow> (\<forall>i < NINODE. i_ref (f i) = 0 \<and> \<not> sl_locked (i_lock (f i)))"

text \<open>\<^verbatim>\<open>iget\<close> takes the first free entry when the inode is in none of those before it.\<close>

lemma iget_next:
  assumes "n < NINODE" "\<And>i. i < n \<Longrightarrow> i_ref (itable s i) > 0 \<and> i_inum (itable s i) \<noteq> inum"
    "\<And>i. n \<le> i \<Longrightarrow> i < NINODE \<Longrightarrow> i_ref (itable s i) = 0"
  shows "iget dev inum s = Inr (n, s\<lparr>itable := (itable s)(n := (itable s n)\<lparr>i_dev := dev, i_inum := inum, i_ref := 1, i_valid := False\<rparr>)\<rparr>)"
proof -
  have "find (\<lambda>i. i_ref (itable s i) > 0 \<and> i_dev (itable s i) = dev \<and> i_inum (itable s i) = inum) [0..<NINODE] = None"
  proof -
    have "\<not> (i_ref (itable s i) > 0 \<and> i_dev (itable s i) = dev \<and> i_inum (itable s i) = inum)" if "i < NINODE" for i
      using assms(2,3) [of i] that by (cases "i < n") auto
    then show ?thesis by (simp add: find_None_iff)
  qed
  moreover have "find (\<lambda>i. i_ref (itable s i) = 0) [0..<NINODE] = Some n"
    using assms by (force simp: find_Some_iff intro!: exI [of _ n])
  ultimately show ?thesis by (simp add: iget_def upd_inode_def)
qed

lemma fixed_size_blocks:
  assumes "\<not> 64 dvd n"
  shows "nblk (fixed_size (16 * n)) = nblk (16 * n)"
proof -
  obtain q r where n: "n = 64 * q + r" "r < 64" by (metis mod_less_divisor mult_div_mod_eq zero_less_numeral)
  then have "0 < r" using assms by (cases r) auto
  then have "16 * n div BSIZE = q" "nblk (16 * n) = q + 1" unfolding nblk_def using n by (intro div_nat_eqI; simp)+
  moreover have "nblk ((q + 1) * BSIZE) = q + 1" unfolding nblk_def by (rule div_nat_eqI) simp_all
  ultimately show ?thesis by (simp only: fixed_size_def)
qed

text \<open>What the kernel sees of the image, whatever was in the entry of the inode table before.\<close>

lemma image_view:
  assumes "host_ok h" "\<forall>f \<in> set files. good_file f" "fits files" "mk_main h (Some True) files = Inr s"
    "\<forall>k. k \<noteq> 2 \<longrightarrow> C k = img s k"
  shows "dec_sb (img s 1) = mk_super" "img s 2 = zeros" "i_type (loaded mk_super C 1 y) = T_DIR"
    "unat (i_size (loaded mk_super C 1 y)) = fixed_size (length (root_of files))"
    "\<not> 64 dvd length files + 2 \<Longrightarrow> i_addrs x = i_addrs (loaded mk_super C 1 y) \<Longrightarrow> i_size x = i_size (loaded mk_super C 1 y) \<Longrightarrow>
       file_ok x C (fsize_blocks x) \<and> holds x C (root_of files)"
    "k < length files \<Longrightarrow> i_type (loaded mk_super C (of_nat (k + 2)) y) = T_FILE \<and>
       unat (i_size (loaded mk_super C (of_nat (k + 2)) y)) = length (data (files ! k))"
    "k < length files \<Longrightarrow> i_addrs x = i_addrs (loaded mk_super C (of_nat (k + 2)) y) \<Longrightarrow>
       i_size x = i_size (loaded mk_super C (of_nat (k + 2)) y) \<Longrightarrow> file_ok x C (fsize_blocks x) \<and> holds x C (data (files ! k))"
proof -
  have fit: "length files \<le> NINODES - 2" "nmeta + need (nblk (length (root_of files))) + used_by files \<le> FSSIZE" using assms(3) by (simp_all add: fits_def)
  obtain F where s: "dec_sb (img s 1) = mk_super" "img s 2 = zeros" "\<And>k. length (img s k) = BSIZE"
    "filled (node y s 1) s (root_of files)" "i_type (node y s 1) = T_DIR" "unat (i_size (node y s 1)) = fixed_size (length (root_of files))"
    "\<And>i. i < length files \<Longrightarrow> node_ok y F s (i + 2)" "\<And>i. i < length files \<Longrightarrow> F (i + 2) = (T_FILE, data (files ! i))"
    by (rule mk_main_ok [OF assms(1,2) fit, of y]) (use assms(4) in \<open>auto intro: that\<close>)
  have ld: "loaded mk_super C (of_nat i) y = node y s i" if "i < NINODES" for i
    using IBLOCK_range [OF that] assms(5) [rule_format, of "IBLOCK (of_nat i) mk_super"] by (force simp: node_def loaded_def)
  have ld1: "loaded mk_super C 1 y = node y s 1" using ld [of 1] by simp
  have far: "C k = img s k" if "nmeta \<le> unat k" for k using assms(5) [rule_format, of k] that by force
  show "dec_sb (img s 1) = mk_super" "img s 2 = zeros" using s(1,2) by simp_all
  show "i_type (loaded mk_super C 1 y) = T_DIR" "unat (i_size (loaded mk_super C 1 y)) = fixed_size (length (root_of files))"
    using s(5,6) ld1 by simp_all
  show "file_ok x C (fsize_blocks x) \<and> holds x C (root_of files)"
    if "\<not> 64 dvd length files + 2" "i_addrs x = i_addrs (loaded mk_super C 1 y)" "i_size x = i_size (loaded mk_super C 1 y)"
  proof -
    have "length (root_of files) = 16 * (length files + 2)" using ents_length [of 2 files] by (simp add: root_of_def dirent_length)
    then have "fsize_blocks x = nblk (length (root_of files))" using fixed_size_blocks [OF that(1)] that(3) s(6) ld1
      by (simp only: fsize_blocks_def nblk_def)
    then show ?thesis using file_view [OF s(4,3) _ _ far, of x] that(2) ld1 by simp
  qed
  show *: "i_type (loaded mk_super C (of_nat (k + 2)) y) = T_FILE \<and> unat (i_size (loaded mk_super C (of_nat (k + 2)) y)) = length (data (files ! k))"
    if "k < length files"
    using node_file(1,3) [OF s(7) s(8) refl s(3)] that ld [of "k + 2"] fit(1) by simp
  show "file_ok x C (fsize_blocks x) \<and> holds x C (data (files ! k))"
    if "k < length files" "i_addrs x = i_addrs (loaded mk_super C (of_nat (k + 2)) y)" "i_size x = i_size (loaded mk_super C (of_nat (k + 2)) y)"
  proof -
    have "filled (node y s (k + 2)) s (data (files ! k))" using s(7,8) [OF that(1)] by (simp add: node_ok_def)
    moreover have "fsize_blocks x = nblk (length (data (files ! k)))" using * [OF that(1)] that(3) by (simp add: fsize_blocks_def nblk_def)
    ultimately show ?thesis using file_view [OF _ s(3) _ _ far, of "node y s (k + 2)" _ x] that(1,2) ld [of "k + 2"] fit(1) by simp
  qed
qed

lemma of_nat_inum:
  assumes "1 < i" "i < NINODES"
  shows "(of_nat i :: u32) \<noteq> 1" "ucast (of_nat i :: u16) = (of_nat i :: u32)"
proof -
  have "unat (of_nat i :: u32) = i" using assms by (simp add: unat_of_nat)
  then show "(of_nat i :: u32) \<noteq> 1" using assms(1) by auto
  show "ucast (of_nat i :: u16) = (of_nat i :: u32)" using assms by (simp add: unsigned_of_nat take_bit_nat_eq_self)
qed

lemma loaded_keeps: "i_dev (loaded q C i y) = i_dev y" "i_inum (loaded q C i y) = i_inum y" "i_ref (loaded q C i y) = i_ref y"
  by (simp_all add: loaded_def of_dinode_def)

text \<open>Mounting and loading the root directory.\<close>

lemma boot_root:
  fixes u :: "'a fkern_scheme"
  assumes "host_ok h" "\<forall>f \<in> set files. good_file f" "fits files" "\<not> 64 dvd length files + 2" "mk_main h (Some True) files = Inr s"
    "cold u" "disk u = img s" "fresh_table (itable u)"
  obtains s0 s1 s2 x where "fsinit 1 (binit u) = Inr s0" "iget 1 ROOTINO s0 = Inr (0, s1)" "ilock 0 s1 = Inr s2" "log_open {} s2" "sb s2 = mk_super"
    "lg_dev (lg s2) = 1" "\<forall>k. k \<noteq> 2 \<longrightarrow> content s2 1 k = img s k" "itable s2 = (itable u)(0 := x)" "i_dev x = 1" "i_inum x = 1" "i_ref x = 1"
    "i_type x = T_DIR" "unat (i_size x) = fixed_size (length (root_of files))" "file_ok x (content s2 1) (fsize_blocks x)" "holds x (content s2 1) (root_of files)"
proof -
  note V = image_view [OF assms(1-3,5)]
  have d: "dec_sb (disk u 1) = mk_super" "disk u 2 = zeros" using V(1,2) [of "img s"] assms(7) by simp_all
  obtain s0 where s0: "fsinit 1 (binit u) = Inr s0" "log_open {} s0" "sb s0 = mk_super" "itable s0 = itable u" "lg_dev (lg s0) = 1"
    "\<And>k. k \<noteq> 2 \<Longrightarrow> content s0 1 k = disk u k" by (rule fsinit_ok [OF assms(6) d]) (rule that)
  let ?y = "(itable u 0)\<lparr>i_dev := 1, i_inum := 1, i_ref := 1, i_valid := False\<rparr>"
  let ?s1 = "s0\<lparr>itable := (itable u)(0 := ?y)\<rparr>" and ?C = "content s0 1"
  have f: "i_ref (itable u i) = 0" "\<not> sl_locked (i_lock (itable u i))" if "i < NINODE" for i using assms(8) that by (auto simp: fresh_table_def)
  have g: "iget 1 ROOTINO s0 = Inr (0, ?s1)" using iget_next [of 0 s0 ROOTINO 1] f(1) s0(4) by simp
  have C: "\<forall>k. k \<noteq> 2 \<longrightarrow> ?C k = img s k" using s0(6) assms(7) by simp
  let ?x = "loaded mk_super ?C 1 ?y"
  have o: "log_open {} ?s1" "itable ?s1 0 = ?y" "1 \<le> i_ref ?y" "\<not> sl_locked (i_lock ?y)" "\<not> i_valid ?y" "i_dev ?y = lg_dev (lg ?s1)"
    "?x = loaded (sb ?s1) (content ?s1 (lg_dev (lg ?s1))) (i_inum ?y) ?y" "i_type ?x \<noteq> 0"
    using s0(2,3,5) f(2) [of 0] V(3) [OF C] by simp_all
  obtain s2 lk where s2: "ilock 0 ?s1 = Inr s2" "log_open {} s2" "content s2 (lg_dev (lg ?s1)) = content ?s1 (lg_dev (lg ?s1))" "lg_dev (lg s2) = lg_dev (lg ?s1)"
    "itable s2 = (itable ?s1)(0 := ?x\<lparr>i_lock := lk, i_valid := True\<rparr>)" "sb s2 = sb ?s1" by (rule ilock_ok [OF o])
  have c: "content s2 1 = ?C" using s2(3) s0(5) by simp
  let ?x' = "?x\<lparr>i_lock := lk, i_valid := True\<rparr>"
  have "file_ok ?x' ?C (fsize_blocks ?x') \<and> holds ?x' ?C (root_of files)" by (rule V(5) [OF C assms(4)]) simp_all
  then show ?thesis using that [OF s0(1) g s2(1,2), of ?x'] s2(4-6) s0(3,5) c C V(3,4) [OF C] by (simp add: loaded_keeps)
qed

text \<open>Loading and reading a file, beside the root directory.\<close>

lemma boot_file:
  fixes s3 :: "'a fkern_scheme"
  assumes "host_ok h" "\<forall>f \<in> set files. good_file f" "fits files" "mk_main h (Some True) files = Inr s" "k < length files" "bs = data (files ! k)"
    "log_open {} s3" "sb s3 = mk_super" "lg_dev (lg s3) = 1" "\<forall>k. k \<noteq> 2 \<longrightarrow> content s3 1 k = img s k"
    "itable s3 ip = y" "i_dev y = 1" "i_inum y = of_nat (k + 2)" "i_ref y = 1" "\<not> i_valid y" "\<not> sl_locked (i_lock y)"
  obtains s4 s5 where "ilock ip s3 = Inr s4" "readi ip VDst 0 (of_nat (length bs)) s4 = Inr (int (length bs), bs, s5)"
proof -
  let ?C = "content s3 1"
  note V = image_view [OF assms(1-4,10)]
  let ?x = "loaded mk_super ?C (of_nat (k + 2)) y"
  have o: "1 \<le> i_ref y" "i_dev y = lg_dev (lg s3)" "?x = loaded (sb s3) (content s3 (lg_dev (lg s3))) (i_inum y) y" "i_type ?x \<noteq> 0"
    using assms(8,9,12-14) V(6) [OF assms(5)] by simp_all
  obtain s4 lk where s4: "ilock ip s3 = Inr s4" "log_open {} s4" "content s4 (lg_dev (lg s3)) = content s3 (lg_dev (lg s3))" "lg_dev (lg s4) = lg_dev (lg s3)"
    "itable s4 = (itable s3)(ip := ?x\<lparr>i_lock := lk, i_valid := True\<rparr>)" "sb s4 = sb s3"
    by (rule ilock_ok [OF assms(7,11) o(1) assms(16,15) o(2-4)])
  let ?x' = "?x\<lparr>i_lock := lk, i_valid := True\<rparr>"
  have c: "content s4 1 = ?C" using s4(3) assms(9) by simp
  have F: "file_ok ?x' ?C (fsize_blocks ?x') \<and> holds ?x' ?C bs" unfolding assms(6) by (rule V(7) [OF assms(5)]) simp_all
  have sz: "unat (i_size ?x') = length bs" using V(6) [OF assms(5)] assms(6) by simp
  have "\<exists>t. readi ip VDst 0 (of_nat (length bs)) s4 = Inr (int (length bs), map (fbyte ?x' ?C) [unat (0 :: u32)..<unat (0 :: u32) + length bs], t) \<and>
    log_open {} t \<and> kept 0 s4 t \<and> content t (lg_dev (lg s4)) = ?C"
    by (rule readi_ok [OF s4(2)]) (use s4(4,5) assms(9,12) c F sz in \<open>simp_all add: loaded_keeps\<close>)
  moreover have "map (fbyte ?x' ?C) [0..<length bs] = bs" using F by (intro nth_equalityI) (auto simp: holds_def)
  ultimately show ?thesis using that s4(1) by auto
qed

text \<open>Looking a file up in the root directory.\<close>

lemma boot_lookup:
  fixes s2 :: "'a fkern_scheme"
  assumes "\<forall>f \<in> set files. good_file f" "fits files" "findable files" "k < length files" "log_open {} s2" "lg_dev (lg s2) = 1"
    "itable s2 = f(0 := x)" "fresh_table f" "i_dev x = 1" "i_inum x = 1" "i_ref x = 1" "i_type x = T_DIR"
    "unat (i_size x) = fixed_size (length (root_of files))" "file_ok x (content s2 1) (fsize_blocks x)" "holds x (content s2 1) (root_of files)"
  obtains t off where "log_open {} t" "kept 0 s2 t" "content t 1 = content s2 1"
    "dirlookup 0 (name_of (files ! k)) s2 = Inr (Some (1, off), t\<lparr>itable := (itable s2)(1 := (f 1)\<lparr>i_dev := 1, i_inum := of_nat (k + 2), i_ref := 1, i_valid := False\<rparr>)\<rparr>)"
proof -
  let ?C = "content s2 1" and ?n = "name_of (files ! k)"
  have n: "length files \<le> NINODES - 2" using assms(2) by (simp add: fits_def)
  have len: "length (root_of files) = 16 * (length files + 2)" using ents_length [of 2 files] by (simp add: root_of_def dirent_length)
  have "length (root_of files) < fixed_size (length (root_of files))" unfolding fixed_size_def by (metis Suc_eq_plus1 dividend_less_times_div mult.commute mult_Suc_right add.commute zero_less_numeral)
  then have ents: "length files + 2 \<le> nents x" using len assms(13) by (simp add: nents_def)
  have dvd: "16 dvd unat (i_size x)" unfolding assms(13) fixed_size_def by simp
  have fnd: "find (\<lambda>j. named ?n (entry x ?C j)) [0..<nents x] = Some (k + 2)" by (rule root_finds [OF assms(1,3) n assms(4,15) ents])
  have e: "get16 (entry x ?C (k + 2)) 0 = of_nat (k + 2)"
    using root_entry [of "k + 2" files x ?C] assms(4,15) by (simp add: dirent_def get16_def le_word_bytes del: of_nat_add)
  have u: "ucast (of_nat (k + 2) :: u16) = (of_nat (k + 2) :: u32)" "(of_nat (k + 2) :: u32) \<noteq> 1" using of_nat_inum [of "k + 2"] assms(4) n by simp_all
  have "\<exists>t. log_open {} t \<and> kept 0 s2 t \<and> content t (lg_dev (lg s2)) = ?C \<and> dirlookup_loop 0 ?n (map (\<lambda>k. 16 * k) [0..<nents x]) s2 =
      (case find (\<lambda>k. named ?n (entry x ?C k)) [0..<nents x] of None \<Rightarrow> Inr (None, t)
       | Some k \<Rightarrow> bnd (iget (lg_dev (lg s2)) (ucast (get16 (entry x ?C k) 0)) t) (\<lambda>(ip, s). Inr (Some (ip, of_nat (16 * k)), s)))"
    by (rule dirlookup_loop_ok [OF assms(5)]) (use assms(6,7,9,14) in simp_all)
  then obtain t where t: "log_open {} t" "kept 0 s2 t" "content t 1 = ?C" "dirlookup_loop 0 ?n (map (\<lambda>k. 16 * k) [0..<nents x]) s2 =
      bnd (iget 1 (of_nat (k + 2)) t) (\<lambda>(ip, s). Inr (Some (ip, of_nat (16 * (k + 2))), s))"
    unfolding fnd e option.case u(1) assms(6) by (auto simp del: of_nat_add of_nat_mult)
  have it: "itable t = f(0 := x)" using more_fs [OF keptD(6) [OF t(2)]] assms(7) by simp
  have "iget 1 (of_nat (k + 2)) t = Inr (1, t\<lparr>itable := (itable t)(1 := (itable t 1)\<lparr>i_dev := 1, i_inum := of_nat (k + 2), i_ref := 1, i_valid := False\<rparr>)\<rparr>)"
    by (rule iget_next) (use it assms(8,10,11) u(2) in \<open>auto simp: fresh_table_def simp del: of_nat_add\<close>)
  then have "dirlookup 0 ?n s2 = Inr (Some (1, of_nat (16 * (k + 2))), t\<lparr>itable := (itable s2)(1 := (f 1)\<lparr>i_dev := 1, i_inum := of_nat (k + 2), i_ref := 1, i_valid := False\<rparr>)\<rparr>)"
    using t(4) assms(7,12) dir_offs_ents [OF dvd] it by (simp add: dirlookup_def bnd_def del: of_nat_add of_nat_mult)
  then show ?thesis using that t(1-3) by blast
qed

text \<open>C10. A kernel that starts on the image finds and reads the input files: \<^verbatim>\<open>mkfs\<close> returns an image, and on every kernel with this disk, a cold cache
  and an unused inode table, \<^verbatim>\<open>fsinit\<close> mounts it, \<^verbatim>\<open>iget\<close> and \<^verbatim>\<open>ilock\<close> load the root directory, \<^verbatim>\<open>dirlookup\<close> finds the name of the input
  file in it, \<^verbatim>\<open>ilock\<close> loads the inode found, and \<^verbatim>\<open>readi\<close> returns exactly the bytes of the input file.  The input files have to fit into the image, have different
  names, and not be so many that the entries of the root directory fill its last block exactly (62, 126 or 190 files).\<close>

theorem boot_reads_files:
  assumes "host_ok h" "\<forall>f \<in> set files. good_file f" "fits files" "findable files" "k < length files" "bs = data (files ! k)"
  shows "\<exists>s. mk_main h (Some True) files = Inr s \<and>
    (\<forall>u :: 'a fkern_scheme. cold u \<longrightarrow> disk u = img s \<longrightarrow> fresh_table (itable u) \<longrightarrow>
      (\<exists>s0 s1 s2 s3 s4 s5 dp ip off. fsinit 1 (binit u) = Inr s0 \<and> iget 1 ROOTINO s0 = Inr (dp, s1) \<and> ilock dp s1 = Inr s2 \<and>
        dirlookup dp (name_of (files ! k)) s2 = Inr (Some (ip, off), s3) \<and> ilock ip s3 = Inr s4 \<and>
        readi ip VDst 0 (of_nat (length bs)) s4 = Inr (int (length bs), bs, s5)))"
proof -
  have fit: "length files \<le> NINODES - 2" "nmeta + need (nblk (length (root_of files))) + used_by files \<le> FSSIZE" using assms(3) by (simp_all add: fits_def)
  have full: "\<not> 64 dvd length files + 2" using assms(4) by (simp add: findable_def)
  obtain s where s: "mk_main h (Some True) files = Inr s" by (rule mk_main_ok [OF assms(1,2) fit]) (rule that)
  have "\<exists>s0 s1 s2 s3 s4 s5 dp ip off. fsinit 1 (binit u) = Inr s0 \<and> iget 1 ROOTINO s0 = Inr (dp, s1) \<and> ilock dp s1 = Inr s2 \<and>
      dirlookup dp (name_of (files ! k)) s2 = Inr (Some (ip, off), s3) \<and> ilock ip s3 = Inr s4 \<and>
      readi ip VDst 0 (of_nat (length bs)) s4 = Inr (int (length bs), bs, s5)"
    if u: "cold u" "disk u = img s" "fresh_table (itable u)" for u :: "'a fkern_scheme"
  proof -
    obtain s0 s1 s2 x where r: "fsinit 1 (binit u) = Inr s0" "iget 1 ROOTINO s0 = Inr (0, s1)" "ilock 0 s1 = Inr s2" "log_open {} s2" "sb s2 = mk_super"
      "lg_dev (lg s2) = 1" "\<forall>k. k \<noteq> 2 \<longrightarrow> content s2 1 k = img s k" "itable s2 = (itable u)(0 := x)" "i_dev x = 1" "i_inum x = 1" "i_ref x = 1"
      "i_type x = T_DIR" "unat (i_size x) = fixed_size (length (root_of files))" "file_ok x (content s2 1) (fsize_blocks x)" "holds x (content s2 1) (root_of files)"
      by (rule boot_root [OF assms(1-3) full s u])
    let ?y = "(itable u 1)\<lparr>i_dev := 1, i_inum := of_nat (k + 2), i_ref := 1, i_valid := False\<rparr>"
    obtain t off where t: "log_open {} t" "kept 0 s2 t" "content t 1 = content s2 1"
      "dirlookup 0 (name_of (files ! k)) s2 = Inr (Some (1, off), t\<lparr>itable := (itable s2)(1 := ?y)\<rparr>)"
      by (rule boot_lookup [OF assms(2-5) r(4,6,8) u(3) r(9-15)])
    let ?s3 = "t\<lparr>itable := (itable s2)(1 := ?y)\<rparr>"
    have o: "log_open {} ?s3" "sb ?s3 = mk_super" "lg_dev (lg ?s3) = 1" "\<forall>k. k \<noteq> 2 \<longrightarrow> content ?s3 1 k = img s k" "itable ?s3 1 = ?y"
      using t(1,3) keptD(1) [OF t(2)] more_fs [OF keptD(6) [OF t(2)]] r(5-7) by simp_all
    have "\<not> sl_locked (i_lock ?y)" using u(3) by (simp add: fresh_table_def)
    then obtain s4 s5 where "ilock 1 ?s3 = Inr s4" "readi 1 VDst 0 (of_nat (length bs)) s4 = Inr (int (length bs), bs, s5)"
      by (rule_tac boot_file [OF assms(1-3) s assms(5,6) o]) simp_all
    then show ?thesis using r(1-3) t(4) by blast
  qed
  then show ?thesis using s by blast
qed

text \<open>A kernel with the example image.\<close>

definition kern_ex :: "mkfs \<Rightarrow> fkern" where
  "kern_ex s = fs_ex\<lparr>disk := img s, itable := (\<lambda>i. (itable fs_ex i)\<lparr>i_ref := 0\<rparr>)\<rparr>"

lemma kern_ex_ok: "cold (kern_ex s)" "disk (kern_ex s) = img s" "fresh_table (itable (kern_ex s))"
  by (simp_all add: kern_ex_def cold_def fs_ex_def disk_ex_def myproc_def sched_ex_procs fresh_table_def initsleeplock_def)

theorem boot_reads_files_witness:
  "\<exists>s s0 s1 s2 s3 s4 s5 dp ip off. mk_main host_ex (Some True) files_ex = Inr s \<and> fsinit 1 (binit (kern_ex s)) = Inr s0 \<and>
    iget 1 ROOTINO s0 = Inr (dp, s1) \<and> ilock dp s1 = Inr s2 \<and> dirlookup dp [0x61] s2 = Inr (Some (ip, off), s3) \<and> ilock ip s3 = Inr s4 \<and>
    readi ip VDst 0 3 s4 = Inr (3, [1, 2, 3], s5)"
proof -
  have "findable files_ex" by (auto simp: findable_def files_ex_def name_of_def shortname_def strip_underscore_def dest: dvd_imp_le)
  moreover have "0 < length files_ex" "[1, 2, 3] = data (files_ex ! 0)" using files_ex_ok by simp_all
  ultimately obtain s where s: "mk_main host_ex (Some True) files_ex = Inr s"
    "\<forall>u :: fkern. cold u \<longrightarrow> disk u = img s \<longrightarrow> fresh_table (itable u) \<longrightarrow>
      (\<exists>s0 s1 s2 s3 s4 s5 dp ip off. fsinit 1 (binit u) = Inr s0 \<and> iget 1 ROOTINO s0 = Inr (dp, s1) \<and> ilock dp s1 = Inr s2 \<and>
        dirlookup dp (name_of (files_ex ! 0)) s2 = Inr (Some (ip, off), s3) \<and> ilock ip s3 = Inr s4 \<and>
        readi ip VDst 0 (of_nat (length [1, 2, 3 :: byte])) s4 = Inr (int (length [1, 2, 3 :: byte]), [1, 2, 3], s5))"
    using boot_reads_files [OF files_ex_ok(1-3), where ?'a = unit] by blast
  show ?thesis using s(1) s(2) [rule_format, OF kern_ex_ok] files_ex_ok(5) by simp
qed

end
