(* ===== verification/Growth.thy ===== *)
theory Growth
  imports Inodes
begin

text \<open>
  Writing files, also beyond their end: what \<^verbatim>\<open>bmap\<close> does when a block is missing, that \<^verbatim>\<open>writei\<close>
  stores its bytes, allocates the missing wblocks and sets the size, that \<^verbatim>\<open>readi\<close> then returns the
  bytes, and that \<^verbatim>\<open>dirlookup\<close> finds what \<^verbatim>\<open>dirlink\<close> entered, in a free entry or at the end of the
  directory.  The first sections speak of the contents \<open>C\<close> of the disk, with the superblock \<open>q\<close> and
  the wblocks \<open>il\<close> of the log; the later ones of the code.
\<close>

section \<open>Blocks in use\<close>

definition bm_ok :: "superblock \<Rightarrow> (u32 \<Rightarrow> bool) \<Rightarrow> (u32 \<Rightarrow> byte list) \<Rightarrow> bool" where
  "bm_ok q il C \<longleftrightarrow>
     (\<forall>b < fs_size q. \<not> il (bm_block q b) \<and> length (C (bm_block q b)) = BSIZE) \<and>
     (\<forall>b < fs_size q. \<forall>c < fs_size q. bm_block q b = bm_block q c \<longrightarrow> b div BPB = c div BPB) \<and>
     (\<forall>b < fs_size q. blk_free q C b \<longrightarrow> \<not> il (of_nat b) \<and> (\<forall>c < fs_size q. bm_block q c \<noteq> of_nat b))"

lemma bitmap_ok_bm: "bitmap_ok s = bm_ok (sb s) (in_log s) (content s (lg_dev (lg s)))"
  unfolding bitmap_ok_def bm_ok_def Let_def by (rule refl)

lemma bm_okD:
  assumes "bm_ok q il C"
  shows "b < fs_size q \<Longrightarrow> \<not> il (bm_block q b)" "b < fs_size q \<Longrightarrow> length (C (bm_block q b)) = BSIZE"
    "b < fs_size q \<Longrightarrow> c < fs_size q \<Longrightarrow> bm_block q b = bm_block q c \<Longrightarrow> b div BPB = c div BPB"
    "b < fs_size q \<Longrightarrow> blk_free q C b \<Longrightarrow> \<not> il (of_nat b)"
    "b < fs_size q \<Longrightarrow> blk_free q C b \<Longrightarrow> c < fs_size q \<Longrightarrow> bm_block q c \<noteq> of_nat b"
  using assms unfolding bm_ok_def by blast+

lemma bm_okI:
  assumes "bm_ok q il C" "\<And>b. b < fs_size q \<Longrightarrow> length (D (bm_block q b)) = BSIZE"
    "\<And>b. b < fs_size q \<Longrightarrow> blk_free q D b \<Longrightarrow> blk_free q C b"
  shows "bm_ok q il D"
  using assms unfolding bm_ok_def by blast

text \<open>A block that is neither free nor part of the log or of the bitmap, and the number of free blocks.\<close>

definition inuse :: "superblock \<Rightarrow> (u32 \<Rightarrow> bool) \<Rightarrow> (u32 \<Rightarrow> byte list) \<Rightarrow> u32 \<Rightarrow> bool" where
  "inuse q il C a \<longleftrightarrow> \<not> il a \<and> length (C a) = BSIZE \<and>
     (\<forall>c < fs_size q. bm_block q c \<noteq> a \<and> (of_nat c = a \<longrightarrow> \<not> blk_free q C c))"

definition nfree :: "superblock \<Rightarrow> (u32 \<Rightarrow> byte list) \<Rightarrow> nat" where
  "nfree q C = card {b. b < fs_size q \<and> blk_free q C b}"

lemma inuseD:
  assumes "inuse q il C a"
  shows "\<not> il a" "length (C a) = BSIZE" "c < fs_size q \<Longrightarrow> bm_block q c \<noteq> a" "c < fs_size q \<Longrightarrow> of_nat c = a \<Longrightarrow> \<not> blk_free q C c"
  using assms unfolding inuse_def by blast+

lemma of_nat_blk: "b < fs_size q \<Longrightarrow> c < fs_size q \<Longrightarrow> (of_nat b :: u32) = of_nat c \<Longrightarrow> b = c"
  using unsigned_less [of "sb_size q", where ?'a = nat]
  by (auto dest!: arg_cong [where f = unat] simp: unsigned_of_nat take_bit_nat_eq_self)

lemma alloc_block:
  assumes bm: "bm_ok q il C" and b: "b < fs_size q" "blk_free q C b"
  defines "D \<equiv> allocated q C b"
  shows "bm_ok q il D" "c < fs_size q \<Longrightarrow> blk_free q D c \<longleftrightarrow> blk_free q C c \<and> c \<noteq> b"
    "inuse q il C a \<Longrightarrow> inuse q il D a \<and> D a = C a" "inuse q il D (of_nat b)" "\<not> inuse q il C (of_nat b)"
    "D (of_nat b) = replicate BSIZE 0" "Suc (nfree q D) = nfree q C"
proof -
  have ne: "bm_block q c \<noteq> of_nat b" if "c < fs_size q" for c using bm_okD(5) [OF bm b that] .
  have len: "length (C (bm_block q b)) = BSIZE"
    and inj: "\<And>c. c < fs_size q \<Longrightarrow> bm_block q b = bm_block q c \<Longrightarrow> b div BPB = c div BPB" using bm_okD(2,3) [OF bm b(1)] by blast+
  have f: "blk_free q D c \<longleftrightarrow> blk_free q C c \<and> c \<noteq> b" if "c < fs_size q" for c
    using blk_free_set(1) [of C q b c, OF len inj that] ne [OF that] by (simp add: D_def allocated_def blk_free_def)
  then show "c < fs_size q \<Longrightarrow> blk_free q D c \<longleftrightarrow> blk_free q C c \<and> c \<noteq> b" .
  have lD: "length (D k) = length (C k)" if "k \<noteq> of_nat b" for k using that by (simp add: D_def allocated_def)
  show z: "D (of_nat b) = replicate BSIZE 0" by (simp add: D_def allocated_def)
  have "length (D (bm_block q c)) = BSIZE" if "c < fs_size q" for c
    using bm_okD(2) [OF bm that] lD [OF ne [OF that]] by simp
  then show "bm_ok q il D" using f by (intro bm_okI [OF bm]) blast+
  show "\<not> inuse q il C (of_nat b)" using b inuseD(4) by blast
  have "\<not> il (of_nat b)" using bm_okD(4) [OF bm b] .
  moreover have "\<not> blk_free q D c" if "c < fs_size q" "(of_nat c :: u32) = of_nat b" for c
    using of_nat_blk [OF that(1) b(1) that(2)] f [OF that(1)] by blast
  ultimately show "inuse q il D (of_nat b)" using ne z unfolding inuse_def by (metis length_replicate)
  show "inuse q il D a \<and> D a = C a" if "inuse q il C a"
  proof -
    have "a \<noteq> of_nat b" "a \<noteq> bm_block q b" using inuseD(3,4) [OF that b(1)] b(2) by blast+
    then have "D a = C a" by (simp add: D_def allocated_def)
    then show ?thesis using that f unfolding inuse_def by metis
  qed
  have "{c. c < fs_size q \<and> blk_free q C c} = insert b {c. c < fs_size q \<and> blk_free q D c}" using b f by auto
  moreover have "b \<notin> {c. c < fs_size q \<and> blk_free q D c}" using f b by simp
  ultimately show "Suc (nfree q D) = nfree q C" by (simp add: nfree_def)
qed

lemma store_block:
  assumes bm: "bm_ok q il C" and a: "inuse q il C a" "length v = BSIZE"
  defines "D \<equiv> C(a := v)"
  shows "bm_ok q il D" "c < fs_size q \<Longrightarrow> blk_free q D c = blk_free q C c" "inuse q il D b = inuse q il C b" "nfree q D = nfree q C"
proof -
  have ne: "bm_block q c \<noteq> a" if "c < fs_size q" for c using inuseD(3) [OF a(1) that] .
  then have f: "blk_free q D c = blk_free q C c" if "c < fs_size q" for c using that by (simp add: blk_free_def D_def)
  then show "c < fs_size q \<Longrightarrow> blk_free q D c = blk_free q C c" .
  have "length (D (bm_block q c)) = BSIZE" if "c < fs_size q" for c using ne [OF that] bm_okD(2) [OF bm that] by (simp add: D_def)
  then show "bm_ok q il D" using f by (intro bm_okI [OF bm]) blast+
  have "length (D b) = BSIZE \<longleftrightarrow> length (C b) = BSIZE" using a(2) inuseD(2) [OF a(1)] by (simp add: D_def)
  then show "inuse q il D b = inuse q il C b" using f unfolding inuse_def by metis
  have "{c. c < fs_size q \<and> blk_free q D c} = {c. c < fs_size q \<and> blk_free q C c}" using f by auto
  then show "nfree q D = nfree q C" by (simp add: nfree_def)
qed

section \<open>The wblocks of a file\<close>

text \<open>Slot \<open>i\<close> of a file is the address of block \<open>i\<close>, 0 if there is none; slot \<^verbatim>\<open>MAXFILE\<close> is the address
  of the indirect block.\<close>

definition fslot :: "inode \<Rightarrow> (u32 \<Rightarrow> byte list) \<Rightarrow> nat \<Rightarrow> u32" where
  "fslot x C i =
     (if i < NDIRECT then i_addrs x i
      else if i = MAXFILE then i_addrs x NDIRECT
      else if i_addrs x NDIRECT = 0 then 0
      else get32 (C (i_addrs x NDIRECT)) (4 * (i - NDIRECT)))"

lemma fblk_slot: "i < MAXFILE \<Longrightarrow> fslot x C i \<noteq> 0 \<Longrightarrow> fblk x C i = fslot x C i"
  by (auto simp: fslot_def fblk_def split: if_splits)

text \<open>The blocks of a file are different blocks in use, none of them the block \<open>k\<close> of its inode.\<close>

definition sound :: "superblock \<Rightarrow> (u32 \<Rightarrow> bool) \<Rightarrow> (u32 \<Rightarrow> byte list) \<Rightarrow> u32 \<Rightarrow> inode \<Rightarrow> bool" where
  "sound q il C k x \<longleftrightarrow> bm_ok q il C \<and> \<not> blk_free q C 0 \<and> 0 < fs_size q \<and> inuse q il C k \<and> k \<noteq> 0 \<and>
     (\<forall>i \<le> MAXFILE. fslot x C i \<noteq> 0 \<longrightarrow> inuse q il C (fslot x C i) \<and> fslot x C i \<noteq> k) \<and>
     (\<forall>i \<le> MAXFILE. \<forall>j \<le> MAXFILE. fslot x C i = fslot x C j \<longrightarrow> fslot x C i \<noteq> 0 \<longrightarrow> i = j)"

lemma soundD:
  assumes "sound q il C k x"
  shows "bm_ok q il C" "\<not> blk_free q C 0" "inuse q il C k" "0 < fs_size q"
    and "i \<le> MAXFILE \<Longrightarrow> fslot x C i \<noteq> 0 \<Longrightarrow> inuse q il C (fslot x C i) \<and> fslot x C i \<noteq> k"
    and "i \<le> MAXFILE \<Longrightarrow> j \<le> MAXFILE \<Longrightarrow> fslot x C i = fslot x C j \<Longrightarrow> fslot x C i \<noteq> 0 \<Longrightarrow> i = j"
    and "k \<noteq> 0"
  using assms unfolding sound_def by blast+

text \<open>Between two contents of the disk, \<open>bs\<close> was stored in the file from position \<open>off\<close> on: slots were
  only added, with blocks that were not in use; of the blocks in use only those of the file
  changed; the bytes stored are there, and all other bytes of blocks the file had are as before.\<close>

definition wrote ::
  "superblock \<Rightarrow> (u32 \<Rightarrow> bool) \<Rightarrow> inode \<Rightarrow> (u32 \<Rightarrow> byte list) \<Rightarrow> inode \<Rightarrow> (u32 \<Rightarrow> byte list) \<Rightarrow> nat \<Rightarrow> byte list \<Rightarrow> bool" where
  "wrote q il x C y D off bs \<longleftrightarrow> y = x\<lparr>i_addrs := i_addrs y\<rparr> \<and>
     (\<forall>i \<le> MAXFILE. fslot y D i = fslot x C i \<or> fslot x C i = 0 \<and> \<not> inuse q il C (fslot y D i)) \<and>
     (\<forall>a. inuse q il C a \<longrightarrow> inuse q il D a \<and> ((\<forall>i \<le> MAXFILE. fslot x C i \<noteq> a) \<longrightarrow> D a = C a)) \<and>
     (\<forall>i. i div BSIZE < MAXFILE \<longrightarrow> (off \<le> i \<and> i < off + length bs) \<or> fslot x C (i div BSIZE) \<noteq> 0 \<longrightarrow>
        fslot y D (i div BSIZE) \<noteq> 0 \<and>
        fbyte y D i = (if off \<le> i \<and> i < off + length bs then bs ! (i - off) else fbyte x C i))"

lemma wroteD:
  assumes "wrote q il x C y D off bs"
  shows "y = x\<lparr>i_addrs := i_addrs y\<rparr>"
    and "i \<le> MAXFILE \<Longrightarrow> fslot y D i = fslot x C i \<or> fslot x C i = 0 \<and> \<not> inuse q il C (fslot y D i)"
    and "inuse q il C a \<Longrightarrow> inuse q il D a" "inuse q il C a \<Longrightarrow> \<forall>i \<le> MAXFILE. fslot x C i \<noteq> a \<Longrightarrow> D a = C a"
    and "j div BSIZE < MAXFILE \<Longrightarrow> off \<le> j \<and> j < off + length bs \<or> fslot x C (j div BSIZE) \<noteq> 0 \<Longrightarrow>
        fslot y D (j div BSIZE) \<noteq> 0 \<and>
        fbyte y D j = (if off \<le> j \<and> j < off + length bs then bs ! (j - off) else fbyte x C j)"
  using assms unfolding wrote_def by blast+

lemma wrote_refl: "wrote q il x C x C off []"
  unfolding wrote_def by (auto simp del: div_less_iff_less_mult)

lemma wrote_trans:
  assumes "wrote q il x C y D off bs" "wrote q il y D z E (off + length bs) cs"
  shows "wrote q il x C z E off (bs @ cs)"
proof -
  note W = wroteD [OF assms(1)] and V = wroteD [OF assms(2)]
  have "z = x\<lparr>i_addrs := i_addrs z\<rparr>" by (subst V(1), subst W(1)) simp
  moreover have "fslot z E i = fslot x C i \<or> fslot x C i = 0 \<and> \<not> inuse q il C (fslot z E i)" if "i \<le> MAXFILE" for i
    using W(2) [OF that] V(2) [OF that] W(3) by metis
  moreover have "inuse q il E a \<and> ((\<forall>i \<le> MAXFILE. fslot x C i \<noteq> a) \<longrightarrow> E a = C a)" if a: "inuse q il C a" for a
  proof -
    have "\<forall>i \<le> MAXFILE. fslot y D i \<noteq> a" if "\<forall>i \<le> MAXFILE. fslot x C i \<noteq> a" using W(2) a that by metis
    then show ?thesis using W(3,4) [OF a] V(3,4) [OF W(3) [OF a]] by auto
  qed
  moreover have "fslot z E (i div BSIZE) \<noteq> 0 \<and> fbyte z E i =
      (if off \<le> i \<and> i < off + length (bs @ cs) then (bs @ cs) ! (i - off) else fbyte x C i)"
    if i: "i div BSIZE < MAXFILE" "off \<le> i \<and> i < off + length (bs @ cs) \<or> fslot x C (i div BSIZE) \<noteq> 0" for i
  proof (cases "off + length bs \<le> i \<and> i < off + length bs + length cs")
    case True
    then have "bs @ cs \<noteq> []" "(bs @ cs) ! (i - off) = cs ! (i - (off + length bs))" by (auto simp: nth_append)
    then show ?thesis using V(5) [OF i(1)] True by simp
  next
    case False
    then have r: "off \<le> i \<and> i < off + length (bs @ cs) \<longleftrightarrow> off \<le> i \<and> i < off + length bs" by auto
    then have "fslot y D (i div BSIZE) \<noteq> 0" "fbyte y D i = (if off \<le> i \<and> i < off + length bs then bs ! (i - off) else fbyte x C i)"
      using W(5) [OF i(1)] i(2) by auto
    then show ?thesis using V(5) [OF i(1)] False r by (auto simp: nth_append)
  qed
  ultimately show ?thesis by (simp add: wrote_def)
qed

text \<open>A slot is filled with a block that was not in use.\<close>

lemma add_slot:
  assumes s: "sound q il C k x" and i: "i \<le> MAXFILE" "fslot x C i = 0"
    and y: "y = x\<lparr>i_addrs := i_addrs y\<rparr>" "\<And>j. j \<le> MAXFILE \<Longrightarrow> fslot y D j = (if j = i then a else fslot x C j)"
    and a: "inuse q il D a" "\<not> inuse q il C a"
    and D: "bm_ok q il D" "\<not> blk_free q D 0" "\<And>b. inuse q il C b \<Longrightarrow> inuse q il D b \<and> (b = fslot x C MAXFILE \<or> D b = C b)"
  shows "sound q il D k y" "wrote q il x C y D off []"
proof -
  note S = soundD [OF s]
  show "sound q il D k y"
    unfolding sound_def
  proof (intro conjI allI impI)
    show "inuse q il D k" using D(3) S(3) by blast
    fix j assume j: "j \<le> MAXFILE" "fslot y D j \<noteq> 0"
    show "inuse q il D (fslot y D j)" using j a(1) D(3) S(5) [of j] by (auto simp: y(2))
    show "fslot y D j \<noteq> k" using j a(2) S(3) S(5) [of j] by (auto simp: y(2))
  next
    fix j l assume jl: "j \<le> MAXFILE" "l \<le> MAXFILE" "fslot y D j = fslot y D l" "fslot y D j \<noteq> 0"
    then show "j = l" using a(2) S(6) [of j l] S(5) [of j] S(5) [of l] by (auto simp: y(2) split: if_splits)
  qed (use D S(4,7) in simp_all)
  have d: "fbyte y D j = fbyte x C j \<and> fslot y D (j div BSIZE) \<noteq> 0" if j: "j div BSIZE < MAXFILE" "fslot x C (j div BSIZE) \<noteq> 0" for j
  proof -
    let ?n = "j div BSIZE"
    have n: "?n \<le> MAXFILE" "?n \<noteq> i" using j i(2) by auto
    then have e: "fslot y D ?n = fslot x C ?n" by (simp add: y(2))
    have "fslot x C ?n \<noteq> fslot x C MAXFILE" using S(6) [of ?n MAXFILE] j by auto
    then have "D (fslot x C ?n) = C (fslot x C ?n)" using D(3) S(5) [OF n(1) j(2)] by blast
    then show ?thesis using e j fblk_slot [of ?n x C] fblk_slot [of ?n y D] by (simp add: fbyte_def)
  qed
  show "wrote q il x C y D off []"
    unfolding wrote_def
  proof (intro conjI allI impI)
    show "fslot y D j = fslot x C j \<or> fslot x C j = 0 \<and> \<not> inuse q il C (fslot y D j)" if "j \<le> MAXFILE" for j
      using that i(2) a(2) by (simp add: y(2))
    show "inuse q il D b" if "inuse q il C b" for b using D(3) that by blast
    show "D b = C b" if "inuse q il C b" "\<forall>j \<le> MAXFILE. fslot x C j \<noteq> b" for b using D(3) that by blast
  qed (use d y(1) in auto)
qed

text \<open>The three places for a new block: an address in the inode, among them that of the indirect
  block, and an entry of the indirect block.\<close>

abbreviation (input) slot_no :: "nat \<Rightarrow> nat" where
  "slot_no i \<equiv> (if i = NDIRECT then MAXFILE else i)"

lemma get32_zero_block: "off + 4 \<le> BSIZE \<Longrightarrow> get32 (replicate BSIZE 0) off = 0"
  by (simp add: get32_def le_word_zeros)

lemma alloc_addr:
  assumes s: "sound q il C k x" and b: "b < fs_size q" "blk_free q C b" and i: "i \<le> NDIRECT" "i_addrs x i = 0"
  defines "a \<equiv> of_nat b" and "D \<equiv> allocated q C b"
  defines "y \<equiv> x\<lparr>i_addrs := (i_addrs x)(i := a)\<rparr>"
  shows "sound q il D k y" "wrote q il x C y D off []" "j \<le> MAXFILE \<Longrightarrow> fslot y D j = (if j = slot_no i then a else fslot x C j)"
    "a \<noteq> 0" "Suc (nfree q D) = nfree q C"
proof -
  note S = soundD [OF s] and A = alloc_block [OF S(1) b, folded D_def a_def]
  have "b \<noteq> 0" using b(2) S(2) by metis
  then show a: "a \<noteq> 0" using of_nat_blk [OF b(1) S(4)] by (auto simp: a_def)
  have ind: "D (i_addrs x NDIRECT) = C (i_addrs x NDIRECT)" if "i_addrs x NDIRECT \<noteq> 0"
    using S(5) [of MAXFILE] that A(3) by (auto simp: fslot_def)
  show f: "fslot y D j = (if j = slot_no i then a else fslot x C j)" if "j \<le> MAXFILE" for j
  proof (cases "i = NDIRECT")
    case True
    have "get32 (D a) (4 * (j - NDIRECT)) = 0" if "j < MAXFILE" "NDIRECT \<le> j"
      using get32_zero_block [of "4 * (j - NDIRECT)"] A(6) that by simp
    then show ?thesis using True i(2) a that by (auto simp: fslot_def y_def)
  next
    case False
    then show ?thesis using i ind that by (auto simp: fslot_def y_def)
  qed
  have z: "fslot x C (slot_no i) = 0" "slot_no i \<le> MAXFILE" using i by (auto simp: fslot_def)
  have y: "y = x\<lparr>i_addrs := i_addrs y\<rparr>" by (simp add: y_def)
  have D0: "\<not> blk_free q D 0" using A(2) [OF S(4)] S(2) by blast
  show "sound q il D k y" "wrote q il x C y D off []"
    using add_slot [OF s z(2,1) y f A(4,5,1) D0] A(3) by blast+
  show "Suc (nfree q D) = nfree q C" by (rule A(7))
qed

lemma alloc_entry:
  assumes s: "sound q il C k x" and b: "b < fs_size q" "blk_free q C b" and i: "NDIRECT \<le> i" "i < MAXFILE" "fslot x C i = 0"
    and ind: "e = i_addrs x NDIRECT" "e \<noteq> 0"
  defines "a \<equiv> of_nat b"
  defines "D \<equiv> (allocated q C b)(e := put32 (C e) (4 * (i - NDIRECT)) a)"
  shows "sound q il D k x" "wrote q il x C x D off []" "j \<le> MAXFILE \<Longrightarrow> fslot x D j = (if j = i then a else fslot x C j)"
    "a \<noteq> 0" "Suc (nfree q D) = nfree q C"
proof -
  let ?A = "allocated q C b"
  note S = soundD [OF s] and A = alloc_block [OF S(1) b, folded a_def]
  have e: "inuse q il C e" using S(5) [of MAXFILE] ind by (simp add: fslot_def)
  have eA: "inuse q il ?A e" "?A e = C e" using A(3) [OF e] by blast+
  have "length (put32 (C e) (4 * (i - NDIRECT)) a) = BSIZE" using i inuseD(2) [OF e] by (simp add: put32_def)
  note P = store_block [OF A(1) eA(1) this, folded D_def]
  have "b \<noteq> 0" using b(2) S(2) by metis
  then show a: "a \<noteq> 0" using of_nat_blk [OF b(1) S(4)] by (auto simp: a_def)
  show f: "fslot x D j = (if j = i then a else fslot x C j)" if "j \<le> MAXFILE" for j
  proof (cases "NDIRECT \<le> j \<and> j < MAXFILE")
    case True
    have "4 * (j - NDIRECT) + 4 \<le> 4 * (i - NDIRECT) \<or> 4 * (i - NDIRECT) + 4 \<le> 4 * (j - NDIRECT) \<or> j = i"
      using True i by linarith
    then show ?thesis using True i ind inuseD(2) [OF e]
        get32_put32 [of "4 * (i - NDIRECT)" "C e" "4 * (j - NDIRECT)" a] by (auto simp: fslot_def D_def)
  next
    case False
    then show ?thesis using i that by (auto simp: fslot_def)
  qed
  have D0: "\<not> blk_free q D 0" using A(2) [OF S(4)] P(2) [OF S(4)] S(2) by blast
  have M: "fslot x C MAXFILE = e" using ind by (simp add: fslot_def)
  have c: "inuse q il D c \<and> (c = fslot x C MAXFILE \<or> D c = C c)" if "inuse q il C c" for c
    using A(3) [OF that] P(3) [of c] by (simp add: M D_def)
  have "inuse q il D a" "i \<le> MAXFILE" "x = x\<lparr>i_addrs := i_addrs x\<rparr>" using P(3) A(4) i(2) by simp_all
  from add_slot [OF s this(2) i(3) this(3) f this(1) A(5) P(1) D0 c]
  show "sound q il D k x" "wrote q il x C x D off []" by blast+
  show "Suc (nfree q D) = nfree q C" using A(7) P(4) by simp
qed

text \<open>Bytes stored within one block that the file has.\<close>

lemma store_data:
  assumes s: "sound q il C k x" and n: "off div BSIZE < MAXFILE" "fslot x C (off div BSIZE) \<noteq> 0" and bs: "off mod BSIZE + length bs \<le> BSIZE"
  defines "a \<equiv> fslot x C (off div BSIZE)"
  defines "D \<equiv> C(a := put (C a) (off mod BSIZE) bs)"
  shows "sound q il D k x" "wrote q il x C x D off bs" "j \<le> MAXFILE \<Longrightarrow> fslot x D j = fslot x C j" "nfree q D = nfree q C"
proof -
  note S = soundD [OF s]
  have a: "inuse q il C a" using S(5) [of "off div BSIZE"] n by (simp add: a_def)
  have len: "length (C a) = BSIZE" by (rule inuseD(2) [OF a])
  have "length (put (C a) (off mod BSIZE) bs) = BSIZE" using bs len by simp
  note P = store_block [OF S(1) a this, folded D_def]
  show "nfree q D = nfree q C" by (rule P(4))
  have ne: "a \<noteq> i_addrs x NDIRECT" using S(6) [of "off div BSIZE" MAXFILE] n by (auto simp: a_def fslot_def split: if_splits)
  show f: "fslot x D j = fslot x C j" if "j \<le> MAXFILE" for j
    using ne by (simp add: fslot_def D_def)
  have D0: "\<not> blk_free q D 0" using P(2) [OF S(4)] S(2) by blast
  show "sound q il D k x" using s P(1) D0 f P(3) unfolding sound_def by simp
  show "wrote q il x C x D off bs"
    unfolding wrote_def
  proof (intro conjI allI impI)
    fix i assume i: "i div BSIZE < MAXFILE" "off \<le> i \<and> i < off + length bs \<or> fslot x C (i div BSIZE) \<noteq> 0"
    have r: "i div BSIZE = off div BSIZE" if o: "off \<le> i \<and> i < off + length bs"
    proof -
      have "off mod BSIZE + (i - off) < BSIZE" using o bs by linarith
      from block_pos(1) [OF this] show ?thesis using o by simp
    qed
    then have nz: "fslot x C (i div BSIZE) \<noteq> 0" using i(2) n(2) by metis
    then show "fslot x D (i div BSIZE) \<noteq> 0" using f i(1) by simp
    have b: "fbyte x D i = D (fslot x C (i div BSIZE)) ! (i mod BSIZE)" "fbyte x C i = C (fslot x C (i div BSIZE)) ! (i mod BSIZE)"
      using nz i(1) f fblk_slot [of "i div BSIZE" x C] fblk_slot [of "i div BSIZE" x D] by (simp_all add: fbyte_def)
    show "fbyte x D i = (if off \<le> i \<and> i < off + length bs then bs ! (i - off) else fbyte x C i)"
    proof (cases "i div BSIZE = off div BSIZE")
      case True
      have e: "i = BSIZE * (off div BSIZE) + i mod BSIZE" "off = BSIZE * (off div BSIZE) + off mod BSIZE"
        unfolding True [symmetric] by (simp_all only: mult_div_mod_eq) (simp_all only: True mult_div_mod_eq)
      have "off \<le> i \<and> i < off + length bs \<longleftrightarrow> off mod BSIZE \<le> i mod BSIZE \<and> i mod BSIZE < off mod BSIZE + length bs"
        "i - off = i mod BSIZE - off mod BSIZE" using e by linarith+
      moreover have "D a ! (i mod BSIZE) = (if off mod BSIZE \<le> i mod BSIZE \<and> i mod BSIZE < off mod BSIZE + length bs
          then bs ! (i mod BSIZE - off mod BSIZE) else C a ! (i mod BSIZE))"
        using put_nth [of "off mod BSIZE" bs "C a" "i mod BSIZE"] bs len by (simp add: D_def)
      ultimately show ?thesis using b True by (simp only: a_def)
    next
      case False
      then have "fslot x C (i div BSIZE) \<noteq> a" using S(6) [of "i div BSIZE" "off div BSIZE"] i(1) n nz by (auto simp: a_def)
      then show ?thesis using b r False by (auto simp: D_def)
    qed
  next
    fix c assume c: "inuse q il C c"
    then show "inuse q il D c" using P(3) by blast
    assume "\<forall>i \<le> MAXFILE. fslot x C i \<noteq> c"
    then have "c \<noteq> a" using less_imp_le_nat [OF n(1)] unfolding a_def by blast
    then show "D c = C c" by (simp add: D_def)
  qed (use f in simp_all)
qed

section \<open>Steps that change one inode\<close>

text \<open>Between \<open>s\<close> and \<open>t\<close> at most \<open>n\<close> blocks were added to the log, and nothing but blocks, buffers, the
  log and the entry \<open>ip\<close> of the inode table changed.\<close>

definition grew :: "nat \<Rightarrow> nat \<Rightarrow> 'a fkern_scheme \<Rightarrow> 'a fkern_scheme \<Rightarrow> bool" where
  "grew n ip s t \<longleftrightarrow> lg t = (lg s)\<lparr>lg_lh := lg_lh (lg t)\<rparr> \<and> log_n t \<le> log_n s + int n \<and> logged s \<subseteq> logged t \<and>
     sb t = sb s \<and> fkern.more t = fkern.more s \<and> (\<forall>j. j \<noteq> ip \<longrightarrow> itable t j = itable s j)"

lemma kept_grew:
  fixes s t :: "'a fkern_scheme"
  assumes "kept n s t"
  shows "grew n ip s t"
proof -
  have "fkern.more t = fkern.more s" using keptD(6) [OF assms] by (cases s; cases t) simp
  then show ?thesis using assms more_fs [OF keptD(6) [OF assms]] by (simp add: grew_def kept_def)
qed

lemma grew_trans: "grew n ip s t \<Longrightarrow> grew m ip t u \<Longrightarrow> n + m \<le> k \<Longrightarrow> grew k ip s u"
proof -
  assume a: "grew n ip s t" "grew m ip t u" "n + m \<le> k"
  then have "lg u = (lg t)\<lparr>lg_lh := lg_lh (lg u)\<rparr>" "lg t = (lg s)\<lparr>lg_lh := lg_lh (lg t)\<rparr>" by (simp_all add: grew_def)
  then have "lg u = (lg s)\<lparr>lg_lh := lg_lh (lg u)\<rparr>" by (metis log.surjective log.update_convs(6))
  then show "grew k ip s u" using a by (auto simp: grew_def)
qed

lemma grewD:
  assumes "grew n ip s t"
  shows "lg_dev (lg t) = lg_dev (lg s)" "in_log t = in_log s" "sb t = sb s" "logged s \<subseteq> logged t" "j \<noteq> ip \<Longrightarrow> itable t j = itable s j"
    and "room k s \<Longrightarrow> n + m \<le> k \<Longrightarrow> room m t"
proof -
  have e: "lg t = (lg s)\<lparr>lg_lh := lg_lh (lg t)\<rparr>" using assms by (simp add: grew_def)
  have f: "lg_size (lg t) = lg_size (lg s)" "lg_start (lg t) = lg_start (lg s)" "lg_outstanding (lg t) = lg_outstanding (lg s)"
    by (subst e, simp)+
  show "lg_dev (lg t) = lg_dev (lg s)" by (subst e) simp
  show "in_log t = in_log s" by (rule in_log_cong [OF f(2,1)])
  show "room k s \<Longrightarrow> n + m \<le> k \<Longrightarrow> room m t" using assms f by (simp add: room_def grew_def)
qed (use assms in \<open>simp_all add: grew_def\<close>)

lemma upd_inode_sel [simp]:
  "lg (upd_inode ip f s) = lg s" "bufs (upd_inode ip f s) = bufs s" "disk (upd_inode ip f s) = disk s" "sb (upd_inode ip f s) = sb s"
  "k_sched (upd_inode ip f s) = k_sched s" "itable (upd_inode ip f s) = (itable s)(ip := f (itable s ip))"
  by (simp_all add: upd_inode_def)

lemma upd_inode_log [simp]:
  "content (upd_inode ip f s) = content s" "logged (upd_inode ip f s) = logged s"
  "in_log (upd_inode ip f s) = in_log s" "log_open H (upd_inode ip f s) = log_open H s" "room n (upd_inode ip f s) = room n s"
proof -
  show c: "content (upd_inode ip f s) = content s" by (intro ext) (simp add: content_def cong: option.case_cong)
  show "in_log (upd_inode ip f s) = in_log s" by (rule in_log_cong) simp_all
  then show "log_open H (upd_inode ip f s) = log_open H s"
    by (simp add: log_open_def busy_def clean_def head_at_def)
qed (simp_all add: logged_def room_def)

lemma upd_inode_grew: "grew 0 ip s (upd_inode ip f s)"
  by (simp add: grew_def logged_def) (simp add: upd_inode_def)

text \<open>The notions of the first sections, for the inode \<open>ip\<close> of a state.\<close>

definition slots :: "nat \<Rightarrow> 'a fkern_scheme \<Rightarrow> nat \<Rightarrow> u32" where
  "slots ip s = fslot (itable s ip) (content s (lg_dev (lg s)))"

definition sound_at :: "nat \<Rightarrow> u32 \<Rightarrow> 'a fkern_scheme \<Rightarrow> bool" where
  "sound_at ip k s \<longleftrightarrow> log_open {} s \<and> i_dev (itable s ip) = lg_dev (lg s) \<and>
     sound (sb s) (in_log s) (content s (lg_dev (lg s))) k (itable s ip)"

definition avail :: "'a fkern_scheme \<Rightarrow> nat" where
  "avail s = nfree (sb s) (content s (lg_dev (lg s)))"

definition changed :: "nat \<Rightarrow> nat \<Rightarrow> byte list \<Rightarrow> 'a fkern_scheme \<Rightarrow> 'a fkern_scheme \<Rightarrow> bool" where
  "changed ip off bs s t \<longleftrightarrow> wrote (sb s) (in_log s) (itable s ip) (content s (lg_dev (lg s)))
     (itable t ip) (content t (lg_dev (lg s))) off bs"

lemma changed_trans:
  assumes "changed ip off bs s t" "changed ip (off + length bs) cs t u" "grew n ip s t"
  shows "changed ip off (bs @ cs) s u"
  using wrote_trans [of "sb s" "in_log s", OF assms(1) [unfolded changed_def]] assms(2) grewD [OF assms(3)]
  by (simp add: changed_def)

lemma changed_inode: "changed ip off bs s t \<Longrightarrow> itable t ip = (itable s ip)\<lparr>i_addrs := i_addrs (itable t ip)\<rparr>"
  unfolding changed_def by (rule wroteD(1))

lemma free_avail: "0 < avail s \<longleftrightarrow> (\<exists>b < fs_size (sb s). blk_free (sb s) (content s (lg_dev (lg s))) b)"
  by (auto simp: avail_def nfree_def card_gt_0_iff)

section \<open>\<^verbatim>\<open>bmap\<close> with allocation\<close>

lemma sound_atD:
  assumes "sound_at ip k s"
  shows "log_open {} s" "i_dev (itable s ip) = lg_dev (lg s)" "sound (sb s) (in_log s) (content s (lg_dev (lg s))) k (itable s ip)"
    "bitmap_ok s"
  using assms soundD(1) by (auto simp: sound_at_def bitmap_ok_bm)

lemma take_addr:
  fixes s :: "'a fkern_scheme"
  assumes s: "sound_at ip k s" "room 2 s" "0 < avail s" and i: "i \<le> NDIRECT" "i_addrs (itable s ip) i = 0"
  obtains a t u where "balloc (lg_dev (lg s)) s = Inr (a, t)" "a \<noteq> 0"
    "u = upd_inode ip (\<lambda>x. x\<lparr>i_addrs := (i_addrs x)(i := a)\<rparr>) t" "sound_at ip k u" "grew 2 ip s u" "\<And>off. changed ip off [] s u"
    "\<And>j. j \<le> MAXFILE \<Longrightarrow> slots ip u j = (if j = slot_no i then a else slots ip s j)" "Suc (avail u) = avail s" "a \<in> logged u"
proof -
  let ?d = "lg_dev (lg s)" and ?q = "sb s"
  note F = sound_atD [OF s(1)]
  obtain b0 where b0: "b0 < fs_size ?q" "blk_free ?q (content s ?d) b0" using s(3) unfolding free_avail by blast
  obtain b t where t: "balloc ?d s = Inr (of_nat b, t)" "b < fs_size ?q" "blk_free ?q (content s ?d) b" "log_open {} t"
    "kept 2 s t" "content t ?d = allocated ?q (content s ?d) b" "held {} s t" "of_nat b \<in> logged t"
    by (rule balloc_open [OF F(1) s(2) F(4) refl unheld_empty b0])
  note T = keptD [OF t(5)] more_fs [OF keptD(6) [OF t(5)]]
  define u where "u = upd_inode ip (\<lambda>x. x\<lparr>i_addrs := (i_addrs x)(i := of_nat b)\<rparr>) t"
  note A = alloc_addr [OF F(3) t(2,3) i]
  have x: "itable u ip = (itable s ip)\<lparr>i_addrs := (i_addrs (itable s ip))(i := of_nat b)\<rparr>" by (simp add: u_def T)
  have c: "content u ?d = allocated ?q (content s ?d) b" by (simp add: u_def t(6))
  have lu: "lg_dev (lg u) = ?d" "sb u = ?q" "in_log u = in_log s" by (simp_all add: u_def T)
  show ?thesis
  proof (rule that [OF t(1) A(4) u_def])
    show "sound_at ip k u" using A(1) t(4) F(2) T(1) by (simp add: sound_at_def lu x c) (simp add: u_def)
    show "grew 2 ip s u" unfolding u_def by (rule grew_trans [OF kept_grew [OF t(5)] upd_inode_grew]) simp
    show "changed ip off [] s u" for off unfolding changed_def x c by (rule A(2))
    show "slots ip u j = (if j = slot_no i then of_nat b else slots ip s j)" if "j \<le> MAXFILE" for j
      using A(3) [OF that] by (simp only: slots_def lu(1) x c)
    show "Suc (avail u) = avail s" using A(5) by (simp add: avail_def lu c)
    show "of_nat b \<in> logged u" using t(8) by (simp add: u_def)
  qed
qed

lemma take_entry:
  fixes s :: "'a fkern_scheme"
  assumes s: "sound_at ip k s" "room 3 s" "0 < avail s" and i: "NDIRECT \<le> i" "i < MAXFILE" "slots ip s i = 0"
    and e: "e = i_addrs (itable s ip) NDIRECT" "e \<noteq> 0"
  obtains bp t a v u where "bread (lg_dev (lg s)) e s = Inr (bp, t)" "get32 (b_data (bufs t bp)) (4 * (i - NDIRECT)) = 0" "itable t = itable s"
    "balloc (lg_dev (lg s)) t = Inr (a, v)" "a \<noteq> 0" "log_release bp (set_data bp (put32 (b_data (bufs v bp)) (4 * (i - NDIRECT)) a) v) = Inr u"
    "sound_at ip k u" "grew (if e \<in> logged s then 2 else 3) ip s u" "\<And>off. changed ip off [] s u"
    "\<And>j. j \<le> MAXFILE \<Longrightarrow> slots ip u j = (if j = i then a else slots ip s j)" "Suc (avail u) = avail s" "a \<in> logged u" "e \<in> logged u"
proof -
  let ?d = "lg_dev (lg s)" and ?q = "sb s" and ?C = "content s (lg_dev (lg s))"
  note F = sound_atD [OF s(1)]
  have es: "inuse ?q (in_log s) ?C e" using soundD(5) [OF F(3), of MAXFILE] e by (simp add: fslot_def)
  obtain bp t where t: "bread ?d e s = Inr (bp, t)" "log_open {bp} t" "kept 0 s t" "b_blockno (bufs t bp) = e"
    "b_data (bufs t bp) = ?C e" "content t ?d = ?C" by (rule tx_read [OF F(1) refl])
  note T = keptD [OF t(3)] more_fs [OF keptD(6) [OF t(3)]]
  obtain b0 where b0: "b0 < fs_size (sb t)" "blk_free (sb t) (content t ?d) b0" using s(3) unfolding free_avail T(8) t(6) by blast
  have ap: "unheld {bp} t" unfolding unheld_def using inuseD(3,4) [OF es] by (simp add: t(4,6) T(1,8)) metis
  have bt: "bitmap_ok t" using bitmap_ok_cong [OF t(3,6)] F(4) by simp
  obtain b v where v: "balloc ?d t = Inr (of_nat b, v)" "b < fs_size (sb t)" "blk_free (sb t) (content t ?d) b" "log_open {bp} v"
    "kept 2 t v" "content v ?d = allocated (sb t) (content t ?d) b" "held {bp} t v" "of_nat b \<in> logged v"
    by (rule balloc_open [OF t(2) room_kept [OF s(2) t(3)] bt T(1) [symmetric] ap b0]) simp
  have sv: "kept 2 s v" by (rule kept_trans [OF t(3) v(5)]) simp
  note V = keptD [OF sv] more_fs [OF keptD(6) [OF sv]]
  have bv: "b_blockno (bufs v bp) = e" "b_data (bufs v bp) = ?C e" using v(7) t(4,5) by (simp_all add: held_def)
  have out: "\<not> in_log v e" "room 1 v" using inuseD(1) [OF es] V(5) room_kept [OF s(2) sv, of 1] by simp_all
  let ?w = "put32 (b_data (bufs v bp)) (4 * (i - NDIRECT)) (of_nat b)"
  obtain u where u: "log_release bp (set_data bp ?w v) = Inr u" "log_open ({bp} - {bp}) u" "content u ?d = (content v ?d)(e := ?w)"
    "logged u = insert e (logged v)" "kept (if e \<in> logged v then 0 else 1) v u"
    by (rule tx_write [OF v(4) V(1) [symmetric] _ bv(1) out]) auto
  have su: "kept (if e \<in> logged s then 2 else 3) s u"
    by (rule kept_trans [OF sv u(5)]) (use kept_logged [OF sv] in auto)
  note U = keptD [OF su] more_fs [OF keptD(6) [OF su]]
  have i0: "fslot (itable s ip) ?C i = 0" using i(3) by (simp add: slots_def)
  note A = alloc_entry [OF F(3) v(2,3) [unfolded T(8) t(6)] i(1,2) i0 e]
  have c: "content u ?d = (allocated ?q ?C b)(e := put32 (?C e) (4 * (i - NDIRECT)) (of_nat b))"
    using u(3) v(6) T(8) t(6) bv(2) by simp
  show ?thesis
  proof (rule that [OF t(1) _ T(9) v(1) A(4) u(1)])
    show "get32 (b_data (bufs t bp)) (4 * (i - NDIRECT)) = 0" using i0 i e t(5) by (simp add: fslot_def)
    show "sound_at ip k u" using A(1) u(2) F(2) U by (simp add: sound_at_def c)
    show "grew (if e \<in> logged s then 2 else 3) ip s u" by (rule kept_grew [OF su])
    show "changed ip off [] s u" for off unfolding changed_def U(9) c by (rule A(2))
    show "slots ip u j = (if j = i then of_nat b else slots ip s j)" if "j \<le> MAXFILE" for j
      using A(3) [OF that] by (simp only: slots_def U(1,9) c)
    show "Suc (avail u) = avail s" using A(5) by (simp add: avail_def U c)
    show "of_nat b \<in> logged u" "e \<in> logged u" using v(8) u(4) by simp_all
  qed
qed

text \<open>The blocks that \<^verbatim>\<open>bmap\<close> takes from the bitmap, and the blocks it adds to the log: for every new block
  the bitmap and the block, and the indirect block when it was not there yet.\<close>

definition bneed :: "nat \<Rightarrow> 'a fkern_scheme \<Rightarrow> nat \<Rightarrow> nat" where
  "bneed ip s bn = (if slots ip s bn \<noteq> 0 then 0 else if NDIRECT \<le> bn \<and> slots ip s MAXFILE = 0 then 2 else 1)"

definition icost :: "nat \<Rightarrow> 'a fkern_scheme \<Rightarrow> nat" where
  "icost ip s = (if slots ip s MAXFILE = 0 then 2 else if slots ip s MAXFILE \<in> logged s then 0 else 1)"

definition bcost :: "nat \<Rightarrow> 'a fkern_scheme \<Rightarrow> nat \<Rightarrow> nat" where
  "bcost ip s bn = (if slots ip s bn \<noteq> 0 then 0 else if bn < NDIRECT then 2 else 2 + icost ip s)"

text \<open>What a call of \<^verbatim>\<open>bmap\<close> that returns \<open>a\<close> in the state \<open>t\<close> has done.\<close>

definition mapped :: "nat \<Rightarrow> u32 \<Rightarrow> nat \<Rightarrow> 'a fkern_scheme \<Rightarrow> u32 \<Rightarrow> 'a fkern_scheme \<Rightarrow> bool" where
  "mapped ip k bn s a t \<longleftrightarrow> a \<noteq> 0 \<and> slots ip t bn = a \<and> sound_at ip k t \<and> grew (bcost ip s bn) ip s t \<and>
     (\<forall>off. changed ip off [] s t) \<and> avail s = avail t + bneed ip s bn \<and>
     (\<forall>j < MAXFILE. j \<noteq> bn \<longrightarrow> slots ip t j = slots ip s j) \<and>
     (slots ip s bn = 0 \<longrightarrow> a \<in> logged t \<and> (NDIRECT \<le> bn \<longrightarrow> slots ip t MAXFILE \<in> logged t \<and> slots ip t MAXFILE \<noteq> 0)) \<and>
     (slots ip s bn \<noteq> 0 \<or> bn < NDIRECT \<longrightarrow> slots ip t MAXFILE = slots ip s MAXFILE)"

lemma mappedD:
  assumes "mapped ip k bn s a t"
  shows "a \<noteq> 0" "slots ip t bn = a" "sound_at ip k t" "grew (bcost ip s bn) ip s t" "changed ip off [] s t"
    "avail s = avail t + bneed ip s bn" "j < MAXFILE \<Longrightarrow> j \<noteq> bn \<Longrightarrow> slots ip t j = slots ip s j"
    "slots ip s bn = 0 \<Longrightarrow> a \<in> logged t" "slots ip s bn = 0 \<Longrightarrow> NDIRECT \<le> bn \<Longrightarrow> slots ip t MAXFILE \<in> logged t \<and> slots ip t MAXFILE \<noteq> 0"
    "slots ip s bn \<noteq> 0 \<or> bn < NDIRECT \<Longrightarrow> slots ip t MAXFILE = slots ip s MAXFILE"
  using assms unfolding mapped_def by blast+

lemma changed_same: "itable t = itable s \<Longrightarrow> content t (lg_dev (lg s)) = content s (lg_dev (lg s)) \<Longrightarrow> changed ip off [] s t"
  by (simp add: changed_def wrote_refl)

lemma sound_at_same:
  assumes "sound_at ip k s" "log_open {} t" "kept n s t" "content t (lg_dev (lg s)) = content s (lg_dev (lg s))"
  shows "sound_at ip k t" "slots ip t = slots ip s" "avail t = avail s"
  using assms keptD [OF assms(3)] more_fs [OF keptD(6) [OF assms(3)]] by (simp_all add: sound_at_def slots_def avail_def)

lemma bmap_present:
  fixes s :: "'a fkern_scheme"
  assumes s: "sound_at ip k s" and bn: "bn < MAXFILE" "slots ip s bn \<noteq> 0"
  shows "\<exists>t. bmap ip bn s = Inr (slots ip s bn, t) \<and> mapped ip k bn s (slots ip s bn) t"
proof (cases "bn < NDIRECT")
  case True
  then have "bmap ip bn s = Inr (slots ip s bn, s)" using bn by (simp add: bmap_def Let_def slots_def fslot_def)
  then show ?thesis using s bn kept_grew [OF kept_refl, of ip s] changed_same [of s s ip]
    by (intro exI [of _ s]) (simp add: mapped_def bcost_def bneed_def)
next
  case False
  let ?d = "lg_dev (lg s)" and ?e = "i_addrs (itable s ip) NDIRECT"
  note F = sound_atD [OF s]
  have e: "?e \<noteq> 0" "get32 (content s ?d ?e) (4 * (bn - NDIRECT)) = slots ip s bn"
    using bn False by (auto simp: slots_def fslot_def split: if_splits)
  obtain b t where t: "bread ?d ?e s = Inr (b, t)" "kept 0 s t" "b_data (bufs t b) = content s ?d ?e"
    "\<exists>u. brelse b t = Inr u \<and> log_open {} u \<and> kept 0 s u \<and> content u ?d = content s ?d"
    by (rule tx_read [OF F(1) refl, of ?e]) (rule that)
  then obtain u where u: "brelse b t = Inr u" "log_open {} u" "kept 0 s u" "content u ?d = content s ?d" by blast
  have "bmap ip bn s = Inr (slots ip s bn, u)"
    using False bn e t(1,3) u(1) F(2) by (simp add: bmap_def Let_def bnd_def)
  moreover have "itable u = itable s" using more_fs [OF keptD(6) [OF u(3)]] by simp
  ultimately show ?thesis
    using sound_at_same [OF s u(2,3,4)] bn kept_grew [OF u(3), of ip] changed_same [of u s ip] u(4)
    by (intro exI [of _ u]) (simp add: mapped_def bcost_def bneed_def)
qed

lemma bmap_direct:
  fixes s :: "'a fkern_scheme"
  assumes s: "sound_at ip k s" "room (bcost ip s bn + 1) s" "bneed ip s bn \<le> avail s" and bn: "bn < NDIRECT" "slots ip s bn = 0"
  shows "\<exists>a t. bmap ip bn s = Inr (a, t) \<and> mapped ip k bn s a t"
proof -
  have c: "bcost ip s bn = 2" "bneed ip s bn = 1" using bn by (simp_all add: bcost_def bneed_def)
  have i: "bn \<le> NDIRECT" "i_addrs (itable s ip) bn = 0" using bn by (simp_all add: slots_def fslot_def)
  have r: "room 2 s" "0 < avail s" using s(2,3) c by (simp_all add: room_def)
  obtain a t u where t: "balloc (lg_dev (lg s)) s = Inr (a, t)" "a \<noteq> 0"
    "u = upd_inode ip (\<lambda>x. x\<lparr>i_addrs := (i_addrs x)(bn := a)\<rparr>) t" "sound_at ip k u" "grew 2 ip s u" "\<And>off. changed ip off [] s u"
    "\<And>j. j \<le> MAXFILE \<Longrightarrow> slots ip u j = (if j = slot_no bn then a else slots ip s j)" "Suc (avail u) = avail s" "a \<in> logged u"
    by (rule take_addr [OF s(1) r i]) (rule that)
  have "bmap ip bn s = Inr (a, u)" using bn(1) i(2) t(1-3) sound_atD(2) [OF s(1)] by (simp add: bmap_def Let_def bnd_def)
  then show ?thesis using t c bn by (intro exI [of _ a] exI [of _ u]) (simp add: mapped_def)
qed

lemma bmap_entry:
  fixes s :: "'a fkern_scheme"
  assumes s: "sound_at ip k s" "room 3 s" "0 < avail s" and bn: "NDIRECT \<le> bn" "bn < MAXFILE" "slots ip s bn = 0" "slots ip s MAXFILE \<noteq> 0"
  shows "\<exists>a t. bmap ip bn s = Inr (a, t) \<and> mapped ip k bn s a t"
proof -
  define e where "e = i_addrs (itable s ip) NDIRECT"
  have e: "slots ip s MAXFILE = e" "e \<noteq> 0" using bn(4) by (simp_all add: slots_def fslot_def e_def)
  obtain bp t a v u where t: "bread (lg_dev (lg s)) e s = Inr (bp, t)" "get32 (b_data (bufs t bp)) (4 * (bn - NDIRECT)) = 0" "itable t = itable s"
    "balloc (lg_dev (lg s)) t = Inr (a, v)" "a \<noteq> 0" "log_release bp (set_data bp (put32 (b_data (bufs v bp)) (4 * (bn - NDIRECT)) a) v) = Inr u"
    "sound_at ip k u" "grew (if e \<in> logged s then 2 else 3) ip s u" "\<And>off. changed ip off [] s u"
    "\<And>j. j \<le> MAXFILE \<Longrightarrow> slots ip u j = (if j = bn then a else slots ip s j)" "Suc (avail u) = avail s" "a \<in> logged u" "e \<in> logged u"
    by (rule take_entry [OF s bn(1-3) e_def e(2)]) (rule that)
  obtain w where "log_write bp (set_data bp (put32 (b_data (bufs v bp)) (4 * (bn - NDIRECT)) a) v) = Inr w" "brelse bp w = Inr u"
    using t(6) by (auto simp: log_release_def bnd_def split: sum.splits)
  moreover have "bn - NDIRECT < NINDIRECT" using bn(1,2) by simp
  ultimately have "bmap ip bn s = Inr (a, u)"
    using bn(1) t(1-5) e(2) sound_atD(2) [OF s(1)] by (simp add: bmap_def Let_def e_def bnd_def)
  moreover have "bcost ip s bn = (if e \<in> logged s then 2 else 3)" "bneed ip s bn = 1" using bn e by (simp_all add: bcost_def icost_def bneed_def)
  ultimately show ?thesis using t(5-13) bn e by (intro exI [of _ a] exI [of _ u]) (simp add: mapped_def)
qed

lemma bmap_both:
  fixes s :: "'a fkern_scheme"
  assumes s: "sound_at ip k s" "room 5 s" "2 \<le> avail s" and bn: "NDIRECT \<le> bn" "bn < MAXFILE" "slots ip s bn = 0" "slots ip s MAXFILE = 0"
  shows "\<exists>a t. bmap ip bn s = Inr (a, t) \<and> mapped ip k bn s a t"
proof -
  have e: "i_addrs (itable s ip) NDIRECT = 0" using bn(4) by (simp add: slots_def fslot_def)
  have r: "room 2 s" "0 < avail s" using s(2,3) by (simp_all add: room_def)
  obtain e' v u where u: "balloc (lg_dev (lg s)) s = Inr (e', v)" "e' \<noteq> 0"
    "u = upd_inode ip (\<lambda>x. x\<lparr>i_addrs := (i_addrs x)(NDIRECT := e')\<rparr>) v" "sound_at ip k u" "grew 2 ip s u" "\<And>off. changed ip off [] s u"
    "\<And>j. j \<le> MAXFILE \<Longrightarrow> slots ip u j = (if j = slot_no NDIRECT then e' else slots ip s j)" "Suc (avail u) = avail s" "e' \<in> logged u"
    by (rule take_addr [OF s(1) r order_refl e]) (rule that)
  note G = grewD [OF u(5)]
  have sl: "slots ip u MAXFILE = e'" "\<And>j. j < MAXFILE \<Longrightarrow> slots ip u j = slots ip s j" using u(7) by simp_all
  have ru: "room 3 u" "0 < avail u" using G(6) [OF s(2), of 3] u(8) s(3) by simp_all
  obtain a t where t: "bmap ip bn u = Inr (a, t)" "mapped ip k bn u a t"
    using bmap_entry [OF u(4) ru bn(1,2)] sl bn(2,3) u(2) by auto
  have "bmap ip bn s = bmap ip bn u"
    using bn(1) e u(1-3) sound_atD(2) [OF s(1)] by (simp add: bmap_def Let_def bnd_def)
  moreover have c: "bcost ip u bn = 2" "bcost ip s bn = 4" "bneed ip u bn = 1" "bneed ip s bn = 2"
    using bn sl u(2,9) by (simp_all add: bcost_def icost_def bneed_def)
  have "grew 4 ip s t" by (rule grew_trans [OF u(5), of 2]) (use t(2) c in \<open>simp_all add: mapped_def\<close>)
  moreover have "changed ip off [] s t" for off
    using changed_trans [OF u(6) _ u(5), of off "[]" t] t(2) by (simp add: mapped_def)
  ultimately have "mapped ip k bn s a t" using t(2) c u(8) sl bn by (simp add: mapped_def)
  then show ?thesis using t(1) \<open>bmap ip bn s = bmap ip bn u\<close> by auto
qed

lemma bmap_grows:
  fixes s :: "'a fkern_scheme"
  assumes s: "sound_at ip k s" "room (bcost ip s bn + 1) s" "bneed ip s bn \<le> avail s" and bn: "bn < MAXFILE"
  obtains a t where "bmap ip bn s = Inr (a, t)" "mapped ip k bn s a t"
proof -
  consider "slots ip s bn \<noteq> 0" | "slots ip s bn = 0" "bn < NDIRECT"
    | "slots ip s bn = 0" "NDIRECT \<le> bn" "slots ip s MAXFILE \<noteq> 0" | "slots ip s bn = 0" "NDIRECT \<le> bn" "slots ip s MAXFILE = 0" by linarith
  then have "\<exists>a t. bmap ip bn s = Inr (a, t) \<and> mapped ip k bn s a t"
  proof cases
    case 1
    then show ?thesis using bmap_present [OF s(1) bn] by blast
  next
    case 2
    then show ?thesis using bmap_direct [OF s] by blast
  next
    case 3
    then have "room 3 s" "0 < avail s" using s(2,3) by (auto simp: bcost_def bneed_def room_def)
    then show ?thesis using bmap_entry [OF s(1) _ _ _ bn] 3 by blast
  next
    case 4
    then have "room 5 s" "2 \<le> avail s" using s(2,3) by (auto simp: bcost_def icost_def bneed_def)
    then show ?thesis using bmap_both [OF s(1) _ _ _ bn] 4 by blast
  qed
  then show ?thesis using that by blast
qed

section \<open>\<^verbatim>\<open>writei\<close>\<close>

text \<open>The blocks that hold the bytes from \<open>off\<close> on, \<open>n\<close> of them; how many blocks are missing for them; and
  how many blocks writing them adds to the log at most: the blocks, the bitmap for every missing
  one, and the indirect block.\<close>

definition wblocks :: "nat \<Rightarrow> nat \<Rightarrow> nat list" where
  "wblocks off n = (if n = 0 then [] else [off div BSIZE..<(off + n + 1023) div BSIZE])"

definition wneed :: "nat \<Rightarrow> 'a fkern_scheme \<Rightarrow> nat list \<Rightarrow> nat" where
  "wneed ip s bns = length (filter (\<lambda>bn. slots ip s bn = 0) bns) +
     (if slots ip s MAXFILE = 0 \<and> (\<exists>bn\<in>set bns. NDIRECT \<le> bn \<and> slots ip s bn = 0) then 1 else 0)"

definition wcost :: "nat \<Rightarrow> 'a fkern_scheme \<Rightarrow> nat list \<Rightarrow> nat" where
  "wcost ip s bns = length bns + length (filter (\<lambda>bn. slots ip s bn = 0) bns) +
     (if \<exists>bn\<in>set bns. NDIRECT \<le> bn \<and> slots ip s bn = 0 then icost ip s else 0)"

lemma wblocks_step:
  assumes "0 < n" "m = min n (BSIZE - off mod BSIZE)"
  shows "wblocks off n = off div BSIZE # wblocks (off + m) (n - m)"
proof -
  obtain q r where off: "off = BSIZE * q + r" "r < BSIZE" by (metis mult_div_mod_eq mod_less_divisor zero_less_numeral)
  then have qr: "off div BSIZE = q" "off mod BSIZE = r" by simp_all
  show ?thesis
  proof (cases "n \<le> BSIZE - r")
    case True
    then have "m = n" using assms(2) qr by simp
    moreover have "(off + n + 1023) div BSIZE = Suc q" using assms(1) True off by (intro div_nat_eqI) simp_all
    ultimately show ?thesis using assms(1) qr by (simp add: wblocks_def)
  next
    case False
    then have m: "m = BSIZE - r" using assms(2) qr by simp
    have o: "off + m = BSIZE * Suc q" "off + m + (n - m) = off + n" using m off False by simp_all
    have "(off + m) div BSIZE = Suc q" unfolding o(1) by simp
    then have "wblocks (off + m) (n - m) = [Suc q..<(off + n + 1023) div BSIZE]" using False m unfolding wblocks_def o(2) by simp
    moreover have "wblocks off n = [q..<(off + n + 1023) div BSIZE]" using assms(1) qr(1) by (simp only: wblocks_def) simp
    moreover have "BSIZE * (q + 1) \<le> off + n + 1023" using off assms(1) by simp
    then have "q < (off + n + 1023) div BSIZE" by (simp add: less_eq_div_iff_mult_less_eq [symmetric] Suc_le_eq [symmetric])
    ultimately show ?thesis using qr(1) by (simp only: upt_conv_Cons)
  qed
qed

lemma wblocks_range: "off + n \<le> MAXFILE * BSIZE \<Longrightarrow> bn \<in> set (wblocks off n) \<Longrightarrow> bn < MAXFILE"
proof -
  assume a: "off + n \<le> MAXFILE * BSIZE" "bn \<in> set (wblocks off n)"
  then have "bn < (off + n + 1023) div BSIZE" by (auto simp: wblocks_def split: if_splits)
  also have "\<dots> \<le> (MAXFILE * BSIZE + 1023) div BSIZE" using a(1) by (intro div_le_mono) simp
  finally show "bn < MAXFILE" by simp
qed

lemma wblocks_distinct: "distinct (wblocks off n)"
  by (simp add: wblocks_def)

lemma mapped_cost:
  assumes m: "mapped ip k bn s a t" and d: "distinct (bn # bns)" "\<forall>b \<in> set (bn # bns). b < MAXFILE"
    and u: "logged t \<subseteq> logged u" "\<forall>j \<le> MAXFILE. slots ip u j = slots ip t j"
  shows "bcost ip s bn + (if slots ip s bn = 0 then 0 else 1) + wcost ip u bns \<le> wcost ip s (bn # bns)"
    "bneed ip s bn + wneed ip u bns \<le> wneed ip s (bn # bns)"
proof -
  note M = mappedD [OF m]
  have sl: "slots ip u b = slots ip s b" if b: "b \<in> set bns" for b
  proof -
    have "b < MAXFILE" "b \<noteq> bn" using d b by auto
    then show ?thesis using M(7) u(2) by simp
  qed
  then have f: "filter (\<lambda>b. slots ip u b = 0) bns = filter (\<lambda>b. slots ip s b = 0) bns" by (auto intro: filter_cong)
  have E: "(\<exists>b\<in>set bns. NDIRECT \<le> b \<and> slots ip u b = 0) = (\<exists>b\<in>set bns. NDIRECT \<le> b \<and> slots ip s b = 0)" using sl by auto
  have uM: "slots ip u MAXFILE = slots ip t MAXFILE" using u(2) by simp
  have tL: "logged s \<subseteq> logged t" by (rule grewD(4) [OF M(4)])
  show "bneed ip s bn + wneed ip u bns \<le> wneed ip s (bn # bns)"
    using M(9,10) unfolding wneed_def f E uM bneed_def by (cases "slots ip s bn = 0"; cases "NDIRECT \<le> bn") auto
  show "bcost ip s bn + (if slots ip s bn = 0 then 0 else 1) + wcost ip u bns \<le> wcost ip s (bn # bns)"
  proof (cases "slots ip s bn = 0 \<and> NDIRECT \<le> bn")
    case True
    then have "icost ip u = 0" using M(9) uM u(1) by (auto simp: icost_def)
    then show ?thesis using True unfolding wcost_def f E by (simp add: bcost_def)
  next
    case False
    then have "slots ip t MAXFILE = slots ip s MAXFILE" using M(10) by auto
    then have "icost ip u \<le> icost ip s" using uM u(1) tL by (auto simp: icost_def)
    then show ?thesis using False unfolding wcost_def f E by (auto simp: bcost_def)
  qed
qed

text \<open>One round of the loop, after \<^verbatim>\<open>bmap\<close> has found the block.\<close>

lemma write_round:
  fixes s :: "'a fkern_scheme"
  assumes s: "sound_at ip k s" "room 1 s" and a: "off div BSIZE < MAXFILE" "a = slots ip s (off div BSIZE)" "a \<noteq> 0"
    and bs: "off mod BSIZE + length bs \<le> BSIZE"
  obtains b t u where "bread (lg_dev (lg s)) a s = Inr (b, t)" "itable t = itable s"
    "log_release b (set_data b (put (b_data (bufs t b)) (off mod BSIZE) bs) t) = Inr u"
    "sound_at ip k u" "grew (if a \<in> logged s then 0 else 1) ip s u" "changed ip off bs s u" "\<forall>j \<le> MAXFILE. slots ip u j = slots ip s j" "avail u = avail s"
proof -
  let ?d = "lg_dev (lg s)" and ?C = "content s (lg_dev (lg s))" and ?x = "itable s ip"
  note F = sound_atD [OF s(1)]
  have sl: "fslot ?x ?C (off div BSIZE) = a" using a(2) by (simp add: slots_def)
  note D = store_data [OF F(3) a(1) _ bs, unfolded sl, OF a(3)]
  have out: "\<not> in_log s a" using soundD(5) [OF F(3), of "off div BSIZE"] sl a(1,3) by (auto simp: inuse_def)
  obtain b t where t: "bread ?d a s = Inr (b, t)" "b_data (bufs t b) = ?C a" "lkern.more t = lkern.more s"
    "\<And>v. \<exists>u. log_release b (set_data b v t) = Inr u \<and> log_open {} u \<and> kept (if a \<in> logged s then 0 else 1) s u \<and>
       content u ?d = ?C(a := v) \<and> held {} s u \<and> a \<in> logged u"
    by (rule open_rmw [OF F(1) refl, of a]) (use out s(2) in \<open>auto intro: that\<close>)
  let ?v = "put (?C a) (off mod BSIZE) bs"
  obtain u where u: "log_release b (set_data b ?v t) = Inr u" "log_open {} u" "kept (if a \<in> logged s then 0 else 1) s u"
    "content u ?d = ?C(a := ?v)" using t(4) by blast
  note U = keptD [OF u(3)] more_fs [OF keptD(6) [OF u(3)]]
  show ?thesis
  proof (rule that [OF t(1) more_fs(2) [OF t(3)] _ _ kept_grew [OF u(3)]])
    show "log_release b (set_data b (put (b_data (bufs t b)) (off mod BSIZE) bs) t) = Inr u" using u(1) t(2) by simp
    show "sound_at ip k u" using D(1) u(2) F(2) by (simp add: sound_at_def U u(4))
    show "changed ip off bs s u" unfolding changed_def U(9) u(4) by (rule D(2))
    show "\<forall>j \<le> MAXFILE. slots ip u j = slots ip s j" unfolding slots_def U(1,9) u(4) using D(3) by blast
    show "avail u = avail s" using D(4) by (simp add: avail_def U u(4))
  qed
qed

lemma writei_loop_grows:
  fixes s :: "'a fkern_scheme"
  assumes "sound_at ip k s" "off + (n - tot) \<le> MAXFILE * BSIZE" "tot \<le> n" "length bs = n - tot"
    "room (wcost ip s (wblocks off (n - tot)) + 1) s" "wneed ip s (wblocks off (n - tot)) \<le> avail s"
  shows "\<exists>t. writei_loop ip (VSrc bs) off n tot s = Inr (n, off + (n - tot), t) \<and> sound_at ip k t \<and>
    grew (wcost ip s (wblocks off (n - tot))) ip s t \<and> changed ip off bs s t"
  using assms
proof (induction "n - tot" arbitrary: off tot bs s rule: less_induct)
  case less
  let ?d = "lg_dev (lg s)" and ?bn = "off div BSIZE"
  show ?case
  proof (cases "tot = n")
    case True
    then show ?thesis using less.prems kept_grew [OF kept_refl, of ip s] changed_same [of s s ip off]
      by (subst writei_loop.simps) (simp add: wcost_def wblocks_def)
  next
    case False
    define m where "m = min (n - tot) (BSIZE - off mod BSIZE)"
    have m: "0 < m" "m \<le> n - tot" "off mod BSIZE + m \<le> BSIZE" using False less.prems(3) by (auto simp: m_def)
    have bl: "wblocks off (n - tot) = ?bn # wblocks (off + m) (n - (tot + m))"
      using wblocks_step [of "n - tot" m off] False less.prems(3) by (simp add: m_def)
    let ?bns = "wblocks (off + m) (n - (tot + m))"
    have lt: "\<forall>b \<in> set (?bn # ?bns). b < MAXFILE" using wblocks_range [OF less.prems(2)] unfolding bl by blast
    have ds: "distinct (?bn # ?bns)" using wblocks_distinct [of off "n - tot"] unfolding bl .
    have "bcost ip s ?bn \<le> wcost ip s (?bn # ?bns)" "bneed ip s ?bn \<le> wneed ip s (?bn # ?bns)"
      by (auto simp: bcost_def wcost_def bneed_def wneed_def)
    then have "room (bcost ip s ?bn + 1) s" "bneed ip s ?bn \<le> avail s" "?bn < MAXFILE"
      using less.prems(5,6) lt unfolding bl by (simp_all add: room_def)
    then obtain a u where u: "bmap ip ?bn s = Inr (a, u)" "mapped ip k ?bn s a u" by (rule bmap_grows [OF less.prems(1)])
    note M = mappedD [OF u(2)]
    have ca: "bcost ip s ?bn + (if slots ip s ?bn = 0 then 0 else 1) + wcost ip u ?bns \<le> wcost ip s (?bn # ?bns)"
      using mapped_cost(1) [OF u(2) ds lt, of u] by simp
    have ru: "room 1 u" by (rule grewD(6) [OF M(4) less.prems(5)]) (use ca bl in simp)
    have lm: "length (take m bs) = m" using m(2) less.prems(4) by simp
    obtain b v t where t: "bread (lg_dev (lg u)) a u = Inr (b, v)" "itable v = itable u"
      "log_release b (set_data b (put (b_data (bufs v b)) (off mod BSIZE) (take m bs)) v) = Inr t"
      "sound_at ip k t" "grew (if a \<in> logged u then 0 else 1) ip u t" "changed ip off (take m bs) u t"
      "\<forall>j \<le> MAXFILE. slots ip t j = slots ip u j" "avail t = avail u"
      by (rule write_round [OF M(3) ru, of off a "take m bs"]) (use lt M(1,2) lm m(3) in auto)
    have le: "(if a \<in> logged u then 0 else 1) \<le> (if slots ip s ?bn = 0 then 0 else 1 :: nat)" using M(8) by auto
    have st: "grew (bcost ip s ?bn + (if slots ip s ?bn = 0 then 0 else 1)) ip s t"
      by (rule grew_trans [OF M(4) t(5)]) (use le in simp)
    have ch: "changed ip off (take m bs) s t" using changed_trans [OF M(5) _ M(4), of off "take m bs" t] t(6) by simp
    note C = mapped_cost [OF u(2) ds lt grewD(4) [OF t(5)] t(7)]
    have av: "avail s = avail t + bneed ip s ?bn" using M(6) t(8) by simp
    have "\<exists>r. writei_loop ip (VSrc (drop m bs)) (off + m) n (tot + m) t = Inr (n, off + m + (n - (tot + m)), r) \<and> sound_at ip k r \<and>
        grew (wcost ip t ?bns) ip t r \<and> changed ip (off + m) (drop m bs) t r"
    proof (rule less.hyps)
      show "room (wcost ip t ?bns + 1) t" by (rule grewD(6) [OF st less.prems(5)]) (use C(1) bl in simp)
      show "wneed ip t ?bns \<le> avail t" using C(2) less.prems(6) av unfolding bl by simp
    qed (use m False less.prems(2-4) t(4) in auto)
    then obtain r where r: "writei_loop ip (VSrc (drop m bs)) (off + m) n (tot + m) t = Inr (n, off + (n - tot), r)" "sound_at ip k r"
      "grew (wcost ip t ?bns) ip t r" "changed ip (off + m) (drop m bs) t r" using m(2) by auto
    have dev: "i_dev (itable u ip) = lg_dev (lg u)" by (rule sound_atD(2) [OF M(3)])
    have "writei_loop ip (VSrc bs) off n tot s = writei_loop ip (VSrc (drop m bs)) (off + m) n (tot + m) t"
      using False less.prems(3) u(1) M(1) t(1,3) dev
      by (subst writei_loop.simps) (simp add: bnd_def Let_def m_def [symmetric])
    moreover have "grew (wcost ip s (wblocks off (n - tot))) ip s r" unfolding bl by (rule grew_trans [OF st r(3) C(1)])
    moreover have "changed ip off bs s r" using changed_trans [OF ch _ st, of "drop m bs" r] r(4) lm by simp
    ultimately show ?thesis using r(1,2) by auto
  qed
qed

text \<open>A file inside a transaction: its blocks are different blocks in use, and it has all blocks up to
  its size.\<close>

definition mapped_file :: "'a fkern_scheme \<Rightarrow> nat \<Rightarrow> bool" where
  "mapped_file s ip \<longleftrightarrow> sound_at ip (IBLOCK (i_inum (itable s ip)) (sb s)) s \<and> fsize_blocks (itable s ip) \<le> MAXFILE \<and>
     (\<forall>i < fsize_blocks (itable s ip). slots ip s i \<noteq> 0)"

lemma fslot_size [simp]: "fslot (x\<lparr>i_size := z\<rparr>) C = fslot x C" "sound q il C k (x\<lparr>i_size := z\<rparr>) = sound q il C k x"
  "fbyte (x\<lparr>i_size := z\<rparr>) C = fbyte x C"
proof -
  show f: "fslot (x\<lparr>i_size := z\<rparr>) C = fslot x C" by (rule ext) (simp add: fslot_def)
  show "sound q il C k (x\<lparr>i_size := z\<rparr>) = sound q il C k x" by (simp only: sound_def f)
  show "fbyte (x\<lparr>i_size := z\<rparr>) C = fbyte x C" by (rule ext) (simp add: fbyte_def fblk_def)
qed

lemma store_inode:
  assumes s: "sound q il C k x" "length v = BSIZE"
  shows "sound q il (C(k := v)) k x" "i \<le> MAXFILE \<Longrightarrow> fslot x (C(k := v)) i = fslot x C i"
    "j div BSIZE < MAXFILE \<Longrightarrow> fslot x C (j div BSIZE) \<noteq> 0 \<Longrightarrow> fbyte x (C(k := v)) j = fbyte x C j"
proof -
  note S = soundD [OF s(1)] and P = store_block [OF soundD(1,3) [OF s(1)] s(2)]
  have ne: "i_addrs x NDIRECT = 0 \<or> i_addrs x NDIRECT \<noteq> k" using S(5) [of MAXFILE] by (auto simp: fslot_def)
  show f: "fslot x (C(k := v)) i = fslot x C i" if "i \<le> MAXFILE" for i using ne by (auto simp: fslot_def)
  have "\<not> blk_free q (C(k := v)) 0" using P(2) [OF S(4)] S(2) by blast
  then show "sound q il (C(k := v)) k x" using s(1) P(1,3) f unfolding sound_def by simp
  show "fbyte x (C(k := v)) j = fbyte x C j" if "j div BSIZE < MAXFILE" "fslot x C (j div BSIZE) \<noteq> 0"
    using that f S(5) [of "j div BSIZE"] fblk_slot [of "j div BSIZE" x C] fblk_slot [of "j div BSIZE" x "C(k := v)"]
    by (auto simp: fbyte_def)
qed

lemma iupdate_sound:
  fixes s :: "'a fkern_scheme"
  assumes s: "sound_at ip k s" "room 1 s" "k = IBLOCK (i_inum (itable s ip)) (sb s)"
  obtains t where "iupdate ip s = Inr t" "sound_at ip k t" "kept 1 s t" "\<forall>i \<le> MAXFILE. slots ip t i = slots ip s i"
    "content t (lg_dev (lg s)) = (content s (lg_dev (lg s)))(k :=
       put (content s (lg_dev (lg s)) k) (dinode_off (i_inum (itable s ip))) (enc_dinode (to_dinode (itable s ip))))"
proof -
  let ?d = "lg_dev (lg s)" and ?i = "i_inum (itable s ip)"
  note F = sound_atD [OF s(1)] and S = soundD [OF sound_atD(3) [OF s(1)]]
  have k: "\<not> in_log s k" "length (content s ?d k) = BSIZE" using inuseD(1,2) [OF S(3)] .
  obtain t where t: "iupdate ip s = Inr t" "log_open {} t" "kept 1 s t" "content t ?d = (content s ?d)(k :=
      put (content s ?d k) (dinode_off ?i) (enc_dinode (to_dinode (itable s ip))))"
    by (rule iupdate_ok [OF F(1) s(2) F(2) refl]) (use k(1) s(3) in \<open>auto intro: that\<close>)
  note T = keptD [OF t(3)] more_fs [OF keptD(6) [OF t(3)]]
  have "length (put (content s ?d k) (dinode_off ?i) (enc_dinode (to_dinode (itable s ip)))) = BSIZE"
    using dinode_off_bound [of ?i] k(2) by (simp add: enc_length)
  note P = store_inode [OF F(3) this]
  have "sound_at ip k t" using P(1) t(2) F(2) by (simp add: sound_at_def T t(4))
  moreover have "\<forall>i \<le> MAXFILE. slots ip t i = slots ip s i" unfolding slots_def T(1,9) t(4) using P(2) by blast
  ultimately show ?thesis using that t by blast
qed

text \<open>Setting the size of the inode after the loop, as the code does, and writing the inode.\<close>

lemma set_size:
  fixes s :: "'a fkern_scheme"
  assumes s: "sound_at ip k s" "room 1 s" "k = IBLOCK (i_inum (itable s ip)) (sb s)" and e: "e < 2 ^ 32" and C: "C = content s (lg_dev (lg s))"
  obtains t y where "iupdate ip (if e > unat (i_size (itable s ip)) then upd_inode ip (\<lambda>x. x\<lparr>i_size := of_nat e\<rparr>) s else s) = Inr t"
    "sound_at ip k t" "grew 1 ip s t" "\<forall>i \<le> MAXFILE. slots ip t i = slots ip s i" "y = itable t ip"
    "y = (itable s ip)\<lparr>i_size := i_size y\<rparr>" "unat (i_size y) = max (unat (i_size (itable s ip))) e"
    "content t (lg_dev (lg s)) = C(k := put (C k) (dinode_off (i_inum (itable s ip))) (enc_dinode (to_dinode y)))"
proof -
  let ?x = "itable s ip"
  define z where "z = (if e > unat (i_size ?x) then of_nat e else i_size ?x)"
  define u where "u = (if e > unat (i_size ?x) then upd_inode ip (\<lambda>x. x\<lparr>i_size := of_nat e\<rparr>) s else s)"
  have x: "itable u ip = ?x\<lparr>i_size := z\<rparr>" by (simp add: u_def z_def)
  have u: "content u = content s" "lg u = lg s" "sb u = sb s" "in_log u = in_log s" "log_open {} u = log_open {} s" "room 1 u = room 1 s"
    by (simp_all add: u_def)
  have "grew 0 ip s u" using upd_inode_grew [of ip s] kept_grew [OF kept_refl, of ip s] by (simp add: u_def)
  have f: "sound_at ip k u" "slots ip u = slots ip s" using s(1) by (simp_all add: sound_at_def slots_def x u)
  obtain t where t: "iupdate ip u = Inr t" "sound_at ip k t" "kept 1 u t" "\<forall>i \<le> MAXFILE. slots ip t i = slots ip u i"
    "content t (lg_dev (lg u)) = (content u (lg_dev (lg u)))(k :=
       put (content u (lg_dev (lg u)) k) (dinode_off (i_inum (itable u ip))) (enc_dinode (to_dinode (itable u ip))))"
    by (rule iupdate_sound [OF f(1)]) (use s(2,3) u x in \<open>auto intro: that\<close>)
  have it: "itable t ip = ?x\<lparr>i_size := z\<rparr>" using more_fs [OF keptD(6) [OF t(3)]] x by simp
  show ?thesis
  proof (rule that [of t "itable t ip"])
    show "iupdate ip (if e > unat (i_size ?x) then upd_inode ip (\<lambda>x. x\<lparr>i_size := of_nat e\<rparr>) s else s) = Inr t"
      using t(1) by (simp add: u_def)
    show "grew 1 ip s t" by (rule grew_trans [OF \<open>grew 0 ip s u\<close> kept_grew [OF t(3)]]) simp
    show "unat (i_size (itable t ip)) = max (unat (i_size ?x)) e"
      using e by (simp add: it z_def max_def unsigned_of_nat take_bit_nat_eq_self)
    show "content t (lg_dev (lg s)) = C(k := put (C k) (dinode_off (i_inum ?x)) (enc_dinode (to_dinode (itable t ip))))"
      using t(5) by (simp add: u x it C)
  qed (use t(2,4) f(2) in \<open>simp_all add: it\<close>)
qed

lemma size_block:
  assumes "j < unat (i_size x)"
  shows "j div BSIZE < fsize_blocks x"
  using assms fsize_blocks_le [of x] by (simp add: div_less_iff_less_mult)

lemma block_size:
  assumes "i < fsize_blocks x"
  shows "i * BSIZE < unat (i_size x)"
proof -
  have "Suc i \<le> (unat (i_size x) + 1023) div BSIZE" using assms by (simp add: fsize_blocks_def)
  then have "Suc i * BSIZE \<le> unat (i_size x) + 1023" by (simp only: less_eq_div_iff_mult_less_eq)
  then show ?thesis by simp
qed

text \<open>The file after its size has been set and its inode been written.\<close>

lemma grown_file:
  assumes w: "wrote q il x C x1 C1 p bs" and s: "sound q il C k x" "sound q il C1 k x1" and v: "length v = BSIZE"
    and nb: "fsize_blocks x \<le> MAXFILE" "\<And>i. i < fsize_blocks x \<Longrightarrow> fslot x C i \<noteq> 0"
    and p: "p \<le> unat (i_size x)" "p + length bs \<le> MAXFILE * BSIZE"
    and y: "y = x1\<lparr>i_size := i_size y\<rparr>" "unat (i_size y) = max (unat (i_size x)) (p + length bs)"
  defines "D \<equiv> C1(k := v)"
  shows "i < unat (i_size y) \<Longrightarrow> fbyte y D i = (if p \<le> i \<and> i < p + length bs then bs ! (i - p) else fbyte x C i)"
    "j < fsize_blocks y \<Longrightarrow> fslot y D j \<noteq> 0" "fsize_blocks y \<le> MAXFILE" "C1 k = C k"
    "inuse q il C a \<Longrightarrow> a \<noteq> k \<Longrightarrow> \<forall>i \<le> MAXFILE. fslot x C i \<noteq> a \<Longrightarrow> D a = C a" "y = x\<lparr>i_addrs := i_addrs y, i_size := i_size y\<rparr>"
proof -
  note W = wroteD [OF w] and P = store_inode [OF s(2) v, folded D_def]
  have fy: "fslot y = fslot x1" "fbyte y = fbyte x1" by (intro ext, subst y(1), simp)+
  have in_file: "i div BSIZE < MAXFILE \<and> (p \<le> i \<and> i < p + length bs \<or> fslot x C (i div BSIZE) \<noteq> 0)" if i: "i < unat (i_size y)" for i
  proof -
    have "p \<le> i \<and> i < p + length bs \<or> i < unat (i_size x)" using i p(1) y(2) by auto
    then show ?thesis using size_block [of i x] nb p(2) by (auto simp: div_less_iff_less_mult)
  qed
  show "fbyte y D i = (if p \<le> i \<and> i < p + length bs then bs ! (i - p) else fbyte x C i)" if i: "i < unat (i_size y)" for i
    using W(5) [of i] P(3) [of i] in_file [OF i] unfolding fy by metis
  have B: "fslot y D j \<noteq> 0 \<and> j < MAXFILE" if j: "j < fsize_blocks y" for j
  proof -
    have "(j * BSIZE) div BSIZE = j" by simp
    then have "j < MAXFILE" "fslot x1 C1 j \<noteq> 0" using in_file [OF block_size [OF j]] W(5) [of "j * BSIZE"] by metis+
    then show ?thesis using P(2) [of j] by (simp add: fy)
  qed
  then show "j < fsize_blocks y \<Longrightarrow> fslot y D j \<noteq> 0" by blast
  show "fsize_blocks y \<le> MAXFILE" using B by (meson not_less less_irrefl)
  have "\<forall>i \<le> MAXFILE. fslot x C i \<noteq> k" using soundD(5,7) [OF s(1)] by metis
  then show "C1 k = C k" using W(4) [OF soundD(3) [OF s(1)]] by simp
  show "inuse q il C a \<Longrightarrow> a \<noteq> k \<Longrightarrow> \<forall>i \<le> MAXFILE. fslot x C i \<noteq> a \<Longrightarrow> D a = C a" using W(4) [of a] by (simp add: D_def)
  show "y = x\<lparr>i_addrs := i_addrs y, i_size := i_size y\<rparr>"
    using W(1) y(1) by (metis inode.surjective inode.update_convs(10,11) inode.select_convs(11))
qed

lemma writei_grows:
  fixes s :: "'a fkern_scheme"
  assumes s: "mapped_file s ip" "x = itable s ip" "C = content s (lg_dev (lg s))" "k = IBLOCK (i_inum x) (sb s)"
    and o: "unat off \<le> unat (i_size x)" "unat off + length bs \<le> MAXFILE * BSIZE"
    and r: "room (wcost ip s (wblocks (unat off) (length bs)) + 1) s" "wneed ip s (wblocks (unat off) (length bs)) \<le> avail s"
  obtains t y D where "writei ip (VSrc bs) off (of_nat (length bs)) s = Inr (int (length bs), t)" "mapped_file t ip"
    "grew (wcost ip s (wblocks (unat off) (length bs)) + 1) ip s t" "y = itable t ip" "D = content t (lg_dev (lg s))"
    "y = x\<lparr>i_addrs := i_addrs y, i_size := i_size y\<rparr>" "unat (i_size y) = max (unat (i_size x)) (unat off + length bs)"
    "\<forall>i < unat (i_size y). fbyte y D i = (if unat off \<le> i \<and> i < unat off + length bs then bs ! (i - unat off) else fbyte x C i)"
    "D k = put (C k) (dinode_off (i_inum x)) (enc_dinode (to_dinode y))"
    "\<forall>a. inuse (sb s) (in_log s) C a \<and> a \<noteq> k \<and> (\<forall>i \<le> MAXFILE. fslot x C i \<noteq> a) \<longrightarrow> D a = C a"
proof -
  let ?d = "lg_dev (lg s)" and ?n = "length bs" and ?o = "unat off" and ?c = "wcost ip s (wblocks (unat off) (length bs))"
  have fs: "sound_at ip k s" "fsize_blocks x \<le> MAXFILE" "\<And>i. i < fsize_blocks x \<Longrightarrow> fslot x C i \<noteq> 0"
    using s(1) by (simp_all add: mapped_file_def slots_def s(2-4))
  obtain v where v: "writei_loop ip (VSrc bs) ?o ?n 0 s = Inr (?n, ?o + ?n, v)" "sound_at ip k v" "grew ?c ip s v" "changed ip ?o bs s v"
    using writei_loop_grows [OF fs(1), of ?o ?n 0 bs] o(2) r by auto
  note G = grewD [OF v(3)]
  define x1 C1 where "x1 = itable v ip" and "C1 = content v ?d"
  have w: "wrote (sb s) (in_log s) x C x1 C1 ?o bs" using v(4) by (simp add: changed_def s(2,3) x1_def C1_def)
  note x1 = wroteD(1) [OF w]
  then have x1': "i_size x1 = i_size x" "i_inum x1 = i_inum x" by (metis inode.simps(10,2) inode.select_convs inode.surjective inode.update_convs(11))+
  have kv: "k = IBLOCK (i_inum (itable v ip)) (sb v)" "room 1 v" using s(4) x1'(2) G(3) G(6) [OF r(1), of 1] by (simp_all add: x1_def)
  have lt: "?o + ?n < 2 ^ 32" using o(2) by simp
  obtain t y where t: "iupdate ip (if ?o + ?n > unat (i_size (itable v ip)) then upd_inode ip (\<lambda>x. x\<lparr>i_size := of_nat (?o + ?n)\<rparr>) v else v) = Inr t"
    "sound_at ip k t" "grew 1 ip v t" "\<forall>i \<le> MAXFILE. slots ip t i = slots ip v i" "y = itable t ip"
    "y = (itable v ip)\<lparr>i_size := i_size y\<rparr>" "unat (i_size y) = max (unat (i_size (itable v ip))) (?o + ?n)"
    "content t (lg_dev (lg v)) = C1(k := put (C1 k) (dinode_off (i_inum (itable v ip))) (enc_dinode (to_dinode y)))"
    by (rule set_size [OF v(2) kv(2,1) lt, of C1]) (auto simp: C1_def G(1) intro: that)
  define D where "D = content t ?d"
  let ?v = "put (C1 k) (dinode_off (i_inum x)) (enc_dinode (to_dinode y))"
  have D: "D = C1(k := ?v)" using t(8) G(1) x1'(2) by (simp add: D_def x1_def)
  have y: "y = x1\<lparr>i_size := i_size y\<rparr>" "unat (i_size y) = max (unat (i_size x)) (?o + ?n)" using t(6,7) x1'(1) by (simp_all add: x1_def)
  have S: "sound (sb s) (in_log s) C k x" "sound (sb s) (in_log s) C1 k x1"
    using sound_atD(3) [OF fs(1)] sound_atD(3) [OF v(2)] by (simp_all add: G s(2,3) C1_def x1_def)
  have "length ?v = BSIZE"
    using inuseD(2) [OF soundD(3) [OF S(2)]] dinode_off_bound [of "i_inum x"] by (simp add: enc_length)
  note E = grown_file [OF w S this fs(2,3) o y, folded D]
  show ?thesis
  proof (rule that [of t y D])
    show "writei ip (VSrc bs) off (of_nat ?n) s = Inr (int ?n, t)"
    proof -
      have n: "unat (of_nat ?n :: u32) = ?n" using lt by (simp add: unsigned_of_nat take_bit_nat_eq_self)
      then have sum: "unat (off + of_nat ?n) = ?o + ?n" using lt by (simp add: unat_word_ariths)
      have "\<not> off > i_size (itable s ip)" "\<not> off + of_nat ?n < off" using o(1) s(2) sum by (simp_all add: word_less_nat_alt)
      then show ?thesis using v(1) t(1) n sum o(2) by (simp add: writei_def bnd_def)
    qed
    have "k = IBLOCK (i_inum y) (sb t)" using kv(1) grewD(3) [OF t(3)] by (subst y(1)) (simp add: x1_def)
    moreover have "slots ip t i = fslot y D i" for i using grewD(1) [OF t(3)] G(1) t(5) by (simp add: slots_def D_def)
    ultimately show "mapped_file t ip" using t(2,5) E(2,3) by (simp add: mapped_file_def)
    show "grew (?c + 1) ip s t" by (rule grew_trans [OF v(3) t(3)]) simp
    show "D k = put (C k) (dinode_off (i_inum x)) (enc_dinode (to_dinode y))" using E(4) by (simp add: D)
  qed (use t(5) y(2) E in \<open>simp_all add: D_def\<close>)
qed

lemma mapped_file_ok:
  assumes "mapped_file s ip"
  shows "log_open {} s" "i_dev (itable s ip) = lg_dev (lg s)"
    "file_ok (itable s ip) (content s (lg_dev (lg s))) (fsize_blocks (itable s ip))"
proof -
  let ?x = "itable s ip" and ?C = "content s (lg_dev (lg s))" and ?n = "fsize_blocks (itable s ip)"
  have f: "sound_at ip (IBLOCK (i_inum ?x) (sb s)) s" and n: "?n \<le> MAXFILE" "\<And>i. i < ?n \<Longrightarrow> fslot ?x ?C i \<noteq> 0"
    using assms by (auto simp: mapped_file_def slots_def)
  note F = sound_atD [OF f] and S = soundD [OF sound_atD(3) [OF f]]
  show "log_open {} s" "i_dev ?x = lg_dev (lg s)" using F by blast+
  have b: "fblk ?x ?C i = fslot ?x ?C i" if "i < ?n" for i using fblk_slot n that by simp
  have l: "length (?C (fslot ?x ?C i)) = BSIZE" if "i < ?n" for i
  proof -
    have "inuse (sb s) (in_log s) ?C (fslot ?x ?C i)" using S(5) [of i] n(1) n(2) [OF that] that by simp
    then show ?thesis by (rule inuseD(2))
  qed
  have inj: "fslot ?x ?C i = fslot ?x ?C j \<Longrightarrow> i = j" if "i < ?n" "j \<le> MAXFILE" for i j using S(6) [of i j] n(1) n(2) [OF that(1)] that by simp
  have e: "i_addrs ?x NDIRECT \<noteq> 0" if "NDIRECT < ?n" using n(2) [OF that] by (auto simp: fslot_def)
  have "fslot ?x ?C i \<noteq> i_addrs ?x NDIRECT" if "i < ?n" for i
    using inj [OF that order_refl] that n(1) fslot_def [of ?x ?C MAXFILE] by auto
  then show "file_ok ?x ?C ?n" using n b l e inj by (auto simp: file_ok_def inj_on_def)
qed

lemma mapped_file_kept:
  fixes s t :: "'a fkern_scheme"
  assumes "kept n s t" "content t (lg_dev (lg s)) = content s (lg_dev (lg s))" "log_open {} t" "log_open {} s"
  shows "mapped_file t ip = mapped_file s ip" "slots ip t = slots ip s" "avail t = avail s"
proof -
  note T = keptD [OF assms(1)] more_fs [OF keptD(6) [OF assms(1)]]
  show "slots ip t = slots ip s" "avail t = avail s" "mapped_file t ip = mapped_file s ip"
    using T assms by (simp_all add: mapped_file_def sound_at_def slots_def avail_def)
qed

lemma wcost_mono: "slots ip t = slots ip s \<Longrightarrow> logged s \<subseteq> logged t \<Longrightarrow> wcost ip t bns \<le> wcost ip s bns"
  by (auto simp: wcost_def icost_def)

section \<open>Entering names in directories\<close>

definition dir_ok :: "'a fkern_scheme \<Rightarrow> nat \<Rightarrow> bool" where
  "dir_ok s dp \<longleftrightarrow> mapped_file s dp \<and> i_type (itable s dp) = T_DIR \<and> 16 dvd unat (i_size (itable s dp))"

lemma dirlookup_ok:
  fixes s :: "'a fkern_scheme"
  assumes "dir_ok s dp" "x = itable s dp" "C = content s (lg_dev (lg s))"
  shows "\<exists>t. log_open {} t \<and> kept 0 s t \<and> content t (lg_dev (lg s)) = C \<and>
    dirlookup dp name s =
      (case find (\<lambda>k. named name (entry x C k)) [0..<nents x] of
         None \<Rightarrow> Inr (None, t)
       | Some k \<Rightarrow> bnd (iget (lg_dev (lg s)) (ucast (get16 (entry x C k) 0)) t) (\<lambda>(ip, s). Inr (Some (ip, of_nat (16 * k)), s)))"
proof -
  have m: "mapped_file s dp" and x: "i_type x = T_DIR" "16 dvd unat (i_size x)" using assms(1,2) by (auto simp: dir_ok_def)
  note M = mapped_file_ok [OF m, folded assms(2), folded assms(3)]
  show ?thesis
    using dirlookup_loop_ok [OF M(1) assms(2) M(2) assms(3) M(3), of "[0..<nents x]" name] assms(2) x dir_offs_ents [of x]
    by (simp add: dirlookup_def)
qed

text \<open>The entry that has a name, and the entry a new name goes to: the first free one or the one
  behind the last.\<close>

definition slot_of :: "byte list \<Rightarrow> inode \<Rightarrow> (u32 \<Rightarrow> byte list) \<Rightarrow> nat option" where
  "slot_of name x C = find (\<lambda>k. named name (entry x C k)) [0..<nents x]"

definition free_slot :: "inode \<Rightarrow> (u32 \<Rightarrow> byte list) \<Rightarrow> nat option" where
  "free_slot x C = find (\<lambda>k. get16 (entry x C k) 0 = 0) [0..<nents x]"

definition new_slot :: "inode \<Rightarrow> (u32 \<Rightarrow> byte list) \<Rightarrow> nat" where
  "new_slot x C = (case free_slot x C of Some k \<Rightarrow> k | None \<Rightarrow> nents x)"

lemma new_slot_le: "new_slot x C \<le> nents x" "new_slot x C < nents x \<Longrightarrow> get16 (entry x C (new_slot x C)) 0 = 0"
proof -
  have "k < nents x \<and> get16 (entry x C k) 0 = 0" if "free_slot x C = Some k" for k
    using that unfolding free_slot_def find_Some_iff by auto
  then show "new_slot x C \<le> nents x" "new_slot x C < nents x \<Longrightarrow> get16 (entry x C (new_slot x C)) 0 = 0"
    by (auto simp: new_slot_def less_imp_le split: option.splits)
qed

lemma named_dirent: "0 \<notin> set name \<Longrightarrow> inum \<noteq> 0 \<Longrightarrow>
  named m (dirent inum name) \<longleftrightarrow> takeWhile (\<lambda>c. c \<noteq> 0) (take DIRSIZ m) = take DIRSIZ name"
  using dirent_props [of name inum] name_take [of name DIRSIZ] by (simp add: named_def)

lemma find_unique: "k \<in> set xs \<Longrightarrow> (\<And>j. j \<in> set xs \<Longrightarrow> Q j \<longleftrightarrow> j = k) \<Longrightarrow> find Q xs = Some k"
  by (induction xs) auto

lemma find_snoc: "\<not> Q k \<Longrightarrow> find Q (xs @ [k]) = find Q xs"
  by (induction xs) auto

lemma slot_of_link:
  assumes k: "k = new_slot x C" "nents y = max (nents x) (Suc k)" and new: "slot_of name x C = None" and name: "0 \<notin> set name" "inum \<noteq> 0"
    and ent: "\<And>j. j < nents y \<Longrightarrow> entry y D j = (if j = k then dirent inum name else entry x C j)"
  shows "slot_of m y D = (if takeWhile (\<lambda>c. c \<noteq> 0) (take DIRSIZ m) = take DIRSIZ name then Some k else slot_of m x C)"
proof -
  note kle = new_slot_le [of x C, folded k(1)] and nd = named_dirent [OF name, of m]
  show ?thesis
  proof (cases "takeWhile (\<lambda>c. c \<noteq> 0) (take DIRSIZ m) = take DIRSIZ name")
    case True
    have n: "named m de = named name de" for de by (simp only: named_def True name_take [OF name(1)])
    have "\<not> named m (entry x C j)" if "j < nents x" for j using new n that by (auto simp: slot_of_def find_None_iff)
    then have "named m (entry y D j) \<longleftrightarrow> j = k" if "j \<in> set [0..<nents y]" for j using that k(2) kle(1) nd True by (auto simp: ent)
    moreover have "k \<in> set [0..<nents y]" using k(2) by simp
    ultimately show ?thesis using True find_unique [of k "[0..<nents y]"] by (simp add: slot_of_def)
  next
    case False
    have e: "named m (entry y D j) = named m (entry x C j)" if "j < nents x" for j
      using that False nd k(2) kle(2) by (auto simp: ent named_def)
    then have f: "find (\<lambda>j. named m (entry y D j)) [0..<nents x] = slot_of m x C"
      unfolding slot_of_def by (intro find_cong) auto
    have "slot_of m y D = slot_of m x C"
    proof (cases "k < nents x")
      case True
      then show ?thesis using f k(2) by (simp add: slot_of_def)
    next
      case last: False
      then have "nents y = Suc (nents x)" "k = nents x" using k(2) kle(1) by simp_all
      moreover from this have "\<not> named m (entry y D (nents x))" using ent [of "nents x"] nd False by simp
      ultimately show ?thesis using f find_snoc [of "\<lambda>j. named m (entry y D j)" "nents x" "[0..<nents x]"] by (simp add: slot_of_def)
    qed
    then show ?thesis using False by simp
  qed
qed

lemma entry_stored:
  assumes b: "\<forall>i < unat (i_size y). fbyte y D i = (if 16 * k \<le> i \<and> i < 16 * k + 16 then bs ! (i - 16 * k) else fbyte x C i)"
    and "length bs = 16" "j < nents y"
  shows "entry y D j = (if j = k then bs else entry x C j)"
proof -
  have le: "16 * j + 16 \<le> unat (i_size y)" using assms(3) by (simp add: nents_def)
  show ?thesis
  proof (cases "j = k")
    case True
    then show ?thesis using b assms(2) le by (intro nth_equalityI) (auto simp: entry_def)
  next
    case False
    have "fbyte y D i = fbyte x C i" if "i \<in> set [16 * j..<16 * j + 16]" for i
    proof -
      have "\<not> (16 * k \<le> i \<and> i < 16 * k + 16)" using that False by auto
      moreover have "i < unat (i_size y)" using that le by simp
      ultimately show ?thesis using b by auto
    qed
    then show ?thesis using False by (simp add: entry_def)
  qed
qed

text \<open>\<^verbatim>\<open>dirlink\<close> up to its call of \<^verbatim>\<open>writei\<close>.\<close>

lemma dirlink_finds:
  fixes s :: "'a fkern_scheme"
  assumes s: "dir_ok s dp" "x = itable s dp" "C = content s (lg_dev (lg s))" and new: "slot_of name x C = None"
  obtains u where "log_open {} u" "kept 0 s u" "content u (lg_dev (lg s)) = C"
    "dirlink dp name inum s = bnd (writei dp (VSrc (dirent (ucast inum) name)) (of_nat (16 * new_slot x C)) 16 u) (\<lambda>(r, s). Inr (if r \<noteq> 16 then -1 else 0, s))"
proof -
  let ?d = "lg_dev (lg s)"
  obtain t where t: "log_open {} t" "kept 0 s t" "content t ?d = C" "dirlookup dp name s = Inr (None, t)"
    using dirlookup_ok [OF s, of name] new by (auto simp: slot_of_def)
  note T = keptD [OF t(2)] more_fs [OF keptD(6) [OF t(2)]]
  have m: "mapped_file s dp" and x: "16 dvd unat (i_size x)" using s(1,2) by (auto simp: dir_ok_def)
  note M = mapped_file_ok [OF m, folded s(2), folded s(3)]
  obtain u where u: "log_open {} u" "kept 0 t u" "content u (lg_dev (lg t)) = C"
    "dirlink_loop dp (map (\<lambda>k. 16 * k) [0..<nents x]) t = Inr (map_option (\<lambda>k. 16 * k) (free_slot x C), u)"
    using dirlink_loop_ok [OF t(1) _ _ _ M(3), of dp "[0..<nents x]"] T(1,9) s(2) t(3) M(2) by (auto simp: free_slot_def)
  have su: "kept 0 s u" by (rule kept_trans [OF t(2) u(2)]) simp
  have iu: "itable u = itable s" using more_fs [OF keptD(6) [OF su]] by simp
  have sz: "16 * ((unat (i_size x) + 15) div 16) = 16 * nents x" using x by (auto simp: nents_def elim!: dvdE)
  have "dirlink dp name inum s =
      bnd (writei dp (VSrc (dirent (ucast inum) name)) (of_nat (16 * new_slot x C)) 16 u) (\<lambda>(r, s). Inr (if r \<noteq> 16 then -1 else 0, s))"
    using t(4) u(4) T(9) iu s(2) dir_offs_ents [OF x] sz
    by (cases "free_slot x C") (simp_all add: dirlink_def bnd_def new_slot_def del: of_nat_mult)
  then show ?thesis using that u(1,3) su T(1) by simp
qed

lemma dirlink_ok:
  fixes s :: "'a fkern_scheme"
  assumes s: "dir_ok s dp" "x = itable s dp" "C = content s (lg_dev (lg s))" and new: "slot_of name x C = None"
    and name: "0 \<notin> set name" "(ucast inum :: u16) \<noteq> 0" and k: "k = new_slot x C" "16 * k + 16 \<le> MAXFILE * BSIZE"
    and r: "room (wcost dp s (wblocks (16 * k) 16) + 1) s" "wneed dp s (wblocks (16 * k) 16) \<le> avail s"
  obtains t y where "dirlink dp name inum s = Inr (0, t)" "dir_ok t dp" "grew (wcost dp s (wblocks (16 * k) 16) + 1) dp s t" "y = itable t dp"
    "nents y = max (nents x) (Suc k)"
    "\<And>j. j < nents y \<Longrightarrow> entry y (content t (lg_dev (lg s))) j = (if j = k then dirent (ucast inum) name else entry x C j)"
proof -
  let ?d = "lg_dev (lg s)" and ?de = "dirent (ucast inum) name" and ?bl = "wblocks (16 * k) 16"
  obtain u where u: "log_open {} u" "kept 0 s u" "content u ?d = C"
    "dirlink dp name inum s = bnd (writei dp (VSrc ?de) (of_nat (16 * k)) 16 u) (\<lambda>(r, s). Inr (if r \<noteq> 16 then -1 else 0, s))"
    by (rule dirlink_finds [OF s new, folded k(1)])
  note U = keptD [OF u(2)] more_fs [OF keptD(6) [OF u(2)]]
  have m: "mapped_file s dp" and x: "i_type x = T_DIR" "16 dvd unat (i_size x)" using s(1,2) by (auto simp: dir_ok_def)
  note K = mapped_file_kept [OF u(2) u(3) [unfolded s(3)] u(1) mapped_file_ok(1) [OF m]]
  have c: "wcost dp u ?bl \<le> wcost dp s ?bl" by (rule wcost_mono [OF K(2) kept_logged [OF u(2)]])
  have nd: "wneed dp u ?bl = wneed dp s ?bl" using K(2) [of dp] by (simp add: wneed_def)
  have ns: "16 * nents x = unat (i_size x)" using x(2) by (auto simp: nents_def)
  have off: "unat (of_nat (16 * k) :: u32) = 16 * k" using k(2) by (simp add: unsigned_of_nat take_bit_nat_eq_self del: of_nat_mult)
  have le: "16 * k \<le> unat (i_size x)" using new_slot_le(1) [of x C] ns by (simp add: k(1))
  note de = dirent_props [OF name]
  have ru: "room (wcost dp u ?bl + 1) u" by (rule room_kept [OF r(1) u(2)]) (use c in simp)
  obtain t y D where t: "writei dp (VSrc ?de) (of_nat (16 * k)) (of_nat (length ?de)) u = Inr (int (length ?de), t)" "mapped_file t dp"
    "grew (wcost dp u ?bl + 1) dp u t" "y = itable t dp" "D = content t (lg_dev (lg u))"
    "y = x\<lparr>i_addrs := i_addrs y, i_size := i_size y\<rparr>" "unat (i_size y) = max (unat (i_size x)) (16 * k + length ?de)"
    "\<forall>i < unat (i_size y). fbyte y D i = (if 16 * k \<le> i \<and> i < 16 * k + length ?de then ?de ! (i - 16 * k) else fbyte x C i)"
    by (rule writei_grows [of u dp x C "IBLOCK (i_inum x) (sb u)" "of_nat (16 * k)" ?de, unfolded off])
      (use K m U(1,9) s(2) u(3) le k(2) ru nd r(2) de(1) in \<open>simp_all del: of_nat_mult\<close>)
  have ny: "nents y = max (nents x) (Suc k)" using t(7) de(1) ns by (auto simp: nents_def max_def)
  show ?thesis
  proof (rule that [of t y])
    show "dirlink dp name inum s = Inr (0, t)" using u(4) t(1) de(1) by (simp add: bnd_def)
    have "i_type y = T_DIR" by (subst t(6)) (simp add: x(1))
    moreover have "16 dvd unat (i_size y)" using t(7) de(1) x(2) by (simp add: max_def)
    ultimately show "dir_ok t dp" using t(2,4) by (simp add: dir_ok_def)
    show "grew (wcost dp s ?bl + 1) dp s t" by (rule grew_trans [OF kept_grew [OF u(2)] t(3)]) (use c in simp)
    show "entry y (content t ?d) j = (if j = k then ?de else entry x C j)" if "j < nents y" for j
      using entry_stored [of y D k ?de x C j] t(8) de(1) that t(5) U(1) by simp
  qed (use t(4) ny in simp_all)
qed

section \<open>Properties\<close>

text \<open>The pieces in which \<^verbatim>\<open>filewrite\<close> cuts a write fit the room that \<^verbatim>\<open>begin_op\<close> reserves.\<close>

lemma chunk_fits:
  assumes m: "mapped_file s ip" and o: "p \<le> unat (i_size (itable s ip))" and n: "n \<le> 3 * BSIZE"
  shows "wcost ip s (wblocks p n) + 1 \<le> MAXOPBLOCKS"
proof -
  let ?b = "wblocks p n" and ?miss = "filter (\<lambda>b. slots ip s b = 0) (wblocks p n)"
  obtain q r where p: "p = BSIZE * q + r" "r < BSIZE" by (metis mult_div_mod_eq mod_less_divisor zero_less_numeral)
  have i: "icost ip s \<le> 2" by (simp add: icost_def)
  have up: "(p + n + 1023) div BSIZE \<le> q + 4" "r = 0 \<Longrightarrow> (p + n + 1023) div BSIZE \<le> q + 3"
    using p n by (simp_all add: less_Suc_eq_le [symmetric] div_less_iff_less_mult)
  have "length ?b + length ?miss \<le> 7"
  proof (cases "r = 0 \<or> n = 0")
    case True
    then have "length ?b \<le> 3" using up(2) p by (auto simp: wblocks_def)
    then show ?thesis using length_filter_le [of "\<lambda>b. slots ip s b = 0" ?b] by linarith
  next
    case False
    then have e: "?b = q # wblocks (p + min n (BSIZE - r)) (n - min n (BSIZE - r))" using wblocks_step [of n _ p] p by simp
    have "length ?b \<le> 4" using up(1) p by (auto simp: wblocks_def)
    moreover have "q < fsize_blocks (itable s ip)" unfolding fsize_blocks_def using False p o
      by (simp add: Suc_le_eq [symmetric] less_eq_div_iff_mult_less_eq)
    then have "slots ip s q \<noteq> 0" using m by (simp add: mapped_file_def)
    then have "length ?miss \<le> length ?b - 1" unfolding e using length_filter_le by simp
    ultimately show ?thesis by linarith
  qed
  then show ?thesis using i by (simp add: wcost_def)
qed

lemma loaded_put:
  assumes "D k = put c (dinode_off i) (enc_dinode di)" "length c = BSIZE" "k = IBLOCK i q"
  shows "loaded q D i y = of_dinode di y"
proof -
  have "dinode_off i + length (enc_dinode di) \<le> length c" using dinode_off_bound [of i] assms(2) by (simp add: enc_length)
  then have "take 64 (drop (dinode_off i) (D k)) = enc_dinode di" using put_here [of "dinode_off i" "enc_dinode di" c] assms(1) by (simp add: enc_length)
  then show ?thesis using of_dinode_take [of "drop (dinode_off i) (D k)" y] assms(3) by (simp add: loaded_def dec_enc)
qed

lemma readi_mapped:
  fixes s :: "'a fkern_scheme"
  assumes "mapped_file s ip" "unat off + n \<le> unat (i_size (itable s ip))"
  shows "\<exists>u. readi ip VDst off (of_nat n) s =
    Inr (int n, map (fbyte (itable s ip) (content s (lg_dev (lg s)))) [unat off..<unat off + n], u)"
  using readi_ok [OF mapped_file_ok(1) [OF assms(1)] refl mapped_file_ok(2) [OF assms(1)] refl mapped_file_ok(3) [OF assms(1)] assms(2)] by blast

text \<open>C8. \<^verbatim>\<open>readi\<close> returns what \<^verbatim>\<open>writei\<close> stored.  Inside a transaction, a write that starts within the
  file or at its end stores all its bytes, if the bitmap has the blocks that the file lacks and the
  log has room.  The size is then that of the longer of the file and the end of the write, in memory and in
  the inode on the disk.  Reading the range returns the bytes, and reading any range of the old file
  returns its old bytes wherever it does not overlap with the write.  No other inode of the table and no
  block in use that is not the file's own has changed.  A write of at most three blocks never needs more room in
  the log than \<^verbatim>\<open>begin_op\<close> reserves.\<close>

theorem writei_readi:
  fixes s :: "'a fkern_scheme"
  assumes "mapped_file s ip" "x = itable s ip" "d = lg_dev (lg s)" "C = content s d" "n = length bs"
    "unat off \<le> unat (i_size x)" "unat off + n \<le> MAXFILE * BSIZE"
    "wneed ip s (wblocks (unat off) n) \<le> avail s" "room (wcost ip s (wblocks (unat off) n) + 1) s"
  shows "(n \<le> 3 * BSIZE \<longrightarrow> wcost ip s (wblocks (unat off) n) + 1 \<le> MAXOPBLOCKS) \<and>
    (\<exists>t. writei ip (VSrc bs) off (of_nat n) s = Inr (int n, t) \<and> mapped_file t ip \<and>
      unat (i_size (itable t ip)) = max (unat (i_size x)) (unat off + n) \<and>
      (\<exists>u. readi ip VDst off (of_nat n) t = Inr (int n, bs, u)) \<and>
      (\<forall>o2 m. unat o2 + m \<le> unat (i_size x) \<and> {unat o2..<unat o2 + m} \<inter> {unat off..<unat off + n} = {} \<longrightarrow>
        (\<exists>bs2 u v. readi ip VDst o2 (of_nat m) t = Inr (int m, bs2, u) \<and> readi ip VDst o2 (of_nat m) s = Inr (int m, bs2, v))) \<and>
      (\<forall>y. loaded (sb t) (content t d) (i_inum x) y = of_dinode (to_dinode (itable t ip)) y) \<and>
      (\<forall>j. j \<noteq> ip \<longrightarrow> itable t j = itable s j) \<and>
      (\<forall>a. inuse (sb s) (in_log s) C a \<and> a \<noteq> IBLOCK (i_inum x) (sb s) \<and> (\<forall>i \<le> MAXFILE. fslot x C i \<noteq> a) \<longrightarrow>
        content t d a = C a))"
proof -
  let ?o = "unat off" and ?k = "IBLOCK (i_inum x) (sb s)"
  obtain t y D where t: "writei ip (VSrc bs) off (of_nat (length bs)) s = Inr (int (length bs), t)" "mapped_file t ip"
    "grew (wcost ip s (wblocks ?o (length bs)) + 1) ip s t" "y = itable t ip" "D = content t (lg_dev (lg s))"
    "y = x\<lparr>i_addrs := i_addrs y, i_size := i_size y\<rparr>" "unat (i_size y) = max (unat (i_size x)) (?o + length bs)"
    "\<forall>i < unat (i_size y). fbyte y D i = (if ?o \<le> i \<and> i < ?o + length bs then bs ! (i - ?o) else fbyte x C i)"
    "D ?k = put (C ?k) (dinode_off (i_inum x)) (enc_dinode (to_dinode y))"
    "\<forall>a. inuse (sb s) (in_log s) C a \<and> a \<noteq> ?k \<and> (\<forall>i \<le> MAXFILE. fslot x C i \<noteq> a) \<longrightarrow> D a = C a"
    by (rule writei_grows [OF assms(1,2) assms(4) [unfolded assms(3)] refl]) (use assms in \<open>auto intro: that\<close>)
  note G = grewD [OF t(3)]
  have rt: "\<exists>u. readi ip VDst o2 (of_nat m) t = Inr (int m, map (fbyte y D) [unat o2..<unat o2 + m], u)"
    if "unat o2 + m \<le> unat (i_size y)" for o2 m using readi_mapped [OF t(2), of o2 m] that t(4,5) G(1) by simp
  have "map (fbyte y D) [?o..<?o + n] = bs" using t(7,8) assms(5) by (intro nth_equalityI) auto
  then have "\<exists>u. readi ip VDst off (of_nat n) t = Inr (int n, bs, u)" using rt [of off n] t(7) assms(5) by simp
  moreover have "\<exists>bs2 u v. readi ip VDst o2 (of_nat m) t = Inr (int m, bs2, u) \<and> readi ip VDst o2 (of_nat m) s = Inr (int m, bs2, v)"
    if le: "unat o2 + m \<le> unat (i_size x)" and dis: "{unat o2..<unat o2 + m} \<inter> {?o..<?o + n} = {}" for o2 :: u32 and m
  proof -
    have "fbyte y D i = fbyte x C i" if "i \<in> set [unat o2..<unat o2 + m]" for i
    proof -
      have "\<not> (?o \<le> i \<and> i < ?o + n)" using dis that by auto
      then show ?thesis using t(7,8) that le assms(5) by auto
    qed
    then have "map (fbyte y D) [unat o2..<unat o2 + m] = map (fbyte x C) [unat o2..<unat o2 + m]" by simp
    then show ?thesis using rt [of o2 m] readi_mapped [OF assms(1), of o2 m] le t(7) assms(2-4) by (metis max.coboundedI1)
  qed
  moreover have "length (C ?k) = BSIZE"
    using inuseD(2) [OF soundD(3) [OF sound_atD(3)]] assms(1-4) by (auto simp: mapped_file_def)
  then have "loaded (sb t) D (i_inum x) z = of_dinode (to_dinode y) z" for z
    using loaded_put [of D ?k "C ?k" "i_inum x" "to_dinode y" "sb s" z] t(9) G(3) by simp
  then have "\<forall>z. loaded (sb t) (content t d) (i_inum x) z = of_dinode (to_dinode (itable t ip)) z" using t(4,5) assms(3) by simp
  moreover have "\<forall>a. inuse (sb s) (in_log s) C a \<and> a \<noteq> ?k \<and> (\<forall>i \<le> MAXFILE. fslot x C i \<noteq> a) \<longrightarrow> content t d a = C a"
    using t(5,10) assms(3) by blast
  moreover have "unat (i_size (itable t ip)) = max (unat (i_size x)) (?o + n)" using t(4,7) assms(5) by simp
  moreover have "n \<le> 3 * BSIZE \<longrightarrow> wcost ip s (wblocks ?o n) + 1 \<le> MAXOPBLOCKS" using chunk_fits [OF assms(1)] assms(2,6) by blast
  ultimately show ?thesis using t(1) [folded assms(5)] t(2) G(5) by blast
qed

text \<open>The files of the example.\<close>

lemma fs_ex_inuse:
  assumes "a \<in> {32, 110, 111, 112}"
  shows "inuse (sb fs_ex) (in_log (binit fs_ex)) (content (binit fs_ex) 1) a"
  unfolding inuse_def
proof (intro conjI allI impI)
  have a: "32 \<le> uint a" "unat a < 120" "a \<noteq> 45" using assms by auto
  then show "\<not> in_log (binit fs_ex) a" by (intro fs_ex_out)
  show "length (content (binit fs_ex) 1 a) = BSIZE" using a(3) by (simp add: fs_ex_content fs_ex_sel)
  fix c assume c: "c < fs_size (sb fs_ex)"
  then show "bm_block (sb fs_ex) c \<noteq> a" using a(3) by (simp add: bm_block_def fs_ex_sel)
  assume "of_nat c = a"
  then have "unat (of_nat c :: u32) = unat a" by simp
  then have "c < 120" using a(2) c by (simp add: fs_ex_sel unsigned_of_nat take_bit_nat_eq_self)
  then show "\<not> blk_free (sb fs_ex) (content (binit fs_ex) 1) c" using fs_ex_free [of c] by simp
qed

lemma fs_ex_file:
  assumes "ip \<in> {0, 2, 3}"
  shows "mapped_file (binit fs_ex) ip"
    and "slots ip (binit fs_ex) i = (if i < NDIRECT then i_addrs (itable fs_ex ip) i else 0)"
proof -
  let ?x = "itable fs_ex ip" and ?C = "content (binit fs_ex) 1"
  have d: "lg_dev (lg (binit fs_ex)) = 1" by (simp add: fs_ex_sel log_ex_sel)
  have x: "i_dev ?x = 1" "i_addrs ?x 12 = 0" "i_addrs ?x j \<in> {0, 110, 111, 112}" "IBLOCK (i_inum ?x) (sb fs_ex) = 32"
    "i_addrs ?x j \<noteq> 0 \<Longrightarrow> i_addrs ?x j = i_addrs ?x l \<Longrightarrow> j = l" "i < fsize_blocks ?x \<Longrightarrow> i < NDIRECT \<and> i_addrs ?x i \<noteq> 0" "fsize_blocks ?x \<le> MAXFILE" for i j l
    using assms by (auto simp: fs_ex_sel IBLOCK_def fsize_blocks_def split: if_splits)
  have f: "fslot ?x ?C i = (if i < NDIRECT then i_addrs ?x i else 0)" for i using x(2) by (simp add: fslot_def)
  show sl: "slots ip (binit fs_ex) i = (if i < NDIRECT then i_addrs (itable fs_ex ip) i else 0)" for i
    by (simp add: slots_def d fs_ex_sel(6) f)
  have "\<not> blk_free (sb fs_ex) ?C 0" using fs_ex_free [of 0] by simp
  moreover have "bm_ok (sb fs_ex) (in_log (binit fs_ex)) ?C" using fs_ex_bitmap by (simp add: bitmap_ok_bm d fs_ex_sel(2))
  moreover have "inuse (sb fs_ex) (in_log (binit fs_ex)) ?C (fslot ?x ?C i) \<and> fslot ?x ?C i \<noteq> 32" if nz: "fslot ?x ?C i \<noteq> 0" for i
  proof -
    have "fslot ?x ?C i \<in> {110, 111, 112}" using x(3) [of i] nz unfolding f by (simp split: if_splits)
    then show ?thesis using fs_ex_inuse [of "fslot ?x ?C i"] by auto
  qed
  moreover have "i = j" if "fslot ?x ?C i = fslot ?x ?C j" "fslot ?x ?C i \<noteq> 0" for i j
    using x(5) that by (auto simp: f split: if_splits)
  ultimately have "sound (sb fs_ex) (in_log (binit fs_ex)) ?C 32 ?x"
    using fs_ex_inuse [of 32] by (simp add: sound_def fs_ex_sel(3))
  then have "sound_at ip 32 (binit fs_ex)" using fs_ex_open(1) x(1) by (simp add: sound_at_def d fs_ex_sel(2,6))
  then show "mapped_file (binit fs_ex) ip" using x(4,6,7) by (simp add: mapped_file_def fs_ex_sel(2,6) sl)
qed

lemma fs_ex_avail: "avail (binit fs_ex) = 80"
proof -
  have "{b. b < fs_size (sb fs_ex) \<and> blk_free (sb fs_ex) (content (binit fs_ex) 1) b} = {120..<200}"
    using fs_ex_free by (auto simp: fs_ex_sel)
  then show ?thesis by (simp add: avail_def nfree_def fs_ex_sel(1,2) log_ex_sel)
qed

theorem writei_readi_witness:
  "\<exists>t u. writei 0 (VSrc (replicate 60 7)) 2000 60 (binit fs_ex) = Inr (60, t) \<and> i_size (itable t 0) = 2060 \<and>
    readi 0 VDst 2000 60 t = Inr (60, replicate 60 7, u) \<and>
    (\<exists>bs u v. readi 0 VDst 0 1999 t = Inr (1999, bs, u) \<and> readi 0 VDst 0 1999 (binit fs_ex) = Inr (1999, bs, v))"
proof -
  have x: "unat (i_size (itable (binit fs_ex) 0)) = 2000" by (simp add: fs_ex_sel)
  have b: "wblocks (unat (2000 :: u32)) 60 = [1, 2]" by (simp add: wblocks_def upt_rec)
  have sl: "slots 0 (binit fs_ex) (Suc 0) = 111" "slots 0 (binit fs_ex) 2 = 0" using fs_ex_file(2) [of 0] by (simp_all add: fs_ex_sel)
  have nc: "wneed 0 (binit fs_ex) [1, 2] = 1" "wcost 0 (binit fs_ex) [1, 2] = 3" by (simp_all add: wneed_def wcost_def sl)
  have "room 4 (binit fs_ex)" by (rule fs_ex_room) simp
  then obtain t where t: "writei 0 (VSrc (replicate 60 7)) 2000 (of_nat 60) (binit fs_ex) = Inr (int 60, t)"
    "unat (i_size (itable t 0)) = max 2000 (unat (2000 :: u32) + 60)"
    "\<exists>u. readi 0 VDst 2000 (of_nat 60) t = Inr (int 60, replicate 60 7, u)"
    "\<forall>o2 m. unat o2 + m \<le> 2000 \<and> {unat o2..<unat o2 + m} \<inter> {unat (2000 :: u32)..<unat (2000 :: u32) + 60} = {} \<longrightarrow>
        (\<exists>bs2 u v. readi 0 VDst o2 (of_nat m) t = Inr (int m, bs2, u) \<and> readi 0 VDst o2 (of_nat m) (binit fs_ex) = Inr (int m, bs2, v))"
    using writei_readi [OF fs_ex_file(1) refl refl refl, of 0 60 "replicate 60 7" 2000] unfolding x b nc
    by (auto simp: fs_ex_avail)
  have "unat (0 :: u32) + 1999 \<le> 2000 \<and> {unat (0 :: u32)..<unat (0 :: u32) + 1999} \<inter> {unat (2000 :: u32)..<unat (2000 :: u32) + 60} = {}" by auto
  then have "\<exists>bs2 u v. readi 0 VDst 0 (of_nat 1999) t = Inr (int 1999, bs2, u) \<and> readi 0 VDst 0 (of_nat 1999) (binit fs_ex) = Inr (int 1999, bs2, v)"
    using t(4) by blast
  moreover have "i_size (itable t 0) = 2060" using t(2) by (simp add: word_unat_eq_iff)
  ultimately show ?thesis using t(1,3) by simp
qed

text \<open>C9. A name that \<^verbatim>\<open>dirlink\<close> entered is found.  In a directory without the name, inside a
  transaction and with enough free blocks, \<^verbatim>\<open>dirlink\<close> returns 0 and writes the first free entry, or a new one
  behind the last if none is free.  The directory has then that many entries; \<^verbatim>\<open>dirlookup\<close> of the name returns the
  inode with the number entered and the offset of this entry; every other name is found at the
  entry where it was found before, or not at all if it was not; and all other entries hold their old bytes.\<close>

theorem dirlink_dirlookup:
  fixes s :: "'a fkern_scheme" and inum :: u16
  assumes "dir_ok s dp" "x = itable s dp" "d = lg_dev (lg s)" "C = content s d" "0 \<notin> set name" "inum \<noteq> 0"
    "slot_of name x C = None" "k = (case free_slot x C of Some k \<Rightarrow> k | None \<Rightarrow> nents x)" "16 * k + 16 \<le> MAXFILE * BSIZE"
    "wneed dp s (wblocks (16 * k) 16) \<le> avail s" "room (wcost dp s (wblocks (16 * k) 16) + 1) s"
  shows "\<exists>t. dirlink dp name (ucast inum) s = Inr (0, t) \<and> dir_ok t dp \<and> nents (itable t dp) = max (nents x) (Suc k) \<and>
    (\<exists>u. kept 0 t u \<and> dirlookup dp name t = bnd (iget d (ucast inum) u) (\<lambda>(ip, v). Inr (Some (ip, of_nat (16 * k)), v))) \<and>
    (\<forall>m. takeWhile (\<lambda>c. c \<noteq> 0) (take DIRSIZ m) \<noteq> take DIRSIZ name \<longrightarrow>
       slot_of m (itable t dp) (content t d) = slot_of m x C) \<and>
    (\<forall>j < nents (itable t dp). entry (itable t dp) (content t d) j = (if j = k then dirent inum name else entry x C j)) \<and>
    (\<forall>j. j \<noteq> dp \<longrightarrow> itable t j = itable s j)"
proof -
  have k: "k = new_slot x C" using assms(8) by (simp add: new_slot_def)
  have i: "ucast (ucast inum :: u32) = inum" by (rule bit_word_eqI) (simp add: bit_simps)
  obtain t y where t: "dirlink dp name (ucast inum) s = Inr (0, t)" "dir_ok t dp" "grew (wcost dp s (wblocks (16 * k) 16) + 1) dp s t" "y = itable t dp"
    "nents y = max (nents x) (Suc k)" "\<And>j. j < nents y \<Longrightarrow> entry y (content t d) j = (if j = k then dirent inum name else entry x C j)"
    by (rule dirlink_ok [OF assms(1,2) assms(4) [unfolded assms(3)] assms(7,5) _ k assms(9,11,10), of "ucast inum", unfolded i])
      (use assms(3,6) in \<open>auto intro: that\<close>)
  note G = grewD [OF t(3)]
  note sl = slot_of_link [OF k t(5) assms(7,5,6) t(6)]
  have f: "find (\<lambda>k. named name (entry y (content t d) k)) [0..<nents y] = Some k"
    using sl [of name] name_take [OF assms(5), of DIRSIZ] by (simp add: slot_of_def)
  have "get16 (entry y (content t d) k) 0 = inum" using t(5,6) dirent_props(2) [OF assms(5,6)] by simp
  then obtain u where "kept 0 t u" "dirlookup dp name t = bnd (iget d (ucast inum) u) (\<lambda>(ip, v). Inr (Some (ip, of_nat (16 * k)), v))"
    using dirlookup_ok [OF t(2,4), of "content t d" name] G(1) assms(3) f by auto
  then show ?thesis using t(1,2,4,5,6) sl G(5) by (intro exI [of _ t]) auto
qed

theorem dirlink_dirlookup_witness:
  "\<exists>t u. dirlink 3 [97] 1 (binit fs_ex) = Inr (0, t) \<and> nents (itable t 3) = 1 \<and>
     dirlookup 3 [97] t = bnd (iget 1 1 u) (\<lambda>(ip, v). Inr (Some (ip, 0), v)) \<and> slot_of [98] (itable t 3) (content t 1) = None"
proof -
  let ?x = "itable (binit fs_ex) 3" and ?C = "content (binit fs_ex) 1"
  have d: "1 = lg_dev (lg (binit fs_ex))" by (simp add: fs_ex_sel log_ex_sel)
  have n: "nents ?x = 0" by (simp add: nents_def fs_ex_sel)
  then have sl: "slot_of m ?x ?C = None" "free_slot ?x ?C = None" for m by (simp_all add: slot_of_def free_slot_def)
  have ok: "dir_ok (binit fs_ex) 3" using fs_ex_file(1) [of 3] by (simp add: dir_ok_def fs_ex_sel)
  have b: "wblocks (16 * 0) 16 = [0]" by (simp add: wblocks_def)
  have s0: "slots 3 (binit fs_ex) 0 = 0" using fs_ex_file(2) [of 3] by (simp add: fs_ex_sel)
  have nc: "wneed 3 (binit fs_ex) (wblocks (16 * 0) 16) \<le> avail (binit fs_ex)" "room (wcost 3 (binit fs_ex) (wblocks (16 * 0) 16) + 1) (binit fs_ex)"
    unfolding b using fs_ex_room by (simp_all add: wneed_def wcost_def s0 fs_ex_avail)
  obtain t u where "dirlink 3 [97] (ucast (1 :: u16)) (binit fs_ex) = Inr (0, t)" "nents (itable t 3) = max 0 (Suc 0)"
    "dirlookup 3 [97] t = bnd (iget 1 (ucast (1 :: u16)) u) (\<lambda>(ip, v). Inr (Some (ip, of_nat (16 * 0)), v))"
    "\<forall>m. takeWhile (\<lambda>c. c \<noteq> 0) (take DIRSIZ m) \<noteq> take DIRSIZ [97] \<longrightarrow> slot_of m (itable t 3) (content t 1) = None"
    using dirlink_dirlookup [OF ok refl d refl, of "[97]" 1 0] nc sl n by auto
  then show ?thesis by auto
qed

end
