(* ===== verification/Ulib.thy ===== *)
theory Ulib
  imports Prelude
begin

text \<open>
  String functions of the user library, \<^verbatim>\<open>user/ulib.c\<close>.  A string is the list of its bytes
  before the terminating null byte; a pointer into it is the rest of the string from there.
  Input comes from \<open>rd\<close>, which gives the result of the \<open>i\<close>-th call of \<^verbatim>\<open>read\<close> for one byte: the
  byte, or \<open>None\<close> at the end of the file or on an error.
\<close>

fun u_strcmp :: "byte list \<Rightarrow> byte list \<Rightarrow> int" where
  "u_strcmp (a # p) (b # q) = (if a = b then u_strcmp p q else uint a - uint b)"
| "u_strcmp (a # p) [] = uint a"
| "u_strcmp [] (b # q) = - uint b"
| "u_strcmp [] [] = 0"

fun u_strlen :: "byte list \<Rightarrow> nat" where
  "u_strlen [] = 0"
| "u_strlen (c # s) = Suc (u_strlen s)"

text \<open>The offset of the byte found, in a buffer whose string ends at the first null byte.\<close>

fun u_strchr :: "byte list \<Rightarrow> byte \<Rightarrow> nat option" where
  "u_strchr [] c = None"
| "u_strchr (x # s) c = (if x = 0 then None else if x = c then Some 0 else map_option Suc (u_strchr s c))"

function gets_loop :: "(nat \<Rightarrow> byte option) \<Rightarrow> int \<Rightarrow> byte list \<Rightarrow> byte list" where
  "gets_loop rd mx b =
     (if int (length b) + 1 < mx
      then case rd (length b) of
             None \<Rightarrow> b
           | Some c \<Rightarrow> if c = 10 \<or> c = 13 then b @ [c] else gets_loop rd mx (b @ [c])
      else b)"
  by auto
termination by (relation "measure (\<lambda>(rd, mx, b). nat (mx - int (length b)))") auto

declare gets_loop.simps [simp del]

text \<open>The bytes stored, with the null byte at the end.\<close>

definition gets :: "(nat \<Rightarrow> byte option) \<Rightarrow> int \<Rightarrow> byte list" where
  "gets rd mx = gets_loop rd mx [] @ [0]"

fun u_memcmp :: "byte list \<Rightarrow> byte list \<Rightarrow> int" where
  "u_memcmp (a # p) (b # q) = (if a \<noteq> b then uint a - uint b else u_memcmp p q)"
| "u_memcmp _ _ = 0"

lemma u_strcmp_eq: "0 \<notin> set p \<Longrightarrow> 0 \<notin> set q \<Longrightarrow> u_strcmp p q = 0 \<longleftrightarrow> p = q"
  by (induction p q rule: u_strcmp.induct) (auto simp: uint_0_iff dest: unsigned_word_eqI)

lemma u_strchr_Some:
  "u_strchr s c = Some i \<Longrightarrow> i < length s \<and> s ! i = c \<and> c \<notin> set (take i s) \<and> 0 \<notin> set (take i s) \<and> c \<noteq> 0"
  by (induction s c arbitrary: i rule: u_strchr.induct) (auto split: if_splits)

lemma u_strchr_None: "0 \<notin> set s \<Longrightarrow> u_strchr s c = None \<longleftrightarrow> c \<notin> set s"
  by (induction s) auto

end
