(* ===== verification/Grep.thy ===== *)
theory Grep
  imports Ulib
begin

text \<open>
  The program \<^verbatim>\<open>user/grep.c\<close>: the regular-expression matcher, the loop that cuts the input into
  lines in a buffer of 1024 bytes, and the main program.  \<open>rd\<close> gives the number of bytes that
  the \<open>i\<close>-th \<^verbatim>\<open>read\<close> finds ready, negative for an error; the call returns at least one byte
  unless it is at the end of the file or was asked for none.
\<close>

abbreviation (input) STAR :: byte where "STAR \<equiv> 42"
abbreviation (input) DOT :: byte where "DOT \<equiv> 46"
abbreviation (input) DOLLAR :: byte where "DOLLAR \<equiv> 36"
abbreviation (input) CARET :: byte where "CARET \<equiv> 94"
abbreviation (input) NL :: byte where "NL \<equiv> 10"

section \<open>The matcher\<close>

function matchhere :: "byte list \<Rightarrow> byte list \<Rightarrow> bool"
  and matchstar :: "byte \<Rightarrow> byte list \<Rightarrow> byte list \<Rightarrow> bool" where
  "matchhere re tx =
     (case re of
        [] \<Rightarrow> True
      | c # re1 \<Rightarrow>
          if re1 \<noteq> [] \<and> hd re1 = STAR then matchstar c (tl re1) tx
          else if c = DOLLAR \<and> re1 = [] then tx = []
          else case tx of
                 [] \<Rightarrow> False
               | t # tx1 \<Rightarrow> if c = DOT \<or> c = t then matchhere re1 tx1 else False)"
| "matchstar c re tx =
     (if matchhere re tx then True
      else case tx of [] \<Rightarrow> False | t # tx1 \<Rightarrow> if t = c \<or> c = DOT then matchstar c re tx1 else False)"
  by pat_completeness auto
termination
  by (relation "measure (\<lambda>x. case x of Inl (re, tx) \<Rightarrow> 2 * (length re + length tx)
      | Inr (c, re, tx) \<Rightarrow> 2 * (length re + length tx) + 1)") auto

declare matchhere.simps [simp del] matchstar.simps [simp del]

fun match_loop :: "byte list \<Rightarrow> byte list \<Rightarrow> bool" where
  "match_loop re tx =
     (if matchhere re tx then True else case tx of [] \<Rightarrow> False | t # tx1 \<Rightarrow> match_loop re tx1)"

declare match_loop.simps [simp del]

definition match :: "byte list \<Rightarrow> byte list \<Rightarrow> bool" where
  "match re tx = (if re \<noteq> [] \<and> hd re = CARET then matchhere (tl re) tx else match_loop re tx)"

section \<open>The lines\<close>

text \<open>The inner loop on the bytes from \<^verbatim>\<open>p\<close> to the end of the buffer: the rest without a newline,
  and the output.\<close>

function grep_lines :: "byte list \<Rightarrow> byte list \<Rightarrow> byte list \<Rightarrow> byte list \<times> byte list" where
  "grep_lines pattern p out =
     (case u_strchr p NL of
        None \<Rightarrow> (p, out)
      | Some q \<Rightarrow> grep_lines pattern (drop (q + 1) p)
                    (if match pattern (take q p) then out @ take (q + 1) p else out))"
  by auto
termination
  by (relation "measure (\<lambda>(pattern, p, out). length p)") (auto dest!: u_strchr_Some)

declare grep_lines.simps [simp del]

definition read_some :: "int \<Rightarrow> nat \<Rightarrow> byte list \<Rightarrow> byte list" where
  "read_some ready n input = (if ready < 0 then [] else take (min n (max 1 (nat ready))) input)"

function grep :: "byte list \<Rightarrow> (nat \<Rightarrow> int) \<Rightarrow> nat \<Rightarrow> byte list \<Rightarrow> byte list \<Rightarrow> byte list \<Rightarrow> byte list" where
  "grep pattern rd i buf input out =
     (let got = read_some (rd i) (1024 - length buf - 1) input
      in if got = [] then out
         else let (rest, out) = grep_lines pattern (buf @ got) out
              in grep pattern rd (Suc i) rest (drop (length got) input) out)"
  by auto
termination
  by (relation "measure (\<lambda>(pattern, rd, i, buf, input, out). length input)")
    (auto simp: read_some_def split: if_splits)

declare grep.simps [simp del]

section \<open>The main program\<close>

text \<open>The exit status, standard output and standard error.  \<open>open\<close> gives the contents of a file and
  how its reads go, or \<open>None\<close>; \<open>stdin\<close> is the standard input.\<close>

fun grep_files :: "(byte list \<Rightarrow> (byte list \<times> (nat \<Rightarrow> int)) option) \<Rightarrow> byte list \<Rightarrow> byte list list \<Rightarrow> byte list \<Rightarrow> int \<times> byte list" where
  "grep_files open pattern [] out = (0, out)"
| "grep_files open pattern (f # fs) out =
     (case open f of
        None \<Rightarrow> (1, out @ map (of_nat \<circ> of_char) ''grep: cannot open '' @ f @ [NL])
      | Some (input, rd) \<Rightarrow> grep_files open pattern fs (grep pattern rd 0 [] input out))"

definition grep_main :: "(byte list \<Rightarrow> (byte list \<times> (nat \<Rightarrow> int)) option) \<Rightarrow> byte list \<times> (nat \<Rightarrow> int) \<Rightarrow>
  byte list list \<Rightarrow> int \<times> byte list \<times> byte list" where
  "grep_main open stdin argv =
     (if length argv \<le> 1 then (1, [], map (of_nat \<circ> of_char) ''usage: grep pattern [file ...]'' @ [NL])
      else if length argv \<le> 2 then (0, grep (argv ! 1) (snd stdin) 0 [] (fst stdin) [], [])
      else let (r, out) = grep_files open (argv ! 1) (drop 2 argv) [] in (r, out, []))"

section \<open>The language of a pattern\<close>

text \<open>A pattern is a sequence of atoms, each a character or the star of one, possibly anchored at
  the end.\<close>

datatype atom = One byte | Star byte

fun atoms :: "byte list \<Rightarrow> atom list \<times> bool" where
  "atoms [] = ([], False)"
| "atoms (c # re) =
     (if re \<noteq> [] \<and> hd re = STAR then let (as, e) = atoms (tl re) in (Star c # as, e)
      else if c = DOLLAR \<and> re = [] then ([], True)
      else let (as, e) = atoms re in (One c # as, e))"

definition accepts :: "byte \<Rightarrow> byte \<Rightarrow> bool" where
  "accepts c t \<longleftrightarrow> c = DOT \<or> c = t"

fun lang :: "atom list \<Rightarrow> byte list set" where
  "lang [] = {[]}"
| "lang (One c # as) = {t # w | t w. accepts c t \<and> w \<in> lang as}"
| "lang (Star c # as) = {u @ w | u w. list_all (accepts c) u \<and> w \<in> lang as}"

definition prefix_in :: "atom list \<times> bool \<Rightarrow> byte list \<Rightarrow> bool" where
  "prefix_in ae tx \<longleftrightarrow> (\<exists>w v. tx = w @ v \<and> w \<in> lang (fst ae) \<and> (snd ae \<longrightarrow> v = []))"

lemma prefix_inI: "w \<in> lang as \<Longrightarrow> (e \<longrightarrow> v = []) \<Longrightarrow> prefix_in (as, e) (w @ v)"
  by (auto simp: prefix_in_def)

lemma prefix_inE:
  assumes "prefix_in (as, e) tx"
  obtains w v where "tx = w @ v" "w \<in> lang as" "e \<longrightarrow> v = []"
  using assms by (auto simp: prefix_in_def)

lemma lang_StarI: "list_all (accepts c) u \<Longrightarrow> w \<in> lang as \<Longrightarrow> u @ w \<in> lang (Star c # as)"
  by auto

lemma lang_StarE:
  assumes "x \<in> lang (Star c # as)"
  obtains u w where "x = u @ w" "list_all (accepts c) u" "w \<in> lang as"
  using assms by auto

lemma prefix_in_One:
  "prefix_in (One c # as, e) (t # tx) \<longleftrightarrow> accepts c t \<and> prefix_in (as, e) tx" "\<not> prefix_in (One c # as, e) []"
proof
  assume "prefix_in (One c # as, e) (t # tx)"
  then obtain x v where "t # tx = x @ v" "x \<in> lang (One c # as)" "e \<longrightarrow> v = []" by (rule prefix_inE)
  then obtain w where "tx = w @ v" "w \<in> lang as" "accepts c t" "e \<longrightarrow> v = []" by auto
  then show "accepts c t \<and> prefix_in (as, e) tx" using prefix_inI [of w as e v] by blast
next
  assume a: "accepts c t \<and> prefix_in (as, e) tx"
  then obtain w v where "tx = w @ v" "w \<in> lang as" "e \<longrightarrow> v = []" by (rule conjE) (erule prefix_inE, blast)
  then show "prefix_in (One c # as, e) (t # tx)" using a prefix_inI [of "t # w" "One c # as" e v] by simp
qed (auto simp: prefix_in_def)

lemma prefix_in_Star:
  "prefix_in (Star c # as, e) tx \<longleftrightarrow> prefix_in (as, e) tx \<or>
     (case tx of [] \<Rightarrow> False | t # tx1 \<Rightarrow> accepts c t \<and> prefix_in (Star c # as, e) tx1)"
  (is "?l \<longleftrightarrow> ?r")
proof
  assume ?l
  then obtain x v where x: "tx = x @ v" "x \<in> lang (Star c # as)" "e \<longrightarrow> v = []" by (rule prefix_inE)
  from x(2) obtain u w where u: "x = u @ w" "list_all (accepts c) u" "w \<in> lang as" by (rule lang_StarE)
  show ?r
  proof (cases u)
    case Nil
    then show ?thesis using u x prefix_inI [of w as e v] by simp
  next
    case (Cons t u1)
    then have "u1 @ w \<in> lang (Star c # as)" using u(2,3) by (intro lang_StarI) simp_all
    then show ?thesis using Cons u x prefix_inI [of "u1 @ w" "Star c # as" e v] by simp
  qed
next
  assume ?r
  then consider "prefix_in (as, e) tx" | t tx1 where "tx = t # tx1" "accepts c t" "prefix_in (Star c # as, e) tx1"
    by (auto split: list.splits)
  then show ?l
  proof cases
    case 1
    then obtain w v where w: "tx = w @ v" "w \<in> lang as" "e \<longrightarrow> v = []" by (rule prefix_inE)
    then have "[] @ w \<in> lang (Star c # as)" by (intro lang_StarI) simp_all
    then show ?l using w prefix_inI [of w "Star c # as" e v] by simp
  next
    case 2
    from 2(3) obtain x v where x: "tx1 = x @ v" "x \<in> lang (Star c # as)" "e \<longrightarrow> v = []" by (rule prefix_inE)
    from x(2) obtain u w where "x = u @ w" "list_all (accepts c) u" "w \<in> lang as" by (rule lang_StarE)
    then have "t # x \<in> lang (Star c # as)" using 2(2) lang_StarI [of c "t # u" w as] by simp
    then show ?l using x 2(1) prefix_inI [of "t # x" "Star c # as" e v] by simp
  qed
qed

lemma matchhere_cases:
  "matchhere [] tx"
  "re \<noteq> [] \<and> hd re = STAR \<Longrightarrow> matchhere (c # re) tx = matchstar c (tl re) tx"
  "\<not> (re \<noteq> [] \<and> hd re = STAR) \<Longrightarrow> c = DOLLAR \<and> re = [] \<Longrightarrow> matchhere (c # re) tx = (tx = [])"
  "\<not> (re \<noteq> [] \<and> hd re = STAR) \<Longrightarrow> \<not> (c = DOLLAR \<and> re = []) \<Longrightarrow>
     matchhere (c # re) tx = (case tx of [] \<Rightarrow> False | t # tx1 \<Rightarrow> accepts c t \<and> matchhere re tx1)"
  by (subst matchhere.simps; auto simp: accepts_def split: list.splits)+

lemma matchhere_lang:
  "matchhere re tx = prefix_in (atoms re) tx"
  "matchstar c re tx = prefix_in (Star c # fst (atoms re), snd (atoms re)) tx"
proof (induction re tx and c re tx rule: matchhere_matchstar.induct)
  case (1 re tx)
  show ?case
  proof (cases re)
    case Nil
    then show ?thesis by (simp add: matchhere_cases prefix_in_def)
  next
    case (Cons c re1)
    consider (star) "re1 \<noteq> [] \<and> hd re1 = STAR" | (dollar) "\<not> (re1 \<noteq> [] \<and> hd re1 = STAR)" "c = DOLLAR \<and> re1 = []"
      | (char) "\<not> (re1 \<noteq> [] \<and> hd re1 = STAR)" "\<not> (c = DOLLAR \<and> re1 = [])" by blast
    then show ?thesis
    proof cases
      case star
      then show ?thesis using "1.IH"(1) [OF Cons] Cons by (simp add: matchhere_cases(2) split_def Let_def)
    next
      case dollar
      then show ?thesis using Cons by (auto simp: matchhere_cases(3) prefix_in_def)
    next
      case char
      have "atoms re = (One c # fst (atoms re1), snd (atoms re1))" using char Cons by (simp add: split_def Let_def)
      then show ?thesis using "1.IH"(2) [OF Cons char] Cons matchhere_cases(4) [OF char]
        by (cases tx) (auto simp: prefix_in_One accepts_def)
    qed
  qed
next
  case (2 c re tx)
  show ?case
  proof (cases "matchhere re tx")
    case True
    then show ?thesis using "2.IH"(1) by (subst matchstar.simps, subst prefix_in_Star) simp
  next
    case False
    then show ?thesis using "2.IH"(1) "2.IH"(2) [OF False]
      by (subst matchstar.simps, subst prefix_in_Star) (auto simp: accepts_def split: list.splits)
  qed
qed

lemma match_loop_lang: "match_loop re tx \<longleftrightarrow> (\<exists>u v. tx = u @ v \<and> prefix_in (atoms re) v)"
proof (induction tx)
  case Nil
  show ?case by (subst match_loop.simps) (simp add: matchhere_lang)
next
  case (Cons t tx)
  have "(\<exists>u v. t # tx = u @ v \<and> prefix_in (atoms re) v) \<longleftrightarrow>
      prefix_in (atoms re) (t # tx) \<or> (\<exists>u v. tx = u @ v \<and> prefix_in (atoms re) v)"
    by (simp add: Cons_eq_append_conv) blast
  then show ?case using Cons by (subst match_loop.simps) (simp add: matchhere_lang)
qed

section \<open>Lines\<close>

text \<open>The complete lines of the input and what follows the last newline.\<close>

fun split_nl :: "byte list \<Rightarrow> byte list list \<times> byte list" where
  "split_nl [] = ([], [])"
| "split_nl (c # cs) =
     (let (ls, r) = split_nl cs
      in if c = NL then ([] # ls, r) else case ls of [] \<Rightarrow> ([], c # r) | l # ls1 \<Rightarrow> ((c # l) # ls1, r))"

definition selected :: "byte list \<Rightarrow> byte list list \<Rightarrow> byte list" where
  "selected pattern ls = concat (map (\<lambda>l. if match pattern l then l @ [NL] else []) ls)"

lemma selected_simps [simp]:
  "selected pattern [] = []" "selected pattern (as @ bs) = selected pattern as @ selected pattern bs"
  "selected pattern (l # ls) = (if match pattern l then l @ [NL] else []) @ selected pattern ls"
  by (simp_all add: selected_def)

lemma split_nl_front:
  "NL \<notin> set b \<Longrightarrow> split_nl (b @ ys) =
     (case fst (split_nl ys) of [] \<Rightarrow> ([], b @ snd (split_nl ys)) | l # ls \<Rightarrow> ((b @ l) # ls, snd (split_nl ys)))"
  by (induction b) (auto simp: split_def Let_def prod_eq_iff split: list.splits)

lemma split_nl_none: "NL \<notin> set b \<Longrightarrow> split_nl b = ([], b)"
  using split_nl_front [of b "[]"] by simp

lemma split_nl_line: "NL \<notin> set b \<Longrightarrow> split_nl (b @ NL # ys) = (b # fst (split_nl ys), snd (split_nl ys))"
  by (simp add: split_nl_front split_def Let_def)

lemma split_nl_rest: "NL \<notin> set (snd (split_nl xs))" "set (snd (split_nl xs)) \<subseteq> set xs" "length (snd (split_nl xs)) \<le> length xs"
  by (induction xs) (auto simp: split_def Let_def split: list.splits)

lemma split_nl_append:
  "split_nl (xs @ ys) = (fst (split_nl xs) @ fst (split_nl (snd (split_nl xs) @ ys)), snd (split_nl (snd (split_nl xs) @ ys)))"
proof (induction xs)
  case (Cons c xs)
  show ?case
  proof (cases "c = NL \<or> fst (split_nl xs) \<noteq> []")
    case True
    then show ?thesis using Cons by (auto simp: split_def Let_def split: list.splits)
  next
    case False
    then have "split_nl (xs @ ys) = split_nl (snd (split_nl xs) @ ys)" using Cons by (simp add: prod_eq_iff)
    then show ?thesis using False by (simp add: split_def Let_def)
  qed
qed simp

lemma grep_lines_split:
  "0 \<notin> set p \<Longrightarrow> grep_lines pattern p out = (snd (split_nl p), out @ selected pattern (fst (split_nl p)))"
proof (induction pattern p out rule: grep_lines.induct)
  case (1 pattern p out)
  show ?case
  proof (cases "u_strchr p NL")
    case None
    then have "NL \<notin> set p" using u_strchr_None [OF 1(2)] by simp
    then show ?thesis using None by (simp add: grep_lines.simps [of pattern p] split_nl_none)
  next
    case (Some q)
    note q = u_strchr_Some [OF Some]
    have p: "take q p @ NL # drop (q + 1) p = p" "take (q + 1) p = take q p @ [NL]"
      using q id_take_nth_drop [of q p] by (auto simp: take_Suc_conv_app_nth)
    have "0 \<notin> set (drop (q + 1) p)" using 1(2) by (auto dest: in_set_dropD)
    note IH = 1(1) [OF Some this]
    have "split_nl p = (take q p # fst (split_nl (drop (q + 1) p)), snd (split_nl (drop (q + 1) p)))"
      using split_nl_line [of "take q p" "drop (q + 1) p"] q p(1) by simp
    then show ?thesis using Some IH p(2) by (simp add: grep_lines.simps [of pattern p])
  qed
qed

lemma read_some_split: "read_some r n input @ drop (length (read_some r n input)) input = input"
  by (auto simp: read_some_def min_def max_def)

lemma read_some_len: "length (read_some r n input) \<le> n"
  by (auto simp: read_some_def min_def)

lemma read_some_empty: "0 \<le> r \<Longrightarrow> read_some r n input = [] \<Longrightarrow> n = 0 \<or> input = []"
  by (auto simp: read_some_def min_def split: if_splits)

lemma grep_selected:
  assumes "0 \<notin> set (buf @ input)" "\<And>i. 0 \<le> rd i" "\<And>l. l \<in> set (fst (split_nl (buf @ input))) \<Longrightarrow> length l < 1023"
    "NL \<notin> set buf" "length buf \<le> 1023"
  shows "grep pattern rd i buf input out = out @ selected pattern (fst (split_nl (buf @ input)))"
  using assms
proof (induction pattern rd i buf input out rule: grep.induct)
  case (1 pattern rd i buf input out)
  let ?got = "read_some (rd i) (1024 - length buf - 1) input"
  show ?case
  proof (cases "?got = []")
    case True
    have "fst (split_nl (buf @ input)) = []"
    proof (cases "input = []")
      case False
      then have "length buf = 1023" using read_some_empty [OF 1(3) [of i] True] 1(6) by simp
      then show ?thesis
        using 1(4) [of "buf @ hd (fst (split_nl input))"] split_nl_front [OF 1(5), of input]
        by (cases "fst (split_nl input)") auto
    qed (use 1(5) split_nl_none in simp)
    then show ?thesis using True by (simp add: grep.simps [of pattern rd i])
  next
    case False
    let ?b = "buf @ ?got" and ?in = "drop (length ?got) input"
    have b: "0 \<notin> set ?b" "buf @ input = ?b @ ?in" using 1(2) read_some_split [of "rd i" _ input]
      by (metis append_assoc Un_iff set_append) (simp add: read_some_split)
    define r where "r = snd (split_nl ?b)"
    have gl: "grep_lines pattern ?b out = (r, out @ selected pattern (fst (split_nl ?b)))"
      using grep_lines_split [OF b(1)] by (simp add: r_def)
    have sp: "split_nl (buf @ input) = (fst (split_nl ?b) @ fst (split_nl (r @ ?in)), snd (split_nl (r @ ?in)))"
      unfolding b(2) r_def by (rule split_nl_append)
    have len: "length r \<le> 1023"
      using split_nl_rest(3) [of ?b] read_some_len [of "rd i" "1024 - length buf - 1" input] 1(6) by (simp add: r_def)
    have z: "0 \<notin> set (r @ ?in)" using split_nl_rest(2) [of ?b] b 1(2) by (auto simp: r_def dest: in_set_dropD)
    have "grep pattern rd (Suc i) r ?in (out @ selected pattern (fst (split_nl ?b))) =
        (out @ selected pattern (fst (split_nl ?b))) @ selected pattern (fst (split_nl (r @ ?in)))"
      by (rule 1(1) [OF refl False refl gl [symmetric]])
        (use z 1(3,4) sp len split_nl_rest(1) r_def in auto)
    then show ?thesis using False gl sp by (simp add: grep.simps [of pattern rd i] Let_def)
  qed
qed

text \<open>A line that does not fit.\<close>

lemma grep_stuck:
  assumes "NL \<notin> set (take 1023 (buf @ input))" "0 \<notin> set (take 1023 (buf @ input))" "length buf \<le> 1023"
  shows "grep pattern rd i buf input out = out"
  using assms
proof (induction pattern rd i buf input out rule: grep.induct)
  case (1 pattern rd i buf input out)
  let ?got = "read_some (rd i) (1024 - length buf - 1) input"
  show ?case
  proof (cases "?got = []")
    case True
    then show ?thesis by (simp add: grep.simps [of pattern rd i])
  next
    case False
    let ?b = "buf @ ?got" and ?in = "drop (length ?got) input"
    have e: "buf @ input = ?b @ ?in" by (simp add: read_some_split)
    have len: "length ?b \<le> 1023" using read_some_len [of "rd i" "1024 - length buf - 1" input] 1(4) by simp
    have b: "NL \<notin> set ?b" "0 \<notin> set ?b" using 1(2,3) len unfolding e by (auto simp: take_append)
    have gl: "grep_lines pattern ?b out = (?b, out)"
      using grep_lines_split [OF b(2)] split_nl_none [OF b(1)] by simp
    have "grep pattern rd (Suc i) ?b ?in out = out"
      by (rule 1(1) [OF refl False refl gl [symmetric]]) (fact 1(2) [unfolded e] 1(3) [unfolded e] len)+
    then show ?thesis using False gl by (simp add: grep.simps [of pattern rd i] Let_def)
  qed
qed

text \<open>A line of 1023 bytes or more ends the search: the buffer is full, so \<^verbatim>\<open>read\<close> is asked
  for no bytes, its result is taken for the end of the file, and nothing of what follows is
  printed.\<close>

lemma grep_stops_at_long_line:
  assumes "1023 \<le> length l" "NL \<notin> set l" "0 \<notin> set l"
  shows "grep pattern rd 0 [] (l @ NL # input) [] = []"
  using assms by (intro grep_stuck) (auto dest: in_set_takeD)

section \<open>Properties\<close>

text \<open>C14.  The matcher of \<^verbatim>\<open>grep\<close> is equivalent to the language of the pattern: \<^verbatim>\<open>match\<close> holds
  when some part of the text, or with a leading caret some prefix of it, is in the
  language of the atoms of the pattern, and reaches to the end of the text when the pattern
  ends in a dollar sign.\<close>

theorem match_language:
  "match re tx \<longleftrightarrow>
     (if re \<noteq> [] \<and> hd re = CARET then prefix_in (atoms (tl re)) tx
      else \<exists>u v. tx = u @ v \<and> prefix_in (atoms re) v)"
  by (simp add: match_def matchhere_lang match_loop_lang)

text \<open>C34.  \<^verbatim>\<open>grep\<close> returns, and prints exactly the complete lines that match, in order,
  however the reads cut the input, provided that the input has no null byte and no line of
  more than 1022 bytes, and that no read fails.\<close>

theorem grep_prints_matching_lines:
  assumes "0 \<notin> set input" "\<And>i. 0 \<le> rd i" "\<And>l. l \<in> set (fst (split_nl input)) \<Longrightarrow> length l < 1023"
  shows "grep pattern rd 0 [] input [] = concat (map (\<lambda>l. if match pattern l then l @ [NL] else []) (fst (split_nl input)))"
  using grep_selected [of "[]" input rd pattern 0 "[]"] assms by (simp add: selected_def)

theorem grep_prints_matching_lines_witness:
  "grep [97, 42, 98] (\<lambda>i. int i) 0 [] [120, 10, 97, 97, 98, 10, 98, 99, 10, 98] [] = [97, 97, 98, 10, 98, 99, 10]"
proof -
  have "match [97, 42, 98] [97, 97, 98]" "match [97, 42, 98] [98, 99]" "\<not> match [97, 42, 98] [120]"
    by (simp_all add: match_def match_loop.simps matchhere.simps matchstar.simps)
  then show ?thesis by (subst grep_prints_matching_lines) auto
qed

end
