(* ===== verification/Sh.thy ===== *)
theory Sh
  imports Ulib
begin

text \<open>
  The shell, \<^verbatim>\<open>user/sh.c\<close>: the tokeniser, the recursive-descent parser, the termination of the
  argument strings and the execution of commands.  The parser works on positions in the line:
  \<open>buf\<close> holds the bytes before the terminating null byte and \<^verbatim>\<open>es\<close> is its length.  A command
  is a tree whose words are pairs of a start and an end position.  The mutually recursive
  functions carry fuel, and \<open>parsecmd\<close> gives them enough of it; memory for the tree is never
  short.  The system calls that the shell makes are a tree of type \<open>prog\<close>, branching on their
  results.
\<close>

section \<open>Commands\<close>

abbreviation (input) MAXARGS :: nat where "MAXARGS \<equiv> 10"

datatype cmd =
    EXEC "(nat \<times> nat) list"
  | REDIR cmd nat nat int int
  | PIPE cmd cmd
  | LIST cmd cmd
  | BACK cmd

section \<open>Tokens\<close>

definition whitespace :: "byte list" where "whitespace = [32, 9, 13, 10, 11]"

definition symbols :: "byte list" where "symbols = [60, 124, 62, 38, 59, 40, 41]"

definition ch :: "byte list \<Rightarrow> nat \<Rightarrow> byte" where
  "ch buf i = (if i < length buf then buf ! i else 0)"

definition is_in :: "byte list \<Rightarrow> byte \<Rightarrow> bool" where
  "is_in cs c \<longleftrightarrow> u_strchr cs c \<noteq> None"

function skip_ws :: "byte list \<Rightarrow> nat \<Rightarrow> nat" where
  "skip_ws buf s = (if s < length buf \<and> is_in whitespace (ch buf s) then skip_ws buf (s + 1) else s)"
  by auto
termination by (relation "measure (\<lambda>(buf, s). length buf - s)") auto

function skip_word :: "byte list \<Rightarrow> nat \<Rightarrow> nat" where
  "skip_word buf s =
     (if s < length buf \<and> \<not> is_in whitespace (ch buf s) \<and> \<not> is_in symbols (ch buf s) then skip_word buf (s + 1) else s)"
  by auto
termination by (relation "measure (\<lambda>(buf, s). length buf - s)") auto

declare skip_ws.simps [simp del] skip_word.simps [simp del]

text \<open>The token, its start, its end, and the position of the next one.\<close>

definition gettoken :: "byte list \<Rightarrow> nat \<Rightarrow> byte \<times> nat \<times> nat \<times> nat" where
  "gettoken buf s =
     (let q = skip_ws buf s; c = ch buf q;
          (ret, eq) =
            (if c = 0 then (0, q)
             else if c = 124 \<or> c = 40 \<or> c = 41 \<or> c = 59 \<or> c = 38 \<or> c = 60 then (c, q + 1)
             else if c = 62 then (if ch buf (q + 1) = 62 then (43, q + 2) else (62, q + 1))
             else (97, skip_word buf q))
      in (ret, q, eq, skip_ws buf eq))"

definition peek :: "byte list \<Rightarrow> nat \<Rightarrow> byte list \<Rightarrow> bool \<times> nat" where
  "peek buf s toks = (let s = skip_ws buf s in (ch buf s \<noteq> 0 \<and> is_in toks (ch buf s), s))"

lemma skip_ws_bounds: "s \<le> skip_ws buf s" "s \<le> length buf \<Longrightarrow> skip_ws buf s \<le> length buf"
proof (induction buf s rule: skip_ws.induct)
  case (1 buf s)
  { case 1 then show ?case using "1.IH" by (subst skip_ws.simps) auto
  next case 2 then show ?case using "1.IH" by (subst skip_ws.simps) auto }
qed

lemma skip_word_bounds: "s \<le> skip_word buf s" "s \<le> length buf \<Longrightarrow> skip_word buf s \<le> length buf"
proof (induction buf s rule: skip_word.induct)
  case (1 buf s)
  { case 1 then show ?case using "1.IH" by (subst skip_word.simps) auto
  next case 2 then show ?case using "1.IH" by (subst skip_word.simps) auto }
qed

lemma ch_end: "ch buf s \<noteq> 0 \<Longrightarrow> s < length buf"
  by (auto simp: ch_def split: if_splits)

lemma is_in_simps: "is_in [] c = False" "is_in (x # cs) c \<longleftrightarrow> x \<noteq> 0 \<and> (x = c \<or> is_in cs c)"
  by (auto simp: is_in_def)

lemma skip_ws_stop: "\<not> (skip_ws buf s < length buf \<and> is_in whitespace (ch buf (skip_ws buf s)))"
proof (induction buf s rule: skip_ws.induct)
  case (1 buf s)
  then show ?case by (cases "s < length buf \<and> is_in whitespace (ch buf s)") (subst (1 2) skip_ws.simps, simp)+
qed

lemma skip_ws_idem [simp]: "skip_ws buf (skip_ws buf s) = skip_ws buf s"
  using skip_ws_stop [of buf s] by (subst skip_ws.simps) auto

text \<open>A token other than the end of the line is not empty.\<close>

lemma gettoken_adv:
  assumes "gettoken buf s = (t, q, eq, s')" "s \<le> length buf"
  shows "s \<le> q" "q \<le> eq" "eq \<le> s'" "s' \<le> length buf" "t = 0 \<longleftrightarrow> ch buf q = 0" "t \<noteq> 0 \<Longrightarrow> q < eq"
proof -
  let ?q = "skip_ws buf s"
  have q: "q = ?q" "s \<le> ?q" "?q \<le> length buf"
    using assms skip_ws_bounds [of s buf] by (auto simp: gettoken_def Let_def split: prod.splits if_splits)
  have word: "ch buf ?q \<noteq> 0 \<Longrightarrow> \<not> is_in symbols (ch buf ?q) \<Longrightarrow> ?q < skip_word buf ?q"
    using skip_word_bounds(1) [of "?q + 1" buf] skip_ws_stop [of buf s] ch_end [of buf ?q]
    by (subst skip_word.simps) auto
  have "eq \<le> length buf \<and> ?q \<le> eq \<and> (t = 0 \<longleftrightarrow> ch buf ?q = 0) \<and> (t \<noteq> 0 \<longrightarrow> ?q < eq) \<and> s' = skip_ws buf eq"
    using assms(1) q(3) word skip_word_bounds [of ?q buf] ch_end [of buf ?q] ch_end [of buf "?q + 1"]
    by (auto simp: gettoken_def Let_def symbols_def is_in_simps split: if_splits)
  then show "s \<le> q" "q \<le> eq" "eq \<le> s'" "s' \<le> length buf" "t = 0 \<longleftrightarrow> ch buf q = 0" "t \<noteq> 0 \<Longrightarrow> q < eq"
    using q skip_ws_bounds [of eq buf] by auto
qed

lemma peek_bounds:
  assumes "peek buf s toks = (b, s1)" "s \<le> length buf"
  shows "s \<le> s1" "s1 \<le> length buf" "skip_ws buf s1 = s1"
  using assms skip_ws_bounds [of s buf] by (auto simp: peek_def Let_def)

lemma peek_tok:
  assumes "peek buf s toks = (True, s1)" "gettoken buf s1 = (t, q, eq, s2)" "s \<le> length buf"
  shows "q = s1" "t \<noteq> 0" "s \<le> s1" "s1 < s2" "s < s2" "s2 \<le> length buf"
proof -
  note p = peek_bounds [OF assms(1,3)]
  have c: "ch buf s1 \<noteq> 0" using assms(1) by (auto simp: peek_def Let_def)
  show q: "q = s1" using assms(2) p(3) by (auto simp: gettoken_def Let_def split: if_splits)
  note g = gettoken_adv [OF assms(2) p(2)]
  show "t \<noteq> 0" using g(5) c q by simp
  then show "s \<le> s1" "s1 < s2" "s < s2" "s2 \<le> length buf" using g q p by auto
qed

section \<open>The parser\<close>

function parseredirs :: "byte list \<Rightarrow> cmd \<Rightarrow> nat \<Rightarrow> (cmd \<times> nat) res" where
  "parseredirs buf cmd s =
     (if length buf < s then Inl OutOfBounds
      else let (more, s) = peek buf s [60, 62]
      in if \<not> more then Inr (cmd, s)
         else let (tok, _, _, s) = gettoken buf s; (t, q, eq, s) = gettoken buf s
              in if t \<noteq> 97 then Inl (Panic ''missing file for redirection'')
                 else parseredirs buf
                        (if tok = 60 then REDIR cmd q eq 0 0
                         else if tok = 62 then REDIR cmd q eq 0x601 1
                         else if tok = 43 then REDIR cmd q eq 0x201 1
                         else cmd) s)"
  by auto
termination
proof (relation "measure (\<lambda>(buf, cmd, s). length buf - s)", simp)
  fix buf :: "byte list" and cmd s x more s1 y tok r1 r2 q1 r3 s2 z t r4 q r5 eq s3
  assume a: "\<not> length buf < s" "x = peek buf s [60, 62]" "(more, s1) = x" "\<not> \<not> more" "y = gettoken buf s1" "(tok, r1) = y"
    "(q1, r2) = r1" "(r3, s2) = r2" "z = gettoken buf s2" "(t, r4) = z" "(q, r5) = r4" "(eq, s3) = r5"
  have g: "peek buf s [60, 62] = (True, s1)" "gettoken buf s1 = (tok, q1, r3, s2)" "gettoken buf s2 = (t, q, eq, s3)"
    using a by auto
  have "s < s2" "s2 \<le> length buf" using peek_tok [OF g(1,2)] a(1) by simp_all
  then show "((buf, if tok = 60 then REDIR cmd q eq 0 0 else if tok = 62 then REDIR cmd q eq 0x601 1
      else if tok = 43 then REDIR cmd q eq 0x201 1 else cmd, s3), (buf, cmd, s)) \<in> measure (\<lambda>(buf, cmd, s). length buf - s)"
    using gettoken_adv(1-4) [OF g(3)] by simp
qed

declare parseredirs.simps [simp del]

text \<open>The \<^verbatim>\<open>execcmd\<close> is filled in after redirections have been put around it.\<close>

fun add_arg :: "nat \<times> nat \<Rightarrow> cmd \<Rightarrow> cmd" where
  "add_arg w (EXEC args) = EXEC (args @ [w])"
| "add_arg w (REDIR c q eq mode fd) = REDIR (add_arg w c) q eq mode fd"
| "add_arg w c = c"

function parseargs :: "byte list \<Rightarrow> cmd \<Rightarrow> nat \<Rightarrow> nat \<Rightarrow> (cmd \<times> nat) res" where
  "parseargs buf ret argc s =
     (if length buf < s then Inl OutOfBounds
      else let (stop, s) = peek buf s [124, 41, 38, 59]
      in if stop then Inr (ret, s)
         else let (tok, q, eq, s) = gettoken buf s
              in if tok = 0 then Inr (ret, s)
                 else if tok \<noteq> 97 then Inl (Panic ''syntax'')
                 else if argc + 1 \<ge> MAXARGS then Inl (Panic ''too many args'')
                 else case parseredirs buf (add_arg (q, eq) ret) s of
                        Inl e \<Rightarrow> Inl e
                      | Inr (ret, s) \<Rightarrow> parseargs buf ret (argc + 1) s)"
  by auto
termination
  by (relation "measure (\<lambda>(buf, ret, argc, s). MAXARGS - argc)") auto

declare parseargs.simps [simp del]

function parseback :: "byte list \<Rightarrow> cmd \<Rightarrow> nat \<Rightarrow> (cmd \<times> nat) res" where
  "parseback buf cmd s =
     (if length buf < s then Inl OutOfBounds
      else let (more, s) = peek buf s [38]
      in if \<not> more then Inr (cmd, s)
         else let (_, _, _, s) = gettoken buf s in parseback buf (BACK cmd) s)"
  by auto
termination
proof (relation "measure (\<lambda>(buf, cmd, s). length buf - s)", simp)
  fix buf :: "byte list" and cmd s x more s1 y tok r1 r2 q1 r3 s2
  assume a: "\<not> length buf < s" "x = peek buf s [38]" "(more, s1) = x" "\<not> \<not> more" "y = gettoken buf s1" "(tok, r1) = y"
    "(q1, r2) = r1" "(r3, s2) = r2"
  have g: "peek buf s [38] = (True, s1)" "gettoken buf s1 = (tok, q1, r3, s2)" using a by auto
  have "s < s2" "s2 \<le> length buf" using peek_tok [OF g] a(1) by simp_all
  then show "((buf, BACK cmd, s2), (buf, cmd, s)) \<in> measure (\<lambda>(buf, cmd, s). length buf - s)" by simp
qed

declare parseback.simps [simp del]

fun parseline :: "byte list \<Rightarrow> nat \<Rightarrow> nat \<Rightarrow> (cmd \<times> nat) res"
  and parsepipe :: "byte list \<Rightarrow> nat \<Rightarrow> nat \<Rightarrow> (cmd \<times> nat) res"
  and parseblock :: "byte list \<Rightarrow> nat \<Rightarrow> nat \<Rightarrow> (cmd \<times> nat) res"
  and parseexec :: "byte list \<Rightarrow> nat \<Rightarrow> nat \<Rightarrow> (cmd \<times> nat) res" where
  "parseline buf 0 s = Inl Diverges"
| "parseline buf (Suc k) s =
     bnd (parsepipe buf k s) (\<lambda>(cmd, s).
     bnd (parseback buf cmd s) (\<lambda>(cmd, s).
       let (more, s) = peek buf s [59]
       in if more
          then let (_, _, _, s) = gettoken buf s in bnd (parseline buf k s) (\<lambda>(right, s). Inr (LIST cmd right, s))
          else Inr (cmd, s)))"
| "parsepipe buf 0 s = Inl Diverges"
| "parsepipe buf (Suc k) s =
     bnd (parseexec buf k s) (\<lambda>(cmd, s).
       let (more, s) = peek buf s [124]
       in if more
          then let (_, _, _, s) = gettoken buf s in bnd (parsepipe buf k s) (\<lambda>(right, s). Inr (PIPE cmd right, s))
          else Inr (cmd, s))"
| "parseblock buf 0 s = Inl Diverges"
| "parseblock buf (Suc k) s =
     (let (opn, s) = peek buf s [40]
      in if \<not> opn then Inl (Panic ''parseblock'')
         else let (_, _, _, s) = gettoken buf s
              in bnd (parseline buf k s) (\<lambda>(cmd, s).
                   let (cls, s) = peek buf s [41]
                   in if \<not> cls then Inl (Panic ''syntax - missing )'')
                      else let (_, _, _, s) = gettoken buf s in parseredirs buf cmd s))"
| "parseexec buf 0 s = Inl Diverges"
| "parseexec buf (Suc k) s =
     (let (opn, s) = peek buf s [40]
      in if opn then parseblock buf k s
         else bnd (parseredirs buf (EXEC []) s) (\<lambda>(ret, s). parseargs buf ret 0 s))"

fun nulterminate :: "cmd \<Rightarrow> byte list \<Rightarrow> byte list" where
  "nulterminate (EXEC args) b = fold (\<lambda>(q, eq) b. b[eq := 0]) args b"
| "nulterminate (REDIR c q eq mode fd) b = (nulterminate c b)[eq := 0]"
| "nulterminate (PIPE l r) b = nulterminate r (nulterminate l b)"
| "nulterminate (LIST l r) b = nulterminate r (nulterminate l b)"
| "nulterminate (BACK c) b = nulterminate c b"

section \<open>Running commands\<close>

text \<open>
  The system calls of a process.  The result of a call selects how the process goes on: \<open>Fork\<close>
  gives 0 in the child, the number of the child in the parent and -1 on failure; \<open>Exec\<close> goes on
  only when it fails.
\<close>

datatype prog =
    Exit int
  | Exec "byte list list" prog
  | Close int prog
  | Open "byte list" int "int \<Rightarrow> prog"
  | Dup int prog
  | Pipe "(int \<times> int) option \<Rightarrow> prog"
  | Fork "int \<Rightarrow> prog"
  | Wait prog
  | Chdir "byte list" "int \<Rightarrow> prog"
  | Write int "byte list" prog

definition str :: "string \<Rightarrow> byte list" where
  "str cs = map (of_nat \<circ> of_char) cs"

definition sh_panic :: "string \<Rightarrow> prog" where
  "sh_panic m = Write 2 (str m @ [10]) (Exit 1)"

definition fork1 :: "(int \<Rightarrow> prog) \<Rightarrow> prog" where
  "fork1 k = Fork (\<lambda>pid. if pid = -1 then sh_panic ''fork'' else k pid)"

definition cstr :: "byte list \<Rightarrow> nat \<Rightarrow> byte list" where
  "cstr b q = takeWhile (\<lambda>c. c \<noteq> 0) (drop q b)"

primrec runcmd :: "byte list \<Rightarrow> cmd \<Rightarrow> prog" where
  "runcmd b (EXEC args) =
     (if args = [] then Exit 1
      else Exec (map (\<lambda>(q, eq). cstr b q) args)
             (Write 2 (str ''exec '' @ cstr b (fst (hd args)) @ str '' failed'' @ [10]) (Exit 0)))"
| "runcmd b (REDIR c q eq mode fd) =
     Close fd (Open (cstr b q) mode (\<lambda>r.
       if r < 0 then Write 2 (str ''open '' @ cstr b q @ str '' failed'' @ [10]) (Exit 1)
       else runcmd b c))"
| "runcmd b (LIST l r) = fork1 (\<lambda>pid. if pid = 0 then runcmd b l else Wait (runcmd b r))"
| "runcmd b (PIPE l r) =
     Pipe (\<lambda>p. case p of
         None \<Rightarrow> sh_panic ''pipe''
       | Some (p0, p1) \<Rightarrow>
           fork1 (\<lambda>pid. if pid = 0 then Close 1 (Dup p1 (Close p0 (Close p1 (runcmd b l)))) else
           fork1 (\<lambda>pid. if pid = 0 then Close 0 (Dup p0 (Close p0 (Close p1 (runcmd b r)))) else
           Close p0 (Close p1 (Wait (Wait (Exit 0)))))))"
| "runcmd b (BACK c) = fork1 (\<lambda>pid. if pid = 0 then runcmd b c else Exit 0)"

text \<open>\<^verbatim>\<open>parsecmd\<close> gives the command and the buffer, with its terminating null byte, in which the
  strings now end; or why it panics and what it prints first.\<close>

definition parsecmd :: "byte list \<Rightarrow> (stop \<times> byte list) + (cmd \<times> byte list)" where
  "parsecmd buf =
     (case parseline buf (4 * length buf + 4) 0 of
        Inl e \<Rightarrow> Inl (e, [])
      | Inr (cmd, s) \<Rightarrow>
          let (_, s) = peek buf s []
          in if s \<noteq> length buf then Inl (Panic ''syntax'', str ''leftovers: '' @ drop s buf @ [10])
             else Inr (cmd, nulterminate cmd (buf @ [0])))"

definition run_line :: "byte list \<Rightarrow> prog" where
  "run_line line =
     (case parsecmd line of
        Inr (cmd, b) \<Rightarrow> runcmd b cmd
      | Inl (Panic m, out) \<Rightarrow> if out = [] then sh_panic m else Write 2 out (sh_panic m)
      | Inl _ \<Rightarrow> Exit 1)"

text \<open>The start of \<^verbatim>\<open>main\<close>: descriptors returned by \<^verbatim>\<open>open\<close> are distinct, so the fourth is at
  least 3.\<close>

primrec open_console :: "nat \<Rightarrow> prog \<Rightarrow> prog" where
  "open_console 0 k = k"
| "open_console (Suc n) k =
     Open (str ''console'') 2 (\<lambda>fd. if fd < 0 then k else if fd \<ge> 3 then Close fd k else open_console n k)"

text \<open>The loop of \<^verbatim>\<open>main\<close> over the lines that \<^verbatim>\<open>getcmd\<close> returns; the list ends, or a line is
  empty, at the end of the input.\<close>

fun sh_loop :: "byte list list \<Rightarrow> prog" where
  "sh_loop [] = Write 2 (str ''$ '') (Exit 0)"
| "sh_loop (line # lines) =
     Write 2 (str ''$ '')
       (if line = [] then Exit 0
        else if take 3 line = str ''cd ''
        then let dir = drop 3 (butlast line)
             in Chdir dir (\<lambda>r. if r < 0 then Write 2 (str ''cannot cd '' @ dir @ [10]) (sh_loop lines) else sh_loop lines)
        else fork1 (\<lambda>pid. if pid = 0 then run_line line else Wait (sh_loop lines)))"

definition sh_main :: "byte list list \<Rightarrow> prog" where
  "sh_main lines = open_console 4 (sh_loop lines)"

section \<open>Well-formed commands\<close>

definition word_char :: "byte \<Rightarrow> bool" where
  "word_char c \<longleftrightarrow> c \<noteq> 0 \<and> \<not> is_in whitespace c \<and> \<not> is_in symbols c"

text \<open>A word of the line, as long as possible to the right.\<close>

definition word_at :: "byte list \<Rightarrow> nat \<Rightarrow> nat \<Rightarrow> bool" where
  "word_at buf q eq \<longleftrightarrow> q < eq \<and> eq \<le> length buf \<and> (\<forall>i \<in> {q..<eq}. word_char (ch buf i)) \<and> \<not> word_char (ch buf eq)"

fun wf_cmd :: "byte list \<Rightarrow> cmd \<Rightarrow> bool" where
  "wf_cmd buf (EXEC args) \<longleftrightarrow> length args < MAXARGS \<and> (\<forall>(q, eq) \<in> set args. word_at buf q eq)"
| "wf_cmd buf (REDIR c q eq mode fd) \<longleftrightarrow>
     wf_cmd buf c \<and> word_at buf q eq \<and> (mode, fd) \<in> {(0, 0), (0x601, 1), (0x201, 1)}"
| "wf_cmd buf (PIPE l r) \<longleftrightarrow> wf_cmd buf l \<and> wf_cmd buf r"
| "wf_cmd buf (LIST l r) \<longleftrightarrow> wf_cmd buf l \<and> wf_cmd buf r"
| "wf_cmd buf (BACK c) \<longleftrightarrow> wf_cmd buf c"

fun nargs :: "cmd \<Rightarrow> nat" where
  "nargs (EXEC args) = length args"
| "nargs (REDIR c q eq mode fd) = nargs c"
| "nargs c = 0"

lemma skip_word_chars:
  "0 \<notin> set buf \<Longrightarrow> (\<forall>i \<in> {s..<skip_word buf s}. word_char (ch buf i)) \<and> \<not> word_char (ch buf (skip_word buf s))"
proof (induction buf s rule: skip_word.induct)
  case (1 buf s)
  show ?case
  proof (cases "s < length buf \<and> \<not> is_in whitespace (ch buf s) \<and> \<not> is_in symbols (ch buf s)")
    case True
    then have e: "skip_word buf s = skip_word buf (s + 1)" by (subst skip_word.simps) simp
    have "ch buf s \<noteq> 0" using True 1(2) by (simp add: ch_def) (metis nth_mem)
    then have "word_char (ch buf s)" using True by (simp add: word_char_def)
    then show ?thesis using 1(1) [OF True 1(2)] unfolding e by (auto simp: Suc_le_eq le_less)
  next
    case False
    then have e: "skip_word buf s = s" by (subst skip_word.simps) auto
    show ?thesis using False unfolding e by (auto simp: word_char_def ch_def)
  qed
qed

lemma gettoken_word:
  assumes "gettoken buf s = (97, q, eq, s')" "0 \<notin> set buf" "s \<le> length buf"
  shows "word_at buf q eq"
proof -
  have "eq = skip_word buf q" using assms(1) by (auto simp: gettoken_def Let_def split: if_splits)
  then show ?thesis using skip_word_chars [OF assms(2), of q] gettoken_adv [OF assms(1,3)]
    by (simp add: word_at_def)
qed

text \<open>The outcome of a parsing function: a complaint, or a well-formed command and a later position.\<close>

definition good :: "byte list \<Rightarrow> nat \<Rightarrow> (cmd \<times> nat) res \<Rightarrow> bool" where
  "good buf s r \<longleftrightarrow> (case r of Inl e \<Rightarrow> (\<exists>m. e = Panic m) | Inr (c, s') \<Rightarrow> s \<le> s' \<and> s' \<le> length buf \<and> wf_cmd buf c)"

lemma good_simps [simp]:
  "good buf s (Inl (Panic m))" "\<not> good buf s (Inl Diverges)" "\<not> good buf s (Inl OutOfBounds)"
  "good buf s (Inr (c, s')) \<longleftrightarrow> s \<le> s' \<and> s' \<le> length buf \<and> wf_cmd buf c"
  by (auto simp: good_def)

lemma good_mono: "good buf s' r \<Longrightarrow> s \<le> s' \<Longrightarrow> good buf s r"
  by (auto simp: good_def split: sum.splits)

lemma good_bnd:
  assumes "good buf s r" "\<And>c s'. r = Inr (c, s') \<Longrightarrow> s \<le> s' \<Longrightarrow> s' \<le> length buf \<Longrightarrow> wf_cmd buf c \<Longrightarrow> good buf s (f (c, s'))"
  shows "good buf s (bnd r f)"
  using assms by (auto simp: good_def bnd_def split: sum.splits)

lemma parseredirs_good:
  "0 \<notin> set buf \<Longrightarrow> wf_cmd buf cmd \<Longrightarrow> s \<le> length buf \<Longrightarrow>
     good buf s (parseredirs buf cmd s) \<and> (\<forall>c s'. parseredirs buf cmd s = Inr (c, s') \<longrightarrow> nargs c = nargs cmd)"
proof (induction buf cmd s rule: parseredirs.induct)
  case (1 buf cmd s)
  obtain more s1 where p: "peek buf s [60, 62] = (more, s1)" by fastforce
  obtain tok q1 e1 s2 where g: "gettoken buf s1 = (tok, q1, e1, s2)" by (cases "gettoken buf s1")
  obtain t q eq s3 where g2: "gettoken buf s2 = (t, q, eq, s3)" by (cases "gettoken buf s2")
  note pb = peek_bounds [OF p 1(4)]
  show ?case
  proof (cases more)
    case False
    then show ?thesis using 1(3,4) p pb by (simp add: parseredirs.simps [of buf cmd])
  next
    case True
    then have p': "peek buf s [60, 62] = (True, s1)" using p by simp
    note adv = peek_tok [OF p' g 1(4)]
    note adv2 = gettoken_adv(1-4) [OF g2 adv(6)]
    let ?c = "if tok = 60 then REDIR cmd q eq 0 0 else if tok = 62 then REDIR cmd q eq 0x601 1
        else if tok = 43 then REDIR cmd q eq 0x201 1 else cmd"
    show ?thesis
    proof (cases "t = 97")
      case False
      then show ?thesis using p' g g2 1(4) by (simp add: parseredirs.simps [of buf cmd])
    next
      case t: True
      have "wf_cmd buf ?c" using 1(3) gettoken_word [OF g2 [unfolded t] 1(2) adv(6)] by simp
      moreover have "nargs ?c = nargs cmd" by simp
      moreover have "parseredirs buf cmd s = parseredirs buf ?c s3"
        using p' g g2 1(4) t by (simp add: parseredirs.simps [of buf cmd])
      moreover have "s \<le> s3" "s3 \<le> length buf" using adv adv2 by simp_all
      ultimately show ?thesis
        using 1(1) [OF _ p [symmetric] refl _ g [symmetric] refl refl refl g2 [symmetric] refl refl refl _ 1(2)] 1(4) True t
        by (auto intro: good_mono)
    qed
  qed
qed

lemma add_arg_wf:
  "wf_cmd buf c \<Longrightarrow> word_at buf q eq \<Longrightarrow> nargs c + 1 < MAXARGS \<Longrightarrow> wf_cmd buf (add_arg (q, eq) c)"
  "nargs (add_arg w c) \<le> nargs c + 1"
  by (induction c) auto

lemma parseargs_good:
  "0 \<notin> set buf \<Longrightarrow> wf_cmd buf ret \<Longrightarrow> s \<le> length buf \<Longrightarrow> nargs ret \<le> argc \<Longrightarrow> good buf s (parseargs buf ret argc s)"
proof (induction buf ret argc s rule: parseargs.induct)
  case (1 buf ret argc s)
  obtain halt s1 where p: "peek buf s [124, 41, 38, 59] = (halt, s1)" by fastforce
  obtain t q eq s2 where g: "gettoken buf s1 = (t, q, eq, s2)" by (cases "gettoken buf s1")
  note pb = peek_bounds [OF p 1(4)]
  note adv = gettoken_adv(1-4) [OF g pb(2)]
  consider "halt" | "\<not> halt" "t = 0" | "\<not> halt" "t \<noteq> 0" "t \<noteq> 97" | "\<not> halt" "t = 97" "argc + 1 \<ge> MAXARGS"
    | (arg) "\<not> halt" "t = 97" "argc + 1 < MAXARGS" by linarith
  then show ?case
  proof cases
    case arg
    let ?c = "add_arg (q, eq) ret"
    have "wf_cmd buf ?c" using add_arg_wf(1) [OF 1(3) gettoken_word [OF g [unfolded arg(2)] 1(2) pb(2)]] 1(5) arg(3) by simp
    note r = parseredirs_good [OF 1(2) this adv(4)]
    have e: "parseargs buf ret argc s = (case parseredirs buf ?c s2 of Inl e \<Rightarrow> Inl e | Inr (c, s') \<Rightarrow> parseargs buf c (argc + 1) s')"
      using p g arg 1(4) by (simp add: parseargs.simps [of buf ret])
    show ?thesis
    proof (cases "parseredirs buf ?c s2")
      case (Inl a)
      then show ?thesis using e r by (auto simp: good_def)
    next
      case (Inr b)
      obtain c s' where b: "b = (c, s')" by fastforce
      then have "s2 \<le> s'" "s' \<le> length buf" "wf_cmd buf c" "nargs c \<le> argc + 1"
        using r Inr add_arg_wf(2) [of "(q, eq)" ret] 1(5) by auto
      then show ?thesis
        using 1(1) [OF _ p [symmetric] refl _ g [symmetric] refl refl refl _ _ _ _ b [symmetric]] e Inr b 1(2,4) arg adv pb
        by (auto intro: good_mono)
    qed
  qed (use p g 1(3,4) pb adv in \<open>simp_all add: parseargs.simps [of buf ret]\<close>)
qed

lemma parseback_good:
  "wf_cmd buf cmd \<Longrightarrow> s \<le> length buf \<Longrightarrow> good buf s (parseback buf cmd s)"
proof (induction buf cmd s rule: parseback.induct)
  case (1 buf cmd s)
  obtain more s1 where p: "peek buf s [38] = (more, s1)" by fastforce
  obtain tok q1 e1 s2 where g: "gettoken buf s1 = (tok, q1, e1, s2)" by (cases "gettoken buf s1")
  note pb = peek_bounds [OF p 1(3)]
  show ?case
  proof (cases more)
    case False
    then show ?thesis using 1(2,3) p pb by (simp add: parseback.simps [of buf cmd])
  next
    case True
    then have p': "peek buf s [38] = (True, s1)" using p by simp
    note adv = peek_tok [OF p' g 1(3)]
    have "parseback buf cmd s = parseback buf (BACK cmd) s2" using p' g 1(3) by (simp add: parseback.simps [of buf cmd])
    then show ?thesis
      using 1(1) [OF _ p [symmetric] refl _ g [symmetric] refl refl refl] 1(2,3) True adv by (auto intro: good_mono)
  qed
qed

lemma gettoken_split: "\<exists>t q eq s'. gettoken buf s = (t, q, eq, s')"
  by (cases "gettoken buf s") simp

text \<open>One level of each of the mutually recursive functions.\<close>

lemma parseline_step:
  assumes "good buf s (parsepipe buf k s)"
    "\<And>s'. s < s' \<Longrightarrow> s' \<le> length buf \<Longrightarrow> good buf s' (parseline buf k s')"
  shows "good buf s (parseline buf (Suc k) s)"
  unfolding parseline.simps
proof (rule good_bnd [OF assms(1)])
  fix c s1 assume 1: "s \<le> s1" "s1 \<le> length buf" "wf_cmd buf c"
  show "good buf s (case (c, s1) of (cmd, s) \<Rightarrow> bnd (parseback buf cmd s) (\<lambda>(cmd, s). let (more, s) = peek buf s [59]
      in if more then let (_, _, _, s) = gettoken buf s in bnd (parseline buf k s) (\<lambda>(right, s). Inr (LIST cmd right, s))
         else Inr (cmd, s)))" unfolding prod.case
  proof (rule good_mono [OF good_bnd [OF parseback_good [OF 1(3,2)]] 1(1)])
    fix c2 s2 assume 2: "s1 \<le> s2" "s2 \<le> length buf" "wf_cmd buf c2"
    obtain b s3 where p: "peek buf s2 [59] = (b, s3)" by fastforce
    obtain t q eq s4 where g: "gettoken buf s3 = (t, q, eq, s4)" using gettoken_split by blast
    show "good buf s1 (case (c2, s2) of (cmd, s) \<Rightarrow> let (more, s) = peek buf s [59]
        in if more then let (_, _, _, s) = gettoken buf s in bnd (parseline buf k s) (\<lambda>(right, s). Inr (LIST cmd right, s))
           else Inr (cmd, s))"
    proof (cases b)
      case True
      note adv = peek_tok [OF p [unfolded True[THEN eqTrueI]] g 2(2)]
      have "good buf s4 (bnd (parseline buf k s4) (\<lambda>(right, s). Inr (LIST c2 right, s)))"
        by (rule good_bnd [OF assms(2)]) (use adv 1(1) 2 in auto)
      then show ?thesis using p g True adv(5) 2(1) by (auto intro: good_mono)
    qed (use p peek_bounds [OF p 2(2)] 2 in simp)
  qed
qed

lemma parsepipe_step:
  assumes "good buf s (parseexec buf k s)"
    "\<And>s'. s < s' \<Longrightarrow> s' \<le> length buf \<Longrightarrow> good buf s' (parsepipe buf k s')"
  shows "good buf s (parsepipe buf (Suc k) s)"
  unfolding parsepipe.simps
proof (rule good_bnd [OF assms(1)])
  fix c s1 assume 1: "s \<le> s1" "s1 \<le> length buf" "wf_cmd buf c"
  obtain b s3 where p: "peek buf s1 [124] = (b, s3)" by fastforce
  obtain t q eq s4 where g: "gettoken buf s3 = (t, q, eq, s4)" using gettoken_split by blast
  show "good buf s (case (c, s1) of (cmd, s) \<Rightarrow> let (more, s) = peek buf s [124]
      in if more then let (_, _, _, s) = gettoken buf s in bnd (parsepipe buf k s) (\<lambda>(right, s). Inr (PIPE cmd right, s))
         else Inr (cmd, s))"
  proof (cases b)
    case True
    note adv = peek_tok [OF p [unfolded True[THEN eqTrueI]] g 1(2)]
    have "good buf s4 (bnd (parsepipe buf k s4) (\<lambda>(right, s). Inr (PIPE c right, s)))"
      by (rule good_bnd [OF assms(2)]) (use adv 1 in auto)
    then show ?thesis using p g True adv(5) 1(1) by (auto intro: good_mono)
  qed (use p peek_bounds [OF p 1(2)] 1 in simp)
qed

lemma parseblock_step:
  assumes "0 \<notin> set buf" "s \<le> length buf"
    "\<And>s'. s < s' \<Longrightarrow> s' \<le> length buf \<Longrightarrow> good buf s' (parseline buf k s')"
  shows "good buf s (parseblock buf (Suc k) s)"
proof -
  obtain b s1 where p: "peek buf s [40] = (b, s1)" by fastforce
  obtain t q eq s2 where g: "gettoken buf s1 = (t, q, eq, s2)" using gettoken_split by blast
  show ?thesis
  proof (cases b)
    case True
    note adv = peek_tok [OF p [unfolded True[THEN eqTrueI]] g assms(2)]
    have "good buf s2 (bnd (parseline buf k s2) (\<lambda>(cmd, s). let (cls, s) = peek buf s [41]
        in if \<not> cls then Inl (Panic ''syntax - missing )'') else let (_, _, _, s) = gettoken buf s in parseredirs buf cmd s))"
    proof (rule good_bnd [OF assms(3) [OF adv(5,6)]], goal_cases)
      case (1 c s3)
      obtain b' s4 where p': "peek buf s3 [41] = (b', s4)" by fastforce
      obtain t' q' eq' s5 where g': "gettoken buf s4 = (t', q', eq', s5)" using gettoken_split by blast
      show ?case
      proof (cases b')
        case True
        note adv' = peek_tok [OF p' [unfolded True[THEN eqTrueI]] g' 1(3)]
        show ?thesis using parseredirs_good [OF assms(1) 1(4) adv'(6)] p' g' True adv'(5) 1(2) by (auto intro: good_mono)
      qed (use p' in simp)
    qed
    then show ?thesis using p g True adv(5) by (auto intro: good_mono)
  qed (use p in simp)
qed

lemma parseexec_step:
  assumes "0 \<notin> set buf" "s \<le> length buf"
    "\<And>s'. s \<le> s' \<Longrightarrow> s' \<le> length buf \<Longrightarrow> good buf s' (parseblock buf k s')"
  shows "good buf s (parseexec buf (Suc k) s)"
proof -
  obtain b s1 where p: "peek buf s [40] = (b, s1)" by fastforce
  note pb = peek_bounds [OF p assms(2)]
  show ?thesis
  proof (cases b)
    case True
    then show ?thesis using good_mono [OF assms(3) [OF pb(1,2)] pb(1)] p by simp
  next
    case False
    have r: "good buf s1 (parseredirs buf (EXEC []) s1)" "\<And>c s'. parseredirs buf (EXEC []) s1 = Inr (c, s') \<Longrightarrow> nargs c = 0"
      using parseredirs_good [OF assms(1), of "EXEC []" s1] pb by auto
    have "good buf s1 (bnd (parseredirs buf (EXEC []) s1) (\<lambda>(ret, s). parseargs buf ret 0 s))"
    proof (rule good_bnd [OF r(1)])
      fix c s' assume "parseredirs buf (EXEC []) s1 = Inr (c, s')" "s1 \<le> s'" "s' \<le> length buf" "wf_cmd buf c"
      then show "good buf s1 (case (c, s') of (ret, s) \<Rightarrow> parseargs buf ret 0 s)"
        using good_mono [OF parseargs_good [OF assms(1), of c s' 0]] r(2) by simp
    qed
    then show ?thesis using p False pb(1) by (auto intro: good_mono)
  qed
qed

lemma parse_good:
  assumes "0 \<notin> set buf"
  shows "s \<le> length buf \<Longrightarrow> 4 * (length buf - s) + 4 \<le> k \<Longrightarrow> good buf s (parseline buf k s)"
    "s \<le> length buf \<Longrightarrow> 4 * (length buf - s) + 3 \<le> k \<Longrightarrow> good buf s (parsepipe buf k s)"
    "s \<le> length buf \<Longrightarrow> 4 * (length buf - s) + 1 \<le> k \<Longrightarrow> good buf s (parseblock buf k s)"
    "s \<le> length buf \<Longrightarrow> 4 * (length buf - s) + 2 \<le> k \<Longrightarrow> good buf s (parseexec buf k s)"
proof (induction k arbitrary: s)
  case (Suc k)
  { case 1 show ?case by (rule parseline_step; rule Suc.IH) (use 1 in auto)
  next case 2 show ?case by (rule parsepipe_step; rule Suc.IH) (use 2 in auto)
  next case 3 show ?case by (rule parseblock_step [OF assms 3(1)]; rule Suc.IH) (use 3 in auto)
  next case 4 show ?case by (rule parseexec_step [OF assms 4(1)]; rule Suc.IH) (use 4 in auto)
  }
qed simp_all

section \<open>The strings of a command\<close>

text \<open>The ends of the words, where \<^verbatim>\<open>nulterminate\<close> stores null bytes, and the words.\<close>

fun ends :: "cmd \<Rightarrow> nat set" where
  "ends (EXEC args) = snd ` set args"
| "ends (REDIR c q eq mode fd) = insert eq (ends c)"
| "ends (PIPE l r) = ends l \<union> ends r"
| "ends (LIST l r) = ends l \<union> ends r"
| "ends (BACK c) = ends c"

fun spans :: "cmd \<Rightarrow> (nat \<times> nat) set" where
  "spans (EXEC args) = set args"
| "spans (REDIR c q eq mode fd) = insert (q, eq) (spans c)"
| "spans (PIPE l r) = spans l \<union> spans r"
| "spans (LIST l r) = spans l \<union> spans r"
| "spans (BACK c) = spans c"

lemma ends_spans: "ends c = snd ` spans c"
  by (induction c) auto

lemma wf_spans: "wf_cmd buf c \<Longrightarrow> (q, eq) \<in> spans c \<Longrightarrow> word_at buf q eq"
  by (induction c) auto

lemma nth_upd: "i < length b \<Longrightarrow> b[e := x] ! i = (if i = e then x else b ! i)"
  by (cases "i = e") auto

lemma fold_zero:
  "length (fold (\<lambda>(q, eq) b. b[eq := 0]) args b) = length b"
  "i < length b \<Longrightarrow> fold (\<lambda>(q, eq) b. b[eq := 0]) args b ! i = (if i \<in> snd ` set args then 0 else (b ! i :: byte))"
  by (induction args arbitrary: b) (auto simp: nth_upd rev_image_eqI)

lemma nulterminate_nth:
  "length (nulterminate c b) = length b"
  "i < length b \<Longrightarrow> nulterminate c b ! i = (if i \<in> ends c then 0 else b ! i)"
  by (induction c arbitrary: b) (auto simp: fold_zero nth_upd)

lemma cstr_word:
  assumes "wf_cmd buf c" "word_at buf q eq" "eq \<in> ends c"
  shows "cstr (nulterminate c (buf @ [0])) q = take (eq - q) (drop q buf)"
proof -
  let ?b = "nulterminate c (buf @ [0])"
  note w = assms(2) [unfolded word_at_def]
  have nth: "?b ! i = ch buf i \<and> ch buf i \<noteq> 0" if "i \<in> {q..<eq}" for i
  proof -
    have "i \<notin> ends c"
    proof
      assume "i \<in> ends c"
      then obtain q' where "word_at buf q' i" using assms(1) wf_spans by (fastforce simp: ends_spans)
      then show False using w that by (auto simp: word_at_def)
    qed
    then show ?thesis using that w by (auto simp: nulterminate_nth nth_append ch_def word_char_def)
  qed
  have z: "?b ! eq = 0" using assms(3) w by (simp add: nulterminate_nth)
  have len: "length ?b = length buf + 1" by (simp add: nulterminate_nth)
  have "eq - q < length (drop q ?b)" using w len by auto
  from id_take_nth_drop [OF this] have "drop q ?b = take (eq - q) (drop q ?b) @ 0 # drop (eq + 1) ?b"
    using w z len by simp
  moreover have "take (eq - q) (drop q ?b) = take (eq - q) (drop q buf)"
    using nth w len by (intro nth_equalityI) (auto simp: ch_def)
  moreover have "\<forall>x \<in> set (take (eq - q) (drop q buf)). x \<noteq> 0"
    using nth w by (auto simp: set_conv_nth ch_def)
  ultimately show ?thesis unfolding cstr_def by (simp add: takeWhile_append)
qed

lemma parsecmd_good:
  assumes "0 \<notin> set buf"
  shows "case parsecmd buf of Inl (e, out) \<Rightarrow> (\<exists>m. e = Panic m) | Inr (c, b) \<Rightarrow> wf_cmd buf c \<and> b = nulterminate c (buf @ [0])"
  using parse_good(1) [OF assms, of 0 "4 * length buf + 4"]
  by (auto simp: parsecmd_def good_def split: sum.splits prod.splits)

section \<open>Descriptors\<close>

text \<open>What a descriptor refers to.  A pipe is named by the place in the tree of processes where it
  was made.\<close>

datatype obj = Std nat | File "byte list" int | PipeR "nat list" | PipeW "nat list"

type_synonym fdt = "nat \<Rightarrow> obj option"

definition lowest :: "fdt \<Rightarrow> nat option" where
  "lowest t = find (\<lambda>i. t i = None) [0..<16]"

text \<open>What a process and its children do, when the calls succeed: \<^verbatim>\<open>open\<close>, \<^verbatim>\<open>dup\<close> and \<^verbatim>\<open>pipe\<close> take
  the lowest free descriptors.  An event is a program that starts, a wait for a child, both with the
  descriptors the process has open at that moment, or an exit.  The events of a child stand before
  those of its parent after the fork.\<close>

datatype event = Ran fdt "byte list list" | Waited fdt | Ended int

primrec execs :: "prog \<Rightarrow> nat list \<Rightarrow> fdt \<Rightarrow> event list" where
  "execs (Exit r) p t = [Ended r]"
| "execs (Exec argv k) p t = [Ran t argv]"
| "execs (Close fd k) p t = execs k p (t(nat fd := None))"
| "execs (Open name mode k) p t =
     (case lowest t of None \<Rightarrow> execs (k (-1)) p t | Some n \<Rightarrow> execs (k (int n)) p (t(n := Some (File name mode))))"
| "execs (Dup fd k) p t = (case lowest t of None \<Rightarrow> execs k p t | Some n \<Rightarrow> execs k p (t(n := t (nat fd))))"
| "execs (Pipe k) p t =
     (case lowest t of None \<Rightarrow> execs (k None) p t
      | Some n \<Rightarrow> let t' = t(n := Some (PipeR p))
        in case lowest t' of None \<Rightarrow> execs (k None) p t
           | Some m \<Rightarrow> execs (k (Some (int n, int m))) (2 # p) (t'(m := Some (PipeW p))))"
| "execs (Fork k) p t = execs (k 0) (0 # p) t @ execs (k 1) (1 # p) t"
| "execs (Wait k) p t = Waited t # execs k p t"
| "execs (Chdir d k) p t = execs (k 0) p t"
| "execs (Write fd out k) p t = execs k p t"

text \<open>What a command line means: which programs run with which input and output, and who waits.
  The process that made a pipe waits twice, with the descriptors it had before.\<close>

primrec wires :: "byte list \<Rightarrow> cmd \<Rightarrow> nat list \<Rightarrow> fdt \<Rightarrow> event list" where
  "wires b (EXEC args) p t = (if args = [] then [Ended 1] else [Ran t (map (\<lambda>(q, eq). cstr b q) args)])"
| "wires b (REDIR c q eq mode fd) p t = wires b c p (t(nat fd := Some (File (cstr b q) mode)))"
| "wires b (PIPE l r) p t =
     wires b l (0 # 2 # p) (t(1 := Some (PipeW p))) @ wires b r (0 # 1 # 2 # p) (t(0 := Some (PipeR p))) @
     [Waited t, Waited t, Ended 0]"
| "wires b (LIST l r) p t = wires b l (0 # p) t @ Waited t # wires b r (1 # p) t"
| "wires b (BACK c) p t = wires b c (0 # p) t @ [Ended 0]"

definition std :: "fdt \<Rightarrow> bool" where
  "std t \<longleftrightarrow> (\<forall>i. t i = None \<longleftrightarrow> 3 \<le> i)"

primrec event_std :: "event \<Rightarrow> bool" where
  "event_std (Ran t argv) = std t"
| "event_std (Waited t) = std t"
| "event_std (Ended r) = True"

lemma lowest_first:
  assumes "t n = None" "\<And>i. i < n \<Longrightarrow> t i \<noteq> None" "n < 16"
  shows "lowest t = Some n"
proof -
  have "[0..<16] = [0..<n] @ n # [Suc n..<16]" using assms(3) by (metis le_add_same_cancel1 less_imp_le upt_add_eq_append upt_conv_Cons zero_le le_add_diff_inverse add_0)
  moreover have "find (\<lambda>i. t i = None) [0..<n] = None" using assms(2) by (auto simp: find_None_iff)
  moreover have "find P (xs @ ys) = (case find P xs of None \<Rightarrow> find P ys | Some x \<Rightarrow> Some x)" for P and xs ys :: "nat list"
    by (induction xs) auto
  ultimately show ?thesis using assms(1) by (simp add: lowest_def)
qed

lemma std_upd: "std t \<Longrightarrow> i < 3 \<Longrightarrow> std (t(i := Some x))"
  by (auto simp: std_def)

lemma execs_fork1 [simp]: "execs (fork1 k) p t = execs (k 0) (0 # p) t @ execs (k 1) (1 # p) t"
  by (simp add: fork1_def)

lemma execs_redir:
  assumes "std t" "fd = 0 \<or> fd = 1"
  shows "execs (runcmd b (REDIR c q eq mode fd)) p t = execs (runcmd b c) p (t(nat fd := Some (File (cstr b q) mode)))"
proof -
  have "lowest (t(nat fd := None)) = Some (nat fd)" by (rule lowest_first) (use assms in \<open>auto simp: std_def\<close>)
  then show ?thesis by simp
qed

lemma execs_pipe:
  assumes "std t"
  shows "execs (runcmd b (PIPE l r)) p t =
    execs (runcmd b l) (0 # 2 # p) (t(1 := Some (PipeW p))) @ execs (runcmd b r) (0 # 1 # 2 # p) (t(0 := Some (PipeR p))) @
    [Waited t, Waited t, Ended 0]"
proof -
  let ?t = "t(3 := Some (PipeR p), 4 := Some (PipeW p))"
  have 3: "lowest t = Some 3" by (rule lowest_first) (use assms in \<open>auto simp: std_def\<close>)
  have 4: "lowest (t(3 := Some (PipeR p))) = Some 4"
    by (rule lowest_first) (use assms in \<open>auto simp: std_def simp del: not_None_eq\<close>)
  have 1: "lowest (?t(1 := None)) = Some 1" by (rule lowest_first) (use assms in \<open>auto simp: std_def\<close>)
  have 0: "lowest (?t(0 := None)) = Some 0" by (rule lowest_first) (use assms in \<open>auto simp: std_def\<close>)
  have "t 3 = None" "t 4 = None" using assms by (auto simp: std_def)
  then have "?t(1 := None, 1 := ?t 4, 3 := None, 4 := None) = t(1 := Some (PipeW p))"
    "?t(0 := None, 0 := ?t 3, 3 := None, 4 := None) = t(0 := Some (PipeR p))"
    "?t(3 := None, 4 := None) = t" by auto
  then show ?thesis using 3 4 1 0 by (simp add: Let_def)
qed

lemma execs_wires:
  "std t \<Longrightarrow> wf_cmd buf c \<Longrightarrow> execs (runcmd b c) p t = wires b c p t \<and> (\<forall>x \<in> set (wires b c p t). event_std x)"
proof (induction c arbitrary: p t)
  case (REDIR c q eq mode fd)
  have fd: "fd = 0 \<or> fd = 1" using REDIR.prems(2) by auto
  then have "std (t(nat fd := Some (File (cstr b q) mode)))" using REDIR.prems(1) by (auto intro: std_upd)
  then show ?case using REDIR.IH REDIR.prems(2) unfolding execs_redir [OF REDIR.prems(1) fd] wires.simps by simp
next
  case (PIPE l r)
  have s: "std (t(1 := Some (PipeW p)))" "std (t(0 := Some (PipeR p)))" using PIPE.prems(1) by (auto intro: std_upd)
  have w: "wf_cmd buf l" "wf_cmd buf r" using PIPE.prems(2) by simp_all
  show ?case using PIPE.IH(1) [OF s(1) w(1), of "0 # 2 # p"] PIPE.IH(2) [OF s(2) w(2), of "0 # 1 # 2 # p"] PIPE.prems(1)
    unfolding execs_pipe [OF PIPE.prems(1)] wires.simps by (simp add: fun_upd_def ball_Un)
qed (simp_all add: ball_Un)

text \<open>An example: \<^verbatim>\<open>a<b|c\<close>.\<close>

lemma parse_ex: "parsecmd [97, 60, 98, 124, 99] = Inr (PIPE (REDIR (EXEC [(0, 1)]) 2 3 0 0) (EXEC [(4, 5)]), [97, 0, 98, 0, 99, 0])"
  by code_simp

section \<open>Properties\<close>

text \<open>C35.  The shell's parser returns on every line: it ends with a command that takes up the
  whole line, or it panics with a message.  The fuel is never used up and no byte behind the line is
  looked at.\<close>

theorem parser_returns:
  assumes "0 \<notin> set line"
  shows "(\<exists>c b. parsecmd line = Inr (c, b)) \<or> (\<exists>m out. parsecmd line = Inl (Panic m, out))"
  using parsecmd_good [OF assms] by (auto split: sum.splits prod.splits)

theorem parser_returns_witness:
  "0 \<notin> set [40, 97, 59 :: byte] \<and> ((\<exists>c b. parsecmd [40, 97, 59] = Inr (c, b)) \<or> (\<exists>m out. parsecmd [40, 97, 59] = Inl (Panic m, out)))"
  using parser_returns [of "[40, 97, 59]"] by simp

text \<open>C36.  A command that the parser returns is well formed: fewer than \<^verbatim>\<open>MAXARGS\<close> arguments, so
  that the terminating null pointer fits; words that are non-empty and free of blanks, symbols
  and null bytes and as long as possible; and descriptors and modes that fit the kind of
  redirection.\<close>

theorem parsed_well_formed:
  assumes "0 \<notin> set line" "parsecmd line = Inr (c, b)"
  shows "wf_cmd line c"
  using parsecmd_good [OF assms(1)] assms(2) by simp

theorem parsed_well_formed_witness:
  "wf_cmd [97, 60, 98, 124, 99] (PIPE (REDIR (EXEC [(0, 1)]) 2 3 0 0) (EXEC [(4, 5)]))"
  by (rule parsed_well_formed [OF _ parse_ex]) simp

text \<open>C37.  After parsing, the words are null-terminated strings in the buffer: the string that
  starts at the position of a word is the word, whatever other words the command has.\<close>

theorem words_are_strings:
  assumes "0 \<notin> set line" "parsecmd line = Inr (c, b)" "(q, eq) \<in> spans c"
  shows "cstr b q = take (eq - q) (drop q line)"
proof -
  have "wf_cmd line c" "b = nulterminate c (line @ [0])" using parsecmd_good [OF assms(1)] assms(2) by simp_all
  moreover have "eq \<in> ends c" using assms(3) by (force simp: ends_spans)
  ultimately show ?thesis using cstr_word wf_spans assms(3) by blast
qed

theorem words_are_strings_witness:
  "cstr [97, 0, 98, 0, 99, 0] 2 = [98] \<and> (2, 3) \<in> spans (PIPE (REDIR (EXEC [(0, 1)]) 2 3 0 0) (EXEC [(4, 5)]))"
  using words_are_strings [OF _ parse_ex, of 2 3] by simp

text \<open>C15.  Running a parsed command wires its programs as the command line says: a redirection
  replaces one descriptor by the file, and a pipeline connects the left side's output to the right
  side's input.  No program has any other descriptor of the pipe open, and neither has the process
  that waits for the two sides, so that the reader can see the end of the input.  A list waits for its
  left command before it goes on, a background command is not waited for.\<close>

theorem shell_wires:
  assumes "0 \<notin> set line" "parsecmd line = Inr (c, b)" "std t"
  shows "execs (runcmd b c) p t = wires b c p t \<and> (\<forall>x \<in> set (execs (runcmd b c) p t). event_std x)"
  using execs_wires [OF assms(3), of line c b p] parsecmd_good [OF assms(1)] assms(2) by auto

theorem shell_wires_witness:
  "execs (runcmd [97, 0, 98, 0, 99, 0] (PIPE (REDIR (EXEC [(0, 1)]) 2 3 0 0) (EXEC [(4, 5)]))) []
     (\<lambda>i. if i < 3 then Some (Std i) else None) =
   [Ran ((\<lambda>i. if i < 3 then Some (Std i) else None)(1 := Some (PipeW []), 0 := Some (File [98] 0))) [[97]],
    Ran ((\<lambda>i. if i < 3 then Some (Std i) else None)(0 := Some (PipeR []))) [[99]],
    Waited (\<lambda>i. if i < 3 then Some (Std i) else None), Waited (\<lambda>i. if i < 3 then Some (Std i) else None), Ended 0]"
proof -
  have "std (\<lambda>i. if i < 3 then Some (Std i) else None)" by (simp add: std_def)
  note w = shell_wires [OF _ parse_ex this, of "[]"]
  have "cstr [97, 0, 98, 0, 99, 0] 0 = [97]" "cstr [97, 0, 98, 0, 99, 0] 2 = [98]" "cstr [97, 0, 98, 0, 99, 0] 4 = [99]"
    by (simp_all add: cstr_def)
  then show ?thesis using w by simp
qed

end
