(* ===== verification/Spec2Isabelle.thy ===== *)
theory Spec2Isabelle
  imports Descriptors Boot Growth Grep Sh
begin

text \<open>
  A verification of xv6 for RISC-V, with a multi-level priority scheduler, semaphores and
  reader-writer locks: the kernel in \<^verbatim>\<open>src/kernel\<close>, the program \<^verbatim>\<open>src/mkfs/mkfs.c\<close> that makes the
  image of the file system, and parts of \<^verbatim>\<open>src/user\<close>.

  \<^bold>\<open>How the code is translated.\<close>  Every C function is a function of the same name from the state
  (and its arguments) to the new state (and its result).  A C \<^verbatim>\<open>int\<close> is an \<open>int\<close> where the tables
  of the kernel or the guards of the code bound its values (indices, levels, process numbers, reader counts); the value of a
  semaphore, which a user program chooses and raises at will, wraps around at 32 bits (\<open>cint\<close> in \<open>Prelude\<close>); \<^verbatim>\<open>uint\<close>, \<^verbatim>\<open>uint64\<close>, \<^verbatim>\<open>ushort\<close> and
  \<^verbatim>\<open>char\<close> are words of 32, 64, 16 and 8 bits.  A function that may panic, run into undefined
  behaviour or have to wait returns \<open>'a res\<close> (\<open>Prelude\<close>): \<open>Inr\<close> of the result, or \<open>Inl\<close> of the
  reason for which it stops.  The state of the kernel is a chain of records that follows the
  layers of the code: \<open>kern\<close> (processes, ready queue, memory, ticks), \<open>pkern\<close> (pipes), \<open>ckern\<close>
  (console and serial line), \<open>bkern\<close> (buffers and disk), \<open>lkern\<close> (log), \<open>fkern\<close> (super block and
  inodes), \<open>ksys\<close> (open files).  An operation of a layer is polymorphic in the rest of the record,
  so that the upper layers call it as the code does.

  \<^bold>\<open>Processes and the scheduler.\<close>
  \<^item> \<open>Spinlock\<close> (\<^verbatim>\<open>spinlock.c\<close>): locks, \<^verbatim>\<open>push_off\<close> and \<^verbatim>\<open>pop_off\<close>; the interleaving of the harts at one
    lock is the step relation \<open>lock_step\<close>, with mutual exclusion by rule induction.
  \<^item> \<open>Runq\<close> (\<^verbatim>\<open>proc.c\<close>, the functions \<^verbatim>\<open>rq_*\<close> and \<^verbatim>\<open>prio_*\<close>): the ready queue as singly linked lists
    through the process table, and its abstraction to a list per level.  \<open>Fairness\<close> states the contract of the queue as
    the locale \<open>ready_queue\<close> and derives order of picks and absence of starvation.
  \<^item> \<open>Sched\<close> (\<^verbatim>\<open>proc.c\<close>, \<^verbatim>\<open>trap.c\<close>): \<^verbatim>\<open>schedule\<close>, \<^verbatim>\<open>yield\<close>, \<^verbatim>\<open>sleep\<close>, \<^verbatim>\<open>wakeup\<close>, \<^verbatim>\<open>kill\<close> and the timer, with
    the invariant that ties process states to the ready queue.
  \<^item> \<open>Sync\<close> (\<^verbatim>\<open>sleeplock.c\<close>, \<^verbatim>\<open>semaphore.c\<close>, \<^verbatim>\<open>rwlock.c\<close>): the locale \<open>wait_object\<close> has what the three have in
    common; the properties are about histories of operations, and the history of a semaphore records whether a signal
    came at the largest \<^verbatim>\<open>int\<close>.
  \<^item> \<open>Proc\<close> (\<^verbatim>\<open>proc.c\<close>): creation, \<^verbatim>\<open>fork\<close>, \<^verbatim>\<open>exit\<close>, \<^verbatim>\<open>wait\<close>; \<open>Exec\<close> (\<^verbatim>\<open>exec.c\<close>).

  \<^bold>\<open>Memory.\<close>
  \<^item> \<open>Mem\<close> (\<^verbatim>\<open>string.c\<close>) has the memory of bytes; \<open>Kalloc\<close> (\<^verbatim>\<open>kalloc.c\<close>) the free list inside it, with the locale
    \<open>page_allocator\<close>.
  \<^item> \<open>Vm\<close> (\<^verbatim>\<open>vm.c\<close>) has every function on page tables; \<open>Pagetable\<close> shows that mapping and unmapping are the
    corresponding updates of the translation, and that unmapping with freeing returns exactly the mapped pages to the free
    list; \<open>Usercopy\<close> reads the three levels of a page table on its own (\<open>user_pa\<close>: the byte is there when the entry has the
    bits for valid and for user) and shows what the copies to and from user space return, and at which byte they fail.

  \<^bold>\<open>Devices, pipes and output.\<close>
  \<^item> \<open>Ring\<close> states the contract of ring buffers (locale \<open>ring\<close>); \<open>Pipe\<close> (\<^verbatim>\<open>pipe.c\<close>) and \<open>Console\<close> (\<^verbatim>\<open>console.c\<close>,
    \<^verbatim>\<open>uart.c\<close>) interpret it and show that bytes come out in the order in which they went in.
  \<^item> \<open>Printf\<close> (both files \<^verbatim>\<open>printf.c\<close>), \<open>Virtio\<close> (\<^verbatim>\<open>virtio_disk.c\<close>).

  \<^bold>\<open>The file system.\<close>
  \<^item> \<open>Bio\<close> (\<^verbatim>\<open>bio.c\<close>) and \<open>Cache\<close>: one buffer per block, holding its current contents.
  \<^item> \<open>Log\<close> (\<^verbatim>\<open>log.c\<close>) and \<open>Recovery\<close>: a transaction cut off after any of its disk writes is, after recovery,
    there completely or not at all; the invariant of open transactions.
  \<^item> \<open>Fs\<close> (\<^verbatim>\<open>fs.c\<close>) has every function; \<open>Blocks\<close> shows what allocating and freeing blocks does to the disk as seen
    through cache and log (\<open>content\<close>), \<open>Inodes\<close> what inodes, files and directories hold and what reading them returns,
    \<open>Growth\<close> what writing does: a write that fills holes, allocates blocks (the indirect block included) and
    extends the file, and a directory entry that takes the first free slot or a new one at the end.
  \<^item> \<open>Mkfs\<close> (\<^verbatim>\<open>mkfs.c\<close>) has every function of the program and shows that it returns and what the image holds; \<open>Boot\<close>
    joins it to the kernel: mounting the image, looking up a file and reading it gives the bytes of the input file.
  \<^item> \<open>File\<close> (\<^verbatim>\<open>file.c\<close>), \<open>Sysfile\<close> (\<^verbatim>\<open>sysfile.c\<close>).

  \<^bold>\<open>The kernel as a whole.\<close>
  \<^item> \<open>Syscall\<close> (\<^verbatim>\<open>syscall.c\<close>, \<^verbatim>\<open>sysproc.c\<close>) has the dispatcher, \<open>Trap\<close> (\<^verbatim>\<open>trap.c\<close>, \<^verbatim>\<open>plic.c\<close>, \<^verbatim>\<open>main.c\<close>) the handlers and
    start-up.
  \<^item> \<open>Frames\<close> shows for every operation what it leaves alone, in a form that composes along the calls;
    \<open>Descriptors\<close> uses this for runs of system calls and interrupts (\<open>kstep\<close>): reference counts of open
    files are exact.

  \<^bold>\<open>User programs.\<close>  \<open>Ulib\<close> (\<^verbatim>\<open>ulib.c\<close>), \<open>Grep\<close> (\<^verbatim>\<open>grep.c\<close>: the matcher decides the language of the pattern, and
  the lines printed are the matching ones), \<open>Sh\<close> (\<^verbatim>\<open>sh.c\<close>: the parser returns on every line, its trees
  are well formed, and running one connects the programs as the line says, with no end of a pipe left open in a
  process that waits).

  \<^bold>\<open>Bounds and fuel.\<close>  Loops over a range are structural recursion or functions with a termination proof.  Loops that
  follow links, step through addresses or wait for a device are \<open>partial_function (option)\<close>; a loop that does not end
  makes the operation stop with \<open>Diverges\<close>, and the properties say that the operations return.  The recursion of \<^verbatim>\<open>walk\<close> runs down the
  three levels of the hardware, and \<^verbatim>\<open>freewalk\<close> takes the same depth as its fuel.  The recursive descent of the
  shell's parser takes fuel, four times the length of the line plus four; that this is enough for every line is the
  property \<open>parser_returns\<close>.  The loop of \<^verbatim>\<open>sh\<close> that opens the console runs four times at most: every round opens a new
  descriptor, and the fourth is not below 3.

  \<^bold>\<open>One pass of a waiting loop.\<close>  A call that has to wait (for a semaphore, a pipe, a child, input) is
  modelled up to its call of \<^verbatim>\<open>sleep\<close>, and starts again when the process is picked.  Inside the file system
  a call that would have to wait for a lock, a buffer or room in the log stops with \<open>Sleeping\<close>.  A system call therefore runs
  as one step between interrupts; in particular the calls of \<^verbatim>\<open>fileclose\<close> in \<^verbatim>\<open>exit\<close>, which may wait for the disk in the
  code, are part of one step.  For the layers above the driver, \<open>disk_rw\<close> in \<open>Bio\<close> is a completed request for one block; the
  descriptors, sectors and the interrupt of a request are in \<open>Virtio\<close>.

  \<^bold>\<open>Parameters.\<close>  The disk, the serial line, the interrupt controller, the contents of user programs and
  the results of host calls are arguments of the definitions that use them.

  \<^bold>\<open>Not modelled.\<close>  The assembly files, \<^verbatim>\<open>start.c\<close> and the accessors of control registers in \<^verbatim>\<open>riscv.h\<close> have no
  meaning without a model of the machine; a switch of context is a change of the current process.
  More than one hart is modelled for spin locks only; everything else runs on hart 0 between
  interrupts.  The test programs under \<^verbatim>\<open>user\<close> issue system calls and compare their results, which is
  no behaviour of their own, and the programs \<^verbatim>\<open>cat\<close>, \<^verbatim>\<open>echo\<close>, \<^verbatim>\<open>init\<close>, \<^verbatim>\<open>kill\<close>, \<^verbatim>\<open>ln\<close>, \<^verbatim>\<open>ls\<close>, \<^verbatim>\<open>mkdir\<close>, \<^verbatim>\<open>rm\<close> and
  \<^verbatim>\<open>wc\<close> are a loop around system calls.  The allocator \<^verbatim>\<open>umalloc.c\<close> is left out: the shell's model takes memory for its
  tree as available.  The headers give constants and prototypes only.
\<close>

end
